(* ===== verification/Py_Prelude.thy ===== *)
theory Py_Prelude
  imports Complex_Main "HOL-Library.AList" "HOL-Library.Sublist"
begin

text \<open>
  What the components share: Python values and their operations (equality, truth, \<open>str\<close> and
  \<open>repr\<close>), dictionaries in insertion order, the string methods the code calls, exceptions as
  values of a sum type, and the generic lemmas on lists and dictionaries that the component
  proofs use.

  Conventions of the model.
  \<^item> A Python \<open>str\<close> is a HOL \<^typ>\<open>string\<close>; characters beyond code point 255 do not occur. Message
    texts that contain an em dash or an arrow in the source are written with \<open>--\<close> and \<open><-\<close>.
  \<^item> A Python \<open>dict\<close> is an association list in insertion order. All keys are strings, as they are
    in the YAML and JSON documents the code reads. Assignment keeps the position of a key that is
    there and appends one that is not; this is \<^const>\<open>AList.update\<close>.
  \<^item> A Python \<open>float\<close> is the rational number its \<open>repr\<close> prints; rounding of sums is not modelled.
  \<^item> A raised exception is \<open>Inl (Exn kind message)\<close>.
\<close>

named_theorems dict_simps \<open>lookup after an update, a deletion or a merge\<close>
named_theorems exec_simps \<open>equations that unfold the executor's small helpers\<close>

section \<open>Dictionaries\<close>

type_synonym 'a dict = "(string \<times> 'a) list"

abbreviation dget :: "'a dict \<Rightarrow> string \<Rightarrow> 'a option" where
  "dget d k \<equiv> map_of d k"

abbreviation dset :: "string \<Rightarrow> 'a \<Rightarrow> 'a dict \<Rightarrow> 'a dict" where
  "dset \<equiv> AList.update"

abbreviation ddel :: "string \<Rightarrow> 'a dict \<Rightarrow> 'a dict" where
  "ddel \<equiv> AList.delete"

abbreviation dkeys :: "'a dict \<Rightarrow> string list" where
  "dkeys d \<equiv> map fst d"

definition dhas :: "string \<Rightarrow> 'a dict \<Rightarrow> bool" where
  "dhas k d = (dget d k \<noteq> None)"

definition dget_or :: "'a dict \<Rightarrow> string \<Rightarrow> 'a \<Rightarrow> 'a" where
  "dget_or d k v = (case dget d k of None \<Rightarrow> v | Some w \<Rightarrow> w)"

text \<open>\<open>d.update(e)\<close>, which is also \<open>{**d, **e}\<close>.\<close>

fun dmerge :: "'a dict \<Rightarrow> 'a dict \<Rightarrow> 'a dict" where
  "dmerge d [] = d"
| "dmerge d ((k, v) # e) = dmerge (dset k v d) e"

text \<open>\<open>for k in ks: d.pop(k, None)\<close>\<close>

fun dpops :: "string list \<Rightarrow> 'a dict \<Rightarrow> 'a dict" where
  "dpops [] d = d"
| "dpops (k # ks) d = dpops ks (ddel k d)"

definition dict_ok :: "'a dict \<Rightarrow> bool" where
  "dict_ok d = distinct (dkeys d)"

section \<open>Strings\<close>

definition chr_is :: "nat \<Rightarrow> char \<Rightarrow> bool" where
  "chr_is n c = (of_char c = n)"

definition startswith :: "string \<Rightarrow> string \<Rightarrow> bool" where
  "startswith p s = (take (length p) s = p)"

text \<open>\<open>p in s\<close>\<close>

fun has_sub :: "string \<Rightarrow> string \<Rightarrow> bool" where
  "has_sub p [] = (p = [])"
| "has_sub p (c # s) = (startswith p (c # s) \<or> has_sub p s)"

text \<open>\<open>s.split(c)\<close> for a one-character separator: never the empty list.\<close>

fun split_on :: "char \<Rightarrow> string \<Rightarrow> string list" where
  "split_on c [] = [[]]"
| "split_on c (x # xs) =
     (case split_on c xs of
        [] \<Rightarrow> [[x]]
      | p # ps \<Rightarrow> if x = c then [] # p # ps else (x # p) # ps)"

abbreviation split_dot :: "string \<Rightarrow> string list" where
  "split_dot \<equiv> split_on (CHR ''.'')"

text \<open>\<open>sep.join(parts)\<close>\<close>

fun join :: "string \<Rightarrow> string list \<Rightarrow> string" where
  "join sep [] = []"
| "join sep [p] = p"
| "join sep (p # q # ps) = p @ sep @ join sep (q # ps)"

text \<open>The characters \<open>str.strip\<close> removes, up to code point 255.\<close>

definition is_space :: "char \<Rightarrow> bool" where
  "is_space c = ((of_char c :: nat) \<in> {9, 10, 11, 12, 13, 28, 29, 30, 31, 32, 133, 160})"

definition lstrip :: "string \<Rightarrow> string" where
  "lstrip s = dropWhile is_space s"

definition strip :: "string \<Rightarrow> string" where
  "strip s = rev (dropWhile is_space (rev (lstrip s)))"

text \<open>\<open>str.lower\<close>, up to code point 255.\<close>

definition lower_char :: "char \<Rightarrow> char" where
  "lower_char c = (let n = of_char c :: nat in
     if 65 \<le> n \<and> n \<le> 90 \<or> 192 \<le> n \<and> n \<le> 222 \<and> n \<noteq> 215 then char_of (n + 32) else c)"

definition lower :: "string \<Rightarrow> string" where
  "lower s = map lower_char s"

definition is_digit :: "char \<Rightarrow> bool" where
  "is_digit c = (let n = of_char c :: nat in 48 \<le> n \<and> n \<le> 57)"

definition is_alpha :: "char \<Rightarrow> bool" where
  "is_alpha c = (let n = of_char c :: nat in 65 \<le> n \<and> n \<le> 90 \<or> 97 \<le> n \<and> n \<le> 122)"

text \<open>\<open>[A-Za-z_][A-Za-z0-9_]*\<close>\<close>

definition is_ident :: "string \<Rightarrow> bool" where
  "is_ident s = (case s of [] \<Rightarrow> False
     | c # cs \<Rightarrow> (is_alpha c \<or> c = CHR ''_'') \<and> list_all (\<lambda>x. is_alpha x \<or> is_digit x \<or> x = CHR ''_'') cs)"

fun nat_digits :: "nat \<Rightarrow> string" where
  "nat_digits n = (if n < 10 then [char_of (48 + n)] else nat_digits (n div 10) @ [char_of (48 + n mod 10)])"

declare nat_digits.simps [simp del]

definition int_str :: "int \<Rightarrow> string" where
  "int_str i = (if i < 0 then ''-'' @ nat_digits (nat (- i)) else nat_digits (nat i))"

definition nat_str :: "nat \<Rightarrow> string" where
  "nat_str n = nat_digits n"

section \<open>Python values\<close>

datatype pyval =
    PNone
  | PBool bool
  | PInt int
  | PFloat rat
  | PStr string
  | PList "pyval list"
  | PDict "(string \<times> pyval) list"

text \<open>\<open>bool(v)\<close>\<close>

fun truthy :: "pyval \<Rightarrow> bool" where
  "truthy PNone = False"
| "truthy (PBool b) = b"
| "truthy (PInt i) = (i \<noteq> 0)"
| "truthy (PFloat q) = (q \<noteq> 0)"
| "truthy (PStr s) = (s \<noteq> [])"
| "truthy (PList xs) = (xs \<noteq> [])"
| "truthy (PDict d) = (d \<noteq> [])"

text \<open>The number a value is, for comparison: a \<open>bool\<close> is the integer 0 or 1.\<close>

fun as_number :: "pyval \<Rightarrow> rat option" where
  "as_number (PBool b) = Some (if b then 1 else 0)"
| "as_number (PInt i) = Some (of_int i)"
| "as_number (PFloat q) = Some q"
| "as_number _ = None"

text \<open>
  \<open>a == b\<close>: numbers by value across \<open>bool\<close>, \<open>int\<close> and \<open>float\<close>; lists element by element;
  dictionaries by their keys, whatever the order.
\<close>

fun py_eq :: "pyval \<Rightarrow> pyval \<Rightarrow> bool"
  and py_eq_list :: "pyval list \<Rightarrow> pyval list \<Rightarrow> bool"
  and py_sub_dict :: "(string \<times> pyval) list \<Rightarrow> (string \<times> pyval) list \<Rightarrow> bool" where
  "py_eq PNone b = (b = PNone)"
| "py_eq (PBool x) b = (as_number b = Some (if x then 1 else 0))"
| "py_eq (PInt x) b = (as_number b = Some (of_int x))"
| "py_eq (PFloat x) b = (as_number b = Some x)"
| "py_eq (PStr s) b = (b = PStr s)"
| "py_eq (PList xs) b = (case b of PList ys \<Rightarrow> py_eq_list xs ys | _ \<Rightarrow> False)"
| "py_eq (PDict d) b = (case b of PDict e \<Rightarrow> length d = length e \<and> py_sub_dict d e | _ \<Rightarrow> False)"
| "py_eq_list [] ys = (ys = [])"
| "py_eq_list (x # xs) ys = (case ys of [] \<Rightarrow> False | y # ys' \<Rightarrow> py_eq x y \<and> py_eq_list xs ys')"
| "py_sub_dict [] e = True"
| "py_sub_dict ((k, v) # d) e =
     ((case map_of e k of None \<Rightarrow> False | Some w \<Rightarrow> py_eq v w) \<and> py_sub_dict d e)"

text \<open>\<open>v in xs\<close> for a list.\<close>

definition py_in :: "pyval \<Rightarrow> pyval list \<Rightarrow> bool" where
  "py_in v xs = list_ex (\<lambda>x. py_eq x v) xs"

text \<open>A value that can be a dictionary key or a set member.\<close>

fun hashable :: "pyval \<Rightarrow> bool" where
  "hashable (PList _) = False"
| "hashable (PDict _) = False"
| "hashable _ = True"

fun type_name :: "pyval \<Rightarrow> string" where
  "type_name PNone = ''NoneType''"
| "type_name (PBool _) = ''bool''"
| "type_name (PInt _) = ''int''"
| "type_name (PFloat _) = ''float''"
| "type_name (PStr _) = ''str''"
| "type_name (PList _) = ''list''"
| "type_name (PDict _) = ''dict''"

text \<open>
  The decimal digits after the point of a number in \<open>[0, 1)\<close>. A double prints at most 17
  significant digits; 20 places are kept here.
\<close>

fun frac_digits :: "nat \<Rightarrow> rat \<Rightarrow> string" where
  "frac_digits 0 q = []"
| "frac_digits (Suc n) q =
     (if q = 0 then [] else let d = \<lfloor>q * 10\<rfloor> in char_of (48 + nat d) # frac_digits n (q * 10 - of_int d))"

definition float_str :: "rat \<Rightarrow> string" where
  "float_str q = (let a = \<bar>q\<bar>; i = \<lfloor>a\<rfloor>; fs = frac_digits 20 (a - of_int i) in
     (if q < 0 then ''-'' else []) @ int_str i @ ''.'' @ (if fs = [] then ''0'' else fs))"

definition hex_digit :: "nat \<Rightarrow> char" where
  "hex_digit n = (if n < 10 then char_of (48 + n) else char_of (87 + n))"

text \<open>\<open>repr\<close> of a string: single quotes unless it holds one and no double quote.\<close>

definition repr_char :: "char \<Rightarrow> char \<Rightarrow> string" where
  "repr_char q c = (let n = of_char c :: nat in
     if c = q \<or> n = 92 then [char_of (92::nat), c]
     else if n = 10 then [char_of (92::nat), CHR ''n'']
     else if n = 13 then [char_of (92::nat), CHR ''r'']
     else if n = 9 then [char_of (92::nat), CHR ''t'']
     else if n < 32 \<or> 127 \<le> n \<and> n \<le> 160 \<or> n = 173
       then [char_of (92::nat), CHR ''x'', hex_digit (n div 16), hex_digit (n mod 16)]
     else [c])"

definition repr_str :: "string \<Rightarrow> string" where
  "repr_str s = (let q = (if CHR 0x27 \<in> set s \<and> CHR 0x22 \<notin> set s then CHR 0x22 else CHR 0x27) in
     [q] @ concat (map (repr_char q) s) @ [q])"

fun py_repr :: "pyval \<Rightarrow> string"
  and py_repr_list :: "pyval list \<Rightarrow> string list"
  and py_repr_dict :: "(string \<times> pyval) list \<Rightarrow> string list" where
  "py_repr PNone = ''None''"
| "py_repr (PBool b) = (if b then ''True'' else ''False'')"
| "py_repr (PInt i) = int_str i"
| "py_repr (PFloat q) = float_str q"
| "py_repr (PStr s) = repr_str s"
| "py_repr (PList xs) = ''['' @ join '', '' (py_repr_list xs) @ '']''"
| "py_repr (PDict d) = ''{'' @ join '', '' (py_repr_dict d) @ ''}''"
| "py_repr_list [] = []"
| "py_repr_list (x # xs) = py_repr x # py_repr_list xs"
| "py_repr_dict [] = []"
| "py_repr_dict ((k, v) # d) = (repr_str k @ '': '' @ py_repr v) # py_repr_dict d"

text \<open>\<open>str(v)\<close>\<close>

definition py_str :: "pyval \<Rightarrow> string" where
  "py_str v = (case v of PStr s \<Rightarrow> s | _ \<Rightarrow> py_repr v)"

definition quoted :: "string \<Rightarrow> string" where
  "quoted s = [CHR 0x27] @ s @ [CHR 0x27]"

section \<open>Exceptions\<close>

datatype exn_kind =
    KeyError | TypeError | ValueError | AttributeError | IndexError
  | ConditionError | TopologyError | ValidationError | LoaderError | CyclicDependencyError
  | TemplateExpansionError | DispatchRenderError | DispatchCapExceeded
  | TemplateError | SafetyConfigError | CancellationError | ReplacedByLaterAttempt | RunParked
  | AdmissionRefused | WorkflowError | TimeoutError | ConfigNotFoundError | ConfigValidationError
  | SchemaVersionError | RecursionError | OtherException

datatype exn = Exn (kind_of: exn_kind) (message_of: string)

type_synonym 'a res = "exn + 'a"

abbreviation raise :: "exn_kind \<Rightarrow> string \<Rightarrow> 'a res" where
  "raise k m \<equiv> Inl (Exn k m)"

definition bind_res :: "'a res \<Rightarrow> ('a \<Rightarrow> 'b res) \<Rightarrow> 'b res" where
  "bind_res r f = (case r of Inl e \<Rightarrow> Inl e | Inr x \<Rightarrow> f x)"

text \<open>A loop that stops at the first exception.\<close>

fun map_res :: "('a \<Rightarrow> 'b res) \<Rightarrow> 'a list \<Rightarrow> 'b list res" where
  "map_res f [] = Inr []"
| "map_res f (x # xs) =
     (case f x of Inl e \<Rightarrow> Inl e
      | Inr y \<Rightarrow> (case map_res f xs of Inl e \<Rightarrow> Inl e | Inr ys \<Rightarrow> Inr (y # ys)))"

fun fold_res :: "('s \<Rightarrow> 'a \<Rightarrow> 's res) \<Rightarrow> 's \<Rightarrow> 'a list \<Rightarrow> 's res" where
  "fold_res f s [] = Inr s"
| "fold_res f s (x # xs) = (case f s x of Inl e \<Rightarrow> Inl e | Inr t \<Rightarrow> fold_res f t xs)"

text \<open>\<open>a or b\<close>, and the items a \<open>for\<close> goes through.\<close>

definition py_or :: "pyval \<Rightarrow> pyval \<Rightarrow> pyval" where
  "py_or a b = (if truthy a then a else b)"

fun py_iter :: "pyval \<Rightarrow> pyval list res" where
  "py_iter (PList xs) = Inr xs"
| "py_iter (PStr s) = Inr (map (\<lambda>c. PStr [c]) s)"
| "py_iter (PDict d) = Inr (map (PStr \<circ> fst) d)"
| "py_iter v = raise TypeError (quoted (type_name v) @ '' object is not iterable'')"

text \<open>\<open>str(exc)\<close>: a \<open>KeyError\<close> prints the \<open>repr\<close> of its argument, the others the text itself.\<close>

definition exn_str :: "exn \<Rightarrow> string" where
  "exn_str e = (case e of Exn KeyError m \<Rightarrow> repr_str m | Exn _ m \<Rightarrow> m)"

section \<open>Lemmas the components share\<close>

lemma dget_dset [dict_simps, simp]: "dget (dset k v d) k' = (if k' = k then Some v else dget d k')"
  by (simp add: update_conv')

lemma dget_ddel [dict_simps, simp]: "dget (ddel k d) k' = (if k' = k then None else dget d k')"
  by (simp add: delete_conv')

lemma dget_or_dset [dict_simps, simp]: "dget_or (dset k v d) k' x = (if k' = k then v else dget_or d k' x)"
  by (simp add: dget_or_def)

lemma dget_or_Nil [simp]: "dget_or [] k x = x"
  by (simp add: dget_or_def)

lemma dget_dpops [dict_simps, simp]: "dget (dpops ks d) k = (if k \<in> set ks then None else dget d k)"
  by (induction ks arbitrary: d) auto

lemma dget_filter [dict_simps]:
  "dget (filter (\<lambda>p. P (fst p)) d) k = (if P k then dget d k else None)"
  by (induction d) auto

lemma dget_dmerge [dict_simps]:
  "dget (dmerge d e) k = (case dget (rev e) k of None \<Rightarrow> dget d k | Some v \<Rightarrow> Some v)"
  by (induction d e rule: dmerge.induct) (auto simp: map_add_def split: option.splits)

lemma dict_ok_dset [intro]: "dict_ok d \<Longrightarrow> dict_ok (dset k v d)"
  by (simp add: dict_ok_def distinct_update)

lemma dict_ok_ddel [intro]: "dict_ok d \<Longrightarrow> dict_ok (ddel k d)"
  by (simp add: dict_ok_def distinct_delete)

lemma dict_ok_dpops [intro]: "dict_ok d \<Longrightarrow> dict_ok (dpops ks d)"
  by (induction ks arbitrary: d) auto

lemma dict_ok_dmerge [intro]: "dict_ok d \<Longrightarrow> dict_ok (dmerge d e)"
  by (induction d e rule: dmerge.induct) auto

lemma dict_ok_filter [intro]: "dict_ok d \<Longrightarrow> dict_ok (filter P d)"
  by (induction d) (auto simp: dict_ok_def)

lemma dict_ok_Nil [simp]: "dict_ok []"
  by (simp add: dict_ok_def)

lemma dget_rev [simp]:
  assumes "dict_ok d"
  shows "dget (rev d) k = dget d k"
proof -
  have "dget (rev d) k = Some v \<longleftrightarrow> dget d k = Some v" for v
    using assms by (simp add: dict_ok_def map_of_eq_Some_iff rev_map [symmetric])
  then show ?thesis by (metis not_None_eq)
qed

lemma dget_dmerge_ok [dict_simps]:
  "dict_ok e \<Longrightarrow> dget (dmerge d e) k = (case dget e k of None \<Rightarrow> dget d k | Some v \<Rightarrow> Some v)"
  by (simp add: dget_dmerge)

lemma dget_in_keys: "dget d k = Some v \<Longrightarrow> k \<in> set (dkeys d)"
  by (induction d) (auto split: if_splits)

lemma dget_None_keys: "dget d k = None \<longleftrightarrow> k \<notin> set (dkeys d)"
  by (auto simp: map_of_eq_None_iff)

lemma dict_ok_mem: "dict_ok d \<Longrightarrow> (k, v) \<in> set d \<longleftrightarrow> dget d k = Some v"
  by (simp add: dict_ok_def)

lemma fst_set_dset [simp]: "fst ` set (dset k v d) = insert k (fst ` set d)"
  by (induction d) auto

lemma dhas_keys: "dhas k d \<longleftrightarrow> k \<in> fst ` set d"
  by (auto simp: dhas_def map_of_eq_None_iff)

lemma length_filter_count: "finite K \<Longrightarrow> length (filter (\<lambda>x. x \<in> K) xs) = (\<Sum>x \<in> K. count_list xs x)"
proof (induction xs)
  case (Cons a xs)
  have "(\<Sum>x \<in> K. count_list (a # xs) x) = (\<Sum>x \<in> K. (if x = a then 1 else 0) + count_list xs x)"
    by (rule sum.cong) auto
  with Cons show ?case by (simp add: sum.distrib)
qed simp

lemma split_on_nonempty [simp]: "split_on c s \<noteq> []"
  by (induction s) (auto split: list.splits)

lemma split_on_no_sep: "c \<notin> set s \<Longrightarrow> split_on c s = [s]"
  by (induction s) auto

lemma startswith_append [simp]: "startswith p (p @ s)"
  by (simp add: startswith_def)

lemma startswith_iff: "startswith p s \<longleftrightarrow> (\<exists>t. s = p @ t)"
  by (metis append_eq_conv_conj append_take_drop_id startswith_def)

lemma has_sub_iff: "has_sub p s \<longleftrightarrow> (\<exists>a b. s = a @ p @ b)"
proof (induction s)
  case Nil
  then show ?case by auto
next
  case (Cons c s)
  show ?case
    by (auto simp: Cons.IH startswith_iff Cons_eq_append_conv)
qed

lemma has_sub_append [intro]: "has_sub p b \<Longrightarrow> has_sub p (a @ b)"
  by (metis append.assoc has_sub_iff)

lemma has_sub_refl [simp]: "has_sub p p"
  by (metis append_Nil append_Nil2 has_sub_iff)

lemma split_on_join_rest: "split_on c (p @ c # s) = split_on c p @ split_on c s"
  by (induction p) (auto split: list.splits)

lemma map_res_length: "map_res f xs = Inr ys \<Longrightarrow> length ys = length xs"
  by (induction xs arbitrary: ys) (auto split: sum.splits)

lemma map_res_InrD: "map_res f xs = Inr ys \<Longrightarrow> list_all2 (\<lambda>x y. f x = Inr y) xs ys"
  by (induction xs arbitrary: ys) (auto split: sum.splits)

lemma map_res_InrI: "list_all2 (\<lambda>x y. f x = Inr y) xs ys \<Longrightarrow> map_res f xs = Inr ys"
  by (induction rule: list_all2_induct) auto

lemma bind_res_simps [simp]:
  "bind_res (Inl e) f = Inl e" "bind_res (Inr x) f = f x"
  by (simp_all add: bind_res_def)

lemma bind_res_Inr: "bind_res r f = Inr y \<longleftrightarrow> (\<exists>x. r = Inr x \<and> f x = Inr y)"
  by (cases r) auto

declare has_sub.simps(2) [simp del]

lemma dropWhile_idem: "dropWhile P (dropWhile P xs) = dropWhile P xs"
  by (induction xs) auto

text \<open>What \<open>strip\<close> leaves neither begins nor ends with a space.\<close>

lemma strip_ends:
  assumes "strip s \<noteq> []"
  shows "\<not> is_space (hd (strip s))" and "\<not> is_space (last (strip s))"
proof -
  let ?r = "dropWhile is_space (rev (lstrip s))"
  have r: "?r \<noteq> []" using assms by (simp add: strip_def)
  have last_r: "last ?r = hd (lstrip s)" using r
    by (metis dropWhile_eq_Nil_conv last_appendR last_rev rev_is_Nil_conv takeWhile_dropWhile_id)
  have "lstrip s \<noteq> []" using r by force
  then have "\<not> is_space (hd (lstrip s))" by (simp add: lstrip_def hd_dropWhile)
  then show "\<not> is_space (hd (strip s))" using last_r r by (simp add: strip_def hd_rev)
  show "\<not> is_space (last (strip s))" using r by (simp add: strip_def last_rev hd_dropWhile)
qed

lemma strip_Nil [simp]: "strip [] = []"
  by (simp add: strip_def lstrip_def)

lemma strip_idem [simp]: "strip (strip s) = strip s"
proof (cases "strip s = []")
  case False
  then obtain c cs where s: "strip s = c # cs" "\<not> is_space c" using strip_ends(1) by (metis list.exhaust_sel)
  then have "lstrip (strip s) = strip s" by (simp add: lstrip_def)
  moreover have "dropWhile is_space (rev (strip s)) = rev (strip s)"
    using strip_ends(2) [OF False] False by (metis dropWhile_eq_self_iff hd_rev)
  ultimately show ?thesis by (simp add: strip_def [of "strip s"])
qed simp

lemma nat_digits_nonempty [simp]: "nat_digits n \<noteq> []"
  by (subst nat_digits.simps) simp

lemma py_str_truthy: "truthy v \<Longrightarrow> py_str v \<noteq> []"
  by (cases v) (auto simp: py_str_def int_str_def float_str_def Let_def)

end
