(* ===== verification/Types.thy ===== *)
theory Types
  imports Py_Prelude
begin

text \<open>
  The data that crosses the modules of the engine: statuses, agent and node results
  (\<^verbatim>\<open>temper_ai/shared/types.py\<close>), the configuration of a node and of a workflow
  (\<^verbatim>\<open>temper_ai/stage/models.py\<close>), and the nodes of a graph (\<^verbatim>\<open>temper_ai/stage/node.py\<close>).

  A node result holds the results of its children, so it is a recursive datatype with selectors;
  assignments to its fields are the functions \<open>with_status\<close>, \<open>with_error\<close> and so on.
\<close>

section \<open>Results\<close>

datatype status = PENDING | RUNNING | COMPLETED | FAILED | SKIPPED | CANCELLED

fun status_value :: "status \<Rightarrow> string" where
  "status_value PENDING = ''pending''"
| "status_value RUNNING = ''running''"
| "status_value COMPLETED = ''completed''"
| "status_value FAILED = ''failed''"
| "status_value SKIPPED = ''skipped''"
| "status_value CANCELLED = ''cancelled''"

text \<open>\<open>Status(text)\<close>: a \<open>ValueError\<close> for a text that is no status.\<close>

definition status_of :: "string \<Rightarrow> status res" where
  "status_of s =
     (if s = ''pending'' then Inr PENDING
      else if s = ''running'' then Inr RUNNING
      else if s = ''completed'' then Inr COMPLETED
      else if s = ''failed'' then Inr FAILED
      else if s = ''skipped'' then Inr SKIPPED
      else if s = ''cancelled'' then Inr CANCELLED
      else raise ValueError (repr_str s @ '' is not a valid Status''))"

record token_usage =
  prompt_tokens :: int
  completion_tokens :: int
  total_tokens :: int

record agent_result =
  ar_status :: status
  ar_output :: string
  ar_structured_output :: "pyval dict option"
  ar_tokens :: token_usage
  ar_cost_usd :: rat
  ar_duration_seconds :: rat
  ar_memories_formed :: "string list"
  ar_error :: "string option"
  ar_llm_calls :: int
  ar_tool_calls :: int
  ar_metadata :: "pyval dict"

datatype node_result = NodeResult
  (nr_status: status)
  (nr_output: string)
  (nr_structured_output: "pyval dict option")
  (nr_agent_results: "agent_result list")
  (nr_node_results: "(string \<times> node_result) list")
  (nr_cost_usd: rat)
  (nr_total_tokens: int)
  (nr_duration_seconds: rat)
  (nr_error: "string option")
  (nr_metadata: "pyval dict")

text \<open>\<open>NodeResult(status=st)\<close> and \<open>NodeResult(status=st, error=e)\<close>: every other field has its default.\<close>

definition plain_result :: "status \<Rightarrow> node_result" where
  "plain_result st = NodeResult st [] None [] [] 0 0 0 None []"

definition error_result :: "status \<Rightarrow> string \<Rightarrow> node_result" where
  "error_result st e = NodeResult st [] None [] [] 0 0 0 (Some e) []"

fun with_status :: "status \<Rightarrow> node_result \<Rightarrow> node_result" where
  "with_status st (NodeResult _ out so ars nrs c t d e m) = NodeResult st out so ars nrs c t d e m"

fun with_output :: "string \<Rightarrow> node_result \<Rightarrow> node_result" where
  "with_output out (NodeResult st _ so ars nrs c t d e m) = NodeResult st out so ars nrs c t d e m"

fun with_error :: "string option \<Rightarrow> node_result \<Rightarrow> node_result" where
  "with_error e (NodeResult st out so ars nrs c t d _ m) = NodeResult st out so ars nrs c t d e m"

fun with_duration :: "rat \<Rightarrow> node_result \<Rightarrow> node_result" where
  "with_duration d (NodeResult st out so ars nrs c t _ e m) = NodeResult st out so ars nrs c t d e m"

fun with_metadata :: "string \<Rightarrow> pyval \<Rightarrow> node_result \<Rightarrow> node_result" where
  "with_metadata k v (NodeResult st out so ars nrs c t d e m) = NodeResult st out so ars nrs c t d e (dset k v m)"

text \<open>\<open>result.error or ""\<close>\<close>

definition error_text :: "node_result \<Rightarrow> string" where
  "error_text r = (case nr_error r of None \<Rightarrow> [] | Some e \<Rightarrow> e)"

text \<open>\<open>result.metadata.get(key)\<close> in a boolean place.\<close>

definition meta_set :: "string \<Rightarrow> node_result \<Rightarrow> bool" where
  "meta_set k r = (case dget (nr_metadata r) k of None \<Rightarrow> False | Some v \<Rightarrow> truthy v)"

section \<open>Configuration\<close>

record node_config =
  nc_name :: string
  nc_type :: string
  nc_agent :: "string option"
  nc_strategy :: "string option"
  nc_strategy_config :: "pyval dict"
  nc_agents :: "pyval list option"
  nc_ref :: "string option"
  nc_depends_on :: "string list"
  nc_condition :: "pyval dict option"
  nc_loop_to :: "string option"
  nc_max_loops :: int
  nc_loop_condition :: "pyval dict option"
  nc_on_max_loops :: string
  nc_run_after_failure :: bool
  nc_undoes :: "string list option"
  nc_on_failure :: pyval
  nc_required_files :: "pyval list option"
  nc_renamed_from :: "string list option"
  nc_timeout_seconds :: "int option"
  nc_gate :: bool
  nc_skip_policies :: "string list option"
  nc_input_map :: "pyval dict option"
  nc_inputs :: "pyval dict option"
  nc_outputs :: "pyval dict option"
  nc_task_template :: "string option"
  nc_system_prompt :: "string option"
  nc_role :: "string option"
  nc_model :: "string option"
  nc_provider :: "string option"
  nc_temperature :: "rat option"
  nc_max_tokens :: "int option"
  nc_token_budget :: "int option"
  nc_tools :: "string list option"
  nc_memory :: "pyval dict option"

text \<open>\<open>NodeConfig(name=n, type=t)\<close>: the dataclass defaults.\<close>

definition default_config :: "string \<Rightarrow> node_config" where
  "default_config n = \<lparr>
     nc_name = n, nc_type = ''agent'', nc_agent = None, nc_strategy = None,
     nc_strategy_config = [], nc_agents = None, nc_ref = None, nc_depends_on = [],
     nc_condition = None, nc_loop_to = None, nc_max_loops = 1, nc_loop_condition = None,
     nc_on_max_loops = ''silent'', nc_run_after_failure = False, nc_undoes = None,
     nc_on_failure = PNone, nc_required_files = None, nc_renamed_from = None,
     nc_timeout_seconds = None, nc_gate = False, nc_skip_policies = None,
     nc_input_map = None, nc_inputs = None, nc_outputs = None, nc_task_template = None,
     nc_system_prompt = None, nc_role = None, nc_model = None, nc_provider = None,
     nc_temperature = None, nc_max_tokens = None, nc_token_budget = None, nc_tools = None,
     nc_memory = None \<rparr>"

text \<open>The explicit child nodes of a stage's configuration (\<open>NodeConfig.nodes\<close>).\<close>

datatype config_tree = ConfigTree (tree_config: node_config) (tree_nodes: "config_tree list option")

record workflow_config =
  wf_name :: string
  wf_description :: string
  wf_version :: string
  wf_nodes :: "config_tree list"
  wf_inputs :: "pyval dict option"
  wf_outputs :: "pyval dict option"
  wf_safety :: "pyval dict option"
  wf_memory :: "pyval dict option"
  wf_defaults :: "pyval dict option"
  wf_on_failure :: pyval
  wf_notify :: pyval
  wf_starts_runs :: bool

section \<open>Nodes\<close>

datatype node_kind = AgentNode | StageNode | OtherNode

text \<open>
  A node of a graph: its class, its configuration, the agent configuration of an agent node, the
  child nodes of a stage node, and the class flag \<open>fails_stage\<close>, which is false for agent and stage
  nodes. What \<open>node.run\<close> does is a parameter of the executor.
\<close>

datatype node = Node
  (node_kind: node_kind)
  (config: node_config)
  (agent_config: "pyval dict")
  (child_nodes: "node list")
  (fails_stage: bool)

abbreviation name_of :: "node \<Rightarrow> string" where
  "name_of n \<equiv> nc_name (config n)"

abbreviation deps_of :: "node \<Rightarrow> string list" where
  "deps_of n \<equiv> nc_depends_on (config n)"

text \<open>\<open>AgentNode(config, resolved_agent_config)\<close> and \<open>StageNode(config, child_nodes)\<close>\<close>

definition agent_node :: "node_config \<Rightarrow> pyval dict \<Rightarrow> node" where
  "agent_node cfg conf = Node AgentNode cfg conf [] False"

definition stage_node :: "node_config \<Rightarrow> node list \<Rightarrow> node" where
  "stage_node cfg children = Node StageNode cfg [] children False"

text \<open>\<open>AgentNode.agent_configs\<close> and \<open>StageNode.agent_configs\<close>: every agent a node will run.\<close>

fun agent_configs :: "node \<Rightarrow> pyval dict list" where
  "agent_configs (Node AgentNode _ conf _ _) = [conf]"
| "agent_configs (Node StageNode _ _ children _) = concat (map agent_configs children)"
| "agent_configs (Node OtherNode _ _ _ _) = []"

text \<open>A node with a name and dependencies and every other field at its default.\<close>

definition simple_node :: "string \<Rightarrow> string list \<Rightarrow> node" where
  "simple_node n deps = agent_node ((default_config n)\<lparr>nc_depends_on := deps\<rparr>) [(''name'', PStr n)]"

section \<open>Lemmas\<close>

lemma node_sels [simp]:
  "config (agent_node cfg conf) = cfg" "agent_config (agent_node cfg conf) = conf"
  "node_kind (agent_node cfg conf) = AgentNode" "child_nodes (agent_node cfg conf) = []"
  "config (stage_node cfg ns) = cfg" "child_nodes (stage_node cfg ns) = ns"
  "node_kind (stage_node cfg ns) = StageNode"
  "name_of (simple_node n deps) = n" "deps_of (simple_node n deps) = deps"
  by (simp_all add: agent_node_def stage_node_def simple_node_def default_config_def)

lemma default_config_sels [simp]:
  "nc_name (default_config n) = n" "nc_depends_on (default_config n) = []"
  by (simp_all add: default_config_def)

lemma status_of_value [simp]: "status_of (status_value s) = Inr s"
  by (cases s) (simp_all add: status_of_def)

lemma status_value_inj [simp]: "status_value s = status_value t \<longleftrightarrow> s = t"
  by (cases s; cases t) simp_all

lemma status_of_Inr: "status_of s = Inr st \<longleftrightarrow> s = status_value st"
  by (cases st) (auto simp: status_of_def)

lemma with_status_sel [simp]:
  "nr_status (with_status st r) = st"
  "nr_error (with_status st r) = nr_error r"
  "nr_output (with_status st r) = nr_output r"
  "nr_structured_output (with_status st r) = nr_structured_output r"
  "nr_metadata (with_status st r) = nr_metadata r"
  "nr_cost_usd (with_status st r) = nr_cost_usd r"
  "nr_total_tokens (with_status st r) = nr_total_tokens r"
  "nr_duration_seconds (with_status st r) = nr_duration_seconds r"
  "nr_agent_results (with_status st r) = nr_agent_results r"
  "nr_node_results (with_status st r) = nr_node_results r"
  by (cases r; simp)+

lemma with_error_sel [simp]:
  "nr_status (with_error e r) = nr_status r"
  "nr_error (with_error e r) = e"
  "nr_output (with_error e r) = nr_output r"
  "nr_structured_output (with_error e r) = nr_structured_output r"
  "nr_metadata (with_error e r) = nr_metadata r"
  "nr_cost_usd (with_error e r) = nr_cost_usd r"
  "nr_total_tokens (with_error e r) = nr_total_tokens r"
  "nr_duration_seconds (with_error e r) = nr_duration_seconds r"
  "nr_agent_results (with_error e r) = nr_agent_results r"
  "nr_node_results (with_error e r) = nr_node_results r"
  by (cases r; simp)+

lemma with_metadata_sel [simp]:
  "nr_status (with_metadata k v r) = nr_status r"
  "nr_error (with_metadata k v r) = nr_error r"
  "nr_output (with_metadata k v r) = nr_output r"
  "nr_structured_output (with_metadata k v r) = nr_structured_output r"
  "nr_metadata (with_metadata k v r) = dset k v (nr_metadata r)"
  "nr_cost_usd (with_metadata k v r) = nr_cost_usd r"
  "nr_total_tokens (with_metadata k v r) = nr_total_tokens r"
  "nr_duration_seconds (with_metadata k v r) = nr_duration_seconds r"
  "nr_agent_results (with_metadata k v r) = nr_agent_results r"
  "nr_node_results (with_metadata k v r) = nr_node_results r"
  by (cases r; simp)+

lemma plain_result_sel [simp]:
  "nr_status (plain_result st) = st" "nr_error (plain_result st) = None"
  "nr_metadata (plain_result st) = []" "nr_cost_usd (plain_result st) = 0"
  "nr_total_tokens (plain_result st) = 0" "nr_structured_output (plain_result st) = None"
  "nr_output (plain_result st) = []" "nr_node_results (plain_result st) = []"
  by (simp_all add: plain_result_def)

lemma error_result_sel [simp]:
  "nr_status (error_result st e) = st" "nr_error (error_result st e) = Some e"
  "nr_metadata (error_result st e) = []" "nr_cost_usd (error_result st e) = 0"
  "nr_total_tokens (error_result st e) = 0" "nr_structured_output (error_result st e) = None"
  "nr_output (error_result st e) = []" "nr_node_results (error_result st e) = []"
  by (simp_all add: error_result_def)

lemma error_text_simps [simp]:
  "error_text (error_result st e) = e" "error_text (plain_result st) = []"
  by (simp_all add: error_text_def)

lemma meta_set_results [simp]:
  "\<not> meta_set k (plain_result st)" "\<not> meta_set k (error_result st e)"
  by (simp_all add: meta_set_def)

lemma meta_set_updates [simp]:
  "meta_set k (with_status st r) = meta_set k r"
  "meta_set k (with_error e r) = meta_set k r"
  "meta_set k (with_metadata k' v r) = (if k = k' then truthy v else meta_set k r)"
  by (simp_all add: meta_set_def)

end
