(* ===== verification/Toposort.thy ===== *)
theory Toposort
  imports Types "HOL-Library.Multiset"
begin

text \<open>
  Kahn's algorithm as the executor has it: \<^verbatim>\<open>topological_sort\<close> and \<^verbatim>\<open>_drain_batch\<close> of
  \<^verbatim>\<open>temper_ai/stage/executor.py\<close>. The result is a list of batches of nodes that can run together.
  Dependencies on names outside the graph are ignored; two nodes with one name make the count of
  processed names fall short of the number of nodes, which is reported as a cycle.
\<close>

section \<open>The model\<close>

definition build_node_map :: "node list \<Rightarrow> node dict" where
  "build_node_map nodes = fold (\<lambda>n m. dset (name_of n) n m) nodes []"

text \<open>The two nested loops that count the edges.\<close>

fun count_deps :: "node dict \<Rightarrow> string \<Rightarrow> string list \<Rightarrow> int dict \<times> string list dict \<Rightarrow> int dict \<times> string list dict" where
  "count_deps node_map name [] (in_degree, dependents) = (in_degree, dependents)"
| "count_deps node_map name (dep # deps) (in_degree, dependents) =
     (if dhas dep node_map
      then count_deps node_map name deps
             (dset name (dget_or in_degree name 0 + 1) in_degree,
              dset dep (dget_or dependents dep [] @ [name]) dependents)
      else count_deps node_map name deps (in_degree, dependents))"

fun count_edges :: "node dict \<Rightarrow> node list \<Rightarrow> int dict \<times> string list dict \<Rightarrow> int dict \<times> string list dict" where
  "count_edges node_map [] s = s"
| "count_edges node_map (n # ns) s = count_edges node_map ns (count_deps node_map (name_of n) (deps_of n) s)"

text \<open>\<open>for dependent in dependents[name]: in_degree[dependent] -= 1; ...\<close>\<close>

fun release :: "string list \<Rightarrow> int dict \<Rightarrow> string list \<Rightarrow> int dict \<times> string list" where
  "release [] in_degree next_queue = (in_degree, next_queue)"
| "release (d # ds) in_degree next_queue =
     (let v = dget_or in_degree d 0 - 1
      in release ds (dset d v in_degree) (if v = 0 then next_queue @ [d] else next_queue))"

fun drain_batch :: "string list \<Rightarrow> node dict \<Rightarrow> string list dict \<Rightarrow> int dict \<Rightarrow> nat \<Rightarrow> node list \<Rightarrow> string list
    \<Rightarrow> node list \<times> string list \<times> nat \<times> int dict" where
  "drain_batch [] node_map dependents in_degree processed batch next_queue =
     (batch, next_queue, processed, in_degree)"
| "drain_batch (name # queue) node_map dependents in_degree processed batch next_queue =
     (let batch' = (case dget node_map name of None \<Rightarrow> batch | Some n \<Rightarrow> batch @ [n]);
          (in_degree', next_queue') = release (dget_or dependents name []) in_degree next_queue
      in drain_batch queue node_map dependents in_degree' (processed + 1) batch' next_queue')"

text \<open>How many names still wait for a dependency: what the outer loop decreases.\<close>

definition positives :: "int dict \<Rightarrow> nat" where
  "positives d = card {k. \<exists>v. dget d k = Some v \<and> 0 < v}"

lemma positives_finite [simp]: "finite {k. \<exists>v. dget d k = Some v \<and> 0 < (v::int)}"
  by (rule finite_subset [of _ "set (dkeys d)"]) (auto dest: dget_in_keys)

lemma release_positives:
  "release ds deg nq = (deg', nq') \<Longrightarrow> positives deg' + length nq' \<le> positives deg + length nq"
proof (induction ds arbitrary: deg nq)
  case (Cons d ds)
  let ?v = "dget_or deg d 0 - 1"
  let ?P = "\<lambda>e. {k. \<exists>v. dget e k = Some v \<and> 0 < (v::int)}"
  have sub: "?P (dset d ?v deg) \<subseteq> ?P deg"
    by (auto simp: dget_or_def split: option.splits if_splits)
  then have le: "positives (dset d ?v deg) \<le> positives deg"
    unfolding positives_def by (rule card_mono [OF positives_finite])
  have lt: "positives (dset d ?v deg) < positives deg" if "?v = 0"
  proof -
    from that have "d \<in> ?P deg" and "d \<notin> ?P (dset d ?v deg)"
      by (auto simp: dget_or_def split: option.splits)
    with sub show ?thesis
      unfolding positives_def by (intro psubset_card_mono positives_finite) auto
  qed
  from Cons.prems have "positives deg' + length nq'
      \<le> positives (dset d ?v deg) + length (if ?v = 0 then nq @ [d] else nq)"
    by (intro Cons.IH) (simp add: Let_def)
  with le lt show ?case by (auto split: if_splits)
qed simp

lemma drain_batch_positives:
  "drain_batch q nm deps deg p b nq = (b', nq', p', deg') \<Longrightarrow>
     positives deg' + length nq' \<le> positives deg + length nq"
proof (induction q nm deps deg p b nq rule: drain_batch.induct)
  case (2 name q nm deps deg p b nq)
  obtain deg1 nq1 where r: "release (dget_or deps name []) deg nq = (deg1, nq1)"
    by (cases "release (dget_or deps name []) deg nq") auto
  with 2 have "positives deg' + length nq' \<le> positives deg1 + length nq1"
    by (simp add: Let_def)
  also have "\<dots> \<le> positives deg + length nq" using r by (rule release_positives)
  finally show ?case .
qed simp

text \<open>\<open>while queue: ...\<close>\<close>

function sort_loop :: "node dict \<Rightarrow> string list dict \<Rightarrow> string list \<Rightarrow> int dict \<Rightarrow> nat \<Rightarrow> node list list
    \<Rightarrow> node list list \<times> nat \<times> int dict" where
  "sort_loop node_map dependents queue in_degree processed batches =
     (if queue = [] then (batches, processed, in_degree)
      else let (batch, next_queue, processed', in_degree') =
                 drain_batch queue node_map dependents in_degree processed [] []
           in sort_loop node_map dependents next_queue in_degree' processed' (batches @ [batch]))"
  by pat_completeness auto
termination
proof (relation "measure (\<lambda>(nm, deps, q, deg, p, bs). if q = [] then 0 else Suc (positives deg))", goal_cases)
  case (2 nm deps q deg p bs x b y nq z p' deg')
  then have "positives deg' + length nq \<le> positives deg"
    using drain_batch_positives [of q nm deps deg p "[]" "[]" b nq p' deg'] by simp
  with 2 show ?case by (cases nq) auto
qed auto

declare sort_loop.simps [simp del]

definition topological_sort :: "node list \<Rightarrow> node list list res" where
  "topological_sort nodes =
     (let node_map = build_node_map nodes;
          in_degree = map (\<lambda>p. (fst p, 0::int)) node_map;
          (in_degree, dependents) = count_edges node_map nodes (in_degree, []);
          queue = map fst (filter (\<lambda>p. snd p = 0) in_degree);
          (batches, processed, in_degree) = sort_loop node_map dependents queue in_degree 0 []
      in if processed \<noteq> length nodes
         then let remaining = filter (\<lambda>n. 0 < dget_or in_degree n 0) (dkeys node_map)
              in raise CyclicDependencyError
                   (''Cyclic dependency detected involving nodes: '' @ py_repr (PList (map PStr remaining)))
         else Inr batches)"

section \<open>Counting edges\<close>

text \<open>
  \<open>edges nodes x n\<close> is how many times a node called \<open>n\<close> lists \<open>x\<close> among its dependencies. For the
  names of the graph it is what \<^const>\<open>count_edges\<close> records.
\<close>

definition edges :: "node list \<Rightarrow> string \<Rightarrow> string \<Rightarrow> nat" where
  "edges nodes x n = sum_list (map (\<lambda>nd. if name_of nd = n then count_list (deps_of nd) x else 0) nodes)"

lemma edges_Nil [simp]: "edges [] x n = 0"
  by (simp add: edges_def)

lemma edges_Cons [simp]:
  "edges (nd # ns) x n = (if name_of nd = n then count_list (deps_of nd) x else 0) + edges ns x n"
  by (simp add: edges_def)

lemma edges_pos: "0 < edges nodes x n \<longleftrightarrow> (\<exists>nd \<in> set nodes. name_of nd = n \<and> x \<in> set (deps_of nd))"
  by (induction nodes) (auto simp: count_list_0_iff simp flip: neq0_conv)

lemma build_node_map_keys: "set (dkeys (build_node_map nodes)) = name_of ` set nodes"
proof -
  have "set (dkeys (fold (\<lambda>n m. dset (name_of n) n m) nodes m)) = set (dkeys m) \<union> name_of ` set nodes" for m
    by (induction nodes arbitrary: m) auto
  then show ?thesis by (simp add: build_node_map_def)
qed

lemma build_node_map_ok: "dict_ok (build_node_map nodes)"
proof -
  have "dict_ok m \<Longrightarrow> dict_ok (fold (\<lambda>n m. dset (name_of n) n m) nodes m)" for m
    by (induction nodes arbitrary: m) auto
  then show ?thesis by (simp add: build_node_map_def)
qed

lemma build_node_map_get:
  assumes "distinct (map name_of nodes)" and "n \<in> set nodes"
  shows "dget (build_node_map nodes) (name_of n) = Some n"
proof -
  have *: "dget (fold (\<lambda>n m. dset (name_of n) n m) ns m) k =
      (if k \<in> name_of ` set ns then Some (the (find (\<lambda>n. name_of n = k) ns)) else dget m k)"
    if "distinct (map name_of ns)" for ns m k
    using that
  proof (induction ns arbitrary: m)
    case (Cons a ns)
    then show ?case
      by (auto simp: find_None_iff image_iff dest!: Cons.IH)
  qed simp
  have "find (\<lambda>m. name_of m = name_of n) nodes = Some n"
    using assms
    by (induction nodes) (auto simp: image_iff)
  with * [OF assms(1), of "[]" "name_of n"] assms(2) show ?thesis
    by (simp add: build_node_map_def)
qed

lemma build_node_map_name: "dget (build_node_map nodes) k = Some n \<Longrightarrow> name_of n = k \<and> n \<in> set nodes"
proof -
  have "(\<And>k n. dget m k = Some n \<Longrightarrow> name_of n = k \<and> n \<in> S) \<Longrightarrow> set ns \<subseteq> S \<Longrightarrow>
      dget (fold (\<lambda>n m. dset (name_of n) n m) ns m) k = Some n \<Longrightarrow> name_of n = k \<and> n \<in> S" for ns m k n S
  proof (induction ns arbitrary: m)
    case (Cons a ns)
    show ?case
      by (rule Cons.IH [of "dset (name_of a) a m"]) (use Cons.prems in \<open>auto split: if_splits\<close>)
  qed auto
  from this [of "[]" "set nodes" nodes k n]
  show "dget (build_node_map nodes) k = Some n \<Longrightarrow> name_of n = k \<and> n \<in> set nodes"
    by (simp add: build_node_map_def)
qed

lemma count_deps_degree:
  "count_deps nm name ds (deg, dep) = (deg', dep') \<Longrightarrow>
     dget_or deg' n 0 = dget_or deg n 0 + (if n = name then int (length (filter (\<lambda>d. dhas d nm) ds)) else 0)"
proof (induction ds arbitrary: deg dep)
  case (Cons d ds)
  then show ?case
    by (cases "dhas d nm") (auto dest!: Cons.IH)
qed simp

lemma count_deps_keys:
  "count_deps nm name ds (deg, dep) = (deg', dep') \<Longrightarrow> name \<in> fst ` set deg \<Longrightarrow>
     fst ` set deg' = fst ` set deg"
proof (induction ds arbitrary: deg dep)
  case (Cons d ds)
  then show ?case
    by (cases "dhas d nm") (auto dest!: Cons.IH)
qed simp

lemma count_deps_ok: "count_deps nm name ds (deg, dep) = (deg', dep') \<Longrightarrow> dict_ok deg \<Longrightarrow> dict_ok deg'"
proof (induction ds arbitrary: deg dep)
  case (Cons d ds)
  then show ?case
    by (cases "dhas d nm") (auto dest!: Cons.IH)
qed simp

lemma count_deps_dependents:
  "count_deps nm name ds (deg, dep) = (deg', dep') \<Longrightarrow>
     count_list (dget_or dep' x []) n =
       count_list (dget_or dep x []) n + (if n = name \<and> dhas x nm then count_list ds x else 0)"
proof (induction ds arbitrary: deg dep)
  case (Cons d ds)
  then show ?case
    by (cases "dhas d nm") (auto dest!: Cons.IH)
qed simp

lemma count_edges_spec:
  assumes "count_edges nm ns (deg, dep) = (deg', dep')" and "name_of ` set ns \<subseteq> fst ` set deg" and "dict_ok deg"
  shows "dget_or deg' n 0 = dget_or deg n 0 + int (\<Sum>x \<in> fst ` set nm. edges ns x n)"
    and "fst ` set deg' = fst ` set deg"
    and "dict_ok deg'"
    and "count_list (dget_or dep' x []) n =
           count_list (dget_or dep x []) n + (if dhas x nm then edges ns x n else 0)"
proof -
  have "dget_or deg' n 0 = dget_or deg n 0 + int (\<Sum>x \<in> fst ` set nm. edges ns x n) \<and>
        fst ` set deg' = fst ` set deg \<and> dict_ok deg' \<and>
        count_list (dget_or dep' x []) n =
          count_list (dget_or dep x []) n + (if dhas x nm then edges ns x n else 0)"
    using assms
  proof (induction ns arbitrary: deg dep)
    case (Cons nd ns)
    obtain deg1 dep1 where c: "count_deps nm (name_of nd) (deps_of nd) (deg, dep) = (deg1, dep1)"
      by (cases "count_deps nm (name_of nd) (deps_of nd) (deg, dep)") auto
    note ds = count_deps_degree [OF c, of n] count_deps_keys [OF c] count_deps_ok [OF c]
      count_deps_dependents [OF c, of x n]
    have "count_edges nm ns (deg1, dep1) = (deg', dep')" using Cons.prems c by simp
    note IH = Cons.IH [OF this]
    have len: "int (length (filter (\<lambda>d. dhas d nm) (deps_of nd))) =
        int (\<Sum>x \<in> fst ` set nm. count_list (deps_of nd) x)"
      using length_filter_count [of "fst ` set nm" "deps_of nd"] by (simp add: dhas_keys)
    show ?case using IH ds len Cons.prems by (simp add: sum.distrib)
  qed simp
  then show "dget_or deg' n 0 = dget_or deg n 0 + int (\<Sum>x \<in> fst ` set nm. edges ns x n)"
    and "fst ` set deg' = fst ` set deg" and "dict_ok deg'"
    and "count_list (dget_or dep' x []) n =
           count_list (dget_or dep x []) n + (if dhas x nm then edges ns x n else 0)" by auto
qed

section \<open>Draining a queue\<close>

lemma release_spec:
  assumes "release ds deg nq = (deg', nq')"
  shows "\<exists>new. nq' = nq @ new \<and> distinct new \<and>
           set new = {n. 0 < dget_or deg n 0 \<and> dget_or deg n 0 \<le> int (count_list ds n)} \<and>
           (\<forall>n. dget_or deg' n 0 = dget_or deg n 0 - int (count_list ds n))"
  using assms
proof (induction ds arbitrary: deg nq)
  case (Cons d ds)
  let ?v = "dget_or deg d 0 - 1"
  let ?deg = "dset d ?v deg"
  obtain new where new: "nq' = (if ?v = 0 then nq @ [d] else nq) @ new" "distinct new"
      "set new = {n. 0 < dget_or ?deg n 0 \<and> dget_or ?deg n 0 \<le> int (count_list ds n)}"
      "\<forall>n. dget_or deg' n 0 = dget_or ?deg n 0 - int (count_list ds n)"
    using Cons.IH [of ?deg "if ?v = 0 then nq @ [d] else nq"] Cons.prems by (auto simp: Let_def)
  have upd: "dget_or ?deg n 0 = (if n = d then ?v else dget_or deg n 0)" for n
    by (simp add: dget_or_def)
  let ?new = "(if ?v = 0 then [d] else []) @ new"
  have "nq' = nq @ ?new" using new(1) by simp
  moreover have "distinct ?new" using new(2,3) upd [of d] by auto
  moreover have "set ?new = {n. 0 < dget_or deg n 0 \<and> dget_or deg n 0 \<le> int (count_list (d # ds) n)}"
  proof (rule set_eqI)
    fix n
    show "n \<in> set ?new \<longleftrightarrow> n \<in> {n. 0 < dget_or deg n 0 \<and> dget_or deg n 0 \<le> int (count_list (d # ds) n)}"
      unfolding set_append new(3) by (cases "n = d") (auto simp: upd)
  qed
  moreover have "\<forall>n. dget_or deg' n 0 = dget_or deg n 0 - int (count_list (d # ds) n)"
    using new(4) upd by auto
  ultimately show ?case by blast
qed auto

text \<open>Draining a queue is releasing the dependents of all its names, one after the other.\<close>

lemma release_append:
  "release (xs @ ys) deg nq = (case release xs deg nq of (deg1, nq1) \<Rightarrow> release ys deg1 nq1)"
  by (induction xs arbitrary: deg nq) (simp_all add: Let_def)

lemma drain_batch_release:
  "drain_batch q nm dep deg p b nq =
     (let (deg', nq') = release (concat (map (\<lambda>x. dget_or dep x []) q)) deg nq
      in (b @ List.map_filter (dget nm) q, nq', p + length q, deg'))"
  by (induction q nm dep deg p b nq rule: drain_batch.induct)
     (auto simp: release_append map_filter_simps Let_def split: prod.splits option.splits)

lemma count_list_concat: "count_list (concat xss) x = sum_list (map (\<lambda>xs. count_list xs x) xss)"
  by (induction xss) auto

section \<open>The loop invariant\<close>

text \<open>
  \<open>K\<close> are the names of the graph, \<open>c x n\<close> the edges from \<open>x\<close> to \<open>n\<close>. Done is what stands in a
  batch. The degree of a name counts its edges from names that are not done; the names of degree
  zero are the done and the queued ones, each once.
\<close>

definition done_names :: "node list list \<Rightarrow> string list" where
  "done_names bs = map name_of (concat bs)"

definition sort_inv :: "string set \<Rightarrow> (string \<Rightarrow> string \<Rightarrow> nat) \<Rightarrow> string list \<Rightarrow> int dict \<Rightarrow> nat \<Rightarrow> node list list \<Rightarrow> bool" where
  "sort_inv K c q deg p bs \<longleftrightarrow>
     (\<forall>n. dget_or deg n 0 = int (\<Sum>x \<in> K - set (done_names bs). c x n)) \<and>
     distinct (done_names bs @ q) \<and> set (done_names bs @ q) \<subseteq> K \<and>
     (\<forall>n \<in> K. dget_or deg n 0 = 0 \<longleftrightarrow> n \<in> set (done_names bs @ q)) \<and>
     p = length (done_names bs)"

text \<open>Every edge into a batch comes from an earlier one, and one of them from the batch before.\<close>

definition batches_ok :: "string set \<Rightarrow> (string \<Rightarrow> string \<Rightarrow> nat) \<Rightarrow> node list list \<Rightarrow> bool" where
  "batches_ok K c bs \<longleftrightarrow>
     (\<forall>i < length bs. bs ! i \<noteq> [] \<and>
        (\<forall>n \<in> set (bs ! i). \<forall>x \<in> K. 0 < c x (name_of n) \<longrightarrow> x \<in> set (done_names (take i bs))) \<and>
        (0 < i \<longrightarrow> (\<forall>n \<in> set (bs ! i). \<exists>m \<in> set (bs ! (i - 1)). 0 < c (name_of m) (name_of n))))"

lemma done_names_append [simp]: "done_names (bs @ [b]) = done_names bs @ map name_of b"
  by (simp add: done_names_def)

lemma names_of_batch:
  assumes "\<And>k. k \<in> set q \<Longrightarrow> \<exists>n. dget nm k = Some n \<and> name_of n = k"
  shows "map name_of (List.map_filter (dget nm) q) = q"
  using assms
proof (induction q)
  case (Cons k q)
  from Cons.prems [of k] obtain n where "dget nm k = Some n" "name_of n = k" by auto
  moreover have "map name_of (List.map_filter (dget nm) q) = q"
    by (rule Cons.IH) (rule Cons.prems, simp)
  ultimately show ?case by (simp add: map_filter_simps)
qed (simp add: map_filter_simps)

lemma degree_arith: "a = b + c \<Longrightarrow> int a - int c = 0 \<longleftrightarrow> int a = 0 \<or> 0 < int a \<and> int a \<le> int c"
  by auto

lemma drain_keeps_inv:
  assumes inv: "sort_inv K c q deg p bs" and fin: "finite K"
    and cK: "\<forall>x n. 0 < c x n \<longrightarrow> n \<in> K"
    and dep: "\<forall>x \<in> K. \<forall>n. count_list (dget_or dep x []) n = c x n"
    and nm: "\<forall>k \<in> K. \<exists>n. dget nm k = Some n \<and> name_of n = k"
    and d: "drain_batch q nm dep deg p [] [] = (b, nq, p', deg')"
  shows "map name_of b = q"
    and "sort_inv K c nq deg' p' (bs @ [b])"
    and "n \<in> set nq \<Longrightarrow> \<exists>x \<in> set q. 0 < c x n"
proof -
  let ?D = "set (done_names bs)"
  from inv have deg: "\<And>n. dget_or deg n 0 = int (\<Sum>x \<in> K - ?D. c x n)"
    and dist: "distinct (done_names bs @ q)" and sub: "set (done_names bs @ q) \<subseteq> K"
    and zero: "\<And>n. n \<in> K \<Longrightarrow> dget_or deg n 0 = 0 \<longleftrightarrow> n \<in> set (done_names bs @ q)"
    and p: "p = length (done_names bs)"
    unfolding sort_inv_def by blast+
  obtain new where rel: "release (concat (map (\<lambda>x. dget_or dep x []) q)) deg [] = (deg', nq)"
      and b: "b = List.map_filter (dget nm) q" and p': "p' = p + length q"
    using d by (auto simp: drain_batch_release Let_def split: prod.splits)
  show bq: "map name_of b = q"
    unfolding b by (rule names_of_batch) (use nm sub in auto)
  then have bqs: "name_of ` set b = set q" by (metis set_map)
  have cnt: "count_list (concat (map (\<lambda>x. dget_or dep x []) q)) n = (\<Sum>x \<in> set q. c x n)" for n
  proof -
    have "count_list (concat (map (\<lambda>x. dget_or dep x []) q)) n = sum_list (map (\<lambda>x. c x n) q)"
      using sub by (induction q) (auto simp: dep)
    also have "\<dots> = (\<Sum>x \<in> set q. c x n)"
      using dist by (simp add: sum_list_distinct_conv_sum_set)
    finally show ?thesis .
  qed
  have split: "(\<Sum>x \<in> K - ?D. c x n) = (\<Sum>x \<in> K - ?D - set q. c x n) + (\<Sum>x \<in> set q. c x n)" for n
    using sum.subset_diff [of "set q" "K - ?D" "\<lambda>x. c x n"] fin sub dist by auto
  have nq: "distinct nq" "set nq = {n. 0 < dget_or deg n 0 \<and> dget_or deg n 0 \<le> int (\<Sum>x \<in> set q. c x n)}"
    and deg': "\<And>n. dget_or deg' n 0 = dget_or deg n 0 - int (\<Sum>x \<in> set q. c x n)"
    using release_spec [OF rel] by (auto simp: cnt)
  have deg'': "dget_or deg' n 0 = int (\<Sum>x \<in> K - set (done_names (bs @ [b])). c x n)" for n
  proof -
    have "K - set (done_names (bs @ [b])) = K - ?D - set q" using bqs by auto
    with deg' [of n] deg [of n] split [of n] show ?thesis by (simp del: of_nat_sum)
  qed
  have nqK: "n \<in> K" and nqpos: "\<exists>x \<in> set q. 0 < c x n" if "n \<in> set nq" for n
  proof -
    from that nq(2) have "0 < (\<Sum>x \<in> set q. c x n)" by (auto simp del: of_nat_sum)
    then have "\<exists>x \<in> set q. 0 < c x n"
      by (metis gr_zeroI less_irrefl sum.neutral)
    then show "\<exists>x \<in> set q. 0 < c x n" and "n \<in> K" using cK by auto
  qed
  show "n \<in> set nq \<Longrightarrow> \<exists>x \<in> set q. 0 < c x n" by (rule nqpos)
  have fresh: "set nq \<inter> set (done_names bs @ q) = {}"
    using nq(2) zero sub by (fastforce simp: disjoint_iff)
  have zero': "dget_or deg' n 0 = 0 \<longleftrightarrow> n \<in> set (done_names bs @ q) \<union> set nq" if "n \<in> K" for n
  proof -
    have "dget_or deg' n 0 = 0 \<longleftrightarrow> dget_or deg n 0 = 0 \<or> n \<in> set nq"
      unfolding deg' deg nq(2) mem_Collect_eq by (rule degree_arith [OF split])
    with zero [OF that] show ?thesis by auto
  qed
  show "sort_inv K c nq deg' p' (bs @ [b])"
    unfolding sort_inv_def
    using deg'' dist sub nq(1) fresh nqK zero' p p' bq by auto
qed

lemma batches_ok_snoc:
  assumes "batches_ok K c bs" and "b \<noteq> []"
    and "\<And>n x. n \<in> set b \<Longrightarrow> x \<in> K \<Longrightarrow> 0 < c x (name_of n) \<Longrightarrow> x \<in> set (done_names bs)"
    and "\<And>n. bs \<noteq> [] \<Longrightarrow> n \<in> set b \<Longrightarrow> \<exists>m \<in> set (last bs). 0 < c (name_of m) (name_of n)"
  shows "batches_ok K c (bs @ [b])"
proof -
  have "(bs @ [b]) ! i \<noteq> [] \<and>
      (\<forall>n \<in> set ((bs @ [b]) ! i). \<forall>x \<in> K. 0 < c x (name_of n) \<longrightarrow> x \<in> set (done_names (take i (bs @ [b])))) \<and>
      (0 < i \<longrightarrow> (\<forall>n \<in> set ((bs @ [b]) ! i). \<exists>m \<in> set ((bs @ [b]) ! (i - 1)). 0 < c (name_of m) (name_of n)))"
    if "i < length (bs @ [b])" for i
  proof (cases "i < length bs")
    case True
    with assms(1) show ?thesis unfolding batches_ok_def by (auto simp: nth_append)
  next
    case False
    with that have i: "i = length bs" by simp
    with assms(2-4) show ?thesis by (auto simp: nth_append last_conv_nth)
  qed
  then show ?thesis unfolding batches_ok_def by blast
qed

lemma queued_edges_done:
  assumes "sort_inv K c q deg p bs" and "n \<in> set q" and "x \<in> K" and "0 < c x n" and "finite K"
  shows "x \<in> set (done_names bs)"
proof (rule ccontr)
  assume "x \<notin> set (done_names bs)"
  from assms(1,2) have "(\<Sum>y \<in> K - set (done_names bs). c y n) = 0"
    unfolding sort_inv_def by (metis Un_iff in_mono of_nat_0_eq_iff set_append)
  then have "c x n = 0" using \<open>x \<notin> set (done_names bs)\<close> assms(3,5) by simp
  with assms(4) show False by simp
qed

lemma sort_loop_spec:
  assumes "sort_inv K c q deg p bs" and fin: "finite K"
    and cK: "\<forall>x n. 0 < c x n \<longrightarrow> n \<in> K"
    and dep: "\<forall>x \<in> K. \<forall>n. count_list (dget_or dep x []) n = c x n"
    and nm: "\<forall>k \<in> K. \<exists>n. dget nm k = Some n \<and> name_of n = k"
    and "batches_ok K c bs"
    and "\<forall>n \<in> set q. bs \<noteq> [] \<longrightarrow> (\<exists>m \<in> set (last bs). 0 < c (name_of m) n)"
    and "sort_loop nm dep q deg p bs = (bs', p', deg')"
  shows "sort_inv K c [] deg' p' bs' \<and> batches_ok K c bs'"
  using assms
proof (induction nm dep q deg p bs rule: sort_loop.induct)
  case (1 nm dep q deg p bs)
  show ?case
  proof (cases "q = []")
    case True
    with 1 show ?thesis by (simp add: sort_loop.simps)
  next
    case False
    obtain b nq p1 deg1 where d: "drain_batch q nm dep deg p [] [] = (b, nq, p1, deg1)"
      by (cases "drain_batch q nm dep deg p [] []") auto
    note k = drain_keeps_inv [OF "1.prems"(1) "1.prems"(2) "1.prems"(3) "1.prems"(4) "1.prems"(5) d]
    have "set (map name_of b) = set q" by (simp only: k(1))
    then have b: "name_of ` set b = set q" by simp
    have ok: "batches_ok K c (bs @ [b])"
    proof (rule batches_ok_snoc [OF "1.prems"(6)])
      show "b \<noteq> []" using k(1) False by auto
      show "x \<in> set (done_names bs)" if "n \<in> set b" "x \<in> K" "0 < c x (name_of n)" for n x
      proof (rule queued_edges_done [OF "1.prems"(1) _ that(2,3) "1.prems"(2)])
        show "name_of n \<in> set q" using that(1) b by (metis imageI)
      qed
      show "\<exists>m \<in> set (last bs). 0 < c (name_of m) (name_of n)" if "bs \<noteq> []" "n \<in> set b" for n
        using "1.prems"(7) that b by (metis imageI)
    qed
    have next_q: "\<forall>n \<in> set nq. bs @ [b] \<noteq> [] \<longrightarrow> (\<exists>m \<in> set (last (bs @ [b])). 0 < c (name_of m) n)"
    proof (intro ballI impI)
      fix n assume "n \<in> set nq"
      from k(3) [OF this] obtain x where "x \<in> set q" "0 < c x n" by blast
      then obtain m where "m \<in> set b" "0 < c (name_of m) n" using b by (metis imageE)
      then show "\<exists>m \<in> set (last (bs @ [b])). 0 < c (name_of m) n" by auto
    qed
    from "1.prems"(8) False d have "sort_loop nm dep nq deg1 p1 (bs @ [b]) = (bs', p', deg')"
      by (simp add: sort_loop.simps [of nm dep q deg p bs])
    then show ?thesis
      by (rule "1.IH" [OF False d [symmetric] refl refl refl k(2) "1.prems"(2,3,4,5) ok next_q])
  qed
qed

lemma sort_loop_nodes:
  assumes "sort_loop nm dep q deg p bs = (bs', p', deg')" and "set (concat bs) \<subseteq> S"
    and "\<And>k n. dget nm k = Some n \<Longrightarrow> n \<in> S"
  shows "set (concat bs') \<subseteq> S"
  using assms
proof (induction nm dep q deg p bs rule: sort_loop.induct)
  case (1 nm dep q deg p bs)
  show ?case
  proof (cases "q = []")
    case True
    with 1 show ?thesis by (simp add: sort_loop.simps)
  next
    case False
    obtain b nq p1 deg1 where d: "drain_batch q nm dep deg p [] [] = (b, nq, p1, deg1)"
      by (cases "drain_batch q nm dep deg p [] []") auto
    then have "set b \<subseteq> S"
      using "1.prems"(3) by (auto simp: drain_batch_release map_filter_def Let_def split: prod.splits)
    moreover from "1.prems"(1) False d have "sort_loop nm dep nq deg1 p1 (bs @ [b]) = (bs', p', deg')"
      by (simp add: sort_loop.simps [of nm dep q deg p bs])
    ultimately show ?thesis
      using "1.IH" [OF False _ _ _ _ _ _ "1.prems"(3)] d "1.prems"(2) by simp
  qed
qed

text \<open>What the sort computes, for every graph.\<close>

lemma topological_sort_run:
  fixes nodes :: "node list"
  defines "K \<equiv> name_of ` set nodes"
  obtains bs deg where "sort_inv K (edges nodes) [] deg (length (done_names bs)) bs"
    and "batches_ok K (edges nodes) bs"
    and "set (concat bs) \<subseteq> set nodes"
    and "topological_sort nodes =
      (if length (done_names bs) \<noteq> length nodes
       then raise CyclicDependencyError (''Cyclic dependency detected involving nodes: '' @
              py_repr (PList (map PStr (filter (\<lambda>n. 0 < dget_or deg n 0) (dkeys (build_node_map nodes))))))
       else Inr bs)"
proof -
  let ?nm = "build_node_map nodes"
  let ?deg0 = "map (\<lambda>p. (fst p, 0::int)) ?nm"
  have keys: "fst ` set ?nm = K" using build_node_map_keys [of nodes] by (simp add: K_def)
  have keys0: "fst ` set ?deg0 = K" using keys by (simp add: image_image)
  have zero0: "dget_or ?deg0 n 0 = 0" for n
    by (auto simp: dget_or_def split: option.splits dest!: map_of_SomeD)
  have ok0: "dict_ok ?deg0" using build_node_map_ok [of nodes] by (simp add: dict_ok_def comp_def)
  obtain deg dep where e: "count_edges ?nm nodes (?deg0, []) = (deg, dep)"
    by (cases "count_edges ?nm nodes (?deg0, [])") auto
  have sub0: "name_of ` set nodes \<subseteq> fst ` set ?deg0" using keys0 K_def by simp
  note ce = count_edges_spec [OF e sub0 ok0]
  let ?q = "map fst (filter (\<lambda>p. snd p = 0) deg)"
  have fin: "finite K" by (simp add: K_def)
  have deg: "dget_or deg n 0 = int (\<Sum>x \<in> K. edges nodes x n)" for n
    using ce(1) [of n] by (simp add: zero0 keys del: of_nat_sum)
  have dep: "\<forall>x \<in> K. \<forall>n. count_list (dget_or dep x []) n = edges nodes x n"
    using ce(4) by (simp add: dhas_keys keys)
  have q: "n \<in> set ?q \<longleftrightarrow> n \<in> K \<and> dget_or deg n 0 = 0" for n
  proof -
    have "n \<in> set ?q \<longleftrightarrow> dget deg n = Some 0"
      using dict_ok_mem [OF ce(3), of n 0] by force
    also have "\<dots> \<longleftrightarrow> n \<in> fst ` set deg \<and> dget_or deg n 0 = 0"
      by (auto simp: dget_or_def map_of_eq_None_iff dest: map_of_SomeD split: option.splits
          intro: rev_image_eqI)
    finally show ?thesis using ce(2) keys0 by simp
  qed
  have "distinct ?q" using ce(3) by (simp add: dict_ok_def distinct_map_filter)
  then have inv0: "sort_inv K (edges nodes) ?q deg 0 []"
    unfolding sort_inv_def using deg q by (auto simp: done_names_def)
  obtain bs p deg' where l: "sort_loop ?nm dep ?q deg 0 [] = (bs, p, deg')"
    by (cases "sort_loop ?nm dep ?q deg 0 []") auto
  have cK: "\<forall>x n. 0 < edges nodes x n \<longrightarrow> n \<in> K" by (auto simp: edges_pos K_def)
  have nm: "\<forall>k \<in> K. \<exists>n. dget ?nm k = Some n \<and> name_of n = k"
  proof
    fix k assume "k \<in> K"
    then show "\<exists>n. dget ?nm k = Some n \<and> name_of n = k"
      using keys build_node_map_name [of nodes k] by (cases "dget ?nm k") (auto simp: map_of_eq_None_iff)
  qed
  have bs: "sort_inv K (edges nodes) [] deg' p bs" "batches_ok K (edges nodes) bs"
    using sort_loop_spec [OF inv0 fin cK dep nm _ _ l] by (auto simp: batches_ok_def)
  have "p = length (done_names bs)" using bs(1) by (simp add: sort_inv_def)
  moreover have "set (concat bs) \<subseteq> set nodes"
    by (rule sort_loop_nodes [OF l]) (auto dest: build_node_map_name)
  moreover have "topological_sort nodes =
      (if p \<noteq> length nodes
       then raise CyclicDependencyError (''Cyclic dependency detected involving nodes: '' @
              py_repr (PList (map PStr (filter (\<lambda>n. 0 < dget_or deg' n 0) (dkeys ?nm)))))
       else Inr bs)"
    unfolding topological_sort_def Let_def e l prod.case by simp
  ultimately show ?thesis using bs by (intro that [of deg' bs]) simp_all
qed

section \<open>Correctness\<close>

lemma topological_sort_Inr:
  assumes "topological_sort nodes = Inr bs"
  shows "distinct (done_names bs)" and "mset (concat bs) = mset nodes"
    and "batches_ok (name_of ` set nodes) (edges nodes) bs"
proof -
  obtain bs' deg where inv: "sort_inv (name_of ` set nodes) (edges nodes) [] deg (length (done_names bs')) bs'"
    and ok: "batches_ok (name_of ` set nodes) (edges nodes) bs'"
    and sub: "set (concat bs') \<subseteq> set nodes"
    and eq: "topological_sort nodes =
      (if length (done_names bs') \<noteq> length nodes
       then raise CyclicDependencyError (''Cyclic dependency detected involving nodes: '' @
              py_repr (PList (map PStr (filter (\<lambda>n. 0 < dget_or deg n 0) (dkeys (build_node_map nodes))))))
       else Inr bs')"
    by (rule topological_sort_run [of nodes])
  from eq assms have bs: "bs' = bs" and len: "length (done_names bs) = length nodes"
    by (auto split: if_splits)
  from inv bs show dist: "distinct (done_names bs)" by (simp add: sort_inv_def)
  show "batches_ok (name_of ` set nodes) (edges nodes) bs" using ok bs by simp
  have dc: "distinct (concat bs)" using dist by (simp add: done_names_def distinct_map)
  have "card (set (concat bs)) = length nodes"
    using dc len by (simp add: distinct_card done_names_def del: set_concat)
  moreover have "card (set nodes) \<le> length nodes" by (rule card_length)
  ultimately have eqs: "set (concat bs) = set nodes" and "card (set nodes) = length nodes"
    using sub bs by (metis List.finite_set card_seteq, metis List.finite_set card_mono le_antisym)
  then have "distinct nodes" by (simp add: card_distinct)
  with dc eqs show "mset (concat bs) = mset nodes" by (metis set_eq_iff_mset_eq_distinct)
qed

lemma in_concat_nth: "n \<in> set (concat bs) \<longleftrightarrow> (\<exists>i < length bs. n \<in> set (bs ! i))"
  unfolding set_concat UN_iff by (metis in_set_conv_nth)

lemma done_names_nth:
  "k \<in> set (done_names (take i bs)) \<longleftrightarrow> (\<exists>j < min i (length bs). k \<in> name_of ` set (bs ! j))"
proof -
  have "k \<in> set (done_names (take i bs)) \<longleftrightarrow> (\<exists>n. k = name_of n \<and> n \<in> set (concat (take i bs)))"
    unfolding done_names_def set_map by blast
  also have "\<dots> \<longleftrightarrow> (\<exists>j < length (take i bs). k \<in> name_of ` set (take i bs ! j))"
    unfolding in_concat_nth by blast
  also have "\<dots> \<longleftrightarrow> (\<exists>j < min i (length bs). k \<in> name_of ` set (bs ! j))"
    by (auto simp: min.commute)
  finally show ?thesis .
qed

lemma batch_unique:
  assumes "distinct (done_names bs)" and "k \<in> name_of ` set (bs ! i)" and "i < length bs"
    and "k \<in> name_of ` set (bs ! j)" and "j < length bs"
  shows "i = j"
proof (rule ccontr)
  have less: False if "i < j" "k \<in> name_of ` set (bs ! i)" "k \<in> name_of ` set (bs ! j)" "j < length bs" for i j
  proof -
    have "bs = take j bs @ drop j bs" by simp
    then have "distinct (done_names (take j bs) @ done_names (drop j bs))"
      using assms(1) by (metis concat_append done_names_def map_append)
    moreover have "k \<in> set (done_names (take j bs))" using that by (auto simp: done_names_nth)
    moreover have "k \<in> set (done_names (drop j bs))"
      using that by (auto simp: done_names_def Cons_nth_drop_Suc [symmetric])
    ultimately show False by auto
  qed
  assume "i \<noteq> j"
  then show False using less assms by (metis linorder_neqE_nat)
qed

lemma batches_ok_edge:
  assumes "batches_ok (name_of ` set nodes) (edges nodes) bs" and "i < length bs" and "n \<in> set (bs ! i)"
    and "n \<in> set nodes" and "d \<in> set (deps_of n)" and "d \<in> name_of ` set nodes"
  shows "\<exists>j < i. d \<in> name_of ` set (bs ! j)"
proof -
  have "0 < edges nodes d (name_of n)" using assms(4,5) by (auto simp: edges_pos)
  with assms(1-3,6) have "d \<in> set (done_names (take i bs))" unfolding batches_ok_def by blast
  then show ?thesis using assms(2) by (auto simp: done_names_nth)
qed

lemma sort_sound:
  assumes "topological_sort nodes = Inr batches"
  shows "mset (concat batches) = mset nodes \<and> distinct (map name_of nodes) \<and>
    (\<forall>i < length batches. \<forall>n \<in> set (batches ! i). \<forall>d \<in> set (deps_of n).
       d \<in> name_of ` set nodes \<longrightarrow> (\<exists>j < i. d \<in> name_of ` set (batches ! j)))"
proof (intro conjI allI impI ballI)
  note t = topological_sort_Inr [OF assms]
  show ms: "mset (concat batches) = mset nodes" by (rule t(2))
  have "mset (map name_of nodes) = mset (done_names batches)"
    using ms by (metis done_names_def mset_map)
  then show "distinct (map name_of nodes)" using t(1) by (metis mset_eq_imp_distinct_iff)
  fix i n d
  assume *: "i < length batches" "n \<in> set (batches ! i)" "d \<in> set (deps_of n)" "d \<in> name_of ` set nodes"
  then have "n \<in> set (concat batches)" unfolding in_concat_nth by blast
  then have "n \<in> set nodes" using ms by (metis set_mset_mset)
  with t(3) * show "\<exists>j < i. d \<in> name_of ` set (batches ! j)" by (intro batches_ok_edge)
qed

lemma sort_complete:
  "(\<exists>batches. topological_sort nodes = Inr batches) \<longleftrightarrow>
     distinct (map name_of nodes) \<and>
     (\<exists>rank :: string \<Rightarrow> nat. \<forall>n \<in> set nodes. \<forall>d \<in> set (deps_of n).
        d \<in> name_of ` set nodes \<longrightarrow> rank d < rank (name_of n))"
proof
  assume "\<exists>batches. topological_sort nodes = Inr batches"
  then obtain bs where bs: "topological_sort nodes = Inr bs" by blast
  note t = topological_sort_Inr [OF bs]
  define rank where "rank k = (LEAST i. i < length bs \<and> k \<in> name_of ` set (bs ! i))" for k
  have rank: "rank k = i" if "i < length bs" "k \<in> name_of ` set (bs ! i)" for k i
    unfolding rank_def by (rule Least_equality) (use that batch_unique [OF t(1)] in auto)
  have "rank d < rank (name_of n)"
    if n: "n \<in> set nodes" and d: "d \<in> set (deps_of n)" "d \<in> name_of ` set nodes" for n d
  proof -
    have "n \<in> set (concat bs)" using n t(2) by (metis set_mset_mset)
    then obtain i where i: "i < length bs" "n \<in> set (bs ! i)" unfolding in_concat_nth by blast
    then obtain j where "j < i" "d \<in> name_of ` set (bs ! j)"
      using batches_ok_edge [OF t(3) i n d] by blast
    with i rank show ?thesis by (metis dual_order.strict_trans imageI)
  qed
  moreover have "distinct (map name_of nodes)"
    using t(1,2) by (metis done_names_def mset_eq_imp_distinct_iff mset_map)
  ultimately show "distinct (map name_of nodes) \<and> (\<exists>rank :: string \<Rightarrow> nat.
      \<forall>n \<in> set nodes. \<forall>d \<in> set (deps_of n). d \<in> name_of ` set nodes \<longrightarrow> rank d < rank (name_of n))"
    by blast
next
  let ?K = "name_of ` set nodes"
  assume "distinct (map name_of nodes) \<and> (\<exists>rank :: string \<Rightarrow> nat.
      \<forall>n \<in> set nodes. \<forall>d \<in> set (deps_of n). d \<in> ?K \<longrightarrow> rank d < rank (name_of n))"
  then obtain rank :: "string \<Rightarrow> nat" where dist: "distinct (map name_of nodes)"
    and rank: "\<forall>n \<in> set nodes. \<forall>d \<in> set (deps_of n). d \<in> ?K \<longrightarrow> rank d < rank (name_of n)" by blast
  obtain bs deg where inv: "sort_inv ?K (edges nodes) [] deg (length (done_names bs)) bs"
    and eq: "topological_sort nodes =
      (if length (done_names bs) \<noteq> length nodes
       then raise CyclicDependencyError (''Cyclic dependency detected involving nodes: '' @
              py_repr (PList (map PStr (filter (\<lambda>n. 0 < dget_or deg n 0) (dkeys (build_node_map nodes))))))
       else Inr bs)"
    by (rule topological_sort_run [of nodes]) auto
  let ?D = "set (done_names bs)"
  have deg: "\<And>n. dget_or deg n 0 = int (\<Sum>x \<in> ?K - ?D. edges nodes x n)"
    and dd: "distinct (done_names bs)" and sub: "?D \<subseteq> ?K"
    and zero: "\<And>n. n \<in> ?K \<Longrightarrow> dget_or deg n 0 = 0 \<longleftrightarrow> n \<in> ?D"
    using inv unfolding sort_inv_def by auto
  have "?K \<subseteq> ?D"
  proof (rule ccontr)
    assume "\<not> ?K \<subseteq> ?D"
    then obtain k where k: "k \<in> ?K - ?D" and least: "\<And>x. x \<in> ?K - ?D \<Longrightarrow> rank k \<le> rank x"
      using ex_has_least_nat [of "\<lambda>x. x \<in> ?K - ?D" _ rank] by (metis DiffI subsetI)
    from k zero have "dget_or deg k 0 \<noteq> 0" by blast
    then have "(\<Sum>x \<in> ?K - ?D. edges nodes x k) \<noteq> 0" using deg [of k] by (simp del: of_nat_sum)
    then obtain x where x: "x \<in> ?K - ?D" "edges nodes x k \<noteq> 0" by (meson sum.neutral)
    then have "rank x < rank k" using rank edges_pos [of nodes x k] by auto
    with least [OF x(1)] show False by simp
  qed
  with sub have "?D = ?K" by blast
  then have "length (done_names bs) = card ?K" using dd by (metis distinct_card)
  also have "\<dots> = length nodes" using dist by (metis distinct_card length_map set_map)
  finally show "\<exists>batches. topological_sort nodes = Inr batches" using eq by simp
qed

lemma sort_earliest:
  assumes "topological_sort nodes = Inr batches" and "i < length batches"
  shows "batches ! i \<noteq> [] \<and>
    (0 < i \<longrightarrow> (\<forall>n \<in> set (batches ! i). \<exists>d \<in> set (deps_of n). d \<in> name_of ` set (batches ! (i - 1))))"
proof -
  note t = topological_sort_Inr [OF assms(1)]
  have dist: "distinct (map name_of nodes)"
    using t(1,2) by (metis done_names_def mset_eq_imp_distinct_iff mset_map)
  have "\<exists>d \<in> set (deps_of n). d \<in> name_of ` set (batches ! (i - 1))"
    if i0: "0 < i" and nb: "n \<in> set (batches ! i)" for n
  proof -
    have "n \<in> set (concat batches)" using nb assms(2) unfolding in_concat_nth by blast
    then have n: "n \<in> set nodes" using t(2) by (metis set_mset_mset)
    obtain m where m: "m \<in> set (batches ! (i - 1))" and e: "0 < edges nodes (name_of m) (name_of n)"
      using t(3) [unfolded batches_ok_def, rule_format, OF assms(2)] i0 nb by blast
    from e obtain n' where "n' \<in> set nodes" "name_of n' = name_of n" "name_of m \<in> set (deps_of n')"
      unfolding edges_pos by blast
    moreover from this have "n' = n" using dist n by (meson distinct_map inj_onD)
    ultimately show ?thesis using m by blast
  qed
  then show ?thesis using t(3) [unfolded batches_ok_def, rule_format, OF assms(2)] by blast
qed

section \<open>The scheduler's contract\<close>

text \<open>
  What the executor and the strategies rely on: a scheduler returns batches that cover the graph,
  keep dependencies before dependents and start every node as early as possible, and it refuses
  exactly the graphs without such an order.
\<close>

locale batch_scheduler =
  fixes schedule :: "node list \<Rightarrow> node list list res"
  assumes sound: "schedule nodes = Inr batches \<Longrightarrow>
      mset (concat batches) = mset nodes \<and> distinct (map name_of nodes) \<and>
      (\<forall>i < length batches. \<forall>n \<in> set (batches ! i). \<forall>d \<in> set (deps_of n).
         d \<in> name_of ` set nodes \<longrightarrow> (\<exists>j < i. d \<in> name_of ` set (batches ! j)))"
    and earliest: "schedule nodes = Inr batches \<Longrightarrow> i < length batches \<Longrightarrow>
      batches ! i \<noteq> [] \<and>
      (0 < i \<longrightarrow> (\<forall>n \<in> set (batches ! i). \<exists>d \<in> set (deps_of n). d \<in> name_of ` set (batches ! (i - 1))))"
    and complete: "(\<exists>batches. schedule nodes = Inr batches) \<longleftrightarrow>
      distinct (map name_of nodes) \<and>
      (\<exists>rank :: string \<Rightarrow> nat. \<forall>n \<in> set nodes. \<forall>d \<in> set (deps_of n).
         d \<in> name_of ` set nodes \<longrightarrow> rank d < rank (name_of n))"
begin

lemma batch_members:
  assumes "schedule nodes = Inr batches"
  shows "set (concat batches) = set nodes"
  using sound [OF assms] by (metis set_mset_mset)

lemma in_batch:
  assumes "schedule nodes = Inr batches"
  shows "n \<in> set nodes \<longleftrightarrow> (\<exists>i < length batches. n \<in> set (batches ! i))"
  using batch_members [OF assms] in_concat_nth [of n batches] by simp

text \<open>
  A rank that is 0 exactly on the nodes without inner dependencies and grows by one along every
  edge is the number of the batch.
\<close>

lemma batch_is_rank:
  assumes s: "schedule nodes = Inr batches" and i: "i < length batches" and n: "n \<in> set (batches ! i)"
    and zero: "\<forall>n \<in> set nodes. (\<forall>d \<in> set (deps_of n). d \<notin> name_of ` set nodes) \<longrightarrow> rank n = 0"
    and step: "\<forall>n \<in> set nodes. \<forall>m \<in> set nodes. name_of m \<in> set (deps_of n) \<longrightarrow> rank n = Suc (rank m)"
  shows "rank n = i"
  using i n
proof (induction i arbitrary: n)
  case 0
  then have "n \<in> set nodes" using in_batch [OF s] by auto
  moreover have "\<forall>d \<in> set (deps_of n). d \<notin> name_of ` set nodes" using sound [OF s] 0 by blast
  ultimately show ?case using zero by blast
next
  case (Suc i)
  obtain m where m: "m \<in> set (batches ! i)" "name_of m \<in> set (deps_of n)"
    using earliest [OF s Suc.prems(1)] Suc.prems(2) by auto
  have "n \<in> set nodes" "m \<in> set nodes"
    using in_batch [OF s] Suc.prems m(1) by (auto dest: Suc_lessD)
  with step m Suc.IH [of m] Suc.prems(1) show ?case by simp
qed

lemma batches_by_rank:
  assumes s: "schedule nodes = Inr batches"
    and zero: "\<forall>n \<in> set nodes. (\<forall>d \<in> set (deps_of n). d \<notin> name_of ` set nodes) \<longrightarrow> rank n = 0"
    and step: "\<forall>n \<in> set nodes. \<forall>m \<in> set nodes. name_of m \<in> set (deps_of n) \<longrightarrow> rank n = Suc (rank m)"
    and i: "i < length batches"
  shows "set (batches ! i) = {n \<in> set nodes. rank n = i}"
proof -
  note r = batch_is_rank [OF s _ _ zero step]
  have "n \<in> set (batches ! i)" if n: "n \<in> set nodes" "rank n = i" for n
  proof -
    obtain j where "j < length batches" "n \<in> set (batches ! j)"
      using n in_batch [OF s] by auto
    with r n show ?thesis by auto
  qed
  moreover have "n \<in> set nodes" if "n \<in> set (batches ! i)" for n
    using that i in_batch [OF s] by auto
  ultimately show ?thesis using r i by auto
qed

lemma batch_count:
  assumes s: "schedule nodes = Inr batches"
    and zero: "\<forall>n \<in> set nodes. (\<forall>d \<in> set (deps_of n). d \<notin> name_of ` set nodes) \<longrightarrow> rank n = 0"
    and step: "\<forall>n \<in> set nodes. \<forall>m \<in> set nodes. name_of m \<in> set (deps_of n) \<longrightarrow> rank n = Suc (rank m)"
  shows "i < length batches \<longleftrightarrow> (\<exists>n \<in> set nodes. i \<le> rank n)"
proof
  assume i: "i < length batches"
  then have "batches ! i \<noteq> []" using earliest [OF s] by blast
  then obtain n where "n \<in> set (batches ! i)" by (cases "batches ! i") auto
  then show "\<exists>n \<in> set nodes. i \<le> rank n" using batches_by_rank [OF s zero step i] by auto
next
  assume "\<exists>n \<in> set nodes. i \<le> rank n"
  then obtain n where n: "n \<in> set nodes" "i \<le> rank n" by blast
  then obtain j where "j < length batches" "n \<in> set (batches ! j)"
    using in_batch [OF s] by auto
  then show "i < length batches" using batch_is_rank [OF s _ _ zero step] n(2) by simp
qed

lemma distinct_batch:
  assumes "schedule nodes = Inr batches" and "i < length batches"
  shows "distinct (batches ! i)"
proof -
  have "distinct nodes" using sound [OF assms(1)] by (simp add: distinct_map)
  then have "distinct (concat batches)" using sound [OF assms(1)] by (metis mset_eq_imp_distinct_iff)
  then show ?thesis using nth_mem [OF assms(2)] unfolding distinct_concat_iff by blast
qed

end

interpretation kahn: batch_scheduler topological_sort
  by (rule batch_scheduler.intro; (rule sort_sound | rule sort_earliest | rule sort_complete); assumption?)

section \<open>What the sort guarantees\<close>

text \<open>C1: When the sort returns, its batches hold every node of the graph exactly once, the node
  names are distinct, and every dependency that names a node of the graph stands in a batch
  strictly before the batch of the node that depends on it.\<close>

theorem topological_sort_sound:
  assumes "topological_sort nodes = Inr batches"
  shows "mset (concat batches) = mset nodes \<and> distinct (map name_of nodes) \<and>
    (\<forall>i < length batches. \<forall>n \<in> set (batches ! i). \<forall>d \<in> set (deps_of n).
       d \<in> name_of ` set nodes \<longrightarrow> (\<exists>j < i. d \<in> name_of ` set (batches ! j)))"
  using kahn.sound [OF assms] .

text \<open>The sort succeeds exactly when the names are distinct and the dependencies inside the
  graph are acyclic, that is, some ranking puts every dependency below its dependent. So it reports
  every cycle and refuses no acyclic graph with distinct names.\<close>

theorem topological_sort_complete:
  "(\<exists>batches. topological_sort nodes = Inr batches) \<longleftrightarrow>
     distinct (map name_of nodes) \<and>
     (\<exists>rank :: string \<Rightarrow> nat. \<forall>n \<in> set nodes. \<forall>d \<in> set (deps_of n).
        d \<in> name_of ` set nodes \<longrightarrow> rank d < rank (name_of n))"
  by (rule kahn.complete)

text \<open>C2: Batches are as early as they can be: no batch is empty, and every node after the first
  batch depends on some node of the batch right before its own.\<close>

theorem topological_sort_earliest:
  assumes "topological_sort nodes = Inr batches" and "i < length batches"
  shows "batches ! i \<noteq> [] \<and>
    (0 < i \<longrightarrow> (\<forall>n \<in> set (batches ! i). \<exists>d \<in> set (deps_of n). d \<in> name_of ` set (batches ! (i - 1))))"
  by (rule kahn.earliest [OF assms])

text \<open>The sort never raises anything but a cyclic-dependency error.\<close>

theorem topological_sort_error:
  assumes "topological_sort nodes = Inl e"
  shows "kind_of e = CyclicDependencyError"
  using assms by (auto simp: topological_sort_def Let_def split: prod.splits if_splits)

section \<open>Witnesses\<close>

definition diamond :: "node list" where
  "diamond = [simple_node ''report'' [''left'', ''right''], simple_node ''left'' [''plan''],
     simple_node ''right'' [''plan'', ''elsewhere''], simple_node ''plan'' []]"

definition diamond_batches :: "node list list" where
  "diamond_batches = [[simple_node ''plan'' []],
     [simple_node ''left'' [''plan''], simple_node ''right'' [''plan'', ''elsewhere'']],
     [simple_node ''report'' [''left'', ''right'']]]"

lemma diamond_sorts: "topological_sort diamond = Inr diamond_batches"
  by code_simp

theorem topological_sort_sound_witness:
  "topological_sort diamond = Inr diamond_batches \<and> mset (concat diamond_batches) = mset diamond"
  using topological_sort_sound [OF diamond_sorts] diamond_sorts by blast

theorem topological_sort_complete_witness:
  "distinct (map name_of diamond) \<and>
   (\<exists>rank :: string \<Rightarrow> nat. \<forall>n \<in> set diamond. \<forall>d \<in> set (deps_of n).
        d \<in> name_of ` set diamond \<longrightarrow> rank d < rank (name_of n))"
  using topological_sort_complete [of diamond] diamond_sorts by blast

theorem topological_sort_earliest_witness:
  "\<exists>d \<in> set (deps_of (simple_node ''report'' [''left'', ''right''])). d \<in> name_of ` set (diamond_batches ! 1)"
  using topological_sort_earliest [OF diamond_sorts, of 2] by (simp add: diamond_batches_def)

theorem topological_sort_error_witness:
  "\<exists>e. topological_sort [simple_node ''a'' [''b''], simple_node ''b'' [''a'']] = Inl e \<and> kind_of e = CyclicDependencyError"
proof -
  have "\<not> isl (topological_sort [simple_node ''a'' [''b''], simple_node ''b'' [''a'']]) = False"
    by code_simp
  then obtain e where "topological_sort [simple_node ''a'' [''b''], simple_node ''b'' [''a'']] = Inl e"
    by (auto simp: isl_def)
  then show ?thesis using topological_sort_error by blast
qed

end
