(* ===== verification/Topology.thy ===== *)
theory Topology
  imports Toposort
begin

text \<open>
  The strategies of \<^verbatim>\<open>temper_ai/stage/topology.py\<close>: functions that turn a list of agent
  configurations into nodes with dependencies. The registries are part of the state, since
  \<^verbatim>\<open>register_topology\<close> adds to them. The last section shows what the executor's sort makes of
  each built-in strategy.
\<close>

section \<open>The model\<close>

type_synonym generator = "pyval dict list \<Rightarrow> pyval dict \<Rightarrow> node list res"

text \<open>A check takes the agent configurations, or also the strategy configuration.\<close>

datatype validator =
    Validate1 "pyval dict list \<Rightarrow> string list"
  | Validate2 "pyval dict list \<Rightarrow> pyval dict \<Rightarrow> string list"

record topology_registry =
  generators :: "generator dict"
  validators :: "validator dict"
  run_start_checks :: "(pyval \<Rightarrow> string list) dict"

text \<open>\<open>conf["name"]\<close>. A name that is not a string is outside the model.\<close>

definition conf_name :: "pyval dict \<Rightarrow> string res" where
  "conf_name conf = (case dget conf ''name'' of
     None \<Rightarrow> raise KeyError ''name''
   | Some (PStr s) \<Rightarrow> Inr s
   | Some _ \<Rightarrow> raise TypeError ''name'')"

text \<open>\<open>AgentNode(NodeConfig(name=conf["name"], type="agent", depends_on=deps), conf)\<close>\<close>

definition strategy_node :: "string list \<Rightarrow> pyval dict \<Rightarrow> node res" where
  "strategy_node deps conf =
     bind_res (conf_name conf) (\<lambda>n. Inr (agent_node ((default_config n)\<lparr>nc_depends_on := deps\<rparr>) conf))"

definition parallel_topology :: generator where
  "parallel_topology confs cfg = map_res (strategy_node []) confs"

text \<open>The loop of \<open>_sequential_topology\<close>: each agent depends on the one before it.\<close>

fun sequential_from :: "string list \<Rightarrow> pyval dict list \<Rightarrow> node list res" where
  "sequential_from deps [] = Inr []"
| "sequential_from deps (conf # confs) =
     bind_res (strategy_node deps conf) (\<lambda>n.
     bind_res (sequential_from [name_of n] confs) (\<lambda>ns. Inr (n # ns)))"

definition sequential_topology :: generator where
  "sequential_topology confs cfg = sequential_from [] confs"

definition is_leader :: "pyval dict \<Rightarrow> bool" where
  "is_leader conf = (dget conf ''role'' = Some (PStr ''leader''))"

text \<open>The last agent with the role, and the others in order; without one, the last agent leads.\<close>

definition split_leader :: "pyval dict list \<Rightarrow> (pyval dict \<times> pyval dict list) res" where
  "split_leader confs =
     (case filter is_leader confs of
        [] \<Rightarrow> if confs = [] then raise IndexError ''list index out of range'' else Inr (last confs, butlast confs)
      | ls \<Rightarrow> Inr (last ls, filter (\<lambda>c. \<not> is_leader c) confs))"

definition leader_topology :: generator where
  "leader_topology confs cfg =
     bind_res (split_leader confs) (\<lambda>(leader_conf, worker_confs).
     bind_res (map_res (strategy_node []) worker_confs) (\<lambda>worker_nodes.
     bind_res (conf_name leader_conf) (\<lambda>n.
       Inr (worker_nodes @
         [agent_node ((default_config n)\<lparr>nc_depends_on := map name_of worker_nodes\<rparr>)
            (dset ''_receives_strategy_context'' (PBool True) leader_conf)]))))"

definition validate_parallel :: "pyval dict list \<Rightarrow> string list" where
  "validate_parallel confs =
     (if length confs < 2 then [''Parallel strategy needs at least 2 agents''] else [])"

definition validate_sequential :: "pyval dict list \<Rightarrow> string list" where
  "validate_sequential confs =
     (if length confs < 2 then [''Sequential strategy needs at least 2 agents''] else [])"

definition validate_leader :: "pyval dict list \<Rightarrow> string list" where
  "validate_leader confs =
     (if length confs < 2 then [''Leader strategy needs at least 2 agents (1 leader + 1 worker)''] else []) @
     (let leaders = filter is_leader confs in
      if 1 < length leaders
      then [''Leader strategy requires exactly one leader, found '' @ nat_str (length leaders)] else [])"

definition builtin_registry :: topology_registry where
  "builtin_registry = \<lparr>
     generators = [(''parallel'', parallel_topology), (''sequential'', sequential_topology),
                   (''leader'', leader_topology)],
     validators = [(''parallel'', Validate1 validate_parallel), (''sequential'', Validate1 validate_sequential),
                   (''leader'', Validate1 validate_leader)],
     run_start_checks = []\<rparr>"

text \<open>\<open>_run_validator\<close>: the number of parameters decides how the check is called.\<close>

fun run_validator :: "validator \<Rightarrow> pyval dict list \<Rightarrow> pyval dict \<Rightarrow> string list" where
  "run_validator (Validate1 f) confs strategy_config = f confs"
| "run_validator (Validate2 f) confs strategy_config = f confs strategy_config"

definition build_topology :: "topology_registry \<Rightarrow> string \<Rightarrow> pyval dict list \<Rightarrow> pyval dict \<Rightarrow> node list res" where
  "build_topology reg strategy confs strategy_config =
     (case dget (generators reg) strategy of
        None \<Rightarrow> raise TopologyError (''Unknown strategy: '' @ quoted strategy @ ''. Available: '' @
                  py_repr (PList (map PStr (dkeys (generators reg)))))
      | Some generator \<Rightarrow>
          (let errors = run_validator (dget_or (validators reg) strategy (Validate1 (\<lambda>_. []))) confs strategy_config
           in if errors \<noteq> []
              then raise ValidationError (''Strategy '' @ quoted strategy @ '' validation failed: '' @ join ''; '' errors)
              else generator confs strategy_config))"

definition register_topology :: "string \<Rightarrow> generator \<Rightarrow> validator option \<Rightarrow> (pyval \<Rightarrow> string list) option
    \<Rightarrow> topology_registry \<Rightarrow> topology_registry" where
  "register_topology name generator validator run_start_check reg =
     (let reg1 = reg\<lparr>generators := dset name generator (generators reg)\<rparr>;
          reg2 = (case validator of None \<Rightarrow> reg1 | Some v \<Rightarrow> reg1\<lparr>validators := dset name v (validators reg1)\<rparr>)
      in case run_start_check of None \<Rightarrow> reg2
         | Some c \<Rightarrow> reg2\<lparr>run_start_checks := dset name c (run_start_checks reg2)\<rparr>)"

definition available_strategies :: "topology_registry \<Rightarrow> string list" where
  "available_strategies reg = dkeys (generators reg)"

definition named_strategies :: "topology_registry \<Rightarrow> string list" where
  "named_strategies reg = filter (\<lambda>n. dhas n (generators reg)) [''parallel'', ''sequential'', ''leader'', ''team'']"

section \<open>Lemmas\<close>

lemma strategy_node_Inr:
  "strategy_node deps conf = Inr n \<Longrightarrow>
     conf_name conf = Inr (name_of n) \<and> deps_of n = deps \<and> agent_config n = conf \<and> node_kind n = AgentNode"
  by (auto simp: strategy_node_def bind_res_Inr)

lemma map_strategy_nodes:
  "map_res (strategy_node deps) confs = Inr ns \<Longrightarrow>
     map agent_config ns = confs \<and> (\<forall>n \<in> set ns. deps_of n = deps)"
  by (induction confs arbitrary: ns) (auto dest: strategy_node_Inr split: sum.splits)

lemma sequential_from_spec:
  "sequential_from deps confs = Inr ns \<Longrightarrow>
     map agent_config ns = confs \<and>
     (\<forall>i < length ns. deps_of (ns ! i) = (if i = 0 then deps else [name_of (ns ! (i - 1))]))"
proof (induction deps confs arbitrary: ns rule: sequential_from.induct)
  case (2 deps conf confs)
  then obtain n ns' where n: "strategy_node deps conf = Inr n"
      and ns': "sequential_from [name_of n] confs = Inr ns'" and ns: "ns = n # ns'"
    by (auto simp: bind_res_Inr)
  note IH = "2.IH" [OF ns']
  have "deps_of (ns ! i) = (if i = 0 then deps else [name_of (ns ! (i - 1))])" if "i < length ns" for i
  proof (cases i)
    case 0
    then show ?thesis using ns strategy_node_Inr [OF n] by simp
  next
    case (Suc j)
    then show ?thesis using IH ns that by (cases j) auto
  qed
  then show ?case using IH ns strategy_node_Inr [OF n] by simp
qed simp

lemma distinct_singleton: "distinct xs \<Longrightarrow> set xs = {x} \<Longrightarrow> xs = [x]"
  by (cases xs; cases "tl xs") auto

lemma less_iff_eq: "(\<forall>i. i < (m::nat) \<longleftrightarrow> i < n) \<Longrightarrow> m = n"
  by (metis less_irrefl linorder_neqE_nat)

text \<open>What the sort makes of each shape.\<close>

lemma one_batch:
  assumes "ns \<noteq> []" and "distinct (map name_of ns)" and free: "\<forall>n \<in> set ns. deps_of n = []"
  shows "\<exists>b. topological_sort ns = Inr [b] \<and> mset b = mset ns"
proof -
  obtain bs where bs: "topological_sort ns = Inr bs"
    using kahn.complete [of ns] assms by auto
  have one: "i < length bs \<longleftrightarrow> i = 0" for i
    using kahn.batch_count [OF bs, of "\<lambda>_. 0" i] free assms(1) by (cases ns) auto
  obtain b where "bs = [b]" using one [of 0] one [of 1] by (cases bs) auto
  then show ?thesis using bs kahn.sound [OF bs] by auto
qed

lemma chain_batches:
  assumes dist: "distinct (map name_of ns)"
    and chain: "\<forall>i < length ns. deps_of (ns ! i) = (if i = 0 then [] else [name_of (ns ! (i - 1))])"
  shows "topological_sort ns = Inr (map (\<lambda>n. [n]) ns)"
proof -
  define pos where "pos k = (LEAST i. i < length ns \<and> name_of (ns ! i) = k)" for k
  have pos: "pos (name_of (ns ! i)) = i" if "i < length ns" for i
    unfolding pos_def
  proof (rule Least_equality)
    fix j assume "j < length ns \<and> name_of (ns ! j) = name_of (ns ! i)"
    then show "i \<le> j" using dist that by (metis distinct_conv_nth length_map nth_map order_refl)
  qed (use that in auto)
  have "\<forall>n \<in> set ns. \<forall>d \<in> set (deps_of n). d \<in> name_of ` set ns \<longrightarrow> pos d < pos (name_of n)"
  proof (intro ballI impI)
    fix n d assume "n \<in> set ns" "d \<in> set (deps_of n)"
    then obtain i where "i < length ns" "n = ns ! i" by (auto simp: in_set_conv_nth)
    with chain pos \<open>d \<in> set (deps_of n)\<close> show "pos d < pos (name_of n)" by (auto split: if_splits)
  qed
  then obtain bs where bs: "topological_sort ns = Inr bs"
    using kahn.complete [of ns] dist by blast
  let ?rank = "\<lambda>n. pos (name_of n)"
  have zero: "\<forall>n \<in> set ns. (\<forall>d \<in> set (deps_of n). d \<notin> name_of ` set ns) \<longrightarrow> ?rank n = 0"
  proof (intro ballI impI)
    fix n assume n: "n \<in> set ns" and out: "\<forall>d \<in> set (deps_of n). d \<notin> name_of ` set ns"
    then obtain i where i: "i < length ns" "n = ns ! i" by (auto simp: in_set_conv_nth)
    have "i = 0" using chain i out by (auto split: if_splits)
    then show "?rank n = 0" using pos i by simp
  qed
  have step: "\<forall>n \<in> set ns. \<forall>m \<in> set ns. name_of m \<in> set (deps_of n) \<longrightarrow> ?rank n = Suc (?rank m)"
  proof (intro ballI impI)
    fix n m assume "n \<in> set ns" "m \<in> set ns" "name_of m \<in> set (deps_of n)"
    then obtain i where i: "i < length ns" "n = ns ! i" by (auto simp: in_set_conv_nth)
    with chain \<open>name_of m \<in> set (deps_of n)\<close> have "i \<noteq> 0" "name_of m = name_of (ns ! (i - 1))"
      by (auto split: if_splits)
    then show "?rank n = Suc (?rank m)" using pos i by simp
  qed
  have "i < length bs \<longleftrightarrow> i < length ns" for i
  proof -
    have "(\<exists>n \<in> set ns. i \<le> ?rank n) \<longleftrightarrow> i < length ns"
      using pos by (metis in_set_conv_nth le_less_trans order_refl)
    then show ?thesis using kahn.batch_count [OF bs zero step] by simp
  qed
  then have len: "length bs = length ns" by (intro less_iff_eq allI)
  have "bs ! i = [ns ! i]" if i: "i < length ns" for i
  proof -
    have "set (bs ! i) = {ns ! i}"
      using kahn.batches_by_rank [OF bs zero step, of i] i len pos
      by (auto simp: in_set_conv_nth)
    moreover have "distinct (bs ! i)" using kahn.distinct_batch [OF bs] i len by simp
    ultimately show ?thesis by (intro distinct_singleton)
  qed
  then have "bs = map (\<lambda>n. [n]) ns" using len by (simp add: list_eq_iff_nth_eq)
  then show ?thesis using bs by simp
qed

section \<open>What the strategies build\<close>

text \<open>The parallel strategy gives one node per agent, in order, and the executor puts all of
  them in a single batch.\<close>

theorem parallel_one_batch:
  assumes "build_topology builtin_registry ''parallel'' confs cfg = Inr ns" and "distinct (map name_of ns)"
  shows "map agent_config ns = confs \<and> (\<exists>b. topological_sort ns = Inr [b] \<and> mset b = mset ns)"
proof -
  have ns: "map_res (strategy_node []) confs = Inr ns" and "confs \<noteq> []"
    using assms(1)
    by (auto simp: build_topology_def builtin_registry_def parallel_topology_def validate_parallel_def
        dget_or_def split: if_splits)
  note m = map_strategy_nodes [OF ns]
  from m \<open>confs \<noteq> []\<close> have "ns \<noteq> []" by auto
  then show ?thesis using m one_batch [OF _ assms(2)] by blast
qed

text \<open>The sequential strategy gives a chain: as many batches as agents, one agent each, in the
  order of the list.\<close>

theorem sequential_chain:
  assumes "build_topology builtin_registry ''sequential'' confs cfg = Inr ns" and "distinct (map name_of ns)"
  shows "map agent_config ns = confs \<and> topological_sort ns = Inr (map (\<lambda>n. [n]) ns)"
proof -
  have "sequential_from [] confs = Inr ns"
    using assms(1)
    by (auto simp: build_topology_def builtin_registry_def sequential_topology_def validate_sequential_def
        dget_or_def split: if_splits)
  from sequential_from_spec [OF this] show ?thesis using chain_batches [OF assms(2)] by auto
qed

lemma leader_shape:
  assumes "ws \<noteq> []" and dist: "distinct (map name_of (ws @ [l]))"
    and free: "\<forall>n \<in> set ws. deps_of n = []" and l: "deps_of l = map name_of ws"
  shows "\<exists>b. topological_sort (ws @ [l]) = Inr [b, [l]] \<and> mset b = mset ws"
proof -
  let ?ns = "ws @ [l]"
  let ?rank = "\<lambda>n. if name_of n = name_of l then 1 else 0 :: nat"
  have lw: "name_of l \<notin> name_of ` set ws" using dist by auto
  have "\<exists>rank :: string \<Rightarrow> nat. \<forall>n \<in> set ?ns. \<forall>d \<in> set (deps_of n). d \<in> name_of ` set ?ns \<longrightarrow> rank d < rank (name_of n)"
    by (rule exI [of _ "\<lambda>k. if k = name_of l then 1 else 0"]) (use free l lw in \<open>auto simp: image_iff\<close>)
  then obtain bs where bs: "topological_sort ?ns = Inr bs" using kahn.complete [of ?ns] dist by blast
  have zero: "\<forall>n \<in> set ?ns. (\<forall>d \<in> set (deps_of n). d \<notin> name_of ` set ?ns) \<longrightarrow> ?rank n = 0"
    using assms(1) l lw by (cases ws) (auto simp: image_iff)
  have step: "\<forall>n \<in> set ?ns. \<forall>m \<in> set ?ns. name_of m \<in> set (deps_of n) \<longrightarrow> ?rank n = Suc (?rank m)"
    using free l lw by (auto simp: image_iff)
  have "i < length bs \<longleftrightarrow> i < 2" for i
    using kahn.batch_count [OF bs zero step, of i] by auto
  then have two: "length bs = 2" by (intro less_iff_eq allI)
  then obtain b c where bc: "bs = [b, c]" by (auto simp: numeral_2_eq_2 length_Suc_conv)
  have "set c = {l}" using kahn.batches_by_rank [OF bs zero step, of 1] bc lw by (auto simp: image_iff split: if_splits)
  moreover have "distinct c" using kahn.distinct_batch [OF bs, of 1] bc by simp
  ultimately have "c = [l]" by (intro distinct_singleton)
  moreover have "mset (concat bs) = mset ?ns" using kahn.sound [OF bs] by blast
  ultimately show ?thesis using bs bc by auto
qed

text \<open>The leader strategy gives two batches: all workers, then the leader alone. The leader is
  the agent with that role, or the last agent; its node depends on every worker and asks for the
  strategy context.\<close>

theorem leader_after_workers:
  assumes "build_topology builtin_registry ''leader'' confs cfg = Inr ns" and "distinct (map name_of ns)"
  shows "\<exists>ws l. ns = ws @ [l] \<and> deps_of l = map name_of ws \<and>
    (if \<exists>c \<in> set confs. is_leader c then map agent_config ws = filter (\<lambda>c. \<not> is_leader c) confs
     else map agent_config ws = butlast confs) \<and>
    (\<exists>c \<in> set confs. (is_leader c \<or> c = last confs) \<and>
       agent_config l = dset ''_receives_strategy_context'' (PBool True) c) \<and>
    (\<exists>b. topological_sort ns = Inr [b, [l]] \<and> mset b = mset ws)"
proof -
  have two: "2 \<le> length confs" and one: "length (filter is_leader confs) \<le> 1"
    and top: "leader_topology confs cfg = Inr ns"
    using assms(1)
    by (auto simp: build_topology_def builtin_registry_def validate_leader_def Let_def dget_or_def split: if_splits)
  obtain lc wcs ws n where sp: "split_leader confs = Inr (lc, wcs)"
    and ws: "map_res (strategy_node []) wcs = Inr ws" and n: "conf_name lc = Inr n"
    and ns: "ns = ws @ [agent_node ((default_config n)\<lparr>nc_depends_on := map name_of ws\<rparr>)
            (dset ''_receives_strategy_context'' (PBool True) lc)]"
    using top by (auto simp: leader_topology_def bind_res_Inr split_beta)
  note m = map_strategy_nodes [OF ws]
  have "length wcs = length confs - 1"
    using sp one sum_length_filter_compl [of is_leader confs]
    by (auto simp: split_leader_def split: if_splits list.splits)
  with two m have "ws \<noteq> []" by auto
  moreover have lc: "lc \<in> set confs \<and> (is_leader lc \<or> lc = last confs)"
  proof (cases "filter is_leader confs")
    case Nil
    then show ?thesis using sp by (auto simp: split_leader_def split: if_splits)
  next
    case (Cons a as)
    then have "lc = last (filter is_leader confs)" using sp by (simp add: split_leader_def)
    then have "lc \<in> set (filter is_leader confs)" using Cons by (metis last_in_set list.distinct(1))
    then show ?thesis by simp
  qed
  moreover have "if \<exists>c \<in> set confs. is_leader c then wcs = filter (\<lambda>c. \<not> is_leader c) confs else wcs = butlast confs"
    using sp by (auto simp: split_leader_def filter_empty_conv split: if_splits list.splits)
  ultimately show ?thesis
    using ns m assms(2) leader_shape [of ws "last ns"] by (intro exI [of _ ws] exI [of _ "last ns"]) auto
qed

text \<open>\<open>build_topology\<close> refuses an unknown strategy with a topology error and a strategy whose
  check has a complaint with a validation error; the built-in checks refuse fewer than two agents and
  a second leader.\<close>

theorem build_topology_refuses:
  "(\<not> dhas s (generators reg) \<longrightarrow> (\<exists>m. build_topology reg s confs cfg = raise TopologyError m)) \<and>
   (dhas s (generators reg) \<and> run_validator (dget_or (validators reg) s (Validate1 (\<lambda>_. []))) confs cfg \<noteq> [] \<longrightarrow>
      (\<exists>m. build_topology reg s confs cfg = raise ValidationError m)) \<and>
   (s \<in> {''parallel'', ''sequential'', ''leader''} \<and> length confs < 2 \<longrightarrow>
      (\<exists>m. build_topology builtin_registry s confs cfg = raise ValidationError m)) \<and>
   (1 < length (filter is_leader confs) \<longrightarrow>
      (\<exists>m. build_topology builtin_registry ''leader'' confs cfg = raise ValidationError m))"
  by (auto simp: build_topology_def dhas_def builtin_registry_def validate_parallel_def validate_sequential_def
      validate_leader_def Let_def dget_or_def split: option.splits)

text \<open>Registering a strategy makes its generator the one that is used, replaces its check only
  when one is given, and changes no other strategy.\<close>

theorem register_topology_lookup:
  "dget (generators (register_topology n g v c reg)) s = (if s = n then Some g else dget (generators reg) s) \<and>
   dget (validators (register_topology n g v c reg)) s =
     (if s = n \<and> v \<noteq> None then v else dget (validators reg) s) \<and>
   dget (run_start_checks (register_topology n g v c reg)) s =
     (if s = n \<and> c \<noteq> None then c else dget (run_start_checks reg) s)"
  by (auto simp: register_topology_def Let_def split: option.splits)

section \<open>Witnesses\<close>

definition three_agents :: "pyval dict list" where
  "three_agents = [[(''name'', PStr ''a'')], [(''name'', PStr ''b''), (''role'', PStr ''leader'')], [(''name'', PStr ''c'')]]"

theorem parallel_one_batch_witness:
  "\<exists>ns. build_topology builtin_registry ''parallel'' three_agents [] = Inr ns \<and> map agent_config ns = three_agents"
proof -
  obtain ns where ns: "build_topology builtin_registry ''parallel'' three_agents [] = Inr ns" and "distinct (map name_of ns)"
    by (simp add: build_topology_def builtin_registry_def three_agents_def parallel_topology_def
        validate_parallel_def strategy_node_def conf_name_def dget_or_def)
  then show ?thesis using parallel_one_batch [of three_agents "[]" ns] by blast
qed

theorem sequential_chain_witness:
  "\<exists>ns. build_topology builtin_registry ''sequential'' three_agents [] = Inr ns \<and>
     topological_sort ns = Inr (map (\<lambda>n. [n]) ns) \<and> length ns = 3"
proof -
  obtain ns where ns: "build_topology builtin_registry ''sequential'' three_agents [] = Inr ns"
      and "distinct (map name_of ns)" "length ns = 3"
    by (simp add: build_topology_def builtin_registry_def three_agents_def sequential_topology_def
        validate_sequential_def strategy_node_def conf_name_def dget_or_def)
  then show ?thesis using sequential_chain [of three_agents "[]" ns] by blast
qed

theorem leader_after_workers_witness:
  "\<exists>ns b l. build_topology builtin_registry ''leader'' three_agents [] = Inr ns \<and> topological_sort ns = Inr [b, [l]]"
proof -
  obtain ns where ns: "build_topology builtin_registry ''leader'' three_agents [] = Inr ns"
      and "distinct (map name_of ns)"
    by (simp add: build_topology_def builtin_registry_def three_agents_def leader_topology_def split_leader_def
        is_leader_def validate_leader_def strategy_node_def conf_name_def dget_or_def)
  then show ?thesis using leader_after_workers [of three_agents "[]" ns] by blast
qed

theorem build_topology_refuses_witness:
  "\<exists>m. build_topology builtin_registry ''debate'' three_agents [] = raise TopologyError m"
  using build_topology_refuses [of "''debate''" builtin_registry three_agents "[]"]
  by (simp add: builtin_registry_def dhas_def)

end
