(* ===== verification/Conditions.thy ===== *)
theory Conditions
  imports Types
begin

text \<open>
  The condition evaluator, \<^verbatim>\<open>temper_ai/stage/conditions.py\<close>: a condition is a dictionary with
  \<open>source\<close>, \<open>operator\<close> and \<open>value\<close>; the source names a field of an earlier node's result.
\<close>

section \<open>The model\<close>

text \<open>\<open>value.get(key)\<close> while the value is a dictionary, else \<open>None\<close>.\<close>

fun walk_keys :: "pyval \<Rightarrow> string list \<Rightarrow> pyval" where
  "walk_keys v [] = v"
| "walk_keys (PDict d) (k # ks) = walk_keys (dget_or d k PNone) ks"
| "walk_keys _ (k # ks) = PNone"

definition resolve_structured_field :: "node_result \<Rightarrow> string list \<Rightarrow> pyval" where
  "resolve_structured_field r subkeys =
     (case nr_structured_output r of
        None \<Rightarrow> PNone
      | Some d \<Rightarrow> if subkeys = [] then PNone else walk_keys (PDict d) subkeys)"

definition opt_str :: "string option \<Rightarrow> pyval" where
  "opt_str e = (case e of None \<Rightarrow> PNone | Some s \<Rightarrow> PStr s)"

definition resolve_source :: "string \<Rightarrow> node_result dict \<Rightarrow> pyval res" where
  "resolve_source source node_outputs =
     (case split_dot source of
        node_name # field # rest \<Rightarrow>
          (case dget node_outputs node_name of
             None \<Rightarrow> raise KeyError (''Node '' @ quoted node_name @ '' not found in outputs'')
           | Some r \<Rightarrow>
               if field = ''structured'' then Inr (resolve_structured_field r rest)
               else if field = ''output'' then Inr (PStr (nr_output r))
               else if field = ''status'' then Inr (PStr (status_value (nr_status r)))
               else if field = ''cost_usd'' then Inr (PFloat (nr_cost_usd r))
               else if field = ''total_tokens'' then Inr (PInt (nr_total_tokens r))
               else if field = ''error'' then Inr (opt_str (nr_error r))
               else raise KeyError (''Unknown field '' @ quoted field @ '' on NodeResult''))
      | _ \<Rightarrow> raise KeyError (''Source must be 'node_name.field[.subfield]', got '' @ quoted source))"

definition op_contains :: "pyval \<Rightarrow> pyval \<Rightarrow> bool res" where
  "op_contains actual expected =
     (case actual of
        PStr s \<Rightarrow> Inr (has_sub (py_str expected) s)
      | PList xs \<Rightarrow> Inr (py_in expected xs)
      | PDict d \<Rightarrow>
          if \<not> hashable expected then raise TypeError (''unhashable type: '' @ quoted (type_name expected))
          else Inr (list_ex (\<lambda>k. py_eq expected (PStr k)) (dkeys d))
      | _ \<Rightarrow> Inr False)"

definition op_in :: "pyval \<Rightarrow> pyval \<Rightarrow> bool res" where
  "op_in actual expected = (case expected of PList xs \<Rightarrow> Inr (py_in actual xs) | _ \<Rightarrow> Inr False)"

definition apply_operator :: "pyval \<Rightarrow> pyval \<Rightarrow> pyval \<Rightarrow> bool res" where
  "apply_operator actual operator expected =
     (if \<not> hashable operator then raise TypeError (''unhashable type: '' @ quoted (type_name operator))
      else if operator = PStr ''equals'' then Inr (py_eq actual expected)
      else if operator = PStr ''not_equals'' then Inr (\<not> py_eq actual expected)
      else if operator = PStr ''exists'' then Inr (actual \<noteq> PNone)
      else if operator = PStr ''not_exists'' then Inr (actual = PNone)
      else if operator = PStr ''contains'' then op_contains actual expected
      else if operator = PStr ''in'' then op_in actual expected
      else raise ConditionError (''Unknown operator '' @ quoted (py_str operator)))"

text \<open>
  The common start of \<open>source_value\<close> and \<open>evaluate_condition\<close>: an empty source, and a source that
  does not resolve (\<open>KeyError\<close>, \<open>TypeError\<close>), are a \<open>ConditionError\<close>; a source that is not a
  string has no \<open>split\<close>.
\<close>

definition source_value :: "pyval dict \<Rightarrow> node_result dict \<Rightarrow> pyval res" where
  "source_value condition node_outputs =
     (let source = dget_or condition ''source'' PNone in
      if \<not> truthy source then raise ConditionError ''Condition missing 'source' field''
      else case source of
        PStr s \<Rightarrow>
          (case resolve_source s node_outputs of
             Inl e \<Rightarrow>
               if kind_of e \<in> {KeyError, TypeError}
               then raise ConditionError (''Cannot resolve condition source '' @ quoted s @ '': '' @ exn_str e)
               else Inl e
           | Inr v \<Rightarrow> Inr v)
      | _ \<Rightarrow> raise AttributeError (quoted (type_name source) @ '' object has no attribute '' @ quoted ''split''))"

definition evaluate_condition :: "pyval dict \<Rightarrow> node_result dict \<Rightarrow> bool res" where
  "evaluate_condition condition node_outputs =
     (let operator = dget_or condition ''operator'' (PStr ''equals'');
          expected = dget_or condition ''value'' PNone in
      case source_value condition node_outputs of
        Inl e \<Rightarrow> Inl e
      | Inr actual \<Rightarrow> apply_operator actual operator expected)"

definition known_operators :: "string list" where
  "known_operators = [''equals'', ''not_equals'', ''exists'', ''not_exists'', ''contains'', ''in'']"

section \<open>Lemmas\<close>

lemma resolve_source_kind: "resolve_source s outs = Inl e \<Longrightarrow> kind_of e = KeyError"
  by (auto simp: resolve_source_def split: list.splits option.splits if_splits)

lemma source_value_str:
  "dget c ''source'' = Some (PStr s) \<Longrightarrow> source_value c outs = Inl e \<Longrightarrow> kind_of e = ConditionError"
  by (auto simp: source_value_def dget_or_def Let_def dest: resolve_source_kind split: if_splits sum.splits)

lemma apply_operator_total:
  "op \<in> set known_operators \<Longrightarrow> op = ''contains'' \<longrightarrow> hashable expected \<Longrightarrow>
     \<exists>b. apply_operator actual (PStr op) expected = Inr b"
  by (auto simp: known_operators_def apply_operator_def op_contains_def op_in_def split: pyval.splits)

lemma walk_keys_PNone [simp]: "walk_keys PNone ks = PNone"
  by (cases ks) simp_all

lemma walk_keys_append: "walk_keys v (xs @ ys) = walk_keys (walk_keys v xs) ys"
  by (induction v xs rule: walk_keys.induct) auto

text \<open>Equality of Python values is reflexive where every dictionary has distinct keys.\<close>

fun val_ok :: "pyval \<Rightarrow> bool"
  and vals_ok :: "pyval list \<Rightarrow> bool"
  and items_ok :: "(string \<times> pyval) list \<Rightarrow> bool" where
  "val_ok (PList xs) = vals_ok xs"
| "val_ok (PDict d) = (distinct (map fst d) \<and> items_ok d)"
| "val_ok _ = True"
| "vals_ok [] = True"
| "vals_ok (x # xs) = (val_ok x \<and> vals_ok xs)"
| "items_ok [] = True"
| "items_ok ((k, v) # d) = (val_ok v \<and> items_ok d)"

lemma py_eq_refl_aux:
  "val_ok v \<Longrightarrow> py_eq v v"
  "vals_ok xs \<Longrightarrow> py_eq_list xs xs"
  "items_ok d \<Longrightarrow> \<forall>e. (\<forall>(k, v) \<in> set d. map_of e k = Some v) \<longrightarrow> py_sub_dict d e"
proof (induction v and xs and d rule: val_ok_vals_ok_items_ok.induct)
  case (2 d)
  then have "\<forall>(k, v) \<in> set d. map_of d k = Some v" by auto
  with 2 show ?case by simp
qed auto

lemma py_eq_refl [simp]: "val_ok v \<Longrightarrow> py_eq v v"
  by (rule py_eq_refl_aux)

lemma py_eq_str [simp]: "py_eq (PStr s) (PStr t) \<longleftrightarrow> s = t"
  by auto

end
