(* ===== verification/Failure.thy ===== *)
theory Failure
  imports Conditions
begin

text \<open>
  What a failure does to a run: the policy and the shared record of where a run stopped
  (\<^verbatim>\<open>temper_ai/stage/failure.py\<close>), and the executor's decisions that rest on them
  (\<^verbatim>\<open>_held_or_skipped\<close>, \<^verbatim>\<open>_runs_after_a_failure\<close>, \<^verbatim>\<open>_check_dependency_failures\<close> and their helpers
  in \<^verbatim>\<open>temper_ai/stage/executor.py\<close>).

  Times are rational numbers of seconds; the current time is an argument. The one \<open>RunStop\<close> object
  of a run is shared by all its graphs, so it is part of the state the executor passes along;
  \<open>None\<close> stands for a context without one.
\<close>

section \<open>The failure policy\<close>

definition HOLD :: string where "HOLD = ''hold''"
definition CLEANUP :: string where "CLEANUP = ''cleanup''"
definition MODES :: "string list" where "MODES = [HOLD, CLEANUP]"

record failure_policy =
  fp_mode :: string
  fp_hold_hours :: rat

definition default_policy :: failure_policy where
  "default_policy = \<lparr>fp_mode = HOLD, fp_hold_hours = 24\<rparr>"

definition holds :: "failure_policy \<Rightarrow> bool" where
  "holds p = (fp_mode p = HOLD)"

definition deadline :: "failure_policy \<Rightarrow> rat \<Rightarrow> rat" where
  "deadline p now = now + max (fp_hold_hours p) 0 * 3600"

text \<open>
  \<open>float(s)\<close> for a decimal literal: blanks around it, a sign, digits with at most one point and at
  least one digit. Exponents, \<open>inf\<close>, \<open>nan\<close> and digit underscores are read as no number.
\<close>

fun digits_value :: "string \<Rightarrow> rat \<Rightarrow> rat" where
  "digits_value [] acc = acc"
| "digits_value (c # cs) acc = digits_value cs (acc * 10 + of_nat (of_char c - 48))"

definition float_of_str :: "string \<Rightarrow> rat option" where
  "float_of_str s0 =
     (let s = strip s0;
          (sign, t) = (case s of c # cs \<Rightarrow> if c = CHR ''-'' then (-1, cs) else if c = CHR ''+'' then (1, cs) else (1, s)
                       | [] \<Rightarrow> (1::rat, s));
          i = takeWhile is_digit t;
          r = dropWhile is_digit t;
          f = (case r of [] \<Rightarrow> [] | c # cs \<Rightarrow> cs)
      in if (r = [] \<or> hd r = CHR ''.'') \<and> list_all is_digit f \<and> (i \<noteq> [] \<or> f \<noteq> [])
         then Some (sign * (digits_value i 0 + digits_value f 0 / 10 ^ length f)) else None)"

definition py_float :: "pyval \<Rightarrow> rat option" where
  "py_float v = (case v of PStr s \<Rightarrow> float_of_str s | _ \<Rightarrow> as_number v)"

text \<open>\<open>FailurePolicy.parse\<close>\<close>

definition parse_policy :: "pyval \<Rightarrow> failure_policy option \<Rightarrow> failure_policy" where
  "parse_policy raw base =
     (let inherited = (case base of None \<Rightarrow> default_policy | Some p \<Rightarrow> p);
          known = (\<lambda>mode. if mode \<in> set MODES then mode else fp_mode inherited)
      in case raw of
           PStr s \<Rightarrow> \<lparr>fp_mode = known (lower (strip s)), fp_hold_hours = fp_hold_hours inherited\<rparr>
         | PDict d \<Rightarrow>
             (let mode = (case dget_or d ''mode'' PNone of PNone \<Rightarrow> fp_mode inherited
                          | v \<Rightarrow> lower (strip (py_str v)));
                  hours = (case dget_or d ''hold_hours'' PNone of PNone \<Rightarrow> fp_hold_hours inherited
                           | v \<Rightarrow> (case py_float v of None \<Rightarrow> fp_hold_hours inherited | Some h \<Rightarrow> h))
              in \<lparr>fp_mode = known mode, fp_hold_hours = hours\<rparr>)
         | _ \<Rightarrow> inherited)"

definition policy_for :: "node_config \<Rightarrow> failure_policy option \<Rightarrow> failure_policy" where
  "policy_for cfg base = parse_policy (nc_on_failure cfg) base"

definition undoes :: "node \<Rightarrow> string list" where
  "undoes n = (case nc_undoes (config n) of None \<Rightarrow> [] | Some names \<Rightarrow> names)"

definition is_cleanup :: "node \<Rightarrow> bool" where
  "is_cleanup n = (undoes n \<noteq> [])"

section \<open>Where the run stopped\<close>

record held_cleanup =
  hc_path :: string
  hc_undoes :: "string list"

definition held_as_dict :: "held_cleanup \<Rightarrow> pyval" where
  "held_as_dict h = PDict [(''path'', PStr (hc_path h)), (''undoes'', PList (map PStr (hc_undoes h)))]"

record run_stop =
  rs_policy :: failure_policy
  rs_path :: "string option"
  rs_reason :: "string option"
  rs_at :: "rat option"
  rs_held :: "held_cleanup list"
  rs_ran :: "held_cleanup list"

definition new_run_stop :: "failure_policy \<Rightarrow> run_stop" where
  "new_run_stop p = \<lparr>rs_policy = p, rs_path = None, rs_reason = None, rs_at = None, rs_held = [], rs_ran = []\<rparr>"

definition stopped :: "run_stop \<Rightarrow> bool" where
  "stopped s = (rs_path s \<noteq> None)"

definition note_failure :: "rat \<Rightarrow> string \<Rightarrow> string option \<Rightarrow> run_stop \<Rightarrow> run_stop" where
  "note_failure now path reason s =
     (if rs_path s \<noteq> None then s
      else let r = strip (case reason of None \<Rightarrow> [] | Some t \<Rightarrow> t)
           in s\<lparr>rs_path := Some path, rs_reason := Some (if r = [] then ''the step failed'' else r),
                rs_at := Some now\<rparr>)"

definition hold :: "string \<Rightarrow> string list \<Rightarrow> run_stop \<Rightarrow> run_stop" where
  "hold path names s =
     (if list_ex (\<lambda>h. hc_path h = path) (rs_held s) then s
      else s\<lparr>rs_held := rs_held s @ [\<lparr>hc_path = path, hc_undoes = names\<rparr>]\<rparr>)"

definition note_cleanup_ran :: "string \<Rightarrow> string list \<Rightarrow> run_stop \<Rightarrow> run_stop" where
  "note_cleanup_ran path names s =
     (if list_ex (\<lambda>h. hc_path h = path) (rs_ran s) then s
      else s\<lparr>rs_ran := rs_ran s @ [\<lparr>hc_path = path, hc_undoes = names\<rparr>]\<rparr>)"

text \<open>\<open>RunStop.as_dict\<close>; \<open>isoformat\<close> prints a time.\<close>

definition run_stop_as_dict :: "(rat \<Rightarrow> string) \<Rightarrow> run_stop \<Rightarrow> pyval dict" where
  "run_stop_as_dict isoformat s =
     [(''path'', opt_str (rs_path s)), (''reason'', opt_str (rs_reason s)),
      (''at'', opt_str (map_option isoformat (rs_at s))),
      (''mode'', PStr (fp_mode (rs_policy s))), (''held'', PList (map held_as_dict (rs_held s)))]"

section \<open>Skips caused by a failure\<close>

definition skipped_for_failure :: "node_result \<Rightarrow> bool" where
  "skipped_for_failure r = (nr_status r = SKIPPED \<and> has_sub ''failed'' (error_text r))"

text \<open>
  The search for \<^verbatim>\<open>'([^']+)' failed$\<close>: the text ends in a quote and \<open>failed\<close>, possibly followed by
  one line break, and the part before it back to the next quote is not empty.
\<close>

definition root_failure :: "string \<Rightarrow> string option" where
  "root_failure text =
     (let t = (if text \<noteq> [] \<and> chr_is 10 (last text) then butlast text else text);
          ending = [CHR 0x27] @ '' failed'';
          before = take (length t - length ending) t;
          name = rev (takeWhile (\<lambda>c. c \<noteq> CHR 0x27) (rev before))
      in if t = before @ ending \<and> name \<noteq> [] \<and> CHR 0x27 \<in> set before then Some name else None)"

definition failure_skip :: "string \<Rightarrow> node_result \<Rightarrow> node_result" where
  "failure_skip dep_name dep_result =
     (if nr_status dep_result = FAILED
      then error_result SKIPPED (''Dependency '' @ quoted dep_name @ '' failed'')
      else let root = (case root_failure (error_text dep_result) of Some r \<Rightarrow> quoted r | None \<Rightarrow> ''a step upstream'')
           in error_result SKIPPED (''Dependency '' @ quoted dep_name @ '' was skipped because '' @ root @ '' failed''))"

fun first_failed_dep :: "string list \<Rightarrow> node_result dict \<Rightarrow> node_result option" where
  "first_failed_dep [] outs = None"
| "first_failed_dep (d # ds) outs =
     (case dget outs d of
        None \<Rightarrow> first_failed_dep ds outs
      | Some r \<Rightarrow> if nr_status r = FAILED \<or> skipped_for_failure r then Some (failure_skip d r)
                  else first_failed_dep ds outs)"

definition check_dependency_failures :: "node \<Rightarrow> node_result dict \<Rightarrow> node_result option" where
  "check_dependency_failures n node_outputs = first_failed_dep (deps_of n) node_outputs"

section \<open>Whether a node starts at all\<close>

text \<open>What the executor reads of its context.\<close>

record exec_context =
  cx_run_id :: string
  cx_node_path :: string
  cx_run_only :: "string list option"
  cx_failure_policy :: "failure_policy option"
  cx_parent_event :: "string option"
  cx_workspace_path :: "string option"

definition CLEANUP_HELD :: string where "CLEANUP_HELD = ''cleanup_held''"

text \<open>\<open>f"{context.node_path}.{node.name}" if context.node_path else node.name\<close>\<close>

definition step_path :: "exec_context \<Rightarrow> node \<Rightarrow> string" where
  "step_path cx n = (if cx_node_path cx \<noteq> [] then cx_node_path cx @ ''.'' @ name_of n else name_of n)"

definition wanted :: "string \<Rightarrow> string list \<Rightarrow> bool" where
  "wanted path only = list_ex (\<lambda>p. p = path \<or> startswith (path @ ''.'') p) only"

text \<open>The result, and the status and reason of the event that is recorded with it.\<close>

definition held_or_skipped :: "node \<Rightarrow> exec_context \<Rightarrow> run_stop option \<Rightarrow> (node_result \<times> string \<times> string) option" where
  "held_or_skipped n cx stop =
     (let path = step_path cx n;
          passed_over = ''not part of this pass: it ran only the clean-ups the run was holding''
      in if (case cx_run_only cx of None \<Rightarrow> False | Some only \<Rightarrow> \<not> wanted path only)
         then Some (error_result SKIPPED passed_over, ''skipped'', passed_over)
         else case stop of
           None \<Rightarrow> None
         | Some s \<Rightarrow>
             (case rs_path s of
                None \<Rightarrow> None
              | Some where_stopped \<Rightarrow>
                  (let policy = (case cx_failure_policy cx of Some p \<Rightarrow> p | None \<Rightarrow> rs_policy s)
                   in if is_cleanup n \<and> holds policy
                      then let reason = ''kept back so the run can be picked up where it stopped ('' @ quoted where_stopped @
                                 '' failed); it undoes '' @ join '', '' (undoes n)
                           in Some (with_metadata CLEANUP_HELD (PBool True) (error_result SKIPPED reason), ''held'', reason)
                      else if is_cleanup n \<or> nc_run_after_failure (config n) then None
                      else let reason = ''the run stopped at '' @ quoted where_stopped @ '', which failed''
                           in Some (error_result SKIPPED reason, ''skipped'', reason))))"

definition runs_after_a_failure :: "node \<Rightarrow> exec_context \<Rightarrow> run_stop option \<Rightarrow> bool" where
  "runs_after_a_failure n cx stop =
     (if nc_run_after_failure (config n) then True
      else if \<not> is_cleanup n then False
      else case (case cx_failure_policy cx of Some p \<Rightarrow> Some p | None \<Rightarrow> map_option rs_policy stop) of
             None \<Rightarrow> False | Some p \<Rightarrow> \<not> holds p)"

section \<open>Lemmas\<close>

lemma has_sub_failed_end: "has_sub ''failed'' (a @ '' failed'')"
  unfolding has_sub_iff by (rule exI [of _ "a @ '' ''"], rule exI [of _ "[]"]) simp

lemma skip_marks_failure: "skipped_for_failure (failure_skip d r)"
proof -
  have "\<exists>e. failure_skip d r = error_result SKIPPED (e @ '' failed'')"
    unfolding failure_skip_def Let_def append_assoc [symmetric]
    by (cases "nr_status r = FAILED") (simp_all only: if_True if_False simp_thms, blast+)
  then show ?thesis using has_sub_failed_end by (auto simp: skipped_for_failure_def)
qed

lemma root_failure_end:
  assumes "r \<noteq> []" and "CHR 0x27 \<notin> set r"
  shows "root_failure (a @ quoted r @ '' failed'') = Some r"
proof -
  have "takeWhile (\<lambda>c. c \<noteq> CHR 0x27) (rev r @ CHR 0x27 # b) = rev r" for b
    using assms(2) by (subst takeWhile_append2) auto
  then show ?thesis
    using assms(1) by (simp add: root_failure_def quoted_def chr_is_def Let_def)
qed

lemma first_failed_dep_Some:
  "first_failed_dep ds outs = Some s \<Longrightarrow>
     \<exists>d r. d \<in> set ds \<and> dget outs d = Some r \<and> (nr_status r = FAILED \<or> skipped_for_failure r) \<and> s = failure_skip d r"
  by (induction ds) (auto split: option.splits if_splits)

lemma first_failed_dep_None:
  "first_failed_dep ds outs = None \<longleftrightarrow>
     (\<forall>d \<in> set ds. \<forall>r. dget outs d = Some r \<longrightarrow> \<not> (nr_status r = FAILED \<or> skipped_for_failure r))"
  by (induction ds) (auto split: option.splits)

lemma root_failure_skip:
  "root_failure (error_text r) = Some rt \<Longrightarrow> rt \<noteq> [] \<Longrightarrow> CHR 0x27 \<notin> set rt \<Longrightarrow> nr_status r \<noteq> FAILED \<Longrightarrow>
     root_failure (error_text (failure_skip d r)) = Some rt"
  using root_failure_end [of rt "''Dependency '' @ quoted d @ '' was skipped because ''"]
  by (simp add: failure_skip_def)

lemma root_failure_first:
  "nr_status r = FAILED \<Longrightarrow> d \<noteq> [] \<Longrightarrow> CHR 0x27 \<notin> set d \<Longrightarrow>
     root_failure (error_text (failure_skip d r)) = Some d"
  using root_failure_end [of d "''Dependency ''"] by (simp add: failure_skip_def)

lemma note_failure_stopped [simp]: "stopped (note_failure now path reason s)"
  by (auto simp: note_failure_def stopped_def Let_def)

lemma hold_sels [simp]:
  "rs_path (hold p ns s) = rs_path s" "rs_policy (hold p ns s) = rs_policy s" "rs_reason (hold p ns s) = rs_reason s"
  "rs_ran (hold p ns s) = rs_ran s"
  by (simp_all add: hold_def)

lemma note_cleanup_ran_sels [simp]:
  "rs_path (note_cleanup_ran p ns s) = rs_path s" "rs_policy (note_cleanup_ran p ns s) = rs_policy s"
  "rs_reason (note_cleanup_ran p ns s) = rs_reason s" "rs_held (note_cleanup_ran p ns s) = rs_held s"
  by (simp_all add: note_cleanup_ran_def)

lemma note_failure_sels [simp]:
  "rs_policy (note_failure t p r s) = rs_policy s" "rs_held (note_failure t p r s) = rs_held s"
  "rs_ran (note_failure t p r s) = rs_ran s"
  by (simp_all add: note_failure_def Let_def)

section \<open>What the failure rules guarantee\<close>


lemma chain_step:
  assumes "r = failure_skip d q" and "nr_status q = FAILED \<and> d = rt \<or> nr_status q = SKIPPED \<and> root_failure (error_text q) = Some rt"
    and "rt \<noteq> []" and "CHR 0x27 \<notin> set rt"
  shows "nr_status r = SKIPPED \<and> root_failure (error_text r) = Some rt"
  using assms root_failure_first [of q d] root_failure_skip [of q rt d]
  by (auto simp: failure_skip_def Let_def)

text \<open>A failure is carried all the way down. Along any chain of nodes in which each depends on
  the one before it and nothing else of its dependencies failed, with the first node failed and each
  later one given the result the check calls for, every later node is skipped for the failure, and
  its reason ends with the name of the node that failed first, however long the chain.\<close>

theorem failure_carried_down:
  assumes failed: "dget outs (name_of (ns ! 0)) = Some r0" "nr_status r0 = FAILED"
    and chain: "\<forall>i. Suc i < length ns \<longrightarrow> deps_of (ns ! Suc i) = [name_of (ns ! i)]"
    and given: "\<forall>i. Suc i < length ns \<longrightarrow>
      dget outs (name_of (ns ! Suc i)) = check_dependency_failures (ns ! Suc i) outs"
    and name: "name_of (ns ! 0) \<noteq> []" "CHR 0x27 \<notin> set (name_of (ns ! 0))"
    and i: "Suc i < length ns"
  shows "\<exists>r. dget outs (name_of (ns ! Suc i)) = Some r \<and> skipped_for_failure r \<and>
    root_failure (error_text r) = Some (name_of (ns ! 0))"
  using i
proof (induction i)
  case 0
  let ?r = "failure_skip (name_of (ns ! 0)) r0"
  have "dget outs (name_of (ns ! Suc 0)) = Some ?r"
    using chain given 0 failed by (simp add: check_dependency_failures_def)
  then show ?case using skip_marks_failure root_failure_first [OF failed(2) name] by blast
next
  case (Suc i)
  then obtain q where q: "dget outs (name_of (ns ! Suc i)) = Some q" "skipped_for_failure q"
      "root_failure (error_text q) = Some (name_of (ns ! 0))" by auto
  let ?r = "failure_skip (name_of (ns ! Suc i)) q"
  have "dget outs (name_of (ns ! Suc (Suc i))) = Some ?r"
    using chain given Suc.prems q by (simp add: check_dependency_failures_def)
  moreover have "root_failure (error_text ?r) = Some (name_of (ns ! 0))"
    using chain_step [OF refl _ name, of q "name_of (ns ! Suc i)"] q(2,3) by (simp add: skipped_for_failure_def)
  ultimately show ?case using skip_marks_failure by blast
qed

text \<open>Only the first failure counts: once a run has stopped, later failures change nothing, and
  after any sequence of failures the run is stopped at the first one.\<close>

theorem first_failure_counts:
  "(stopped s \<longrightarrow> fold (\<lambda>(t, p, r). note_failure t p r) fs s = s) \<and>
   (\<not> stopped s \<longrightarrow> fs = (t, p, r) # gs \<longrightarrow>
      rs_path (fold (\<lambda>(t, p, r). note_failure t p r) fs s) = Some p \<and>
      rs_at (fold (\<lambda>(t, p, r). note_failure t p r) fs s) = Some t)"
proof -
  have keep: "stopped s \<Longrightarrow> fold (\<lambda>(t, p, r). note_failure t p r) fs s = s" for fs s
    by (induction fs) (auto simp: note_failure_def stopped_def)
  then show ?thesis
    by (auto simp: keep) (simp_all add: note_failure_def stopped_def Let_def)
qed

text \<open>Once the run has stopped, a node of a full pass starts only if it is a clean-up in a run that
  does not hold its clean-ups, or an ordinary step marked to run after a failure. A clean-up of a
  holding run is kept back with the held mark, and every node that does not start carries the
  failure on to what depends on it.\<close>

theorem nothing_starts_after_stop:
  assumes "stopped s" and "cx_run_only cx = None"
  shows "(held_or_skipped n cx (Some s) = None \<longleftrightarrow>
      (if is_cleanup n then \<not> holds (case cx_failure_policy cx of Some p \<Rightarrow> p | None \<Rightarrow> rs_policy s)
       else nc_run_after_failure (config n))) \<and>
    (\<forall>r st why. held_or_skipped n cx (Some s) = Some (r, st, why) \<longrightarrow>
      skipped_for_failure r \<and> (meta_set CLEANUP_HELD r \<longleftrightarrow> is_cleanup n))"
proof -
  obtain p where p: "rs_path s = Some p" using assms(1) by (auto simp: stopped_def)
  have held: "has_sub ''failed'' (a @ b @ '' failed); it undoes '' @ c)" for a b c
    unfolding has_sub_iff by (rule exI [of _ "a @ b @ '' ''"], rule exI [of _ "''); it undoes '' @ c"]) simp
  have stop: "has_sub ''failed'' (a @ b @ '', which failed'')" for a b
    unfolding has_sub_iff by (rule exI [of _ "a @ b @ '', which ''"], rule exI [of _ "[]"]) simp
  show ?thesis
    using held [of "''kept back so the run can be picked up where it stopped (''" "quoted p"]
      stop [of "''the run stopped at ''" "quoted p"]
    by (auto simp: held_or_skipped_def p assms(2) Let_def skipped_for_failure_def error_text_def)
qed

text \<open>Before the run has stopped, and in a pass over everything, no node is kept from starting.\<close>

theorem starts_before_stop:
  assumes "cx_run_only cx = None" and "\<not> stopped s"
  shows "held_or_skipped n cx (Some s) = None"
  using assms by (simp add: held_or_skipped_def stopped_def)

text \<open>A mistyped \<open>on_failure\<close> never turns a run that holds into one that tears down: the parsed
  mode is always one of the two modes, and it is clean-up only if the text says so or the inherited
  policy did.\<close>

theorem parse_policy_safe:
  assumes "\<forall>b. base = Some b \<longrightarrow> fp_mode b \<in> set MODES"
  shows "fp_mode (parse_policy raw base) \<in> set MODES \<and>
    (fp_mode (parse_policy raw base) = CLEANUP \<longrightarrow>
       (\<exists>b. base = Some b \<and> fp_mode b = CLEANUP) \<or>
       (\<exists>v. (raw = v \<and> (\<exists>s. v = PStr s) \<or> (\<exists>d. raw = PDict d \<and> dget d ''mode'' = Some v)) \<and>
            lower (strip (py_str v)) = CLEANUP))"
proof -
  have "fp_mode default_policy = HOLD" "HOLD \<noteq> CLEANUP" "HOLD \<in> set MODES" "CLEANUP \<in> set MODES"
    by (simp_all add: default_policy_def HOLD_def CLEANUP_def MODES_def)
  then show ?thesis
    using assms
    by (cases base; cases raw)
      (auto simp: parse_policy_def Let_def dget_or_def py_str_def split: if_splits option.splits pyval.splits)
qed

section \<open>Witnesses\<close>

definition fail_outs :: "node_result dict" where
  "fail_outs = [(''a'', error_result FAILED ''boom''),
     (''b'', failure_skip ''a'' (error_result FAILED ''boom'')),
     (''c'', failure_skip ''b'' (failure_skip ''a'' (error_result FAILED ''boom'')))]"

theorem failure_carried_down_witness:
  "\<exists>r. dget fail_outs ''c'' = Some r \<and> skipped_for_failure r \<and> root_failure (error_text r) = Some ''a''"
proof -
  let ?ns = "[simple_node ''a'' [], simple_node ''b'' [''a''], simple_node ''c'' [''b'']]"
  have chain: "\<forall>i. Suc i < length ?ns \<longrightarrow> deps_of (?ns ! Suc i) = [name_of (?ns ! i)]"
    by (auto simp: less_Suc_eq)
  have given: "\<forall>i. Suc i < length ?ns \<longrightarrow>
      dget fail_outs (name_of (?ns ! Suc i)) = check_dependency_failures (?ns ! Suc i) fail_outs"
    using skip_marks_failure [of "''a''" "error_result FAILED ''boom''"]
    by (auto simp: less_Suc_eq fail_outs_def check_dependency_failures_def)
  show ?thesis
    using failure_carried_down [OF _ _ chain given, of "error_result FAILED ''boom''" 1]
    by (simp add: fail_outs_def)
qed


theorem first_failure_counts_witness:
  "rs_path (fold (\<lambda>(t, p, r). note_failure t p r) [(1, ''a'', None), (2, ''b'', Some ''late'')] (new_run_stop default_policy)) = Some ''a''"
  using first_failure_counts [of "new_run_stop default_policy" "[(1, ''a'', None), (2, ''b'', Some ''late'')]" 1 "''a''" None "[(2, ''b'', Some ''late'')]"]
  by (simp add: new_run_stop_def stopped_def)

definition plain_context :: exec_context where
  "plain_context = \<lparr>cx_run_id = ''r'', cx_node_path = [], cx_run_only = None, cx_failure_policy = None, cx_parent_event = None, cx_workspace_path = None\<rparr>"

theorem nothing_starts_after_stop_witness:
  "held_or_skipped (simple_node ''n'' []) plain_context (Some (note_failure 0 ''a'' None (new_run_stop default_policy))) \<noteq> None"
  using nothing_starts_after_stop [of "note_failure 0 ''a'' None (new_run_stop default_policy)" plain_context "simple_node ''n'' []"]
  by (simp add: plain_context_def is_cleanup_def undoes_def simple_node_def default_config_def)

theorem starts_before_stop_witness:
  "held_or_skipped (simple_node ''n'' []) plain_context (Some (new_run_stop default_policy)) = None"
  using starts_before_stop [of plain_context "new_run_stop default_policy"]
  by (simp add: plain_context_def new_run_stop_def stopped_def)

theorem parse_policy_safe_witness:
  "fp_mode (parse_policy (PStr ''clenup'') (Some default_policy)) \<in> set MODES"
  using parse_policy_safe [of "Some default_policy" "PStr ''clenup''"] by (simp add: default_policy_def MODES_def)

end
