(* ===== verification/Checkpoint.thy ===== *)
theory Checkpoint
  imports Conditions "HOL-Library.List_Lexorder" "HOL-Library.Char_ord"
begin

text \<open>
  The checkpoint log: the rows of \<^verbatim>\<open>temper_ai/checkpoint/models.py\<close> and the service of
  \<^verbatim>\<open>temper_ai/checkpoint/service.py\<close> that writes them, replays them and forks them.

  The table is the list of its rows in insertion order. Row ids come from \<open>uuid4\<close>, times from the
  clock, and the database may refuse a row: these are the environment \<open>cp_env\<close>, a parameter. A
  refused row is lost, but its sequence number is used up. Metadata is a JSON object as the service
  itself writes it.
\<close>

section \<open>Rows and the service\<close>

record checkpoint =
  cp_id :: string
  cp_execution_id :: string
  cp_sequence :: int
  cp_event_type :: string
  cp_node_name :: "string option"
  cp_agent_name :: "string option"
  cp_status :: string
  cp_output :: "string option"
  cp_structured_output :: "pyval dict option"
  cp_cost_usd :: rat
  cp_total_tokens :: int
  cp_duration_seconds :: rat
  cp_error :: "string option"
  cp_parent_id :: "string option"
  cp_metadata :: "pyval dict"
  cp_timestamp :: rat

text \<open>A row with only its event type and status given.\<close>

definition row :: "string \<Rightarrow> string \<Rightarrow> checkpoint" where
  "row event_type st = \<lparr>cp_id = [], cp_execution_id = [], cp_sequence = 0, cp_event_type = event_type,
     cp_node_name = None, cp_agent_name = None, cp_status = st, cp_output = None, cp_structured_output = None,
     cp_cost_usd = 0, cp_total_tokens = 0, cp_duration_seconds = 0, cp_error = None, cp_parent_id = None,
     cp_metadata = [], cp_timestamp = 0\<rparr>"

record cp_env =
  ce_uuid :: "nat \<Rightarrow> string"
  ce_clock :: "nat \<Rightarrow> rat"
  ce_accepts :: "checkpoint \<Rightarrow> bool"

text \<open>The table and one service on it.\<close>

record cp_state =
  cs_rows :: "checkpoint list"
  cs_execution_id :: string
  cs_sequence :: int

definition load_checkpoints :: "checkpoint list \<Rightarrow> string \<Rightarrow> int option \<Rightarrow> checkpoint list" where
  "load_checkpoints rows execution_id up_to =
     sort_key cp_sequence (filter (\<lambda>c. cp_execution_id c = execution_id \<and>
        (case up_to of None \<Rightarrow> True | Some s \<Rightarrow> cp_sequence c \<le> s)) rows)"

text \<open>\<open>CheckpointService(execution_id)\<close>; a table that cannot be read starts the numbers at 0.\<close>

definition load_max_sequence :: "bool \<Rightarrow> checkpoint list \<Rightarrow> string \<Rightarrow> int" where
  "load_max_sequence readable rows execution_id =
     (case rev (load_checkpoints rows execution_id None) of
        [] \<Rightarrow> 0
      | c # _ \<Rightarrow> if readable then cp_sequence c + 1 else 0)"

definition open_service :: "bool \<Rightarrow> checkpoint list \<Rightarrow> string \<Rightarrow> cp_state" where
  "open_service readable rows execution_id =
     \<lparr>cs_rows = rows, cs_execution_id = execution_id, cs_sequence = load_max_sequence readable rows execution_id\<rparr>"

text \<open>\<open>_save\<close>\<close>

definition stamp :: "cp_env \<Rightarrow> checkpoint \<Rightarrow> cp_state \<Rightarrow> checkpoint" where
  "stamp env c st = c\<lparr>cp_id := ce_uuid env (length (cs_rows st)), cp_execution_id := cs_execution_id st,
     cp_sequence := cs_sequence st, cp_timestamp := ce_clock env (length (cs_rows st))\<rparr>"

definition save :: "cp_env \<Rightarrow> checkpoint \<Rightarrow> cp_state \<Rightarrow> cp_state" where
  "save env c st =
     (let checkpoint = stamp env c st
      in st\<lparr>cs_sequence := cs_sequence st + 1,
            cs_rows := (if ce_accepts env checkpoint then cs_rows st @ [checkpoint] else cs_rows st)\<rparr>)"

definition save_node_completed :: "cp_env \<Rightarrow> string \<Rightarrow> node_result \<Rightarrow> cp_state \<Rightarrow> cp_state" where
  "save_node_completed env node_name r =
     save env ((row ''node_completed'' (status_value (nr_status r)))\<lparr>cp_node_name := Some node_name,
       cp_output := Some (nr_output r), cp_structured_output := nr_structured_output r,
       cp_cost_usd := nr_cost_usd r, cp_total_tokens := nr_total_tokens r,
       cp_duration_seconds := nr_duration_seconds r, cp_error := nr_error r\<rparr>)"

definition save_agent_completed :: "cp_env \<Rightarrow> string \<Rightarrow> string \<Rightarrow> agent_result \<Rightarrow> cp_state \<Rightarrow> cp_state" where
  "save_agent_completed env node_name agent_name r =
     save env ((row ''agent_completed'' (status_value (ar_status r)))\<lparr>cp_node_name := Some node_name,
       cp_agent_name := Some agent_name, cp_output := Some (ar_output r),
       cp_structured_output := ar_structured_output r, cp_cost_usd := ar_cost_usd r,
       cp_total_tokens := total_tokens (ar_tokens r), cp_duration_seconds := ar_duration_seconds r,
       cp_error := ar_error r\<rparr>)"

definition str_vals :: "string list \<Rightarrow> pyval" where
  "str_vals xs = PList (map PStr xs)"

definition save_dispatch_applied :: "cp_env \<Rightarrow> string \<Rightarrow> pyval dict list \<Rightarrow> string list \<Rightarrow> int \<Rightarrow> string \<times> string \<Rightarrow> int \<Rightarrow> string
    \<Rightarrow> cp_state \<Rightarrow> cp_state" where
  "save_dispatch_applied env dispatcher_name added_nodes removed_targets dispatcher_depth fingerprint delta graph_path =
     save env ((row ''dispatch_applied'' ''applied'')\<lparr>cp_node_name := Some dispatcher_name,
       cp_metadata := [(''added_nodes'', PList (map PDict added_nodes)), (''removed_targets'', str_vals removed_targets),
         (''dispatcher_depth'', PInt dispatcher_depth),
         (''dispatcher_fingerprint'', str_vals [fst fingerprint, snd fingerprint]),
         (''dispatched_count_delta'', PInt delta), (''graph_path'', PStr graph_path)]\<rparr>)"

definition save_cleanup_held :: "cp_env \<Rightarrow> string \<Rightarrow> string list \<Rightarrow> cp_state \<Rightarrow> cp_state" where
  "save_cleanup_held env node_name names =
     save env ((row ''cleanup_held'' ''held'')\<lparr>cp_node_name := Some node_name, cp_metadata := [(''undoes'', str_vals names)]\<rparr>)"

definition save_cleanup_ran :: "cp_env \<Rightarrow> string \<Rightarrow> string list \<Rightarrow> cp_state \<Rightarrow> cp_state" where
  "save_cleanup_ran env node_name names =
     save env ((row ''cleanup_ran'' ''ran'')\<lparr>cp_node_name := Some node_name, cp_metadata := [(''undoes'', str_vals names)]\<rparr>)"

definition save_node_reset :: "cp_env \<Rightarrow> string \<Rightarrow> cp_state \<Rightarrow> cp_state" where
  "save_node_reset env node_name = save env ((row ''node_reset'' ''reset'')\<lparr>cp_node_name := Some node_name\<rparr>)"

definition save_loop_rewind :: "cp_env \<Rightarrow> string \<Rightarrow> string \<Rightarrow> string list \<Rightarrow> node_result option \<Rightarrow> cp_state \<Rightarrow> cp_state" where
  "save_loop_rewind env trigger_node target_node cleared_nodes trigger_result =
     save env ((row ''loop_rewind'' ''rewind'')\<lparr>cp_node_name := Some trigger_node,
       cp_output := map_option nr_output trigger_result,
       cp_structured_output := Option.bind trigger_result nr_structured_output,
       cp_error := Option.bind trigger_result nr_error,
       cp_metadata := [(''trigger_node'', PStr trigger_node), (''target_node'', PStr target_node),
          (''cleared_nodes'', str_vals cleared_nodes)] @
          (case trigger_result of None \<Rightarrow> [] | Some r \<Rightarrow> [(''trigger_status'', PStr (status_value (nr_status r)))])\<rparr>)"

text \<open>
  \<open>save_wait_parked\<close>: under the wait's own id, kept if it is there; unlike the other saves a refusal
  is raised. The sequence number is used up either way once a row is made.
\<close>

definition save_wait_parked :: "cp_env \<Rightarrow> string \<Rightarrow> string \<Rightarrow> int \<Rightarrow> string option \<Rightarrow> cp_state \<Rightarrow> string res \<times> cp_state" where
  "save_wait_parked env event_id path gate_round wait_id st =
     (if list_ex (\<lambda>c. cp_id c = event_id) (cs_rows st) then (Inr event_id, st)
      else
        let metadata = [(''event_id'', PStr event_id), (''path'', PStr path), (''round'', PInt gate_round)] @
              (case wait_id of None \<Rightarrow> [] | Some w \<Rightarrow> [(''wait_id'', PStr w)]);
            checkpoint = (stamp env ((row (if wait_id = None then ''gate_parked'' else ''step_parked'') ''waiting'')
              \<lparr>cp_node_name := Some path, cp_metadata := metadata\<rparr>) st)\<lparr>cp_id := event_id\<rparr>;
            st' = st\<lparr>cs_sequence := cs_sequence st + 1\<rparr>
        in if ce_accepts env checkpoint then (Inr event_id, st'\<lparr>cs_rows := cs_rows st @ [checkpoint]\<rparr>)
           else (raise OtherException ''the row was not written'', st'))"

definition save_gate_parked :: "cp_env \<Rightarrow> string \<Rightarrow> string \<Rightarrow> int \<Rightarrow> cp_state \<Rightarrow> string res \<times> cp_state" where
  "save_gate_parked env event_id path gate_round = save_wait_parked env event_id path gate_round None"

section \<open>Loading a history\<close>

text \<open>
  \<open>_load_parent_chain\<close> recurses along parent pointers; \<open>None\<close> when the fuel runs out before the
  chain ends. \<open>load_full_history\<close> gives it one unit per row, which is enough where parents are
  earlier rows.
\<close>

fun load_parent_chain :: "nat \<Rightarrow> checkpoint list \<Rightarrow> string \<Rightarrow> checkpoint list option" where
  "load_parent_chain 0 rows parent_id = None"
| "load_parent_chain (Suc fuel) rows parent_id =
     (case find (\<lambda>c. cp_id c = parent_id) rows of
        None \<Rightarrow> Some []
      | Some parent \<Rightarrow>
          (let parent_checkpoints = load_checkpoints rows (cp_execution_id parent) (Some (cp_sequence parent))
           in case parent_checkpoints of
                [] \<Rightarrow> Some []
              | first # _ \<Rightarrow>
                  (case cp_parent_id first of
                     None \<Rightarrow> Some parent_checkpoints
                   | Some gp \<Rightarrow>
                       if gp = [] then Some parent_checkpoints
                       else map_option (\<lambda>h. h @ parent_checkpoints) (load_parent_chain fuel rows gp))))"

definition load_full_history :: "checkpoint list \<Rightarrow> string \<Rightarrow> int option \<Rightarrow> checkpoint list option" where
  "load_full_history rows execution_id up_to =
     (case load_checkpoints rows execution_id up_to of
        [] \<Rightarrow> Some []
      | first # rest \<Rightarrow>
          (case cp_parent_id first of
             None \<Rightarrow> Some (first # rest)
           | Some p \<Rightarrow> if p = [] then Some (first # rest)
                       else map_option (\<lambda>h. h @ first # rest) (load_parent_chain (length rows) rows p)))"

section \<open>Replay\<close>

definition checkpoint_to_node_result :: "checkpoint \<Rightarrow> node_result res" where
  "checkpoint_to_node_result c =
     bind_res (status_of (cp_status c)) (\<lambda>st.
       Inr (NodeResult st (case cp_output c of None \<Rightarrow> [] | Some t \<Rightarrow> t) (cp_structured_output c) [] []
         (cp_cost_usd c) (cp_total_tokens c) (cp_duration_seconds c) (cp_error c) []))"

text \<open>The strings of a JSON list, as the service writes it.\<close>

definition str_list :: "pyval \<Rightarrow> string list" where
  "str_list v = (case v of PList xs \<Rightarrow> concat (map (\<lambda>x. case x of PStr s \<Rightarrow> [s] | _ \<Rightarrow> []) xs) | _ \<Rightarrow> [])"

definition meta_strs :: "checkpoint \<Rightarrow> string \<Rightarrow> string list" where
  "meta_strs c k = str_list (dget_or (cp_metadata c) k (PList []))"

text \<open>Drop a path and everything under it.\<close>

definition drop_under :: "string \<Rightarrow> 'a dict \<Rightarrow> 'a dict" where
  "drop_under name d = filter (\<lambda>p. \<not> startswith (name @ ''.'') (fst p)) d"

definition clear_path :: "string \<Rightarrow> 'a dict \<Rightarrow> 'a dict" where
  "clear_path name d = drop_under name (ddel name d)"

text \<open>\<open>cp.event_type == et and cp.node_name\<close>\<close>

definition is_row :: "string \<Rightarrow> checkpoint \<Rightarrow> bool" where
  "is_row et c = (cp_event_type c = et \<and> (case cp_node_name c of None \<Rightarrow> False | Some n \<Rightarrow> n \<noteq> []))"

definition tombstone :: "string \<Rightarrow> node_result" where
  "tombstone dispatcher = error_result SKIPPED (''removed by dispatch from '' @ quoted dispatcher)"

definition replay_step :: "node_result dict \<Rightarrow> checkpoint \<Rightarrow> node_result dict res" where
  "replay_step outs c =
     (let name = (case cp_node_name c of None \<Rightarrow> [] | Some n \<Rightarrow> n)
      in if is_row ''node_completed'' c \<and> cp_status c = ''completed''
           then bind_res (checkpoint_to_node_result c) (\<lambda>r. Inr (dset name r outs))
         else if is_row ''node_completed'' c \<and> cp_status c = ''failed'' then Inr (ddel name outs)
         else if is_row ''node_reset'' c then Inr (ddel name outs)
         else if cp_event_type c = ''loop_rewind'' then Inr (fold clear_path (meta_strs c ''cleared_nodes'') outs)
         else if cp_event_type c = ''dispatch_applied''
           then Inr (fold (\<lambda>n d. if dhas n d then d
                  else dset n (tombstone (case cp_node_name c of None \<Rightarrow> ''None'' | Some m \<Rightarrow> m)) d)
                (meta_strs c ''removed_targets'') outs)
         else Inr outs)"

definition replay :: "checkpoint list \<Rightarrow> node_result dict res" where
  "replay history = fold_res replay_step [] history"

definition reconstruct :: "checkpoint list \<Rightarrow> string \<Rightarrow> int option \<Rightarrow> node_result dict res option" where
  "reconstruct rows execution_id up_to = map_option replay (load_full_history rows execution_id up_to)"

text \<open>\<open>_replay_resume\<close>\<close>

record loop_entry =
  le_count :: nat
  le_target :: string
  le_feedback :: node_result

record dispatch_entry =
  de_dispatcher :: string
  de_graph_path :: "string option"
  de_added_nodes :: "pyval dict list"
  de_removed_targets :: "string list"
  de_depth :: int
  de_fingerprint :: "string \<times> string"
  de_delta :: int

record resume_info =
  ri_loops :: "loop_entry dict"
  ri_last_failed :: "bool dict"
  ri_skipped :: "string list"
  ri_dispatches :: "dispatch_entry list"
  ri_undone :: "string list dict"

definition empty_resume :: resume_info where
  "empty_resume = \<lparr>ri_loops = [], ri_last_failed = [], ri_skipped = [], ri_dispatches = [], ri_undone = []\<rparr>"

text \<open>\<open>int(meta.get(k, 0))\<close> for the numbers the service writes.\<close>

definition meta_int :: "pyval dict \<Rightarrow> string \<Rightarrow> int" where
  "meta_int meta k = (case dget_or meta k (PInt 0) of PInt i \<Rightarrow> i | PBool b \<Rightarrow> (if b then 1 else 0) | _ \<Rightarrow> 0)"

definition dict_list :: "pyval \<Rightarrow> pyval dict list" where
  "dict_list v = (case v of PList xs \<Rightarrow> concat (map (\<lambda>x. case x of PDict d \<Rightarrow> [d] | _ \<Rightarrow> []) xs) | _ \<Rightarrow> [])"

definition dispatch_of :: "checkpoint \<Rightarrow> dispatch_entry" where
  "dispatch_of c =
     (let meta = cp_metadata c;
          fp = (case dget_or meta ''dispatcher_fingerprint'' PNone of
                  PList (a # b # _) \<Rightarrow> (py_str a, py_str b) | _ \<Rightarrow> ([], []))
      in \<lparr>de_dispatcher = (case cp_node_name c of None \<Rightarrow> [] | Some n \<Rightarrow> n),
          de_graph_path = (case dget_or meta ''graph_path'' PNone of PStr g \<Rightarrow> Some g | _ \<Rightarrow> None),
          de_added_nodes = dict_list (dget_or meta ''added_nodes'' (PList [])),
          de_removed_targets = meta_strs c ''removed_targets'',
          de_depth = meta_int meta ''dispatcher_depth'', de_fingerprint = fp,
          de_delta = meta_int meta ''dispatched_count_delta''\<rparr>)"

definition at_or_under :: "string \<Rightarrow> string \<Rightarrow> bool" where
  "at_or_under name path = (path = name \<or> startswith (name @ ''.'') path)"

text \<open>What a rewind does for one cleared name.\<close>

definition resume_clear :: "string \<Rightarrow> resume_info \<Rightarrow> resume_info" where
  "resume_clear name ri = ri\<lparr>
     ri_last_failed := drop_under name (ddel name (ri_last_failed ri)),
     ri_skipped := filter (\<lambda>k. \<not> at_or_under name k) (ri_skipped ri),
     ri_loops := drop_under name (ri_loops ri),
     ri_dispatches := filter (\<lambda>d. \<not> at_or_under name (de_dispatcher d)) (ri_dispatches ri)\<rparr>"

definition text_or :: "pyval \<Rightarrow> string \<Rightarrow> string" where
  "text_or v s = (case v of PStr t \<Rightarrow> if t = [] then s else t | _ \<Rightarrow> s)"

definition resume_rewind :: "checkpoint \<Rightarrow> resume_info \<Rightarrow> resume_info res" where
  "resume_rewind c ri0 =
     (let meta = cp_metadata c;
          ri = fold resume_clear (meta_strs c ''cleared_nodes'') ri0;
          trigger = text_or (dget_or meta ''trigger_node'' PNone) (case cp_node_name c of None \<Rightarrow> [] | Some n \<Rightarrow> n)
      in if trigger = [] then Inr ri
         else let st = text_or (dget_or meta ''trigger_status'' PNone)
                    (if (case cp_error c of None \<Rightarrow> False | Some e \<Rightarrow> e \<noteq> []) then ''failed'' else ''completed'')
              in bind_res (status_of st) (\<lambda>s.
                   let count = (case dget (ri_loops ri) trigger of None \<Rightarrow> 0 | Some e \<Rightarrow> le_count e)
                   in Inr (ri\<lparr>ri_loops := dset trigger
                        \<lparr>le_count = count + 1, le_target = text_or (dget_or meta ''target_node'' PNone) [],
                         le_feedback = NodeResult s (case cp_output c of None \<Rightarrow> [] | Some t \<Rightarrow> t)
                           (cp_structured_output c) [] [] 0 0 0 (cp_error c) []\<rparr> (ri_loops ri)\<rparr>)))"

definition resume_step :: "resume_info \<Rightarrow> checkpoint \<Rightarrow> resume_info res" where
  "resume_step ri c =
     (let name = (case cp_node_name c of None \<Rightarrow> [] | Some n \<Rightarrow> n)
      in if is_row ''dispatch_applied'' c then Inr (ri\<lparr>ri_dispatches := ri_dispatches ri @ [dispatch_of c]\<rparr>)
         else if is_row ''cleanup_ran'' c then Inr (ri\<lparr>ri_undone := dset name (meta_strs c ''undoes'') (ri_undone ri)\<rparr>)
         else if is_row ''node_completed'' c
           then let bad = (cp_status c = ''failed'' \<or> cp_status c = ''skipped'' \<and>
                       has_sub ''failed'' (case cp_error c of None \<Rightarrow> [] | Some e \<Rightarrow> e))
                in Inr (ri\<lparr>ri_last_failed := dset name bad (ri_last_failed ri),
                     ri_skipped := (if cp_status c = ''skipped'' \<and> \<not> bad then List.insert name (ri_skipped ri)
                                    else removeAll name (ri_skipped ri))\<rparr>)
         else if cp_event_type c = ''loop_rewind'' then resume_rewind c ri
         else Inr ri)"

definition replay_resume :: "checkpoint list \<Rightarrow> resume_info res" where
  "replay_resume history = fold_res resume_step empty_resume history"

text \<open>The two sorted lists of the answer.\<close>

definition resume_failed :: "resume_info \<Rightarrow> string list" where
  "resume_failed ri = sort (map fst (filter snd (ri_last_failed ri)))"

definition resume_skipped :: "resume_info \<Rightarrow> string list" where
  "resume_skipped ri = sort (ri_skipped ri)"

definition resume_state :: "checkpoint list \<Rightarrow> string \<Rightarrow> int option \<Rightarrow> resume_info res option" where
  "resume_state rows execution_id up_to = map_option replay_resume (load_full_history rows execution_id up_to)"

definition reconstruct_dispatch_history :: "checkpoint list \<Rightarrow> string \<Rightarrow> int option \<Rightarrow> dispatch_entry list option" where
  "reconstruct_dispatch_history rows execution_id up_to =
     map_option (\<lambda>h. map dispatch_of (filter (\<lambda>c. cp_event_type c = ''dispatch_applied'') h))
       (load_full_history rows execution_id up_to)"

section \<open>Forks and queries\<close>

definition fork :: "cp_env \<Rightarrow> checkpoint list \<Rightarrow> string \<Rightarrow> int \<Rightarrow> string \<Rightarrow> cp_state res" where
  "fork env rows source_execution_id seq new_execution_id =
     (case find (\<lambda>c. cp_execution_id c = source_execution_id \<and> cp_sequence c = seq) rows of
        None \<Rightarrow> raise ValueError (''No checkpoint at sequence '' @ int_str seq @ '' for execution '' @ quoted source_execution_id)
      | Some fork_point \<Rightarrow>
          Inr (save env ((row ''workflow_forked'' ''running'')\<lparr>cp_parent_id := Some (cp_id fork_point),
                 cp_metadata := [(''source_execution_id'', PStr source_execution_id), (''fork_sequence'', PInt seq)]\<rparr>)
               (open_service True rows new_execution_id)))"

definition get_latest_sequence :: "cp_state \<Rightarrow> int" where
  "get_latest_sequence st = cs_sequence st - 1"

definition get_history :: "(rat \<Rightarrow> string) \<Rightarrow> cp_state \<Rightarrow> pyval dict list" where
  "get_history isoformat st =
     map (\<lambda>c. [(''id'', PStr (cp_id c)), (''sequence'', PInt (cp_sequence c)), (''event_type'', PStr (cp_event_type c)),
         (''node_name'', opt_str (cp_node_name c)), (''agent_name'', opt_str (cp_agent_name c)),
         (''status'', PStr (cp_status c)), (''cost_usd'', PFloat (cp_cost_usd c)),
         (''total_tokens'', PInt (cp_total_tokens c)), (''duration_seconds'', PFloat (cp_duration_seconds c)),
         (''error'', opt_str (cp_error c)), (''metadata'', PDict (cp_metadata c)),
         (''timestamp'', PStr (isoformat (cp_timestamp c)))])
       (load_checkpoints (cs_rows st) (cs_execution_id st) None)"

section \<open>The table's invariant\<close>

text \<open>
  Rows of one execution are in the order of their sequence numbers, and a parent pointer leads to an
  earlier row.
\<close>

definition rows_ok :: "checkpoint list \<Rightarrow> bool" where
  "rows_ok rows \<longleftrightarrow>
     sorted_wrt (\<lambda>c d. cp_execution_id c = cp_execution_id d \<longrightarrow> cp_sequence c < cp_sequence d) rows \<and>
     (\<forall>i < length rows. \<forall>p. cp_parent_id (rows ! i) = Some p \<longrightarrow> (\<exists>j < i. cp_id (rows ! j) = p))"

definition st_ok :: "cp_state \<Rightarrow> bool" where
  "st_ok st \<longleftrightarrow> rows_ok (cs_rows st) \<and>
     (\<forall>c \<in> set (cs_rows st). cp_execution_id c = cs_execution_id st \<longrightarrow> cp_sequence c < cs_sequence st)"

lemma load_checkpoints_ok:
  assumes "rows_ok rows"
  shows "load_checkpoints rows e up = filter (\<lambda>c. cp_execution_id c = e \<and>
           (case up of None \<Rightarrow> True | Some s \<Rightarrow> cp_sequence c \<le> s)) rows"
proof -
  let ?f = "filter (\<lambda>c. cp_execution_id c = e \<and> (case up of None \<Rightarrow> True | Some s \<Rightarrow> cp_sequence c \<le> s)) rows"
  have "sorted_wrt (\<lambda>c d. cp_execution_id c = cp_execution_id d \<longrightarrow> cp_sequence c < cp_sequence d) ?f"
    using assms by (simp add: rows_ok_def sorted_wrt_filter)
  then have "sorted_wrt (\<lambda>c d. cp_sequence c \<le> cp_sequence d) ?f"
    by (rule sorted_wrt_mono_rel [rotated]) auto
  then have "sorted (map cp_sequence ?f)" by (simp add: sorted_map)
  then show ?thesis by (simp add: load_checkpoints_def sort_key_id_if_sorted)
qed

lemma rows_ok_snoc:
  "rows_ok (rows @ [c]) \<longleftrightarrow> rows_ok rows \<and>
     (\<forall>d \<in> set rows. cp_execution_id d = cp_execution_id c \<longrightarrow> cp_sequence d < cp_sequence c) \<and>
     (\<forall>p. cp_parent_id c = Some p \<longrightarrow> p \<in> cp_id ` set rows)"
proof -
  have "(\<forall>i < length (rows @ [c]). \<forall>p. cp_parent_id ((rows @ [c]) ! i) = Some p \<longrightarrow> (\<exists>j < i. cp_id ((rows @ [c]) ! j) = p)) \<longleftrightarrow>
      (\<forall>i < length rows. \<forall>p. cp_parent_id (rows ! i) = Some p \<longrightarrow> (\<exists>j < i. cp_id (rows ! j) = p)) \<and>
      (\<forall>p. cp_parent_id c = Some p \<longrightarrow> (\<exists>j < length rows. cp_id (rows ! j) = p))"
  proof -
    have *: "(\<exists>j < i. cp_id ((rows @ [c]) ! j) = p) \<longleftrightarrow> (\<exists>j < i. cp_id (rows ! j) = p)" if "i \<le> length rows" for i p
      using that by (metis nth_append order_less_le_trans)
    show ?thesis
      by (simp add: All_less_Suc conj_commute) (simp add: nth_append * cong: conj_cong)
  qed
  moreover have "p \<in> cp_id ` set rows \<longleftrightarrow> (\<exists>j < length rows. cp_id (rows ! j) = p)" for p
    unfolding image_iff Bex_def in_set_conv_nth by auto
  ultimately show ?thesis by (auto simp: rows_ok_def sorted_wrt_append)
qed

lemma stamp_sels [simp]:
  "cp_parent_id (stamp env c st) = cp_parent_id c" "cp_execution_id (stamp env c st) = cs_execution_id st"
  "cp_sequence (stamp env c st) = cs_sequence st" "cp_event_type (stamp env c st) = cp_event_type c"
  "cp_node_name (stamp env c st) = cp_node_name c" "cp_status (stamp env c st) = cp_status c"
  "cp_output (stamp env c st) = cp_output c" "cp_structured_output (stamp env c st) = cp_structured_output c"
  "cp_cost_usd (stamp env c st) = cp_cost_usd c" "cp_total_tokens (stamp env c st) = cp_total_tokens c"
  "cp_duration_seconds (stamp env c st) = cp_duration_seconds c" "cp_error (stamp env c st) = cp_error c"
  "cp_metadata (stamp env c st) = cp_metadata c" "cp_id (stamp env c st) = ce_uuid env (length (cs_rows st))"
  by (simp_all add: stamp_def)

lemma save_sels [simp]:
  "cs_execution_id (save env c st) = cs_execution_id st" "cs_sequence (save env c st) = cs_sequence st + 1"
  by (simp_all add: save_def Let_def)

lemma save_ok:
  assumes "st_ok st" and "\<forall>p. cp_parent_id c = Some p \<longrightarrow> p \<in> cp_id ` set (cs_rows st)"
  shows "st_ok (save env c st)"
  using assms by (auto simp: st_ok_def save_def Let_def rows_ok_snoc)

lemma row_sels [simp]:
  "cp_parent_id (row et s) = None" "cp_event_type (row et s) = et" "cp_status (row et s) = s"
  "cp_node_name (row et s) = None" "cp_metadata (row et s) = []" "cp_error (row et s) = None"
  "cp_output (row et s) = None" "cp_structured_output (row et s) = None"
  by (simp_all add: row_def)

lemma open_service_ok:
  assumes "rows_ok rows"
  shows "st_ok (open_service True rows e)"
proof -
  let ?own = "load_checkpoints rows e None"
  have "cp_sequence c < load_max_sequence True rows e" if c: "c \<in> set rows" "cp_execution_id c = e" for c
  proof -
    have mem: "c \<in> set ?own" using c by (simp add: load_checkpoints_def)
    have "sorted (map cp_sequence ?own)" by (simp add: load_checkpoints_def)
    then have "cp_sequence c \<le> cp_sequence (last ?own)" if "?own \<noteq> []"
      using mem that by (cases ?own rule: rev_cases) (auto simp: sorted_append)
    moreover have "?own \<noteq> []" using mem by auto
    moreover from this have "load_max_sequence True rows e = cp_sequence (last ?own) + 1"
      by (cases ?own rule: rev_cases) (auto simp: load_max_sequence_def)
    ultimately show ?thesis by simp
  qed
  with assms show ?thesis by (simp add: st_ok_def open_service_def)
qed

section \<open>Operations and their meaning\<close>

text \<open>The writes of a run, as data.\<close>

datatype cp_op =
    OpCompleted string node_result
  | OpAgent string string agent_result
  | OpDispatched string "pyval dict list" "string list" int "string \<times> string" int string
  | OpHeld string "string list"
  | OpRan string "string list"
  | OpReset string
  | OpRewind string string "string list" "node_result option"

fun run_op :: "cp_env \<Rightarrow> cp_op \<Rightarrow> cp_state \<Rightarrow> cp_state" where
  "run_op env (OpCompleted p r) = save_node_completed env p r"
| "run_op env (OpAgent p a r) = save_agent_completed env p a r"
| "run_op env (OpDispatched p added removed depth fp delta graph) =
     save_dispatch_applied env p added removed depth fp delta graph"
| "run_op env (OpHeld p us) = save_cleanup_held env p us"
| "run_op env (OpRan p us) = save_cleanup_ran env p us"
| "run_op env (OpReset p) = save_node_reset env p"
| "run_op env (OpRewind trig target cleared r) = save_loop_rewind env trig target cleared r"

lemmas save_defs = save_node_completed_def save_agent_completed_def save_dispatch_applied_def
  save_cleanup_held_def save_cleanup_ran_def save_node_reset_def save_loop_rewind_def

text \<open>Every one of them is one row without a parent.\<close>

lemma run_op_save: "\<exists>c. cp_parent_id c = None \<and> (\<forall>st. run_op env op st = save env c st)"
  by (cases op) (auto simp: save_defs intro!: exI)

lemma run_op_ok: "st_ok st \<Longrightarrow> st_ok (run_op env op st)"
  using run_op_save [of env op] save_ok by fastforce

lemma run_ops_ok: "st_ok st \<Longrightarrow> st_ok (fold (run_op env) ops st)"
  by (induction ops arbitrary: st) (auto intro: run_op_ok)

text \<open>The tables a system can have: services open, write and close, and runs are forked.\<close>

inductive reachable_table :: "cp_env \<Rightarrow> checkpoint list \<Rightarrow> bool" for env where
  empty: "reachable_table env []"
| service: "reachable_table env rows \<Longrightarrow> reachable_table env (cs_rows (fold (run_op env) ops (open_service True rows e)))"
| parked: "reachable_table env rows \<Longrightarrow> save_wait_parked env ev p r w (open_service True rows e) = (x, st) \<Longrightarrow>
     reachable_table env (cs_rows st)"
| forked: "reachable_table env rows \<Longrightarrow> fork env rows src q e = Inr st \<Longrightarrow> reachable_table env (cs_rows st)"

lemma fork_InrD:
  assumes "fork env rows src q e = Inr st"
  obtains fp c where "find (\<lambda>c. cp_execution_id c = src \<and> cp_sequence c = q) rows = Some fp"
    "fp \<in> set rows" "cp_execution_id fp = src" "cp_sequence fp = q"
    "st = save env c (open_service True rows e)" "cp_parent_id c = Some (cp_id fp)"
    "cp_event_type c = ''workflow_forked''"
proof (cases "find (\<lambda>c. cp_execution_id c = src \<and> cp_sequence c = q) rows")
  case (Some fp)
  then have "fp \<in> set rows" "cp_execution_id fp = src" "cp_sequence fp = q"
    by (auto simp: find_Some_iff)
  then show ?thesis using that [OF Some] assms Some by (auto simp: fork_def)
qed (use assms in \<open>simp add: fork_def\<close>)

lemma save_wait_parked_ok:
  "st_ok st \<Longrightarrow> save_wait_parked env ev p r w st = (x, st') \<Longrightarrow> st_ok st'"
  by (auto simp: save_wait_parked_def Let_def st_ok_def rows_ok_snoc split: if_splits)

lemma reachable_rows_ok: "reachable_table env rows \<Longrightarrow> rows_ok rows"
proof (induction rule: reachable_table.induct)
  case empty
  then show ?case by (simp add: rows_ok_def)
next
  case (service rows ops e)
  then show ?case using run_ops_ok [OF open_service_ok] by (simp add: st_ok_def)
next
  case (parked rows ev p r w e x st)
  then show ?case using save_wait_parked_ok [OF open_service_ok] by (simp add: st_ok_def)
next
  case (forked rows src q e st)
  then obtain fp c where "fp \<in> set rows" "st = save env c (open_service True rows e)" "cp_parent_id c = Some (cp_id fp)"
    by (elim fork_InrD)
  then have "st_ok st" using save_ok [OF open_service_ok [OF forked.IH]] by (simp add: open_service_def)
  then show ?case by (simp add: st_ok_def)
qed

section \<open>Parent chains end\<close>

lemma rows_ok_order:
  assumes "rows_ok rows" and "i < length rows" and "j < length rows"
    and "cp_execution_id (rows ! i) = cp_execution_id (rows ! j)" and "cp_sequence (rows ! i) \<le> cp_sequence (rows ! j)"
  shows "i \<le> j"
proof (rule ccontr)
  assume "\<not> i \<le> j"
  then have "cp_sequence (rows ! j) < cp_sequence (rows ! i)"
    using assms unfolding rows_ok_def sorted_wrt_iff_nth_less by (metis not_le)
  with assms(5) show False by simp
qed

lemma rows_ok_parent:
  "rows_ok rows \<Longrightarrow> i < length rows \<Longrightarrow> cp_parent_id (rows ! i) = Some p \<Longrightarrow> \<exists>j < i. cp_id (rows ! j) = p"
  by (simp add: rows_ok_def)

lemma chain_ends:
  assumes "rows_ok rows" and "i < length rows" and "cp_id (rows ! i) = p" and "i < n"
  shows "\<exists>h. load_parent_chain n rows p = Some h"
  using assms(2-4)
proof (induction n arbitrary: i p)
  case (Suc n)
  show ?case
  proof (cases "find (\<lambda>c. cp_id c = p) rows")
    case (Some parent)
    then obtain k where k: "k < length rows" "parent = rows ! k" "\<forall>j < k. cp_id (rows ! j) \<noteq> p"
      by (auto simp: find_Some_iff)
    have ki: "k \<le> i" using k(3) Suc.prems by (metis not_le)
    let ?pcs = "load_checkpoints rows (cp_execution_id parent) (Some (cp_sequence parent))"
    show ?thesis
    proof (cases ?pcs)
      case Nil
      then show ?thesis using Some by (simp add: Let_def)
    next
      case (Cons first rest)
      then have "first \<in> set ?pcs" by simp
      then obtain m where m: "m < length rows" "first = rows ! m" "cp_execution_id first = cp_execution_id parent"
          "cp_sequence first \<le> cp_sequence parent"
        unfolding load_checkpoints_ok [OF assms(1)] by (auto simp: in_set_conv_nth)
      then have mk: "m \<le> k" using rows_ok_order [OF assms(1)] k by simp
      show ?thesis
      proof (cases "cp_parent_id first")
        case None
        then show ?thesis using Some Cons by (simp add: Let_def)
      next
        case gp: (Some g)
        obtain j where j: "j < m" "cp_id (rows ! j) = g"
          using rows_ok_parent [OF assms(1) m(1)] gp m(2) by blast
        then obtain h where "load_parent_chain n rows g = Some h"
          using Suc.IH [of j g] Suc.prems mk ki m(1) by auto
        then show ?thesis using Some Cons gp by (simp add: Let_def)
      qed
    qed
  qed simp
qed simp

lemma full_history_ends:
  assumes "rows_ok rows"
  shows "\<exists>h. load_full_history rows e up = Some h"
proof (cases "load_checkpoints rows e up")
  case (Cons first rest)
  then have "first \<in> set (load_checkpoints rows e up)" by simp
  then obtain m where m: "m < length rows" "first = rows ! m"
    unfolding load_checkpoints_ok [OF assms] by (auto simp: in_set_conv_nth)
  show ?thesis
  proof (cases "cp_parent_id first")
    case (Some p)
    then obtain j where "j < m" "cp_id (rows ! j) = p" using rows_ok_parent [OF assms m(1)] m(2) by blast
    then obtain h where "load_parent_chain (length rows) rows p = Some h"
      using chain_ends [OF assms, of j p "length rows"] m(1) by auto
    then show ?thesis using Cons Some by (simp add: load_full_history_def)
  qed (use Cons in \<open>simp add: load_full_history_def\<close>)
qed (simp add: load_full_history_def)

section \<open>The log as a map from paths to results\<close>

text \<open>What a row keeps of a result.\<close>

definition stored :: "node_result \<Rightarrow> node_result" where
  "stored r = NodeResult (nr_status r) (nr_output r) (nr_structured_output r) [] [] (nr_cost_usd r)
     (nr_total_tokens r) (nr_duration_seconds r) (nr_error r) []"

text \<open>The specification: what each write does to the finished results.\<close>

fun spec_op :: "cp_op \<Rightarrow> (string \<Rightarrow> node_result option) \<Rightarrow> string \<Rightarrow> node_result option" where
  "spec_op (OpCompleted p r) m =
     (if p = [] then m
      else if nr_status r = COMPLETED then m(p \<mapsto> stored r)
      else if nr_status r = FAILED then m(p := None) else m)"
| "spec_op (OpReset p) m = (if p = [] then m else m(p := None))"
| "spec_op (OpRewind trig target cleared r) m = (\<lambda>q. if \<exists>n \<in> set cleared. at_or_under n q then None else m q)"
| "spec_op (OpDispatched p added removed depth fp delta graph) m =
     (\<lambda>q. if q \<in> set removed \<and> m q = None then Some (tombstone p) else m q)"
| "spec_op _ m = m"

text \<open>The row an operation writes.\<close>

fun op_row :: "cp_op \<Rightarrow> checkpoint" where
  "op_row (OpCompleted p r) = (row ''node_completed'' (status_value (nr_status r)))\<lparr>cp_node_name := Some p,
       cp_output := Some (nr_output r), cp_structured_output := nr_structured_output r,
       cp_cost_usd := nr_cost_usd r, cp_total_tokens := nr_total_tokens r,
       cp_duration_seconds := nr_duration_seconds r, cp_error := nr_error r\<rparr>"
| "op_row (OpAgent p a r) = (row ''agent_completed'' (status_value (ar_status r)))\<lparr>cp_node_name := Some p,
       cp_agent_name := Some a, cp_output := Some (ar_output r),
       cp_structured_output := ar_structured_output r, cp_cost_usd := ar_cost_usd r,
       cp_total_tokens := total_tokens (ar_tokens r), cp_duration_seconds := ar_duration_seconds r,
       cp_error := ar_error r\<rparr>"
| "op_row (OpDispatched p added removed depth fp delta graph) =
     (row ''dispatch_applied'' ''applied'')\<lparr>cp_node_name := Some p,
       cp_metadata := [(''added_nodes'', PList (map PDict added)), (''removed_targets'', str_vals removed),
         (''dispatcher_depth'', PInt depth), (''dispatcher_fingerprint'', str_vals [fst fp, snd fp]),
         (''dispatched_count_delta'', PInt delta), (''graph_path'', PStr graph)]\<rparr>"
| "op_row (OpHeld p us) = (row ''cleanup_held'' ''held'')\<lparr>cp_node_name := Some p, cp_metadata := [(''undoes'', str_vals us)]\<rparr>"
| "op_row (OpRan p us) = (row ''cleanup_ran'' ''ran'')\<lparr>cp_node_name := Some p, cp_metadata := [(''undoes'', str_vals us)]\<rparr>"
| "op_row (OpReset p) = (row ''node_reset'' ''reset'')\<lparr>cp_node_name := Some p\<rparr>"
| "op_row (OpRewind trig target cleared tr) = (row ''loop_rewind'' ''rewind'')\<lparr>cp_node_name := Some trig,
       cp_output := map_option nr_output tr, cp_structured_output := Option.bind tr nr_structured_output,
       cp_error := Option.bind tr nr_error,
       cp_metadata := [(''trigger_node'', PStr trig), (''target_node'', PStr target), (''cleared_nodes'', str_vals cleared)] @
          (case tr of None \<Rightarrow> [] | Some r \<Rightarrow> [(''trigger_status'', PStr (status_value (nr_status r)))])\<rparr>"

lemma run_op_row: "run_op env op = save env (op_row op)"
  by (cases op) (simp_all add: save_defs fun_eq_iff)

lemma op_row_parent [simp]: "cp_parent_id (op_row op) = None"
  by (cases op) simp_all

lemma str_list_vals [simp]: "str_list (str_vals xs) = xs"
  by (induction xs) (simp_all add: str_list_def str_vals_def)

lemma dget_clear_path: "dget (clear_path n d) q = (if at_or_under n q then None else dget d q)"
  unfolding clear_path_def drop_under_def at_or_under_def
  using dget_filter [of "\<lambda>k. \<not> startswith (n @ ''.'') k" "ddel n d" q] by auto

lemma dget_clear_paths:
  "dget (fold clear_path ns d) q = (if \<exists>n \<in> set ns. at_or_under n q then None else dget d q)"
  by (induction ns arbitrary: d) (auto simp: dget_clear_path)

lemma dget_tombstones:
  "dget (fold (\<lambda>n d. if dhas n d then d else dset n t d) ns d) q =
     (if q \<in> set ns \<and> dget d q = None then Some t else dget d q)"
  by (induction ns arbitrary: d) (auto simp: dhas_def)

text \<open>One row of the log does to the replayed results what the specification says.\<close>

lemma replay_step_spec:
  "\<exists>d'. replay_step d (stamp env (op_row op) st) = Inr d' \<and> dget d' = spec_op op (dget d)"
proof (cases op)
  case (OpCompleted p r)
  then show ?thesis
    by (cases "nr_status r")
      (auto simp: replay_step_def is_row_def checkpoint_to_node_result_def status_of_def stored_def fun_eq_iff)
next
  case (OpRewind trig target cleared tr)
  then show ?thesis
    by (auto simp: replay_step_def is_row_def meta_strs_def dget_or_def dget_clear_paths fun_eq_iff)
next
  case (OpDispatched p added removed depth fp delta graph)
  then show ?thesis
    by (auto simp: replay_step_def is_row_def meta_strs_def dget_or_def dget_tombstones fun_eq_iff)
qed (auto simp: replay_step_def is_row_def fun_eq_iff)

lemma fold_res_snoc: "fold_res f s (xs @ [x]) = bind_res (fold_res f s xs) (\<lambda>t. f t x)"
  by (induction xs arbitrary: s) (auto split: sum.splits)

section \<open>The contract of a result log\<close>

text \<open>
  A log of writes that can be looked up: each write changes what is found as its meaning says. The
  meaning of a sequence of writes then is the composition of their meanings.
\<close>

locale result_log =
  fixes enter :: "'op \<Rightarrow> 's \<Rightarrow> 's"
    and look :: "'s \<Rightarrow> string \<Rightarrow> 'r option"
    and meaning :: "'op \<Rightarrow> (string \<Rightarrow> 'r option) \<Rightarrow> string \<Rightarrow> 'r option"
    and good :: "'s \<Rightarrow> bool"
  assumes write_good: "good s \<Longrightarrow> good (enter op s)"
    and look_write: "good s \<Longrightarrow> look (enter op s) = meaning op (look s)"
begin

lemma writes_good: "good s \<Longrightarrow> good (fold enter ops s)"
  by (induction ops arbitrary: s) (auto intro: write_good)

lemma look_writes: "good s \<Longrightarrow> look (fold enter ops s) = fold meaning ops (look s)"
proof (induction ops arbitrary: s)
  case (Cons op ops)
  from Cons.IH [OF write_good [OF Cons.prems]] show ?case by (simp add: look_write [OF Cons.prems])
qed simp

end

text \<open>The service on its own rows: no parent, and a database that takes every row.\<close>

definition accepting :: "cp_env \<Rightarrow> cp_env" where
  "accepting env = env\<lparr>ce_accepts := \<lambda>_. True\<rparr>"

definition own_rows :: "cp_state \<Rightarrow> checkpoint list" where
  "own_rows st = load_checkpoints (cs_rows st) (cs_execution_id st) None"

definition finished :: "cp_state \<Rightarrow> string \<Rightarrow> node_result option" where
  "finished st = (case replay (own_rows st) of Inl _ \<Rightarrow> (\<lambda>_. None) | Inr d \<Rightarrow> dget d)"

definition log_ok :: "cp_state \<Rightarrow> bool" where
  "log_ok st \<longleftrightarrow> st_ok st \<and> (\<exists>d. replay (own_rows st) = Inr d) \<and> (\<forall>c \<in> set (own_rows st). cp_parent_id c = None)"

lemma own_rows_save:
  assumes "st_ok st" and "\<forall>p. cp_parent_id c = Some p \<longrightarrow> p \<in> cp_id ` set (cs_rows st)"
  shows "own_rows (save (accepting env) c st) = own_rows st @ [stamp (accepting env) c st]"
proof -
  have ok: "rows_ok (cs_rows st)" "rows_ok (cs_rows (save (accepting env) c st))"
    using assms save_ok [OF assms, of "accepting env"] by (auto simp: st_ok_def)
  show ?thesis
    unfolding own_rows_def load_checkpoints_ok [OF ok(1)] load_checkpoints_ok [OF ok(2)]
    by (simp add: save_def Let_def accepting_def)
qed

lemma replay_write:
  assumes "log_ok st"
  shows "\<exists>d d'. replay (own_rows st) = Inr d \<and> replay (own_rows (run_op (accepting env) op st)) = Inr d' \<and>
    dget d' = spec_op op (dget d)"
proof -
  obtain d where d: "replay (own_rows st) = Inr d" using assms by (auto simp: log_ok_def)
  obtain d' where "replay_step d (stamp (accepting env) (op_row op) st) = Inr d'" "dget d' = spec_op op (dget d)"
    using replay_step_spec by blast
  then show ?thesis
    using d assms own_rows_save [of st "op_row op" env]
    by (auto simp: run_op_row replay_def fold_res_snoc log_ok_def)
qed

interpretation cplog: result_log "run_op (accepting env)" finished spec_op log_ok for env
proof
  fix s op
  assume ok: "log_ok s"
  obtain d d' where dd: "replay (own_rows s) = Inr d" "replay (own_rows (run_op (accepting env) op s)) = Inr d'"
      "dget d' = spec_op op (dget d)"
    using replay_write [OF ok] by blast
  show "log_ok (run_op (accepting env) op s)"
    using ok dd(2) run_op_ok [of s "accepting env" op] own_rows_save [of s "op_row op" env]
    by (auto simp: log_ok_def run_op_row)
  show "finished (run_op (accepting env) op s) = spec_op op (finished s)"
    using dd by (simp add: finished_def)
qed

text \<open>With the waits a run parks at among the writes: they finish nothing.\<close>

datatype service_op = Write cp_op | Park string string int "string option"

fun serve :: "cp_env \<Rightarrow> service_op \<Rightarrow> cp_state \<Rightarrow> cp_state" where
  "serve env (Write op) st = run_op env op st"
| "serve env (Park event_id path gate_round wait_id) st = snd (save_wait_parked env event_id path gate_round wait_id st)"

fun service_spec :: "service_op \<Rightarrow> (string \<Rightarrow> node_result option) \<Rightarrow> string \<Rightarrow> node_result option" where
  "service_spec (Write op) m = spec_op op m"
| "service_spec (Park _ _ _ _) m = m"

lemma park_rows:
  assumes "st_ok st" and "save_wait_parked (accepting env) ev p r w st = (x, st')"
  shows "own_rows st' = own_rows st \<or>
    (\<exists>c. own_rows st' = own_rows st @ [c] \<and> cp_parent_id c = None \<and> cp_event_type c \<in> {''gate_parked'', ''step_parked''})"
proof (cases "list_ex (\<lambda>c. cp_id c = ev) (cs_rows st)")
  case False
  define c where "c = (stamp (accepting env) ((row (if w = None then ''gate_parked'' else ''step_parked'') ''waiting'')
    \<lparr>cp_node_name := Some p, cp_metadata := [(''event_id'', PStr ev), (''path'', PStr p), (''round'', PInt r)] @
      (case w of None \<Rightarrow> [] | Some w \<Rightarrow> [(''wait_id'', PStr w)])\<rparr>) st)\<lparr>cp_id := ev\<rparr>"
  have c: "cp_parent_id c = None" "cp_event_type c \<in> {''gate_parked'', ''step_parked''}" "cp_execution_id c = cs_execution_id st"
    by (simp_all add: c_def)
  have st': "st' = st\<lparr>cs_sequence := cs_sequence st + 1, cs_rows := cs_rows st @ [c]\<rparr>"
    using assms(2) False unfolding save_wait_parked_def Let_def c_def by (simp add: accepting_def)
  have ok: "rows_ok (cs_rows st)" "rows_ok (cs_rows st @ [c])" using assms save_wait_parked_ok [OF assms] st' by (auto simp: st_ok_def)
  have "own_rows st' = own_rows st @ [c]"
    unfolding own_rows_def st' by (simp add: load_checkpoints_ok [OF ok(1)] load_checkpoints_ok [OF ok(2)] c(3))
  then show ?thesis using c(1,2) by blast
qed (use assms(2) in \<open>simp add: save_wait_parked_def\<close>)

interpretation svlog: result_log "serve (accepting env)" finished service_spec log_ok for env
proof
  fix s op
  assume ok: "log_ok s"
  have "log_ok (serve (accepting env) op s) \<and> finished (serve (accepting env) op s) = service_spec op (finished s)"
  proof (cases op)
    case (Write op')
    then show ?thesis using cplog.write_good [OF ok] cplog.look_write [OF ok] by simp
  next
    case (Park ev p r w)
    obtain x st' where park: "save_wait_parked (accepting env) ev p r w s = (x, st')" by fastforce
    have same: "replay_step d c = Inr d" if "cp_event_type c \<in> {''gate_parked'', ''step_parked''}" for c d
      using that by (auto simp: replay_step_def is_row_def)
    have "replay (own_rows st') = replay (own_rows s) \<and> (\<forall>c \<in> set (own_rows st'). cp_parent_id c = None)"
      using park_rows [OF _ park] ok same
      by (auto simp: log_ok_def replay_def fold_res_snoc bind_res_def split: sum.splits)
    then show ?thesis using Park park save_wait_parked_ok [OF _ park] ok by (simp add: log_ok_def finished_def)
  qed
  then show "log_ok (serve (accepting env) op s)" and "finished (serve (accepting env) op s) = service_spec op (finished s)" by blast+
qed

lemma accepting_id: "\<forall>c. ce_accepts env c \<Longrightarrow> accepting env = env"
  by (auto simp: accepting_def fun_eq_iff intro!: cp_env.equality)

lemma fold_run_op_id [simp]: "cs_execution_id (fold (run_op env) ops st) = cs_execution_id st"
  by (induction ops arbitrary: st) (simp_all add: run_op_row)

lemma serve_id [simp]: "cs_execution_id (fold (serve env) ops st) = cs_execution_id st"
proof (induction ops arbitrary: st)
  case (Cons op ops)
  have "cs_execution_id (serve env op st) = cs_execution_id st"
    by (cases op) (simp_all add: run_op_row save_wait_parked_def Let_def)
  then show ?case using Cons by simp
qed simp

lemma full_history_own:
  assumes "\<forall>c \<in> set (load_checkpoints rows e up). cp_parent_id c = None"
  shows "load_full_history rows e up = Some (load_checkpoints rows e up)"
  using assms by (cases "load_checkpoints rows e up") (auto simp: load_full_history_def)

lemma new_service_ok:
  assumes "rows_ok rows" and "\<forall>c \<in> set rows. cp_execution_id c \<noteq> e"
  shows "log_ok (open_service True rows e)" and "own_rows (open_service True rows e) = []"
    and "cs_sequence (open_service True rows e) = 0"
proof -
  have "load_checkpoints rows e None = []" using assms(2) by (simp add: load_checkpoints_def filter_empty_conv)
  then show own: "own_rows (open_service True rows e) = []" and "cs_sequence (open_service True rows e) = 0"
    by (simp_all add: own_rows_def open_service_def load_max_sequence_def)
  then show "log_ok (open_service True rows e)" using open_service_ok [OF assms(1)] by (simp add: log_ok_def replay_def)
qed

text \<open>C8: The checkpoint log implements its specification. After any sequence of writes by a service
  of a new run, the waits it parks at among them, on any table the system can have, reconstruction returns, and
  what it returns is what the writes mean one after the other: the last completed result of every path that was
  not failed, reset, rewound (itself or a stage around it) since, and a removal mark for the nodes a dispatch took
  out.\<close>

theorem reconstruct_refines:
  assumes "reachable_table env rows" and "\<forall>c. ce_accepts env c" and "\<forall>c \<in> set rows. cp_execution_id c \<noteq> e"
  shows "\<exists>d. reconstruct (cs_rows (fold (serve env) ops (open_service True rows e))) e None = Some (Inr d) \<and>
    dget d = fold service_spec ops (\<lambda>_. None)"
proof -
  let ?st = "open_service True rows e" and ?fin = "fold (serve env) ops (open_service True rows e)"
  note new = new_service_ok [OF reachable_rows_ok [OF assms(1)] assms(3)]
  have ok: "log_ok ?fin" and look: "finished ?fin = fold service_spec ops (finished ?st)"
    using svlog.writes_good [OF new(1), of env ops] svlog.look_writes [OF new(1), of env ops] accepting_id [OF assms(2)]
    by simp_all
  have id: "cs_execution_id ?fin = e" by (simp add: open_service_def)
  obtain d where d: "replay (own_rows ?fin) = Inr d" using ok by (auto simp: log_ok_def)
  have "reconstruct (cs_rows ?fin) e None = Some (Inr d)"
    using full_history_own [of "cs_rows ?fin" e None] ok d id
    by (simp add: reconstruct_def log_ok_def own_rows_def)
  moreover have "finished ?st = (\<lambda>_. None)" using new(2) by (simp add: finished_def replay_def fun_eq_iff)
  ultimately show ?thesis using look d by (auto simp: finished_def)
qed

text \<open>Every history can be loaded: on any table the system can have, however often runs were forked
  from forks, following the parent pointers comes to an end.\<close>

theorem history_loads:
  assumes "reachable_table env rows"
  shows "\<exists>h. load_full_history rows e up = Some h"
  by (rule full_history_ends [OF reachable_rows_ok [OF assms]])

lemma own_rows_fold:
  "st_ok st \<Longrightarrow> \<exists>cs. own_rows (fold (run_op (accepting env)) ops st) = own_rows st @ cs \<and>
     (\<forall>c \<in> set cs. cs_sequence st \<le> cp_sequence c)"
proof (induction ops arbitrary: st)
  case (Cons op ops)
  let ?st = "run_op (accepting env) op st"
  obtain cs where "own_rows (fold (run_op (accepting env)) ops ?st) = own_rows ?st @ cs"
      "\<forall>c \<in> set cs. cs_sequence ?st \<le> cp_sequence c"
    using Cons.IH [OF run_op_ok [OF Cons.prems]] by blast
  then show ?case
    using own_rows_save [OF Cons.prems, of "op_row op" env]
    by (intro exI [of _ "stamp (accepting env) (op_row op) st # cs"]) (auto simp: run_op_row [of _ op])
qed simp

lemma fold_run_op_seq: "cs_sequence (fold (run_op env) ops st) = cs_sequence st + int (length ops)"
  by (induction ops arbitrary: st) (simp_all add: run_op_row)

lemma load_up_to:
  "rows_ok rows \<Longrightarrow> load_checkpoints rows e (Some k) = filter (\<lambda>c. cp_sequence c \<le> k) (load_checkpoints rows e None)"
  by (simp add: load_checkpoints_ok conj_commute)

text \<open>Reconstruction up to a sequence number is reconstruction as of that write: reading the
  finished log up to number \<open>k\<close> gives what a full read gave right after the first \<open>k + 1\<close> writes.\<close>

theorem reconstruct_point_in_time:
  assumes "reachable_table env rows" and "\<forall>c. ce_accepts env c" and "\<forall>c \<in> set rows. cp_execution_id c \<noteq> e"
    and "k < length ops"
  shows "reconstruct (cs_rows (fold (run_op env) ops (open_service True rows e))) e (Some (int k)) =
    reconstruct (cs_rows (fold (run_op env) (take (Suc k) ops) (open_service True rows e))) e None"
proof -
  note new = new_service_ok [OF reachable_rows_ok [OF assms(1)] assms(3)]
  let ?mid = "fold (run_op env) (take (Suc k) ops) (open_service True rows e)"
  let ?fin = "fold (run_op env) ops (open_service True rows e)"
  have split: "?fin = fold (run_op env) (drop (Suc k) ops) ?mid"
    by (metis append_take_drop_id comp_apply fold_append)
  have mid: "log_ok ?mid" and fin: "log_ok ?fin"
    using cplog.writes_good [OF new(1)] accepting_id [OF assms(2)] by metis+
  have id: "cs_execution_id ?mid = e" "cs_execution_id ?fin = e" by (simp_all add: open_service_def)
  have seq: "cs_sequence ?mid = int k + 1" using assms(4) new(3) by (simp add: fold_run_op_seq)
  obtain cs where cs: "own_rows ?fin = own_rows ?mid @ cs" "\<forall>c \<in> set cs. cs_sequence ?mid \<le> cp_sequence c"
    using own_rows_fold [of ?mid env "drop (Suc k) ops"] mid split accepting_id [OF assms(2)]
    by (auto simp: log_ok_def)
  have "\<forall>c \<in> set (own_rows ?mid). cp_sequence c < cs_sequence ?mid"
    using mid by (simp add: log_ok_def st_ok_def own_rows_def load_checkpoints_def)
  then have "filter (\<lambda>c. cp_sequence c \<le> int k) (own_rows ?mid) = own_rows ?mid"
    unfolding seq filter_id_conv by fastforce
  moreover have "filter (\<lambda>c. cp_sequence c \<le> int k) cs = []"
    using cs(2) unfolding seq filter_empty_conv by fastforce
  ultimately have "filter (\<lambda>c. cp_sequence c \<le> int k) (own_rows ?fin) = own_rows ?mid"
    unfolding cs(1) filter_append by simp
  then have "load_checkpoints (cs_rows ?fin) e (Some (int k)) = load_checkpoints (cs_rows ?mid) e None"
    using load_up_to [of "cs_rows ?fin" e "int k"] fin id by (simp add: own_rows_def log_ok_def st_ok_def)
  then show ?thesis
    using full_history_own [of "cs_rows ?fin" e "Some (int k)"] full_history_own [of "cs_rows ?mid" e None] mid id
    by (simp add: reconstruct_def log_ok_def own_rows_def)
qed

section \<open>Forks\<close>

lemma find_append_left: "\<exists>x \<in> set xs. P x \<Longrightarrow> find P (xs @ ys) = find P xs"
  by (induction xs) auto

lemma load_checkpoints_other:
  "cp_execution_id f \<noteq> e \<Longrightarrow> load_checkpoints (rows @ [f]) e up = load_checkpoints rows e up"
  by (simp add: load_checkpoints_def)

lemma loaded_parent:
  assumes "rows_ok rows" and "first \<in> set (load_checkpoints rows x up)" and "cp_parent_id first = Some gp"
  shows "gp \<in> cp_id ` set rows"
proof -
  have "first \<in> set rows" using assms(2) by (simp add: load_checkpoints_def)
  then obtain i where "i < length rows" "first = rows ! i" by (auto simp: in_set_conv_nth)
  then obtain j where "j < i" "cp_id (rows ! j) = gp" using rows_ok_parent [OF assms(1)] assms(3) by blast
  then show ?thesis using \<open>i < length rows\<close> by auto
qed

lemma chain_append:
  assumes "rows_ok rows" and "\<forall>c \<in> set rows. cp_execution_id c \<noteq> cp_execution_id f" and "p \<in> cp_id ` set rows"
  shows "load_parent_chain n (rows @ [f]) p = load_parent_chain n rows p"
  using assms(3)
proof (induction n arbitrary: p)
  case (Suc n)
  have find: "find (\<lambda>c. cp_id c = p) (rows @ [f]) = find (\<lambda>c. cp_id c = p) rows"
    using Suc.prems by (intro find_append_left) auto
  show ?case
  proof (cases "find (\<lambda>c. cp_id c = p) rows")
    case (Some parent)
    then have "parent \<in> set rows" by (auto simp: find_Some_iff)
    then have load: "load_checkpoints (rows @ [f]) (cp_execution_id parent) up = load_checkpoints rows (cp_execution_id parent) up" for up
      using assms(2) load_checkpoints_other by metis
    show ?thesis
    proof (cases "load_checkpoints rows (cp_execution_id parent) (Some (cp_sequence parent))")
      case (Cons first rest)
      have "load_parent_chain n (rows @ [f]) gp = load_parent_chain n rows gp" if "cp_parent_id first = Some gp" for gp
        using that Cons loaded_parent [OF assms(1), of first] by (intro Suc.IH) (metis list.set_intros(1))
      then show ?thesis using Some find load Cons by (cases "cp_parent_id first") (simp_all add: Let_def)
    qed (use Some find load in \<open>simp add: Let_def\<close>)
  qed (simp add: find)
qed simp

lemma fork_history:
  assumes ok: "rows_ok rows" and ids: "distinct (map cp_id rows)" "[] \<notin> cp_id ` set rows"
    and acc: "\<forall>c. ce_accepts env c" and new: "\<forall>c \<in> set rows. cp_execution_id c \<noteq> e"
    and f: "fork env rows src q e = Inr st"
  shows "\<exists>c. cp_event_type c = ''workflow_forked'' \<and>
    load_full_history (cs_rows st) e None = map_option (\<lambda>h. h @ [c]) (load_full_history rows src (Some q))"
proof -
  obtain fp c where fp: "fp \<in> set rows" "cp_execution_id fp = src" "cp_sequence fp = q"
    and st: "st = save env c (open_service True rows e)"
    and c: "cp_parent_id c = Some (cp_id fp)" "cp_event_type c = ''workflow_forked''"
    using f by (elim fork_InrD)
  let ?f = "stamp env c (open_service True rows e)"
  have rows: "cs_rows st = rows @ [?f]" using st acc by (simp add: save_def Let_def open_service_def)
  have fe: "cp_execution_id ?f = e" by (simp add: open_service_def)
  have own: "load_checkpoints (rows @ [?f]) e None = [?f]"
    using new fe by (simp add: load_checkpoints_def filter_empty_conv)
  have pcs: "load_checkpoints (rows @ [?f]) src (Some q) = load_checkpoints rows src (Some q)"
    using fp new fe by (intro load_checkpoints_other) metis
  have "find (\<lambda>c. cp_id c = cp_id fp) rows = Some fp"
    using fp(1) ids(1) by (induction rows) (auto simp: image_iff)
  then have find: "find (\<lambda>c. cp_id c = cp_id fp) (rows @ [?f]) = Some fp"
    using fp(1) by (subst find_append_left) auto
  have ne: "load_checkpoints rows src (Some q) \<noteq> []" using fp by (auto simp: load_checkpoints_ok [OF ok] filter_empty_conv)
  have gp: "load_parent_chain (length rows) (rows @ [?f]) g = load_parent_chain (length rows) rows g"
    if "first \<in> set (load_checkpoints rows src (Some q))" "cp_parent_id first = Some g" for first g
  proof (rule chain_append [OF ok])
    show "\<forall>c \<in> set rows. cp_execution_id c \<noteq> cp_execution_id ?f" using new fe by simp
    show "g \<in> cp_id ` set rows" using loaded_parent [OF ok that] .
  qed
  have "load_parent_chain (Suc (length rows)) (rows @ [?f]) (cp_id fp) = load_full_history rows src (Some q)"
  proof (cases "load_checkpoints rows src (Some q)")
    case (Cons first rest)
    then show ?thesis
      using find pcs gp [of first] fp by (cases "cp_parent_id first") (simp_all add: load_full_history_def Let_def)
  qed (use ne in simp)
  then have "load_full_history (rows @ [?f]) e None = map_option (\<lambda>h. h @ [?f]) (load_full_history rows src (Some q))"
  proof -
    have "cp_id fp \<noteq> []" using fp(1) ids(2) by (metis imageI)
    moreover assume "load_parent_chain (Suc (length rows)) (rows @ [?f]) (cp_id fp) = load_full_history rows src (Some q)"
    ultimately show ?thesis using own c by (simp add: load_full_history_def [of "rows @ [?f]"] del: load_parent_chain.simps)
  qed
  then show ?thesis using rows c by (intro exI [of _ ?f]) simp
qed

text \<open>A fork starts where it was forked. Right after a run is forked from a number of another run,
  reconstruction and resume state of the new run are those of the source run up to that number.\<close>

theorem fork_starts_at_source:
  assumes "reachable_table env rows" and "distinct (map cp_id rows)" and "[] \<notin> cp_id ` set rows"
    and "\<forall>c. ce_accepts env c" and "\<forall>c \<in> set rows. cp_execution_id c \<noteq> e"
    and "fork env rows src q e = Inr st"
  shows "reconstruct (cs_rows st) e None = reconstruct rows src (Some q) \<and>
    resume_state (cs_rows st) e None = resume_state rows src (Some q)"
proof -
  obtain c where c: "cp_event_type c = ''workflow_forked''"
    and h: "load_full_history (cs_rows st) e None = map_option (\<lambda>h. h @ [c]) (load_full_history rows src (Some q))"
    using fork_history [OF reachable_rows_ok [OF assms(1)] assms(2-6)] by blast
  have "replay_step d c = Inr d" "resume_step ri c = Inr ri" for d ri
    using c by (simp_all add: replay_step_def resume_step_def is_row_def)
  then have "replay (h @ [c]) = replay h" "replay_resume (h @ [c]) = replay_resume h" for h
    by (simp_all add: replay_def replay_resume_def fold_res_snoc bind_res_def split: sum.splits)
  then show ?thesis
    by (simp add: reconstruct_def resume_state_def h option.map_comp comp_def)
qed

section \<open>Rounds of a loop\<close>

lemma status_value_nonempty: "status_value s \<noteq> []"
  by (cases s) simp_all

text \<open>A resume goes on with the rounds that were used. The count kept for a loop's trigger is the
  number of rewinds written for it since the last rewind that cleared a stage around it.\<close>

theorem resume_counts_rewinds:
  assumes "n \<noteq> []" and "\<forall>i < length ops. \<exists>tgt cl r. ops ! i = OpRewind n tgt cl r \<and> (\<forall>c \<in> set cl. \<not> startswith (c @ ''.'') n)"
    and "ops \<noteq> []"
  shows "\<exists>ri e. replay_resume (map (\<lambda>op. stamp env (op_row op) st) ops) = Inr ri \<and>
    dget (ri_loops ri) n = Some e \<and> le_count e = length ops"
proof -
  have keep: "dget (ri_loops (fold resume_clear cl ri)) n = dget (ri_loops ri) n"
    if "\<forall>c \<in> set cl. \<not> startswith (c @ ''.'') n" for cl ri
    using that
  proof (induction cl arbitrary: ri)
    case (Cons c cl)
    then show ?case
      using dget_filter [of "\<lambda>k. \<not> startswith (c @ ''.'') k" "ri_loops ri" n]
      by (simp add: resume_clear_def drop_under_def)
  qed simp
  have step: "\<exists>ri' e. resume_step ri (stamp env (op_row (OpRewind n tgt cl r)) st) = Inr ri' \<and> dget (ri_loops ri') n = Some e \<and>
      le_count e = (case dget (ri_loops ri) n of None \<Rightarrow> 0 | Some e \<Rightarrow> le_count e) + 1"
    if "\<forall>c \<in> set cl. \<not> startswith (c @ ''.'') n" for ri tgt cl r
    using keep [OF that, of ri] assms(1)
      status_value_nonempty status_of_value [of COMPLETED]
    by (cases r) (auto simp: resume_step_def is_row_def resume_rewind_def meta_strs_def dget_or_def text_or_def Let_def
        split: option.splits)
  have "\<exists>ri' e. fold_res resume_step ri (map (\<lambda>op. stamp env (op_row op) st) ops) = Inr ri' \<and>
      (ops \<noteq> [] \<longrightarrow> dget (ri_loops ri') n = Some e \<and>
       le_count e = (case dget (ri_loops ri) n of None \<Rightarrow> 0 | Some e \<Rightarrow> le_count e) + length ops)" for ri
    using assms(2)
  proof (induction ops arbitrary: ri)
    case (Cons op ops)
    obtain tgt cl r where op: "op = OpRewind n tgt cl r" "\<forall>c \<in> set cl. \<not> startswith (c @ ''.'') n"
      using Cons.prems by fastforce
    obtain ri1 e1 where s: "resume_step ri (stamp env (op_row op) st) = Inr ri1" "dget (ri_loops ri1) n = Some e1"
        "le_count e1 = (case dget (ri_loops ri) n of None \<Rightarrow> 0 | Some e \<Rightarrow> le_count e) + 1"
      using step [OF op(2)] op(1) by blast
    have "\<forall>i < length ops. \<exists>tgt cl r. ops ! i = OpRewind n tgt cl r \<and> (\<forall>c \<in> set cl. \<not> startswith (c @ ''.'') n)"
      using Cons.prems by fastforce
    from Cons.IH [OF this, of ri1] s show ?case by (cases "ops = []") auto
  qed simp
  from this [of empty_resume] assms(3) show ?thesis by (auto simp: replay_resume_def empty_resume_def)
qed

section \<open>Witnesses\<close>

definition plain_env :: cp_env where
  "plain_env = \<lparr>ce_uuid = (\<lambda>n. ''id'' @ nat_str n), ce_clock = of_nat, ce_accepts = (\<lambda>_. True)\<rparr>"

definition some_ops :: "cp_op list" where
  "some_ops = [OpCompleted ''a'' (plain_result COMPLETED), OpCompleted ''b.x'' (plain_result COMPLETED),
     OpCompleted ''b'' (error_result FAILED ''no''), OpRewind ''b'' ''b'' [''b''] None]"

definition source_table :: "checkpoint list" where
  "source_table = cs_rows (fold (run_op plain_env) some_ops (open_service True [] ''r1''))"

lemma source_table_reachable: "reachable_table plain_env source_table"
  unfolding source_table_def by (rule reachable_table.service [OF reachable_table.empty])

lemma source_table_ids: "map (\<lambda>c. (cp_id c, cp_execution_id c, cp_sequence c)) source_table =
    [(''id0'', ''r1'', 0), (''id1'', ''r1'', 1), (''id2'', ''r1'', 2), (''id3'', ''r1'', 3)]"
  by code_simp

definition served_ops :: "service_op list" where
  "served_ops = Park ''w1'' ''a'' 1 None # map Write some_ops @ [Park ''w1'' ''a'' 1 None, Park ''w2'' ''b'' 1 (Some ''s'')]"

theorem reconstruct_refines_witness:
  "\<exists>d. reconstruct (cs_rows (fold (serve plain_env) served_ops (open_service True [] ''r1''))) ''r1'' None = Some (Inr d) \<and>
     dget d ''a'' = Some (plain_result COMPLETED) \<and> dget d ''b.x'' = None"
proof -
  obtain d where "reconstruct (cs_rows (fold (serve plain_env) served_ops (open_service True [] ''r1''))) ''r1'' None = Some (Inr d)"
      "dget d = fold service_spec served_ops (\<lambda>_. None)"
    using reconstruct_refines [OF reachable_table.empty, of plain_env "''r1''" served_ops] by (auto simp: plain_env_def)
  moreover have "fold service_spec served_ops (\<lambda>_. None) ''a'' = Some (plain_result COMPLETED)"
    "fold service_spec served_ops (\<lambda>_. None) ''b.x'' = None"
    by (simp_all add: served_ops_def some_ops_def at_or_under_def startswith_def stored_def plain_result_def)
  ultimately show ?thesis by auto
qed

theorem history_loads_witness: "\<exists>h. load_full_history source_table ''r1'' None = Some h"
  by (rule history_loads [OF source_table_reachable])

theorem reconstruct_point_in_time_witness:
  "reconstruct source_table ''r1'' (Some 1) =
     reconstruct (cs_rows (fold (run_op plain_env) (take 2 some_ops) (open_service True [] ''r1''))) ''r1'' None"
  using reconstruct_point_in_time [OF reachable_table.empty, of plain_env "''r1''" 1 some_ops]
  by (simp add: source_table_def plain_env_def some_ops_def numeral_2_eq_2)

theorem fork_starts_at_source_witness:
  "\<exists>st. fork plain_env source_table ''r1'' 1 ''r2'' = Inr st \<and> reconstruct (cs_rows st) ''r2'' None = reconstruct source_table ''r1'' (Some 1)"
proof -
  have ids: "map cp_id source_table = [''id0'', ''id1'', ''id2'', ''id3'']"
    using arg_cong [OF source_table_ids, of "map fst"] by (simp add: comp_def)
  have ex: "map cp_execution_id source_table = [''r1'', ''r1'', ''r1'', ''r1'']"
    using arg_cong [OF source_table_ids, of "map (fst \<circ> snd)"] by (simp add: comp_def)
  have "distinct (map cp_id source_table)" "[] \<notin> cp_id ` set source_table"
    unfolding ids set_map [symmetric] by simp_all
  moreover have "''r2'' \<notin> cp_execution_id ` set source_table"
    unfolding ex set_map [symmetric] by simp
  then have "\<forall>c \<in> set source_table. cp_execution_id c \<noteq> ''r2''" by (metis imageI)
  moreover have "\<forall>c. ce_accepts plain_env c" by (simp add: plain_env_def)
  moreover have "\<exists>st. fork plain_env source_table ''r1'' 1 ''r2'' = Inr st"
  proof -
    have "\<not> isl (fork plain_env source_table ''r1'' 1 ''r2'')" by code_simp
    then show ?thesis by (cases "fork plain_env source_table ''r1'' 1 ''r2''") auto
  qed
  ultimately show ?thesis
    using fork_starts_at_source [OF source_table_reachable] by blast
qed

theorem resume_counts_rewinds_witness:
  "\<exists>ri e. replay_resume (map (\<lambda>op. stamp plain_env (op_row op) (open_service True [] ''r''))
     [OpRewind ''b'' ''a'' [''a''] None, OpRewind ''b'' ''a'' [''a''] None]) = Inr ri \<and>
     dget (ri_loops ri) ''b'' = Some e \<and> le_count e = 2"
  using resume_counts_rewinds [of "''b''" "[OpRewind ''b'' ''a'' [''a''] None, OpRewind ''b'' ''a'' [''a''] None]"
      plain_env "open_service True [] ''r''"]
  by (simp add: less_Suc_eq startswith_def numeral_2_eq_2 all_conj_distrib)

end
