(* ===== verification/Restore.thy ===== *)
theory Restore
  imports Checkpoint
begin

text \<open>
  What a resumed run takes back from its checkpoints, graph by graph (\<^verbatim>\<open>temper_ai/stage/restore.py\<close>).

  A \<open>Restore\<close> object is shared by all graphs of a run and every method holds its lock, so it is a
  record that each operation returns updated. Its two sets of paths are lists. Loop entries and
  dispatches have the shape the checkpoint service gives them (\<open>resume_state\<close>).
\<close>

section \<open>The model\<close>

record restore =
  rt_outputs :: "node_result dict"
  rt_loops :: "loop_entry dict"
  rt_failed :: "string list"
  rt_rerun :: "string list option"
  rt_dispatches :: "dispatch_entry list"

record claimed =
  cl_outputs :: "node_result dict"
  cl_loop_counts :: "nat dict"
  cl_loop_feedback :: "node_result dict"
  cl_reset :: "string list"

text \<open>\<open>Restore(outputs, loops, failed, rerun, redo, dispatches)\<close>\<close>

definition new_restore :: "node_result dict \<Rightarrow> loop_entry dict \<Rightarrow> string list \<Rightarrow> string list option \<Rightarrow> string list
    \<Rightarrow> dispatch_entry list \<Rightarrow> restore" where
  "new_restore outputs loops failed rerun redo dispatches =
     \<lparr>rt_outputs = fold drop_under redo outputs, rt_loops = fold drop_under redo loops, rt_failed = failed,
      rt_rerun = rerun, rt_dispatches = dispatches\<rparr>"

definition again_at :: "restore \<Rightarrow> string \<Rightarrow> bool" where
  "again_at rt path =
     (let wanted = (case rt_rerun rt of None \<Rightarrow> rt_failed rt | Some ps \<Rightarrow> ps)
      in list_ex (\<lambda>p. p = path \<or> startswith (path @ ''.'') p) wanted)"

text \<open>One turn of the \<open>while grew\<close> loop.\<close>

fun grow_pass :: "string list dict \<Rightarrow> string list \<Rightarrow> string list" where
  "grow_pass [] again = again"
| "grow_pass ((name, deps) # rest) again =
     grow_pass rest (if name \<notin> set again \<and> list_ex (\<lambda>d. d \<in> set again) deps then again @ [name] else again)"

lemma grow_pass_extends: "\<exists>more. grow_pass deps again = again @ more \<and> set more \<subseteq> set (dkeys deps) - set again \<and> distinct more"
proof (induction deps arbitrary: again)
  case (Cons p deps)
  obtain name ds where p: "p = (name, ds)" by fastforce
  show ?case
  proof (cases "name \<notin> set again \<and> list_ex (\<lambda>d. d \<in> set again) ds")
    case True
    obtain more where m: "grow_pass deps (again @ [name]) = (again @ [name]) @ more"
      "set more \<subseteq> set (dkeys deps) - set (again @ [name])" "distinct more" using Cons.IH by blast
    then show ?thesis using True p by (intro exI [of _ "name # more"]) auto
  next
    case False
    then have "grow_pass (p # deps) again = grow_pass deps again" using p by auto
    then show ?thesis using Cons.IH [of again] by auto
  qed
qed simp

function grow :: "string list dict \<Rightarrow> string list \<Rightarrow> string list" where
  "grow deps again =
     (let again' = grow_pass deps again in if again' = again then again else grow deps again')"
  by pat_completeness auto

termination
proof (relation "measure (\<lambda>(deps, again). card (set (dkeys deps) - set again))", goal_cases)
  case (2 deps again again')
  obtain more where m: "again' = again @ more" "set more \<subseteq> set (dkeys deps) - set again"
    using grow_pass_extends [of deps again] 2(1) by auto
  then have "more \<noteq> []" using 2(2) by auto
  then have "set (dkeys deps) - set again' \<subset> set (dkeys deps) - set again" using m by (cases more) auto
  then show ?case by (simp add: psubset_card_mono)
qed simp

declare grow.simps [simp del]

text \<open>\<open>_reruns\<close>: without a plan, what failed and everything after it.\<close>

definition reruns :: "string \<Rightarrow> string list dict \<Rightarrow> restore \<Rightarrow> string list" where
  "reruns pfx depends_on rt =
     (let again = filter (\<lambda>name. again_at rt (pfx @ name)) (dkeys depends_on)
      in if rt_rerun rt = None then grow depends_on again else again)"

text \<open>\<open>_rename\<close>\<close>

definition moved :: "string \<Rightarrow> string \<Rightarrow> string \<Rightarrow> string option" where
  "moved old new key =
     (if key = old then Some new
      else if startswith (old @ ''.'') key then Some (new @ drop (length old) key) else None)"

definition move_entry :: "bool \<Rightarrow> string \<Rightarrow> string \<Rightarrow> string \<Rightarrow> 'a dict \<Rightarrow> 'a dict" where
  "move_entry taken old new key d =
     (case (moved old new key, dget d key) of
        (Some to, Some v) \<Rightarrow> if taken then ddel key d else dset to v (ddel key d)
      | _ \<Rightarrow> d)"

definition move_entries :: "bool \<Rightarrow> string \<Rightarrow> string \<Rightarrow> 'a dict \<Rightarrow> 'a dict" where
  "move_entries taken old new d = fold (move_entry taken old new) (dkeys d) d"

definition rename_entries :: "string \<Rightarrow> string \<Rightarrow> restore \<Rightarrow> restore" where
  "rename_entries old new rt =
     (let taken = list_ex (\<lambda>k. k = new \<or> startswith (new @ ''.'') k) (dkeys (rt_outputs rt) @ dkeys (rt_loops rt) @ rt_failed rt);
          retarget = (\<lambda>e. case moved old new (le_target e) of None \<Rightarrow> e | Some t \<Rightarrow> e\<lparr>le_target := t\<rparr>);
          stay = filter (\<lambda>p. moved old new p = None) (rt_failed rt);
          go = map (\<lambda>p. the (moved old new p)) (filter (\<lambda>p. moved old new p \<noteq> None) (rt_failed rt))
      in rt\<lparr>rt_outputs := move_entries taken old new (rt_outputs rt),
            rt_loops := map (map_prod id retarget) (move_entries taken old new (rt_loops rt)),
            rt_failed := (if taken then stay else stay @ go)\<rparr>)"

fun rename_all :: "string \<Rightarrow> string list dict \<Rightarrow> restore \<Rightarrow> restore" where
  "rename_all pfx [] rt = rt"
| "rename_all pfx ((name, olds) # rest) rt =
     rename_all pfx rest (fold (\<lambda>old. rename_entries (pfx @ old) (pfx @ name)) olds rt)"

definition own :: "string \<Rightarrow> 'a dict \<Rightarrow> string \<Rightarrow> bool" where
  "own pfx names key = (startswith pfx key \<and> drop (length pfx) key \<in> set (dkeys names))"

text \<open>\<open>name->target\<close>, with the target's path cut down to its name in this graph.\<close>

definition claimed_key :: "string \<Rightarrow> string \<times> loop_entry \<Rightarrow> string" where
  "claimed_key pfx e =
     drop (length pfx) (fst e) @ ''->'' @
       (if startswith pfx (le_target (snd e)) then drop (length pfx) (le_target (snd e)) else le_target (snd e))"

text \<open>A restored node takes away what its insides left.\<close>

definition forget_inside :: "string \<Rightarrow> restore \<Rightarrow> restore" where
  "forget_inside path rt = rt\<lparr>
     rt_outputs := drop_under path (rt_outputs rt), rt_loops := drop_under path (rt_loops rt),
     rt_failed := filter (\<lambda>p. \<not> startswith (path @ ''.'') p) (rt_failed rt),
     rt_dispatches := filter (\<lambda>d. \<not> startswith (path @ ''.'') (de_dispatcher d)) (rt_dispatches rt)\<rparr>"

definition claim :: "string \<Rightarrow> string list dict \<Rightarrow> string list dict \<Rightarrow> restore \<Rightarrow> claimed \<times> restore" where
  "claim pfx depends_on renamed_from rt0 =
     (let rt = rename_all pfx renamed_from rt0;
          outputs = map (\<lambda>(k, r). (drop (length pfx) k, r)) (filter (\<lambda>p. own pfx depends_on (fst p)) (rt_outputs rt));
          loops = filter (\<lambda>p. own pfx depends_on (fst p)) (rt_loops rt);
          counts = fold (\<lambda>e. dset (claimed_key pfx e) (le_count (snd e))) loops [];
          feedback = map (\<lambda>(k, e). (drop (length pfx) k, le_feedback e)) loops;
          again = reruns pfx depends_on rt;
          reset = sort (filter (\<lambda>name. dhas name outputs) again);
          outputs = dpops again outputs;
          rt = rt\<lparr>rt_outputs := filter (\<lambda>p. \<not> own pfx depends_on (fst p)) (rt_outputs rt),
                  rt_loops := filter (\<lambda>p. \<not> own pfx depends_on (fst p)) (rt_loops rt),
                  rt_failed := filter (\<lambda>p. p \<notin> set (map (\<lambda>name. pfx @ name) (dkeys depends_on))) (rt_failed rt)\<rparr>
      in (\<lparr>cl_outputs = outputs, cl_loop_counts = counts, cl_loop_feedback = feedback, cl_reset = reset\<rparr>,
          fold (\<lambda>name. forget_inside (pfx @ name)) (dkeys outputs) rt))"

text \<open>\<open>prefix.rstrip(".")\<close>\<close>

definition rstrip_dots :: "string \<Rightarrow> string" where
  "rstrip_dots s = rev (dropWhile (\<lambda>c. c = CHR ''.'') (rev s))"

definition owns_dispatch :: "string \<Rightarrow> string list \<Rightarrow> dispatch_entry \<Rightarrow> bool" where
  "owns_dispatch pfx names e =
     (case de_graph_path e of
        None \<Rightarrow> last (split_dot (de_dispatcher e)) \<in> set names
      | Some g \<Rightarrow> g = rstrip_dots pfx)"

definition claim_dispatches :: "string \<Rightarrow> string list \<Rightarrow> string list \<Rightarrow> restore \<Rightarrow> dispatch_entry list \<times> restore" where
  "claim_dispatches pfx names rerunning rt =
     (filter (\<lambda>e. last (split_dot (de_dispatcher e)) \<notin> set rerunning) (filter (owns_dispatch pfx names) (rt_dispatches rt)),
      rt\<lparr>rt_dispatches := filter (\<lambda>e. \<not> owns_dispatch pfx names e) (rt_dispatches rt)\<rparr>)"

section \<open>Lemmas\<close>

text \<open>What runs again, as the least set: the nodes marked, and every node after one of them.\<close>

inductive must_rerun :: "string set \<Rightarrow> string list dict \<Rightarrow> string \<Rightarrow> bool" for seed deps where
  marked: "n \<in> seed \<Longrightarrow> must_rerun seed deps n"
| after: "must_rerun seed deps m \<Longrightarrow> (n, ds) \<in> set deps \<Longrightarrow> m \<in> set ds \<Longrightarrow> must_rerun seed deps n"

lemma grow_pass_sound:
  "set again \<subseteq> {n. must_rerun seed all n} \<Longrightarrow> set deps \<subseteq> set all \<Longrightarrow> set (grow_pass deps again) \<subseteq> {n. must_rerun seed all n}"
proof (induction deps arbitrary: again)
  case (Cons p deps)
  obtain name ds where p: "p = (name, ds)" by fastforce
  have "must_rerun seed all name" if "d \<in> set ds" "d \<in> set again" for d
    using Cons.prems p that by (intro must_rerun.after [of _ _ d name ds]) auto
  then have "set (if name \<notin> set again \<and> list_ex (\<lambda>d. d \<in> set again) ds then again @ [name] else again) \<subseteq> {n. must_rerun seed all n}"
    using Cons.prems(1) by (auto simp: list_ex_iff)
  from Cons.IH [OF this] show ?case using Cons.prems(2) p by auto
qed simp

lemma grow_pass_stable:
  "grow_pass deps again = again \<Longrightarrow> (n, ds) \<in> set deps \<Longrightarrow> d \<in> set ds \<Longrightarrow> d \<in> set again \<Longrightarrow> n \<in> set again"
proof (induction deps arbitrary: again)
  case (Cons p deps)
  obtain name es where p: "p = (name, es)" by fastforce
  show ?case
  proof (cases "name \<notin> set again \<and> list_ex (\<lambda>d. d \<in> set again) es")
    case True
    obtain more where "grow_pass deps (again @ [name]) = (again @ [name]) @ more" using grow_pass_extends by blast
    then show ?thesis using Cons.prems(1) True p by simp
  next
    case False
    then have "grow_pass deps again = again" using Cons.prems(1) p by auto
    then show ?thesis using Cons.IH Cons.prems False p by (auto simp: list_ex_iff)
  qed
qed simp

lemma grow_exact: "set again \<subseteq> {n. must_rerun seed deps n} \<Longrightarrow> seed \<subseteq> set again \<Longrightarrow> set (grow deps again) = {n. must_rerun seed deps n}"
proof (induction deps again rule: grow.induct)
  case (1 deps again)
  show ?case
  proof (cases "grow_pass deps again = again")
    case True
    have "n \<in> set again" if "must_rerun seed deps n" for n
      using that
    proof induction
      case (after m n ds)
      then show ?case using grow_pass_stable [OF True] by blast
    qed (use "1.prems"(2) in blast)
    then show ?thesis using "1.prems"(1) True by (subst grow.simps) auto
  next
    case False
    have "set (grow_pass deps again) \<subseteq> {n. must_rerun seed deps n}"
      by (rule grow_pass_sound [OF "1.prems"(1)]) simp
    moreover have "seed \<subseteq> set (grow_pass deps again)" using grow_pass_extends [of deps again] "1.prems"(2) by fastforce
    ultimately have "set (grow deps (grow_pass deps again)) = {n. must_rerun seed deps n}" using "1.IH" False by blast
    then show ?thesis using False by (subst grow.simps) (simp add: Let_def)
  qed
qed

lemma reruns_set:
  "set (reruns pfx deps rt) =
     (let seed = {n \<in> set (dkeys deps). again_at rt (pfx @ n)}
      in if rt_rerun rt = None then {n. must_rerun seed deps n} else seed)"
  using grow_exact [of "filter (\<lambda>name. again_at rt (pfx @ name)) (dkeys deps)" "{n \<in> set (dkeys deps). again_at rt (pfx @ n)}" deps]
  by (auto simp: reruns_def Let_def intro: must_rerun.marked)

lemma must_rerun_named: "must_rerun seed deps n \<Longrightarrow> seed \<subseteq> set (dkeys deps) \<Longrightarrow> n \<in> set (dkeys deps)"
  by (induction rule: must_rerun.induct) (auto simp: rev_image_eqI)

lemma drop_under_get: "dget (drop_under name d) k = (if startswith (name @ ''.'') k then None else dget d k)"
  using dget_filter [of "\<lambda>k. \<not> startswith (name @ ''.'') k" d k] by (simp add: drop_under_def)

lemma not_own_get: "dget (filter (\<lambda>p. \<not> own pfx deps (fst p)) d) k = (if own pfx deps k then None else dget d k)"
  using dget_filter [of "\<lambda>k. \<not> own pfx deps k" d k] by simp

lemma own_append [simp]: "own pfx deps (pfx @ name) = (name \<in> set (dkeys deps))"
  by (simp add: own_def)

lemma own_cases: "own pfx deps k \<longleftrightarrow> (\<exists>name \<in> set (dkeys deps). k = pfx @ name)"
  unfolding own_def startswith_iff by (metis append_eq_conv_conj)

lemma dget_cut_prefix:
  "dget (map (\<lambda>(k, r). (drop (length pfx) k, f r)) (filter (\<lambda>p. own pfx deps (fst p)) d)) name =
     (if name \<in> set (dkeys deps) then map_option f (dget d (pfx @ name)) else None)"
proof (induction d)
  case (Cons p d)
  obtain k r where p: "p = (k, r)" by fastforce
  show ?case
  proof (cases "own pfx deps k")
    case True
    then obtain n where "k = pfx @ n" "n \<in> set (dkeys deps)" unfolding own_cases by blast
    then show ?thesis using Cons p True by simp
  next
    case False
    then have "pfx @ name \<noteq> k" if "name \<in> set (dkeys deps)" using that unfolding own_cases by blast
    then show ?thesis using Cons p False by auto
  qed
qed simp

lemma fold_forget_outputs:
  "dget (rt_outputs (fold (\<lambda>name. forget_inside (pfx @ name)) names rt)) k =
     (if \<exists>name \<in> set names. startswith (pfx @ name @ ''.'') k then None else dget (rt_outputs rt) k)"
  by (induction names arbitrary: rt) (auto simp: forget_inside_def drop_under_get)

lemma fold_forget_loops:
  "dget (rt_loops (fold (\<lambda>name. forget_inside (pfx @ name)) names rt)) k =
     (if \<exists>name \<in> set names. startswith (pfx @ name @ ''.'') k then None else dget (rt_loops rt) k)"
  by (induction names arbitrary: rt) (auto simp: forget_inside_def drop_under_get)

lemma dkeys_dpops: "dkeys (dpops ks d) = filter (\<lambda>k. k \<notin> set ks) (dkeys d)"
proof (induction ks arbitrary: d)
  case (Cons k ks)
  have "dkeys (ddel k d) = filter (\<lambda>x. x \<noteq> k) (dkeys d)" by (induction d) (auto simp: AList.delete_eq)
  then show ?case using Cons by (simp add: conj_commute)
qed simp

text \<open>Claims and renames keep dictionaries without duplicate keys.\<close>

lemma fold_keeps: "(\<And>x s. P s \<Longrightarrow> P (f x s)) \<Longrightarrow> P s \<Longrightarrow> P (fold f xs s)"
  by (induction xs arbitrary: s) auto

lemma dict_ok_cut_prefix:
  assumes "dict_ok d"
  shows "dict_ok (map (\<lambda>(k, r). (drop (length pfx) k, r)) (filter (\<lambda>p. own pfx deps (fst p)) d))"
proof -
  have "inj_on (drop (length pfx)) (fst ` set (filter (\<lambda>p. own pfx deps (fst p)) d))"
    by (auto simp: inj_on_def own_def startswith_iff)
  moreover have "distinct (map fst (filter (\<lambda>p. own pfx deps (fst p)) d))"
    using assms dict_ok_filter [of d] by (simp add: dict_ok_def)
  ultimately have "distinct (map (drop (length pfx)) (map fst (filter (\<lambda>p. own pfx deps (fst p)) d)))"
    by (subst distinct_map) (simp only: set_map simp_thms)
  then show ?thesis by (simp add: dict_ok_def comp_def split_def)
qed

lemma move_entries_ok: "dict_ok d \<Longrightarrow> dict_ok (move_entries taken old new d)"
  unfolding move_entries_def by (rule fold_keeps) (auto simp: move_entry_def split: option.splits)

lemma rename_all_ok: "dict_ok (rt_outputs rt) \<Longrightarrow> dict_ok (rt_outputs (rename_all pfx ren rt))"
proof (induction pfx ren rt rule: rename_all.induct)
  case (2 pfx name olds rest rt)
  have "dict_ok (rt_outputs (fold (\<lambda>old. rename_entries (pfx @ old) (pfx @ name)) olds rt))" if "dict_ok (rt_outputs rt)" for rt
    using that by (intro fold_keeps [of "\<lambda>rt. dict_ok (rt_outputs rt)"]) (auto simp: rename_entries_def Let_def move_entries_ok)
  then show ?case using 2 by simp
qed simp

lemma claim_ok:
  assumes "claim pfx deps ren rt = (c, rt')" and "dict_ok (rt_outputs rt)"
  shows "dict_ok (cl_outputs c) \<and> dict_ok (rt_outputs rt')"
proof -
  have r: "dict_ok (rt_outputs (rename_all pfx ren rt))" using rename_all_ok assms(2) .
  have fold: "dict_ok (rt_outputs (fold (\<lambda>name. forget_inside (pfx @ name)) names rt))" if "dict_ok (rt_outputs rt)" for names rt
    using that by (intro fold_keeps [of "\<lambda>rt. dict_ok (rt_outputs rt)"]) (auto simp: forget_inside_def drop_under_def)
  have "cl_outputs c = dpops (reruns pfx deps (rename_all pfx ren rt))
      (map (\<lambda>(k, r). (drop (length pfx) k, r)) (filter (\<lambda>p. own pfx deps (fst p)) (rt_outputs (rename_all pfx ren rt))))"
    using assms(1) by (auto simp: claim_def Let_def)
  then have "dict_ok (cl_outputs c)" using dict_ok_cut_prefix [OF r] by auto
  moreover obtain names rt1 where "rt' = fold (\<lambda>name. forget_inside (pfx @ name)) names rt1"
      "rt_outputs rt1 = filter (\<lambda>p. \<not> own pfx deps (fst p)) (rt_outputs (rename_all pfx ren rt))"
    using assms(1) by (auto simp: claim_def Let_def)
  then have "dict_ok (rt_outputs rt')" using r fold [of rt1 names] dict_ok_filter by metis
  ultimately show ?thesis ..
qed

section \<open>What a restore guarantees\<close>


text \<open>What a graph claims is exactly the kept results of its own nodes that do not run again; the nodes it
  resets are exactly those that had a kept result and do run again, in sorted order.\<close>

theorem claim_exact:
  assumes "claim pfx deps [] rt = (c, rt')"
  shows "(\<forall>name. dget (cl_outputs c) name =
      (if name \<in> set (dkeys deps) \<and> name \<notin> set (reruns pfx deps rt) then dget (rt_outputs rt) (pfx @ name) else None)) \<and>
    sorted (cl_reset c) \<and>
    set (cl_reset c) = {name \<in> set (dkeys deps). name \<in> set (reruns pfx deps rt) \<and> dget (rt_outputs rt) (pfx @ name) \<noteq> None}"
proof -
  let ?outs = "map (\<lambda>(k, r). (drop (length pfx) k, r)) (filter (\<lambda>p. own pfx deps (fst p)) (rt_outputs rt))"
  have get: "dget ?outs name = (if name \<in> set (dkeys deps) then dget (rt_outputs rt) (pfx @ name) else None)" for name
    using dget_cut_prefix [of pfx "\<lambda>r. r" deps "rt_outputs rt" name] by (simp add: option.map_ident)
  have "cl_outputs c = dpops (reruns pfx deps rt) ?outs" "cl_reset c = sort (filter (\<lambda>name. dhas name ?outs) (reruns pfx deps rt))"
    using assms by (auto simp: claim_def Let_def)
  then show ?thesis by (auto simp: get dhas_def simp del: list.set_map split: if_splits)
qed

text \<open>A claim takes its entries away. A second claim of the same graph gets no result and no loop, and the
  entries of other graphs stay, except those inside a node that was restored whole.\<close>

theorem claimed_graph_gets_nothing:
  assumes "claim pfx deps [] rt = (c, rt')" and "claim pfx deps [] rt' = (c', rt'')"
  shows "cl_outputs c' = [] \<and> cl_loop_counts c' = [] \<and> cl_loop_feedback c' = [] \<and> cl_reset c' = [] \<and>
    (\<forall>k. dget (rt_outputs rt') k =
      (if own pfx deps k \<or> (\<exists>name \<in> set (dkeys (cl_outputs c)). startswith (pfx @ name @ ''.'') k) then None else dget (rt_outputs rt) k))"
proof -
  let ?rt = "rt\<lparr>rt_outputs := filter (\<lambda>p. \<not> own pfx deps (fst p)) (rt_outputs rt),
                  rt_loops := filter (\<lambda>p. \<not> own pfx deps (fst p)) (rt_loops rt),
                  rt_failed := filter (\<lambda>p. p \<notin> set (map (\<lambda>name. pfx @ name) (dkeys deps))) (rt_failed rt)\<rparr>"
  have rt': "rt' = fold (\<lambda>name. forget_inside (pfx @ name)) (dkeys (cl_outputs c)) ?rt"
    using assms(1) by (auto simp: claim_def Let_def)
  have none: "dget (rt_outputs rt') k = None" "dget (rt_loops rt') k = None" if "own pfx deps k" for k
    using that unfolding rt' fold_forget_outputs fold_forget_loops by (simp_all add: not_own_get)
  then have "filter (\<lambda>p. own pfx deps (fst p)) (rt_outputs rt') = []" "filter (\<lambda>p. own pfx deps (fst p)) (rt_loops rt') = []"
    by (auto simp: filter_empty_conv dget_None_keys)
  moreover from this have "filter (\<lambda>name. dhas name []) (reruns pfx deps rt') = []" by (simp add: dhas_def)
  moreover have "dpops (reruns pfx deps rt') [] = []" for f :: node_result
    using dkeys_dpops [of "reruns pfx deps rt'" "[]"] by simp
  ultimately have "cl_outputs c' = []" "cl_loop_counts c' = []" "cl_loop_feedback c' = []" "cl_reset c' = []"
    using assms(2) by (auto simp: claim_def Let_def dhas_def)
  then show ?thesis unfolding rt' fold_forget_outputs by (simp add: not_own_get)
qed

text \<open>Every dispatch of an earlier attempt goes to one graph only: a graph takes all dispatches that are its
  own, and gives back, in their order, those whose dispatcher does not run again.\<close>

theorem claim_dispatches_once:
  assumes "claim_dispatches pfx names rerunning rt = (mine, rt')"
  shows "(\<forall>e. e \<in> set (rt_dispatches rt') \<longleftrightarrow> e \<in> set (rt_dispatches rt) \<and> \<not> owns_dispatch pfx names e) \<and>
    subseq (rt_dispatches rt') (rt_dispatches rt) \<and>
    fst (claim_dispatches pfx names rerunning' rt') = [] \<and> subseq mine (rt_dispatches rt) \<and>
    (\<forall>e. e \<in> set mine \<longleftrightarrow> e \<in> set (rt_dispatches rt) \<and> owns_dispatch pfx names e \<and>
       last (split_dot (de_dispatcher e)) \<notin> set rerunning)"
proof -
  have "subseq (filter (\<lambda>e. last (split_dot (de_dispatcher e)) \<notin> set rerunning) (filter (owns_dispatch pfx names) (rt_dispatches rt)))
      (rt_dispatches rt)"
    by (rule subseq_order.order_trans [OF subseq_filter_left subseq_filter_left])
  then show ?thesis
    using assms by (auto simp: claim_dispatches_def)
qed

section \<open>Witnesses\<close>

text \<open>A run that stopped in \<open>build\<close>: \<open>plan\<close> finished, a step of \<open>build\<close> failed, \<open>ship\<close> ran after it.\<close>

definition build_deps :: "string list dict" where
  "build_deps = [(''ship'', [''build'']), (''plan'', []), (''build'', [''plan''])]"

definition stopped_build :: restore where
  "stopped_build = new_restore
     [(''plan'', plain_result COMPLETED), (''build.code'', plain_result COMPLETED), (''ship'', plain_result COMPLETED)]
     [] [''build.test''] None [] [\<lparr>de_dispatcher = ''plan'', de_graph_path = Some [], de_added_nodes = [], de_removed_targets = [],
        de_depth = 0, de_fingerprint = ([], []), de_delta = 0\<rparr>]"

theorem claim_exact_witness:
  "\<exists>c rt'. claim [] build_deps [] stopped_build = (c, rt') \<and> dget (cl_outputs c) ''plan'' = Some (plain_result COMPLETED) \<and>
     set (cl_reset c) = {''ship''}"
proof -
  obtain c rt' where c: "claim [] build_deps [] stopped_build = (c, rt')" by fastforce
  have again: "set (reruns [] build_deps stopped_build) = {''build'', ''ship''}" by code_simp
  have "set (cl_reset c) = {name \<in> set (dkeys build_deps). name \<in> {''build'', ''ship''} \<and> dget (rt_outputs stopped_build) ([] @ name) \<noteq> None}"
    using claim_exact [OF c] unfolding again by blast
  also have "\<dots> = {''ship''}" by (auto simp: build_deps_def stopped_build_def new_restore_def)
  finally have "set (cl_reset c) = {''ship''}" .
  moreover have "dget (cl_outputs c) ''plan'' = Some (plain_result COMPLETED)"
    using claim_exact [OF c] unfolding again by (simp add: build_deps_def stopped_build_def new_restore_def)
  ultimately show ?thesis using c by blast
qed

theorem claimed_graph_gets_nothing_witness:
  "\<exists>c rt' c' rt''. claim [] build_deps [] stopped_build = (c, rt') \<and> claim [] build_deps [] rt' = (c', rt'') \<and> cl_outputs c' = []"
proof -
  obtain c rt' where c: "claim [] build_deps [] stopped_build = (c, rt')" by fastforce
  obtain c' rt'' where c': "claim [] build_deps [] rt' = (c', rt'')" by fastforce
  show ?thesis using c c' claimed_graph_gets_nothing [OF c c'] by blast
qed

theorem claim_dispatches_once_witness:
  "\<exists>mine rt'. claim_dispatches [] [''plan''] [''plan''] stopped_build = (mine, rt') \<and> mine = []"
proof -
  obtain mine rt' where c: "claim_dispatches [] [''plan''] [''plan''] stopped_build = (mine, rt')" by fastforce
  have "\<not> (e \<in> set (rt_dispatches stopped_build) \<and> last (split_dot (de_dispatcher e)) \<notin> set [''plan''])" for e
    by (auto simp: stopped_build_def new_restore_def)
  then have "e \<notin> set mine" for e using claim_dispatches_once [OF c, of "[]"] by (metis (no_types, lifting))
  then show ?thesis using c by (metis list.set_intros(1) neq_Nil_conv)
qed

end
