(* ===== verification/Restore_Once.thy ===== *)
theory Restore_Once
  imports Restore "HOL-Library.Multiset"
begin

text \<open>
  What a whole resume hands out: any number of graphs claim from the one \<open>Restore\<close> of a run
  (\<^verbatim>\<open>temper_ai/stage/restore.py\<close>), with nodes renamed since or not, and no result is handed out more
  often than it was kept. Results are counted as a multiset, so that one copied instead of moved would show.
\<close>

section \<open>Lemmas\<close>

text \<open>What a dictionary holds, however often.\<close>

definition held_values :: "('a \<Rightarrow> 'b) \<Rightarrow> 'a dict \<Rightarrow> 'b multiset" where
  "held_values f d = mset (map (f \<circ> snd) d)"

lemma held_filter: "held_values f (filter P d) \<subseteq># held_values f d"
  by (induction d) (auto simp: held_values_def intro: subset_mset.order_trans)

lemma held_split: "held_values f (filter P d) + held_values f (filter (\<lambda>p. \<not> P p) d) = held_values f d"
  by (induction d) (auto simp: held_values_def)

lemma held_ddel: "held_values f (ddel k d) \<subseteq># held_values f d"
  by (simp add: AList.delete_eq held_filter)

lemma held_dpops: "held_values f (dpops ks d) \<subseteq># held_values f d"
proof (induction ks arbitrary: d)
  case (Cons k ks)
  show ?case using subset_mset.order_trans [OF Cons.IH [of "ddel k d"] held_ddel [of f k d]] by simp
qed simp

lemma held_taken: "dict_ok d \<Longrightarrow> dget d k = Some v \<Longrightarrow> held_values f d = add_mset (f v) (held_values f (ddel k d))"
proof (induction d)
  case (Cons p d)
  show ?case
  proof (cases "fst p = k")
    case True
    then have "k \<notin> fst ` set d" using Cons.prems(1) by (auto simp: dict_ok_def)
    then have "ddel k d = d" by (force simp: AList.delete_eq filter_id_conv)
    then show ?thesis using True Cons.prems(2) by (cases p) (simp add: AList.delete_eq held_values_def)
  next
    case False
    then have "dget d k = Some v" "dict_ok d" using Cons.prems by (cases p; auto simp: dict_ok_def)+
    then show ?thesis using Cons.IH False by (cases p) (simp add: AList.delete_eq held_values_def)
  qed
qed simp

lemma held_dset: "held_values f (dset k v d) \<subseteq># add_mset (f v) (held_values f d)"
  by (induction d) (auto simp: held_values_def intro: subset_mset.order_trans)

lemma held_move_entry: "dict_ok d \<Longrightarrow> held_values f (move_entry taken old new key d) \<subseteq># held_values f d"
  using held_ddel [of f key d] held_taken [of d key _ f] held_dset [of f _ _ "ddel key d"]
  by (auto simp: move_entry_def split: option.splits)

lemma held_move_entries: "dict_ok d \<Longrightarrow> held_values f (move_entries taken old new d) \<subseteq># held_values f d"
proof -
  assume "dict_ok d"
  then have "dict_ok (fold (move_entry taken old new) ks d) \<and> held_values f (fold (move_entry taken old new) ks d) \<subseteq># held_values f d" for ks
  proof (induction ks arbitrary: d)
    case (Cons k ks)
    have "dict_ok (move_entry taken old new k d)" using Cons.prems by (auto simp: move_entry_def split: option.splits)
    from Cons.IH [OF this] show ?case
      using held_move_entry [OF Cons.prems, of f taken old new k] by (auto intro: subset_mset.order_trans)
  qed simp
  then show ?thesis by (simp add: move_entries_def)
qed

text \<open>What a \<open>Restore\<close> still holds: the results of steps and those of loops.\<close>

definition restore_ok :: "restore \<Rightarrow> bool" where
  "restore_ok rt \<longleftrightarrow> dict_ok (rt_outputs rt) \<and> dict_ok (rt_loops rt)"

definition less_held :: "restore \<Rightarrow> restore \<Rightarrow> bool" where
  "less_held rt rt' \<longleftrightarrow> restore_ok rt' \<and> held_values id (rt_outputs rt') \<subseteq># held_values id (rt_outputs rt) \<and>
     held_values le_feedback (rt_loops rt') \<subseteq># held_values le_feedback (rt_loops rt)"

lemma less_held_trans: "less_held a b \<Longrightarrow> less_held b c \<Longrightarrow> less_held a c"
  by (auto simp: less_held_def intro: subset_mset.order_trans)

lemma less_held_refl: "restore_ok rt \<Longrightarrow> less_held rt rt"
  by (simp add: less_held_def)

lemma dict_ok_map_snd: "dict_ok (map (map_prod id g) d) = dict_ok d"
  by (simp add: dict_ok_def comp_def)

lemma rename_entries_held: "restore_ok rt \<Longrightarrow> less_held rt (rename_entries old new rt)"
proof -
  assume ok: "restore_ok rt"
  define taken where "taken = list_ex (\<lambda>k. k = new \<or> startswith (new @ ''.'') k) (dkeys (rt_outputs rt) @ dkeys (rt_loops rt) @ rt_failed rt)"
  define re where "re = (\<lambda>e :: loop_entry. case moved old new (le_target e) of None \<Rightarrow> e | Some t \<Rightarrow> e\<lparr>le_target := t\<rparr>)"
  have outs: "rt_outputs (rename_entries old new rt) = move_entries taken old new (rt_outputs rt)"
    and loops: "rt_loops (rename_entries old new rt) = map (map_prod id re) (move_entries taken old new (rt_loops rt))"
    by (simp_all add: rename_entries_def Let_def taken_def re_def)
  have "le_feedback (re e) = le_feedback e" for e by (simp add: re_def split: option.splits)
  then have "held_values le_feedback (map (map_prod id re) d) = held_values le_feedback d" for d
    by (induction d) (auto simp: held_values_def)
  then show ?thesis
    using ok held_move_entries [of "rt_outputs rt" id] held_move_entries [of "rt_loops rt" le_feedback]
    by (simp add: less_held_def restore_ok_def outs loops dict_ok_map_snd move_entries_ok)
qed

lemma rename_all_held: "restore_ok rt \<Longrightarrow> less_held rt (rename_all pfx ren rt)"
proof (induction pfx ren rt rule: rename_all.induct)
  case (2 pfx name olds rest rt)
  have "less_held rt (fold (\<lambda>old. rename_entries (pfx @ old) (pfx @ name)) olds rt)" if "restore_ok rt" for rt
    using less_held_refl [OF that]
  proof (rule fold_keeps [of "less_held rt", rotated])
    fix x s assume "less_held rt s"
    then show "less_held rt (rename_entries (pfx @ x) (pfx @ name) s)"
      using rename_entries_held less_held_trans by (meson less_held_def)
  qed
  then have one: "less_held rt (fold (\<lambda>old. rename_entries (pfx @ old) (pfx @ name)) olds rt)" using "2.prems" .
  then have "less_held (fold (\<lambda>old. rename_entries (pfx @ old) (pfx @ name)) olds rt)
      (rename_all pfx rest (fold (\<lambda>old. rename_entries (pfx @ old) (pfx @ name)) olds rt))"
    by (intro "2.IH") (simp add: less_held_def)
  with one show ?case by (simp add: less_held_trans)
qed (simp add: less_held_refl)

lemma forget_inside_held:
  assumes "less_held rt s"
  shows "less_held rt (forget_inside path s)"
proof -
  let ?keep = "\<lambda>(k, _). \<not> startswith (path @ ''.'') k"
  have "restore_ok (forget_inside path s)" using assms by (auto simp: less_held_def restore_ok_def forget_inside_def drop_under_def)
  moreover have "held_values id (rt_outputs (forget_inside path s)) \<subseteq># held_values id (rt_outputs s)"
      "held_values le_feedback (rt_loops (forget_inside path s)) \<subseteq># held_values le_feedback (rt_loops s)"
    by (simp_all add: forget_inside_def drop_under_def held_filter)
  ultimately have "less_held s (forget_inside path s)" by (simp add: less_held_def)
  with assms show ?thesis by (rule less_held_trans)
qed

lemma fold_forget_held: "restore_ok rt \<Longrightarrow> less_held rt (fold (\<lambda>name. forget_inside (pfx @ name)) names rt)"
  using less_held_refl by (intro fold_keeps [of "less_held rt"]) (auto intro: forget_inside_held)

lemma claim_held:
  assumes c: "claim pfx deps ren rt = (c, rt')" and ok: "restore_ok rt"
  shows "restore_ok rt' \<and> held_values id (cl_outputs c) + held_values id (rt_outputs rt') \<subseteq># held_values id (rt_outputs rt) \<and>
    held_values id (cl_loop_feedback c) + held_values le_feedback (rt_loops rt') \<subseteq># held_values le_feedback (rt_loops rt)"
proof -
  define rt1 where "rt1 = rename_all pfx ren rt"
  have l1: "less_held rt rt1" unfolding rt1_def by (rule rename_all_held [OF ok])
  let ?mine = "\<lambda>p. own pfx deps (fst p)"
  define rt2 where "rt2 = rt1\<lparr>rt_outputs := filter (\<lambda>p. \<not> ?mine p) (rt_outputs rt1), rt_loops := filter (\<lambda>p. \<not> ?mine p) (rt_loops rt1),
                  rt_failed := filter (\<lambda>p. p \<notin> set (map (\<lambda>name. pfx @ name) (dkeys deps))) (rt_failed rt1)\<rparr>"
  have rt': "rt' = fold (\<lambda>name. forget_inside (pfx @ name)) (dkeys (cl_outputs c)) rt2"
    using c by (auto simp: claim_def Let_def rt1_def rt2_def)
  have outs: "cl_outputs c = dpops (reruns pfx deps rt1) (map (\<lambda>(k, r). (drop (length pfx) k, r)) (filter ?mine (rt_outputs rt1)))"
    and fb: "cl_loop_feedback c = map (\<lambda>(k, e). (drop (length pfx) k, le_feedback e)) (filter ?mine (rt_loops rt1))"
    using c by (auto simp: claim_def Let_def rt1_def)
  have cut: "held_values id (map (\<lambda>(k, r). (g k, h r)) d) = held_values h d" for g and h :: "'a \<Rightarrow> 'b" and d
    by (induction d) (auto simp: held_values_def)
  have keep_values: "held_values id (map (\<lambda>(k, r). (g k, r)) d) = held_values id d" for g d
    by (induction d) (auto simp: held_values_def)
  have "restore_ok rt2" using l1 by (auto simp: less_held_def restore_ok_def rt2_def)
  then have l2: "less_held rt2 rt'" unfolding rt' by (rule fold_forget_held)
  have "held_values id (cl_outputs c) \<subseteq># held_values id (filter ?mine (rt_outputs rt1))"
    unfolding outs
    using held_dpops [of id "reruns pfx deps rt1" "map (\<lambda>(k, r). (drop (length pfx) k, r)) (filter ?mine (rt_outputs rt1))"]
    by (simp add: keep_values)
  moreover have "held_values id (rt_outputs rt') \<subseteq># held_values id (filter (\<lambda>p. \<not> ?mine p) (rt_outputs rt1))"
    using l2 by (simp add: less_held_def rt2_def)
  moreover have "held_values id (cl_loop_feedback c) = held_values le_feedback (filter ?mine (rt_loops rt1))"
    unfolding fb by (rule cut)
  moreover have "held_values le_feedback (rt_loops rt') \<subseteq># held_values le_feedback (filter (\<lambda>p. \<not> ?mine p) (rt_loops rt1))"
    using l2 by (simp add: less_held_def rt2_def)
  ultimately have "held_values id (cl_outputs c) + held_values id (rt_outputs rt') \<subseteq># held_values id (rt_outputs rt1)"
      "held_values id (cl_loop_feedback c) + held_values le_feedback (rt_loops rt') \<subseteq># held_values le_feedback (rt_loops rt1)"
    unfolding held_split [of id ?mine "rt_outputs rt1", symmetric] held_split [of le_feedback ?mine "rt_loops rt1", symmetric]
    by (auto intro!: subset_mset.add_mono)
  moreover have "held_values id (rt_outputs rt1) \<subseteq># held_values id (rt_outputs rt)"
      "held_values le_feedback (rt_loops rt1) \<subseteq># held_values le_feedback (rt_loops rt)" "restore_ok rt'"
    using l1 l2 by (simp_all add: less_held_def)
  ultimately show ?thesis by (blast intro: subset_mset.order_trans)
qed

lemma held_chain: "a + y \<subseteq># x \<Longrightarrow> b + z \<subseteq># y \<Longrightarrow> (a + b) + z \<subseteq># x" for a :: "'a multiset"
  by (metis add.assoc subset_mset.add_left_mono subset_mset.order_trans)

section \<open>Nothing twice\<close>

text \<open>One claim after the other: each with the place of its graph, the graph's nodes and their earlier names.\<close>

fun claims :: "(string \<times> string list dict \<times> string list dict) list \<Rightarrow> restore \<Rightarrow> claimed list \<times> restore" where
  "claims [] rt = ([], rt)"
| "claims ((pfx, deps, ren) # cs) rt =
     (let (c, rt) = claim pfx deps ren rt; (rest, rt) = claims cs rt in (c # rest, rt))"

text \<open>C10: No result is given back twice. Whatever graphs claim, one after the other, again and again, with
  nodes renamed or not, the results they get, together with those still kept, are among the results that were
  kept at the start, each as often as it was kept there; the same holds for the results kept for loops.\<close>

theorem claim_once:
  assumes "claims cs rt = (got, rt')" and "dict_ok (rt_outputs rt)" and "dict_ok (rt_loops rt)"
  shows "mset (concat (map (\<lambda>c. map snd (cl_outputs c)) got)) + mset (map snd (rt_outputs rt')) \<subseteq># mset (map snd (rt_outputs rt)) \<and>
    mset (concat (map (\<lambda>c. map snd (cl_loop_feedback c)) got)) + mset (map (le_feedback \<circ> snd) (rt_loops rt'))
      \<subseteq># mset (map (le_feedback \<circ> snd) (rt_loops rt))"
  using assms
proof (induction cs arbitrary: rt got)
  case (Cons p cs)
  obtain pfx deps ren where p: "p = (pfx, deps, ren)" by (metis prod.collapse)
  obtain c rt1 where c: "claim pfx deps ren rt = (c, rt1)" by fastforce
  obtain rest where rest: "claims cs rt1 = (rest, rt')" "got = c # rest" using Cons.prems(1) p c by (auto split: prod.splits)
  have h: "restore_ok rt1" "mset (map snd (cl_outputs c)) + mset (map snd (rt_outputs rt1)) \<subseteq># mset (map snd (rt_outputs rt))"
      "mset (map snd (cl_loop_feedback c)) + mset (map (le_feedback \<circ> snd) (rt_loops rt1)) \<subseteq># mset (map (le_feedback \<circ> snd) (rt_loops rt))"
    using claim_held [OF c] Cons.prems(2,3) by (auto simp: restore_ok_def held_values_def)
  then have "mset (concat (map (\<lambda>c. map snd (cl_outputs c)) rest)) + mset (map snd (rt_outputs rt')) \<subseteq># mset (map snd (rt_outputs rt1))"
      "mset (concat (map (\<lambda>c. map snd (cl_loop_feedback c)) rest)) + mset (map (le_feedback \<circ> snd) (rt_loops rt'))
        \<subseteq># mset (map (le_feedback \<circ> snd) (rt_loops rt1))"
    using Cons.IH [OF rest(1)] by (simp_all add: restore_ok_def comp_def)
  then show ?case
    unfolding rest(2) list.map concat.simps mset_append by (intro conjI held_chain [OF h(2)] held_chain [OF h(3)])
qed simp

section \<open>Witness\<close>

text \<open>A node that was renamed takes the result kept under its earlier name, and a second graph that names the same
  earlier name gets nothing.\<close>

theorem claim_once_witness:
  "\<exists>c c' rt'. claims [([], [(''draft'', [])], [(''draft'', [''plan''])]), ([], [(''sketch'', [])], [(''sketch'', [''plan''])])]
      (new_restore [(''plan'', plain_result COMPLETED)] [] [] None [] []) = ([c, c'], rt') \<and>
     cl_outputs c = [(''draft'', plain_result COMPLETED)] \<and> cl_outputs c' = []"
proof -
  let ?rt = "new_restore [(''plan'', plain_result COMPLETED)] [] [] None [] []"
  let ?cs = "[([], [(''draft'', [])], [(''draft'', [''plan''])]), ([], [(''sketch'', [])], [(''sketch'', [''plan''])])]"
  obtain c rt1 where c1: "claim [] [(''draft'', [])] [(''draft'', [''plan''])] ?rt = (c, rt1)" by fastforce
  obtain c' rt' where c2: "claim [] [(''sketch'', [])] [(''sketch'', [''plan''])] rt1 = (c', rt')" by fastforce
  have cl: "claims ?cs ?rt = ([c, c'], rt')" using c1 c2 by simp
  have "map cl_outputs (take 1 (fst (claims ?cs ?rt))) = [[(''draft'', plain_result COMPLETED)]]" by code_simp
  then have c: "cl_outputs c = [(''draft'', plain_result COMPLETED)]" using cl by simp
  have "dict_ok (rt_outputs ?rt)" "dict_ok (rt_loops ?rt)" "rt_outputs ?rt = [(''plan'', plain_result COMPLETED)]"
    by (simp_all add: new_restore_def dict_ok_def)
  with claim_once [OF cl] c have "cl_outputs c' = []" by simp
  with cl c show ?thesis by blast
qed

end
