(* ===== verification/Inputs.thy ===== *)
theory Inputs
  imports Conditions
begin

text \<open>
  How a node's inputs are resolved from the run's inputs and earlier results, and how results are
  read back: \<^verbatim>\<open>_resolve_inputs\<close>, \<^verbatim>\<open>_resolve_single_input\<close>, \<^verbatim>\<open>_unserved_reason\<close>,
  \<^verbatim>\<open>_inject_strategy_context\<close>, \<^verbatim>\<open>_required_file_missing\<close>, \<^verbatim>\<open>_failure_reason\<close>, \<^verbatim>\<open>_failed_node_names\<close> and
  \<^verbatim>\<open>_get_final_output\<close> of \<^verbatim>\<open>temper_ai/stage/executor.py\<close>.

  Where the code appends to the list \<open>unresolved\<close>, the model returns what is appended. A \<open>Status\<close> is
  a \<open>StrEnum\<close>, so as an input value it is its text.
\<close>

section \<open>Reading failures\<close>

text \<open>The line breaks of \<open>str.splitlines\<close>, up to code point 255.\<close>

definition is_line_break :: "char \<Rightarrow> bool" where
  "is_line_break c = ((of_char c :: nat) \<in> {10, 11, 12, 13, 28, 29, 30, 133})"

text \<open>
  The lines of a text. A carriage return with a line feed makes an additional empty line here, which
  the only caller drops with the other blank lines.
\<close>

fun split_lines :: "string \<Rightarrow> string list" where
  "split_lines [] = [[]]"
| "split_lines (c # cs) =
     (if is_line_break c then [] # split_lines cs
      else case split_lines cs of [] \<Rightarrow> [[c]] | l # ls \<Rightarrow> (c # l) # ls)"

definition FAILURE_TAIL_LINES :: nat where "FAILURE_TAIL_LINES = 3"
definition FAILURE_MAX_CHARS :: nat where "FAILURE_MAX_CHARS = 600"

text \<open>The reason a failed node gives for itself.\<close>

definition own_failure :: "string \<Rightarrow> string \<Rightarrow> string option \<Rightarrow> string" where
  "own_failure path output error =
     (let lines = filter (\<lambda>l. l \<noteq> []) (map strip (split_lines output));
          kept = filter (\<lambda>l. l \<notin> {''STDOUT:'', ''STDERR:''}) lines;
          tail = drop (length kept - FAILURE_TAIL_LINES) kept;
          err = (case error of None \<Rightarrow> ''failed'' | Some e \<Rightarrow> if e = [] then ''failed'' else e);
          reason = join '': '' (filter (\<lambda>p. p \<noteq> []) [path, err]) @
            (if tail \<noteq> [] then '' -- '' @ join '' | '' tail else [])
      in if length reason \<le> FAILURE_MAX_CHARS then reason else take (FAILURE_MAX_CHARS - 3) reason @ ''...'')"

fun failure_reason :: "node_result \<Rightarrow> string \<Rightarrow> string option"
  and failure_reason_in :: "(string \<times> node_result) list \<Rightarrow> string \<Rightarrow> string option" where
  "failure_reason (NodeResult st out so ars nrs c t d e m) path =
     (case failure_reason_in nrs path of
        Some found \<Rightarrow> Some found
      | None \<Rightarrow> if st \<noteq> FAILED then None else Some (own_failure path out e))"
| "failure_reason_in [] path = None"
| "failure_reason_in ((name, child) # nrs) path =
     (case failure_reason child (if path \<noteq> [] then path @ ''/'' @ name else name) of
        Some found \<Rightarrow> if found \<noteq> [] then Some found else failure_reason_in nrs path
      | None \<Rightarrow> failure_reason_in nrs path)"

fun failed_in :: "node_result \<Rightarrow> string \<Rightarrow> string list"
  and failed_node_names :: "(string \<times> node_result) list \<Rightarrow> string \<Rightarrow> string list" where
  "failed_in (NodeResult st out so ars nrs c t d e m) path =
     (if st = FAILED then [path] else []) @ failed_node_names nrs (path @ ''/'')"
| "failed_node_names [] pfx = []"
| "failed_node_names ((name, r) # outs) pfx = failed_in r (pfx @ name) @ failed_node_names outs pfx"

section \<open>Why a source has nothing to give\<close>

text \<open>
  The search of \<open>_unserved_reason\<close>: a stack of names, top first, and the names seen. It answers
  whether the node is found among the dependencies of anything reached.
\<close>

lemma unseen_decreases:
  "dhas name nm \<Longrightarrow> name \<notin> set seen \<Longrightarrow>
     card (fst ` set nm - set (name # seen)) < card (fst ` set nm - set seen)"
  by (rule psubset_card_mono) (auto simp: dhas_keys)

function feeds_back :: "node dict \<Rightarrow> string \<Rightarrow> string list \<Rightarrow> string list \<Rightarrow> bool" where
  "feeds_back node_map node_name frontier seen =
     (case frontier of
        [] \<Rightarrow> False
      | name # rest \<Rightarrow>
          if name \<in> set seen then feeds_back node_map node_name rest seen
          else let deps = (case dget node_map name of None \<Rightarrow> [] | Some n \<Rightarrow> deps_of n)
               in if node_name \<in> set deps then True
                  else feeds_back node_map node_name (rev deps @ rest) (name # seen))"
  by pat_completeness auto
termination
proof (relation "measures [\<lambda>(nm, t, fr, seen). card (fst ` set nm - set seen), \<lambda>(nm, t, fr, seen). length fr]", goal_cases)
  case (3 nm t fr seen name rest deps)
  show ?case
  proof (cases "dhas name nm")
    case True
    then show ?thesis using 3 unseen_decreases [of name nm seen] by simp
  next
    case False
    then have "deps = []" and "fst ` set nm - set (name # seen) = fst ` set nm - set seen"
      using 3 False [unfolded dhas_keys] by (auto simp: dhas_def)
    then show ?thesis using 3 by simp
  qed
qed auto

declare feeds_back.simps [simp del]

definition unserved_reason :: "string \<Rightarrow> string \<Rightarrow> node dict option \<Rightarrow> string option" where
  "unserved_reason node_name source_node graph =
     (case graph of
        None \<Rightarrow> Some ''no such node''
      | Some node_map \<Rightarrow>
          if \<not> dhas source_node node_map then Some ''no such node in this graph''
          else if source_node = node_name
            then (case dget node_map node_name of
                    Some n \<Rightarrow> if nc_loop_to (config n) = Some node_name then None
                              else Some ''a node cannot read its own output unless it loops to itself''
                  | None \<Rightarrow> None)
          else if feeds_back node_map node_name [source_node] [] then None
          else Some (''`'' @ source_node @ ''` has not run yet; is it missing from depends_on?''))"

section \<open>Resolving one source\<close>

text \<open>\<open>^[A-Za-z_][A-Za-z0-9_]*$\<close> on the part before the first dot; \<open>$\<close> also matches before a final line break.\<close>

definition looks_like_node_ref :: "string \<Rightarrow> bool" where
  "looks_like_node_ref source =
     (let head = hd (split_dot source)
      in is_ident head \<or> head \<noteq> [] \<and> chr_is 10 (last head) \<and> is_ident (butlast head))"

text \<open>\<open>int(key)\<close> for a decimal literal; digit underscores are not read.\<close>

fun digits_int :: "string \<Rightarrow> int \<Rightarrow> int" where
  "digits_int [] acc = acc"
| "digits_int (c # cs) acc = digits_int cs (acc * 10 + int (of_char c) - 48)"

definition int_of_str :: "string \<Rightarrow> int option" where
  "int_of_str s0 =
     (let s = strip s0;
          (sign, t) = (case s of c # cs \<Rightarrow> if c = CHR ''-'' then (-1, cs) else if c = CHR ''+'' then (1, cs) else (1, s)
                       | [] \<Rightarrow> (1::int, s))
      in if t \<noteq> [] \<and> list_all is_digit t then Some (sign * digits_int t 0) else None)"

text \<open>\<open>xs[i]\<close> with Python's negative indices.\<close>

definition py_index :: "'a list \<Rightarrow> int \<Rightarrow> 'a option" where
  "py_index xs i =
     (let n = int (length xs)
      in if 0 \<le> i \<and> i < n then Some (xs ! nat i)
         else if - n \<le> i \<and> i < 0 then Some (xs ! nat (n + i)) else None)"

text \<open>The walk below \<open>input.field\<close>, through dictionaries and lists.\<close>

fun walk_input :: "pyval \<Rightarrow> string list \<Rightarrow> pyval" where
  "walk_input v [] = v"
| "walk_input (PDict d) (k # ks) = walk_input (dget_or d k PNone) ks"
| "walk_input (PList xs) (k # ks) =
     (case int_of_str k of
        None \<Rightarrow> PNone
      | Some i \<Rightarrow> (case py_index xs i of None \<Rightarrow> PNone | Some v \<Rightarrow> walk_input v ks))"
| "walk_input _ (k # ks) = PNone"

definition structured_of :: "node_result \<Rightarrow> pyval dict" where
  "structured_of r = (case nr_structured_output r of None \<Rightarrow> [] | Some d \<Rightarrow> d)"

text \<open>\<open>stage.child...\<close>: a reference into a stage's own results.\<close>

definition resolve_child :: "node_result \<Rightarrow> string list \<Rightarrow> pyval" where
  "resolve_child child rest =
     (case rest of
        [] \<Rightarrow> PStr (nr_output child)
      | child_field # keys \<Rightarrow>
          if child_field = ''output'' then PStr (nr_output child)
          else if child_field = ''status'' then PStr (status_value (nr_status child))
          else if child_field = ''structured'' \<and> keys \<noteq> []
            then (if structured_of child = [] then PNone else walk_keys (PDict (structured_of child)) keys)
          else PStr (nr_output child))"

text \<open>A reference to a node that has a result: the value, and what could not be served.\<close>

definition resolve_from_result :: "string \<Rightarrow> string \<Rightarrow> node_result \<Rightarrow> string \<Rightarrow> string list \<Rightarrow> pyval \<times> string list" where
  "resolve_from_result local_name source r field rest =
     (if field = ''output'' then (PStr (nr_output r), [])
      else if field = ''status'' then (PStr (status_value (nr_status r)), [])
      else if field = ''error'' then (opt_str (nr_error r), [])
      else if field = ''failure'' then (opt_str (failure_reason r []), [])
      else if field = ''structured'' \<and> rest \<noteq> []
        then (if structured_of r = []
              then (PNone, if nr_status r = SKIPPED \<and> error_text r = [] then []
                           else [local_name @ '' <- '' @ source @ '' (node produced no structured output)''])
              else let v = walk_keys (PDict (structured_of r)) rest
                   in (v, if v = PNone then [local_name @ '' <- '' @ source @ '' (field not found)''] else []))
      else case dget (nr_node_results r) field of
             Some child \<Rightarrow> (resolve_child child rest, [])
           | None \<Rightarrow> (PNone, []))"

definition resolve_single_input :: "string \<Rightarrow> string \<Rightarrow> pyval \<Rightarrow> pyval dict \<Rightarrow> node_result dict \<Rightarrow> node dict option
    \<Rightarrow> pyval \<times> string list" where
  "resolve_single_input node_name local_name source input_data node_outputs graph =
     (case source of
        PStr s \<Rightarrow>
          (case split_dot s of
             source_node # field # rest \<Rightarrow>
               if \<not> looks_like_node_ref s then (PStr s, [])
               else if source_node \<in> {''workflow'', ''input''}
                 then (walk_input (dget_or input_data field PNone) rest, [])
               else (case dget node_outputs source_node of
                       None \<Rightarrow>
                         (PNone, case unserved_reason node_name source_node graph of
                            None \<Rightarrow> []
                          | Some reason \<Rightarrow> [local_name @ '' <- '' @ s @ '' ('' @ reason @ '')''])
                     | Some r \<Rightarrow> resolve_from_result local_name s r field rest)
           | _ \<Rightarrow> (dget_or input_data s (PStr s), []))
      | v \<Rightarrow> (v, []))"

section \<open>All inputs of a node\<close>

definition dep_texts :: "string list \<Rightarrow> node_result dict \<Rightarrow> string list" where
  "dep_texts deps outs =
     concat (map (\<lambda>d. case dget outs d of
        None \<Rightarrow> []
      | Some r \<Rightarrow> if nr_output r = [] then [] else [''['' @ d @ '']:'' @ [CHR 0x0A] @ nr_output r]) deps)"

definition blank_line :: string where
  "blank_line = [CHR 0x0A, CHR 0x0A]"

definition resolve_inputs :: "node \<Rightarrow> pyval dict \<Rightarrow> node_result dict \<Rightarrow> node_result dict \<Rightarrow> node dict option
    \<Rightarrow> pyval dict \<times> string list" where
  "resolve_inputs n input_data node_outputs loop_feedback graph =
     (let effective_outputs = dmerge loop_feedback node_outputs
      in case nc_input_map (config n) of
           Some (e # es) \<Rightarrow>
             (let served = map (\<lambda>(local_name, source).
                    (local_name, resolve_single_input (name_of n) local_name source input_data effective_outputs graph)) (e # es)
              in (map (\<lambda>(k, v, u). (k, v)) served, concat (map (\<lambda>(k, v, u). u) served)))
         | _ \<Rightarrow>
             (let dep_outputs = dep_texts (deps_of n) effective_outputs
              in (if dep_outputs \<noteq> [] then dset ''other_agents'' (PStr (join blank_line dep_outputs)) input_data
                  else input_data, [])))"

definition inject_strategy_context :: "node \<Rightarrow> pyval dict \<Rightarrow> node_result dict \<Rightarrow> pyval dict" where
  "inject_strategy_context n input_data node_outputs =
     (if \<not> truthy (dget_or (agent_config n) ''_receives_strategy_context'' PNone) then input_data
      else let dep_outputs = dep_texts (deps_of n) node_outputs
           in if dep_outputs \<noteq> [] then dset ''_strategy_context'' (PStr (join blank_line dep_outputs)) input_data
              else input_data)"

section \<open>Files a completed node owes\<close>

text \<open>\<open>isfile\<close> answers for the file system.\<close>

fun missing_file :: "(string \<Rightarrow> bool) \<Rightarrow> string \<Rightarrow> pyval list \<Rightarrow> pyval dict \<Rightarrow> node_result dict \<Rightarrow> node dict option
    \<Rightarrow> string option" where
  "missing_file isfile node_name [] input_data outs graph = None"
| "missing_file isfile node_name (entry # entries) input_data outs graph =
     (let (source, when_cond) = (case entry of
            PDict d \<Rightarrow> (dget_or d ''path'' PNone, dget_or d ''when'' PNone) | _ \<Rightarrow> (entry, PNone));
          owed = (if truthy when_cond
                  then (case when_cond of PDict c \<Rightarrow> evaluate_condition c outs
                        | _ \<Rightarrow> raise AttributeError (quoted (type_name when_cond) @ '' object has no attribute '' @ quoted ''get''))
                  else Inr True)
      in case owed of
           Inl e \<Rightarrow> Some (''it cannot tell whether it owes '' @ py_str source @ '': '' @ exn_str e)
         | Inr False \<Rightarrow> missing_file isfile node_name entries input_data outs graph
         | Inr True \<Rightarrow>
             (case fst (resolve_single_input node_name ''required_files'' source input_data outs graph) of
                PStr path \<Rightarrow>
                  if strip path = [] then Some (''it completed without saying where '' @ py_str source @ '' is'')
                  else if \<not> isfile (strip path)
                    then Some (''it completed without writing '' @ strip path @ '' ('' @ py_str source @ '')'')
                  else missing_file isfile node_name entries input_data outs graph
              | _ \<Rightarrow> Some (''it completed without saying where '' @ py_str source @ '' is'')))"

definition required_file_missing :: "(string \<Rightarrow> bool) \<Rightarrow> node \<Rightarrow> node_result \<Rightarrow> pyval dict \<Rightarrow> node_result dict \<Rightarrow> node dict option
    \<Rightarrow> string option" where
  "required_file_missing isfile n r input_data node_outputs graph =
     (case nc_required_files (config n) of
        None \<Rightarrow> None
      | Some entries \<Rightarrow> if nr_status r \<noteq> COMPLETED then None
                        else missing_file isfile (name_of n) entries input_data node_outputs graph)"

section \<open>The output of a graph\<close>

definition get_final_output :: "node list \<Rightarrow> node_result dict \<Rightarrow> node_result option" where
  "get_final_output nodes node_outputs =
     (let completed = concat (map (\<lambda>n. case dget node_outputs (name_of n) of
            None \<Rightarrow> [] | Some r \<Rightarrow> if nr_status r = SKIPPED then [] else [(n, r)]) nodes)
      in case completed of
           [] \<Rightarrow> None
         | [(n, r)] \<Rightarrow> Some r
         | _ \<Rightarrow>
             (let has_internal_deps = list_ex (\<lambda>n. list_ex (\<lambda>d. dhas d node_outputs) (deps_of n)) nodes;
                  last_result = snd (last completed);
                  combined_parts = concat (map (\<lambda>(n, r). if nr_output r = [] then []
                    else [''['' @ name_of n @ '']:'' @ [CHR 0x0A] @ nr_output r]) completed)
              in if has_internal_deps then Some last_result
                 else if combined_parts \<noteq> [] then Some (with_output (join blank_line combined_parts) last_result)
                 else Some last_result))"

section \<open>Lemmas\<close>

text \<open>The dependency relation of a graph.\<close>

definition dep_rel :: "node dict \<Rightarrow> (string \<times> string) set" where
  "dep_rel nm = {(a, b). \<exists>n. dget nm a = Some n \<and> b \<in> set (deps_of n)}"

lemma feeds_back_sound:
  "feeds_back nm t fr seen \<Longrightarrow> \<exists>a \<in> set fr. (a, t) \<in> (dep_rel nm)\<^sup>+"
proof (induction nm t fr seen rule: feeds_back.induct)
  case (1 nm t fr seen)
  show ?case
  proof (cases fr)
    case (Cons a rest)
    let ?deps = "case dget nm a of None \<Rightarrow> [] | Some n \<Rightarrow> deps_of n"
    have edge: "(a, d) \<in> dep_rel nm" if "d \<in> set ?deps" for d
      using that by (cases "dget nm a") (auto simp: dep_rel_def)
    consider "a \<in> set seen" | "a \<notin> set seen" "t \<in> set ?deps" | "a \<notin> set seen" "t \<notin> set ?deps" by blast
    then show ?thesis
    proof cases
      case 1
      then show ?thesis using "1.IH"(1) [OF Cons] "1.prems" Cons by (auto simp: feeds_back.simps [of nm t "a # rest"])
    next
      case 2
      then show ?thesis using edge Cons by auto
    next
      case 3
      then have "feeds_back nm t (rev ?deps @ rest) (a # seen)"
        using "1.prems" Cons by (simp add: feeds_back.simps [of nm t "a # rest"] Let_def)
      then obtain b where "b \<in> set (rev ?deps @ rest)" "(b, t) \<in> (dep_rel nm)\<^sup>+"
        using "1.IH"(2) [OF Cons 3(1) refl 3(2)] by blast
      then show ?thesis using edge Cons by (auto intro: trancl_into_trancl2)
    qed
  qed (use "1.prems" in \<open>simp add: feeds_back.simps\<close>)
qed

text \<open>
  When the search answers no: with nothing of what was seen leading to the target except through the
  stack, nothing on the stack leads to it.
\<close>

lemma feeds_back_complete:
  assumes "\<not> feeds_back nm t fr seen"
    and "\<forall>x \<in> set seen. \<forall>y. (x, y) \<in> dep_rel nm \<longrightarrow> y \<noteq> t \<and> y \<in> set seen \<union> set fr"
  shows "\<exists>S. set seen \<union> set fr \<subseteq> S \<and> (\<forall>x \<in> S. \<forall>y. (x, y) \<in> dep_rel nm \<longrightarrow> y \<noteq> t \<and> y \<in> S)"
  using assms
proof (induction nm t fr seen rule: feeds_back.induct)
  case (1 nm t fr seen)
  show ?case
  proof (cases fr)
    case Nil
    then show ?thesis using "1.prems"(2) by (intro exI [of _ "set seen"]) auto
  next
    case (Cons a rest)
    let ?deps = "case dget nm a of None \<Rightarrow> [] | Some n \<Rightarrow> deps_of n"
    have edge: "(a, d) \<in> dep_rel nm \<longleftrightarrow> d \<in> set ?deps" for d
      by (cases "dget nm a") (auto simp: dep_rel_def)
    show ?thesis
    proof (cases "a \<in> set seen")
      case True
      have no: "\<not> feeds_back nm t rest seen"
        using "1.prems"(1) Cons True by (simp add: feeds_back.simps [of nm t "a # rest"])
      have "set seen \<union> set fr = set seen \<union> set rest" using Cons True by auto
      then show ?thesis using "1.IH"(1) [OF Cons True no] "1.prems"(2) by auto
    next
      case False
      then have t: "t \<notin> set ?deps" and no: "\<not> feeds_back nm t (rev ?deps @ rest) (a # seen)"
        using "1.prems"(1) Cons by (auto simp: feeds_back.simps [of nm t "a # rest"] Let_def split: if_splits)
      have "\<forall>x \<in> set (a # seen). \<forall>y. (x, y) \<in> dep_rel nm \<longrightarrow> y \<noteq> t \<and> y \<in> set (a # seen) \<union> set (rev ?deps @ rest)"
        using "1.prems"(2) Cons t edge by auto
      from "1.IH"(2) [OF Cons False refl t no this] obtain S
        where "set (a # seen) \<union> set (rev ?deps @ rest) \<subseteq> S" "\<forall>x \<in> S. \<forall>y. (x, y) \<in> dep_rel nm \<longrightarrow> y \<noteq> t \<and> y \<in> S"
        by blast
      then show ?thesis using Cons by (intro exI [of _ S]) auto
    qed
  qed
qed

lemma feeds_back_iff: "feeds_back nm t [a] [] \<longleftrightarrow> (a, t) \<in> (dep_rel nm)\<^sup>+"
proof
  assume "feeds_back nm t [a] []"
  then show "(a, t) \<in> (dep_rel nm)\<^sup>+" using feeds_back_sound by fastforce
next
  assume at: "(a, t) \<in> (dep_rel nm)\<^sup>+"
  show "feeds_back nm t [a] []"
  proof (rule ccontr)
    assume "\<not> feeds_back nm t [a] []"
    from feeds_back_complete [OF this] obtain S where a: "a \<in> S"
      and S: "\<forall>x \<in> S. \<forall>y. (x, y) \<in> dep_rel nm \<longrightarrow> y \<noteq> t \<and> y \<in> S" by auto
    have "y \<in> S \<and> y \<noteq> t" if "(a, y) \<in> (dep_rel nm)\<^sup>+" for y
      using that
    proof (induction rule: trancl_induct)
      case (base y)
      then show ?case using S a by blast
    next
      case (step y z)
      then show ?case using S by blast
    qed
    with at show False by blast
  qed
qed

text \<open>The results of a tree, by path.\<close>

inductive at_path :: "(string \<times> node_result) list \<Rightarrow> string \<Rightarrow> string \<Rightarrow> node_result \<Rightarrow> bool" where
  here: "(n, r) \<in> set outs \<Longrightarrow> at_path outs pfx (pfx @ n) r"
| below: "(n, q) \<in> set outs \<Longrightarrow> at_path (nr_node_results q) (pfx @ n @ ''/'') p r \<Longrightarrow> at_path outs pfx p r"

inductive_cases at_path_NilE: "at_path [] pfx p r"

lemma at_path_Cons:
  "at_path ((n, q) # outs) pfx p r \<longleftrightarrow>
     p = pfx @ n \<and> r = q \<or> at_path (nr_node_results q) (pfx @ n @ ''/'') p r \<or> at_path outs pfx p r"
  unfolding at_path.simps [of "(n, q) # outs"] at_path.simps [of outs] by auto

lemma failed_paths:
  "p \<in> set (failed_in q path) \<longleftrightarrow>
     p = path \<and> nr_status q = FAILED \<or> (\<exists>r. at_path (nr_node_results q) (path @ ''/'') p r \<and> nr_status r = FAILED)"
  "p \<in> set (failed_node_names outs pfx) \<longleftrightarrow> (\<exists>r. at_path outs pfx p r \<and> nr_status r = FAILED)"
proof (induction q path and outs pfx rule: failed_in_failed_node_names.induct)
  case (3 name r outs pfx)
  then show ?case by (auto simp: at_path_Cons)
qed (auto elim: at_path_NilE)

lemma own_failure_bounds: "own_failure path out e \<noteq> [] \<and> length (own_failure path out e) \<le> FAILURE_MAX_CHARS"
proof -
  have "\<exists>reason. reason \<noteq> [] \<and> own_failure path out e =
      (if length reason \<le> FAILURE_MAX_CHARS then reason else take (FAILURE_MAX_CHARS - 3) reason @ ''...'')"
    unfolding own_failure_def Let_def
    by (intro exI conjI, rule_tac [2] refl) (cases "path = []", auto split: option.splits)
  then obtain reason where "reason \<noteq> []" "own_failure path out e =
      (if length reason \<le> FAILURE_MAX_CHARS then reason else take (FAILURE_MAX_CHARS - 3) reason @ ''...'')" by blast
  then show ?thesis
    by (cases "length reason \<le> FAILURE_MAX_CHARS") (simp_all add: FAILURE_MAX_CHARS_def)
qed

lemma failure_reason_tree:
  "(case failure_reason q path of None \<Rightarrow> failed_in q path' = []
    | Some t \<Rightarrow> t \<noteq> [] \<and> length t \<le> FAILURE_MAX_CHARS \<and> failed_in q path' \<noteq> [])"
  "(case failure_reason_in outs pfx of None \<Rightarrow> failed_node_names outs pfx' = []
    | Some t \<Rightarrow> t \<noteq> [] \<and> length t \<le> FAILURE_MAX_CHARS \<and> failed_node_names outs pfx' \<noteq> [])"
proof (induction q path and outs pfx arbitrary: path' and pfx' rule: failure_reason_failure_reason_in.induct)
  case (1 st out so ars nrs c t d e m path)
  then show ?case using own_failure_bounds [of path out e] by (auto split: option.splits)
next
  case (3 name child nrs path)
  note child = "3.IH"(1) [of "pfx' @ name"]
  show ?case
  proof (cases "failure_reason child (if path \<noteq> [] then path @ ''/'' @ name else name)")
    case None
    then show ?thesis using child "3.IH"(2) [OF None, of pfx'] by (auto split: option.splits)
  next
    case (Some found)
    then show ?thesis using child by auto
  qed
qed simp

section \<open>What input resolution guarantees\<close>

text \<open>A source without a result is excused as a loop-back exactly when it depends on the node,
  directly or through other nodes; the search that decides it always ends.\<close>

theorem unserved_reason_loop_back:
  assumes "dhas source nm" and "source \<noteq> n"
  shows "unserved_reason n source (Some nm) = None \<longleftrightarrow> (source, n) \<in> (dep_rel nm)\<^sup>+"
  using assms by (simp add: unserved_reason_def feeds_back_iff)

text \<open>The failed nodes of a run are found at every depth: the list of failed paths holds exactly
  the paths, through stages of any nesting, whose result is a failure.\<close>

theorem failed_node_names_exact:
  "set (failed_node_names outs pfx) = {p. \<exists>r. at_path outs pfx p r \<and> nr_status r = FAILED}"
  using failed_paths(2) by blast

text \<open>A failure reason is given exactly when something at or under the node failed, and it is never
  empty and never longer than the limit.\<close>

theorem failure_reason_exact:
  "(failure_reason r path = None \<longleftrightarrow> failed_in r path = []) \<and>
   (\<forall>t. failure_reason r path = Some t \<longrightarrow> t \<noteq> [] \<and> length t \<le> FAILURE_MAX_CHARS)"
  using failure_reason_tree(1) [of r path path] by (auto split: option.splits)

text \<open>In an input map, a node's current result is used before what it said when it last sent the
  graph back; the feedback is used only when the node has no result.\<close>

theorem inputs_prefer_results:
  assumes "nc_input_map (config n) = Some m" and "dget m k = Some (PStr (src @ ''.output''))" and "dict_ok m"
    and "is_ident src" and "src \<notin> {''workflow'', ''input''}" and "dict_ok outs"
    and "dget outs src = Some r \<or> dget outs src = None \<and> dget fb src = Some r"
  shows "dget (fst (resolve_inputs n inp outs fb graph)) k = Some (PStr (nr_output r))"
proof -
  have nd: "CHR ''.'' \<notin> set src"
    using assms(4) by (auto simp: is_ident_def list_all_iff is_alpha_def is_digit_def Let_def split: list.splits)
  have sp: "split_dot (src @ ''.output'') = [src, ''output'']"
    using split_on_join_rest [of "CHR ''.''" src "''output''"] split_on_no_sep [OF nd] by simp
  have eff: "dget (dmerge fb outs) src = Some r"
    using assms(6,7) by (auto simp: dget_dmerge_ok split: option.splits)
  have one: "resolve_single_input nm k (PStr (src @ ''.output'')) inp (dmerge fb outs) graph = (PStr (nr_output r), [])" for nm
    using sp eff assms(4,5) by (simp add: resolve_single_input_def looks_like_node_ref_def resolve_from_result_def Let_def)
  have "m \<noteq> []" using assms(2) by auto
  then obtain e es where m: "m = e # es" by (cases m) auto
  have mp: "dget (map (\<lambda>(l, s). (l, fst (f l s))) xs) k = (case dget xs k of None \<Rightarrow> None | Some s \<Rightarrow> Some (fst (f k s)))"
    for f :: "string \<Rightarrow> pyval \<Rightarrow> pyval \<times> string list" and xs
    by (induction xs) auto
  have "fst (resolve_inputs n inp outs fb graph) =
      map (\<lambda>(l, s). (l, fst (resolve_single_input (name_of n) l s inp (dmerge fb outs) graph))) m"
    unfolding resolve_inputs_def assms(1) m by (auto simp: Let_def comp_def split_beta)
  then show ?thesis using mp [of "\<lambda>l s. resolve_single_input (name_of n) l s inp (dmerge fb outs) graph" m] assms(2) one by simp
qed

lemma missing_file_None:
  "missing_file isfile nm es inp outs graph = None \<Longrightarrow> PStr s \<in> set es \<Longrightarrow>
     \<exists>path. fst (resolve_single_input nm ''required_files'' (PStr s) inp outs graph) = PStr path \<and> isfile (strip path)"
  by (induction es) (auto simp: Let_def split: pyval.splits sum.splits bool.splits if_splits prod.splits)

text \<open>A completed node that is not failed for its files has written every file it owes without
  condition: each source of the list resolves to a path where a file is.\<close>

theorem required_files_written:
  assumes "required_file_missing isfile n r inp outs graph = None" and "nr_status r = COMPLETED"
    and "nc_required_files (config n) = Some es" and "PStr s \<in> set es"
  shows "\<exists>path. fst (resolve_single_input (name_of n) ''required_files'' (PStr s) inp outs graph) = PStr path \<and> isfile (strip path)"
  using assms missing_file_None by (simp add: required_file_missing_def)

section \<open>Witnesses\<close>

definition loop_graph :: "node dict" where
  "loop_graph = [(''plan'', simple_node ''plan'' []), (''build'', simple_node ''build'' [''plan'']),
     (''check'', simple_node ''check'' [''build''])]"

theorem unserved_reason_loop_back_witness: "(''check'', ''plan'') \<in> (dep_rel loop_graph)\<^sup>+"
proof -
  have "unserved_reason ''plan'' ''check'' (Some loop_graph) = None" by code_simp
  then show ?thesis
    using unserved_reason_loop_back [of "''check''" loop_graph "''plan''"] by (simp add: loop_graph_def dhas_def)
qed

theorem failure_reason_exact_witness:
  "failure_reason (error_result FAILED ''boom'') ''a'' = Some ''a: boom'' \<and> length ''a: boom'' \<le> FAILURE_MAX_CHARS"
proof -
  have "failure_reason (error_result FAILED ''boom'') ''a'' = Some ''a: boom''" by code_simp
  then show ?thesis using failure_reason_exact [of "error_result FAILED ''boom''" "''a''"] by blast
qed

theorem inputs_prefer_results_witness:
  "dget (fst (resolve_inputs (agent_node ((default_config ''n'')\<lparr>nc_input_map := Some [(''x'', PStr ''a.output'')]\<rparr>) []) []
     [(''a'', plain_result COMPLETED)] [(''a'', error_result FAILED ''old'')] None)) ''x'' = Some (PStr [])"
  using inputs_prefer_results [of "agent_node ((default_config ''n'')\<lparr>nc_input_map := Some [(''x'', PStr ''a.output'')]\<rparr>) []"
      "[(''x'', PStr ''a.output'')]" "''x''" "''a''" "[(''a'', plain_result COMPLETED)]" "plain_result COMPLETED"]
  by (simp add: is_ident_def is_alpha_def dict_ok_def)

theorem required_files_written_witness:
  "\<exists>path. fst (resolve_single_input ''n'' ''required_files'' (PStr ''input.f'') [(''f'', PStr ''/t'')] [] None) = PStr path \<and>
     (\<lambda>p. p = ''/t'') (strip path)"
proof -
  let ?n = "agent_node ((default_config ''n'')\<lparr>nc_required_files := Some [PStr ''input.f'']\<rparr>) []"
  have "required_file_missing (\<lambda>p. p = ''/t'') ?n (plain_result COMPLETED) [(''f'', PStr ''/t'')] [] None = None"
    by code_simp
  from required_files_written [OF this] show ?thesis by simp
qed

end
