(* ===== verification/Template.thy ===== *)
theory Template
  imports Inputs
begin

text \<open>
  Template nodes and the rendering of strings, \<^verbatim>\<open>temper_ai/stage/template_expansion.py\<close>.

  Jinja is a parameter: \<open>jinja preserve text scope\<close> renders a text, with unknown names kept when
  \<open>preserve\<close> is set and an error otherwise; its own errors have kind \<open>TemplateError\<close>. \<open>json_loads\<close>
  parses a JSON text, \<open>None\<close> when it is none. A \<open>deepcopy\<close> is the value itself.
\<close>

section \<open>The model\<close>

type_synonym jinja = "bool \<Rightarrow> string \<Rightarrow> pyval dict \<Rightarrow> string res"
type_synonym json = "string \<Rightarrow> pyval option"

definition is_isdigit :: "string \<Rightarrow> bool" where
  "is_isdigit s = (s \<noteq> [] \<and> list_all is_digit s)"

text \<open>The walk along an input path: every step must be a key of a dictionary.\<close>

fun walk_strict :: "pyval \<Rightarrow> string list \<Rightarrow> pyval option" where
  "walk_strict v [] = Some v"
| "walk_strict (PDict d) (k # ks) = (case dget d k of None \<Rightarrow> None | Some v \<Rightarrow> walk_strict v ks)"
| "walk_strict _ (k # ks) = None"

definition resolve_for_each :: "pyval \<Rightarrow> pyval dict \<Rightarrow> nat res" where
  "resolve_for_each spec inputs =
     (case spec of
        PBool b \<Rightarrow> Inr (if b then 1 else 0)
      | PInt i \<Rightarrow> if i < 0 then raise TemplateExpansionError (''for_each must be non-negative, got '' @ int_str i) else Inr (nat i)
      | PStr s \<Rightarrow>
          (let stripped = strip s
           in if is_isdigit stripped then Inr (nat (digits_int stripped 0))
              else case split_dot stripped of
                [] \<Rightarrow> raise IndexError ''list index out of range''
              | p # keys \<Rightarrow>
                  if p \<noteq> ''input''
                  then raise TemplateExpansionError (''for_each path must start with 'input.', got '' @ repr_str s)
                  else case walk_strict (PDict inputs) keys of
                    None \<Rightarrow> raise TemplateExpansionError (''for_each path '' @ repr_str s @ '' not found in inputs'')
                  | Some (PBool b) \<Rightarrow> raise TemplateExpansionError (''for_each path '' @ repr_str s @ '' resolved to bool; expected int'')
                  | Some (PInt i) \<Rightarrow>
                      if i < 0 then raise TemplateExpansionError (''for_each '' @ repr_str s @ '' resolved to negative int '' @ int_str i)
                      else Inr (nat i)
                  | Some v \<Rightarrow>
                      (case v of
                         PStr t \<Rightarrow> if is_isdigit (strip t) then Inr (nat (digits_int (strip t) 0))
                           else raise TemplateExpansionError (''for_each path '' @ repr_str s @ '' resolved to '' @ py_repr v @ '' (not an int)'')
                       | _ \<Rightarrow> raise TemplateExpansionError (''for_each path '' @ repr_str s @ '' resolved to '' @ py_repr v @ '' (not an int)'')))
      | _ \<Rightarrow> raise TemplateExpansionError (''for_each must be int or input-path string, got '' @ type_name spec))"

text \<open>A string leaf.\<close>

definition has_markers :: "string \<Rightarrow> bool" where
  "has_markers s = (has_sub ''{{'' s \<or> has_sub ''{%'' s)"

definition render_leaf :: "jinja \<Rightarrow> json \<Rightarrow> bool \<Rightarrow> pyval dict \<Rightarrow> string \<Rightarrow> pyval res" where
  "render_leaf jinja json_loads preserve ctx s =
     (if \<not> has_markers s then Inr (PStr s)
      else case jinja preserve s ctx of
        Inl e \<Rightarrow> if kind_of e = TemplateError
                 then raise TemplateExpansionError (''Jinja error rendering '' @ repr_str s @ '': '' @ exn_str e) else Inl e
      | Inr rendered \<Rightarrow>
          (case lstrip rendered of
             [] \<Rightarrow> Inr (PStr rendered)
           | c # _ \<Rightarrow> if c = CHR ''['' \<or> c = CHR ''{''
                      then (case json_loads rendered of Some v \<Rightarrow> Inr v | None \<Rightarrow> Inr (PStr rendered))
                      else Inr (PStr rendered)))"

fun render_strings :: "jinja \<Rightarrow> json \<Rightarrow> bool \<Rightarrow> pyval dict \<Rightarrow> pyval \<Rightarrow> pyval res"
  and render_list :: "jinja \<Rightarrow> json \<Rightarrow> bool \<Rightarrow> pyval dict \<Rightarrow> pyval list \<Rightarrow> pyval list res"
  and render_items :: "jinja \<Rightarrow> json \<Rightarrow> bool \<Rightarrow> pyval dict \<Rightarrow> (string \<times> pyval) list \<Rightarrow> (string \<times> pyval) list res" where
  "render_strings J L p ctx (PStr s) = render_leaf J L p ctx s"
| "render_strings J L p ctx (PDict d) = bind_res (render_items J L p ctx d) (\<lambda>d'. Inr (PDict d'))"
| "render_strings J L p ctx (PList xs) = bind_res (render_list J L p ctx xs) (\<lambda>ys. Inr (PList ys))"
| "render_strings J L p ctx v = Inr v"
| "render_list J L p ctx [] = Inr []"
| "render_list J L p ctx (x # xs) =
     bind_res (render_strings J L p ctx x) (\<lambda>y. bind_res (render_list J L p ctx xs) (\<lambda>ys. Inr (y # ys)))"
| "render_items J L p ctx [] = Inr []"
| "render_items J L p ctx ((k, v) # d) =
     bind_res (render_strings J L p ctx v) (\<lambda>w. bind_res (render_items J L p ctx d) (\<lambda>d'. Inr ((k, w) # d')))"

definition node_label :: "pyval dict \<Rightarrow> string" where
  "node_label d = py_repr (dget_or d ''name'' (PStr ''<unnamed>''))"

definition template_rounds :: "jinja \<Rightarrow> json \<Rightarrow> pyval dict \<Rightarrow> string \<Rightarrow> nat \<Rightarrow> pyval list \<Rightarrow> pyval list list res" where
  "template_rounds J L inputs loop_var n_times body =
     map_res (\<lambda>i. render_list J L True (dset loop_var (PInt (int i)) [(''input'', PDict inputs)]) body) [0..<n_times]"

definition expand_one_template :: "jinja \<Rightarrow> json \<Rightarrow> pyval dict \<Rightarrow> pyval dict \<Rightarrow> pyval list res" where
  "expand_one_template J L template_node inputs =
     (case dget_or template_node ''template'' PNone of
        PList (b # bs) \<Rightarrow>
          (case dget_or template_node ''for_each'' PNone of
             PNone \<Rightarrow> raise TemplateExpansionError (''template node '' @ node_label template_node @ '' is missing `for_each`'')
           | spec \<Rightarrow>
               bind_res (resolve_for_each spec inputs) (\<lambda>n_times.
                 case dget_or template_node ''as'' (PStr ''i'') of
                   PStr loop_var \<Rightarrow>
                     if \<not> is_ident loop_var
                     then raise TemplateExpansionError (''template `as` must be a valid identifier, got '' @ repr_str loop_var)
                     else bind_res (template_rounds J L inputs loop_var n_times (b # bs)) (\<lambda>rounds. Inr (concat rounds))
                 | v \<Rightarrow> raise TemplateExpansionError (''template `as` must be a valid identifier, got '' @ py_repr v)))
      | _ \<Rightarrow> raise TemplateExpansionError (''template node '' @ node_label template_node @ '' has empty or missing `template` list''))"

lemma size_of_value: "dget d k = Some (PList xs) \<Longrightarrow> size_list size xs < size_list (size_prod (\<lambda>x. 0) size) d"
  by (induction d) (auto split: if_splits)

text \<open>\<open>_walk\<close>\<close>

function walk_nodes :: "jinja \<Rightarrow> json \<Rightarrow> pyval dict option \<Rightarrow> pyval list \<Rightarrow> pyval list res" where
  "walk_nodes J L inputs [] = Inr []"
| "walk_nodes J L inputs (PDict d # ns) =
     bind_res
       (if dget_or d ''type'' PNone = PStr ''template''
        then (case inputs of
                None \<Rightarrow> raise TemplateExpansionError ''template node found but no inputs provided to loader''
              | Some inp \<Rightarrow> expand_one_template J L d inp)
        else (case dget d ''nodes'' of
                Some (PList inner) \<Rightarrow> bind_res (walk_nodes J L inputs inner) (\<lambda>ws. Inr [PDict (dset ''nodes'' (PList ws) d)])
              | _ \<Rightarrow> Inr [PDict d]))
       (\<lambda>out. bind_res (walk_nodes J L inputs ns) (\<lambda>rest. Inr (out @ rest)))"
| "walk_nodes J L inputs (PNone # ns) = bind_res (walk_nodes J L inputs ns) (\<lambda>rest. Inr (PNone # rest))"
| "walk_nodes J L inputs (PBool b # ns) = bind_res (walk_nodes J L inputs ns) (\<lambda>rest. Inr (PBool b # rest))"
| "walk_nodes J L inputs (PInt i # ns) = bind_res (walk_nodes J L inputs ns) (\<lambda>rest. Inr (PInt i # rest))"
| "walk_nodes J L inputs (PFloat q # ns) = bind_res (walk_nodes J L inputs ns) (\<lambda>rest. Inr (PFloat q # rest))"
| "walk_nodes J L inputs (PStr s # ns) = bind_res (walk_nodes J L inputs ns) (\<lambda>rest. Inr (PStr s # rest))"
| "walk_nodes J L inputs (PList xs # ns) = bind_res (walk_nodes J L inputs ns) (\<lambda>rest. Inr (PList xs # rest))"
  by pat_completeness auto
termination
  by (relation "measure (\<lambda>(J, L, inp, ns). size_list size ns)") (auto dest!: size_of_value)

definition expand_templates :: "jinja \<Rightarrow> json \<Rightarrow> pyval dict \<Rightarrow> pyval dict option \<Rightarrow> pyval dict res" where
  "expand_templates J L raw_workflow inputs =
     (case dget raw_workflow ''workflow'' of
        Some (PDict flow) \<Rightarrow>
          (case dget flow ''nodes'' of
             Some (PList nodes) \<Rightarrow>
               bind_res (walk_nodes J L inputs nodes) (\<lambda>new_nodes.
                 Inr (dset ''workflow'' (PDict (dset ''nodes'' (PList new_nodes) flow)) raw_workflow))
           | _ \<Rightarrow> Inr raw_workflow)
      | _ \<Rightarrow>
          (case dget raw_workflow ''nodes'' of
             Some (PList nodes) \<Rightarrow>
               bind_res (walk_nodes J L inputs nodes) (\<lambda>new_nodes. Inr (dset ''nodes'' (PList new_nodes) raw_workflow))
           | _ \<Rightarrow> Inr raw_workflow))"

section \<open>Lemmas\<close>

text \<open>A value without a marker in any string.\<close>

fun plain_val :: "pyval \<Rightarrow> bool"
  and plain_vals :: "pyval list \<Rightarrow> bool"
  and plain_items :: "(string \<times> pyval) list \<Rightarrow> bool" where
  "plain_val (PStr s) = (\<not> has_markers s)"
| "plain_val (PList xs) = plain_vals xs"
| "plain_val (PDict d) = plain_items d"
| "plain_val _ = True"
| "plain_vals [] = True"
| "plain_vals (x # xs) = (plain_val x \<and> plain_vals xs)"
| "plain_items [] = True"
| "plain_items ((k, v) # d) = (plain_val v \<and> plain_items d)"

lemma render_plain:
  "plain_val v \<Longrightarrow> render_strings J L p ctx v = Inr v"
  "plain_vals xs \<Longrightarrow> render_list J L p ctx xs = Inr xs"
  "plain_items d \<Longrightarrow> render_items J L p ctx d = Inr d"
  by (induction v and xs and d rule: plain_val_plain_vals_plain_items.induct) (simp_all add: render_leaf_def)

lemma render_keys: "render_items J L p ctx d = Inr d' \<Longrightarrow> map fst d' = map fst d"
  by (induction d arbitrary: d') (auto simp: bind_res_Inr split: prod.splits)

lemma render_list_length: "render_list J L p ctx xs = Inr ys \<Longrightarrow> length ys = length xs"
  by (induction xs arbitrary: ys) (auto simp: bind_res_Inr)

lemma dset_same: "dget d k = Some v \<Longrightarrow> dset k v d = d"
  by (induction d) (auto split: if_splits)

text \<open>No template among the nodes or in the stages' node lists.\<close>

function no_templates :: "pyval list \<Rightarrow> bool" where
  "no_templates [] = True"
| "no_templates (n # ns) =
     ((case n of
         PDict d \<Rightarrow> dget_or d ''type'' PNone \<noteq> PStr ''template'' \<and>
           (case dget d ''nodes'' of Some (PList inner) \<Rightarrow> no_templates inner | _ \<Rightarrow> True)
       | _ \<Rightarrow> True) \<and> no_templates ns)"
  by pat_completeness auto
termination
  by (relation "measure (size_list size)") (auto dest!: size_of_value)

lemma walk_no_templates: "no_templates ns \<Longrightarrow> walk_nodes J L inputs ns = Inr ns"
proof (induction J L inputs ns rule: walk_nodes.induct)
  case (2 J L inputs d ns)
  show ?case
  proof (cases "\<exists>inner. dget d ''nodes'' = Some (PList inner)")
    case True
    then obtain inner where i: "dget d ''nodes'' = Some (PList inner)" by blast
    then have "walk_nodes J L inputs inner = Inr inner" using 2 by auto
    then show ?thesis using 2 i by (simp add: dset_same)
  next
    case False
    then have "(case dget d ''nodes'' of Some (PList inner) \<Rightarrow> bind_res (walk_nodes J L inputs inner)
        (\<lambda>ws. Inr [PDict (dset ''nodes'' (PList ws) d)]) | _ \<Rightarrow> Inr [PDict d]) = Inr [PDict d]"
      by (auto split: option.splits pyval.splits)
    then show ?thesis using 2 by simp
  qed
qed simp_all

section \<open>What expansion guarantees\<close>

text \<open>A workflow without template nodes, at the top or inside stages, passes through expansion
  unchanged, with or without inputs.\<close>

theorem expand_without_templates:
  assumes "\<forall>ns. (case dget raw ''workflow'' of Some (PDict flow) \<Rightarrow> dget flow ''nodes'' | _ \<Rightarrow> dget raw ''nodes'') = Some (PList ns) \<longrightarrow> no_templates ns"
  shows "expand_templates J L raw inputs = Inr raw"
proof -
  have "dget raw ''workflow'' = Some (PDict flow) \<Longrightarrow> dget flow ''nodes'' = Some (PList ns) \<Longrightarrow>
      dset ''workflow'' (PDict (dset ''nodes'' (PList ns) flow)) raw = raw" for flow ns
    by (simp add: dset_same)
  then show ?thesis
    using assms walk_no_templates [of _ J L inputs]
    by (auto simp: expand_templates_def dset_same split: option.splits pyval.splits)
qed

text \<open>A template node becomes its body as many times as \<open>for_each\<close> says: item \<open>i * b + j\<close> is the
  body's item \<open>j\<close> rendered with the loop variable bound to \<open>i\<close>.\<close>

theorem expand_one_template_rounds:
  assumes "expand_one_template J L t inputs = Inr out" and "dget t ''template'' = Some (PList body)"
  shows "\<exists>n loop_var. resolve_for_each (dget_or t ''for_each'' PNone) inputs = Inr n \<and>
    dget_or t ''as'' (PStr ''i'') = PStr loop_var \<and> length out = n * length body \<and>
    (\<forall>i < n. render_list J L True (dset loop_var (PInt (int i)) [(''input'', PDict inputs)]) body =
       Inr (take (length body) (drop (i * length body) out)))"
proof -
  obtain b bs where body: "body = b # bs" using assms by (cases body) (auto simp: expand_one_template_def dget_or_def)
  obtain n loop_var rounds where n: "resolve_for_each (dget_or t ''for_each'' PNone) inputs = Inr n"
    and v: "dget_or t ''as'' (PStr ''i'') = PStr loop_var"
    and r: "template_rounds J L inputs loop_var n body = Inr rounds" and out: "out = concat rounds"
  proof -
    have "dget_or t ''template'' PNone = PList (b # bs)" using assms(2) body by (simp add: dget_or_def)
    with assms(1) body show thesis
      by (cases "dget_or t ''for_each'' PNone"; cases "dget_or t ''as'' (PStr ''i'')")
        (auto simp: expand_one_template_def bind_res_Inr split: if_splits intro: that)
  qed
  note r = r [unfolded template_rounds_def]
  have len: "length rounds = n" using map_res_length [OF r] by simp
  have each: "render_list J L True (dset loop_var (PInt (int i)) [(''input'', PDict inputs)]) body = Inr (rounds ! i)" if "i < n" for i
    using map_res_InrD [OF r] that by (auto simp: list_all2_conv_all_nth)
  then have el: "length (rounds ! i) = length body" if "i < n" for i using that render_list_length by blast
  have slice: "length (concat rs) = length rs * m \<and>
      (\<forall>i < length rs. take m (drop (i * m) (concat rs)) = rs ! i)" if "\<forall>x \<in> set rs. length x = m" for rs :: "pyval list list" and m
    using that
  proof (induction rs)
    case (Cons x rs)
    then show ?case by (auto simp: nth_Cons split: nat.splits)
  qed simp
  have "\<forall>x \<in> set rounds. length x = length body" using el len by (auto simp: in_set_conv_nth)
  from slice [OF this] show ?thesis using n v out len each by auto
qed

section \<open>Witnesses\<close>

theorem expand_without_templates_witness:
  "expand_templates (\<lambda>_ s _. Inr s) (\<lambda>_. None) [(''nodes'', PList [PDict [(''name'', PStr ''a'')]])] None =
     Inr [(''nodes'', PList [PDict [(''name'', PStr ''a'')]])]"
  by (rule expand_without_templates) (simp add: dget_or_def)

theorem expand_one_template_rounds_witness:
  "\<exists>out. expand_one_template (\<lambda>_ s _. Inr s) (\<lambda>_. None)
       [(''template'', PList [PStr ''x'', PStr ''y'']), (''for_each'', PInt 3)] [] = Inr out \<and> length out = 3 * 2"
proof -
  let ?t = "[(''template'', PList [PStr ''x'', PStr ''y'']), (''for_each'', PInt 3)]"
  have "\<not> isl (expand_one_template (\<lambda>_ s _. Inr s) (\<lambda>_. None) ?t [])" by code_simp
  then obtain out where out: "expand_one_template (\<lambda>_ s _. Inr s) (\<lambda>_. None) ?t [] = Inr out"
    by (cases "expand_one_template (\<lambda>_ s _. Inr s) (\<lambda>_. None) ?t []") auto
  from expand_one_template_rounds [OF this, of "[PStr ''x'', PStr ''y'']"] out show ?thesis
    by (auto simp: resolve_for_each_def dget_or_def)
qed

end
