(* ===== verification/Dispatch_Render.thy ===== *)
theory Dispatch_Render
  imports Template "HOL-Library.List_Lexorder" "HOL-Library.Char_ord"
begin

text \<open>
  Rendering an agent's \<open>dispatch\<close> block into operations on the graph, \<^verbatim>\<open>temper_ai/stage/dispatch.py\<close>.
  Jinja and JSON are the parameters of theory Template. The list \<open>notes\<close> the code appends to is returned.
\<close>

section \<open>The model\<close>

record dispatch_op =
  op_op :: string
  op_node :: "pyval dict option"
  op_nodes :: "pyval dict list"
  op_target :: "string option"

definition all_added_nodes :: "dispatch_op \<Rightarrow> pyval dict list" where
  "all_added_nodes op =
     (if op_op op \<noteq> ''add'' then []
      else case op_node op of Some n \<Rightarrow> [n] | None \<Rightarrow> op_nodes op)"

definition at_op :: "nat \<Rightarrow> string" where
  "at_op op_idx = ''dispatch['' @ nat_str op_idx @ '']''"

definition render_error :: "nat \<Rightarrow> exn \<Rightarrow> exn" where
  "render_error op_idx e =
     (if kind_of e = TemplateExpansionError
      then Exn DispatchRenderError (at_op op_idx @ '' Jinja render failed: '' @ exn_str e) else e)"

text \<open>\<open>_deep_render\<close> and \<open>_render_string_leaf\<close>\<close>

definition deep_render :: "jinja \<Rightarrow> json \<Rightarrow> pyval dict \<Rightarrow> pyval dict \<Rightarrow> nat \<Rightarrow> pyval dict res" where
  "deep_render J L d scope op_idx =
     (case render_items J L False scope d of Inl e \<Rightarrow> Inl (render_error op_idx e) | Inr d' \<Rightarrow> Inr d')"

definition render_string_leaf :: "jinja \<Rightarrow> json \<Rightarrow> string \<Rightarrow> pyval dict \<Rightarrow> nat \<Rightarrow> string res" where
  "render_string_leaf J L s scope op_idx =
     (case render_leaf J L False scope s of Inl e \<Rightarrow> Inl (render_error op_idx e) | Inr v \<Rightarrow> Inr (py_str v))"

text \<open>\<open>_require_node_shape\<close>: the error, if any.\<close>

definition require_node_shape :: "pyval dict \<Rightarrow> nat \<Rightarrow> nat option \<Rightarrow> unit res" where
  "require_node_shape n op_idx loop_idx =
     (let loc = at_op op_idx @ (case loop_idx of None \<Rightarrow> [] | Some i \<Rightarrow> '' loop['' @ nat_str i @ '']'')
      in case dget_or n ''name'' PNone of
           PStr name \<Rightarrow>
             if strip name = [] then raise DispatchRenderError (loc @ '': rendered node is missing `name`'')
             else if \<not> dhas ''type'' n \<and> \<not> dhas ''agent'' n \<and> \<not> dhas ''agents'' n
             then raise DispatchRenderError (loc @ '': rendered node '' @ repr_str name @ '' has no `type`, `agent`, or `agents` field'')
             else Inr ()
         | _ \<Rightarrow> raise DispatchRenderError (loc @ '': rendered node is missing `name`''))"

definition render_node :: "jinja \<Rightarrow> json \<Rightarrow> pyval dict \<Rightarrow> nat \<Rightarrow> nat option \<Rightarrow> pyval dict \<Rightarrow> pyval dict res" where
  "render_node J L scope op_idx loop_idx n =
     bind_res (deep_render J L n scope op_idx) (\<lambda>rendered.
     bind_res (require_node_shape rendered op_idx loop_idx) (\<lambda>_. Inr rendered))"

text \<open>The loop over \<open>nodes:\<close>.\<close>

fun render_nodes :: "jinja \<Rightarrow> json \<Rightarrow> pyval dict \<Rightarrow> nat \<Rightarrow> nat option \<Rightarrow> nat \<Rightarrow> pyval list \<Rightarrow> pyval dict list res" where
  "render_nodes J L scope op_idx loop_idx n_idx [] = Inr []"
| "render_nodes J L scope op_idx loop_idx n_idx (v # vs) =
     (case v of
        PDict n \<Rightarrow> bind_res (render_node J L scope op_idx loop_idx n) (\<lambda>r.
          bind_res (render_nodes J L scope op_idx loop_idx (n_idx + 1) vs) (\<lambda>rs. Inr (r # rs)))
      | _ \<Rightarrow> raise DispatchRenderError (at_op op_idx @ ''.nodes['' @ nat_str n_idx @ ''] must be a dict''))"

definition render_single_op :: "jinja \<Rightarrow> json \<Rightarrow> pyval dict \<Rightarrow> string \<Rightarrow> pyval dict \<Rightarrow> nat \<Rightarrow> nat option \<Rightarrow> dispatch_op res" where
  "render_single_op J L raw_op op_name scope op_idx loop_idx =
     (if op_name = ''remove''
      then (case dget_or raw_op ''target'' PNone of
              PStr (c # cs) \<Rightarrow> bind_res (render_string_leaf J L (c # cs) scope op_idx) (\<lambda>target.
                Inr \<lparr>op_op = ''remove'', op_node = None, op_nodes = [], op_target = Some target\<rparr>)
            | _ \<Rightarrow> raise DispatchRenderError (at_op op_idx @ ''.target must be a non-empty string''))
      else
        let node_spec = dget_or raw_op ''node'' PNone; nodes_spec = dget_or raw_op ''nodes'' PNone
        in if (node_spec = PNone) = (nodes_spec = PNone)
           then raise DispatchRenderError (at_op op_idx @ '' with op=add must carry exactly one of `node:` (single) or `nodes:` (list) -- got both or neither'')
           else if node_spec \<noteq> PNone
           then (case node_spec of
                   PDict n \<Rightarrow> bind_res (render_node J L scope op_idx loop_idx n) (\<lambda>r.
                     Inr \<lparr>op_op = ''add'', op_node = Some r, op_nodes = [], op_target = None\<rparr>)
                 | _ \<Rightarrow> raise DispatchRenderError (at_op op_idx @ ''.node must be a dict''))
           else (case nodes_spec of
                   PList (v # vs) \<Rightarrow> bind_res (render_nodes J L scope op_idx loop_idx 0 (v # vs)) (\<lambda>rs.
                     Inr \<lparr>op_op = ''add'', op_node = None, op_nodes = rs, op_target = None\<rparr>)
                 | _ \<Rightarrow> raise DispatchRenderError (at_op op_idx @ ''.nodes must be a non-empty list'')))"

text \<open>The walk of a \<open>for_each\<close> path: the value, or the error message's end.\<close>

fun walk_scope :: "pyval \<Rightarrow> string list \<Rightarrow> (string, pyval) sum" where
  "walk_scope v [] = Inr v"
| "walk_scope (PDict d) (k # ks) = (case dget d k of None \<Rightarrow> Inl ''not found'' | Some v \<Rightarrow> walk_scope v ks)"
| "walk_scope (PList xs) (k # ks) =
     (case Option.bind (int_of_str k) (py_index xs) of None \<Rightarrow> Inl (''bad index '' @ repr_str k) | Some v \<Rightarrow> walk_scope v ks)"
| "walk_scope v (k # ks) = Inl (''can't descend into '' @ type_name v)"

definition ints_upto :: "int \<Rightarrow> pyval list" where
  "ints_upto n = map (\<lambda>i. PInt (int i)) [0..<nat n]"

text \<open>What a \<open>for_each\<close> path resolved to, as a list.\<close>

definition items_of :: "pyval \<Rightarrow> string \<Rightarrow> pyval list res" where
  "items_of v where_at =
     (case v of
        PList xs \<Rightarrow> Inr xs
      | PNone \<Rightarrow> Inr []
      | PBool b \<Rightarrow> raise DispatchRenderError (where_at @ '' resolved to bool'')
      | PInt i \<Rightarrow> if i < 0 then raise DispatchRenderError (where_at @ '' resolved to negative int'') else Inr (ints_upto i)
      | _ \<Rightarrow> raise DispatchRenderError (where_at @ '' resolved to '' @ type_name v @ ''; expected list or int''))"

definition resolve_for_each_list :: "pyval \<Rightarrow> pyval dict \<Rightarrow> nat \<Rightarrow> (pyval list \<times> string list) res" where
  "resolve_for_each_list spec scope op_idx =
     (case spec of
        PList xs \<Rightarrow> Inr (xs, [])
      | PBool b \<Rightarrow> Inr (ints_upto (if b then 1 else 0), [])
      | PInt i \<Rightarrow>
          if i < 0 then raise DispatchRenderError (at_op op_idx @ ''.for_each int must be non-negative, got '' @ int_str i)
          else Inr (ints_upto i, [])
      | PStr s \<Rightarrow>
          (case split_dot (strip s) of
             [] \<Rightarrow> raise IndexError ''list index out of range''
           | p # keys \<Rightarrow>
               (case dget scope p of
                  None \<Rightarrow> raise DispatchRenderError (at_op op_idx @ ''.for_each path '' @ repr_str s @
                            '' must start with a valid scope key: '' @ py_repr (PList (map PStr (sort (dkeys scope)))))
                | Some cursor \<Rightarrow>
                    if p = ''structured'' \<and> \<not> truthy cursor
                    then Inr ([], [at_op op_idx @ '' fanned out nothing: '' @ repr_str s @ '' is empty (the agent produced no structured output)''])
                    else (case walk_scope cursor keys of
                            Inl why \<Rightarrow> raise DispatchRenderError (at_op op_idx @ ''.for_each path '' @ repr_str s @ '' '' @ why)
                          | Inr v \<Rightarrow> bind_res (items_of v (at_op op_idx @ ''.for_each '' @ repr_str s)) (\<lambda>xs. Inr (xs, [])))))
      | _ \<Rightarrow> raise DispatchRenderError (at_op op_idx @ ''.for_each must be list, int, or scope path, got '' @ type_name spec))"

text \<open>One operation per item.\<close>

definition render_rounds :: "jinja \<Rightarrow> json \<Rightarrow> pyval dict \<Rightarrow> string \<Rightarrow> pyval dict \<Rightarrow> nat \<Rightarrow> string \<Rightarrow> pyval list \<Rightarrow> dispatch_op list res" where
  "render_rounds J L raw_op op_name base_scope op_idx loop_var loop_items =
     map_res (\<lambda>(i, item). render_single_op J L raw_op op_name
         (dset ''i'' (PInt (int i)) (dset loop_var item base_scope)) op_idx (Some i)) (enumerate 0 loop_items)"

definition render_one_op :: "jinja \<Rightarrow> json \<Rightarrow> pyval dict \<Rightarrow> nat \<Rightarrow> pyval dict \<Rightarrow> (dispatch_op list \<times> string list) res" where
  "render_one_op J L raw_op op_idx base_scope =
     (case dget_or raw_op ''op'' PNone of
        PStr op_name \<Rightarrow>
          if op_name \<notin> {''add'', ''remove''}
          then raise DispatchRenderError (at_op op_idx @ ''.op must be 'add' or 'remove', got '' @ repr_str op_name)
          else if dget_or raw_op ''for_each'' PNone = PNone
          then bind_res (render_single_op J L raw_op op_name base_scope op_idx None) (\<lambda>op. Inr ([op], []))
          else bind_res (resolve_for_each_list (dget_or raw_op ''for_each'' PNone) base_scope op_idx) (\<lambda>(loop_items, notes).
            case dget_or raw_op ''as'' (PStr ''item'') of
              PStr loop_var \<Rightarrow>
                if \<not> is_ident loop_var
                then raise DispatchRenderError (at_op op_idx @ ''.as must be a valid identifier, got '' @ repr_str loop_var)
                else bind_res (render_rounds J L raw_op op_name base_scope op_idx loop_var loop_items) (\<lambda>ops. Inr (ops, notes))
            | v \<Rightarrow> raise DispatchRenderError (at_op op_idx @ ''.as must be a valid identifier, got '' @ py_repr v))
      | v \<Rightarrow> raise DispatchRenderError (at_op op_idx @ ''.op must be 'add' or 'remove', got '' @ py_repr v))"

fun render_ops :: "jinja \<Rightarrow> json \<Rightarrow> pyval dict \<Rightarrow> nat \<Rightarrow> pyval list \<Rightarrow> (dispatch_op list \<times> string list) res" where
  "render_ops J L base_scope op_idx [] = Inr ([], [])"
| "render_ops J L base_scope op_idx (v # vs) =
     (case v of
        PDict raw_op \<Rightarrow>
          bind_res (render_one_op J L raw_op op_idx base_scope) (\<lambda>(ops, notes).
          bind_res (render_ops J L base_scope (op_idx + 1) vs) (\<lambda>(ops', notes'). Inr (ops @ ops', notes @ notes')))
      | _ \<Rightarrow> raise DispatchRenderError (at_op op_idx @ '' must be a dict, got '' @ type_name v))"

definition dispatch_scope :: "string \<Rightarrow> pyval dict option \<Rightarrow> pyval dict \<Rightarrow> pyval dict" where
  "dispatch_scope agent_output agent_structured agent_input_data =
     [(''input'', PDict agent_input_data), (''output'', PStr agent_output),
      (''structured'', PDict (case agent_structured of None \<Rightarrow> [] | Some d \<Rightarrow> d))]"

definition render_dispatch :: "jinja \<Rightarrow> json \<Rightarrow> pyval dict \<Rightarrow> string \<Rightarrow> pyval dict option \<Rightarrow> pyval dict
    \<Rightarrow> (dispatch_op list \<times> string list) res" where
  "render_dispatch J L agent_conf agent_output agent_structured agent_input_data =
     (let raw_ops = dget_or agent_conf ''dispatch'' PNone
      in if \<not> truthy raw_ops then Inr ([], [])
         else case raw_ops of
           PList vs \<Rightarrow> render_ops J L (dispatch_scope agent_output agent_structured agent_input_data) 0 vs
         | _ \<Rightarrow> raise DispatchRenderError (''`dispatch:` must be a list, got '' @ type_name raw_ops))"

section \<open>Lemmas\<close>

definition good_shape :: "pyval dict \<Rightarrow> bool" where
  "good_shape n \<longleftrightarrow> (\<exists>name. dget n ''name'' = Some (PStr name) \<and> strip name \<noteq> []) \<and>
     (dhas ''type'' n \<or> dhas ''agent'' n \<or> dhas ''agents'' n)"

lemma require_node_shape_Inr: "require_node_shape n i l = Inr u \<Longrightarrow> good_shape n"
  by (auto simp: require_node_shape_def good_shape_def dget_or_def Let_def split: pyval.splits option.splits if_splits)

lemma render_node_shape: "render_node J L scope i l n = Inr r \<Longrightarrow> good_shape r"
  by (auto simp: render_node_def bind_res_Inr dest: require_node_shape_Inr)

lemma render_nodes_shape: "render_nodes J L scope i l k vs = Inr rs \<Longrightarrow> \<forall>r \<in> set rs. good_shape r"
  by (induction vs arbitrary: k rs) (auto simp: bind_res_Inr dest: render_node_shape split: pyval.splits)

definition good_op :: "dispatch_op \<Rightarrow> bool" where
  "good_op op \<longleftrightarrow> op_op op \<in> {''add'', ''remove''} \<and> (\<forall>n \<in> set (all_added_nodes op). good_shape n) \<and>
     (op_op op = ''remove'' \<longleftrightarrow> op_target op \<noteq> None)"

lemma render_single_op_good:
  assumes "render_single_op J L raw op_name scope i l = Inr op"
  shows "good_op op"
proof (cases "op_name = ''remove''")
  case True
  then show ?thesis using assms
    by (auto simp: render_single_op_def good_op_def all_added_nodes_def bind_res_Inr split: pyval.splits list.splits)
next
  case False
  let ?n = "dget_or raw ''node'' PNone" and ?ns = "dget_or raw ''nodes'' PNone"
  show ?thesis
  proof (cases "?n = PNone")
    case True
    with assms False obtain v vs rs where "?ns = PList (v # vs)" "render_nodes J L scope i l 0 (v # vs) = Inr rs"
        "op = \<lparr>op_op = ''add'', op_node = None, op_nodes = rs, op_target = None\<rparr>"
      by (auto simp: render_single_op_def Let_def bind_res_Inr split: pyval.splits list.splits if_splits)
    then show ?thesis using render_nodes_shape by (fastforce simp: good_op_def all_added_nodes_def)
  next
    case n: False
    with assms False obtain d r where "?n = PDict d" "render_node J L scope i l d = Inr r"
        "op = \<lparr>op_op = ''add'', op_node = Some r, op_nodes = [], op_target = None\<rparr>"
      by (auto simp: render_single_op_def Let_def bind_res_Inr split: pyval.splits if_splits)
    then show ?thesis using render_node_shape by (auto simp: good_op_def all_added_nodes_def)
  qed
qed

lemma list_all2_right: "list_all2 P xs ys \<Longrightarrow> y \<in> set ys \<Longrightarrow> \<exists>x \<in> set xs. P x y"
  by (induction rule: list_all2_induct) auto

lemma render_one_op_good:
  assumes "render_one_op J L raw i scope = Inr (ops, nts)"
  shows "\<forall>op \<in> set ops. good_op op"
proof -
  obtain op_name where op: "dget_or raw ''op'' PNone = PStr op_name"
    using assms by (cases "dget_or raw ''op'' PNone") (auto simp: render_one_op_def)
  show ?thesis
  proof (cases "dget_or raw ''for_each'' PNone = PNone")
    case True
    then show ?thesis using assms op
      by (auto simp: render_one_op_def bind_res_Inr split: if_splits dest: render_single_op_good)
  next
    case False
    with assms op obtain v xs where "render_rounds J L raw op_name scope i v xs = Inr ops"
      by (cases "dget_or raw ''as'' (PStr ''item'')") (auto simp: render_one_op_def bind_res_Inr split: if_splits)
    from map_res_InrD [OF this [unfolded render_rounds_def]] show ?thesis
      by (auto dest!: list_all2_right render_single_op_good)
  qed
qed

lemma render_ops_good: "render_ops J L scope i vs = Inr (ops, nts) \<Longrightarrow> \<forall>op \<in> set ops. good_op op"
  by (induction vs arbitrary: i ops nts)
    (auto simp: bind_res_Inr split: pyval.splits prod.splits dest!: render_one_op_good)

section \<open>What rendering guarantees\<close>

text \<open>C26: Every operation that comes out of a dispatch block is an add or a remove; every node an add
  carries has a name that is not blank and says what it runs, and every remove has a target.\<close>

theorem render_dispatch_good:
  assumes "render_dispatch J L conf out so inp = Inr (ops, nts)" and "op \<in> set ops"
  shows "op_op op \<in> {''add'', ''remove''} \<and> (op_op op = ''remove'' \<longleftrightarrow> op_target op \<noteq> None) \<and>
    (\<forall>n \<in> set (all_added_nodes op). (\<exists>name. dget n ''name'' = Some (PStr name) \<and> strip name \<noteq> []) \<and>
      (dhas ''type'' n \<or> dhas ''agent'' n \<or> dhas ''agents'' n))"
proof -
  have "\<exists>vs. render_ops J L (dispatch_scope out so inp) 0 vs = Inr (ops, nts)"
    using assms by (auto simp: render_dispatch_def Let_def split: if_splits pyval.splits)
  then have "good_op op" using render_ops_good assms(2) by blast
  then show ?thesis by (auto simp: good_op_def good_shape_def)
qed

text \<open>An add with \<open>for_each\<close> over a list gives one operation per element, in order, each rendered with
  the element under the loop variable and its index under \<open>i\<close>.\<close>

theorem for_each_one_op_per_item:
  assumes "render_one_op J L raw k scope = Inr (ops, nts)" and "dget raw ''for_each'' = Some (PList xs)"
    and "dget raw ''op'' = Some (PStr op_name)" and "dget_or raw ''as'' (PStr ''item'') = PStr v"
  shows "length ops = length xs \<and> (\<forall>i < length xs.
    render_single_op J L raw op_name (dset ''i'' (PInt (int i)) (dset v (xs ! i) scope)) k (Some i) = Inr (ops ! i))"
proof -
  have "map_res (\<lambda>(i, item). render_single_op J L raw op_name (dset ''i'' (PInt (int i)) (dset v item scope)) k (Some i))
      (enumerate 0 xs) = Inr ops"
    using assms by (auto simp: render_one_op_def render_rounds_def dget_or_def resolve_for_each_list_def bind_res_Inr split: if_splits)
  then have "list_all2 (\<lambda>p op. (case p of (i, item) \<Rightarrow>
      render_single_op J L raw op_name (dset ''i'' (PInt (int i)) (dset v item scope)) k (Some i)) = Inr op) (enumerate 0 xs) ops"
    by (rule map_res_InrD)
  then show ?thesis by (auto simp: list_all2_conv_all_nth nth_enumerate_eq)
qed

text \<open>A dispatcher that produced no structured output fans out nothing and says so, whatever path below
  \<open>structured\<close> it names; it does not fail.\<close>

theorem empty_structured_fans_out_nothing:
  assumes "split_dot (strip s) = ''structured'' # keys" and "so = None \<or> so = Some []"
  shows "\<exists>note. resolve_for_each_list (PStr s) (dispatch_scope out so inp) k = Inr ([], [note])"
  using assms by (auto simp: resolve_for_each_list_def dispatch_scope_def)

text \<open>The path \<open>output.structured.<field>\<close>, which the module's documentation gives as the example of
  \<open>for_each\<close>, is always refused: \<open>output\<close> is the agent's text, and a text cannot be descended into.\<close>

theorem output_structured_path_refused:
  "\<exists>m. resolve_for_each_list (PStr ''output.structured.cities'') (dispatch_scope out so inp) k = raise DispatchRenderError m"
proof -
  have "split_dot (strip ''output.structured.cities'') = [''output'', ''structured'', ''cities'']" by code_simp
  then show ?thesis by (simp add: resolve_for_each_list_def dispatch_scope_def)
qed

section \<open>Witnesses\<close>

definition fan_block :: "pyval dict" where
  "fan_block = [(''op'', PStr ''add''), (''for_each'', PList [PStr ''x'', PStr ''y'']),
     (''node'', PDict [(''name'', PStr ''n''), (''type'', PStr ''agent'')])]"

definition fan_node :: "pyval dict" where
  "fan_node = [(''name'', PStr ''n''), (''type'', PStr ''agent'')]"

definition fan_op :: dispatch_op where
  "fan_op = \<lparr>op_op = ''add'', op_node = Some fan_node, op_nodes = [], op_target = None\<rparr>"

lemma fan_renders: "render_one_op (\<lambda>_ s _. Inr s) (\<lambda>_. None) fan_block 0 [] = Inr ([fan_op, fan_op], [])"
  by code_simp

theorem render_dispatch_good_witness:
  "render_dispatch (\<lambda>_ s _. Inr s) (\<lambda>_. None) [(''dispatch'', PList [PDict fan_block])] [] None [] = Inr ([fan_op, fan_op], []) \<and>
   (\<exists>name. dget fan_node ''name'' = Some (PStr name) \<and> strip name \<noteq> [])"
proof -
  have r: "render_dispatch (\<lambda>_ s _. Inr s) (\<lambda>_. None) [(''dispatch'', PList [PDict fan_block])] [] None [] = Inr ([fan_op, fan_op], [])"
    by code_simp
  from render_dispatch_good [OF this, of fan_op] r show ?thesis by (simp add: fan_op_def all_added_nodes_def)
qed

theorem for_each_one_op_per_item_witness: "length [fan_op, fan_op] = length [PStr ''x'', PStr ''y'']"
  using for_each_one_op_per_item [OF fan_renders, of "[PStr ''x'', PStr ''y'']" "''add''" "''item''"]
  by (simp add: fan_block_def dget_or_def)

theorem empty_structured_fans_out_nothing_witness:
  "\<exists>note. resolve_for_each_list (PStr ''structured.cities'') (dispatch_scope [] None []) 0 = Inr ([], [note])"
proof -
  have "split_dot (strip ''structured.cities'') = [''structured'', ''cities'']" by code_simp
  then show ?thesis using empty_structured_fans_out_nothing [of "''structured.cities''" "[''cities'']" None] by blast
qed

end
