(* ===== verification/Dispatch_Limits.thy ===== *)
theory Dispatch_Limits
  imports Dispatch_Render Failure
begin

text \<open>
  The caps on what dispatches may add to a run, \<^verbatim>\<open>temper_ai/stage/dispatch_limits.py\<close>: the limits, the
  run's bookkeeping, and the walk that looks for a dispatch that repeats an ancestor. The hash of a
  node's inputs (SHA1 of canonical JSON) is the parameter \<open>digest\<close>.
\<close>

section \<open>The model\<close>

record dispatch_limits =
  max_children_per_dispatch :: int
  max_dynamic_nodes :: int
  max_dispatch_depth :: int
  cycle_detection :: bool

definition default_limits :: dispatch_limits where
  "default_limits = \<lparr>max_children_per_dispatch = 20, max_dynamic_nodes = 200, max_dispatch_depth = 3, cycle_detection = True\<rparr>"

text \<open>\<open>int(v)\<close>: a float is cut off towards zero.\<close>

definition py_int :: "pyval \<Rightarrow> int option" where
  "py_int v = (case v of
     PBool b \<Rightarrow> Some (if b then 1 else 0)
   | PInt i \<Rightarrow> Some i
   | PFloat q \<Rightarrow> Some (if q < 0 then \<lceil>q\<rceil> else \<lfloor>q\<rfloor>)
   | PStr s \<Rightarrow> int_of_str s
   | _ \<Rightarrow> None)"

definition limit_int :: "pyval dict \<Rightarrow> string \<Rightarrow> int \<Rightarrow> int" where
  "limit_int raw key dflt =
     (case dget_or raw key PNone of
        PNone \<Rightarrow> dflt
      | v \<Rightarrow> (case py_int v of None \<Rightarrow> dflt | Some i \<Rightarrow> if i < 0 then dflt else i))"

definition limit_bool :: "pyval dict \<Rightarrow> string \<Rightarrow> bool \<Rightarrow> bool" where
  "limit_bool raw key dflt = (case dget_or raw key PNone of PNone \<Rightarrow> dflt | v \<Rightarrow> truthy v)"

definition limits_from_defaults :: "pyval dict option \<Rightarrow> dispatch_limits" where
  "limits_from_defaults defaults =
     (case defaults of
        None \<Rightarrow> default_limits
      | Some d \<Rightarrow>
          (case dget_or d ''dispatch'' PNone of
             PDict raw \<Rightarrow> \<lparr>
               max_children_per_dispatch = limit_int raw ''max_children_per_dispatch'' 20,
               max_dynamic_nodes = limit_int raw ''max_dynamic_nodes'' 200,
               max_dispatch_depth = limit_int raw ''max_dispatch_depth'' 3,
               cycle_detection = limit_bool raw ''cycle_detection'' True\<rparr>
           | _ \<Rightarrow> default_limits))"

type_synonym fingerprint = "string \<times> string"

record dispatch_state =
  dispatched_count :: int
  depths :: "int dict"
  parents :: "string dict"
  fingerprints :: "fingerprint dict"
  pending_ops :: "dispatch_op list dict"

definition new_dispatch_state :: dispatch_state where
  "new_dispatch_state = \<lparr>dispatched_count = 0, depths = [], parents = [], fingerprints = [], pending_ops = []\<rparr>"

definition fingerprint_node :: "(pyval dict \<Rightarrow> string) \<Rightarrow> string \<Rightarrow> pyval dict \<Rightarrow> fingerprint" where
  "fingerprint_node digest agent_name input_data = (agent_name, digest input_data)"

text \<open>The loop of \<open>check_cycle\<close>.\<close>

function walk_ancestors :: "dispatch_state \<Rightarrow> fingerprint \<Rightarrow> string option \<Rightarrow> string list \<Rightarrow> string option" where
  "walk_ancestors state fp cursor visited =
     (case cursor of
        None \<Rightarrow> None
      | Some c \<Rightarrow>
          if c \<in> set visited then Some c
          else if dget (fingerprints state) c = Some fp then Some c
          else walk_ancestors state fp (dget (parents state) c) (c # visited))"
  by pat_completeness auto
termination
proof (relation "measure (\<lambda>(s, fp, cur, vis). case cur of None \<Rightarrow> 0 | Some c \<Rightarrow> Suc (card (fst ` set (parents s) - set vis)))", goal_cases)
  case (2 s fp cur vis c)
  show ?case
  proof (cases "dget (parents s) c")
    case (Some p)
    then have "c \<in> fst ` set (parents s)" by (auto dest: map_of_SomeD intro: rev_image_eqI)
    then have "card (fst ` set (parents s) - set (c # vis)) < card (fst ` set (parents s) - set vis)"
      using 2 by (intro psubset_card_mono) auto
    then show ?thesis using 2 Some by simp
  qed (use 2 in simp)
qed simp

declare walk_ancestors.simps [simp del]

definition check_cycle :: "dispatch_state \<Rightarrow> string \<Rightarrow> fingerprint \<Rightarrow> string option" where
  "check_cycle state dispatcher_name new_fingerprint =
     (if dget (fingerprints state) dispatcher_name = Some new_fingerprint then Some dispatcher_name
      else walk_ancestors state new_fingerprint (dget (parents state) dispatcher_name) [])"

section \<open>Lemmas\<close>

text \<open>The dispatchers above a node.\<close>

inductive ancestor :: "dispatch_state \<Rightarrow> string \<Rightarrow> string \<Rightarrow> bool" for s where
  self: "ancestor s d d"
| up: "dget (parents s) d = Some p \<Longrightarrow> ancestor s p a \<Longrightarrow> ancestor s d a"

lemma walk_None:
  "walk_ancestors s fp (Some c) vis = None \<Longrightarrow> ancestor s c a \<Longrightarrow> dget (fingerprints s) a \<noteq> Some fp"
proof (induction s fp "Some c" vis arbitrary: c rule: walk_ancestors.induct)
  case (1 s fp vis c)
  have step: "c \<notin> set vis" "dget (fingerprints s) c \<noteq> Some fp" "walk_ancestors s fp (dget (parents s) c) (c # vis) = None"
    using "1.prems"(1) by (auto simp: walk_ancestors.simps [of s fp "Some c"] split: if_splits)
  from "1.prems"(2) show ?case
  proof (cases rule: ancestor.cases)
    case self
    then show ?thesis using step by simp
  next
    case (up p)
    then show ?thesis using "1.hyps" [OF refl step(1,2) up(1)] step(3) up by auto
  qed
qed

lemma walk_Some:
  "walk_ancestors s fp (Some c) vis = Some a \<Longrightarrow> ancestor s c a \<and> (dget (fingerprints s) a = Some fp \<or> a \<in> set vis \<or> (\<exists>p. dget (parents s) a = Some p \<and> ancestor s p a))"
proof (induction s fp "Some c" vis arbitrary: c rule: walk_ancestors.induct)
  case (1 s fp vis c)
  consider "c \<in> set vis" | "c \<notin> set vis" "dget (fingerprints s) c = Some fp"
    | p where "c \<notin> set vis" "dget (fingerprints s) c \<noteq> Some fp" "dget (parents s) c = Some p" "walk_ancestors s fp (Some p) (c # vis) = Some a"
    using "1.prems" by (cases "dget (parents s) c") (auto simp: walk_ancestors.simps [of s fp "Some c"] walk_ancestors.simps [of s fp None] split: if_splits)
  then show ?case
  proof cases
    case 1
    then show ?thesis using "1.prems" by (auto simp: walk_ancestors.simps [of s fp "Some c"] intro: ancestor.self)
  next
    case 2
    then show ?thesis using "1.prems" by (auto simp: walk_ancestors.simps [of s fp "Some c"] intro: ancestor.self)
  next
    case (3 p)
    then have IH: "ancestor s p a \<and> (dget (fingerprints s) a = Some fp \<or> a \<in> set (c # vis) \<or> (\<exists>p. dget (parents s) a = Some p \<and> ancestor s p a))"
      using "1.hyps" [OF refl 3(1,2) 3(3)] by simp
    then show ?thesis using 3(3) by (auto intro: ancestor.up)
  qed
qed

text \<open>The walk for a repeated dispatch always ends, and it misses nothing: when it finds no ancestor,
  neither the dispatcher nor any dispatcher above it has the fingerprint; when it names one, that is
  such an ancestor with the fingerprint, or one that is above itself.\<close>

theorem check_cycle_exact:
  "(check_cycle s d fp = None \<longrightarrow> (\<forall>a. ancestor s d a \<longrightarrow> dget (fingerprints s) a \<noteq> Some fp)) \<and>
   (\<forall>a. check_cycle s d fp = Some a \<longrightarrow> ancestor s d a \<and>
      (dget (fingerprints s) a = Some fp \<or> (\<exists>p. dget (parents s) a = Some p \<and> ancestor s p a)))"
proof (intro conjI impI allI)
  fix a assume n: "check_cycle s d fp = None" and a: "ancestor s d a"
  then have d: "dget (fingerprints s) d \<noteq> Some fp" "walk_ancestors s fp (dget (parents s) d) [] = None"
    by (auto simp: check_cycle_def split: if_splits)
  from a show "dget (fingerprints s) a \<noteq> Some fp"
    by (cases rule: ancestor.cases) (use d walk_None [of s fp] in auto)
next
  fix a assume "check_cycle s d fp = Some a"
  then have "ancestor s d a \<and> (dget (fingerprints s) a = Some fp \<or> (\<exists>p. dget (parents s) a = Some p \<and> ancestor s p a))"
    using walk_Some [of s fp _ "[]" a]
    by (cases "dget (parents s) d") (auto simp: check_cycle_def walk_ancestors.simps [of s fp None] split: if_splits intro: ancestor.intros)
  then show "ancestor s d a" and "dget (fingerprints s) a = Some fp \<or> (\<exists>p. dget (parents s) a = Some p \<and> ancestor s p a)"
    by auto
qed

text \<open>Whatever a workflow's defaults say, the limits in force are non-negative numbers; a value that
  is missing, negative or no number leaves the built-in one.\<close>

theorem limits_non_negative:
  "0 \<le> max_children_per_dispatch (limits_from_defaults d) \<and> 0 \<le> max_dynamic_nodes (limits_from_defaults d) \<and>
   0 \<le> max_dispatch_depth (limits_from_defaults d)"
proof -
  have "0 \<le> n \<Longrightarrow> 0 \<le> limit_int raw k n" for raw k n
    by (auto simp: limit_int_def split: pyval.splits option.splits)
  then show ?thesis by (auto simp: limits_from_defaults_def default_limits_def split: option.splits pyval.splits)
qed

theorem check_cycle_exact_witness:
  "ancestor (new_dispatch_state\<lparr>parents := [(''b'', ''a'')], fingerprints := [(''a'', (''x'', ''1''))]\<rparr>) ''b'' ''a''"
proof -
  let ?s = "new_dispatch_state\<lparr>parents := [(''b'', ''a'')], fingerprints := [(''a'', (''x'', ''1''))]\<rparr>"
  have "check_cycle ?s ''b'' (''x'', ''1'') = Some ''a''" by code_simp
  then show ?thesis using check_cycle_exact [of ?s "''b''" "(''x'', ''1'')"] by blast
qed

end
