(* ===== verification/World.thy ===== *)
theory World
  imports Failure Restore Inputs Dispatch_Limits
begin

text \<open>
  The state the executor passes along: what is shared by all graphs of a run (\<open>world\<close>) and what one
  graph keeps while it runs (\<open>graph_state\<close>).

  \<^item> The event recorder is a log of its two calls, \<open>record\<close> and \<open>update_event\<close>; the id of a recorded
    event is made from its position.
  \<^item> \<open>run_env\<close> answers for what lies outside: the database of checkpoints, the clock, the file system
    and the cancel signal. Its answers may change from one moment to the next; the moment is the
    counter \<open>w_tick\<close>, which every record and every look at the cancel signal moves on.
  \<^item> \<open>DispatchRunState\<close> objects are mutable and may be shared between contexts: \<open>w_dispatch\<close> is the store of
    those made so far, and a context's \<open>dispatch_state\<close> is an index into it (\<open>gs_dispatch\<close> for the context
    of the graph).
  \<^item> Calls to parts of the system that are not modelled (the holds table, the waits a step asks for itself,
    the tool executor) are kept in order in \<open>w_calls\<close>.
  \<^item> Admission hooks are absent (\<open>hooks_for\<close> returns \<open>None\<close>), as they are unless a run is started
    under admission.
\<close>

section \<open>The world of a run\<close>

definition CANCEL_MESSAGE :: string where "CANCEL_MESSAGE = ''Workflow cancelled by user''"

datatype event =
    Recorded string "pyval dict" "string option" string   \<comment> \<open>type, data, parent, status\<close>
  | Updated string string "pyval dict"                     \<comment> \<open>id, status, data\<close>

record run_env =
  re_cp :: cp_env
  re_now :: "nat \<Rightarrow> rat"
  re_monotonic :: "nat \<Rightarrow> rat"
  re_isfile :: "nat \<Rightarrow> string \<Rightarrow> bool"
  re_read :: "nat \<Rightarrow> string \<Rightarrow> string option"
  re_cancelled :: "nat \<Rightarrow> bool"
  re_stop_words :: "string option"
  re_isoformat :: "rat \<Rightarrow> string"
  re_order :: "nat \<Rightarrow> node list \<Rightarrow> node list"   \<comment> \<open>the order in which a parallel batch completes\<close>
  re_agent_cancels :: "string \<Rightarrow> bool"   \<comment> \<open>agent types that may end cancelled by themselves\<close>
  re_attempt_spend :: "nat \<Rightarrow> string \<Rightarrow> (rat \<times> int) option"   \<comment> \<open>what the events under a graph's event say was spent\<close>

text \<open>What is asked of the rest of the system.\<close>

datatype outside_call =
    SpendAnswers string
  | ForgetStep string
  | NoteUnspentAnswers
  | ForgetRun
  | ReleaseTools string
  | KeepGateAnswer string string
  | HoldsFinish
  | HoldsRecord "pyval dict" "held_cleanup list" rat "string option" "string option"   \<comment> \<open>inputs, held, deadline, where, why\<close>

record world =
  w_stop :: "run_stop option"
  w_cp :: "cp_state option"
  w_events :: "event list"
  w_known_issues :: "(string \<times> string) list"   \<comment> \<open>path and text appended\<close>
  w_dispatch :: "dispatch_state list"
  w_restore :: "restore option"
  w_calls :: "outside_call list"
  w_tick :: nat

definition event_id :: "nat \<Rightarrow> string" where
  "event_id n = ''ev'' @ nat_str n"

definition record_event :: "string \<Rightarrow> pyval dict \<Rightarrow> string option \<Rightarrow> string \<Rightarrow> world \<Rightarrow> string \<times> world" where
  "record_event event_type data parent st w =
     (event_id (length (w_events w)),
      w\<lparr>w_events := w_events w @ [Recorded event_type data parent st], w_tick := Suc (w_tick w)\<rparr>)"

definition update_event :: "string \<Rightarrow> string \<Rightarrow> pyval dict \<Rightarrow> world \<Rightarrow> world" where
  "update_event ident st data w = w\<lparr>w_events := w_events w @ [Updated ident st data], w_tick := Suc (w_tick w)\<rparr>"

text \<open>A write to the checkpoint service, where there is one.\<close>

definition checkpointed :: "(cp_state \<Rightarrow> cp_state) \<Rightarrow> world \<Rightarrow> world" where
  "checkpointed f w = w\<lparr>w_cp := map_option f (w_cp w)\<rparr>"

definition change_stop :: "(run_stop \<Rightarrow> run_stop) \<Rightarrow> world \<Rightarrow> world" where
  "change_stop f w = w\<lparr>w_stop := map_option f (w_stop w)\<rparr>"

definition outside :: "outside_call \<Rightarrow> world \<Rightarrow> world" where
  "outside c w = w\<lparr>w_calls := w_calls w @ [c]\<rparr>"

text \<open>\<open>_check_cancelled\<close>: whether it raises.\<close>

definition check_cancelled :: "run_env \<Rightarrow> world \<Rightarrow> bool \<times> world" where
  "check_cancelled env w = (re_cancelled env (w_tick w), w\<lparr>w_tick := Suc (w_tick w)\<rparr>)"

definition build_node_event_data :: "node \<Rightarrow> pyval dict" where
  "build_node_event_data n =
     [(''name'', PStr (name_of n)), (''type'', PStr (nc_type (config n))),
      (''depends_on'', str_vals (deps_of n)), (''strategy'', opt_str (nc_strategy (config n)))] @
     (case nc_loop_to (config n) of
        Some (c # cs) \<Rightarrow> [(''loop_to'', PStr (c # cs)), (''max_loops'', PInt (nc_max_loops (config n)))]
      | _ \<Rightarrow> [])"

definition record_skipped_node :: "node \<Rightarrow> string \<Rightarrow> string \<Rightarrow> string \<Rightarrow> world \<Rightarrow> world" where
  "record_skipped_node n parent reason st w =
     snd (record_event ''stage.started'' (dset ''skip_reason'' (PStr reason) (build_node_event_data n)) (Some parent) st w)"

section \<open>Recording an outcome\<close>

definition RAN_OUT_OF_ROUNDS :: string where "RAN_OUT_OF_ROUNDS = ''ran_out_of_rounds''"
definition NO_LOOP_VERDICT :: string where "NO_LOOP_VERDICT = ''no_loop_verdict''"
definition NODE_EVENT_ID :: string where "NODE_EVENT_ID = ''node_event_id''"

definition record_outcome :: "run_env \<Rightarrow> string \<Rightarrow> node \<Rightarrow> node_result \<Rightarrow> world \<Rightarrow> world" where
  "record_outcome env cp_prefix n r w =
     (let path = cp_prefix @ name_of n;
          undone = undoes n
      in if meta_set CLEANUP_HELD r
         then change_stop (hold path undone) (checkpointed (save_cleanup_held (re_cp env) path undone) w)
         else let w = checkpointed (save_node_completed (re_cp env) path r) w
              in if nr_status r = FAILED \<and> w_stop w \<noteq> None
                 then change_stop (note_failure (re_now env (w_tick w)) path (nr_error r)) w
                 else if undone \<noteq> [] \<and> nr_status r = COMPLETED
                 then change_stop (note_cleanup_ran path undone) (checkpointed (save_cleanup_ran (re_cp env) path undone) w)
                 else w)"

definition ran_out_reason :: "nat \<Rightarrow> int \<Rightarrow> string option \<Rightarrow> string" where
  "ran_out_reason count max_loops loop_to =
     ''ran out of rounds: '' @ nat_str count @ '' of '' @ int_str max_loops @
     (case loop_to of Some (c # cs) \<Rightarrow> '' (it still wanted to go back to '' @ quoted (c # cs) @ '')'' | _ \<Rightarrow> [])"

definition record_ran_out :: "run_env \<Rightarrow> string \<Rightarrow> node \<Rightarrow> node_result \<Rightarrow> world \<Rightarrow> world" where
  "record_ran_out env cp_prefix n r w =
     (let path = cp_prefix @ name_of n;
          w = (case dget_or (nr_metadata r) NODE_EVENT_ID PNone of
                 PStr (c # cs) \<Rightarrow> update_event (c # cs) ''failed''
                   [(''error'', opt_str (nr_error r)), (RAN_OUT_OF_ROUNDS, dget_or (nr_metadata r) RAN_OUT_OF_ROUNDS PNone)] w
               | _ \<Rightarrow> w);
          w = checkpointed (save_node_completed (re_cp env) path r) w
      in change_stop (note_failure (re_now env (w_tick w)) path (nr_error r)) w)"

section \<open>The state of one graph\<close>

record graph_state =
  gs_batches :: "node list list"
  gs_node_map :: "node dict"
  gs_outputs :: "node_result dict"
  gs_loop_counts :: "nat dict"
  gs_feedback :: "node_result dict"
  gs_retired :: "node_result list"
  gs_dispatch :: "nat option"

section \<open>Lemmas\<close>

lemma world_sels [simp]:
  "w_stop (checkpointed f w) = w_stop w" "w_events (checkpointed f w) = w_events w" "w_tick (checkpointed f w) = w_tick w"
  "w_cp (checkpointed f w) = map_option f (w_cp w)"
  "w_stop (change_stop g w) = map_option g (w_stop w)" "w_cp (change_stop g w) = w_cp w"
  "w_events (change_stop g w) = w_events w" "w_tick (change_stop g w) = w_tick w"
  "w_stop (update_event i s d w) = w_stop w" "w_cp (update_event i s d w) = w_cp w"
  "w_stop (snd (record_event t d p s w)) = w_stop w" "w_cp (snd (record_event t d p s w)) = w_cp w"
  "w_stop (record_skipped_node n pr why s w) = w_stop w" "w_cp (record_skipped_node n pr why s w) = w_cp w"
  "w_stop (snd (check_cancelled env w)) = w_stop w" "w_cp (snd (check_cancelled env w)) = w_cp w"
  "w_dispatch (checkpointed f w) = w_dispatch w" "w_dispatch (change_stop g w) = w_dispatch w"
  "w_dispatch (update_event i s d w) = w_dispatch w" "w_dispatch (snd (record_event t d p s w)) = w_dispatch w"
  "w_dispatch (record_skipped_node n pr why s w) = w_dispatch w" "w_dispatch (snd (check_cancelled env w)) = w_dispatch w"
  "w_stop (outside c w) = w_stop w" "w_cp (outside c w) = w_cp w" "w_dispatch (outside c w) = w_dispatch w"
  by (simp_all add: checkpointed_def change_stop_def update_event_def record_event_def record_skipped_node_def check_cancelled_def
      outside_def)

text \<open>Recording an outcome keeps a stopped run stopped at the same place, and stops a run that is
  not stopped exactly when the outcome is a failure, at the failed node's own path.\<close>

theorem record_outcome_stops:
  assumes "w_stop w = Some s"
  shows "\<exists>s'. w_stop (record_outcome env pfx n r w) = Some s' \<and>
    rs_path s' = (if stopped s then rs_path s
                  else if nr_status r = FAILED \<and> \<not> meta_set CLEANUP_HELD r then Some (pfx @ name_of n) else None)"
  using assms by (auto simp: record_outcome_def Let_def note_failure_def stopped_def)

section \<open>Witnesses\<close>

text \<open>An environment in which nothing happens from outside, and a run that has just started.\<close>

definition quiet_env :: run_env where
  "quiet_env = \<lparr>re_cp = plain_env, re_now = of_nat, re_monotonic = of_nat, re_isfile = (\<lambda>_ _. True), re_read = (\<lambda>_ _. None),
     re_cancelled = (\<lambda>_. False), re_stop_words = None, re_isoformat = (\<lambda>_. []), re_order = (\<lambda>_ ns. ns),
     re_agent_cancels = (\<lambda>_. False), re_attempt_spend = (\<lambda>_ _. None)\<rparr>"

definition fresh_world :: world where
  "fresh_world = \<lparr>w_stop = Some (new_run_stop default_policy), w_cp = Some (open_service True [] ''r''), w_events = [],
     w_known_issues = [], w_dispatch = [], w_restore = None, w_calls = [], w_tick = 0\<rparr>"

theorem record_outcome_stops_witness:
  "\<exists>s'. w_stop (record_outcome quiet_env [] (simple_node ''a'' []) (error_result FAILED ''boom'') fresh_world) = Some s' \<and>
    rs_path s' = Some ''a''"
  using record_outcome_stops [of fresh_world "new_run_stop default_policy" quiet_env "[]" "simple_node ''a'' []" "error_result FAILED ''boom''"]
  by (auto simp: new_run_stop_def stopped_def fresh_world_def)

end
