(* ===== verification/Loops.thy ===== *)
theory Loops
  imports World
begin

text \<open>
  Loops of a graph: \<^verbatim>\<open>_loop_verdict_missing\<close>, \<^verbatim>\<open>_handle_loop\<close> and \<^verbatim>\<open>_append_known_issues\<close> of
  \<^verbatim>\<open>temper_ai/stage/executor.py\<close>. A node with \<open>loop_to\<close> sends the graph back to the batch of its
  target; the attempts this throws away are kept aside, since they were paid for.
\<close>

section \<open>The model\<close>

text \<open>\<open>if node.loop_to\<close>\<close>

definition loop_target :: "node \<Rightarrow> string option" where
  "loop_target n = (case nc_loop_to (config n) of Some t \<Rightarrow> if t = [] then None else Some t | None \<Rightarrow> None)"

definition loop_condition_of :: "node \<Rightarrow> pyval dict" where
  "loop_condition_of n = (case nc_loop_condition (config n) of None \<Rightarrow> [] | Some c \<Rightarrow> c)"

definition loop_verdict_missing :: "node \<Rightarrow> node_result \<Rightarrow> node_result dict \<Rightarrow> string option" where
  "loop_verdict_missing n r node_outputs =
     (let condition = loop_condition_of n
      in if \<not> (loop_target n \<noteq> None \<and> condition \<noteq> [] \<and> nr_status r = COMPLETED) then None
         else if dget_or condition ''operator'' (PStr ''equals'') = PStr ''exists'' then None
         else case source_value condition node_outputs of
           Inl e \<Rightarrow> Some (''its loop cannot tell whether to go round again: '' @ exn_str e)
         | Inr v \<Rightarrow>
             if v = PNone \<or> (case v of PStr s \<Rightarrow> strip s = [] | _ \<Rightarrow> False)
             then Some (''it gave no '' @ py_str (dget_or condition ''source'' PNone) @ '', so its loop cannot tell whether to go round again'')
             else None)"

definition newline :: string where "newline = [CHR 0x0A]"

text \<open>
  \<open>_append_known_issues\<close>: nothing without a workspace; otherwise an entry at the end of the file, with
  a header when there was no file. The file system takes the write.
\<close>

definition append_known_issues :: "run_env \<Rightarrow> node \<Rightarrow> string \<Rightarrow> nat \<Rightarrow> pyval dict \<Rightarrow> world \<Rightarrow> world" where
  "append_known_issues env n loop_key iterations input_data w =
     (let workspace = dget_or input_data ''workspace_path'' PNone
      in if \<not> truthy workspace then w
         else let ctx_dir = py_str workspace @ ''/.context'';
                  known_path = ctx_dir @ ''/KNOWN_ISSUES.md'';
                  excerpt = (case re_read env (w_tick w) (ctx_dir @ ''/REVIEW.md'') of None \<Rightarrow> [] | Some t \<Rightarrow> take 4000 t);
                  header = (if re_read env (w_tick w) known_path = None \<and> \<not> list_ex (\<lambda>(p, t). p = known_path) (w_known_issues w)
                            then ''# Known Issues (shipped with open items)'' @ newline @ newline else []);
                  entry = ''## '' @ re_isoformat env (re_now env (w_tick w)) @ '' -- loop '' @ loop_key @ '' exhausted after '' @
                    nat_str iterations @ '' iterations'' @ newline @ newline @
                    ''Triggering node: `'' @ name_of n @ ''`'' @ newline @
                    ''Policy: ship_with_open_issues'' @ newline @
                    ''Last verdict output captured below. Downstream planners: treat these as TODO.'' @ newline @ newline @
                    ''### Last REVIEW.md at exhaustion'' @ newline @ newline @
                    ''```'' @ newline @ strip excerpt @ newline @ ''```'' @ newline @ newline @
                    ''---'' @ newline @ newline
              in w\<lparr>w_known_issues := w_known_issues w @ [(known_path, header @ entry)]\<rparr>)"

text \<open>The first batch that holds a node of the name.\<close>

fun batch_with :: "string \<Rightarrow> node list list \<Rightarrow> nat option" where
  "batch_with target [] = None"
| "batch_with target (b # bs) =
     (if list_ex (\<lambda>n. name_of n = target) b then Some 0 else map_option Suc (batch_with target bs))"

text \<open>\<open>node_outputs.pop(name, None)\<close> for each name, keeping what was there.\<close>

fun retire :: "string list \<Rightarrow> node_result dict \<Rightarrow> node_result dict \<times> node_result list" where
  "retire [] outs = (outs, [])"
| "retire (name # names) outs =
     (case dget outs name of
        None \<Rightarrow> retire names outs
      | Some r \<Rightarrow> (case retire names (ddel name outs) of (outs', rs) \<Rightarrow> (outs', r # rs)))"

definition should_loop :: "node \<Rightarrow> node_result \<Rightarrow> node_result dict \<Rightarrow> bool" where
  "should_loop n r node_outputs =
     (if nr_status r = FAILED then True
      else if loop_condition_of n \<noteq> [] \<and> nr_status r = COMPLETED
        then (case evaluate_condition (loop_condition_of n) node_outputs of Inl _ \<Rightarrow> False | Inr b \<Rightarrow> b)
      else False)"

definition loop_key :: "node \<Rightarrow> string \<Rightarrow> string" where
  "loop_key n target = name_of n @ ''->'' @ target"

text \<open>What happens to the result when there is no round left.\<close>

definition ran_out :: "run_env \<Rightarrow> node \<Rightarrow> node_result \<Rightarrow> string \<Rightarrow> nat \<Rightarrow> pyval dict \<Rightarrow> graph_state \<Rightarrow> world
    \<Rightarrow> node_result \<times> graph_state \<times> world" where
  "ran_out env n r target count input_data gs w =
     (let policy = (if nc_on_max_loops (config n) = [] then ''silent'' else nc_on_max_loops (config n))
      in if policy = ''ship_with_open_issues''
           then (r, gs, append_known_issues env n (loop_key n target) count input_data w)
         else if policy = ''fail'' \<and> nr_status r \<noteq> FAILED
           then let r' = with_metadata RAN_OUT_OF_ROUNDS
                      (PDict [(''count'', PInt (int count)), (''max'', PInt (nc_max_loops (config n))), (''loop_to'', PStr target)])
                      (with_error (Some (ran_out_reason count (nc_max_loops (config n)) (Some target))) (with_status FAILED r))
                in (r', gs\<lparr>gs_outputs := dset (name_of n) r' (gs_outputs gs)\<rparr>, w)
         else (r, gs, w))"

text \<open>
  \<open>_handle_loop\<close>: the batch to go back to, the result (which it may mark as failed; the same object is
  in the outputs), and the new state.
\<close>

definition handle_loop :: "run_env \<Rightarrow> string \<Rightarrow> node \<Rightarrow> node_result \<Rightarrow> pyval dict \<Rightarrow> graph_state \<Rightarrow> world
    \<Rightarrow> nat option \<times> node_result \<times> graph_state \<times> world" where
  "handle_loop env cp_prefix n r input_data gs w =
     (case loop_target n of
        None \<Rightarrow> (None, r, gs, w)
      | Some target \<Rightarrow>
          if \<not> should_loop n r (gs_outputs gs) then (None, r, gs, w)
          else
            let key = loop_key n target;
                count = dget_or (gs_loop_counts gs) key 0 + 1;
                gs = gs\<lparr>gs_loop_counts := dset key count (gs_loop_counts gs)\<rparr>
            in if nc_max_loops (config n) \<le> int count
               then (None, ran_out env n r target count input_data gs w)
               else
                 let gs = gs\<lparr>gs_feedback := dset (name_of n) r (gs_feedback gs)\<rparr>
                 in case batch_with target (gs_batches gs) of
                      None \<Rightarrow> (None, r, gs, w)
                    | Some idx \<Rightarrow>
                        let cleared = concat (map (map name_of) (drop idx (gs_batches gs)));
                            w = checkpointed (save_loop_rewind (re_cp env) (cp_prefix @ name_of n) (cp_prefix @ target)
                                  (map (\<lambda>c. cp_prefix @ c) cleared) (Some r)) w;
                            (outs, discarded) = retire cleared (gs_outputs gs)
                        in (Some idx, r, gs\<lparr>gs_outputs := outs, gs_retired := gs_retired gs @ discarded\<rparr>, w))"

section \<open>Lemmas\<close>

lemma batch_with_Some:
  "batch_with target bs = Some i \<Longrightarrow>
     i < length bs \<and> (\<exists>n \<in> set (bs ! i). name_of n = target) \<and> (\<forall>j < i. \<forall>n \<in> set (bs ! j). name_of n \<noteq> target)"
  by (induction bs arbitrary: i) (auto simp: list_ex_iff nth_Cons less_Suc_eq_0_disj split: if_splits nat.splits)

lemma retire_get: "retire names outs = (outs', rs) \<Longrightarrow> dget outs' k = (if k \<in> set names then None else dget outs k)"
  by (induction names arbitrary: outs outs' rs) (auto split: option.splits prod.splits)

lemma retire_ok: "retire names outs = (outs', rs) \<Longrightarrow> dict_ok outs \<Longrightarrow> dict_ok outs'"
  by (induction names arbitrary: outs outs' rs) (auto split: option.splits prod.splits)

lemma sum_ddel:
  fixes f :: "'a \<Rightarrow> 'b::comm_monoid_add"
  assumes "dict_ok d" and "dget d k = Some v"
  shows "sum_list (map (f \<circ> snd) d) = f v + sum_list (map (f \<circ> snd) (ddel k d))"
  using assms
proof (induction d)
  case (Cons p d)
  show ?case
  proof (cases "fst p = k")
    case True
    then have "k \<notin> fst ` set d" using Cons.prems(1) by (auto simp: dict_ok_def)
    then have "ddel k d = d" by (force simp: AList.delete_eq filter_id_conv)
    then show ?thesis using True Cons.prems(2) by (cases p) (simp add: AList.delete_eq)
  next
    case False
    then have "dget d k = Some v" "dict_ok d" using Cons.prems by (cases p; auto simp: dict_ok_def)+
    then show ?thesis using Cons.IH False by (cases p) (simp add: AList.delete_eq ac_simps)
  qed
qed simp

text \<open>Nothing is lost: whatever is summed over results, the kept and the retired ones together give the same.\<close>

lemma retire_sum:
  fixes f :: "node_result \<Rightarrow> 'b::comm_monoid_add"
  shows "retire names outs = (outs', rs) \<Longrightarrow> dict_ok outs \<Longrightarrow>
     sum_list (map (f \<circ> snd) outs') + sum_list (map f rs) = sum_list (map (f \<circ> snd) outs)"
proof (induction names arbitrary: outs outs' rs)
  case (Cons name names)
  show ?case
  proof (cases "dget outs name")
    case None
    then have "retire names outs = (outs', rs)" using Cons.prems(1) by simp
    then show ?thesis by (rule Cons.IH [OF _ Cons.prems(2)])
  next
    case (Some r)
    obtain rs' where rs': "retire names (ddel name outs) = (outs', rs')" "rs = r # rs'"
      using Cons.prems Some by (auto split: prod.splits)
    have "sum_list (map (f \<circ> snd) outs') + sum_list (map f rs') = sum_list (map (f \<circ> snd) (ddel name outs))"
      using Cons.IH [OF rs'(1)] Cons.prems(2) by blast
    then show ?thesis using sum_ddel [OF Cons.prems(2) Some, of f] rs'(2) by (simp add: ac_simps comp_def)
  qed
qed simp

lemma handle_loop_SomeD:
  assumes "handle_loop env pfx n r inp gs w = (Some idx, r', gs', w')"
  obtains target where "loop_target n = Some target" "should_loop n r (gs_outputs gs)"
    "int (dget_or (gs_loop_counts gs) (loop_key n target) 0 + 1) < nc_max_loops (config n)"
    "batch_with target (gs_batches gs) = Some idx" "r' = r"
    "gs_loop_counts gs' = dset (loop_key n target) (dget_or (gs_loop_counts gs) (loop_key n target) 0 + 1) (gs_loop_counts gs)"
    "gs_feedback gs' = dset (name_of n) r (gs_feedback gs)" "gs_batches gs' = gs_batches gs" "gs_node_map gs' = gs_node_map gs"
    "\<exists>discarded. retire (concat (map (map name_of) (drop idx (gs_batches gs)))) (gs_outputs gs) = (gs_outputs gs', discarded) \<and>
       gs_retired gs' = gs_retired gs @ discarded"
    "w' = checkpointed (save_loop_rewind (re_cp env) (pfx @ name_of n) (pfx @ target)
        (map (\<lambda>c. pfx @ c) (concat (map (map name_of) (drop idx (gs_batches gs))))) (Some r)) w"
proof -
  from assms obtain target where t: "loop_target n = Some target" "should_loop n r (gs_outputs gs)"
    "\<not> nc_max_loops (config n) \<le> int (dget_or (gs_loop_counts gs) (loop_key n target) 0 + 1)"
    "batch_with target (gs_batches gs) = Some idx"
    by (auto simp: handle_loop_def Let_def ran_out_def split: option.splits if_splits prod.splits)
  obtain outs ds where r: "retire (concat (map (map name_of) (drop idx (gs_batches gs)))) (gs_outputs gs) = (outs, ds)"
    by fastforce
  show thesis
    using assms t r by (intro that [of target]) (auto simp: handle_loop_def Let_def)
qed

section \<open>What loops guarantee\<close>

text \<open>C12: A rewind goes to the first batch that holds the target, forgets exactly the results of that
  batch and the later ones, keeps the trigger's result as feedback, and keeps a checkpoint of it that
  clears the same nodes.\<close>

theorem rewind_exact:
  assumes "handle_loop env pfx n r inp gs w = (Some idx, r', gs', w')"
  shows "\<exists>target. nc_loop_to (config n) = Some target \<and> idx < length (gs_batches gs) \<and>
    (\<exists>m \<in> set (gs_batches gs ! idx). name_of m = target) \<and>
    (\<forall>j < idx. \<forall>m \<in> set (gs_batches gs ! j). name_of m \<noteq> target) \<and>
    (\<forall>k. dget (gs_outputs gs') k =
       (if \<exists>m \<in> set (concat (drop idx (gs_batches gs))). name_of m = k then None else dget (gs_outputs gs) k)) \<and>
    dget (gs_feedback gs') (name_of n) = Some r \<and>
    w_cp w' = map_option (run_op (re_cp env) (OpRewind (pfx @ name_of n) (pfx @ target)
       (map (\<lambda>c. pfx @ c) (map name_of (concat (drop idx (gs_batches gs))))) (Some r))) (w_cp w)"
proof -
  from assms obtain target ds where t: "loop_target n = Some target" "batch_with target (gs_batches gs) = Some idx"
    and ret: "retire (concat (map (map name_of) (drop idx (gs_batches gs)))) (gs_outputs gs) = (gs_outputs gs', ds)"
    and fb: "gs_feedback gs' = dset (name_of n) r (gs_feedback gs)"
    and w: "w' = checkpointed (save_loop_rewind (re_cp env) (pfx @ name_of n) (pfx @ target)
        (map (\<lambda>c. pfx @ c) (concat (map (map name_of) (drop idx (gs_batches gs))))) (Some r)) w"
    by (elim handle_loop_SomeD) blast
  have "nc_loop_to (config n) = Some target" using t(1) by (auto simp: loop_target_def split: option.splits if_splits)
  moreover have "k \<in> set (concat (map (map name_of) (drop idx (gs_batches gs)))) \<longleftrightarrow>
      (\<exists>m \<in> set (concat (drop idx (gs_batches gs))). name_of m = k)" for k
    by (auto simp: map_concat [symmetric])
  ultimately show ?thesis
    using batch_with_Some [OF t(2)] retire_get [OF ret] fb w by (auto simp: map_concat comp_def)
qed

text \<open>A rewind never loses what was spent: the cost and the tokens of the kept and the thrown-away
  attempts together are what they were.\<close>

theorem rewind_keeps_totals:
  assumes "handle_loop env pfx n r inp gs w = (Some idx, r', gs', w')" and "dict_ok (gs_outputs gs)"
  shows "sum_list (map (nr_cost_usd \<circ> snd) (gs_outputs gs')) + sum_list (map nr_cost_usd (gs_retired gs')) =
      sum_list (map (nr_cost_usd \<circ> snd) (gs_outputs gs)) + sum_list (map nr_cost_usd (gs_retired gs)) \<and>
    sum_list (map (nr_total_tokens \<circ> snd) (gs_outputs gs')) + sum_list (map nr_total_tokens (gs_retired gs')) =
      sum_list (map (nr_total_tokens \<circ> snd) (gs_outputs gs)) + sum_list (map nr_total_tokens (gs_retired gs))"
proof -
  from assms(1) obtain ds where ret: "retire (concat (map (map name_of) (drop idx (gs_batches gs)))) (gs_outputs gs) = (gs_outputs gs', ds)"
    and rt: "gs_retired gs' = gs_retired gs @ ds"
    by (elim handle_loop_SomeD) blast
  show ?thesis
    using retire_sum [OF ret assms(2), of nr_cost_usd] retire_sum [OF ret assms(2), of nr_total_tokens] rt
    by simp
qed

lemma rewind_count:
  assumes "handle_loop env pfx n r inp gs w = (Some idx, r', gs', w')"
  shows "\<exists>target. loop_target n = Some target \<and>
    dget_or (gs_loop_counts gs') (loop_key n target) 0 = dget_or (gs_loop_counts gs) (loop_key n target) 0 + 1 \<and>
    int (dget_or (gs_loop_counts gs') (loop_key n target) 0) < nc_max_loops (config n) \<and>
    (\<forall>k. k \<noteq> loop_key n target \<longrightarrow> dget (gs_loop_counts gs') k = dget (gs_loop_counts gs) k)"
  using assms by (elim handle_loop_SomeD) auto

text \<open>When the last round is used up under the policy \<open>fail\<close>, a step that completed is failed with
  the count, the limit and the target in its reason, in the outputs as well, and the graph does not go back.\<close>

theorem ran_out_fails:
  assumes "loop_target n = Some target" and "should_loop n r (gs_outputs gs)" and "nr_status r = COMPLETED"
    and "nc_on_max_loops (config n) = ''fail''"
    and "nc_max_loops (config n) \<le> int (dget_or (gs_loop_counts gs) (loop_key n target) 0 + 1)"
    and "handle_loop env pfx n r inp gs w = (idx, r', gs', w')"
  shows "idx = None \<and> nr_status r' = FAILED \<and> meta_set RAN_OUT_OF_ROUNDS r' \<and>
    nr_error r' = Some (ran_out_reason (dget_or (gs_loop_counts gs) (loop_key n target) 0 + 1) (nc_max_loops (config n)) (Some target)) \<and>
    dget (gs_outputs gs') (name_of n) = Some r' \<and> nr_cost_usd r' = nr_cost_usd r"
  using assms by (auto simp: handle_loop_def ran_out_def Let_def)

text \<open>A loop whose verdict can be read is decided by it: for a completed node with a condition, either
  the verdict is reported missing, or the condition's source has a value that is not blank.\<close>

theorem verdict_missing_or_readable:
  assumes "loop_verdict_missing n r outs = None" and "loop_target n \<noteq> None" and "loop_condition_of n \<noteq> []"
    and "nr_status r = COMPLETED"
    and "dget_or (loop_condition_of n) ''operator'' (PStr ''equals'') \<noteq> PStr ''exists''"
  shows "\<exists>v. source_value (loop_condition_of n) outs = Inr v \<and> v \<noteq> PNone \<and> (\<forall>s. v = PStr s \<longrightarrow> strip s \<noteq> [])"
  using assms by (auto simp: loop_verdict_missing_def Let_def split: sum.splits if_splits)

section \<open>Witnesses\<close>

definition looping :: node where
  "looping = agent_node ((default_config ''check'')\<lparr>nc_depends_on := [''build''], nc_loop_to := Some ''build'',
     nc_max_loops := 3, nc_on_max_loops := ''fail''\<rparr>) []"

definition loop_state :: graph_state where
  "loop_state = \<lparr>gs_batches = [[simple_node ''plan'' []], [simple_node ''build'' [''plan'']], [looping]],
     gs_node_map = [], gs_outputs = [(''plan'', plain_result COMPLETED), (''build'', plain_result COMPLETED),
       (''check'', error_result FAILED ''bad'')], gs_loop_counts = [], gs_feedback = [], gs_retired = [], gs_dispatch = None\<rparr>"

lemma loop_state_rewinds:
  "\<exists>gs' w'. handle_loop quiet_env [] looping (error_result FAILED ''bad'') [] loop_state fresh_world =
     (Some 1, error_result FAILED ''bad'', gs', w') \<and> gs_loop_counts gs' = [(''check->build'', 1)]"
  by (simp add: handle_loop_def looping_def loop_target_def default_config_def should_loop_def loop_state_def
      loop_key_def Let_def)

theorem rewind_exact_witness:
  "\<exists>gs' w'. handle_loop quiet_env [] looping (error_result FAILED ''bad'') [] loop_state fresh_world =
     (Some 1, error_result FAILED ''bad'', gs', w') \<and> dget (gs_outputs gs') ''build'' = None \<and>
     dget (gs_outputs gs') ''plan'' = Some (plain_result COMPLETED)"
proof -
  obtain gs' w' where h: "handle_loop quiet_env [] looping (error_result FAILED ''bad'') [] loop_state fresh_world =
     (Some 1, error_result FAILED ''bad'', gs', w')" using loop_state_rewinds by blast
  then show ?thesis using rewind_exact [OF h] by (auto simp: loop_state_def looping_def)
qed

theorem rewind_keeps_totals_witness:
  "\<exists>gs' w'. handle_loop quiet_env [] looping (error_result FAILED ''bad'') [] loop_state fresh_world =
     (Some 1, error_result FAILED ''bad'', gs', w') \<and>
     sum_list (map (nr_cost_usd \<circ> snd) (gs_outputs gs')) + sum_list (map nr_cost_usd (gs_retired gs')) = 0"
proof -
  obtain gs' w' where h: "handle_loop quiet_env [] looping (error_result FAILED ''bad'') [] loop_state fresh_world =
     (Some 1, error_result FAILED ''bad'', gs', w')" using loop_state_rewinds by blast
  then show ?thesis using rewind_keeps_totals [OF h] by (auto simp: loop_state_def dict_ok_def)
qed

theorem ran_out_fails_witness:
  "\<exists>r' gs' w'. handle_loop quiet_env [] (agent_node ((config looping)\<lparr>nc_max_loops := 1, nc_loop_condition :=
      Some [(''source'', PStr ''check.status''), (''value'', PStr ''completed'')]\<rparr>) []) (plain_result COMPLETED) []
     (loop_state\<lparr>gs_outputs := [(''check'', plain_result COMPLETED)]\<rparr>) fresh_world = (None, r', gs', w') \<and> nr_status r' = FAILED"
proof -
  let ?n = "agent_node ((config looping)\<lparr>nc_max_loops := 1, nc_loop_condition :=
      Some [(''source'', PStr ''check.status''), (''value'', PStr ''completed'')]\<rparr>) []"
  let ?gs = "loop_state\<lparr>gs_outputs := [(''check'', plain_result COMPLETED)]\<rparr>"
  obtain idx r' gs' w' where h: "handle_loop quiet_env [] ?n (plain_result COMPLETED) [] ?gs fresh_world = (idx, r', gs', w')"
    by (cases "handle_loop quiet_env [] ?n (plain_result COMPLETED) [] ?gs fresh_world") auto
  have "should_loop ?n (plain_result COMPLETED) (gs_outputs ?gs)" by code_simp
  moreover have "loop_target ?n = Some ''build''" "nc_on_max_loops (config ?n) = ''fail''" "nc_max_loops (config ?n) = 1"
    by (simp_all add: loop_target_def looping_def)
  ultimately show ?thesis using ran_out_fails [OF _ _ _ _ _ h, of "''build''"] h by auto
qed

theorem verdict_missing_or_readable_witness:
  "\<exists>v. source_value [(''source'', PStr ''check.status'')] [(''check'', plain_result COMPLETED)] = Inr v \<and> v \<noteq> PNone"
proof -
  let ?n = "agent_node ((config looping)\<lparr>nc_loop_condition := Some [(''source'', PStr ''check.status'')]\<rparr>) []"
  have "loop_verdict_missing ?n (plain_result COMPLETED) [(''check'', plain_result COMPLETED)] = None" by code_simp
  from verdict_missing_or_readable [OF this] show ?thesis
    by (auto simp: loop_target_def looping_def loop_condition_of_def dget_or_def)
qed

end
