(* ===== verification/Dispatch.thy ===== *)
theory Dispatch
  imports World Toposort
begin

text \<open>
  Changing the graph of a running workflow: \<^verbatim>\<open>_apply_declarative_dispatch\<close>, \<^verbatim>\<open>_enforce_caps_and_build\<close>
  and the tool-call buffers of \<^verbatim>\<open>temper_ai/stage/executor.py\<close>, and the restoring of the bookkeeping on a
  resume (\<^verbatim>\<open>apply_dispatch_history_on_resume\<close> of \<^verbatim>\<open>temper_ai/runner/resume.py\<close>).

  An exception leaves what was changed before it, so the functions return the exception, if any, with
  the state. The graph loader builds a node from its dictionary; it is a parameter, \<open>None\<close> when the
  context has no loader.
\<close>

section \<open>The model\<close>

record dispatch_env =
  dx_jinja :: jinja
  dx_json :: json
  dx_digest :: "pyval dict \<Rightarrow> string"
  dx_loader :: "(pyval dict \<Rightarrow> node res) option"
  dx_limits :: dispatch_limits

text \<open>What one dispatch changes.\<close>

record apply_state =
  as_state :: dispatch_state
  as_node_map :: "node dict"
  as_outputs :: "node_result dict"
  as_batches :: "node list list"
  as_new :: "node list"
  as_added :: "pyval dict list"
  as_removed :: "string list"

definition agent_path :: "string \<Rightarrow> node \<Rightarrow> string" where
  "agent_path parent_path n = (if parent_path \<noteq> [] then parent_path @ ''.'' @ name_of n else name_of n)"

definition has_pending_tool_call_ops :: "dispatch_state option \<Rightarrow> string \<Rightarrow> node \<Rightarrow> bool" where
  "has_pending_tool_call_ops st parent_path n =
     (case st of None \<Rightarrow> False
      | Some s \<Rightarrow> dget_or (pending_ops s) (agent_path parent_path n) [] \<noteq> [] \<or> dget_or (pending_ops s) (name_of n) [] \<noteq> [])"

definition drain_tool_call_ops :: "dispatch_state \<Rightarrow> string \<Rightarrow> node \<Rightarrow> dispatch_op list \<times> dispatch_state" where
  "drain_tool_call_ops s parent_path n =
     (case dget (pending_ops s) (agent_path parent_path n) of
        Some ops \<Rightarrow> (ops, s\<lparr>pending_ops := ddel (agent_path parent_path n) (pending_ops s)\<rparr>)
      | None \<Rightarrow> (dget_or (pending_ops s) (name_of n) [], s\<lparr>pending_ops := ddel (name_of n) (pending_ops s)\<rparr>))"

definition opt_dict :: "pyval \<Rightarrow> pyval dict" where
  "opt_dict v = (case v of PDict d \<Rightarrow> d | _ \<Rightarrow> [])"

definition child_fingerprint :: "dispatch_env \<Rightarrow> pyval dict \<Rightarrow> fingerprint" where
  "child_fingerprint dx op_dict =
     fingerprint_node (dx_digest dx)
       (text_or (dget_or op_dict ''agent'' PNone) (text_or (dget_or op_dict ''name'' PNone) []))
       (opt_dict (dget_or op_dict ''input_map'' PNone))"

text \<open>The checks before a node is built: the cap that is exceeded, if any.\<close>

definition cap_exceeded :: "dispatch_env \<Rightarrow> string \<Rightarrow> int \<Rightarrow> dispatch_state \<Rightarrow> pyval dict \<Rightarrow> string option" where
  "cap_exceeded dx dispatcher_name dispatcher_depth state op_dict =
     (let limits = dx_limits dx; from_d = ''Dispatch from '' @ quoted dispatcher_name
      in if max_dispatch_depth limits < dispatcher_depth + 1
         then Some (from_d @ '' would create a node at depth '' @ int_str (dispatcher_depth + 1) @
                '', exceeding max_dispatch_depth='' @ int_str (max_dispatch_depth limits))
         else if max_dynamic_nodes limits < dispatched_count state + 1
         then Some (from_d @ '' would bring run-wide dispatched-node count to '' @ int_str (dispatched_count state + 1) @
                '', exceeding max_dynamic_nodes='' @ int_str (max_dynamic_nodes limits))
         else if cycle_detection limits
         then (case check_cycle state dispatcher_name (child_fingerprint dx op_dict) of
                 None \<Rightarrow> None
               | Some a \<Rightarrow> Some (from_d @ '' produces a cycle: node with fingerprint ('' @
                   repr_str (fst (child_fingerprint dx op_dict)) @ '', '' @ repr_str (snd (child_fingerprint dx op_dict)) @
                   '') matches ancestor '' @ repr_str a))
         else None)"

definition enforce_caps_and_build :: "dispatch_env \<Rightarrow> (pyval dict \<Rightarrow> node res) \<Rightarrow> string \<Rightarrow> int \<Rightarrow> pyval dict \<Rightarrow> apply_state
    \<Rightarrow> exn option \<times> apply_state" where
  "enforce_caps_and_build dx build dispatcher_name dispatcher_depth op_dict a =
     (case cap_exceeded dx dispatcher_name dispatcher_depth (as_state a) op_dict of
        Some m \<Rightarrow> (Some (Exn DispatchCapExceeded m), a)
      | None \<Rightarrow>
          (case build op_dict of
             Inl e \<Rightarrow> (Some (Exn DispatchRenderError (''dispatch from '' @ quoted dispatcher_name @ '' produced node '' @
                        node_label op_dict @ '' that failed to build: '' @ exn_str e)), a)
           | Inr built \<Rightarrow>
               if dhas (name_of built) (as_node_map a) \<or> dhas (name_of built) (as_outputs a)
               then (Some (Exn DispatchRenderError (''dispatch from '' @ quoted dispatcher_name @ '' produced node '' @
                      repr_str (name_of built) @ '' which already exists in the DAG'')), a)
               else (None, a\<lparr>as_node_map := dset (name_of built) built (as_node_map a),
                      as_new := as_new a @ [built],
                      as_state := (as_state a)\<lparr>depths := dset (name_of built) (dispatcher_depth + 1) (depths (as_state a)),
                        parents := dset (name_of built) dispatcher_name (parents (as_state a)),
                        fingerprints := dset (name_of built) (child_fingerprint dx op_dict) (fingerprints (as_state a)),
                        dispatched_count := dispatched_count (as_state a) + 1\<rparr>\<rparr>)))"

fun apply_adds :: "dispatch_env \<Rightarrow> (pyval dict \<Rightarrow> node res) \<Rightarrow> string \<Rightarrow> int \<Rightarrow> pyval dict list \<Rightarrow> apply_state
    \<Rightarrow> exn option \<times> apply_state" where
  "apply_adds dx build name depth [] a = (None, a)"
| "apply_adds dx build name depth (d # ds) a =
     (case enforce_caps_and_build dx build name depth d a of
        (Some e, a') \<Rightarrow> (Some e, a')
      | (None, a') \<Rightarrow> apply_adds dx build name depth ds (a'\<lparr>as_added := as_added a' @ [d]\<rparr>))"

text \<open>A remove: nothing when the target already has a result that is not pending.\<close>

definition apply_remove :: "string \<Rightarrow> string list \<Rightarrow> string \<Rightarrow> apply_state \<Rightarrow> apply_state" where
  "apply_remove dispatcher_name add_names target a =
     (if (case dget (as_outputs a) target of None \<Rightarrow> False | Some r \<Rightarrow> nr_status r \<noteq> PENDING) then a
      else a\<lparr>as_node_map := ddel target (as_node_map a),
             as_batches := map (filter (\<lambda>n. name_of n \<noteq> target)) (as_batches a),
             as_outputs := (if target \<in> set add_names then ddel target (as_outputs a)
                            else dset target (tombstone dispatcher_name) (as_outputs a)),
             as_removed := as_removed a @ [target]\<rparr>)"

fun apply_ops :: "dispatch_env \<Rightarrow> (pyval dict \<Rightarrow> node res) \<Rightarrow> string \<Rightarrow> int \<Rightarrow> string list \<Rightarrow> dispatch_op list \<Rightarrow> apply_state
    \<Rightarrow> exn option \<times> apply_state" where
  "apply_ops dx build name depth add_names [] a = (None, a)"
| "apply_ops dx build name depth add_names (op # ops) a =
     (if op_op op = ''remove''
      then apply_ops dx build name depth add_names ops
             (apply_remove name add_names (case op_target op of None \<Rightarrow> [] | Some t \<Rightarrow> t) a)
      else if op_op op = ''add''
      then (case apply_adds dx build name depth (all_added_nodes op) a of
              (Some e, a') \<Rightarrow> (Some e, a')
            | (None, a') \<Rightarrow> apply_ops dx build name depth add_names ops a')
      else apply_ops dx build name depth add_names ops a)"

text \<open>The names the operations add.\<close>

definition names_added :: "dispatch_op list \<Rightarrow> string list" where
  "names_added ops = concat (map (\<lambda>op. if op_op op = ''add''
     then concat (map (\<lambda>nd. case dget_or nd ''name'' PNone of PStr (c # cs) \<Rightarrow> [c # cs] | _ \<Rightarrow> []) (all_added_nodes op)) else []) ops)"

text \<open>The guarded part: the fan-out cap, the dispatcher's own fingerprint, then the operations.\<close>

definition guarded_ops :: "dispatch_env \<Rightarrow> (pyval dict \<Rightarrow> node res) \<Rightarrow> node \<Rightarrow> pyval dict \<Rightarrow> dispatch_op list \<Rightarrow> apply_state
    \<Rightarrow> exn option \<times> apply_state" where
  "guarded_ops dx build n input_data ops a =
     (let total_added = length (concat (map all_added_nodes ops)); limits = dx_limits dx
      in if max_children_per_dispatch limits < int total_added
         then (Some (Exn DispatchCapExceeded (''Dispatch from '' @ quoted (name_of n) @ '' emitted '' @ nat_str total_added @
                '' add-node(s), exceeding max_children_per_dispatch='' @ int_str (max_children_per_dispatch limits))), a)
         else
           let s = as_state a;
               s = (if dhas (name_of n) (fingerprints s) then s
                    else s\<lparr>fingerprints := dset (name_of n) (fingerprint_node (dx_digest dx)
                           (py_str (dget_or (agent_config n) ''name'' (PStr (name_of n)))) input_data) (fingerprints s)\<rparr>)
           in apply_ops dx build (name_of n) (dget_or (depths s) (name_of n) 0) (names_added ops) ops (a\<lparr>as_state := s\<rparr>))"

text \<open>The store of dispatch states.\<close>

definition dispatch_state_of :: "nat option \<Rightarrow> world \<Rightarrow> dispatch_state option" where
  "dispatch_state_of p w = (case p of None \<Rightarrow> None | Some i \<Rightarrow> if i < length (w_dispatch w) then Some (w_dispatch w ! i) else None)"

definition seed_dispatch :: "nat option \<Rightarrow> world \<Rightarrow> nat \<times> world" where
  "seed_dispatch p w =
     (case dispatch_state_of p w of
        Some _ \<Rightarrow> (the p, w)
      | None \<Rightarrow> (length (w_dispatch w), w\<lparr>w_dispatch := w_dispatch w @ [new_dispatch_state]\<rparr>))"

definition set_dispatch :: "nat \<Rightarrow> dispatch_state \<Rightarrow> world \<Rightarrow> world" where
  "set_dispatch i s w = w\<lparr>w_dispatch := (w_dispatch w)[i := s]\<rparr>"

text \<open>The end of a dispatch that changed something: the checkpoint and the event.\<close>

definition note_dispatch :: "run_env \<Rightarrow> exec_context \<Rightarrow> string option \<Rightarrow> node \<Rightarrow> int \<Rightarrow> apply_state \<Rightarrow> world \<Rightarrow> world" where
  "note_dispatch env cx graph_event n depth a w =
     (if as_added a = [] \<and> as_removed a = [] then w
      else snd (record_event ''dispatch.applied''
             [(''dispatcher'', PStr (name_of n)),
              (''added'', PList (map (\<lambda>d. dget_or d ''name'' PNone) (as_added a))),
              (''removed'', str_vals (as_removed a)), (''depth'', PInt depth),
              (''dispatched_count_total'', PInt (dispatched_count (as_state a)))] graph_event ''completed''
             (checkpointed (save_dispatch_applied (re_cp env) (agent_path (cx_node_path cx) n) (as_added a) (as_removed a) depth
                (dget_or (fingerprints (as_state a)) (name_of n) ([], [])) (int (length (as_added a))) (cx_node_path cx)) w)))"

text \<open>After rendering: from the operations to the changed graph.\<close>

definition apply_rendered :: "run_env \<Rightarrow> dispatch_env \<Rightarrow> (pyval dict \<Rightarrow> node res) \<Rightarrow> exec_context \<Rightarrow> string option \<Rightarrow> node \<Rightarrow> pyval dict
    \<Rightarrow> dispatch_op list \<Rightarrow> nat \<Rightarrow> graph_state \<Rightarrow> world \<Rightarrow> exn option \<times> graph_state \<times> world" where
  "apply_rendered env dx build cx graph_event n input_data ops ptr gs w =
     (let s = w_dispatch w ! ptr;
          depth = dget_or (depths s) (name_of n) 0;
          (err, a) = guarded_ops dx build n input_data ops
            \<lparr>as_state = s, as_node_map = gs_node_map gs, as_outputs = gs_outputs gs, as_batches = gs_batches gs,
             as_new = [], as_added = [], as_removed = []\<rparr>;
          gs = gs\<lparr>gs_node_map := as_node_map a, gs_outputs := as_outputs a, gs_batches := as_batches a\<rparr>;
          w = set_dispatch ptr (as_state a) w
      in case err of
           Some e \<Rightarrow>
             (Some e, gs,
              if kind_of e = DispatchCapExceeded
              then snd (record_event ''dispatch.cap_exceeded''
                     [(''dispatcher'', PStr (name_of n)), (''reason'', PStr (exn_str e)), (''depth'', PInt depth),
                      (''dispatched_count_total'', PInt (dispatched_count (as_state a)))] graph_event ''failed'' w)
              else w)
         | None \<Rightarrow>
             if as_new a = [] then (None, gs, note_dispatch env cx graph_event n depth a w)
             else case topological_sort (as_new a) of
               Inl e \<Rightarrow> (Some e, gs, w)
             | Inr new_batches \<Rightarrow>
                 (None, gs\<lparr>gs_batches := gs_batches gs @ new_batches\<rparr>, note_dispatch env cx graph_event n depth a w))"

definition apply_declarative_dispatch :: "run_env \<Rightarrow> dispatch_env \<Rightarrow> exec_context \<Rightarrow> string option \<Rightarrow> string option \<Rightarrow> node \<Rightarrow> node_result
    \<Rightarrow> pyval dict \<Rightarrow> graph_state \<Rightarrow> world \<Rightarrow> exn option \<times> graph_state \<times> world" where
  "apply_declarative_dispatch env dx cx parent_event graph_event n r input_data gs w =
     (if node_kind n \<noteq> AgentNode \<or> nr_status r = FAILED then (None, gs, w)
      else if \<not> truthy (dget_or (agent_config n) ''dispatch'' PNone) \<and>
              \<not> has_pending_tool_call_ops (dispatch_state_of (gs_dispatch gs) w) (cx_node_path cx) n
      then (None, gs, w)
      else case dx_loader dx of
        None \<Rightarrow> (None, gs, w)
      | Some build \<Rightarrow>
          (let (ptr, w) = seed_dispatch (gs_dispatch gs) w;
               gs = gs\<lparr>gs_dispatch := Some ptr\<rparr>;
               agent_output = (case nr_agent_results r of ar # _ \<Rightarrow> ar_output ar | [] \<Rightarrow> nr_output r);
               agent_structured = (case nr_agent_results r of ar # _ \<Rightarrow> ar_structured_output ar | [] \<Rightarrow> nr_structured_output r);
               dispatch_input = fst (resolve_inputs n input_data (gs_outputs gs) [] None)
           in case render_dispatch (dx_jinja dx) (dx_json dx) (agent_config n) agent_output agent_structured dispatch_input of
                Inl e \<Rightarrow> (Some e, gs, w)
              | Inr (ops, dispatch_notes) \<Rightarrow>
                  (let (tool_ops, s) = drain_tool_call_ops (w_dispatch w ! ptr) (cx_node_path cx) n;
                       w = set_dispatch ptr s w;
                       w = (if dispatch_notes = [] then w
                            else snd (record_event ''dispatch.applied''
                              [(''dispatcher'', PStr (name_of n)), (''added'', PList []), (''removed'', PList []),
                               (''skipped_reasons'', str_vals dispatch_notes)] parent_event ''skipped'' w));
                       ops = ops @ tool_ops
                   in if ops = [] then (None, gs, w)
                      else apply_rendered env dx build cx graph_event n input_data ops ptr gs w)))"

section \<open>Restoring the bookkeeping\<close>

definition restore_child :: "dispatch_env \<Rightarrow> string \<Rightarrow> int \<Rightarrow> dispatch_state \<Rightarrow> pyval dict \<Rightarrow> dispatch_state" where
  "restore_child dx dispatcher_name dispatcher_depth s node_dict =
     (case dget_or node_dict ''name'' PNone of
        PStr name \<Rightarrow> s\<lparr>depths := dset name (dispatcher_depth + 1) (depths s),
          parents := dset name dispatcher_name (parents s),
          fingerprints := dset name (fingerprint_node (dx_digest dx) (text_or (dget_or node_dict ''agent'' PNone) name)
            (opt_dict (dget_or node_dict ''input_map'' PNone))) (fingerprints s)\<rparr>
      | _ \<Rightarrow> s)"

definition restore_event :: "dispatch_env \<Rightarrow> dispatch_entry \<Rightarrow> dispatch_state \<Rightarrow> dispatch_state" where
  "restore_event dx e s =
     (let dispatcher_name = last (split_dot (de_dispatcher e));
          s = (if dhas dispatcher_name (fingerprints s) then s
               else s\<lparr>fingerprints := dset dispatcher_name (de_fingerprint e) (fingerprints s)\<rparr>);
          s = foldl (restore_child dx dispatcher_name (de_depth e)) s (de_added_nodes e)
      in s\<lparr>dispatched_count := dispatched_count s + de_delta e\<rparr>)"

definition apply_dispatch_history_on_resume :: "dispatch_env \<Rightarrow> dispatch_entry list \<Rightarrow> dispatch_state option \<Rightarrow> dispatch_state option" where
  "apply_dispatch_history_on_resume dx history st =
     (if history = [] then st
      else Some (fold (restore_event dx) history (case st of None \<Rightarrow> new_dispatch_state | Some s \<Rightarrow> s)))"

section \<open>Lemmas\<close>

text \<open>The caps on one dispatch state.\<close>

definition caps_ok :: "dispatch_limits \<Rightarrow> dispatch_state \<Rightarrow> bool" where
  "caps_ok lms s \<longleftrightarrow> dispatched_count s \<le> max_dynamic_nodes lms \<and>
     (\<forall>name d. dget (depths s) name = Some d \<longrightarrow> 0 < d \<and> d \<le> max_dispatch_depth lms)"

text \<open>What a successful add does.\<close>

lemma enforce_caps_Inr:
  assumes "enforce_caps_and_build dx build name depth d a = (None, a')"
  shows "\<exists>built. build d = Inr built \<and> \<not> dhas (name_of built) (as_node_map a) \<and> \<not> dhas (name_of built) (as_outputs a) \<and>
    depth + 1 \<le> max_dispatch_depth (dx_limits dx) \<and> dispatched_count (as_state a) + 1 \<le> max_dynamic_nodes (dx_limits dx) \<and>
    (cycle_detection (dx_limits dx) \<longrightarrow> check_cycle (as_state a) name (child_fingerprint dx d) = None) \<and>
    a' = a\<lparr>as_node_map := dset (name_of built) built (as_node_map a), as_new := as_new a @ [built],
      as_state := (as_state a)\<lparr>depths := dset (name_of built) (depth + 1) (depths (as_state a)),
        parents := dset (name_of built) name (parents (as_state a)),
        fingerprints := dset (name_of built) (child_fingerprint dx d) (fingerprints (as_state a)),
        dispatched_count := dispatched_count (as_state a) + 1\<rparr>\<rparr>"
  using assms
  by (auto simp: enforce_caps_and_build_def cap_exceeded_def Let_def split: option.splits sum.splits if_splits)

lemma enforce_caps_Inl: "enforce_caps_and_build dx build name depth d a = (Some e, a') \<Longrightarrow> a' = a"
  by (auto simp: enforce_caps_and_build_def split: option.splits sum.splits if_splits)

text \<open>An invariant of the apply state that adds and removes keep, whatever happens.\<close>

definition apply_ok :: "dispatch_limits \<Rightarrow> apply_state \<Rightarrow> bool" where
  "apply_ok lms a \<longleftrightarrow> caps_ok lms (as_state a) \<and> dict_ok (as_outputs a) \<and> dict_ok (as_node_map a)"

lemma enforce_caps_ok:
  assumes "enforce_caps_and_build dx build name depth d a = (err, a')" and "apply_ok (dx_limits dx) a" and "0 \<le> depth"
  shows "apply_ok (dx_limits dx) a' \<and> length (as_new a') = length (as_new a) + (if err = None then 1 else 0) \<and>
    dispatched_count (as_state a') = dispatched_count (as_state a) + (if err = None then 1 else 0) \<and>
    as_outputs a' = as_outputs a \<and> as_batches a' = as_batches a \<and> as_removed a' = as_removed a \<and> as_added a' = as_added a"
proof (cases err)
  case None
  with assms(1) obtain built where
    b: "depth + 1 \<le> max_dispatch_depth (dx_limits dx)" "dispatched_count (as_state a) + 1 \<le> max_dynamic_nodes (dx_limits dx)"
    and a': "a' = a\<lparr>as_node_map := dset (name_of built) built (as_node_map a), as_new := as_new a @ [built],
      as_state := (as_state a)\<lparr>depths := dset (name_of built) (depth + 1) (depths (as_state a)),
        parents := dset (name_of built) name (parents (as_state a)),
        fingerprints := dset (name_of built) (child_fingerprint dx d) (fingerprints (as_state a)),
        dispatched_count := dispatched_count (as_state a) + 1\<rparr>\<rparr>"
    using enforce_caps_Inr [of dx build name depth d a a'] by auto
  from assms(2) have "dict_ok (as_outputs a)" "dict_ok (dset (name_of built) built (as_node_map a))"
      "\<forall>k x. dget (depths (as_state a)) k = Some x \<longrightarrow> 0 < x \<and> x \<le> max_dispatch_depth (dx_limits dx)"
    by (auto simp: apply_ok_def caps_ok_def)
  with b assms(3) None show ?thesis unfolding a' by (simp add: apply_ok_def caps_ok_def)
next
  case (Some e)
  then have "a' = a" using enforce_caps_Inl assms(1) by blast
  then show ?thesis using assms(2) Some by simp
qed

lemma apply_adds_ok:
  assumes "apply_adds dx build name depth ds a = (err, a')" and "apply_ok (dx_limits dx) a" and "0 \<le> depth"
  shows "apply_ok (dx_limits dx) a' \<and>
    int (length (as_new a')) - int (length (as_new a)) = dispatched_count (as_state a') - dispatched_count (as_state a) \<and>
    length (as_new a) \<le> length (as_new a') \<and> length (as_new a') \<le> length (as_new a) + length ds \<and>
    as_outputs a' = as_outputs a \<and> as_batches a' = as_batches a \<and> as_removed a' = as_removed a \<and>
    (err = None \<longrightarrow> as_added a' = as_added a @ ds)"
  using assms
proof (induction ds arbitrary: a)
  case (Cons d ds)
  obtain err1 a1 where e: "enforce_caps_and_build dx build name depth d a = (err1, a1)" by fastforce
  note one = enforce_caps_ok [OF e Cons.prems(2,3)]
  show ?case
  proof (cases err1)
    case None
    let ?a1 = "a1\<lparr>as_added := as_added a1 @ [d]\<rparr>"
    have "apply_adds dx build name depth ds ?a1 = (err, a')" using Cons.prems(1) e None by simp
    from Cons.IH [OF this] one None Cons.prems(3) show ?thesis by (auto simp: apply_ok_def)
  next
    case (Some x)
    then show ?thesis using Cons.prems(1) e one by auto
  qed
qed auto

lemma apply_remove_ok:
  "apply_ok lms a \<Longrightarrow> apply_ok lms (apply_remove name adds t a) \<and> as_new (apply_remove name adds t a) = as_new a \<and>
     as_state (apply_remove name adds t a) = as_state a \<and> as_added (apply_remove name adds t a) = as_added a \<and>
     length (as_batches (apply_remove name adds t a)) = length (as_batches a)"
  by (auto simp: apply_remove_def apply_ok_def)

lemma apply_ops_ok:
  assumes "apply_ops dx build name depth adds ops a = (err, a')" and "apply_ok (dx_limits dx) a" and "0 \<le> depth"
  shows "apply_ok (dx_limits dx) a' \<and>
    int (length (as_new a')) - int (length (as_new a)) = dispatched_count (as_state a') - dispatched_count (as_state a) \<and>
    length (as_new a) \<le> length (as_new a') \<and>
    length (as_new a') \<le> length (as_new a) + length (concat (map all_added_nodes ops)) \<and>
    length (as_batches a') = length (as_batches a) \<and>
    (err = None \<longrightarrow> as_added a' = as_added a @ concat (map all_added_nodes ops))"
  using assms
proof (induction ops arbitrary: a)
  case (Cons op ops)
  consider "op_op op = ''remove''" | "op_op op = ''add''" | "op_op op \<notin> {''remove'', ''add''}" by blast
  then show ?case
  proof cases
    case 1
    let ?a = "apply_remove name adds (case op_target op of None \<Rightarrow> [] | Some t \<Rightarrow> t) a"
    note r = apply_remove_ok [OF Cons.prems(2), of name adds "case op_target op of None \<Rightarrow> [] | Some t \<Rightarrow> t"]
    have "apply_ops dx build name depth adds ops ?a = (err, a')" using Cons.prems(1) 1 by simp
    from Cons.IH [OF this _ Cons.prems(3)] r 1 show ?thesis by (auto simp: all_added_nodes_def)
  next
    case 2
    obtain err1 a1 where e: "apply_adds dx build name depth (all_added_nodes op) a = (err1, a1)" by fastforce
    note one = apply_adds_ok [OF e Cons.prems(2,3)]
    show ?thesis
    proof (cases err1)
      case None
      have "apply_ops dx build name depth adds ops a1 = (err, a')" using Cons.prems(1) e None 2 by simp
      from Cons.IH [OF this _ Cons.prems(3)] one None show ?thesis by auto
    next
      case (Some x)
      then show ?thesis using Cons.prems(1) e one 2 by auto
    qed
  next
    case 3
    then show ?thesis using Cons by (auto simp: all_added_nodes_def)
  qed
qed auto

lemma depth_nonneg: "caps_ok lms s \<Longrightarrow> 0 \<le> dget_or (depths s) name 0"
  by (fastforce simp: caps_ok_def dget_or_def split: option.splits)

lemma guarded_ops_ok:
  assumes "guarded_ops dx build n inp ops a = (err, a')" and "apply_ok (dx_limits dx) a"
  shows "apply_ok (dx_limits dx) a' \<and>
    int (length (as_new a')) - int (length (as_new a)) = dispatched_count (as_state a') - dispatched_count (as_state a) \<and>
    length (as_new a) \<le> length (as_new a') \<and>
    int (length (as_new a')) - int (length (as_new a)) \<le> max 0 (max_children_per_dispatch (dx_limits dx)) \<and>
    length (as_batches a') = length (as_batches a) \<and>
    (err = None \<longrightarrow> as_added a' = as_added a @ concat (map all_added_nodes ops))"
proof (cases "max_children_per_dispatch (dx_limits dx) < int (length (concat (map all_added_nodes ops)))")
  case True
  then show ?thesis using assms by (auto simp: guarded_ops_def Let_def)
next
  case False
  define s where "s = (if dhas (name_of n) (fingerprints (as_state a)) then as_state a
     else (as_state a)\<lparr>fingerprints := dset (name_of n) (fingerprint_node (dx_digest dx)
            (py_str (dget_or (agent_config n) ''name'' (PStr (name_of n)))) inp) (fingerprints (as_state a))\<rparr>)"
  have s: "apply_ok (dx_limits dx) (a\<lparr>as_state := s\<rparr>)" "dispatched_count s = dispatched_count (as_state a)" "caps_ok (dx_limits dx) s"
    using assms(2) by (auto simp: s_def apply_ok_def caps_ok_def)
  have "apply_ops dx build (name_of n) (dget_or (depths s) (name_of n) 0) (names_added ops) ops (a\<lparr>as_state := s\<rparr>) = (err, a')"
    using assms(1) False by (simp add: guarded_ops_def Let_def s_def)
  from apply_ops_ok [OF this s(1) depth_nonneg [OF s(3)]] False s(2) show ?thesis by auto
qed

text \<open>How many nodes were added under a context's dispatch state.\<close>

definition dispatched :: "nat option \<Rightarrow> world \<Rightarrow> int" where
  "dispatched p w = (case dispatch_state_of p w of None \<Rightarrow> 0 | Some s \<Rightarrow> dispatched_count s)"

lemma sorted_batches_le:
  assumes "topological_sort ns = Inr bs"
  shows "length bs \<le> length ns"
proof -
  have "\<forall>b \<in> set bs. b \<noteq> []" using kahn.earliest [OF assms] by (auto simp: in_set_conv_nth)
  then have "length bs \<le> length (concat bs)"
    by (induction bs) (auto simp: Suc_le_eq add_strict_increasing dest: length_greater_0_conv [THEN iffD2])
  also have "\<dots> = length ns" using kahn.sound [OF assms] by (metis size_mset)
  finally show ?thesis .
qed

lemma note_dispatch_sels [simp]:
  "w_dispatch (note_dispatch env cx ge n depth a w) = w_dispatch w" "w_stop (note_dispatch env cx ge n depth a w) = w_stop w"
  by (simp_all add: note_dispatch_def)

text \<open>The parts of a graph's state a dispatch leaves alone, and the invariants it keeps.\<close>

definition graph_ok :: "graph_state \<Rightarrow> bool" where
  "graph_ok gs \<longleftrightarrow> dict_ok (gs_outputs gs) \<and> dict_ok (gs_node_map gs)"

definition heap_ok :: "dispatch_limits \<Rightarrow> world \<Rightarrow> bool" where
  "heap_ok lms w \<longleftrightarrow> (\<forall>s \<in> set (w_dispatch w). caps_ok lms s)"

lemma apply_rendered_facts:
  assumes ap: "apply_rendered env dx build cx ge n inp ops ptr gs w = (err, gs', w')"
    and ptr: "ptr < length (w_dispatch w)" and heap: "heap_ok (dx_limits dx) w" and gs: "graph_ok gs"
  shows "heap_ok (dx_limits dx) w' \<and> graph_ok gs' \<and> length (w_dispatch w') = length (w_dispatch w) \<and>
    (\<forall>i. i \<noteq> ptr \<longrightarrow> w_dispatch w' ! i = w_dispatch w ! i) \<and>
    dispatched_count (w_dispatch w ! ptr) \<le> dispatched_count (w_dispatch w' ! ptr) \<and>
    length (gs_batches gs) \<le> length (gs_batches gs') \<and>
    int (length (gs_batches gs')) - int (length (gs_batches gs)) \<le> dispatched_count (w_dispatch w' ! ptr) - dispatched_count (w_dispatch w ! ptr) \<and>
    dispatched_count (w_dispatch w' ! ptr) - dispatched_count (w_dispatch w ! ptr) \<le> max 0 (max_children_per_dispatch (dx_limits dx)) \<and>
    gs_loop_counts gs' = gs_loop_counts gs \<and> gs_feedback gs' = gs_feedback gs \<and> gs_retired gs' = gs_retired gs \<and>
    gs_dispatch gs' = gs_dispatch gs \<and> w_stop w' = w_stop w"
proof -
  let ?a0 = "\<lparr>as_state = w_dispatch w ! ptr, as_node_map = gs_node_map gs, as_outputs = gs_outputs gs, as_batches = gs_batches gs,
             as_new = [], as_added = [], as_removed = []\<rparr>"
  obtain e a where g: "guarded_ops dx build n inp ops ?a0 = (e, a)" by fastforce
  have "apply_ok (dx_limits dx) ?a0" using heap ptr gs by (simp add: heap_ok_def graph_ok_def apply_ok_def)
  note ok = guarded_ops_ok [OF g this]
  let ?gs = "gs\<lparr>gs_node_map := as_node_map a, gs_outputs := as_outputs a, gs_batches := as_batches a\<rparr>"
  have sd: "w_dispatch w' = (w_dispatch w)[ptr := as_state a]" "w_stop w' = w_stop w"
    using ap g by (auto simp: apply_rendered_def Let_def set_dispatch_def split: option.splits if_splits sum.splits)
  have gsd: "gs' = ?gs \<or> (\<exists>nb. topological_sort (as_new a) = Inr nb \<and> gs' = ?gs\<lparr>gs_batches := as_batches a @ nb\<rparr>)"
    using ap g by (auto simp: apply_rendered_def Let_def split: option.splits if_splits sum.splits)
  have "length (gs_batches gs') \<ge> length (gs_batches gs) \<and> length (gs_batches gs') \<le> length (gs_batches gs) + length (as_new a)"
    using gsd ok sorted_batches_le [of "as_new a"] by auto
  moreover have "graph_ok gs'" using gsd ok by (auto simp: graph_ok_def apply_ok_def)
  moreover have "heap_ok (dx_limits dx) w'"
    using heap ok sd(1) set_update_subset_insert [of "w_dispatch w" ptr "as_state a"] by (auto simp: heap_ok_def apply_ok_def)
  ultimately show ?thesis using sd ok gsd ptr by auto
qed

lemma seed_dispatch_facts:
  assumes "seed_dispatch p w = (ptr, w')"
  shows "ptr < length (w_dispatch w')" "dispatched_count (w_dispatch w' ! ptr) = dispatched p w"
    "length (w_dispatch w) \<le> length (w_dispatch w')" "\<forall>i < length (w_dispatch w). w_dispatch w' ! i = w_dispatch w ! i"
    "w_stop w' = w_stop w" "\<forall>s \<in> set (w_dispatch w'). s \<in> set (w_dispatch w) \<or> s = new_dispatch_state"
    "dispatch_state_of p w \<noteq> None \<longrightarrow> p = Some ptr \<and> w' = w"
  using assms
  by (auto simp: seed_dispatch_def dispatch_state_of_def dispatched_def new_dispatch_state_def nth_append
      split: option.splits if_splits)

lemma drain_sels: "drain_tool_call_ops s pp n = (ops, s') \<Longrightarrow> dispatched_count s' = dispatched_count s \<and> depths s' = depths s \<and>
    parents s' = parents s \<and> fingerprints s' = fingerprints s"
  by (auto simp: drain_tool_call_ops_def split: option.splits)

lemma heap_ok_update: "heap_ok lms w \<Longrightarrow> caps_ok lms s \<Longrightarrow> heap_ok lms (set_dispatch i s w)"
  using set_update_subset_insert [of "w_dispatch w" i s] by (auto simp: heap_ok_def set_dispatch_def)

text \<open>Everything the executor needs to know of one dispatch.\<close>

lemma dispatch_facts:
  assumes ap: "apply_declarative_dispatch env dx cx pe ge n r inp gs w = (err, gs', w')"
    and heap: "heap_ok (dx_limits dx) w" and gs: "graph_ok gs" and lms: "0 \<le> max_dynamic_nodes (dx_limits dx)"
  shows "heap_ok (dx_limits dx) w'" "graph_ok gs'" "dispatched (gs_dispatch gs) w \<le> dispatched (gs_dispatch gs') w'"
    "length (gs_batches gs) \<le> length (gs_batches gs')"
    "int (length (gs_batches gs')) - int (length (gs_batches gs)) \<le> dispatched (gs_dispatch gs') w' - dispatched (gs_dispatch gs) w"
    "dispatched (gs_dispatch gs') w' - dispatched (gs_dispatch gs) w \<le> max 0 (max_children_per_dispatch (dx_limits dx))"
    "gs_loop_counts gs' = gs_loop_counts gs" "gs_feedback gs' = gs_feedback gs" "gs_retired gs' = gs_retired gs"
    "w_stop w' = w_stop w"
proof -
  have "heap_ok (dx_limits dx) w' \<and> graph_ok gs' \<and> dispatched (gs_dispatch gs) w \<le> dispatched (gs_dispatch gs') w' \<and>
    length (gs_batches gs) \<le> length (gs_batches gs') \<and>
    int (length (gs_batches gs')) - int (length (gs_batches gs)) \<le> dispatched (gs_dispatch gs') w' - dispatched (gs_dispatch gs) w \<and>
    dispatched (gs_dispatch gs') w' - dispatched (gs_dispatch gs) w \<le> max 0 (max_children_per_dispatch (dx_limits dx)) \<and>
    gs_loop_counts gs' = gs_loop_counts gs \<and> gs_feedback gs' = gs_feedback gs \<and> gs_retired gs' = gs_retired gs \<and> w_stop w' = w_stop w"
  proof (cases "gs' = gs \<and> w' = w")
    case True
    then show ?thesis using heap gs by simp
  next
    case False
    then obtain build where
      run: "dx_loader dx = Some build" "\<not> (node_kind n \<noteq> AgentNode \<or> nr_status r = FAILED)"
        "truthy (dget_or (agent_config n) ''dispatch'' PNone) \<or> has_pending_tool_call_ops (dispatch_state_of (gs_dispatch gs) w) (cx_node_path cx) n"
      using ap by (auto simp: apply_declarative_dispatch_def split: if_splits option.splits)
    obtain ptr w1 where seed: "seed_dispatch (gs_dispatch gs) w = (ptr, w1)" by fastforce
    note sf = seed_dispatch_facts [OF seed]
    let ?gs = "gs\<lparr>gs_dispatch := Some ptr\<rparr>"
    have new: "caps_ok (dx_limits dx) new_dispatch_state" using lms by (simp add: caps_ok_def new_dispatch_state_def)
    have heap1: "heap_ok (dx_limits dx) w1" using sf(6) heap new by (auto simp: heap_ok_def)
    have d1: "dispatched (Some ptr) w1 = dispatched (gs_dispatch gs) w" using sf(1,2) by (simp add: dispatched_def dispatch_state_of_def)
    let ?render = "render_dispatch (dx_jinja dx) (dx_json dx) (agent_config n)
        (case nr_agent_results r of ar # _ \<Rightarrow> ar_output ar | [] \<Rightarrow> nr_output r)
        (case nr_agent_results r of ar # _ \<Rightarrow> ar_structured_output ar | [] \<Rightarrow> nr_structured_output r)
        (fst (resolve_inputs n inp (gs_outputs gs) [] None))"
    show ?thesis
    proof (cases ?render)
      case (Inl e)
      then have "gs' = ?gs" "w' = w1"
        using ap run seed by (auto simp: apply_declarative_dispatch_def Let_def split: if_splits)
      then show ?thesis using heap1 gs d1 sf(5) by (simp add: graph_ok_def)
    next
      case (Inr p)
      obtain ops nts where p: "p = (ops, nts)" by fastforce
      obtain tops s where dr: "drain_tool_call_ops (w_dispatch w1 ! ptr) (cx_node_path cx) n = (tops, s)" by fastforce
      note ds = drain_sels [OF dr]
      define w2 where "w2 = (if nts = [] then set_dispatch ptr s w1
        else snd (record_event ''dispatch.applied'' [(''dispatcher'', PStr (name_of n)), (''added'', PList []), (''removed'', PList []),
             (''skipped_reasons'', str_vals nts)] pe ''skipped'' (set_dispatch ptr s w1)))"
      have w2: "w_dispatch w2 = (w_dispatch w1)[ptr := s]" "w_stop w2 = w_stop w1"
        by (auto simp: w2_def set_dispatch_def)
      have "caps_ok (dx_limits dx) (w_dispatch w1 ! ptr)" using heap1 sf(1) by (simp add: heap_ok_def)
      then have "caps_ok (dx_limits dx) s" using ds by (simp add: caps_ok_def)
      then have heap2: "heap_ok (dx_limits dx) w2"
        using heap_ok_update [OF heap1, of s ptr] w2(1) by (simp add: heap_ok_def set_dispatch_def)
      have d2: "dispatched (Some ptr) w2 = dispatched (gs_dispatch gs) w"
        using d1 ds sf(1) w2(1) by (simp add: dispatched_def dispatch_state_of_def)
      have res: "(if ops @ tops = [] then (None, ?gs, w2)
          else apply_rendered env dx build cx ge n inp (ops @ tops) ptr ?gs w2) = (err, gs', w')"
        using ap run seed Inr p dr by (auto simp: apply_declarative_dispatch_def Let_def w2_def split: if_splits)
      show ?thesis
      proof (cases "ops @ tops = []")
        case True
        then have "gs' = ?gs" "w' = w2" using res by auto
        then show ?thesis using heap2 gs d2 w2(2) sf(5) by (simp add: graph_ok_def)
      next
        case False
        then have "apply_rendered env dx build cx ge n inp (ops @ tops) ptr ?gs w2 = (err, gs', w')" using res by auto
        from apply_rendered_facts [OF this _ heap2] sf(1) w2 gs
        have f: "heap_ok (dx_limits dx) w'" "graph_ok gs'" "length (w_dispatch w') = length (w_dispatch w2)"
            "dispatched_count (w_dispatch w2 ! ptr) \<le> dispatched_count (w_dispatch w' ! ptr)"
            "length (gs_batches gs) \<le> length (gs_batches gs')"
            "int (length (gs_batches gs')) - int (length (gs_batches gs)) \<le> dispatched_count (w_dispatch w' ! ptr) - dispatched_count (w_dispatch w2 ! ptr)"
            "dispatched_count (w_dispatch w' ! ptr) - dispatched_count (w_dispatch w2 ! ptr) \<le> max 0 (max_children_per_dispatch (dx_limits dx))"
            "gs_loop_counts gs' = gs_loop_counts gs" "gs_feedback gs' = gs_feedback gs" "gs_retired gs' = gs_retired gs"
            "gs_dispatch gs' = Some ptr" "w_stop w' = w_stop w2"
          by (auto simp: graph_ok_def)
        have "ptr < length (w_dispatch w2)" "ptr < length (w_dispatch w')" using sf(1) w2(1) f(3) by auto
        then have "dispatched (gs_dispatch gs') w' = dispatched_count (w_dispatch w' ! ptr)"
            "dispatched_count (w_dispatch w2 ! ptr) = dispatched (gs_dispatch gs) w"
          using f(11) d2 by (auto simp: dispatched_def dispatch_state_of_def)
        then show ?thesis using f w2(2) sf(5) by simp
      qed
    qed
  qed
  then show "heap_ok (dx_limits dx) w'" "graph_ok gs'" "dispatched (gs_dispatch gs) w \<le> dispatched (gs_dispatch gs') w'"
    "length (gs_batches gs) \<le> length (gs_batches gs')"
    "int (length (gs_batches gs')) - int (length (gs_batches gs)) \<le> dispatched (gs_dispatch gs') w' - dispatched (gs_dispatch gs) w"
    "dispatched (gs_dispatch gs') w' - dispatched (gs_dispatch gs) w \<le> max 0 (max_children_per_dispatch (dx_limits dx))"
    "gs_loop_counts gs' = gs_loop_counts gs" "gs_feedback gs' = gs_feedback gs" "gs_retired gs' = gs_retired gs"
    "w_stop w' = w_stop w" by auto
qed

text \<open>The ways a dispatch can go: nothing happens, only the state is made or its buffer emptied, or operations are applied.\<close>

lemma dispatch_cases:
  assumes "apply_declarative_dispatch env dx cx pe ge n r inp gs w = (err, gs', w')"
  obtains (nothing) "gs' = gs" "w' = w" "err = None"
  | (seeded) ptr w1 s where "seed_dispatch (gs_dispatch gs) w = (ptr, w1)" "gs' = gs\<lparr>gs_dispatch := Some ptr\<rparr>"
      "w_dispatch w' = (w_dispatch w1)[ptr := s]" "dispatched_count s = dispatched_count (w_dispatch w1 ! ptr)"
      "depths s = depths (w_dispatch w1 ! ptr)"
  | (applied) ptr w1 s w2 build ops where "seed_dispatch (gs_dispatch gs) w = (ptr, w1)"
      "w_dispatch w2 = (w_dispatch w1)[ptr := s]" "dispatched_count s = dispatched_count (w_dispatch w1 ! ptr)"
      "depths s = depths (w_dispatch w1 ! ptr)"
      "apply_rendered env dx build cx ge n inp ops ptr (gs\<lparr>gs_dispatch := Some ptr\<rparr>) w2 = (err, gs', w')"
proof (cases "node_kind n \<noteq> AgentNode \<or> nr_status r = FAILED \<or> (\<not> truthy (dget_or (agent_config n) ''dispatch'' PNone) \<and>
     \<not> has_pending_tool_call_ops (dispatch_state_of (gs_dispatch gs) w) (cx_node_path cx) n) \<or> dx_loader dx = None")
  case True
  then have "apply_declarative_dispatch env dx cx pe ge n r inp gs w = (None, gs, w)"
    by (auto simp: apply_declarative_dispatch_def)
  then have "gs' = gs" "w' = w" "err = None" using assms by auto
  then show thesis by (rule nothing)
next
  case False
  then obtain build where build: "dx_loader dx = Some build" by auto
  obtain ptr w1 where seed: "seed_dispatch (gs_dispatch gs) w = (ptr, w1)" by fastforce
  define rendered where "rendered = render_dispatch (dx_jinja dx) (dx_json dx) (agent_config n)
     (case nr_agent_results r of ar # _ \<Rightarrow> ar_output ar | [] \<Rightarrow> nr_output r)
     (case nr_agent_results r of ar # _ \<Rightarrow> ar_structured_output ar | [] \<Rightarrow> nr_structured_output r)
     (fst (resolve_inputs n inp (gs_outputs gs) [] None))"
  show thesis
  proof (cases rendered)
    case (Inl e)
    then have "gs' = gs\<lparr>gs_dispatch := Some ptr\<rparr>" "w' = w1"
      using assms False build seed by (auto simp: apply_declarative_dispatch_def Let_def rendered_def)
    then show thesis by (intro seeded [OF seed, of "w_dispatch w1 ! ptr"]) simp_all
  next
    case (Inr p)
    obtain ops nts where p: "p = (ops, nts)" by fastforce
    obtain tops s where dr: "drain_tool_call_ops (w_dispatch w1 ! ptr) (cx_node_path cx) n = (tops, s)" by fastforce
    define w2 where "w2 = (if nts = [] then set_dispatch ptr s w1
        else snd (record_event ''dispatch.applied'' [(''dispatcher'', PStr (name_of n)), (''added'', PList []), (''removed'', PList []),
             (''skipped_reasons'', str_vals nts)] pe ''skipped'' (set_dispatch ptr s w1)))"
    have w2: "w_dispatch w2 = (w_dispatch w1)[ptr := s]" by (simp add: w2_def set_dispatch_def)
    have res: "(if ops @ tops = [] then (None, gs\<lparr>gs_dispatch := Some ptr\<rparr>, w2)
        else apply_rendered env dx build cx ge n inp (ops @ tops) ptr (gs\<lparr>gs_dispatch := Some ptr\<rparr>) w2) = (err, gs', w')"
      using assms False build seed Inr p dr
      by (auto simp: apply_declarative_dispatch_def Let_def w2_def rendered_def split: if_splits)
    show thesis
    proof (cases "ops @ tops = []")
      case True
      then show thesis using res w2 drain_sels [OF dr] by (intro seeded [OF seed, of s]) auto
    next
      case False
      then show thesis using res drain_sels [OF dr] by (intro applied [OF seed w2]) auto
    qed
  qed
qed

text \<open>The store of dispatch states only grows, and a count in it never goes down.\<close>

definition heap_grows :: "world \<Rightarrow> world \<Rightarrow> bool" where
  "heap_grows w w' \<longleftrightarrow> length (w_dispatch w) \<le> length (w_dispatch w') \<and>
     (\<forall>i < length (w_dispatch w). dispatched_count (w_dispatch w ! i) \<le> dispatched_count (w_dispatch w' ! i))"

definition ptr_ok :: "nat option \<Rightarrow> world \<Rightarrow> bool" where
  "ptr_ok p w \<longleftrightarrow> (case p of None \<Rightarrow> True | Some i \<Rightarrow> i < length (w_dispatch w))"

lemma heap_grows_refl [simp]: "heap_grows w w"
  by (simp add: heap_grows_def)

lemma heap_grows_trans: "heap_grows u v \<Longrightarrow> heap_grows v w \<Longrightarrow> heap_grows u w"
  unfolding heap_grows_def by (meson less_le_trans order_trans)

lemma heap_grows_same: "w_dispatch w' = w_dispatch w \<Longrightarrow> heap_grows w w'"
  by (simp add: heap_grows_def)

lemma heap_grows_ptr: "heap_grows w w' \<Longrightarrow> ptr_ok p w \<Longrightarrow> ptr_ok p w'"
  by (auto simp: heap_grows_def ptr_ok_def split: option.splits)

lemma heap_grows_dispatched: "heap_grows w w' \<Longrightarrow> ptr_ok p w \<Longrightarrow> dispatched p w \<le> dispatched p w'"
  by (auto simp: heap_grows_def ptr_ok_def dispatched_def dispatch_state_of_def split: option.splits)

lemma dispatch_grows:
  assumes ap: "apply_declarative_dispatch env dx cx pe ge n r inp gs w = (err, gs', w')"
    and heap: "heap_ok (dx_limits dx) w" and gs: "graph_ok gs" and lms: "0 \<le> max_dynamic_nodes (dx_limits dx)"
    and ptr: "ptr_ok (gs_dispatch gs) w"
  shows "heap_grows w w' \<and> ptr_ok (gs_dispatch gs') w'"
  using ap
proof (cases rule: dispatch_cases)
  case nothing
  then show ?thesis using ptr by simp
next
  case (seeded p w1 s)
  note sf = seed_dispatch_facts [OF seeded(1)]
  have "heap_grows w w'"
    unfolding heap_grows_def
  proof (intro conjI allI impI)
    fix i assume "i < length (w_dispatch w)"
    then show "dispatched_count (w_dispatch w ! i) \<le> dispatched_count (w_dispatch w' ! i)"
      using sf(3,4) seeded(3,4) by (cases "i = p") auto
  qed (use sf(3) seeded(3) in simp)
  then show ?thesis using sf(1) seeded(2,3) by (simp add: ptr_ok_def)
next
  case (applied p w1 s w2 build ops)
  note sf = seed_dispatch_facts [OF applied(1)]
  have "caps_ok (dx_limits dx) new_dispatch_state" using lms by (simp add: caps_ok_def new_dispatch_state_def)
  then have heap1: "heap_ok (dx_limits dx) w1" using sf(6) heap by (auto simp: heap_ok_def)
  then have "caps_ok (dx_limits dx) (w_dispatch w1 ! p)" using sf(1) by (simp add: heap_ok_def)
  then have "caps_ok (dx_limits dx) s" using applied(3,4) by (simp add: caps_ok_def)
  then have heap2: "heap_ok (dx_limits dx) w2"
    using heap_ok_update [OF heap1, of s p] applied(2) by (simp add: heap_ok_def set_dispatch_def)
  have len: "length (w_dispatch w2) = length (w_dispatch w1)" using applied(2) by simp
  have "graph_ok (gs\<lparr>gs_dispatch := Some p\<rparr>)" using gs by (simp add: graph_ok_def)
  note f = apply_rendered_facts [OF applied(5) _ heap2 this]
  have f': "length (w_dispatch w') = length (w_dispatch w2)" "\<forall>i. i \<noteq> p \<longrightarrow> w_dispatch w' ! i = w_dispatch w2 ! i"
      "dispatched_count (w_dispatch w2 ! p) \<le> dispatched_count (w_dispatch w' ! p)" "gs_dispatch gs' = Some p"
    using f sf(1) len by auto
  have "dispatched_count (w_dispatch w ! i) \<le> dispatched_count (w_dispatch w' ! i)" if "i < length (w_dispatch w)" for i
    using that f'(2,3) sf(1,3,4) applied(2,3) by (cases "i = p") (auto simp: nth_list_update)
  then show ?thesis using f' len sf(1,3) by (auto simp: heap_grows_def ptr_ok_def)
qed

text \<open>A dispatch that adds no node only takes nodes out of the batches.\<close>

lemma filter_sum_le: "sum_list (map f (filter P xs)) \<le> sum_list (map (f :: 'a \<Rightarrow> nat) xs)"
  by (induction xs) auto

lemma apply_remove_prunes:
  "sum_list (map f (concat (as_batches (apply_remove name adds t a)))) \<le> sum_list (map (f :: node \<Rightarrow> nat) (concat (as_batches a)))"
  using filter_sum_le [of f "\<lambda>n. name_of n \<noteq> t" "concat (as_batches a)"] by (simp add: apply_remove_def filter_concat)

lemma apply_ops_prunes:
  "apply_ops dx build name depth adds ops a = (err, a') \<Longrightarrow>
     sum_list (map f (concat (as_batches a'))) \<le> sum_list (map (f :: node \<Rightarrow> nat) (concat (as_batches a)))"
proof (induction ops arbitrary: a)
  case (Cons op ops)
  have add: "as_batches a1 = as_batches a" if "apply_adds dx build name depth ds a = (e, a1)" for ds e a1 a
    using that
  proof (induction ds arbitrary: a)
    case (Cons d ds)
    obtain e2 a2 where "enforce_caps_and_build dx build name depth d a = (e2, a2)" by fastforce
    moreover from this have "as_batches a2 = as_batches a"
      by (auto simp: enforce_caps_and_build_def split: option.splits sum.splits if_splits)
    ultimately show ?case using Cons by (auto split: option.splits)
  qed simp
  show ?case
    using Cons add apply_remove_prunes [of f name adds _ a] by (fastforce split: if_splits option.splits prod.splits intro: order_trans)
qed simp

lemma apply_rendered_prunes:
  assumes ap: "apply_rendered env dx build cx ge n inp ops ptr gs w = (err, gs', w')"
    and ptr: "ptr < length (w_dispatch w)" and heap: "heap_ok (dx_limits dx) w" and gs: "graph_ok gs"
    and same: "dispatched_count (w_dispatch w' ! ptr) = dispatched_count (w_dispatch w ! ptr)"
  shows "sum_list (map f (concat (gs_batches gs'))) \<le> sum_list (map (f :: node \<Rightarrow> nat) (concat (gs_batches gs)))"
proof -
  let ?a0 = "\<lparr>as_state = w_dispatch w ! ptr, as_node_map = gs_node_map gs, as_outputs = gs_outputs gs, as_batches = gs_batches gs,
             as_new = [], as_added = [], as_removed = []\<rparr>"
  obtain e a where g: "guarded_ops dx build n inp ops ?a0 = (e, a)" by fastforce
  have "apply_ok (dx_limits dx) ?a0" using heap ptr gs by (simp add: heap_ok_def graph_ok_def apply_ok_def)
  note ok = guarded_ops_ok [OF g this]
  have "w_dispatch w' = (w_dispatch w)[ptr := as_state a]"
    using ap g by (auto simp: apply_rendered_def Let_def set_dispatch_def split: option.splits if_splits sum.splits)
  then have "as_new a = []" using ok same ptr by simp
  then have "gs_batches gs' = as_batches a"
    using ap g by (auto simp: apply_rendered_def Let_def split: option.splits)
  moreover have "sum_list (map f (concat (as_batches a))) \<le> sum_list (map f (concat (as_batches ?a0)))"
    using g apply_ops_prunes by (fastforce simp: guarded_ops_def Let_def split: if_splits)
  ultimately show ?thesis by simp
qed

lemma dispatch_prunes:
  assumes ap: "apply_declarative_dispatch env dx cx pe ge n r inp gs w = (err, gs', w')"
    and heap: "heap_ok (dx_limits dx) w" and gs: "graph_ok gs" and lms: "0 \<le> max_dynamic_nodes (dx_limits dx)"
    and same: "dispatched (gs_dispatch gs') w' = dispatched (gs_dispatch gs) w"
  shows "sum_list (map f (concat (gs_batches gs'))) \<le> sum_list (map (f :: node \<Rightarrow> nat) (concat (gs_batches gs)))"
  using ap
proof (cases rule: dispatch_cases)
  case (applied p w1 s w2 build ops)
  note sf = seed_dispatch_facts [OF applied(1)]
  have "caps_ok (dx_limits dx) new_dispatch_state" using lms by (simp add: caps_ok_def new_dispatch_state_def)
  then have heap1: "heap_ok (dx_limits dx) w1" using sf(6) heap by (auto simp: heap_ok_def)
  then have "caps_ok (dx_limits dx) (w_dispatch w1 ! p)" using sf(1) by (simp add: heap_ok_def)
  then have "caps_ok (dx_limits dx) s" using applied(3,4) by (simp add: caps_ok_def)
  then have heap2: "heap_ok (dx_limits dx) w2"
    using heap_ok_update [OF heap1, of s p] applied(2) by (simp add: heap_ok_def set_dispatch_def)
  have p: "p < length (w_dispatch w2)" using sf(1) applied(2) by simp
  have gsp: "graph_ok (gs\<lparr>gs_dispatch := Some p\<rparr>)" using gs by (simp add: graph_ok_def)
  have "length (w_dispatch w') = length (w_dispatch w2)" "gs_dispatch gs' = Some p"
    using apply_rendered_facts [OF applied(5) p heap2 gsp] by auto
  then have "dispatched_count (w_dispatch w' ! p) = dispatched_count (w_dispatch w2 ! p)"
    using same sf(1,2) applied(2,3) p by (simp add: dispatched_def [of "Some p"] dispatch_state_of_def)
  from apply_rendered_prunes [OF applied(5) p heap2 gsp this, of f] show ?thesis by simp
qed simp_all

section \<open>What dispatch guarantees\<close>

text \<open>A dispatch only ever makes the graph longer, by at most as many batches as nodes it added, and it
  adds at most \<open>max_children_per_dispatch\<close> nodes; loop counts, feedback and retired results stay as they were.\<close>

theorem dispatch_extends_graph:
  assumes "apply_declarative_dispatch env dx cx pe ge n r inp gs w = (err, gs', w')"
    and "\<forall>s \<in> set (w_dispatch w). caps_ok (dx_limits dx) s" and "graph_ok gs" and "0 \<le> max_dynamic_nodes (dx_limits dx)"
  shows "length (gs_batches gs) \<le> length (gs_batches gs') \<and>
    int (length (gs_batches gs')) - int (length (gs_batches gs)) \<le> dispatched (gs_dispatch gs') w' - dispatched (gs_dispatch gs) w \<and>
    dispatched (gs_dispatch gs') w' - dispatched (gs_dispatch gs) w \<le> max 0 (max_children_per_dispatch (dx_limits dx)) \<and>
    gs_loop_counts gs' = gs_loop_counts gs \<and> gs_retired gs' = gs_retired gs"
proof -
  have "heap_ok (dx_limits dx) w" using assms(2) by (simp add: heap_ok_def)
  note f = dispatch_facts [OF assms(1) this assms(3,4)]
  show ?thesis using f(4-7) f(9) by blast
qed

text \<open>A dispatch that emits more nodes than \<open>max_children_per_dispatch\<close> is refused whole: nothing of the
  graph or the bookkeeping changes, and the exception says which cap was exceeded.\<close>

theorem fan_out_refused:
  assumes "max_children_per_dispatch (dx_limits dx) < int (length (concat (map all_added_nodes ops)))"
  shows "\<exists>m. guarded_ops dx build n inp ops a = (Some (Exn DispatchCapExceeded m), a)"
  using assms by (auto simp: guarded_ops_def Let_def)

lemma apply_adds_restores:
  assumes "apply_adds dx build name depth ds a = (None, a')"
    and "\<forall>d b. build d = Inr b \<longrightarrow> dget d ''name'' = Some (PStr (name_of b))"
  shows "foldl (restore_child dx name depth) ((as_state a)\<lparr>dispatched_count := c\<rparr>) ds = (as_state a')\<lparr>dispatched_count := c\<rparr> \<and>
    dispatched_count (as_state a') = dispatched_count (as_state a) + int (length ds)"
  using assms(1)
proof (induction ds arbitrary: a)
  case (Cons d ds)
  obtain e a1 where e: "enforce_caps_and_build dx build name depth d a = (e, a1)" by fastforce
  then have e: "enforce_caps_and_build dx build name depth d a = (None, a1)" using Cons.prems by (cases e) auto
  obtain b where b: "build d = Inr b" and a1: "a1 = a\<lparr>as_node_map := dset (name_of b) b (as_node_map a), as_new := as_new a @ [b],
      as_state := (as_state a)\<lparr>depths := dset (name_of b) (depth + 1) (depths (as_state a)),
        parents := dset (name_of b) name (parents (as_state a)),
        fingerprints := dset (name_of b) (child_fingerprint dx d) (fingerprints (as_state a)),
        dispatched_count := dispatched_count (as_state a) + 1\<rparr>\<rparr>"
    using enforce_caps_Inr [OF e] by blast
  have nm: "dget d ''name'' = Some (PStr (name_of b))" using assms(2) b by blast
  have one: "restore_child dx name depth ((as_state a)\<lparr>dispatched_count := c\<rparr>) d = (as_state a1)\<lparr>dispatched_count := c\<rparr>"
    using nm by (simp add: restore_child_def a1 child_fingerprint_def text_or_def dget_or_def)
  have "apply_adds dx build name depth ds (a1\<lparr>as_added := as_added a1 @ [d]\<rparr>) = (None, a')" using Cons.prems e by simp
  from Cons.IH [OF this] show ?case using one a1 by simp
qed simp

lemma last_split_path:
  assumes "CHR ''.'' \<notin> set (name_of n)"
  shows "last (split_dot (agent_path pp n)) = name_of n"
  using split_on_join_rest [of "CHR ''.''" pp "name_of n"] split_on_no_sep [OF assms] by (simp add: agent_path_def)

text \<open>The bookkeeping survives a restart. Replaying the checkpoint of a dispatch that added nodes gives
  back exactly the state the dispatch left: the same depths, parents, fingerprints and count. This holds
  for a dispatcher whose name has no dot, with a loader that keeps a node's name.\<close>

theorem dispatch_state_round_trip:
  assumes "apply_adds dx build (name_of n) depth ds a = (None, a')" and "as_added a = []"
    and "\<forall>d b. build d = Inr b \<longrightarrow> dget d ''name'' = Some (PStr (name_of b))"
    and "CHR ''.'' \<notin> set (name_of n)" and "dget (fingerprints (as_state a)) (name_of n) = Some fp"
  shows "restore_event dx (dispatch_of (stamp cenv (op_row (OpDispatched (agent_path pp n) ds rs depth fp (int (length ds)) pp)) st)) (as_state a) = as_state a'"
proof -
  have ds: "dict_list (PList (map PDict ds)) = ds" by (induction ds) (auto simp: dict_list_def)
  have entry: "dispatch_of (stamp cenv (op_row (OpDispatched (agent_path pp n) ds rs depth fp (int (length ds)) pp)) st) =
      \<lparr>de_dispatcher = agent_path pp n, de_graph_path = Some pp, de_added_nodes = ds, de_removed_targets = rs,
       de_depth = depth, de_fingerprint = fp, de_delta = int (length ds)\<rparr>"
    by (simp add: dispatch_of_def dget_or_def Let_def str_vals_def meta_int_def ds meta_strs_def py_str_def
        str_list_vals [unfolded str_vals_def])
  have "dhas (name_of n) (fingerprints (as_state a))" using assms(5) by (simp add: dhas_def)
  then show ?thesis
    using apply_adds_restores [OF assms(1,3), of "dispatched_count (as_state a)"] unfolding entry restore_event_def
    by (simp add: last_split_path [OF assms(4)] Let_def)
qed

section \<open>Witnesses\<close>

definition one_loader :: "pyval dict \<Rightarrow> node res" where
  "one_loader d = (case dget d ''name'' of Some (PStr s) \<Rightarrow> Inr (simple_node s []) | _ \<Rightarrow> raise KeyError ''name'')"

definition plain_dx :: dispatch_env where
  "plain_dx = \<lparr>dx_jinja = (\<lambda>_ s _. Inr s), dx_json = (\<lambda>_. None), dx_digest = (\<lambda>_. ''h''), dx_loader = Some one_loader, dx_limits = default_limits\<rparr>"

definition dispatcher :: node where
  "dispatcher = agent_node (default_config ''boss'') [(''name'', PStr ''boss''), (''dispatch'', PList [PDict fan_block])]"

definition dispatch_world :: world where
  "dispatch_world = \<lparr>w_stop = None, w_cp = None, w_events = [], w_known_issues = [], w_dispatch = [], w_restore = None, w_calls = [], w_tick = 0\<rparr>"

definition dispatch_graph :: graph_state where
  "dispatch_graph = \<lparr>gs_batches = [[dispatcher]], gs_node_map = [(''boss'', dispatcher)], gs_outputs = [(''boss'', plain_result COMPLETED)],
     gs_loop_counts = [], gs_feedback = [], gs_retired = [], gs_dispatch = None\<rparr>"

theorem dispatch_extends_graph_witness:
  "\<exists>err gs' w'. apply_declarative_dispatch quiet_env plain_dx plain_context None None dispatcher (plain_result COMPLETED) []
     dispatch_graph dispatch_world = (err, gs', w') \<and> 1 \<le> length (gs_batches gs')"
proof -
  obtain err gs' w' where ap: "apply_declarative_dispatch quiet_env plain_dx plain_context None None dispatcher (plain_result COMPLETED) []
     dispatch_graph dispatch_world = (err, gs', w')" by (cases "apply_declarative_dispatch quiet_env plain_dx plain_context None None dispatcher (plain_result COMPLETED) []
     dispatch_graph dispatch_world") auto
  show ?thesis
    using dispatch_extends_graph [OF ap] ap
    by (simp add: dispatch_world_def dispatch_graph_def graph_ok_def dict_ok_def plain_dx_def default_limits_def)
qed

theorem fan_out_refused_witness:
  "\<exists>m. guarded_ops (plain_dx\<lparr>dx_limits := default_limits\<lparr>max_children_per_dispatch := 1\<rparr>\<rparr>) one_loader dispatcher [] [fan_op, fan_op]
     \<lparr>as_state = new_dispatch_state, as_node_map = [], as_outputs = [], as_batches = [], as_new = [], as_added = [], as_removed = []\<rparr> =
     (Some (Exn DispatchCapExceeded m), \<lparr>as_state = new_dispatch_state, as_node_map = [], as_outputs = [], as_batches = [],
        as_new = [], as_added = [], as_removed = []\<rparr>)"
  by (rule fan_out_refused) (simp add: fan_op_def all_added_nodes_def plain_dx_def)

theorem dispatch_state_round_trip_witness:
  "\<exists>a'. apply_adds plain_dx one_loader ''boss'' 0 [fan_node] \<lparr>as_state = new_dispatch_state\<lparr>fingerprints := [(''boss'', (''boss'', ''h''))]\<rparr>,
       as_node_map = [], as_outputs = [], as_batches = [], as_new = [], as_added = [], as_removed = []\<rparr> = (None, a') \<and>
     restore_event plain_dx (dispatch_of (stamp plain_env (op_row (OpDispatched (agent_path [] dispatcher) [fan_node] [] 0 (''boss'', ''h'') 1 []))
       (open_service True [] ''r''))) (new_dispatch_state\<lparr>fingerprints := [(''boss'', (''boss'', ''h''))]\<rparr>) = as_state a'"
proof -
  let ?a = "\<lparr>as_state = new_dispatch_state\<lparr>fingerprints := [(''boss'', (''boss'', ''h''))]\<rparr>,
       as_node_map = [], as_outputs = [], as_batches = [], as_new = [], as_added = [], as_removed = []\<rparr>"
  have "fst (apply_adds plain_dx one_loader (name_of dispatcher) 0 [fan_node] ?a) = None" by code_simp
  then obtain a' where ap: "apply_adds plain_dx one_loader (name_of dispatcher) 0 [fan_node] ?a = (None, a')"
    by (cases "apply_adds plain_dx one_loader (name_of dispatcher) 0 [fan_node] ?a") auto
  have "\<forall>d b. one_loader d = Inr b \<longrightarrow> dget d ''name'' = Some (PStr (name_of b))"
    by (auto simp: one_loader_def split: option.splits pyval.splits)
  from dispatch_state_round_trip [OF ap _ this, of "(''boss'', ''h'')" plain_env "[]" "[]" "open_service True [] ''r''"] ap
  show ?thesis by (auto simp: dispatcher_def)
qed

end
