(* ===== verification/Iterate.thy ===== *)
theory Iterate
  imports Py_Prelude
begin

text \<open>
  A \<open>while\<close> loop that may not end: \<open>iterate step s\<close> repeats \<open>step\<close> until it gives a result, and is \<open>None\<close>
  when it never does. The locale \<open>bounded_loop\<close> is the contract of a loop that does end: an invariant
  that every turn keeps and a well-founded relation that every turn goes down in.
\<close>

partial_function (option) iterate :: "('s \<Rightarrow> 's + 'r) \<Rightarrow> 's \<Rightarrow> 'r option" where
  "iterate step s = (case step s of Inl t \<Rightarrow> iterate step t | Inr r \<Rightarrow> Some r)"

declare iterate.simps [code]

text \<open>An invariant of every turn holds where the loop ends, whether or not the loop is known to end.\<close>

lemma iterate_invariant:
  assumes "iterate step s = Some r" and "P s"
    and keep: "\<And>s t. P s \<Longrightarrow> step s = Inl t \<Longrightarrow> P t"
    and ends: "\<And>s r. P s \<Longrightarrow> step s = Inr r \<Longrightarrow> Q r"
  shows "Q r"
proof -
  have "step = step \<longrightarrow> P s \<longrightarrow> Q r"
  proof (rule iterate.raw_induct [of "\<lambda>step' s r. step' = step \<longrightarrow> P s \<longrightarrow> Q r", OF _ assms(1)])
    fix it step' s' r'
    assume ih: "\<And>step' s r. it step' s = Some r \<Longrightarrow> step' = step \<longrightarrow> P s \<longrightarrow> Q r"
      and res: "(case step' s' of Inl t \<Rightarrow> it step' t | Inr r \<Rightarrow> Some r) = Some r'"
    show "step' = step \<longrightarrow> P s' \<longrightarrow> Q r'"
      using res ih keep ends by (cases "step' s'") auto
  qed
  then show ?thesis using assms(2) by blast
qed

locale bounded_loop =
  fixes step :: "'s \<Rightarrow> 's + 'r" and inv :: "'s \<Rightarrow> bool" and rel :: "('s \<times> 's) set"
  assumes wf_rel: "wf rel"
    and step_inv: "inv s \<Longrightarrow> step s = Inl t \<Longrightarrow> inv t"
    and step_down: "inv s \<Longrightarrow> step s = Inl t \<Longrightarrow> (t, s) \<in> rel"
begin

lemma returns: "inv s \<Longrightarrow> \<exists>r. iterate step s = Some r"
proof (induction s rule: wf_induct_rule [OF wf_rel])
  case (1 s)
  show ?case
  proof (cases "step s")
    case (Inl t)
    then show ?thesis using 1 step_inv step_down by (subst iterate.simps) auto
  next
    case (Inr r)
    then show ?thesis by (subst iterate.simps) auto
  qed
qed

text \<open>The result is that of a last turn, taken in a state that keeps the invariant.\<close>

lemma last_turn:
  assumes "inv s" and "iterate step s = Some r"
  shows "\<exists>t. inv t \<and> step t = Inr r"
  by (rule iterate_invariant [where P = inv, OF assms(2)]) (use assms(1) step_inv in blast)+

end

end
