(* ===== verification/Node_Run.thy ===== *)
theory Node_Run
  imports Loops Dispatch Iterate
begin

text \<open>
  Running one node and one batch of nodes: \<^verbatim>\<open>_execute_single_node\<close>, \<^verbatim>\<open>_run_node_with_events\<close>,
  \<^verbatim>\<open>_run_with_timeout\<close> and \<^verbatim>\<open>_execute_parallel_batch\<close> of \<^verbatim>\<open>temper_ai/stage/executor.py\<close>, with the
  exceptions of \<^verbatim>\<open>temper_ai/stage/exceptions.py\<close> that go up through them.

  \<open>node.run\<close> is a method of the node's class and the wait at a gate talks to a person: both are
  parameters, \<open>hk_run\<close> and \<open>hk_gate\<close>. They get and give back the world, so they can write checkpoints,
  events and dispatch state. The nodes of a parallel batch run one after the other, in the order
  \<open>re_order\<close> says they complete; results are handed on in that order, as \<open>as_completed\<close> does.
\<close>

section \<open>How a call can end\<close>

text \<open>\<open>RunParked\<close>, without the finished steps of its batch, which the batch returns beside it.\<close>

record park =
  pk_event_id :: string
  pk_node :: string
  pk_path :: string
  pk_round :: int
  pk_checkpoint_id :: string
  pk_wait_id :: "string option"
  pk_wake_at :: "string option"
  pk_also :: "pyval list"

definition park_as_dict :: "park \<Rightarrow> pyval dict" where
  "park_as_dict p =
     [(''event_id'', PStr (pk_event_id p)), (''node'', PStr (pk_node p)), (''path'', PStr (pk_path p))] @
     (case pk_wake_at p of
        Some (c # cs) \<Rightarrow> [(''wake_at'', PStr (c # cs)), (''kind'', PStr ''usage_limit'')]
      | _ \<Rightarrow> [(''round'', PInt (pk_round p))]) @
     [(''checkpoint_id'', PStr (pk_checkpoint_id p))] @
     (case pk_wait_id p of None \<Rightarrow> [] | Some w \<Rightarrow> [(''wait_id'', PStr w)]) @
     (if pk_also p = [] then [] else [(''also'', PList (pk_also p))])"

datatype 'a outcome = Done 'a | Raised exn | Parked park

record hooks =
  hk_run :: "node \<Rightarrow> pyval dict \<Rightarrow> string \<Rightarrow> exec_context \<Rightarrow> nat option \<Rightarrow> world \<Rightarrow> node_result outcome \<times> world"
  hk_gate :: "node \<Rightarrow> exec_context \<Rightarrow> string \<Rightarrow> node_result dict \<Rightarrow> world \<Rightarrow> pyval dict option outcome \<times> world"

definition REPLACED_MARK :: string where "REPLACED_MARK = ''replaced_by_later_attempt''"

text \<open>\<open>_note_replaced\<close>; \<open>spent\<close> is given for a graph's event.\<close>

definition note_replaced :: "run_env \<Rightarrow> string \<Rightarrow> string \<Rightarrow> rat \<Rightarrow> node_result list option \<Rightarrow> world \<Rightarrow> world" where
  "note_replaced env message ident start spent w =
     update_event ident ''cancelled''
       ([(''error'', PStr message), (REPLACED_MARK, PBool True),
         (''duration_seconds'', PFloat (re_monotonic env (w_tick w) - start))] @
        (case spent of
           None \<Rightarrow> []
         | Some rs \<Rightarrow> [(''cost_usd'', PFloat (sum_list (map nr_cost_usd rs))),
                       (''total_tokens'', PInt (sum_list (map nr_total_tokens rs)))])) w"

section \<open>One node\<close>

text \<open>
  \<open>_run_with_timeout\<close>: the pool is left only when the thread has ended, so what the node does happens
  in any case; only its result is replaced. A \<open>TimeoutError\<close> of the node itself reads the same.
\<close>

definition timed_out :: "int \<Rightarrow> node_result" where
  "timed_out timeout = with_duration (of_int timeout) (error_result FAILED (''Node timed out after '' @ int_str timeout @ ''s''))"

definition run_with_timeout :: "run_env \<Rightarrow> hooks \<Rightarrow> node \<Rightarrow> pyval dict \<Rightarrow> string \<Rightarrow> exec_context \<Rightarrow> nat option \<Rightarrow> int \<Rightarrow> world
    \<Rightarrow> node_result outcome \<times> world" where
  "run_with_timeout env hk n resolved ev cx ptr timeout w =
     (let (out, w') = hk_run hk n resolved ev cx ptr w
      in if of_int timeout < re_monotonic env (w_tick w') - re_monotonic env (w_tick w)
            \<or> (case out of Raised e \<Rightarrow> kind_of e = TimeoutError | _ \<Rightarrow> False)
         then (Done (timed_out timeout), w') else (out, w'))"

definition run_node_with_events :: "run_env \<Rightarrow> hooks \<Rightarrow> node \<Rightarrow> pyval dict \<Rightarrow> exec_context \<Rightarrow> nat option \<Rightarrow> string \<Rightarrow> world
    \<Rightarrow> node_result outcome \<times> world" where
  "run_node_with_events env hk n resolved cx ptr ev w =
     (let start = re_monotonic env (w_tick w);
          (out, w) = (case nc_timeout_seconds (config n) of
             Some t \<Rightarrow> if t = 0 then hk_run hk n resolved ev cx ptr w else run_with_timeout env hk n resolved ev cx ptr t w
           | None \<Rightarrow> hk_run hk n resolved ev cx ptr w);
          duration = re_monotonic env (w_tick w) - start;
          (res, w) = (case out of
             Done r \<Rightarrow>
               (Done (with_duration duration r),
                update_event ev (status_value (nr_status r))
                  [(''cost_usd'', PFloat (nr_cost_usd r)), (''total_tokens'', PInt (nr_total_tokens r)),
                   (''duration_seconds'', PFloat duration)] w)
           | Parked p \<Rightarrow> (Parked p, update_event ev ''waiting'' [(''duration_seconds'', PFloat duration)] w)
           | Raised e \<Rightarrow>
               if kind_of e = AdmissionRefused then (Raised e, w)
               else if kind_of e = ReplacedByLaterAttempt then (Raised e, note_replaced env (exn_str e) ev start None w)
               else (Done (with_duration duration (error_result FAILED (exn_str e))),
                     update_event ev ''failed'' [(''error'', PStr (exn_str e)), (''duration_seconds'', PFloat duration)] w))
      in (res, outside (ReleaseTools (step_path cx n)) w))"

text \<open>What the node's own condition says: go on, or the reason it is skipped.\<close>

definition condition_says :: "node \<Rightarrow> node_result dict \<Rightarrow> string option \<times> bool" where
  "condition_says n outs =
     (case nc_condition (config n) of
        Some (p # ps) \<Rightarrow>
          (case evaluate_condition (p # ps) outs of
             Inl e \<Rightarrow> (Some (exn_str e), False)
           | Inr False \<Rightarrow> (None, False)
           | Inr True \<Rightarrow> (None, True))
      | _ \<Rightarrow> (None, True))"

text \<open>
  Whether the node is left out before it runs: its result, and the status and reason of its event.
\<close>

definition left_out :: "node \<Rightarrow> exec_context \<Rightarrow> run_stop option \<Rightarrow> node_result dict \<Rightarrow> (node_result \<times> string \<times> string) option" where
  "left_out n cx stop outs =
     (case held_or_skipped n cx stop of
        Some held \<Rightarrow> Some held
      | None \<Rightarrow>
          (let upstream = check_dependency_failures n outs;
               why = (case upstream of None \<Rightarrow> [] | Some r \<Rightarrow> error_text r)
           in case (upstream, condition_says n outs) of
                (Some r, says) \<Rightarrow>
                  if \<not> runs_after_a_failure n cx stop
                  then Some (r, ''skipped'', if why = [] then ''dependency failed'' else why)
                  else (case says of
                          (_, True) \<Rightarrow> None
                        | (None, False) \<Rightarrow> Some (r, ''skipped'', ''condition not met; '' @ why)
                        | (Some e, False) \<Rightarrow> Some (r, ''skipped'', e @ ''; '' @ why))
              | (None, (_, True)) \<Rightarrow> None
              | (None, (None, False)) \<Rightarrow> Some (plain_result SKIPPED, ''skipped'', ''condition not met'')
              | (None, (Some e, False)) \<Rightarrow> Some (error_result SKIPPED e, ''skipped'', e)))"

definition EMPTY_RESPONSE :: "pyval dict" where
  "EMPTY_RESPONSE = [(''response'', PStr []), (''answers'', PList []), (''text'', PStr [])]"

text \<open>After the run: the event id, the verdict a loop needs, the files the node owes, its answers.\<close>

definition finish_node :: "run_env \<Rightarrow> node \<Rightarrow> exec_context \<Rightarrow> string \<Rightarrow> pyval dict \<Rightarrow> graph_state \<Rightarrow> node_result \<Rightarrow> world
    \<Rightarrow> node_result \<times> world" where
  "finish_node env n cx ev input_data gs r w =
     (let r = with_metadata NODE_EVENT_ID (PStr ev) r;
          (r, w) = (case loop_verdict_missing n r (dset (name_of n) r (gs_outputs gs)) of
             None \<Rightarrow> (r, w)
           | Some e \<Rightarrow> (with_metadata NO_LOOP_VERDICT (PBool True) (with_error (Some e) (with_status FAILED r)),
                        update_event ev ''failed'' [(''error'', PStr e)] w));
          (r, w) = (case required_file_missing (re_isfile env (w_tick w)) n r input_data (dset (name_of n) r (gs_outputs gs))
                 (Some (gs_node_map gs)) of
             None \<Rightarrow> (r, w)
           | Some e \<Rightarrow> (with_error (Some e) (with_status FAILED r), update_event ev ''failed'' [(''error'', PStr e)] w))
      in (r, if nr_status r = COMPLETED then outside (SpendAnswers (step_path cx n)) w
             else if nr_status r = FAILED then outside (ForgetStep (step_path cx n)) w
             else w))"

text \<open>From the resolved inputs to the result: the start of the node's event, the run, what follows it.\<close>

definition run_started_node :: "run_env \<Rightarrow> hooks \<Rightarrow> node \<Rightarrow> pyval dict \<Rightarrow> string list \<Rightarrow> pyval dict \<Rightarrow> exec_context \<Rightarrow> string
    \<Rightarrow> graph_state \<Rightarrow> world \<Rightarrow> node_result outcome \<times> world" where
  "run_started_node env hk n resolved unresolved input_data cx parent_event gs w =
     (let (ev, w) = record_event ''stage.started''
            (build_node_event_data n @ (if unresolved = [] then [] else [(''unresolved_inputs'', str_vals unresolved)]))
            (Some parent_event) ''running'' w;
          (out, w) = run_node_with_events env hk n resolved cx (gs_dispatch gs) ev w
      in case out of
           Raised e \<Rightarrow> (Raised e, w)
         | Parked p \<Rightarrow> (Parked p, if nc_gate (config n) then outside (KeepGateAnswer (step_path cx n) (pk_event_id p)) w else w)
         | Done r \<Rightarrow> (case finish_node env n cx ev input_data gs r w of (r', w') \<Rightarrow> (Done r', w')))"

definition execute_single_node :: "run_env \<Rightarrow> hooks \<Rightarrow> pyval dict \<Rightarrow> exec_context \<Rightarrow> string \<Rightarrow> graph_state \<Rightarrow> node \<Rightarrow> world
    \<Rightarrow> node_result outcome \<times> world" where
  "execute_single_node env hk input_data cx parent_event gs n w =
     (case left_out n cx (w_stop w) (gs_outputs gs) of
        Some (r, st, reason) \<Rightarrow> (Done r, record_skipped_node n parent_event reason st w)
      | None \<Rightarrow>
          (let (resolved, unresolved) = resolve_inputs n input_data (gs_outputs gs) (gs_feedback gs) (Some (gs_node_map gs));
               resolved = inject_strategy_context n resolved (gs_outputs gs)
           in if nc_gate (config n)
              then (case hk_gate hk n cx parent_event (gs_outputs gs) w of
                      (Raised e, w) \<Rightarrow> (Raised e, w)
                    | (Parked p, w) \<Rightarrow> (Parked p, w)
                    | (Done response, w) \<Rightarrow>
                        (let answer = (case response of Some (p # ps) \<Rightarrow> p # ps | _ \<Rightarrow> EMPTY_RESPONSE)
                         in run_started_node env hk n (dset ''gate'' (PDict answer) resolved) unresolved input_data cx parent_event gs w))
              else run_started_node env hk n resolved unresolved input_data cx parent_event gs w))"

section \<open>A parallel batch\<close>

text \<open>What the batch has collected so far.\<close>

record batch_acc =
  ba_results :: "(node \<times> node_result) list"
  ba_refused :: "exn option"
  ba_replaced :: "exn option"
  ba_parked :: "park option"

definition first_exn :: "exn option \<Rightarrow> exn \<Rightarrow> exn option" where
  "first_exn old e = (case old of None \<Rightarrow> Some e | Some x \<Rightarrow> Some x)"

text \<open>A second gate that parked is named beside the first.\<close>

definition also_parked :: "park option \<Rightarrow> park \<Rightarrow> park" where
  "also_parked old p =
     (case old of
        None \<Rightarrow> p
      | Some q \<Rightarrow> q\<lparr>pk_also := pk_also q @ PDict (filter (\<lambda>(k, v). k \<noteq> ''also'') (park_as_dict p)) # pk_also p\<rparr>)"

definition collect :: "node \<Rightarrow> node_result outcome \<Rightarrow> batch_acc \<Rightarrow> batch_acc" where
  "collect n out acc =
     (case out of
        Done r \<Rightarrow> acc\<lparr>ba_results := ba_results acc @ [(n, r)]\<rparr>
      | Parked p \<Rightarrow> acc\<lparr>ba_parked := Some (also_parked (ba_parked acc) p)\<rparr>
      | Raised e \<Rightarrow>
          if kind_of e = AdmissionRefused then acc\<lparr>ba_refused := first_exn (ba_refused acc) e\<rparr>
          else if kind_of e = ReplacedByLaterAttempt then acc\<lparr>ba_replaced := first_exn (ba_replaced acc) e\<rparr>
          else acc\<lparr>ba_results := ba_results acc @ [(n, error_result FAILED (exn_str e))]\<rparr>)"

fun run_all :: "(node \<Rightarrow> world \<Rightarrow> node_result outcome \<times> world) \<Rightarrow> node list \<Rightarrow> batch_acc \<Rightarrow> world \<Rightarrow> batch_acc \<times> world" where
  "run_all exec [] acc w = (acc, w)"
| "run_all exec (n # ns) acc w = (case exec n w of (out, w') \<Rightarrow> run_all exec ns (collect n out acc) w')"

definition no_results :: batch_acc where
  "no_results = \<lparr>ba_results = [], ba_refused = None, ba_replaced = None, ba_parked = None\<rparr>"

text \<open>How the batch ends, and the steps that finished.\<close>

definition execute_parallel_batch :: "run_env \<Rightarrow> hooks \<Rightarrow> pyval dict \<Rightarrow> exec_context \<Rightarrow> string \<Rightarrow> graph_state \<Rightarrow> node list \<Rightarrow> world
    \<Rightarrow> unit outcome \<times> (node \<times> node_result) list \<times> world" where
  "execute_parallel_batch env hk input_data cx parent_event gs batch w =
     (let (acc, w') = run_all (execute_single_node env hk input_data cx parent_event gs) (re_order env (w_tick w) batch) no_results w
      in (case (ba_refused acc, ba_replaced acc, ba_parked acc) of
            (Some e, _, _) \<Rightarrow> Raised e
          | (None, Some e, _) \<Rightarrow> Raised e
          | (None, None, Some p) \<Rightarrow> Parked p
          | (None, None, None) \<Rightarrow> Done (),
          ba_results acc, w'))"

end
