(* ===== verification/Executor.thy ===== *)
theory Executor
  imports Node_Run
begin

text \<open>
  A whole graph: the loop over batches (\<^verbatim>\<open>_run_batches\<close>), what a resume puts back (\<^verbatim>\<open>_readd_dispatched\<close>,
  \<^verbatim>\<open>_renamed_from\<close>, \<^verbatim>\<open>_resume_state\<close>), the end of a graph (\<^verbatim>\<open>_settle_run\<close>, \<^verbatim>\<open>_cleanups_owed\<close>,
  \<^verbatim>\<open>_build_final_result\<close>, \<^verbatim>\<open>_end_graph\<close>, \<^verbatim>\<open>_ended_run_totals\<close>, \<^verbatim>\<open>_note_parked\<close>, \<^verbatim>\<open>_parked_on_cancel\<close>) and
  \<^verbatim>\<open>execute_graph\<close> itself, of \<^verbatim>\<open>temper_ai/stage/executor.py\<close>.

  The loop over batches is \<open>iterate\<close>: \<open>None\<close> would be a graph that never ends.
\<close>

section \<open>The loop over batches\<close>

definition stopped_by_cancel :: "run_env \<Rightarrow> exn" where
  "stopped_by_cancel env = Exn CancellationError
     (case re_stop_words env of Some (c # cs) \<Rightarrow> c # cs | _ \<Rightarrow> CANCEL_MESSAGE)"

definition cp_prefix_of :: "exec_context \<Rightarrow> string" where
  "cp_prefix_of cx = (if cx_node_path cx \<noteq> [] then cx_node_path cx @ ''.'' else [])"

definition put_output :: "node \<Rightarrow> node_result \<Rightarrow> graph_state \<Rightarrow> graph_state" where
  "put_output n r gs = gs\<lparr>gs_outputs := dset (name_of n) r (gs_outputs gs)\<rparr>"

text \<open>\<open>for node, result in results: node_outputs[node.name] = result; _record_outcome(...)\<close>\<close>

fun keep_results :: "run_env \<Rightarrow> string \<Rightarrow> (node \<times> node_result) list \<Rightarrow> graph_state \<Rightarrow> world \<Rightarrow> graph_state \<times> world" where
  "keep_results env cp_prefix [] gs w = (gs, w)"
| "keep_results env cp_prefix ((n, r) # rs) gs w =
     keep_results env cp_prefix rs (put_output n r gs) (record_outcome env cp_prefix n r w)"

text \<open>\<open>for node, result in results: _apply_declarative_dispatch(...)\<close>\<close>

fun dispatch_results :: "run_env \<Rightarrow> dispatch_env \<Rightarrow> exec_context \<Rightarrow> string \<Rightarrow> pyval dict \<Rightarrow> (node \<times> node_result) list
    \<Rightarrow> graph_state \<Rightarrow> world \<Rightarrow> exn option \<times> graph_state \<times> world" where
  "dispatch_results env dx cx ge input_data [] gs w = (None, gs, w)"
| "dispatch_results env dx cx ge input_data ((n, r) # rs) gs w =
     (case apply_declarative_dispatch env dx cx (cx_parent_event cx) (Some ge) n r input_data gs w of
        (Some e, gs', w') \<Rightarrow> (Some e, gs', w')
      | (None, gs', w') \<Rightarrow> dispatch_results env dx cx ge input_data rs gs' w')"

type_synonym loop_position = "nat \<times> graph_state \<times> world"
type_synonym loop_end = "unit outcome \<times> graph_state \<times> world"

text \<open>A batch of one: run, record, dispatch, then the node's loop.\<close>

definition single_turn :: "run_env \<Rightarrow> hooks \<Rightarrow> dispatch_env \<Rightarrow> exec_context \<Rightarrow> string \<Rightarrow> pyval dict \<Rightarrow> node \<Rightarrow> nat \<Rightarrow> graph_state \<Rightarrow> world
    \<Rightarrow> loop_position + loop_end" where
  "single_turn env hk dx cx ge input_data n idx gs w =
     (case execute_single_node env hk input_data cx ge gs n w of
        (Raised e, w) \<Rightarrow> Inr (Raised e, gs, w)
      | (Parked p, w) \<Rightarrow> Inr (Parked p, gs, w)
      | (Done r, w) \<Rightarrow>
          (let gs = put_output n r gs;
               w = record_outcome env (cp_prefix_of cx) n r w
           in case apply_declarative_dispatch env dx cx (cx_parent_event cx) (Some ge) n r input_data gs w of
                (Some e, gs, w) \<Rightarrow> Inr (Raised e, gs, w)
              | (None, gs, w) \<Rightarrow>
                  (case (if meta_set NO_LOOP_VERDICT r then (None, r, gs, w)
                         else handle_loop env (cp_prefix_of cx) n r input_data gs w) of
                     (Some rewind, r, gs, w) \<Rightarrow> Inl (rewind, gs, w)
                   | (None, r, gs, w) \<Rightarrow>
                       Inl (idx + 1, gs, if meta_set RAN_OUT_OF_ROUNDS r then record_ran_out env (cp_prefix_of cx) n r w else w))))"

text \<open>A batch of several nodes, or what a resume left of one.\<close>

definition parallel_turn :: "run_env \<Rightarrow> hooks \<Rightarrow> dispatch_env \<Rightarrow> exec_context \<Rightarrow> string \<Rightarrow> pyval dict \<Rightarrow> node list \<Rightarrow> nat \<Rightarrow> graph_state \<Rightarrow> world
    \<Rightarrow> loop_position + loop_end" where
  "parallel_turn env hk dx cx ge input_data remaining idx gs w =
     (case execute_parallel_batch env hk input_data cx ge gs remaining w of
        (Raised e, _, w) \<Rightarrow> Inr (Raised e, gs, w)
      | (how, results, w) \<Rightarrow>
          (let (gs, w) = keep_results env (cp_prefix_of cx) results gs w
           in case dispatch_results env dx cx ge input_data results gs w of
                (Some e, gs, w) \<Rightarrow> Inr (Raised e, gs, w)
              | (None, gs, w) \<Rightarrow> (case how of Parked p \<Rightarrow> Inr (Parked p, gs, w) | _ \<Rightarrow> Inl (idx + 1, gs, w))))"

definition batch_turn :: "run_env \<Rightarrow> hooks \<Rightarrow> dispatch_env \<Rightarrow> exec_context \<Rightarrow> string \<Rightarrow> pyval dict \<Rightarrow> loop_position
    \<Rightarrow> loop_position + loop_end" where
  "batch_turn env hk dx cx ge input_data pos =
     (case pos of (idx, gs, w) \<Rightarrow>
        if length (gs_batches gs) \<le> idx then Inr (Done (), gs, w)
        else case check_cancelled env w of
          (True, w) \<Rightarrow> Inr (Raised (stopped_by_cancel env), gs, w)
        | (False, w) \<Rightarrow>
            (let batch = gs_batches gs ! idx;
                 remaining = filter (\<lambda>n. \<not> dhas (name_of n) (gs_outputs gs)) batch
             in if remaining = [] then Inl (idx + 1, gs, w)
                else if length remaining = 1 \<and> length batch = 1 then single_turn env hk dx cx ge input_data (hd batch) idx gs w
                else parallel_turn env hk dx cx ge input_data remaining idx gs w))"

definition run_batches :: "run_env \<Rightarrow> hooks \<Rightarrow> dispatch_env \<Rightarrow> exec_context \<Rightarrow> string \<Rightarrow> pyval dict \<Rightarrow> graph_state \<Rightarrow> world
    \<Rightarrow> loop_end option" where
  "run_batches env hk dx cx ge input_data gs w = iterate (batch_turn env hk dx cx ge input_data) (0, gs, w)"

section \<open>The end of a graph\<close>

definition spent_cost :: "graph_state \<Rightarrow> rat" where
  "spent_cost gs = sum_list (map (nr_cost_usd \<circ> snd) (gs_outputs gs)) + sum_list (map nr_cost_usd (gs_retired gs))"

definition spent_tokens :: "graph_state \<Rightarrow> int" where
  "spent_tokens gs = sum_list (map (nr_total_tokens \<circ> snd) (gs_outputs gs)) + sum_list (map nr_total_tokens (gs_retired gs))"

text \<open>The clean-ups that have not run, over the whole tree of nodes.\<close>

fun cleanups_owed :: "node list \<Rightarrow> node_result dict \<Rightarrow> string \<Rightarrow> (string \<times> string list) list" where
  "cleanups_owed [] outs pfx = []"
| "cleanups_owed (Node k cfg conf children fs # ns) outs pfx =
     (let n = Node k cfg conf children fs;
          path = (if pfx \<noteq> [] then pfx @ ''.'' @ nc_name cfg else nc_name cfg);
          res = dget outs (nc_name cfg);
          finished = (case res of None \<Rightarrow> False | Some r \<Rightarrow> nr_status r = COMPLETED)
      in (if is_cleanup n \<and> \<not> finished then [(path, undoes n)] else []) @
         (if children \<noteq> [] \<and> \<not> finished
          then cleanups_owed children (case res of None \<Rightarrow> [] | Some r \<Rightarrow> nr_node_results r) path else []) @
         cleanups_owed ns outs pfx)"

definition settle_run :: "run_env \<Rightarrow> exec_context \<Rightarrow> node list \<Rightarrow> node_result dict \<Rightarrow> pyval dict \<Rightarrow> world \<Rightarrow> pyval dict option \<times> world" where
  "settle_run env cx nodes outs input_data w =
     (case w_stop w of
        None \<Rightarrow> (None, w)
      | Some s \<Rightarrow>
          if \<not> stopped s then (None, if cx_run_only cx = None then outside HoldsFinish w else w)
          else
            let s = (if holds (rs_policy s)
                     then fold (\<lambda>(path, undone). hold path undone) (cleanups_owed nodes outs (cx_node_path cx)) s else s);
                w = w\<lparr>w_stop := Some s\<rparr>;
                w = (if rs_held s \<noteq> [] \<and> cx_run_only cx = None
                     then outside (HoldsRecord input_data (rs_held s) (deadline (rs_policy s) (re_now env (w_tick w)))
                            (rs_path s) (rs_reason s)) w
                     else w)
            in (Some (run_stop_as_dict (re_isoformat env) s), w))"

text \<open>Workflow-level outputs, collected from the nodes.\<close>

definition collect_outputs :: "pyval dict option \<Rightarrow> pyval dict \<Rightarrow> node_result dict \<Rightarrow> pyval dict" where
  "collect_outputs workflow_outputs input_data outs =
     (case workflow_outputs of
        None \<Rightarrow> []
      | Some sources \<Rightarrow> map (\<lambda>(k, source). (k, fst (resolve_single_input ''__workflow__'' k source input_data outs None))) sources)"

definition retired_calls :: "node_result list \<Rightarrow> pyval dict" where
  "retired_calls retired =
     (let agents = concat (map nr_agent_results retired)
      in if agents = [] then []
         else [(''retired_llm_calls'', PInt (sum_list (map ar_llm_calls agents))),
               (''retired_tool_calls'', PInt (sum_list (map ar_tool_calls agents)))])"

definition cancelled_ends_stage :: "run_env \<Rightarrow> node \<Rightarrow> bool" where
  "cancelled_ends_stage env n =
     (node_kind n = AgentNode \<and> re_agent_cancels env (text_or (dget_or (agent_config n) ''type'' PNone) ''llm''))"

text \<open>Which nodes the graph answers for: those that failed, and the results that hold it back.\<close>

definition answerable :: "run_env \<Rightarrow> bool \<Rightarrow> node list \<Rightarrow> node_result dict \<Rightarrow> string list \<times> node_result list" where
  "answerable env is_workflow nodes outs =
     (if is_workflow
      then (failed_node_names outs [], filter (\<lambda>r. nr_status r = CANCELLED) (map snd outs))
      else
        let own = map name_of (filter fails_stage nodes)
        in (filter (\<lambda>name. case dget outs name of None \<Rightarrow> True | Some r \<Rightarrow> nr_status r = FAILED) own,
            concat (map (\<lambda>name. case dget outs name of None \<Rightarrow> []
              | Some r \<Rightarrow> if nr_status r \<in> {CANCELLED, SKIPPED} then [r] else []) own) @
            concat (map (\<lambda>n. if cancelled_ends_stage env n \<and> name_of n \<notin> set own
              then (case dget outs (name_of n) of None \<Rightarrow> [] | Some r \<Rightarrow> if nr_status r = CANCELLED then [r] else [])
              else []) nodes)))"

text \<open>The reasons a failed stage gives.\<close>

definition failed_reasons :: "string list \<Rightarrow> node_result dict \<Rightarrow> string list" where
  "failed_reasons failed outs =
     concat (map (\<lambda>name. case dget outs name of
        None \<Rightarrow> [name @ '': it never ran'']
      | Some r \<Rightarrow> if error_text r = [] then [] else [name @ '': '' @ error_text r]) failed)"

definition failed_error :: "bool \<Rightarrow> string list \<Rightarrow> node_result dict \<Rightarrow> string" where
  "failed_error is_workflow failed outs =
     (let error = nat_str (length failed) @ '' node(s) failed: '' @ join '', '' failed;
          why = failed_reasons failed outs
      in if \<not> is_workflow \<and> why \<noteq> [] then error @ '' ('' @ join ''; '' why @ '')'' else error)"

text \<open>The final status, the error, and the names of the failed nodes.\<close>

definition graph_verdict :: "run_env \<Rightarrow> exec_context \<Rightarrow> bool \<Rightarrow> node list \<Rightarrow> node_result dict \<Rightarrow> pyval dict option
    \<Rightarrow> status \<times> string option \<times> string list" where
  "graph_verdict env cx is_workflow nodes outs stop_note =
     (let (failed, held_back) = answerable env is_workflow nodes outs;
          failed = (if is_workflow \<and> failed = []
                    then (case stop_note of None \<Rightarrow> []
                          | Some d \<Rightarrow> (case dget_or d ''path'' PNone of PStr (c # cs) \<Rightarrow> [c # cs] | _ \<Rightarrow> []))
                    else failed);
          st = (if failed \<noteq> [] then FAILED else COMPLETED);
          st = (if is_workflow \<and> cx_run_only cx \<noteq> None then FAILED else st);
          (st, error) = (if held_back \<noteq> [] \<and> st \<noteq> FAILED
             then let cancelled = filter (\<lambda>r. nr_status r = CANCELLED) held_back;
                      st = (if cancelled \<noteq> [] then CANCELLED else SKIPPED);
                      e = error_text (hd (if cancelled \<noteq> [] then cancelled else held_back))
                  in (st, Some (if e = [] then status_value st else e))
             else (st, None))
      in (st, if failed \<noteq> [] then Some (failed_error is_workflow failed outs) else error, failed))"

definition build_final_result :: "run_env \<Rightarrow> exec_context \<Rightarrow> bool \<Rightarrow> node list \<Rightarrow> pyval dict \<Rightarrow> rat \<Rightarrow> string \<Rightarrow> pyval dict option
    \<Rightarrow> pyval dict option \<Rightarrow> graph_state \<Rightarrow> world \<Rightarrow> node_result \<times> world" where
  "build_final_result env cx is_workflow nodes input_data start ge workflow_outputs stop_note gs w =
     (let outs = gs_outputs gs;
          agents = concat (map (\<lambda>n. case dget outs (name_of n) of None \<Rightarrow> [] | Some r \<Rightarrow> nr_agent_results r) nodes);
          duration = re_monotonic env (w_tick w) - start;
          last_output = get_final_output nodes outs;
          outputs = collect_outputs workflow_outputs input_data outs;
          (st, error, failed) = graph_verdict env cx is_workflow nodes outs stop_note;
          data = [(''cost_usd'', PFloat (spent_cost gs)), (''total_tokens'', PInt (spent_tokens gs)), (''duration_seconds'', PFloat duration)] @
            retired_calls (gs_retired gs) @
            (if outputs = [] then [] else [(''workflow_output'', PDict outputs)]) @
            (case stop_note of None \<Rightarrow> [] | Some d \<Rightarrow> [(''stopped'', PDict d)]) @
            (case error of None \<Rightarrow> [] | Some e \<Rightarrow> [(''error'', PStr e)]) @
            (if failed = [] then [] else [(''failed_nodes'', str_vals failed)])
      in (NodeResult st (case last_output of None \<Rightarrow> [] | Some r \<Rightarrow> nr_output r)
            (if outputs \<noteq> [] then Some outputs else Option.bind last_output nr_structured_output)
            agents outs (spent_cost gs) (spent_tokens gs) duration error [],
          update_event ge (status_value st) data w))"

text \<open>\<open>_ended_run_totals\<close>: the cost and tokens, and the data for the event.\<close>

definition ended_run_totals :: "run_env \<Rightarrow> string \<Rightarrow> node_result list \<Rightarrow> graph_state \<Rightarrow> world \<Rightarrow> rat \<times> int" where
  "ended_run_totals env ge kept gs w =
     (case re_attempt_spend env (w_tick w) ge of
        None \<Rightarrow> (spent_cost gs, spent_tokens gs)
      | Some (cost, tokens) \<Rightarrow>
          (max (spent_cost gs) (sum_list (map nr_cost_usd kept) + cost),
           max (spent_tokens gs) (sum_list (map nr_total_tokens kept) + tokens)))"

definition end_graph :: "run_env \<Rightarrow> exec_context \<Rightarrow> bool \<Rightarrow> node list \<Rightarrow> pyval dict \<Rightarrow> rat \<Rightarrow> string \<Rightarrow> node_result list \<Rightarrow> exn \<Rightarrow> graph_state \<Rightarrow> world
    \<Rightarrow> node_result \<times> world" where
  "end_graph env cx is_workflow nodes input_data start ge kept e gs w =
     (let duration = re_monotonic env (w_tick w) - start;
          terminal = (if kind_of e \<in> {CancellationError, ReplacedByLaterAttempt} then CANCELLED else FAILED);
          message = (case (terminal, re_stop_words env) of (CANCELLED, Some (c # cs)) \<Rightarrow> c # cs | _ \<Rightarrow> exn_str e);
          where_stopped = (if cx_node_path cx \<noteq> [] then cx_node_path cx else ''the run'');
          w = (if is_workflow then change_stop (note_failure (re_now env (w_tick w)) where_stopped (Some message)) w else w);
          (stop_note, w) = (if is_workflow then settle_run env cx nodes (gs_outputs gs) input_data w else (None, w));
          (cost, tokens) = (if is_workflow then ended_run_totals env ge kept gs w else (spent_cost gs, spent_tokens gs));
          data = [(''error'', PStr message), (''duration_seconds'', PFloat duration)] @
            (case stop_note of None \<Rightarrow> [] | Some d \<Rightarrow> [(''stopped'', PDict d)]) @
            (if is_workflow then [(''cost_usd'', PFloat cost), (''total_tokens'', PInt tokens)] @ retired_calls (gs_retired gs) else [])
      in (NodeResult terminal [] None (concat (map (nr_agent_results \<circ> snd) (gs_outputs gs))) (gs_outputs gs) cost tokens duration (Some message) [],
          update_event ge (status_value terminal) data w))"

definition parked_on_cancel :: "exec_context \<Rightarrow> node list \<Rightarrow> node_result dict \<Rightarrow> run_stop option \<Rightarrow> pyval" where
  "parked_on_cancel cx nodes outs stop =
     (case (cx_run_only cx, stop) of
        (None, Some s) \<Rightarrow>
          (let owed = (if holds (rs_policy s) then cleanups_owed nodes outs (cx_node_path cx) else [])
           in PDict [(''mode'', PStr (fp_mode (rs_policy s))), (''hold_hours'', PFloat (fp_hold_hours (rs_policy s))),
                (''held'', PList (map (\<lambda>(path, undone). PDict [(''path'', PStr path), (''undoes'', str_vals undone)]) owed))])
      | _ \<Rightarrow> PNone)"

definition note_parked :: "run_env \<Rightarrow> exec_context \<Rightarrow> bool \<Rightarrow> node list \<Rightarrow> rat \<Rightarrow> string \<Rightarrow> park \<Rightarrow> graph_state \<Rightarrow> world \<Rightarrow> world" where
  "note_parked env cx is_workflow nodes start ge p gs w =
     (let duration = re_monotonic env (w_tick w) - start
      in if \<not> is_workflow
         then update_event ge ''waiting'' [(''parked'', PDict (park_as_dict p)), (''duration_seconds'', PFloat duration)] w
         else let note = dmerge (park_as_dict p)
                [(''at'', PStr (re_isoformat env (re_now env (w_tick w)))), (''cost_usd'', PFloat (spent_cost gs)),
                 (''total_tokens'', PInt (spent_tokens gs)),
                 (''on_cancel'', parked_on_cancel cx nodes (gs_outputs gs) (w_stop w))]
              in update_event ge ''waiting'' [(''parked'', PDict note), (''duration_seconds'', PFloat duration)] w)"

section \<open>What a resume puts back\<close>

definition renamed_from :: "node dict \<Rightarrow> string list dict" where
  "renamed_from node_map =
     concat (map (\<lambda>(name, n). case nc_renamed_from (config n) of Some (o1 # olds) \<Rightarrow> [(name, o1 # olds)] | _ \<Rightarrow> []) node_map)"

text \<open>\<open>_resume_state\<close>: nothing when there are no checkpoints or they cannot be read.\<close>

definition saved_state :: "world \<Rightarrow> resume_info" where
  "saved_state w =
     (case w_cp w of
        None \<Rightarrow> empty_resume
      | Some cs \<Rightarrow> (case resume_state (cs_rows cs) (cs_execution_id cs) None of Some (Inr ri) \<Rightarrow> ri | _ \<Rightarrow> empty_resume))"

text \<open>The graph while its dispatched nodes are put back.\<close>

record readd_state =
  rd_nodes :: "node list"
  rd_node_map :: "node dict"
  rd_batches :: "node list list"
  rd_tombstones :: "node_result dict"
  rd_added :: "node list"

definition readd_remove :: "dispatch_entry \<Rightarrow> string \<Rightarrow> readd_state \<Rightarrow> readd_state" where
  "readd_remove entry target rd =
     (if \<not> dhas target (rd_node_map rd) \<or> list_ex (\<lambda>d. dget d ''name'' = Some (PStr target)) (de_added_nodes entry) then rd
      else rd\<lparr>rd_node_map := ddel target (rd_node_map rd),
              rd_nodes := filter (\<lambda>n. name_of n \<noteq> target) (rd_nodes rd),
              rd_batches := map (filter (\<lambda>n. name_of n \<noteq> target)) (rd_batches rd),
              rd_tombstones := dset target (tombstone (de_dispatcher entry)) (rd_tombstones rd)\<rparr>)"

definition readd_node :: "(pyval dict \<Rightarrow> node res) \<Rightarrow> pyval dict \<Rightarrow> readd_state \<Rightarrow> readd_state" where
  "readd_node build node_dict rd =
     (case dget node_dict ''name'' of
        Some (PStr name) \<Rightarrow>
          if dhas name (rd_node_map rd) then rd
          else (case build node_dict of
                  Inl _ \<Rightarrow> rd
                | Inr built \<Rightarrow> rd\<lparr>rd_node_map := dset name built (rd_node_map rd), rd_added := rd_added rd @ [built]\<rparr>)
      | _ \<Rightarrow> rd)"

definition readd_entry :: "(pyval dict \<Rightarrow> node res) \<Rightarrow> dispatch_entry \<Rightarrow> readd_state \<Rightarrow> readd_state" where
  "readd_entry build entry rd =
     fold (readd_node build) (de_added_nodes entry) (fold (readd_remove entry) (de_removed_targets entry) rd)"

definition own_deps :: "node dict \<Rightarrow> string list dict" where
  "own_deps node_map = map (\<lambda>(name, n). (name, deps_of n)) node_map"

definition readd_dispatched :: "dispatch_env \<Rightarrow> exec_context \<Rightarrow> node list \<Rightarrow> node dict \<Rightarrow> node list list \<Rightarrow> restore
    \<Rightarrow> readd_state res \<times> restore" where
  "readd_dispatched dx cx nodes node_map batches rt =
     (let pfx = cp_prefix_of cx;
          (entries, rt') = claim_dispatches pfx (dkeys node_map) (reruns pfx (own_deps node_map) rt) rt;
          rd = \<lparr>rd_nodes = nodes, rd_node_map = node_map, rd_batches = batches, rd_tombstones = [], rd_added = []\<rparr>
      in case dx_loader dx of
           None \<Rightarrow> (Inr rd, rt')
         | Some build \<Rightarrow>
             (let rd = fold (readd_entry build) entries rd
              in if rd_added rd = [] then (Inr rd, rt')
                 else case topological_sort (rd_added rd) of
                   Inl e \<Rightarrow> (Inl e, rt')
                 | Inr new_batches \<Rightarrow>
                       (Inr (rd\<lparr>rd_nodes := rd_nodes rd @ rd_added rd, rd_batches := rd_batches rd @ new_batches\<rparr>), rt')))"

text \<open>A run without a \<open>Restore\<close>: results under a node's earlier names, then under its own.\<close>

definition handed_over :: "node dict \<Rightarrow> node_result dict \<Rightarrow> node_result dict" where
  "handed_over node_map initial =
     (let old_names = dmerge [] (concat (map (\<lambda>(name, olds). map (\<lambda>old. (old, name)) olds) (renamed_from node_map)))
      in dmerge (dmerge [] (concat (map (\<lambda>(k, r). case dget old_names k of None \<Rightarrow> [] | Some name \<Rightarrow> [(name, r)]) initial)))
           (filter (\<lambda>p. dhas (fst p) node_map) initial))"

section \<open>The whole graph\<close>

text \<open>What a graph starts from.\<close>

record graph_call =
  gc_nodes :: "node list"
  gc_input :: "pyval dict"
  gc_name :: string
  gc_is_workflow :: bool
  gc_initial :: "node_result dict option"
  gc_outputs :: "pyval dict option"
  gc_resume :: "pyval dict option"

text \<open>The shared objects a workflow call puts on the context when they are not there yet.\<close>

definition seed_context :: "graph_call \<Rightarrow> exec_context \<Rightarrow> world \<Rightarrow> exec_context \<times> world" where
  "seed_context gc cx w =
     (let resumed = gc_is_workflow gc \<and> gc_initial gc \<noteq> None;
          w = (case (resumed, w_restore w) of
                 (True, None) \<Rightarrow> w\<lparr>w_restore := Some (new_restore (the (gc_initial gc)) (ri_loops (saved_state w))
                     (resume_failed (saved_state w)) None [] (ri_dispatches (saved_state w)))\<rparr>
               | _ \<Rightarrow> w);
          w = (if resumed then outside NoteUnspentAnswers w else w)
      in if gc_is_workflow gc \<and> w_stop w = None
         then let policy = (case cx_failure_policy cx of None \<Rightarrow> default_policy | Some p \<Rightarrow> p)
              in (cx\<lparr>cx_failure_policy := Some policy\<rparr>, w\<lparr>w_stop := Some (new_run_stop policy)\<rparr>)
         else (cx, w))"

text \<open>The graph as it starts: its nodes and its state, or the exception that ends it before it starts.\<close>

definition start_graph :: "run_env \<Rightarrow> dispatch_env \<Rightarrow> graph_call \<Rightarrow> node list list \<Rightarrow> exec_context \<Rightarrow> nat option \<Rightarrow> world
    \<Rightarrow> (node list \<times> graph_state) res \<times> world" where
  "start_graph env dx gc batches cx ptr w =
     (let nodes = gc_nodes gc; node_map = build_node_map nodes
      in case w_restore w of
           None \<Rightarrow> (Inr (nodes, \<lparr>gs_batches = batches, gs_node_map = node_map,
               gs_outputs = handed_over node_map (case gc_initial gc of None \<Rightarrow> [] | Some d \<Rightarrow> d),
               gs_loop_counts = [], gs_feedback = [], gs_retired = [], gs_dispatch = ptr\<rparr>), w)
         | Some rt \<Rightarrow>
             (case readd_dispatched dx cx nodes node_map batches rt of
                (Inl e, rt) \<Rightarrow> (Inl e, w\<lparr>w_restore := Some rt\<rparr>)
              | (Inr rd, rt) \<Rightarrow>
                  (let (c, rt) = claim (cp_prefix_of cx) (own_deps (rd_node_map rd)) (renamed_from (rd_node_map rd)) rt;
                       outs = dmerge (dmerge [] (filter (\<lambda>p. dhas (fst p) (rd_node_map rd)) (cl_outputs c))) (rd_tombstones rd);
                       w = fold (\<lambda>name. checkpointed (save_node_reset (re_cp env) (cp_prefix_of cx @ name))) (cl_reset c)
                             (w\<lparr>w_restore := Some rt\<rparr>)
                   in (Inr (rd_nodes rd, \<lparr>gs_batches = rd_batches rd, gs_node_map = rd_node_map rd, gs_outputs = outs,
                         gs_loop_counts = cl_loop_counts c, gs_feedback = cl_loop_feedback c, gs_retired = [], gs_dispatch = ptr\<rparr>), w))))"

definition start_data :: "graph_call \<Rightarrow> exec_context \<Rightarrow> node list \<Rightarrow> graph_state \<Rightarrow> pyval dict" where
  "start_data gc cx nodes gs =
     dmerge ([(''name'', PStr (gc_name gc)), (''node_count'', PInt (int (length nodes)))] @
        (if gs_outputs gs \<noteq> [] \<and> \<not> gc_is_workflow gc then [(''restored_node_names'', str_vals (sort (dkeys (gs_outputs gs))))] else []) @
        (if gc_is_workflow gc then [(''input_data'', PDict (gc_input gc)), (''workspace_path'', opt_str (cx_workspace_path cx))] else []))
       (if gc_is_workflow gc then (case gc_resume gc of None \<Rightarrow> [] | Some d \<Rightarrow> d) else [])"

definition stopped_mid_step :: "run_env \<Rightarrow> node_result dict \<Rightarrow> world \<Rightarrow> bool" where
  "stopped_mid_step env outs w =
     (re_cancelled env (w_tick w) \<and> list_ex (\<lambda>(k, r). nr_status r \<in> {FAILED, CANCELLED}) outs)"

text \<open>How a graph ends, from how its loop ended.\<close>

definition close_graph :: "run_env \<Rightarrow> graph_call \<Rightarrow> exec_context \<Rightarrow> node list \<Rightarrow> rat \<Rightarrow> string \<Rightarrow> node_result list \<Rightarrow> loop_end
    \<Rightarrow> node_result outcome \<times> world" where
  "close_graph env gc cx nodes start ge kept loop_end =
     (let top = gc_is_workflow gc; inp = gc_input gc in
      case loop_end of
        (Done _, gs, w) \<Rightarrow>
          if stopped_mid_step env (gs_outputs gs) w
          then (case end_graph env cx top nodes inp start ge kept (stopped_by_cancel env) gs w of (r, w) \<Rightarrow> (Done r, w))
          else (let (stop_note, w) = (if top then settle_run env cx nodes (gs_outputs gs) inp w else (None, w));
                    (r, w) = build_final_result env cx top nodes inp start ge (gc_outputs gc) stop_note gs w
                in (Done r, w))
      | (Parked p, gs, w) \<Rightarrow>
          (case (top, w_stop w) of
             (True, Some s) \<Rightarrow>
               (case (rs_path s, rs_reason s) of
                  (Some path, reason) \<Rightarrow>
                    (case end_graph env cx top nodes inp start ge kept (Exn WorkflowError (quoted path @ '' failed while '' @
                        quoted (pk_path p) @ '' waited on you: '' @ py_str (opt_str reason))) gs w of (r, w) \<Rightarrow> (Done r, w))
                | (None, _) \<Rightarrow> (Parked p, note_parked env cx top nodes start ge p gs w))
           | _ \<Rightarrow> (Parked p, note_parked env cx top nodes start ge p gs w))
      | (Raised e, gs, w) \<Rightarrow>
          if kind_of e = ReplacedByLaterAttempt
          then (Raised e, note_replaced env (exn_str e) ge start (Some (map snd (gs_outputs gs) @ gs_retired gs)) w)
          else (case end_graph env cx top nodes inp start ge kept e gs w of (r, w) \<Rightarrow> (Done r, w)))"

text \<open>The \<open>finally\<close> of a workflow: what its steps asked is forgotten, unless it stood down.\<close>

definition forget_at_end :: "bool \<Rightarrow> node_result outcome \<Rightarrow> world \<Rightarrow> world" where
  "forget_at_end is_workflow out w =
     (if is_workflow \<and> \<not> (case out of Raised e \<Rightarrow> kind_of e = ReplacedByLaterAttempt | _ \<Rightarrow> False)
      then outside ForgetRun w else w)"

definition execute_graph :: "run_env \<Rightarrow> hooks \<Rightarrow> dispatch_env \<Rightarrow> graph_call \<Rightarrow> exec_context \<Rightarrow> nat option \<Rightarrow> world
    \<Rightarrow> (node_result outcome \<times> world) option" where
  "execute_graph env hk dx gc cx ptr w =
     (case topological_sort (gc_nodes gc) of
        Inl e \<Rightarrow> Some (Raised e, w)
      | Inr batches \<Rightarrow>
          (let (cx, w) = seed_context gc cx w
           in case start_graph env dx gc batches cx ptr w of
           (Inl e, w) \<Rightarrow> Some (Raised e, w)
         | (Inr (nodes, gs), w) \<Rightarrow>
             (let start = re_monotonic env (w_tick w);
                  (ge, w) = record_event (if gc_is_workflow gc then ''workflow.started'' else ''stage.started'')
                    (start_data gc cx nodes gs) (if gc_is_workflow gc then None else cx_parent_event cx) ''running'' w
              in case run_batches env hk dx cx ge (gc_input gc) gs w of
                   None \<Rightarrow> None
                 | Some how \<Rightarrow>
                     (case close_graph env gc cx nodes start ge (map snd (gs_outputs gs)) how of
                        (out, w) \<Rightarrow> Some (out, forget_at_end (gc_is_workflow gc) out w)))))"

section \<open>The loop over batches ends\<close>

text \<open>
  What the executor relies on of a node's \<open>run\<close> and of a gate: that they keep the caps on the dispatch
  states they share with the graph, and that a count of dispatched nodes never goes down.
\<close>

definition hooks_ok :: "dispatch_limits \<Rightarrow> hooks \<Rightarrow> bool" where
  "hooks_ok lms hk \<longleftrightarrow>
     (\<forall>n resolved ev cx ptr w out w'. hk_run hk n resolved ev cx ptr w = (out, w') \<longrightarrow> heap_ok lms w \<longrightarrow> ptr_ok ptr w \<longrightarrow>
        heap_ok lms w' \<and> heap_grows w w') \<and>
     (\<forall>n cx parent outs w out w'. hk_gate hk n cx parent outs w = (out, w') \<longrightarrow> heap_ok lms w \<longrightarrow> heap_ok lms w' \<and> heap_grows w w')"

definition world_ok :: "dispatch_limits \<Rightarrow> world \<Rightarrow> world \<Rightarrow> bool" where
  "world_ok lms w w' \<longleftrightarrow> heap_ok lms w' \<and> heap_grows w w'"

lemma world_ok_same: "w_dispatch w' = w_dispatch w \<Longrightarrow> heap_ok lms w \<Longrightarrow> world_ok lms w w'"
  by (simp add: world_ok_def heap_ok_def heap_grows_def)

lemma world_ok_trans: "world_ok lms u v \<Longrightarrow> world_ok lms v w \<Longrightarrow> world_ok lms u w"
  unfolding world_ok_def using heap_grows_trans by blast

lemma world_ok_then: "world_ok lms u v \<Longrightarrow> w_dispatch w = w_dispatch v \<Longrightarrow> world_ok lms u w"
  by (simp add: world_ok_def heap_ok_def heap_grows_def)

lemma hk_run_ok:
  "hooks_ok lms hk \<Longrightarrow> hk_run hk n resolved ev cx ptr w = (out, w') \<Longrightarrow> heap_ok lms w \<Longrightarrow> ptr_ok ptr w \<Longrightarrow> world_ok lms w w'"
  unfolding hooks_ok_def world_ok_def by blast

lemma hk_gate_ok: "hooks_ok lms hk \<Longrightarrow> hk_gate hk n cx parent outs w = (out, w') \<Longrightarrow> heap_ok lms w \<Longrightarrow> world_ok lms w w'"
  unfolding hooks_ok_def world_ok_def by blast

lemma dispatch_kept [simp]:
  "w_dispatch (note_replaced env m i s sp w) = w_dispatch w"
  "w_dispatch (record_outcome env pfx n r w) = w_dispatch w"
  "w_dispatch (record_ran_out env pfx n r w) = w_dispatch w"
  by (simp_all add: note_replaced_def record_outcome_def record_ran_out_def Let_def split: pyval.splits list.splits)

lemma run_node_with_events_ok:
  assumes "hooks_ok lms hk" and "run_node_with_events env hk n resolved cx ptr ev w = (out, w')" and "heap_ok lms w" and "ptr_ok ptr w"
  shows "world_ok lms w w'"
proof -
  obtain o1 w1 where run: "hk_run hk n resolved ev cx ptr w = (o1, w1)" by fastforce
  have "w_dispatch w' = w_dispatch w1"
    using assms(2) run
    by (auto simp: run_node_with_events_def run_with_timeout_def Let_def split: option.splits if_splits outcome.splits prod.splits)
  then show ?thesis using hk_run_ok [OF assms(1) run assms(3,4)] world_ok_then by blast
qed

lemma finish_node_dispatch [simp]: "w_dispatch (snd (finish_node env n cx ev inp gs r w)) = w_dispatch w"
  by (simp add: finish_node_def Let_def split: option.splits)

lemma run_started_node_ok:
  assumes "hooks_ok lms hk" and "run_started_node env hk n resolved un inp cx parent gs w = (out, w')" and "heap_ok lms w"
    and "ptr_ok (gs_dispatch gs) w"
  shows "world_ok lms w w'"
proof -
  obtain ev w1 where ev: "record_event ''stage.started''
            (build_node_event_data n @ (if un = [] then [] else [(''unresolved_inputs'', str_vals un)])) (Some parent) ''running'' w = (ev, w1)"
    by fastforce
  then have w1: "w_dispatch w1 = w_dispatch w" by (metis snd_conv world_sels(20))
  obtain o2 w2 where run: "run_node_with_events env hk n resolved cx (gs_dispatch gs) ev w1 = (o2, w2)" by fastforce
  have "heap_ok lms w1" "ptr_ok (gs_dispatch gs) w1" using assms(3,4) w1 by (auto simp: heap_ok_def ptr_ok_def split: option.splits)
  then have "world_ok lms w1 w2" by (rule run_node_with_events_ok [OF assms(1) run])
  moreover have "w_dispatch w' = w_dispatch w2"
  proof (cases o2)
    case (Done r)
    then show ?thesis
      using assms(2) ev run finish_node_dispatch [of env n cx ev inp gs r w2]
      by (cases "finish_node env n cx ev inp gs r w2") (auto simp: run_started_node_def)
  qed (use assms(2) ev run in \<open>auto simp: run_started_node_def split: if_splits\<close>)
  ultimately show ?thesis
    using world_ok_same [OF w1 assms(3)] world_ok_trans world_ok_then by blast
qed

lemma execute_single_node_ok:
  assumes "hooks_ok lms hk" and "execute_single_node env hk inp cx parent gs n w = (out, w')" and "heap_ok lms w"
    and "ptr_ok (gs_dispatch gs) w"
  shows "world_ok lms w w'"
proof (cases "left_out n cx (w_stop w) (gs_outputs gs)")
  case (Some x)
  then show ?thesis using assms by (cases x) (auto simp: execute_single_node_def intro!: world_ok_same)
next
  case None
  obtain resolved un where res: "resolve_inputs n inp (gs_outputs gs) (gs_feedback gs) (Some (gs_node_map gs)) = (resolved, un)" by fastforce
  let ?in = "inject_strategy_context n resolved (gs_outputs gs)"
  show ?thesis
  proof (cases "nc_gate (config n)")
    case True
    obtain g w1 where gate: "hk_gate hk n cx parent (gs_outputs gs) w = (g, w1)" by fastforce
    have ok1: "world_ok lms w w1" using hk_gate_ok [OF assms(1) gate assms(3)] .
    show ?thesis
    proof (cases g)
      case (Done response)
      have "\<exists>resolved'. run_started_node env hk n resolved' un inp cx parent gs w1 = (out, w')"
        using assms(2) None res True gate Done by (auto simp: execute_single_node_def Let_def)
      then have "world_ok lms w1 w'"
        using run_started_node_ok [OF assms(1)] ok1 heap_grows_ptr assms(4) by (auto simp: world_ok_def)
      then show ?thesis using ok1 world_ok_trans by blast
    qed (use assms(2) None res True gate ok1 in \<open>auto simp: execute_single_node_def Let_def\<close>)
  next
    case False
    have "run_started_node env hk n ?in un inp cx parent gs w = (out, w')"
      using assms(2) None res False by (simp add: execute_single_node_def Let_def)
    then show ?thesis by (rule run_started_node_ok [OF assms(1) _ assms(3,4)])
  qed
qed

lemma run_all_ok:
  assumes exec: "\<And>n w out w'. exec n w = (out, w') \<Longrightarrow> heap_ok lms w \<Longrightarrow> ptr_ok p w \<Longrightarrow> world_ok lms w w'"
  shows "run_all exec ns acc w = (acc', w') \<Longrightarrow> heap_ok lms w \<Longrightarrow> ptr_ok p w \<Longrightarrow> world_ok lms w w'"
proof (induction ns arbitrary: acc w)
  case (Cons n ns)
  obtain out w1 where one: "exec n w = (out, w1)" by fastforce
  have ok1: "world_ok lms w w1" using exec [OF one] Cons.prems(2,3) .
  then have "world_ok lms w1 w'"
    using Cons.IH [of "collect n out acc" w1] Cons.prems one heap_grows_ptr by (auto simp: world_ok_def)
  with ok1 show ?case by (rule world_ok_trans)
qed (simp add: world_ok_def)

lemma execute_parallel_batch_ok:
  assumes "hooks_ok lms hk" and "execute_parallel_batch env hk inp cx parent gs batch w = (how, results, w')" and "heap_ok lms w"
    and "ptr_ok (gs_dispatch gs) w"
  shows "world_ok lms w w'"
proof -
  obtain acc w1 where run: "run_all (execute_single_node env hk inp cx parent gs) (re_order env (w_tick w) batch) no_results w = (acc, w1)"
    by fastforce
  have "world_ok lms w w1"
    by (rule run_all_ok [OF _ run assms(3,4)]) (rule execute_single_node_ok [OF assms(1)])
  then show ?thesis using assms(2) run by (simp add: execute_parallel_batch_def)
qed

text \<open>What is left to do: nodes that may still be dispatched, rounds that may still be made, batches ahead.\<close>

definition rounds_left :: "nat dict \<Rightarrow> node \<Rightarrow> nat" where
  "rounds_left counts n =
     (case loop_target n of None \<Rightarrow> 0 | Some t \<Rightarrow> nat (nc_max_loops (config n) - int (dget_or counts (loop_key n t) 0)))"

definition loop_budget :: "graph_state \<Rightarrow> nat" where
  "loop_budget gs = sum_list (map (rounds_left (gs_loop_counts gs)) (concat (gs_batches gs)))"

definition dispatch_budget :: "dispatch_limits \<Rightarrow> graph_state \<Rightarrow> world \<Rightarrow> nat" where
  "dispatch_budget lms gs w = nat (max_dynamic_nodes lms - dispatched (gs_dispatch gs) w)"

definition work_left :: "dispatch_limits \<Rightarrow> loop_position \<Rightarrow> nat \<times> nat \<times> nat" where
  "work_left lms pos =
     (case pos of (idx, gs, w) \<Rightarrow> (dispatch_budget lms gs w, loop_budget gs, length (gs_batches gs) - idx))"

definition turn_rel :: "dispatch_limits \<Rightarrow> (loop_position \<times> loop_position) set" where
  "turn_rel lms = inv_image (less_than <*lex*> less_than <*lex*> less_than) (work_left lms)"

definition state_ok :: "dispatch_limits \<Rightarrow> graph_state \<Rightarrow> world \<Rightarrow> bool" where
  "state_ok lms gs w \<longleftrightarrow> heap_ok lms w \<and> graph_ok gs \<and> ptr_ok (gs_dispatch gs) w"

text \<open>A step after which there is less to dispatch, or no more of anything.\<close>

definition no_worse :: "dispatch_limits \<Rightarrow> graph_state \<times> world \<Rightarrow> graph_state \<times> world \<Rightarrow> bool" where
  "no_worse lms s s' = (case (s, s') of ((gs, w), (gs', w')) \<Rightarrow>
     state_ok lms gs' w' \<and>
     (dispatch_budget lms gs' w' < dispatch_budget lms gs w \<or>
      dispatch_budget lms gs' w' = dispatch_budget lms gs w \<and> loop_budget gs' \<le> loop_budget gs \<and>
      length (gs_batches gs') = length (gs_batches gs)))"

lemma no_worse_trans: "no_worse lms s t \<Longrightarrow> no_worse lms t u \<Longrightarrow> no_worse lms s u"
  unfolding no_worse_def by (auto split: prod.splits)

lemma no_worse_refl: "state_ok lms gs w \<Longrightarrow> no_worse lms (gs, w) (gs, w)"
  by (simp add: no_worse_def)

lemma dispatched_le: "heap_ok lms w \<Longrightarrow> 0 \<le> max_dynamic_nodes lms \<Longrightarrow> dispatched p w \<le> max_dynamic_nodes lms"
  by (auto simp: heap_ok_def caps_ok_def dispatched_def dispatch_state_of_def split: option.splits)

lemma no_worse_world:
  assumes "state_ok lms gs w" and "world_ok lms w w'"
  shows "no_worse lms (gs, w) (gs, w')"
proof -
  have "heap_ok lms w'" "heap_grows w w'" "ptr_ok (gs_dispatch gs) w'" "graph_ok gs"
    using assms heap_grows_ptr by (auto simp: state_ok_def world_ok_def)
  moreover have "dispatched (gs_dispatch gs) w \<le> dispatched (gs_dispatch gs) w'"
    using heap_grows_dispatched assms by (auto simp: state_ok_def world_ok_def)
  ultimately show ?thesis by (auto simp: no_worse_def state_ok_def dispatch_budget_def)
qed

lemma no_worse_outputs:
  assumes "state_ok lms gs w" and "w_dispatch w' = w_dispatch w" and "dict_ok outs"
  shows "no_worse lms (gs, w) (gs\<lparr>gs_outputs := outs\<rparr>, w')"
  using assms
  by (simp add: no_worse_def state_ok_def heap_ok_def graph_ok_def ptr_ok_def dispatch_budget_def dispatched_def
      dispatch_state_of_def loop_budget_def split: option.splits)

lemma no_worse_put:
  assumes "state_ok lms gs w" and "w_dispatch w' = w_dispatch w"
  shows "no_worse lms (gs, w) (put_output n r gs, w')"
  using no_worse_outputs [OF assms, of "dset (name_of n) r (gs_outputs gs)"] assms(1)
  by (auto simp: put_output_def state_ok_def graph_ok_def)

lemma no_worse_dispatch:
  assumes ap: "apply_declarative_dispatch env dx cx pe ge n r inp gs w = (err, gs', w')"
    and st: "state_ok (dx_limits dx) gs w" and lms: "0 \<le> max_dynamic_nodes (dx_limits dx)"
  shows "no_worse (dx_limits dx) (gs, w) (gs', w')"
proof -
  have ok: "heap_ok (dx_limits dx) w" "graph_ok gs" "ptr_ok (gs_dispatch gs) w" using st by (simp_all add: state_ok_def)
  note f = dispatch_facts [OF ap ok(1,2) lms]
  have st': "state_ok (dx_limits dx) gs' w'" using f(1,2) dispatch_grows [OF ap ok(1,2) lms ok(3)] by (simp add: state_ok_def)
  have le: "dispatched (gs_dispatch gs') w' \<le> max_dynamic_nodes (dx_limits dx)" using dispatched_le [OF f(1) lms] .
  show ?thesis
  proof (cases "dispatched (gs_dispatch gs') w' = dispatched (gs_dispatch gs) w")
    case True
    then have "loop_budget gs' \<le> loop_budget gs"
      using dispatch_prunes [OF ap ok(1,2) lms True] f(7) by (simp add: loop_budget_def)
    moreover have "length (gs_batches gs') = length (gs_batches gs)" using f(4,5) True by simp
    ultimately show ?thesis using st' True by (simp add: no_worse_def dispatch_budget_def)
  next
    case False
    then show ?thesis using st' f(3) le by (auto simp: no_worse_def dispatch_budget_def)
  qed
qed

lemma no_worse_keep_results:
  "keep_results env pfx rs gs w = (gs', w') \<Longrightarrow> state_ok lms gs w \<Longrightarrow> no_worse lms (gs, w) (gs', w')"
proof (induction rs arbitrary: gs w)
  case (Cons p rs)
  obtain n r where p: "p = (n, r)" by fastforce
  have one: "no_worse lms (gs, w) (put_output n r gs, record_outcome env pfx n r w)"
    by (rule no_worse_put [OF Cons.prems(2)]) simp
  then have "state_ok lms (put_output n r gs) (record_outcome env pfx n r w)" by (simp add: no_worse_def)
  from Cons.IH [OF _ this] Cons.prems(1) p one show ?case using no_worse_trans by fastforce
qed (simp add: no_worse_refl)

lemma no_worse_dispatch_results:
  assumes "0 \<le> max_dynamic_nodes (dx_limits dx)"
  shows "dispatch_results env dx cx ge inp rs gs w = (err, gs', w') \<Longrightarrow> state_ok (dx_limits dx) gs w \<Longrightarrow>
     no_worse (dx_limits dx) (gs, w) (gs', w')"
proof (induction rs arbitrary: gs w)
  case (Cons p rs)
  obtain n r where p: "p = (n, r)" by fastforce
  obtain e1 gs1 w1 where ap: "apply_declarative_dispatch env dx cx (cx_parent_event cx) (Some ge) n r inp gs w = (e1, gs1, w1)"
    by (metis prod.collapse)
  have one: "no_worse (dx_limits dx) (gs, w) (gs1, w1)" by (rule no_worse_dispatch [OF ap Cons.prems(2) assms])
  show ?case
  proof (cases e1)
    case None
    have "state_ok (dx_limits dx) gs1 w1" using one by (simp add: no_worse_def)
    then show ?thesis using Cons p ap None one no_worse_trans by fastforce
  next
    case (Some e)
    then show ?thesis using Cons.prems p ap one by auto
  qed
qed (simp add: no_worse_refl)

text \<open>A node with a result that is not pending keeps both its result and its place through a dispatch.\<close>

lemma apply_adds_keeps:
  "apply_adds dx build name depth ds a = (e, a') \<Longrightarrow> as_batches a' = as_batches a \<and> as_outputs a' = as_outputs a"
proof (induction ds arbitrary: a)
  case (Cons d ds)
  obtain e2 a2 where c: "enforce_caps_and_build dx build name depth d a = (e2, a2)" by fastforce
  then have "as_batches a2 = as_batches a \<and> as_outputs a2 = as_outputs a"
    by (auto simp: enforce_caps_and_build_def split: option.splits sum.splits if_splits)
  then show ?case using Cons c by (auto split: option.splits)
qed simp

definition stays :: "string \<Rightarrow> node_result \<Rightarrow> node \<Rightarrow> node_result dict \<Rightarrow> node list list \<Rightarrow> bool" where
  "stays name r n outs batches \<longleftrightarrow> dget outs name = Some r \<and> n \<in> set (concat batches)"

lemma apply_ops_stays:
  assumes "nr_status r \<noteq> PENDING" and "name_of n = name"
  shows "apply_ops dx build d depth adds ops a = (e, a') \<Longrightarrow> stays name r n (as_outputs a) (as_batches a) \<Longrightarrow>
     stays name r n (as_outputs a') (as_batches a')"
proof (induction ops arbitrary: a)
  case (Cons op ops)
  have rem: "stays name r n (as_outputs (apply_remove d adds t a)) (as_batches (apply_remove d adds t a))" for t
    using Cons.prems(2) assms by (auto simp: stays_def apply_remove_def)
  obtain e1 a1 where add: "apply_adds dx build d depth (all_added_nodes op) a = (e1, a1)" by fastforce
  have st: "stays name r n (as_outputs a1) (as_batches a1)" using apply_adds_keeps [OF add] Cons.prems(2) by simp
  consider "op_op op = ''remove''" | "op_op op = ''add''" "e1 = None" | "op_op op = ''add''" "e1 \<noteq> None" | "op_op op \<notin> {''remove'', ''add''}"
    by blast
  then show ?case
    using Cons rem add st by cases auto
qed simp

lemma dispatch_stays:
  assumes ap: "apply_declarative_dispatch env dx cx pe ge n r inp gs w = (None, gs', w')"
    and "nr_status r \<noteq> PENDING" and "stays (name_of n) r n (gs_outputs gs) (gs_batches gs)"
  shows "stays (name_of n) r n (gs_outputs gs') (gs_batches gs')"
  using ap
proof (cases rule: dispatch_cases)
  case (applied p w1 s w2 build ops)
  let ?a0 = "\<lparr>as_state = w_dispatch w2 ! p, as_node_map = gs_node_map gs, as_outputs = gs_outputs gs, as_batches = gs_batches gs,
             as_new = [], as_added = [], as_removed = []\<rparr>"
  obtain e a where g: "guarded_ops dx build n inp ops ?a0 = (e, a)" by fastforce
  have "stays (name_of n) r n (as_outputs a) (as_batches a)"
  proof (cases "max_children_per_dispatch (dx_limits dx) < int (length (concat (map all_added_nodes ops)))")
    case True
    then show ?thesis using g assms(3) by (auto simp: guarded_ops_def)
  next
    case False
    then obtain s' depth where "apply_ops dx build (name_of n) depth (names_added ops) ops (?a0\<lparr>as_state := s'\<rparr>) = (e, a)"
      using g by (auto simp: guarded_ops_def Let_def)
    then show ?thesis by (rule apply_ops_stays [OF assms(2) refl]) (use assms(3) in simp)
  qed
  moreover have "gs_outputs gs' = as_outputs a \<and> set (concat (as_batches a)) \<subseteq> set (concat (gs_batches gs'))"
    using applied(5) g by (auto simp: apply_rendered_def Let_def split: option.splits if_splits sum.splits)
  ultimately show ?thesis by (auto simp: stays_def)
qed (use assms(3) in \<open>simp_all\<close>)

lemma rounds_left_counts:
  "dget_or c' k 0 = dget_or c k 0 + 1 \<Longrightarrow> (\<And>k'. k' \<noteq> k \<Longrightarrow> dget c' k' = dget c k') \<Longrightarrow> rounds_left c' m \<le> rounds_left c m"
proof (cases "loop_target m")
  case (Some t)
  assume k: "dget_or c' k 0 = dget_or c k 0 + 1" and other: "\<And>k'. k' \<noteq> k \<Longrightarrow> dget c' k' = dget c k'"
  show ?thesis
    using k other [of "loop_key m t"] Some by (cases "loop_key m t = k") (auto simp: rounds_left_def dget_or_def)
qed (simp add: rounds_left_def)

lemma sum_list_less:
  "x \<in> set xs \<Longrightarrow> (\<And>y. y \<in> set xs \<Longrightarrow> f y \<le> g y) \<Longrightarrow> f x < g x \<Longrightarrow> sum_list (map f xs) < sum_list (map (g :: 'a \<Rightarrow> nat) xs)"
proof (induction xs)
  case (Cons a xs)
  have le: "sum_list (map f xs) \<le> sum_list (map g xs)" using Cons.prems(2) by (intro sum_list_mono) auto
  show ?case
  proof (cases "x = a")
    case True
    then show ?thesis using le Cons.prems(3) by simp
  next
    case False
    then have "sum_list (map f xs) < sum_list (map g xs)" using Cons by auto
    then show ?thesis using Cons.prems(2) [of a] by simp
  qed
qed simp

lemma handle_loop_dispatch:
  "handle_loop env pfx n r inp gs w = (idx, r', gs', w') \<Longrightarrow>
     w_dispatch w' = w_dispatch w \<and> gs_dispatch gs' = gs_dispatch gs \<and> gs_batches gs' = gs_batches gs \<and> gs_node_map gs' = gs_node_map gs \<and>
     (dict_ok (gs_outputs gs) \<longrightarrow> dict_ok (gs_outputs gs'))"
  by (auto simp: handle_loop_def ran_out_def append_known_issues_def Let_def dest: retire_ok
      split: option.splits if_splits prod.splits)

lemma handle_loop_counts:
  assumes "handle_loop env pfx n r inp gs w = (idx, r', gs', w')"
  shows "loop_budget gs' \<le> loop_budget gs"
proof -
  have "gs_batches gs' = gs_batches gs" using handle_loop_dispatch [OF assms] by simp
  moreover have "gs_loop_counts gs' = gs_loop_counts gs \<or>
      (\<exists>k. gs_loop_counts gs' = dset k (dget_or (gs_loop_counts gs) k 0 + 1) (gs_loop_counts gs))"
    using assms by (auto simp: handle_loop_def ran_out_def Let_def split: option.splits if_splits prod.splits)
  then have "rounds_left (gs_loop_counts gs') m \<le> rounds_left (gs_loop_counts gs) m" for m
  proof (elim disjE exE)
    fix k assume k: "gs_loop_counts gs' = dset k (dget_or (gs_loop_counts gs) k 0 + 1) (gs_loop_counts gs)"
    show ?thesis by (rule rounds_left_counts [of _ k]) (simp_all add: k)
  qed simp
  ultimately show ?thesis by (auto simp: loop_budget_def intro: sum_list_mono)
qed

lemma rewind_budget:
  assumes "handle_loop env pfx n r inp gs w = (Some idx, r', gs', w')" and "n \<in> set (concat (gs_batches gs))"
  shows "loop_budget gs' < loop_budget gs"
proof -
  obtain t where t: "loop_target n = Some t"
      "dget_or (gs_loop_counts gs') (loop_key n t) 0 = dget_or (gs_loop_counts gs) (loop_key n t) 0 + 1"
      "int (dget_or (gs_loop_counts gs') (loop_key n t) 0) < nc_max_loops (config n)"
      "\<forall>k. k \<noteq> loop_key n t \<longrightarrow> dget (gs_loop_counts gs') k = dget (gs_loop_counts gs) k"
    using rewind_count [OF assms(1)] by blast
  have "rounds_left (gs_loop_counts gs') m \<le> rounds_left (gs_loop_counts gs) m" for m
    using rounds_left_counts t(2,4) by blast
  moreover have "rounds_left (gs_loop_counts gs') n < rounds_left (gs_loop_counts gs) n"
    using t by (simp add: rounds_left_def)
  moreover have "gs_batches gs' = gs_batches gs" using handle_loop_dispatch [OF assms(1)] by simp
  ultimately show ?thesis using sum_list_less [OF assms(2)] by (simp add: loop_budget_def)
qed

text \<open>One turn of the loop: it keeps the invariant and leaves less to do.\<close>

lemma next_batch:
  assumes "no_worse lms (gs, w) (gs', w')" and "idx < length (gs_batches gs)"
  shows "((idx + 1, gs', w'), (idx, gs, w)) \<in> turn_rel lms"
  using assms by (auto simp: no_worse_def turn_rel_def work_left_def)

lemma single_turn_ok:
  assumes hk: "hooks_ok (dx_limits dx) hk" and lms: "0 \<le> max_dynamic_nodes (dx_limits dx)"
    and turn: "single_turn env hk dx cx ge inp n idx gs w = Inl (idx', gs', w')"
    and st: "state_ok (dx_limits dx) gs w" and idx: "idx < length (gs_batches gs)" and n: "n \<in> set (gs_batches gs ! idx)"
  shows "state_ok (dx_limits dx) gs' w' \<and> ((idx', gs', w'), (idx, gs, w)) \<in> turn_rel (dx_limits dx)"
proof -
  let ?l = "dx_limits dx" let ?p = "cp_prefix_of cx"
  obtain out w1 where ex: "execute_single_node env hk inp cx ge gs n w = (out, w1)" by fastforce
  then obtain r where ex: "execute_single_node env hk inp cx ge gs n w = (Done r, w1)"
    using turn by (cases out) (auto simp: single_turn_def)
  let ?gs1 = "put_output n r gs" and ?w2 = "record_outcome env ?p n r w1"
  have "world_ok ?l w w1" using execute_single_node_ok [OF hk ex] st by (simp add: state_ok_def)
  then have nw1: "no_worse ?l (gs, w) (gs, w1)" by (rule no_worse_world [OF st])
  moreover have nw2: "no_worse ?l (gs, w1) (?gs1, ?w2)" using nw1 by (intro no_worse_put) (simp_all add: no_worse_def)
  moreover obtain e gs3 w3 where ap: "apply_declarative_dispatch env dx cx (cx_parent_event cx) (Some ge) n r inp ?gs1 ?w2 = (e, gs3, w3)"
    by (metis prod.collapse)
  moreover have nw3: "no_worse ?l (?gs1, ?w2) (gs3, w3)" using nw2 by (intro no_worse_dispatch [OF ap _ lms]) (simp add: no_worse_def)
  ultimately have nw: "no_worse ?l (gs, w) (gs3, w3)" and nwp: "no_worse ?l (gs, w) (?gs1, ?w2)" using no_worse_trans by blast+
  have e: "e = None" using turn ex ap by (cases e) (auto simp: single_turn_def Let_def)
  show ?thesis
  proof (cases "meta_set NO_LOOP_VERDICT r")
    case True
    then have "idx' = idx + 1" "gs' = gs3" "w_dispatch w' = w_dispatch w3"
      using turn ex ap e by (auto simp: single_turn_def Let_def)
    moreover have "no_worse ?l (gs3, w3) (gs3, w')"
      using nw3 \<open>w_dispatch w' = w_dispatch w3\<close> by (intro no_worse_world world_ok_same) (auto simp: no_worse_def state_ok_def)
    ultimately show ?thesis using nw next_batch [OF _ idx] no_worse_trans by (fastforce simp: no_worse_def)
  next
    case False
    obtain rw r4 gs4 w4 where hl: "handle_loop env ?p n r inp gs3 w3 = (rw, r4, gs4, w4)" by (metis prod.collapse)
    note hd = handle_loop_dispatch [OF hl]
    have st4: "state_ok ?l gs4 w4" and eq4: "dispatch_budget ?l gs4 w4 = dispatch_budget ?l gs3 w3"
      using nw3 hd by (auto simp: no_worse_def state_ok_def heap_ok_def graph_ok_def ptr_ok_def dispatch_budget_def
          dispatched_def dispatch_state_of_def split: option.splits)
    then have nw4: "no_worse ?l (gs3, w3) (gs4, w4)" using handle_loop_counts [OF hl] hd by (simp add: no_worse_def)
    show ?thesis
    proof (cases rw)
      case None
      then have res: "idx' = idx + 1" "gs' = gs4" "w_dispatch w' = w_dispatch w4"
        using turn ex ap e False hl by (auto simp: single_turn_def Let_def)
      have "no_worse ?l (gs4, w4) (gs4, w')"
        using st4 res(3) by (intro no_worse_world world_ok_same) (auto simp: state_ok_def)
      then have "no_worse ?l (gs, w) (gs', w')" using nw nw4 res(2) no_worse_trans by blast
      then show ?thesis using next_batch [OF _ idx] res(1) by (simp add: no_worse_def)
    next
      case (Some i)
      then have res: "idx' = i" "gs' = gs4" "w' = w4" using turn ex ap e False hl by (auto simp: single_turn_def Let_def)
      have "should_loop n r (gs_outputs gs3)" using hl Some by (auto elim: handle_loop_SomeD)
      then have "nr_status r \<noteq> PENDING" by (auto simp: should_loop_def split: if_splits)
      moreover have "stays (name_of n) r n (gs_outputs ?gs1) (gs_batches ?gs1)"
        using n idx by (auto simp: stays_def put_output_def)
      ultimately have "stays (name_of n) r n (gs_outputs gs3) (gs_batches gs3)" using dispatch_stays ap e by blast
      then have "loop_budget gs4 < loop_budget gs3" using rewind_budget hl Some by (auto simp: stays_def)
      then show ?thesis using st4 nw eq4 res by (auto simp: no_worse_def turn_rel_def work_left_def)
    qed
  qed
qed

lemma parallel_turn_ok:
  assumes hk: "hooks_ok (dx_limits dx) hk" and lms: "0 \<le> max_dynamic_nodes (dx_limits dx)"
    and turn: "parallel_turn env hk dx cx ge inp remaining idx gs w = Inl (idx', gs', w')"
    and st: "state_ok (dx_limits dx) gs w" and idx: "idx < length (gs_batches gs)"
  shows "state_ok (dx_limits dx) gs' w' \<and> ((idx', gs', w'), (idx, gs, w)) \<in> turn_rel (dx_limits dx)"
proof -
  let ?l = "dx_limits dx"
  obtain how rs w1 where ex: "execute_parallel_batch env hk inp cx ge gs remaining w = (how, rs, w1)" by (metis prod.collapse)
  obtain gs2 w2 where k: "keep_results env (cp_prefix_of cx) rs gs w1 = (gs2, w2)" by fastforce
  obtain e gs3 w3 where d: "dispatch_results env dx cx ge inp rs gs2 w2 = (e, gs3, w3)" by (metis prod.collapse)
  have res: "idx' = idx + 1" "gs' = gs3" "w' = w3"
    using turn ex k d by (cases how; cases e; simp add: parallel_turn_def)+
  have "world_ok ?l w w1" using execute_parallel_batch_ok [OF hk ex] st by (simp add: state_ok_def)
  then have nw1: "no_worse ?l (gs, w) (gs, w1)" by (rule no_worse_world [OF st])
  moreover have nw2: "no_worse ?l (gs, w1) (gs2, w2)" using nw1 by (intro no_worse_keep_results [OF k]) (simp add: no_worse_def)
  moreover have "no_worse ?l (gs2, w2) (gs3, w3)" using nw2 by (intro no_worse_dispatch_results [OF lms d]) (simp add: no_worse_def)
  ultimately have "no_worse ?l (gs, w) (gs', w')" using res no_worse_trans by blast
  then show ?thesis using next_batch [OF _ idx] res(1) by (simp add: no_worse_def)
qed

text \<open>The loop over batches is a bounded loop, for every environment, every hooks that keep their contract and every graph.\<close>

definition turn_inv :: "dispatch_env \<Rightarrow> hooks \<Rightarrow> loop_position \<Rightarrow> bool" where
  "turn_inv dx hk pos \<longleftrightarrow> hooks_ok (dx_limits dx) hk \<and> 0 \<le> max_dynamic_nodes (dx_limits dx) \<and>
     state_ok (dx_limits dx) (fst (snd pos)) (snd (snd pos))"

lemma batch_turn_ok:
  assumes "turn_inv dx hk pos" and "batch_turn env hk dx cx ge inp pos = Inl pos'"
  shows "turn_inv dx hk pos' \<and> (pos', pos) \<in> turn_rel (dx_limits dx)"
proof -
  obtain idx gs w where pos: "pos = (idx, gs, w)" by (metis prod.collapse)
  obtain idx' gs' w' where pos': "pos' = (idx', gs', w')" by (metis prod.collapse)
  obtain c w1 where c: "check_cancelled env w = (c, w1)" by fastforce
  let ?batch = "gs_batches gs ! idx"
  let ?rem = "filter (\<lambda>n. \<not> dhas (name_of n) (gs_outputs gs)) ?batch"
  have hk: "hooks_ok (dx_limits dx) hk" and lms: "0 \<le> max_dynamic_nodes (dx_limits dx)" and st: "state_ok (dx_limits dx) gs w"
    using assms(1) pos by (auto simp: turn_inv_def)
  have idx: "idx < length (gs_batches gs)" and cF: "c = False"
    using assms(2) pos c by (auto simp: batch_turn_def split: if_splits bool.splits)
  have w1: "w_dispatch w1 = w_dispatch w" using c by (metis snd_conv world_sels(22))
  have nw: "no_worse (dx_limits dx) (gs, w) (gs, w1)"
    using w1 st by (intro no_worse_world world_ok_same) (auto simp: state_ok_def)
  then have st1: "state_ok (dx_limits dx) gs w1" by (simp add: no_worse_def)
  have same: "work_left (dx_limits dx) (idx, gs, w1) = work_left (dx_limits dx) (idx, gs, w)"
    using w1 by (simp add: work_left_def dispatch_budget_def dispatched_def dispatch_state_of_def split: option.splits)
  consider "?rem = []" "pos' = (idx + 1, gs, w1)"
    | "single_turn env hk dx cx ge inp (hd ?batch) idx gs w1 = Inl pos'" "hd ?batch \<in> set ?batch"
    | "parallel_turn env hk dx cx ge inp ?rem idx gs w1 = Inl pos'"
    using assms(2) pos idx c cF
    by (cases "?batch = []") (auto simp: batch_turn_def Let_def split: if_splits)
  then have "state_ok (dx_limits dx) gs' w' \<and> ((idx', gs', w'), (idx, gs, w1)) \<in> turn_rel (dx_limits dx)"
  proof cases
    case 1
    then show ?thesis using pos' st1 idx by (auto simp: turn_rel_def work_left_def)
  next
    case 2
    then show ?thesis using single_turn_ok [OF hk lms _ st1 idx] pos' by blast
  next
    case 3
    then show ?thesis using parallel_turn_ok [OF hk lms _ st1 idx] pos' by blast
  qed
  then show ?thesis using hk lms pos pos' same by (simp add: turn_inv_def turn_rel_def)
qed

interpretation batch_loop: bounded_loop "batch_turn env hk dx cx ge inp" "turn_inv dx hk" "turn_rel (dx_limits dx)"
  for env hk dx cx ge inp
proof unfold_locales
  show "wf (turn_rel (dx_limits dx))" unfolding turn_rel_def by (intro wf_inv_image wf_lex_prod wf_less_than)
qed (use batch_turn_ok in blast)+

end
