(* ===== verification/Runs.thy ===== *)
theory Runs
  imports Executor
begin

text \<open>
  What holds of whole graphs and whole runs: \<open>execute_graph\<close> always comes back, a run that says it
  completed has no failure anywhere in it, nothing runs after the run has stopped, and nothing that was
  spent is forgotten.
\<close>

section \<open>Every graph ends\<close>

lemma readd_entry_ok: "dict_ok (rd_node_map rd) \<Longrightarrow> dict_ok (rd_node_map (readd_entry build e rd))"
  unfolding readd_entry_def
  by (intro fold_keeps [of "\<lambda>rd. dict_ok (rd_node_map rd)"])
    (auto simp: readd_node_def readd_remove_def split: option.splits pyval.splits sum.splits)

lemma readd_dispatched_ok:
  assumes "readd_dispatched dx cx nodes nm bs rt = (Inr rd, rt')" and "dict_ok nm"
  shows "dict_ok (rd_node_map rd)"
proof -
  have "dict_ok (rd_node_map (fold (readd_entry build) es rd0))" if "dict_ok (rd_node_map rd0)" for build es rd0
    using that by (intro fold_keeps [of "\<lambda>rd. dict_ok (rd_node_map rd)"] readd_entry_ok)
  then show ?thesis
    using assms by (auto simp: readd_dispatched_def Let_def split: option.splits if_splits sum.splits prod.splits)
qed

lemma handed_over_ok: "dict_ok (handed_over nm initial)"
  unfolding handed_over_def Let_def by (intro dict_ok_dmerge dict_ok_Nil)

lemma fold_checkpointed_dispatch [simp]: "w_dispatch (fold (\<lambda>name. checkpointed (f name)) names w) = w_dispatch w"
  by (induction names arbitrary: w) auto

lemma start_graph_ok:
  assumes "start_graph env dx gc bs cx ptr w = (Inr (nodes, gs), w')"
  shows "graph_ok gs \<and> gs_dispatch gs = ptr \<and> w_dispatch w' = w_dispatch w \<and> gs_retired gs = []"
proof (cases "w_restore w")
  case None
  then show ?thesis
    using assms build_node_map_ok [of "gc_nodes gc"]
    by (auto simp: start_graph_def Let_def graph_ok_def handed_over_ok)
next
  case (Some rt)
  obtain r rt1 where rd: "readd_dispatched dx cx (gc_nodes gc) (build_node_map (gc_nodes gc)) bs rt = (r, rt1)" by fastforce
  then obtain rd where r: "r = Inr rd" using assms Some by (cases r) (auto simp: start_graph_def Let_def)
  note ok = readd_dispatched_ok [OF rd [unfolded r] build_node_map_ok]
  obtain c rt2 where cl: "claim (cp_prefix_of cx) (own_deps (rd_node_map rd)) (renamed_from (rd_node_map rd)) rt1 = (c, rt2)" by fastforce
  have "dict_ok (dmerge (dmerge [] outs) (rd_tombstones rd))" for outs by (intro dict_ok_dmerge dict_ok_Nil)
  then show ?thesis
    using assms Some rd r cl ok by (auto simp: start_graph_def Let_def graph_ok_def)
qed

lemma start_graph_refused: "start_graph env dx gc bs cx ptr w = (Inl e, w') \<Longrightarrow> w_dispatch w' = w_dispatch w"
  by (auto simp: start_graph_def Let_def split: option.splits sum.splits prod.splits)

lemma seed_context_sels:
  "seed_context gc cx w = (cx', w') \<Longrightarrow> w_dispatch w' = w_dispatch w"
  by (auto simp: seed_context_def Let_def outside_def split: if_splits option.splits)

text \<open>The conditions under which a graph is called.\<close>

definition call_ok :: "dispatch_env \<Rightarrow> hooks \<Rightarrow> nat option \<Rightarrow> world \<Rightarrow> bool" where
  "call_ok dx hk ptr w \<longleftrightarrow> hooks_ok (dx_limits dx) hk \<and> 0 \<le> max_dynamic_nodes (dx_limits dx) \<and>
     heap_ok (dx_limits dx) w \<and> ptr_ok ptr w"

text \<open>A call is refused before it starts, or it runs the loop over batches from a state in order and is closed.\<close>

lemma execute_graph_cases:
  assumes "call_ok dx hk ptr w"
  obtains (refused) e w2 where "execute_graph env hk dx gc cx ptr w = Some (Raised e, w2)" "w_dispatch w2 = w_dispatch w"
  | (started) cx1 nodes gs w3 start ge where "turn_inv dx hk (0, gs, w3)" "w_dispatch w3 = w_dispatch w"
      "execute_graph env hk dx gc cx ptr w =
         (case run_batches env hk dx cx1 ge (gc_input gc) gs w3 of
            None \<Rightarrow> None
          | Some how \<Rightarrow> (case close_graph env gc cx1 nodes start ge (map snd (gs_outputs gs)) how of
                           (out, w) \<Rightarrow> Some (out, forget_at_end (gc_is_workflow gc) out w)))"
proof (cases "topological_sort (gc_nodes gc)")
  case (Inl e)
  then show ?thesis using refused by (simp add: execute_graph_def)
next
  case (Inr bs)
  obtain cx1 w1 where seed: "seed_context gc cx w = (cx1, w1)" by fastforce
  have s: "w_dispatch w1 = w_dispatch w" using seed_context_sels [OF seed] .
  obtain st w2 where start: "start_graph env dx gc bs cx1 ptr w1 = (st, w2)" by fastforce
  show ?thesis
  proof (cases st)
    case (Inl e)
    then show ?thesis using refused Inr seed start start_graph_refused s by (simp add: execute_graph_def)
  next
    case st: (Inr p)
    obtain nodes gs where p: "p = (nodes, gs)" by fastforce
    have g: "graph_ok gs" "gs_dispatch gs = ptr" "w_dispatch w2 = w_dispatch w1" using start_graph_ok start st p by blast+
    obtain ge w3 where rec: "record_event (if gc_is_workflow gc then ''workflow.started'' else ''stage.started'')
          (start_data gc cx1 nodes gs) (if gc_is_workflow gc then None else cx_parent_event cx1) ''running'' w2 = (ge, w3)" by fastforce
    then have w3: "w_dispatch w3 = w_dispatch w" using g(3) s by (metis snd_conv world_sels(20))
    then have "turn_inv dx hk (0, gs, w3)"
      using assms g(1,2) by (auto simp: call_ok_def turn_inv_def state_ok_def heap_ok_def ptr_ok_def split: option.splits)
    then show ?thesis using started [OF _ w3] Inr seed start st p rec by (simp add: execute_graph_def Let_def)
  qed
qed

text \<open>C3: A graph always ends. Whatever its nodes dispatch, however often they send it back and whatever is
  restored, \<open>execute_graph\<close> comes back with a result, an exception or a wait, provided that the nodes'
  own runs come back and keep the caps on dispatched nodes.\<close>

theorem execute_graph_returns:
  assumes "call_ok dx hk ptr w"
  shows "\<exists>out w'. execute_graph env hk dx gc cx ptr w = Some (out, w')"
  using assms
proof (cases rule: execute_graph_cases [where env = env and gc = gc and cx = cx])
  case (started cx1 nodes gs w3 start ge)
  from started(1) obtain how where "run_batches env hk dx cx1 ge (gc_input gc) gs w3 = Some how"
    using batch_loop.returns unfolding run_batches_def by blast
  then show ?thesis using started(3) by (auto split: prod.splits)
qed blast

section \<open>What a finished run says\<close>

lemma end_graph_status: "nr_status (fst (end_graph env cx flag nodes inp start ge kept e gs w)) \<in> {CANCELLED, FAILED}"
  by (simp add: end_graph_def Let_def split: prod.splits)

lemma settle_run_stop:
  "settle_run env cx nodes outs inp w = (sn, w') \<Longrightarrow>
     map_option rs_path (w_stop w') = map_option rs_path (w_stop w) \<and>
     (case w_stop w of None \<Rightarrow> sn = None
      | Some s \<Rightarrow> (case rs_path s of None \<Rightarrow> sn = None
          | Some p \<Rightarrow> \<exists>d. sn = Some d \<and> dget d ''path'' = Some (PStr p)))"
proof -
  assume a: "settle_run env cx nodes outs inp w = (sn, w')"
  have path: "rs_path (fold (\<lambda>(path, undone). hold path undone) xs s) = rs_path s" for xs s
    by (rule fold_keeps [of "\<lambda>s'. rs_path s' = rs_path s"]) (auto simp: hold_def)
  show ?thesis
    using a path
    by (auto simp: settle_run_def stopped_def outside_def run_stop_as_dict_def opt_str_def Let_def split: option.splits if_splits)
qed

lemma graph_verdict_completed:
  assumes "graph_verdict env cx True nodes outs sn = (COMPLETED, err, failed)"
  shows "failed_node_names outs [] = [] \<and> cx_run_only cx = None \<and> (\<forall>q \<in> snd ` set outs. nr_status q \<noteq> CANCELLED) \<and>
    (\<forall>d p. sn = Some d \<longrightarrow> dget d ''path'' = Some (PStr p) \<longrightarrow> p = [])"
proof -
  have "failed_node_names outs [] = []" and ro: "cx_run_only cx = None" and held: "filter (\<lambda>r. nr_status r = CANCELLED) (map snd outs) = []"
    using assms by (auto simp: graph_verdict_def answerable_def Let_def split: if_splits)
  moreover have "p = []" if "sn = Some d" "dget d ''path'' = Some (PStr p)" for d p
    using assms that calculation by (cases p) (auto simp: graph_verdict_def answerable_def dget_or_def Let_def)
  ultimately show ?thesis by (auto simp: filter_empty_conv)
qed

lemma seed_context_run_only: "seed_context gc cx w = (cx', w') \<Longrightarrow> cx_run_only cx' = cx_run_only cx"
  by (auto simp: seed_context_def Let_def split: if_splits)

lemma close_graph_completed:
  assumes "close_graph env gc cx nodes start ge kept how = (Done r, w')" and "gc_is_workflow gc" and "nr_status r = COMPLETED"
  shows "failed_node_names (nr_node_results r) [] = [] \<and> cx_run_only cx = None \<and>
    (\<forall>q \<in> snd ` set (nr_node_results r). nr_status q \<noteq> CANCELLED) \<and> (\<forall>s. w_stop w' = Some s \<longrightarrow> rs_path s \<in> {None, Some []})"
proof -
  obtain o1 gs w where how: "how = (o1, gs, w)" by (metis prod.collapse)
  have no: "end_graph env cx True nodes (gc_input gc) start ge kept e gs w \<noteq> (r, w')" for e
    using end_graph_status [of env cx True nodes "gc_input gc" start ge kept e gs w] assms(3) by auto
  have o1: "\<exists>u. o1 = Done u" "\<not> stopped_mid_step env (gs_outputs gs) w"
  proof -
    have "o1 \<noteq> Raised e" for e using assms(1,2) no how by (auto simp: close_graph_def split: if_splits prod.splits)
    moreover have "o1 \<noteq> Parked p" for p
      using assms(1,2) no how by (auto simp: close_graph_def split: option.splits prod.splits)
    ultimately show "\<exists>u. o1 = Done u" by (cases o1) auto
    then show "\<not> stopped_mid_step env (gs_outputs gs) w"
      using assms(1,2) no how by (auto simp: close_graph_def split: if_splits prod.splits)
  qed
  obtain sn w1 where settle: "settle_run env cx nodes (gs_outputs gs) (gc_input gc) w = (sn, w1)" by fastforce
  have fin: "build_final_result env cx True nodes (gc_input gc) start ge (gc_outputs gc) sn gs w1 = (r, w')"
    using assms o1 how settle by (auto simp: close_graph_def Let_def split: prod.splits)
  obtain st err failed where v: "graph_verdict env cx True nodes (gs_outputs gs) sn = (st, err, failed)" by (metis prod.collapse)
  have res: "nr_status r = st" "nr_node_results r = gs_outputs gs" "w_stop w' = w_stop w1"
    using fin v by (auto simp: build_final_result_def Let_def)
  note gv = graph_verdict_completed [OF v [unfolded res(1) [symmetric] assms(3)]]
  have "rs_path s \<in> {None, Some []}" if "w_stop w' = Some s" for s
    using settle_run_stop [OF settle] that res(3) gv by (auto split: option.splits)
  then show ?thesis using gv res(2) by simp
qed

text \<open>C4: A run that reports \<open>completed\<close> has nothing failed in it: no result at any depth of its result tree is
  failed, none of its own nodes was cancelled, the run was not stopped by a failure (a stop that was rewound
  away included), and it was not a pass over held clean-ups only.\<close>

theorem workflow_completed_means_no_failure:
  assumes "execute_graph env hk dx gc cx ptr w = Some (Done r, w')" and "gc_is_workflow gc" and "nr_status r = COMPLETED"
  shows "(\<forall>path q. at_path (nr_node_results r) [] path q \<longrightarrow> nr_status q \<noteq> FAILED) \<and>
    (\<forall>q \<in> snd ` set (nr_node_results r). nr_status q \<noteq> CANCELLED) \<and> cx_run_only cx = None \<and>
    (\<forall>s. w_stop w' = Some s \<longrightarrow> rs_path s \<in> {None, Some []})"
proof -
  obtain cx1 w1 where seed: "seed_context gc cx w = (cx1, w1)" by fastforce
  obtain nodes start ge kept how w2 where cl: "close_graph env gc cx1 nodes start ge kept how = (Done r, w2)"
      "w' = forget_at_end (gc_is_workflow gc) (Done r) w2"
    using assms(1) seed by (auto simp: execute_graph_def Let_def split: sum.splits option.splits prod.splits)
  have "w_stop w' = w_stop w2" using cl(2) by (simp add: forget_at_end_def)
  moreover have "nr_status q \<noteq> FAILED" if "failed_node_names (nr_node_results r) [] = []" "at_path (nr_node_results r) [] path q" for path q
    using failed_paths(2) [of path "nr_node_results r" "[]"] that by auto
  ultimately show ?thesis
    using close_graph_completed [OF cl(1) assms(2,3)] seed_context_run_only [OF seed] by auto
qed

section \<open>After the run has stopped\<close>

text \<open>C6: Once a failure has stopped the run, an ordinary node is skipped without being run: its result is
  skipped, costs nothing and names the step that failed, and all that happens is one event. No checkpoint,
  no dispatch and no call of the node's own \<open>run\<close>: the outcome is the same whatever the hooks are.\<close>

theorem stopped_run_runs_nothing:
  assumes "w_stop w = Some s" and "rs_path s = Some p" and "\<not> is_cleanup n" and "\<not> nc_run_after_failure (config n)"
  shows "\<exists>r st why. execute_single_node env hk inp cx parent gs n w = (Done r, record_skipped_node n parent why st w) \<and>
    nr_status r = SKIPPED \<and> nr_cost_usd r = 0 \<and>
    (\<forall>hk'. execute_single_node env hk' inp cx parent gs n w = (Done r, record_skipped_node n parent why st w)) \<and>
    (cx_run_only cx = None \<longrightarrow> has_sub p (error_text r))"
proof -
  have "held_or_skipped n cx (w_stop w) \<noteq> None"
    using assms by (auto simp: held_or_skipped_def Let_def)
  then obtain r st why where h: "held_or_skipped n cx (w_stop w) = Some (r, st, why)" by (metis not_None_eq prod_cases3)
  have "nr_status r = SKIPPED \<and> nr_cost_usd r = 0 \<and> (cx_run_only cx = None \<longrightarrow> has_sub p (error_text r))"
  proof -
    have "has_sub p (''the run stopped at '' @ quoted p @ '', which failed'')"
      unfolding has_sub_iff quoted_def by (metis append.assoc)
    then show ?thesis using h assms by (auto simp: held_or_skipped_def Let_def split: option.splits if_splits)
  qed
  then show ?thesis using h by (auto simp: execute_single_node_def left_out_def)
qed

section \<open>What was spent\<close>

text \<open>A result that does not take money back and is not still pending.\<close>

definition fair :: "node_result \<Rightarrow> bool" where
  "fair r \<longleftrightarrow> 0 \<le> nr_cost_usd r \<and> nr_status r \<noteq> PENDING"

definition fair_hooks :: "hooks \<Rightarrow> bool" where
  "fair_hooks hk \<longleftrightarrow> (\<forall>n resolved ev cx ptr w r w'. hk_run hk n resolved ev cx ptr w = (Done r, w') \<longrightarrow> fair r)"

definition cost_of :: "node_result dict \<Rightarrow> rat" where
  "cost_of outs = sum_list (map (nr_cost_usd \<circ> snd) outs)"

lemma cost_of_new: "dget outs k = None \<Longrightarrow> cost_of (dset k r outs) = cost_of outs + nr_cost_usd r"
  by (induction outs) (auto simp: cost_of_def)

lemma cost_of_same: "dget outs k = Some q \<Longrightarrow> nr_cost_usd q = nr_cost_usd r \<Longrightarrow> cost_of (dset k r outs) = cost_of outs"
  by (induction outs) (auto simp: cost_of_def split: if_splits)

lemma ddel_absent: "dget outs k = None \<Longrightarrow> ddel k outs = outs"
  by (induction outs) (auto simp: AList.delete_eq split: if_splits)

lemma failure_skip_fair: "fair (failure_skip d r)"
  by (cases "nr_status r = FAILED") (simp_all add: failure_skip_def fair_def Let_def)

lemma left_out_fair: "left_out n cx stop outs = Some (r, st, why) \<Longrightarrow> fair r"
proof -
  assume a: "left_out n cx stop outs = Some (r, st, why)"
  have up: "fair q" if "check_dependency_failures n outs = Some q" for q
    using first_failed_dep_Some [of "deps_of n" outs q] that failure_skip_fair
    by (auto simp: check_dependency_failures_def)
  have held: "fair q" if "held_or_skipped n cx stop = Some (q, x, y)" for q x y
    using that by (auto simp: held_or_skipped_def fair_def Let_def split: option.splits if_splits)
  show "fair r"
    using a up held
    by (auto simp: left_out_def Let_def fair_def split: option.splits if_splits prod.splits bool.splits)
qed

lemma with_duration_sel [simp]:
  "nr_cost_usd (with_duration d r) = nr_cost_usd r" "nr_status (with_duration d r) = nr_status r"
  by (cases r; simp)+

lemma run_node_with_events_fair:
  assumes "fair_hooks hk" and "run_node_with_events env hk n resolved cx ptr ev w = (Done r, w')"
  shows "fair r"
proof -
  obtain o1 w1 where run: "hk_run hk n resolved ev cx ptr w = (o1, w1)" by fastforce
  have "fair q" if "o1 = Done q" for q using assms(1) run that unfolding fair_hooks_def by blast
  then show ?thesis
    using assms(2) run
    by (auto simp: run_node_with_events_def run_with_timeout_def timed_out_def fair_def Let_def
        split: option.splits if_splits outcome.splits)
qed

lemma finish_node_fair: "finish_node env n cx ev inp gs r w = (r', w') \<Longrightarrow> fair r \<Longrightarrow> fair r'"
  by (auto simp: finish_node_def fair_def Let_def split: option.splits)

lemma run_started_node_fair:
  assumes "fair_hooks hk" and "run_started_node env hk n resolved un inp cx parent gs w = (Done r, w')"
  shows "fair r"
  using assms(2) run_node_with_events_fair [OF assms(1)] finish_node_fair
  by (auto simp: run_started_node_def Let_def split: prod.splits outcome.splits)

lemma execute_single_node_fair:
  assumes "fair_hooks hk" and "execute_single_node env hk inp cx parent gs n w = (Done r, w')"
  shows "fair r"
proof (cases "left_out n cx (w_stop w) (gs_outputs gs)")
  case (Some x)
  then show ?thesis using assms(2) left_out_fair by (cases x) (auto simp: execute_single_node_def)
next
  case None
  then have "\<exists>resolved un w1. run_started_node env hk n resolved un inp cx parent gs w1 = (Done r, w')"
    using assms(2) by (auto simp: execute_single_node_def Let_def split: prod.splits if_splits outcome.splits)
  then show ?thesis using run_started_node_fair [OF assms(1)] by blast
qed

text \<open>The results of a parallel batch: fair, and at most one for each node that ran.\<close>

lemma run_all_results:
  assumes exec: "\<And>n w r w'. exec n w = (Done r, w') \<Longrightarrow> fair r"
  shows "run_all exec ns acc w = (acc', w') \<Longrightarrow>
     \<exists>rs. ba_results acc' = ba_results acc @ rs \<and> subseq (map fst rs) ns \<and> (\<forall>p \<in> set rs. fair (snd p))"
proof (induction ns arbitrary: acc w)
  case (Cons n ns)
  obtain out w1 where one: "exec n w = (out, w1)" by fastforce
  obtain rs where rs: "ba_results acc' = ba_results (collect n out acc) @ rs" "subseq (map fst rs) ns" "\<forall>p \<in> set rs. fair (snd p)"
    using Cons.IH Cons.prems one by fastforce
  have "ba_results (collect n out acc) = ba_results acc \<or> (\<exists>r. ba_results (collect n out acc) = ba_results acc @ [(n, r)] \<and> fair r)"
    using exec [of n w] one by (cases out) (auto simp: collect_def fair_def)
  then show ?case
  proof (elim disjE exE conjE)
    fix r assume "ba_results (collect n out acc) = ba_results acc @ [(n, r)]" "fair r"
    then show ?thesis using rs by (intro exI [of _ "(n, r) # rs"]) auto
  qed (use rs in \<open>auto intro: exI [of _ rs]\<close>)
qed simp

definition no_pending :: "node_result dict \<Rightarrow> bool" where
  "no_pending outs \<longleftrightarrow> (\<forall>k r. dget outs k = Some r \<longrightarrow> nr_status r \<noteq> PENDING)"

lemma keep_results_spent:
  "keep_results env pfx rs gs w = (gs', w') \<Longrightarrow> distinct (map (name_of \<circ> fst) rs) \<Longrightarrow>
     \<forall>p \<in> set rs. dget (gs_outputs gs) (name_of (fst p)) = None \<and> fair (snd p) \<Longrightarrow> no_pending (gs_outputs gs) \<Longrightarrow>
     spent_cost gs \<le> spent_cost gs' \<and> no_pending (gs_outputs gs')"
proof (induction rs arbitrary: gs w)
  case (Cons p rs)
  obtain n r where p: "p = (n, r)" by fastforce
  have "spent_cost (put_output n r gs) = spent_cost gs + nr_cost_usd r"
    using cost_of_new [of "gs_outputs gs" "name_of n" r] Cons.prems(3) p by (simp add: spent_cost_def put_output_def cost_of_def)
  moreover have "0 \<le> nr_cost_usd r" "no_pending (gs_outputs (put_output n r gs))"
    using Cons.prems(3,4) p by (auto simp: fair_def no_pending_def put_output_def split: if_splits)
  moreover have "\<forall>p \<in> set rs. dget (gs_outputs (put_output n r gs)) (name_of (fst p)) = None \<and> fair (snd p)"
    using Cons.prems(2,3) p by (force simp: put_output_def)
  moreover have "keep_results env pfx rs (put_output n r gs) (record_outcome env pfx n r w) = (gs', w')"
    using Cons.prems(1) p by simp
  moreover have "distinct (map (name_of \<circ> fst) rs)" using Cons.prems(2) by (simp add: comp_def)
  ultimately have "spent_cost (put_output n r gs) \<le> spent_cost gs' \<and> no_pending (gs_outputs gs')"
    using Cons.IH by blast
  with \<open>spent_cost (put_output n r gs) = spent_cost gs + nr_cost_usd r\<close> \<open>0 \<le> nr_cost_usd r\<close> show ?case by linarith
qed simp

lemma apply_remove_cost:
  "no_pending (as_outputs a) \<Longrightarrow> cost_of (as_outputs (apply_remove name adds t a)) = cost_of (as_outputs a) \<and>
     no_pending (as_outputs (apply_remove name adds t a))"
  using cost_of_new [of "as_outputs a" t "tombstone name"] ddel_absent [of "as_outputs a" t]
  by (cases "dget (as_outputs a) t") (auto simp: apply_remove_def no_pending_def tombstone_def split: if_splits)

lemma apply_ops_cost:
  "apply_ops dx build d depth adds ops a = (e, a') \<Longrightarrow> no_pending (as_outputs a) \<Longrightarrow>
     cost_of (as_outputs a') = cost_of (as_outputs a) \<and> no_pending (as_outputs a')"
proof (induction ops arbitrary: a)
  case (Cons op ops)
  obtain e1 a1 where add: "apply_adds dx build d depth (all_added_nodes op) a = (e1, a1)" by fastforce
  have "as_outputs a1 = as_outputs a" using apply_adds_keeps [OF add] by simp
  then show ?case
    using Cons add apply_remove_cost [OF Cons.prems(2), of d adds "case op_target op of None \<Rightarrow> [] | Some t \<Rightarrow> t"]
    by (auto split: if_splits option.splits)
qed simp

lemma dispatch_cost:
  assumes ap: "apply_declarative_dispatch env dx cx pe ge n r inp gs w = (e, gs', w')" and np: "no_pending (gs_outputs gs)"
  shows "cost_of (gs_outputs gs') = cost_of (gs_outputs gs) \<and> no_pending (gs_outputs gs') \<and> gs_retired gs' = gs_retired gs"
  using ap
proof (cases rule: dispatch_cases)
  case (applied p w1 s w2 build ops)
  let ?a0 = "\<lparr>as_state = w_dispatch w2 ! p, as_node_map = gs_node_map gs, as_outputs = gs_outputs gs, as_batches = gs_batches gs,
             as_new = [], as_added = [], as_removed = []\<rparr>"
  obtain e' a where g: "guarded_ops dx build n inp ops ?a0 = (e', a)" by fastforce
  have "cost_of (as_outputs a) = cost_of (gs_outputs gs) \<and> no_pending (as_outputs a)"
  proof (cases "max_children_per_dispatch (dx_limits dx) < int (length (concat (map all_added_nodes ops)))")
    case True
    then show ?thesis using g np by (auto simp: guarded_ops_def)
  next
    case False
    then obtain s' depth where "apply_ops dx build (name_of n) depth (names_added ops) ops (?a0\<lparr>as_state := s'\<rparr>) = (e', a)"
      using g by (auto simp: guarded_ops_def Let_def)
    from apply_ops_cost [OF this] np show ?thesis by simp
  qed
  moreover have "gs_outputs gs' = as_outputs a \<and> gs_retired gs' = gs_retired gs"
    using applied(5) g by (auto simp: apply_rendered_def Let_def split: option.splits if_splits sum.splits)
  ultimately show ?thesis by simp
qed (use np in simp_all)

lemma dispatch_results_cost:
  "dispatch_results env dx cx ge inp rs gs w = (e, gs', w') \<Longrightarrow> no_pending (gs_outputs gs) \<Longrightarrow>
     spent_cost gs' = spent_cost gs \<and> no_pending (gs_outputs gs')"
proof (induction rs arbitrary: gs w)
  case (Cons p rs)
  obtain n r where p: "p = (n, r)" by fastforce
  obtain e1 gs1 w1 where ap: "apply_declarative_dispatch env dx cx (cx_parent_event cx) (Some ge) n r inp gs w = (e1, gs1, w1)"
    by (metis prod.collapse)
  have "spent_cost gs1 = spent_cost gs \<and> no_pending (gs_outputs gs1)"
    using dispatch_cost [OF ap Cons.prems(2)] by (simp add: spent_cost_def cost_of_def)
  then show ?case using Cons p ap by (cases e1) auto
qed simp

lemma handle_loop_cost:
  assumes hl: "handle_loop env pfx n r inp gs w = (idx, r', gs', w')" and ok: "dict_ok (gs_outputs gs)"
    and at: "dget (gs_outputs gs) (name_of n) = Some r"
  shows "spent_cost gs' = spent_cost gs"
proof (cases idx)
  case (Some i)
  then obtain ds where "retire (concat (map (map name_of) (drop i (gs_batches gs)))) (gs_outputs gs) = (gs_outputs gs', ds)"
      "gs_retired gs' = gs_retired gs @ ds"
    using hl by (auto elim: handle_loop_SomeD)
  then show ?thesis using retire_sum [OF _ ok, of _ _ _ nr_cost_usd] by (fastforce simp: spent_cost_def)
next
  case None
  have "cost_of (dset (name_of n) q (gs_outputs gs)) = cost_of (gs_outputs gs)" if "nr_cost_usd q = nr_cost_usd r" for q
    using cost_of_same [OF at] that by simp
  then have "cost_of (gs_outputs gs') = cost_of (gs_outputs gs)" "gs_retired gs' = gs_retired gs"
    using hl None by (auto simp: handle_loop_def ran_out_def Let_def split: option.splits if_splits prod.splits)
  then show ?thesis by (simp add: spent_cost_def cost_of_def)
qed

lemma single_turn_spent:
  assumes turn: "single_turn env hk dx cx ge inp n idx gs w = Inl (idx', gs', w')" and fair: "fair_hooks hk"
    and ok: "dict_ok (gs_outputs gs)" and np: "no_pending (gs_outputs gs)" and new: "dget (gs_outputs gs) (name_of n) = None"
    and n: "n \<in> set (concat (gs_batches gs))" and heap: "heap_ok (dx_limits dx) w" "hooks_ok (dx_limits dx) hk" "graph_ok gs"
      "ptr_ok (gs_dispatch gs) w" "0 \<le> max_dynamic_nodes (dx_limits dx)"
  shows "spent_cost gs \<le> spent_cost gs'"
proof -
  obtain out w1 where ex: "execute_single_node env hk inp cx ge gs n w = (out, w1)" by fastforce
  then obtain r where ex: "execute_single_node env hk inp cx ge gs n w = (Done r, w1)"
    using turn by (cases out) (auto simp: single_turn_def)
  have fr: "fair r" using execute_single_node_fair [OF fair ex] .
  let ?gs1 = "put_output n r gs" and ?w2 = "record_outcome env (cp_prefix_of cx) n r w1"
  obtain e gs3 w3 where ap: "apply_declarative_dispatch env dx cx (cx_parent_event cx) (Some ge) n r inp ?gs1 ?w2 = (e, gs3, w3)"
    by (metis prod.collapse)
  have e: "e = None" using turn ex ap by (cases e) (auto simp: single_turn_def Let_def)
  have np1: "no_pending (gs_outputs ?gs1)" using np fr by (auto simp: no_pending_def put_output_def fair_def split: if_splits)
  have c1: "spent_cost gs \<le> spent_cost ?gs1"
    using cost_of_new [OF new, of r] fr by (simp add: spent_cost_def put_output_def cost_of_def fair_def)
  have c3: "spent_cost gs3 = spent_cost ?gs1" using dispatch_cost [OF ap np1] by (simp add: spent_cost_def cost_of_def put_output_def)
  have "stays (name_of n) r n (gs_outputs ?gs1) (gs_batches ?gs1)" using n by (simp add: stays_def put_output_def)
  then have at: "dget (gs_outputs gs3) (name_of n) = Some r" using dispatch_stays ap e fr by (fastforce simp: stays_def fair_def)
  have "heap_ok (dx_limits dx) w1" using execute_single_node_ok [OF heap(2) ex heap(1,4)] by (simp add: world_ok_def)
  then have "heap_ok (dx_limits dx) ?w2" by (simp add: heap_ok_def)
  moreover have "graph_ok ?gs1" using heap(3) by (auto simp: graph_ok_def put_output_def)
  ultimately have ok3: "dict_ok (gs_outputs gs3)" using dispatch_facts(2) [OF ap _ _ heap(5)] by (simp add: graph_ok_def)
  show ?thesis
  proof (cases "meta_set NO_LOOP_VERDICT r")
    case True
    then have "gs' = gs3" using turn ex ap e by (auto simp: single_turn_def Let_def)
    then show ?thesis using c1 c3 by simp
  next
    case False
    obtain rw r4 gs4 w4 where hl: "handle_loop env (cp_prefix_of cx) n r inp gs3 w3 = (rw, r4, gs4, w4)" by (metis prod.collapse)
    have "gs' = gs4" using turn ex ap e False hl by (cases rw) (auto simp: single_turn_def Let_def)
    then show ?thesis using c1 c3 handle_loop_cost [OF hl ok3 at] by simp
  qed
qed

lemma subseq_keeps: "subseq xs ys \<Longrightarrow> set xs \<subseteq> set ys \<and> (distinct ys \<longrightarrow> distinct xs)"
  by (induction rule: list_emb.induct) auto

lemma parallel_batch_results:
  assumes ex: "execute_parallel_batch env hk inp cx ge gs ns w = (how, rs, w')" and "fair_hooks hk"
  shows "subseq (map fst rs) (re_order env (w_tick w) ns)" and "\<forall>p \<in> set rs. fair (snd p)"
proof -
  obtain acc w1 where all: "run_all (execute_single_node env hk inp cx ge gs) (re_order env (w_tick w) ns) no_results w = (acc, w1)"
    by fastforce
  then have "rs = ba_results acc" using ex by (simp add: execute_parallel_batch_def)
  with run_all_results [OF execute_single_node_fair [OF assms(2)] all]
  show "subseq (map fst rs) (re_order env (w_tick w) ns)" and "\<forall>p \<in> set rs. fair (snd p)"
    by (auto simp: no_results_def)
qed

lemma parallel_turn_spent:
  assumes turn: "parallel_turn env hk dx cx ge inp ns idx gs w = Inl (idx', gs', w')" and fair: "fair_hooks hk"
    and np: "no_pending (gs_outputs gs)" and names: "distinct (map name_of ns)"
    and new: "\<forall>n \<in> set ns. dget (gs_outputs gs) (name_of n) = None"
    and order: "mset (re_order env (w_tick w) ns) = mset ns"
  shows "spent_cost gs \<le> spent_cost gs'"
proof -
  obtain how rs w2 where ex: "execute_parallel_batch env hk inp cx ge gs ns w = (how, rs, w2)" by (metis prod.collapse)
  obtain gs2 w3 where k: "keep_results env (cp_prefix_of cx) rs gs w2 = (gs2, w3)" by fastforce
  obtain e gs4 w4 where d: "dispatch_results env dx cx ge inp rs gs2 w3 = (e, gs4, w4)" by (metis prod.collapse)
  have res: "gs' = gs4" using turn ex k d by (cases how; cases e) (auto simp: parallel_turn_def)
  note sub = parallel_batch_results [OF ex fair]
  have "distinct (map name_of (re_order env (w_tick w) ns))"
    using names order by (metis mset_eq_imp_distinct_iff mset_map)
  then have "distinct (map name_of (map fst rs))" using subseq_keeps [OF subseq_map [OF sub(1)]] by blast
  then have "distinct (map (name_of \<circ> fst) rs)" by simp
  moreover have "\<forall>p \<in> set rs. dget (gs_outputs gs) (name_of (fst p)) = None \<and> fair (snd p)"
  proof
    fix p assume "p \<in> set rs"
    then have "fst p \<in> set (re_order env (w_tick w) ns)" using subseq_keeps [OF sub(1)] by auto
    then have "fst p \<in> set ns" by (metis order set_mset_mset)
    with \<open>p \<in> set rs\<close> show "dget (gs_outputs gs) (name_of (fst p)) = None \<and> fair (snd p)" using new sub(2) by blast
  qed
  ultimately have "spent_cost gs \<le> spent_cost gs2 \<and> no_pending (gs_outputs gs2)"
    using keep_results_spent [OF k] np by blast
  then show ?thesis using dispatch_results_cost [OF d] res by simp
qed

text \<open>C5: Nothing that was spent is forgotten. Through every turn of the loop over batches, with its results,
  dispatches and rewinds, what the graph accounts for (the kept and the retired results together) never goes
  down, so the total a run reports covers every attempt it made.\<close>

theorem spending_never_forgotten:
  assumes turn: "batch_turn env hk dx cx ge inp (idx, gs, w) = Inl (idx', gs', w')" and inv: "turn_inv dx hk (idx, gs, w)"
    and fair: "fair_hooks hk" and np: "no_pending (gs_outputs gs)" and names: "distinct (map name_of (gs_batches gs ! idx))"
    and order: "\<forall>t ns. mset (re_order env t ns) = mset ns"
  shows "spent_cost gs \<le> spent_cost gs'"
proof -
  obtain c w1 where c: "check_cancelled env w = (c, w1)" by fastforce
  let ?batch = "gs_batches gs ! idx"
  let ?rem = "filter (\<lambda>n. \<not> dhas (name_of n) (gs_outputs gs)) ?batch"
  have idx: "idx < length (gs_batches gs)" and cF: "c = False"
    using turn c by (auto simp: batch_turn_def split: if_splits bool.splits)
  have w1: "w_dispatch w1 = w_dispatch w" using c by (metis snd_conv world_sels(22))
  have st: "heap_ok (dx_limits dx) w1" "hooks_ok (dx_limits dx) hk" "graph_ok gs" "ptr_ok (gs_dispatch gs) w1" "0 \<le> max_dynamic_nodes (dx_limits dx)"
    using inv w1 by (auto simp: turn_inv_def state_ok_def heap_ok_def ptr_ok_def split: option.splits)
  have step: "(if ?rem = [] then Inl (idx + 1, gs, w1)
     else if length ?rem = 1 \<and> length ?batch = 1 then single_turn env hk dx cx ge inp (hd ?batch) idx gs w1
     else parallel_turn env hk dx cx ge inp ?rem idx gs w1) = Inl (idx', gs', w')"
    using turn idx c cF by (simp add: batch_turn_def Let_def)
  show ?thesis
  proof (cases "?rem = [] \<or> length ?rem = 1 \<and> length ?batch = 1")
    case False
    then have "parallel_turn env hk dx cx ge inp ?rem idx gs w1 = Inl (idx', gs', w')" using step by argo
    moreover have "distinct (map name_of ?rem)" using names by (rule distinct_map_filter)
    moreover have "\<forall>n \<in> set ?rem. dget (gs_outputs gs) (name_of n) = None" by (auto simp: dhas_def)
    ultimately show ?thesis using parallel_turn_spent fair np order by blast
  next
    case True
    show ?thesis
    proof (cases "?rem = []")
      case False
      then obtain n where n: "?batch = [n]" using True by (auto simp: length_Suc_conv)
      then have new: "dget (gs_outputs gs) (name_of n) = None" using False by (auto simp: dhas_def split: if_splits)
      have "single_turn env hk dx cx ge inp n idx gs w1 = Inl (idx', gs', w')" using step True False n by simp
      moreover have "n \<in> set (concat (gs_batches gs))" using n idx by (metis UN_I list.set_intros(1) nth_mem set_concat)
      moreover have "dict_ok (gs_outputs gs)" using st(3) by (simp add: graph_ok_def)
      ultimately show ?thesis using single_turn_spent fair np new st by blast
    qed (use step in simp)
  qed
qed

section \<open>Dispatch by a node that did not run\<close>

text \<open>A dispatcher whose block adds one fixed node.\<close>

definition fixed_dispatcher :: node where
  "fixed_dispatcher = agent_node (default_config ''boss'') [(''name'', PStr ''boss''),
     (''dispatch'', PList [PDict [(''op'', PStr ''add''),
        (''node'', PDict [(''name'', PStr ''worker''), (''type'', PStr ''agent''), (''agent'', PStr ''w'')])]])]"

definition dispatcher_graph :: "node_result \<Rightarrow> graph_state" where
  "dispatcher_graph r = \<lparr>gs_batches = [[fixed_dispatcher]], gs_node_map = [(''boss'', fixed_dispatcher)], gs_outputs = [(''boss'', r)],
     gs_loop_counts = [], gs_feedback = [], gs_retired = [], gs_dispatch = None\<rparr>"

text \<open>Only a failed dispatcher is kept from dispatching. One that was skipped (its condition was not met,
  or the run had stopped) has its block rendered and applied as if it had completed: here the skipped
  dispatcher adds its worker to the graph.\<close>

theorem skipped_dispatcher_dispatches:
  "case apply_declarative_dispatch quiet_env plain_dx plain_context None None fixed_dispatcher (plain_result SKIPPED) []
      (dispatcher_graph (plain_result SKIPPED)) fresh_world of
     (err, gs', w') \<Rightarrow> err = None \<and> map (map name_of) (gs_batches gs') = [[''boss''], [''worker'']] \<and>
       dkeys (gs_node_map gs') = [''boss'', ''worker'']"
  by code_simp

section \<open>Witnesses\<close>

text \<open>Nodes that complete at once, gates that are approved at once.\<close>

definition quiet_hooks :: hooks where
  "quiet_hooks = \<lparr>hk_run = (\<lambda>n resolved ev cx ptr w. (Done (plain_result COMPLETED), w)), hk_gate = (\<lambda>n cx parent outs w. (Done None, w))\<rparr>"

definition two_steps :: graph_call where
  "two_steps = \<lparr>gc_nodes = [simple_node ''build'' [''plan''], simple_node ''plan'' []], gc_input = [], gc_name = ''flow'', gc_is_workflow = True,
     gc_initial = None, gc_outputs = None, gc_resume = None\<rparr>"

lemma quiet_call_ok: "call_ok plain_dx quiet_hooks None fresh_world"
  by (simp add: call_ok_def hooks_ok_def quiet_hooks_def two_steps_def fresh_world_def plain_dx_def default_limits_def heap_ok_def ptr_ok_def)

theorem execute_graph_returns_witness:
  "\<exists>out w'. execute_graph quiet_env quiet_hooks plain_dx two_steps plain_context None fresh_world = Some (out, w')"
  by (rule execute_graph_returns [OF quiet_call_ok])

lemma two_steps_complete:
  "\<exists>r w'. execute_graph quiet_env quiet_hooks plain_dx two_steps plain_context None fresh_world = Some (Done r, w') \<and> nr_status r = COMPLETED"
proof -
  have "case execute_graph quiet_env quiet_hooks plain_dx two_steps plain_context None fresh_world of
      Some (Done r, w') \<Rightarrow> nr_status r = COMPLETED | _ \<Rightarrow> False"
    by code_simp
  then show ?thesis by (auto split: option.splits prod.splits outcome.splits)
qed

theorem workflow_completed_means_no_failure_witness:
  "\<exists>r w'. execute_graph quiet_env quiet_hooks plain_dx two_steps plain_context None fresh_world = Some (Done r, w') \<and>
     (\<forall>path q. at_path (nr_node_results r) [] path q \<longrightarrow> nr_status q \<noteq> FAILED)"
proof -
  obtain r w' where run: "execute_graph quiet_env quiet_hooks plain_dx two_steps plain_context None fresh_world = Some (Done r, w')"
      "nr_status r = COMPLETED"
    using two_steps_complete by blast
  have "gc_is_workflow two_steps" by (simp add: two_steps_def)
  from workflow_completed_means_no_failure [OF run(1) this run(2)] run(1) show ?thesis by blast
qed

definition stopped_world :: world where
  "stopped_world = fresh_world\<lparr>w_stop := Some ((new_run_stop default_policy)\<lparr>rs_path := Some ''plan''\<rparr>)\<rparr>"

definition empty_graph :: graph_state where
  "empty_graph = \<lparr>gs_batches = [[simple_node ''build'' []]], gs_node_map = [(''build'', simple_node ''build'' [])], gs_outputs = [],
     gs_loop_counts = [], gs_feedback = [], gs_retired = [], gs_dispatch = None\<rparr>"

theorem stopped_run_runs_nothing_witness:
  "\<exists>r st why. execute_single_node quiet_env quiet_hooks [] plain_context ''g'' empty_graph (simple_node ''build'' []) stopped_world
      = (Done r, record_skipped_node (simple_node ''build'' []) ''g'' why st stopped_world) \<and> has_sub ''plan'' (error_text r)"
proof -
  let ?s = "(new_run_stop default_policy)\<lparr>rs_path := Some ''plan''\<rparr>"
  have "w_stop stopped_world = Some ?s" "rs_path ?s = Some ''plan''" by (simp_all add: stopped_world_def)
  moreover have "\<not> is_cleanup (simple_node ''build'' [])" "\<not> nc_run_after_failure (config (simple_node ''build'' []))" by code_simp+
  moreover have "cx_run_only plain_context = None" by code_simp
  ultimately show ?thesis
    using stopped_run_runs_nothing [of stopped_world ?s "''plan''" "simple_node ''build'' []" quiet_env quiet_hooks "[]" plain_context "''g''" empty_graph]
    by metis
qed

theorem spending_never_forgotten_witness:
  "\<exists>idx' gs' w'. batch_turn quiet_env quiet_hooks plain_dx plain_context ''g'' [] (0, empty_graph, fresh_world) = Inl (idx', gs', w') \<and>
     spent_cost empty_graph \<le> spent_cost gs'"
proof -
  have "case batch_turn quiet_env quiet_hooks plain_dx plain_context ''g'' [] (0, empty_graph, fresh_world) of Inl _ \<Rightarrow> True | Inr _ \<Rightarrow> False"
    by code_simp
  then obtain idx' gs' w' where turn: "batch_turn quiet_env quiet_hooks plain_dx plain_context ''g'' [] (0, empty_graph, fresh_world) = Inl (idx', gs', w')"
    by (metis prod_cases3 sum.case_eq_if sum.collapse(1))
  have "turn_inv plain_dx quiet_hooks (0, empty_graph, fresh_world)"
    using quiet_call_ok by (simp add: turn_inv_def call_ok_def state_ok_def graph_ok_def dict_ok_def empty_graph_def ptr_ok_def)
  moreover have "fair_hooks quiet_hooks" "no_pending (gs_outputs empty_graph)" "distinct (map name_of (gs_batches empty_graph ! 0))"
    "\<forall>t ns. mset (re_order quiet_env t ns) = mset ns"
    by (simp_all add: fair_hooks_def fair_def quiet_hooks_def no_pending_def empty_graph_def quiet_env_def)
  ultimately show ?thesis using spending_never_forgotten [OF turn] turn by blast
qed

end
