(* ===== verification/Turns.thy ===== *)
theory Turns
  imports Runs
begin

text \<open>
  What holds along the turns of a graph, however many there are: how often a node sends the graph back,
  and how many nodes dispatches put into it. \<open>trace\<close> gives the positions of the loop over batches
  (\<open>_run_batches\<close> of \<^verbatim>\<open>temper_ai/stage/executor.py\<close>) one after the other; the locale \<open>metered\<close> is the contract
  of a loop with a counter that covers what its turns do.
\<close>

section \<open>The positions of a loop\<close>

text \<open>Where a loop stands at its start and after each of its first \<open>k\<close> turns.\<close>

primrec trace :: "('s \<Rightarrow> 's + 'r) \<Rightarrow> nat \<Rightarrow> 's \<Rightarrow> 's list" where
  "trace step 0 s = [s]"
| "trace step (Suc k) s = s # (case step s of Inl t \<Rightarrow> trace step k t | Inr r \<Rightarrow> [])"

text \<open>What the turns between the positions come to.\<close>

fun over_turns :: "('s \<Rightarrow> 's \<Rightarrow> nat) \<Rightarrow> 's list \<Rightarrow> nat" where
  "over_turns f (s # t # ss) = f s t + over_turns f (t # ss)"
| "over_turns f ss = 0"

lemma trace_Cons: "\<exists>ss. trace step k s = s # ss"
  by (cases k) auto

lemma over_turns_step:
  "step s = Inl t \<Longrightarrow> over_turns f (trace step (Suc k) s) = f s t + over_turns f (trace step k t)"
  using trace_Cons [of step k t] by auto

locale metered =
  fixes step :: "'s \<Rightarrow> 's + 'r" and inv :: "'s \<Rightarrow> bool" and does :: "'s \<Rightarrow> 's \<Rightarrow> nat" and meter :: "'s \<Rightarrow> int" and top :: int
  assumes keeps: "inv s \<Longrightarrow> step s = Inl t \<Longrightarrow> inv t"
    and counts: "inv s \<Longrightarrow> step s = Inl t \<Longrightarrow> meter s + int (does s t) \<le> meter t"
    and limit: "inv s \<Longrightarrow> meter s \<le> top"
begin

lemma within: "inv s \<Longrightarrow> meter s + int (over_turns does (trace step k s)) \<le> top"
proof (induction k arbitrary: s)
  case (Suc k)
  show ?case
  proof (cases "step s")
    case (Inl t)
    have "meter t + int (over_turns does (trace step k t)) \<le> top" using Suc keeps Inl by blast
    then show ?thesis using counts [OF Suc.prems Inl] over_turns_step [of step s t does k, OF Inl] by linarith
  qed (use limit Suc.prems in simp)
qed (simp add: limit)

end

section \<open>How often a node sends its graph back\<close>

lemma dispatch_loop_counts:
  assumes "apply_declarative_dispatch env dx cx pe ge n r inp gs w = (err, gs', w')"
  shows "gs_loop_counts gs' = gs_loop_counts gs"
  using assms
proof (cases rule: dispatch_cases)
  case (applied p w1 s w2 build ops)
  then show ?thesis by (auto simp: apply_rendered_def Let_def split: prod.splits option.splits if_splits sum.splits)
qed simp_all

lemma keep_results_loop_counts: "keep_results env pfx rs gs w = (gs', w') \<Longrightarrow> gs_loop_counts gs' = gs_loop_counts gs"
  by (induction rs arbitrary: gs w) (auto simp: put_output_def)

lemma dispatch_results_loop_counts:
  "dispatch_results env dx cx ge inp rs gs w = (err, gs', w') \<Longrightarrow> gs_loop_counts gs' = gs_loop_counts gs"
proof (induction rs arbitrary: gs w)
  case (Cons p rs)
  obtain n r where p: "p = (n, r)" by fastforce
  obtain e1 gs1 w1 where ap: "apply_declarative_dispatch env dx cx (cx_parent_event cx) (Some ge) n r inp gs w = (e1, gs1, w1)"
    by (metis prod.collapse)
  show ?case using Cons dispatch_loop_counts [OF ap] p ap by (cases e1) auto
qed simp

lemma handle_loop_count_up:
  assumes "handle_loop env pfx n r inp gs w = (idx, r', gs', w')"
  shows "dget_or (gs_loop_counts gs) k 0 \<le> dget_or (gs_loop_counts gs') k 0"
proof -
  have "gs_loop_counts gs' = gs_loop_counts gs \<or>
      (\<exists>k. gs_loop_counts gs' = dset k (dget_or (gs_loop_counts gs) k 0 + 1) (gs_loop_counts gs))"
    using assms by (auto simp: handle_loop_def ran_out_def Let_def split: option.splits if_splits prod.splits)
  then show ?thesis by (auto simp: dget_or_def)
qed

text \<open>How often the rounds of \<open>n\<close> have been counted.\<close>

definition rounds_counted :: "node \<Rightarrow> graph_state \<Rightarrow> nat" where
  "rounds_counted n gs = (case loop_target n of None \<Rightarrow> 0 | Some t \<Rightarrow> dget_or (gs_loop_counts gs) (loop_key n t) 0)"

text \<open>A turn in which \<open>n\<close>, alone in its batch, sends the graph back to its own batch or an earlier one.\<close>

definition sends_back :: "node \<Rightarrow> loop_position \<Rightarrow> loop_position \<Rightarrow> nat" where
  "sends_back n s t = (case (s, t) of ((idx, gs, w), (idx', gs', w')) \<Rightarrow> if gs_batches gs ! idx = [n] \<and> idx' \<le> idx then 1 else 0)"

lemma single_turn_rounds:
  assumes turn: "single_turn env hk dx cx ge inp m idx gs w = Inl (idx', gs', w')"
  shows "rounds_counted n gs \<le> rounds_counted n gs' \<and>
    (idx' \<le> idx \<longrightarrow> rounds_counted m gs' = rounds_counted m gs + 1 \<and> int (rounds_counted m gs') < nc_max_loops (config m))"
proof -
  obtain out w1 where ex: "execute_single_node env hk inp cx ge gs m w = (out, w1)" by fastforce
  then obtain r where ex: "execute_single_node env hk inp cx ge gs m w = (Done r, w1)"
    using turn by (cases out) (auto simp: single_turn_def)
  let ?gs1 = "put_output m r gs" and ?w2 = "record_outcome env (cp_prefix_of cx) m r w1"
  obtain e gs3 w3 where ap: "apply_declarative_dispatch env dx cx (cx_parent_event cx) (Some ge) m r inp ?gs1 ?w2 = (e, gs3, w3)"
    by (metis prod.collapse)
  have e: "e = None" using turn ex ap by (cases e) (auto simp: single_turn_def Let_def)
  have c3: "gs_loop_counts gs3 = gs_loop_counts gs" using dispatch_loop_counts [OF ap] by (simp add: put_output_def)
  show ?thesis
  proof (cases "meta_set NO_LOOP_VERDICT r")
    case True
    then have "idx' = idx + 1" "gs' = gs3" using turn ex ap e by (auto simp: single_turn_def Let_def)
    then show ?thesis using c3 by (simp add: rounds_counted_def split: option.splits)
  next
    case False
    obtain rw r4 gs4 w4 where hl: "handle_loop env (cp_prefix_of cx) m r inp gs3 w3 = (rw, r4, gs4, w4)" by (metis prod.collapse)
    have gs': "gs' = gs4" and again: "idx' \<le> idx \<longrightarrow> rw = Some idx'"
      using turn ex ap e False hl by (cases rw; auto simp: single_turn_def Let_def)+
    have "rounds_counted n gs \<le> rounds_counted n gs'"
      using handle_loop_count_up [OF hl] c3 gs' by (simp add: rounds_counted_def split: option.splits)
    then show ?thesis using again rewind_count [of env "cp_prefix_of cx" m r inp gs3 w3 idx' r4 gs4 w4] hl gs' c3
      by (auto simp: rounds_counted_def)
  qed
qed

lemma parallel_turn_rounds:
  assumes "parallel_turn env hk dx cx ge inp ns idx gs w = Inl (idx', gs', w')"
  shows "rounds_counted n gs' = rounds_counted n gs \<and> idx' = idx + 1"
proof -
  obtain how rs w1 where ex: "execute_parallel_batch env hk inp cx ge gs ns w = (how, rs, w1)" by (metis prod.collapse)
  obtain gs2 w2 where k: "keep_results env (cp_prefix_of cx) rs gs w1 = (gs2, w2)" by fastforce
  obtain e gs3 w3 where d: "dispatch_results env dx cx ge inp rs gs2 w2 = (e, gs3, w3)" by (metis prod.collapse)
  have "idx' = idx + 1" "gs' = gs3" using assms ex k d by (cases how; cases e; simp add: parallel_turn_def)+
  then show ?thesis
    using keep_results_loop_counts [OF k] dispatch_results_loop_counts [OF d] by (simp add: rounds_counted_def split: option.splits)
qed

text \<open>The three kinds of turn that go on.\<close>

lemma batch_turn_cases:
  assumes "batch_turn env hk dx cx ge inp (idx, gs, w) = Inl (idx', gs', w')"
  obtains (all_there) w1 where "check_cancelled env w = (False, w1)" "idx < length (gs_batches gs)" "idx' = idx + 1" "gs' = gs" "w' = w1"
  | (one) n w1 where "check_cancelled env w = (False, w1)" "idx < length (gs_batches gs)" "gs_batches gs ! idx = [n]"
      "single_turn env hk dx cx ge inp n idx gs w1 = Inl (idx', gs', w')"
  | (several) ns w1 where "check_cancelled env w = (False, w1)" "idx < length (gs_batches gs)"
      "parallel_turn env hk dx cx ge inp ns idx gs w1 = Inl (idx', gs', w')"
proof -
  obtain c w1 where c: "check_cancelled env w = (c, w1)" by fastforce
  have idx: "idx < length (gs_batches gs)" and c: "check_cancelled env w = (False, w1)"
    using assms c by (auto simp: batch_turn_def split: if_splits bool.splits)
  let ?batch = "gs_batches gs ! idx" let ?rem = "filter (\<lambda>n. \<not> dhas (name_of n) (gs_outputs gs)) ?batch"
  consider "?rem = []" | "?rem \<noteq> []" "length ?rem = 1 \<and> length ?batch = 1" | "?rem \<noteq> []" "\<not> (length ?rem = 1 \<and> length ?batch = 1)" by blast
  then show thesis
  proof cases
    case 1
    then show thesis using all_there [OF c idx] assms c idx by (simp add: batch_turn_def)
  next
    case 2
    then obtain n where n: "?batch = [n]" by (metis One_nat_def length_0_conv length_Suc_conv)
    then show thesis using one [OF c idx n] assms c idx 2 by (simp add: batch_turn_def Let_def)
  next
    case 3
    then have "parallel_turn env hk dx cx ge inp ?rem idx gs w1 = Inl (idx', gs', w')"
      using assms c idx by (auto simp: batch_turn_def Let_def split: if_splits)
    then show thesis by (rule several [OF c idx])
  qed
qed

lemma batch_turn_rounds:
  assumes "batch_turn env hk dx cx ge inp (idx, gs, w) = Inl (idx', gs', w')"
  shows "rounds_counted n gs \<le> rounds_counted n gs' \<and>
    (gs_batches gs ! idx = [n] \<and> idx' \<le> idx \<longrightarrow>
       rounds_counted n gs' = rounds_counted n gs + 1 \<and> int (rounds_counted n gs') < nc_max_loops (config n))"
  using assms
proof (cases rule: batch_turn_cases)
  case (one m w1)
  then show ?thesis using single_turn_rounds [OF one(4)] by auto
next
  case (several ns w1)
  then show ?thesis using parallel_turn_rounds [OF several(3)] by simp
qed simp

text \<open>The rounds counted, as far as the limit goes, are a meter of the times a node sends its graph back.\<close>

interpretation rounds: metered "batch_turn env hk dx cx ge inp" "\<lambda>_. True" "sends_back n"
    "\<lambda>s. min (int (rounds_counted n (fst (snd s)))) (nc_max_loops (config n) - 1)" "nc_max_loops (config n) - 1"
  for env hk dx cx ge inp n
proof unfold_locales
  fix s t
  assume turn: "batch_turn env hk dx cx ge inp s = Inl t"
  obtain idx gs w where s: "s = (idx, gs, w)" by (metis prod.collapse)
  obtain idx' gs' w' where t: "t = (idx', gs', w')" by (metis prod.collapse)
  show "min (int (rounds_counted n (fst (snd s)))) (nc_max_loops (config n) - 1) + int (sends_back n s t)
      \<le> min (int (rounds_counted n (fst (snd t)))) (nc_max_loops (config n) - 1)"
    using batch_turn_rounds [of env hk dx cx ge inp idx gs w idx' gs' w' n] turn s t by (auto simp: sends_back_def)
qed auto

section \<open>What a dispatch puts into the graph\<close>

text \<open>Batches of which nodes were only taken out.\<close>

definition pruned :: "node list list \<Rightarrow> node list list \<Rightarrow> bool" where
  "pruned bs bs' \<longleftrightarrow> list_all2 (\<lambda>b b'. subseq b' b) bs bs'"

lemma pruned_refl [simp]: "pruned bs bs"
  by (simp add: pruned_def list_all2_same)

lemma pruned_length: "pruned bs bs' \<Longrightarrow> length bs' = length bs"
  by (simp add: pruned_def list_all2_lengthD)

lemma pruned_trans: "pruned as bs \<Longrightarrow> pruned bs cs \<Longrightarrow> pruned as cs"
  unfolding pruned_def by (rule list_all2_trans [of "\<lambda>b b'. subseq b' b" "\<lambda>b b'. subseq b' b"]) (auto intro: subseq_order.order_trans)

lemma pruned_filter: "pruned bs (map (filter P) bs)"
  by (simp add: pruned_def list_all2_map2 list_all2_same)

lemma pruned_append: "pruned (as @ bs) cs \<Longrightarrow> \<exists>as' bs'. cs = as' @ bs' \<and> pruned as as' \<and> pruned bs bs'"
  unfolding pruned_def by (auto simp: list_all2_append1)

lemma pruned_nodes: "pruned bs bs' \<Longrightarrow> length (concat bs') \<le> length (concat bs)"
  unfolding pruned_def by (induction rule: list_all2_induct) (auto dest: list_emb_length)

text \<open>The nodes added so far, and how they are recorded: one deeper than their dispatcher, within the limit.\<close>

definition recorded :: "dispatch_limits \<Rightarrow> string \<Rightarrow> int \<Rightarrow> dispatch_state \<Rightarrow> node \<Rightarrow> bool" where
  "recorded lms name depth s m \<longleftrightarrow> dget (depths s) (name_of m) = Some (depth + 1) \<and> depth + 1 \<le> max_dispatch_depth lms \<and>
     dget (parents s) (name_of m) = Some name"

definition news_recorded :: "dispatch_limits \<Rightarrow> string \<Rightarrow> int \<Rightarrow> apply_state \<Rightarrow> bool" where
  "news_recorded lms name depth a \<longleftrightarrow> list_all (recorded lms name depth (as_state a)) (as_new a)"

lemma enforce_caps_recorded:
  assumes "enforce_caps_and_build dx build name depth d a = (e, a')" and "news_recorded (dx_limits dx) name depth a"
  shows "news_recorded (dx_limits dx) name depth a'"
proof (cases e)
  case None
  then show ?thesis
    using enforce_caps_Inr [of dx build name depth d a a'] assms
    by (auto simp: news_recorded_def recorded_def list_all_iff)
next
  case (Some x)
  then show ?thesis using enforce_caps_Inl assms by blast
qed

lemma apply_adds_recorded:
  "apply_adds dx build name depth ds a = (e, a') \<Longrightarrow> news_recorded (dx_limits dx) name depth a \<Longrightarrow> news_recorded (dx_limits dx) name depth a'"
proof (induction ds arbitrary: a)
  case (Cons d ds)
  obtain e1 a1 where one: "enforce_caps_and_build dx build name depth d a = (e1, a1)" by fastforce
  have "news_recorded (dx_limits dx) name depth (a1\<lparr>as_added := x\<rparr>)" for x
    using enforce_caps_recorded [OF one Cons.prems(2)] by (simp add: news_recorded_def)
  then show ?case using Cons enforce_caps_recorded [OF one] one by (cases e1) auto
qed simp

lemma apply_ops_recorded:
  "apply_ops dx build name depth adds ops a = (e, a') \<Longrightarrow> news_recorded (dx_limits dx) name depth a \<Longrightarrow>
     news_recorded (dx_limits dx) name depth a' \<and> pruned (as_batches a) (as_batches a')"
proof (induction ops arbitrary: a)
  case (Cons op ops)
  obtain e1 a1 where add: "apply_adds dx build name depth (all_added_nodes op) a = (e1, a1)" by fastforce
  have added: "news_recorded (dx_limits dx) name depth a1" "as_batches a1 = as_batches a"
    using apply_adds_recorded [OF add Cons.prems(2)] apply_adds_keeps [OF add] by auto
  have removed: "news_recorded (dx_limits dx) name depth (apply_remove name adds t a)"
      "pruned (as_batches a) (as_batches (apply_remove name adds t a))" for t
    using Cons.prems(2) pruned_filter by (auto simp: apply_remove_def news_recorded_def)
  consider "op_op op = ''remove''" | "op_op op = ''add''" "e1 = None" | "op_op op = ''add''" "e1 \<noteq> None" | "op_op op \<notin> {''remove'', ''add''}"
    by blast
  then show ?case
  proof cases
    case 1
    then show ?thesis using Cons.IH [OF _ removed(1)] Cons.prems(1) removed(2) pruned_trans by fastforce
  next
    case 2
    then show ?thesis using Cons.IH [OF _ added(1)] Cons.prems(1) added(2) add by auto
  next
    case 3
    then show ?thesis using Cons.prems(1) added add by auto
  next
    case 4
    then show ?thesis using Cons by auto
  qed
qed simp

text \<open>The depth at which a node's dispatches start: what is recorded for its name, or zero.\<close>

definition depth_of :: "nat option \<Rightarrow> world \<Rightarrow> string \<Rightarrow> int" where
  "depth_of p w name = (case dispatch_state_of p w of None \<Rightarrow> 0 | Some s \<Rightarrow> dget_or (depths s) name 0)"

definition dispatcher_of :: "nat option \<Rightarrow> world \<Rightarrow> string \<Rightarrow> string option" where
  "dispatcher_of p w name = (case dispatch_state_of p w of None \<Rightarrow> None | Some s \<Rightarrow> dget (parents s) name)"

lemma guarded_ops_recorded:
  assumes "guarded_ops dx build n inp ops a = (e, a')" and "as_new a = []"
  shows "pruned (as_batches a) (as_batches a') \<and>
    list_all (recorded (dx_limits dx) (name_of n) (dget_or (depths (as_state a)) (name_of n) 0) (as_state a')) (as_new a')"
proof (cases "max_children_per_dispatch (dx_limits dx) < int (length (concat (map all_added_nodes ops)))")
  case True
  then show ?thesis using assms by (auto simp: guarded_ops_def Let_def)
next
  case False
  define s where "s = (if dhas (name_of n) (fingerprints (as_state a)) then as_state a
     else (as_state a)\<lparr>fingerprints := dset (name_of n) (fingerprint_node (dx_digest dx)
            (py_str (dget_or (agent_config n) ''name'' (PStr (name_of n)))) inp) (fingerprints (as_state a))\<rparr>)"
  have "apply_ops dx build (name_of n) (dget_or (depths s) (name_of n) 0) (names_added ops) ops (a\<lparr>as_state := s\<rparr>) = (e, a')"
    using assms(1) False by (simp add: guarded_ops_def Let_def s_def)
  moreover have "depths s = depths (as_state a)" by (simp add: s_def)
  ultimately show ?thesis using apply_ops_recorded [of dx build "name_of n"] assms(2) by (fastforce simp: news_recorded_def)
qed

lemma apply_rendered_adds:
  assumes ap: "apply_rendered env dx build cx ge n inp ops ptr gs w = (err, gs', w')"
    and ptr: "ptr < length (w_dispatch w)" and heap: "heap_ok (dx_limits dx) w" and gs: "graph_ok gs"
  shows "\<exists>old new. gs_batches gs' = old @ new \<and> pruned (gs_batches gs) old \<and> (err \<noteq> None \<longrightarrow> new = []) \<and>
    (err = None \<longrightarrow> int (length (concat new)) = dispatched_count (w_dispatch w' ! ptr) - dispatched_count (w_dispatch w ! ptr)) \<and>
    list_all (recorded (dx_limits dx) (name_of n) (dget_or (depths (w_dispatch w ! ptr)) (name_of n) 0) (w_dispatch w' ! ptr)) (concat new)"
proof -
  let ?a0 = "\<lparr>as_state = w_dispatch w ! ptr, as_node_map = gs_node_map gs, as_outputs = gs_outputs gs, as_batches = gs_batches gs,
             as_new = [], as_added = [], as_removed = []\<rparr>"
  obtain e a where g: "guarded_ops dx build n inp ops ?a0 = (e, a)" by fastforce
  have "apply_ok (dx_limits dx) ?a0" using heap ptr gs by (simp add: heap_ok_def graph_ok_def apply_ok_def)
  note ok = guarded_ops_ok [OF g this]
  have rec: "pruned (gs_batches gs) (as_batches a)"
      "list_all (recorded (dx_limits dx) (name_of n) (dget_or (depths (w_dispatch w ! ptr)) (name_of n) 0) (as_state a)) (as_new a)"
    using guarded_ops_recorded [OF g] by simp_all
  have st: "w_dispatch w' ! ptr = as_state a"
    using ap g ptr by (auto simp: apply_rendered_def Let_def set_dispatch_def split: option.splits if_splits sum.splits)
  have cnt: "dispatched_count (w_dispatch w' ! ptr) - dispatched_count (w_dispatch w ! ptr) = int (length (as_new a))"
    using ok st by simp
  consider "err \<noteq> None" "gs_batches gs' = as_batches a" | "err = None" "as_new a = []" "gs_batches gs' = as_batches a"
    | nb where "err = None" "topological_sort (as_new a) = Inr nb" "gs_batches gs' = as_batches a @ nb"
    using ap g by (auto simp: apply_rendered_def Let_def split: option.splits if_splits sum.splits)
  then show ?thesis
  proof cases
    case 3
    have "mset (concat nb) = mset (as_new a)" using kahn.sound [OF 3(2)] by blast
    then have "length (concat nb) = length (as_new a)" "set (concat nb) = set (as_new a)" by (metis size_mset, metis set_mset_mset)
    then show ?thesis using 3 rec st cnt by (intro exI [of _ "as_batches a"] exI [of _ nb]) (simp add: list_all_iff)
  next
    case 1
    then show ?thesis using rec by (intro exI [of _ "as_batches a"] exI [of _ "[]"]) auto
  next
    case 2
    then show ?thesis using rec cnt by (intro exI [of _ "as_batches a"] exI [of _ "[]"]) auto
  qed
qed

text \<open>Everything one dispatch does to the batches of its graph.\<close>

lemma dispatch_adds:
  assumes ap: "apply_declarative_dispatch env dx cx pe ge n r inp gs w = (err, gs', w')"
    and heap: "heap_ok (dx_limits dx) w" and gs: "graph_ok gs" and lms: "0 \<le> max_dynamic_nodes (dx_limits dx)"
  shows "\<exists>old new. gs_batches gs' = old @ new \<and> pruned (gs_batches gs) old \<and> (err \<noteq> None \<longrightarrow> new = []) \<and>
    (err = None \<longrightarrow> int (length (concat new)) = dispatched (gs_dispatch gs') w' - dispatched (gs_dispatch gs) w) \<and>
    (\<forall>m \<in> set (concat new). depth_of (gs_dispatch gs') w' (name_of m) = depth_of (gs_dispatch gs) w (name_of n) + 1 \<and>
       depth_of (gs_dispatch gs) w (name_of n) + 1 \<le> max_dispatch_depth (dx_limits dx) \<and>
       dispatcher_of (gs_dispatch gs') w' (name_of m) = Some (name_of n))"
  using ap
proof (cases rule: dispatch_cases)
  case nothing
  then show ?thesis by (intro exI [of _ "gs_batches gs"] exI [of _ "[]"]) simp
next
  case (seeded p w1 s)
  note sf = seed_dispatch_facts [OF seeded(1)]
  have "dispatched (gs_dispatch gs') w' = dispatched (gs_dispatch gs) w"
    using sf(1,2) seeded(2-4) by (simp add: dispatched_def [of "Some p"] dispatch_state_of_def)
  then show ?thesis using seeded(2) by (intro exI [of _ "gs_batches gs"] exI [of _ "[]"]) simp
next
  case (applied p w1 s w2 build ops)
  note sf = seed_dispatch_facts [OF applied(1)]
  have "caps_ok (dx_limits dx) new_dispatch_state" using lms by (simp add: caps_ok_def new_dispatch_state_def)
  then have heap1: "heap_ok (dx_limits dx) w1" using sf(6) heap by (auto simp: heap_ok_def)
  then have "caps_ok (dx_limits dx) (w_dispatch w1 ! p)" using sf(1) by (simp add: heap_ok_def)
  then have "caps_ok (dx_limits dx) s" using applied(3,4) by (simp add: caps_ok_def)
  then have heap2: "heap_ok (dx_limits dx) w2"
    using heap_ok_update [OF heap1, of s p] applied(2) by (simp add: heap_ok_def set_dispatch_def)
  have p: "p < length (w_dispatch w2)" using sf(1) applied(2) by simp
  have gsp: "graph_ok (gs\<lparr>gs_dispatch := Some p\<rparr>)" using gs by (simp add: graph_ok_def)
  have after: "length (w_dispatch w') = length (w_dispatch w2)" "gs_dispatch gs' = Some p"
    using apply_rendered_facts [OF applied(5) p heap2 gsp] by auto
  have was: "dispatched_count (w_dispatch w2 ! p) = dispatched (gs_dispatch gs) w" "w_dispatch w2 ! p = s"
    using sf(1,2) applied(2,3) by simp_all
  have "dget_or (depths s) (name_of n) 0 = depth_of (gs_dispatch gs) w (name_of n)"
  proof (cases "dispatch_state_of (gs_dispatch gs) w")
    case None
    then have "w_dispatch w1 ! p = new_dispatch_state" using applied(1) by (auto simp: seed_dispatch_def)
    then show ?thesis using None applied(4) by (simp add: depth_of_def new_dispatch_state_def dget_or_def)
  next
    case (Some s0)
    then have "gs_dispatch gs = Some p" "w1 = w" using sf(7) by auto
    then show ?thesis using Some applied(4) by (auto simp: depth_of_def dispatch_state_of_def split: if_splits)
  qed
  moreover obtain old new where "gs_batches gs' = old @ new" "pruned (gs_batches gs) old" "err \<noteq> None \<longrightarrow> new = []"
      "err = None \<longrightarrow> int (length (concat new)) = dispatched_count (w_dispatch w' ! p) - dispatched_count (w_dispatch w2 ! p)"
      "list_all (recorded (dx_limits dx) (name_of n) (dget_or (depths (w_dispatch w2 ! p)) (name_of n) 0) (w_dispatch w' ! p)) (concat new)"
    using apply_rendered_adds [OF applied(5) p heap2 gsp] by auto
  ultimately show ?thesis
    using after was p
    by (intro exI [of _ old] exI [of _ new]) (auto simp: dispatched_def [of "Some p"] depth_of_def [of "Some p"] dispatcher_of_def dispatch_state_of_def recorded_def list_all_iff dget_or_def)
qed

text \<open>C14: A dispatch keeps the caps, counted on the nodes that really come into the graph. One that goes through
  appends exactly as many nodes as it counts, so that with all those counted before they stay within
  \<open>max_dynamic_nodes\<close>, and at most \<open>max_children_per_dispatch\<close> of them; each is recorded under its dispatcher,
  one deeper than it and no deeper than \<open>max_dispatch_depth\<close>. One that fails appends none. From the batches that
  were there nodes are only taken out.\<close>

theorem dispatch_keeps_caps:
  assumes "apply_declarative_dispatch env dx cx pe ge n r inp gs w = (err, gs', w')"
    and "\<forall>s \<in> set (w_dispatch w). caps_ok (dx_limits dx) s" and "graph_ok gs" and "0 \<le> max_dynamic_nodes (dx_limits dx)"
  shows "\<exists>old new. gs_batches gs' = old @ new \<and> list_all2 (\<lambda>b b'. subseq b' b) (gs_batches gs) old \<and> (err \<noteq> None \<longrightarrow> new = []) \<and>
    (err = None \<longrightarrow> dispatched (gs_dispatch gs') w' = dispatched (gs_dispatch gs) w + int (length (concat new))) \<and>
    dispatched (gs_dispatch gs) w + int (length (concat new)) \<le> max_dynamic_nodes (dx_limits dx) \<and>
    int (length (concat new)) \<le> max 0 (max_children_per_dispatch (dx_limits dx)) \<and>
    (\<forall>m \<in> set (concat new). dispatcher_of (gs_dispatch gs') w' (name_of m) = Some (name_of n) \<and>
       depth_of (gs_dispatch gs') w' (name_of m) = depth_of (gs_dispatch gs) w (name_of n) + 1 \<and>
       depth_of (gs_dispatch gs) w (name_of n) + 1 \<le> max_dispatch_depth (dx_limits dx))"
proof -
  have heap: "heap_ok (dx_limits dx) w" using assms(2) by (simp add: heap_ok_def)
  note f = dispatch_facts [OF assms(1) heap assms(3,4)]
  obtain old new where "gs_batches gs' = old @ new" "pruned (gs_batches gs) old" "err \<noteq> None \<longrightarrow> new = []"
    "err = None \<longrightarrow> int (length (concat new)) = dispatched (gs_dispatch gs') w' - dispatched (gs_dispatch gs) w"
    "\<forall>m \<in> set (concat new). depth_of (gs_dispatch gs') w' (name_of m) = depth_of (gs_dispatch gs) w (name_of n) + 1 \<and>
       depth_of (gs_dispatch gs) w (name_of n) + 1 \<le> max_dispatch_depth (dx_limits dx) \<and>
       dispatcher_of (gs_dispatch gs') w' (name_of m) = Some (name_of n)"
    using dispatch_adds [OF assms(1) heap assms(3,4)] by blast
  moreover have "dispatched (gs_dispatch gs') w' \<le> max_dynamic_nodes (dx_limits dx)"
      "dispatched (gs_dispatch gs) w \<le> max_dynamic_nodes (dx_limits dx)"
    using dispatched_le [OF f(1) assms(4)] dispatched_le [OF heap assms(4)] by auto
  ultimately show ?thesis using f(6) by (intro exI [of _ old] exI [of _ new]) (cases err; simp add: pruned_def)
qed

section \<open>What all the dispatches of a graph put into it\<close>

text \<open>The nodes a turn appends to the batches.\<close>

definition nodes_added :: "loop_position \<Rightarrow> loop_position \<Rightarrow> nat" where
  "nodes_added s t = length (concat (drop (length (gs_batches (fst (snd s)))) (gs_batches (fst (snd t)))))"

text \<open>A step that appends no more nodes than it counts.\<close>

definition grown :: "graph_state \<times> world \<Rightarrow> graph_state \<times> world \<Rightarrow> bool" where
  "grown s s' = (case (s, s') of ((gs, w), (gs', w')) \<Rightarrow>
     \<exists>old new. gs_batches gs' = old @ new \<and> pruned (gs_batches gs) old \<and>
       dispatched (gs_dispatch gs) w + int (length (concat new)) \<le> dispatched (gs_dispatch gs') w')"

lemma grown_trans:
  assumes "grown s t" and "grown t u"
  shows "grown s u"
proof -
  obtain gs w gs1 w1 gs2 w2 where p: "s = (gs, w)" "t = (gs1, w1)" "u = (gs2, w2)" by (metis prod.collapse)
  obtain old new where a: "gs_batches gs1 = old @ new" "pruned (gs_batches gs) old"
      "dispatched (gs_dispatch gs) w + int (length (concat new)) \<le> dispatched (gs_dispatch gs1) w1"
    using assms(1) p by (auto simp: grown_def)
  obtain old2 new2 where b: "gs_batches gs2 = old2 @ new2" "pruned (old @ new) old2"
      "dispatched (gs_dispatch gs1) w1 + int (length (concat new2)) \<le> dispatched (gs_dispatch gs2) w2"
    using assms(2) p a(1) by (auto simp: grown_def)
  obtain o1 n1 where c: "old2 = o1 @ n1" "pruned old o1" "pruned new n1" using pruned_append [OF b(2)] by blast
  have "int (length (concat (n1 @ new2))) \<le> int (length (concat new)) + int (length (concat new2))"
    using pruned_nodes [OF c(3)] by simp
  then show ?thesis
    using p a b c pruned_trans [OF a(2) c(2)] unfolding grown_def
    by (simp del: concat_append) (intro exI [of _ o1] exI [of _ "n1 @ new2"], simp)
qed

lemma grown_same: "gs_batches gs' = gs_batches gs \<Longrightarrow> dispatched (gs_dispatch gs) w \<le> dispatched (gs_dispatch gs') w' \<Longrightarrow> grown (gs, w) (gs', w')"
  unfolding grown_def by (simp, intro exI [of _ "gs_batches gs"] exI [of _ "[]"], simp)

lemma grown_nodes: "grown (gs, w) (gs', w') \<Longrightarrow>
    dispatched (gs_dispatch gs) w + int (nodes_added (i, gs, w) (j, gs', w')) \<le> dispatched (gs_dispatch gs') w'"
  by (auto simp: grown_def nodes_added_def dest: pruned_length)

lemma grown_world:
  assumes "state_ok lms gs w" and "world_ok lms w w'"
  shows "grown (gs, w) (gs, w')"
  using heap_grows_dispatched [of w w' "gs_dispatch gs"] assms by (intro grown_same) (auto simp: state_ok_def world_ok_def)

lemma grown_dispatch:
  assumes ap: "apply_declarative_dispatch env dx cx pe ge n r inp gs w = (err, gs', w')"
    and st: "state_ok (dx_limits dx) gs w" and lms: "0 \<le> max_dynamic_nodes (dx_limits dx)"
  shows "grown (gs, w) (gs', w')"
proof -
  have ok: "heap_ok (dx_limits dx) w" "graph_ok gs" using st by (auto simp: state_ok_def)
  obtain old new where "gs_batches gs' = old @ new" "pruned (gs_batches gs) old" "err \<noteq> None \<longrightarrow> new = []"
    "err = None \<longrightarrow> int (length (concat new)) = dispatched (gs_dispatch gs') w' - dispatched (gs_dispatch gs) w"
    using dispatch_adds [OF ap ok lms] by blast
  then show ?thesis
    using dispatch_facts(3) [OF ap ok lms] unfolding grown_def by (simp, intro exI [of _ old] exI [of _ new]) (cases err; simp)
qed

lemma grown_keep_results: "keep_results env pfx rs gs w = (gs', w') \<Longrightarrow> grown (gs, w) (gs', w')"
proof -
  assume k: "keep_results env pfx rs gs w = (gs', w')"
  then have "gs_batches gs' = gs_batches gs \<and> gs_dispatch gs' = gs_dispatch gs \<and> w_dispatch w' = w_dispatch w"
    by (induction rs arbitrary: gs w) (auto simp: put_output_def)
  then show ?thesis by (intro grown_same) (auto simp: dispatched_def dispatch_state_of_def split: option.splits)
qed

lemma grown_dispatch_results:
  assumes "0 \<le> max_dynamic_nodes (dx_limits dx)"
  shows "dispatch_results env dx cx ge inp rs gs w = (err, gs', w') \<Longrightarrow> state_ok (dx_limits dx) gs w \<Longrightarrow> grown (gs, w) (gs', w')"
proof (induction rs arbitrary: gs w)
  case (Cons p rs)
  obtain n r where p: "p = (n, r)" by fastforce
  obtain e1 gs1 w1 where ap: "apply_declarative_dispatch env dx cx (cx_parent_event cx) (Some ge) n r inp gs w = (e1, gs1, w1)"
    by (metis prod.collapse)
  have one: "grown (gs, w) (gs1, w1)" "state_ok (dx_limits dx) gs1 w1"
    using grown_dispatch [OF ap Cons.prems(2) assms] no_worse_dispatch [OF ap Cons.prems(2) assms] by (auto simp: no_worse_def)
  then show ?case using Cons p ap grown_trans by (cases e1) fastforce+
qed (simp add: grown_same)

lemma single_turn_grown:
  assumes hk: "hooks_ok (dx_limits dx) hk" and lms: "0 \<le> max_dynamic_nodes (dx_limits dx)"
    and turn: "single_turn env hk dx cx ge inp n idx gs w = Inl (idx', gs', w')" and st: "state_ok (dx_limits dx) gs w"
  shows "grown (gs, w) (gs', w')"
proof -
  let ?l = "dx_limits dx" let ?p = "cp_prefix_of cx"
  obtain out w1 where ex: "execute_single_node env hk inp cx ge gs n w = (out, w1)" by fastforce
  then obtain r where ex: "execute_single_node env hk inp cx ge gs n w = (Done r, w1)"
    using turn by (cases out) (auto simp: single_turn_def)
  let ?gs1 = "put_output n r gs" and ?w2 = "record_outcome env ?p n r w1"
  have ok1: "world_ok ?l w w1" using execute_single_node_ok [OF hk ex] st by (simp add: state_ok_def)
  have st1: "state_ok ?l gs w1" using no_worse_world [OF st ok1] by (simp add: no_worse_def)
  have st2: "state_ok ?l ?gs1 ?w2" using no_worse_put [OF st1, of ?w2] by (simp add: no_worse_def)
  have g2: "grown (gs, w1) (?gs1, ?w2)"
    by (intro grown_same) (auto simp: put_output_def dispatched_def dispatch_state_of_def split: option.splits)
  obtain e gs3 w3 where ap: "apply_declarative_dispatch env dx cx (cx_parent_event cx) (Some ge) n r inp ?gs1 ?w2 = (e, gs3, w3)"
    by (metis prod.collapse)
  have e: "e = None" using turn ex ap by (cases e) (auto simp: single_turn_def Let_def)
  have g3: "grown (gs, w) (gs3, w3)"
    using grown_world [OF st ok1] g2 grown_dispatch [OF ap st2 lms] grown_trans by blast
  obtain rw r4 gs4 w4 where hl: "(if meta_set NO_LOOP_VERDICT r then (None, r, gs3, w3) else handle_loop env ?p n r inp gs3 w3) = (rw, r4, gs4, w4)"
    by (metis prod.collapse)
  have "gs_batches gs4 = gs_batches gs3" "gs_dispatch gs4 = gs_dispatch gs3" "w_dispatch w4 = w_dispatch w3"
    using hl handle_loop_dispatch [of env ?p n r inp gs3 w3] by (auto split: if_splits)
  moreover have "gs' = gs4" "w_dispatch w' = w_dispatch w4"
    using turn ex ap e hl by (cases rw; auto simp: single_turn_def Let_def)+
  ultimately have "grown (gs3, w3) (gs', w')"
    by (intro grown_same) (auto simp: dispatched_def dispatch_state_of_def split: option.splits)
  then show ?thesis using g3 grown_trans by blast
qed

lemma parallel_turn_grown:
  assumes hk: "hooks_ok (dx_limits dx) hk" and lms: "0 \<le> max_dynamic_nodes (dx_limits dx)"
    and turn: "parallel_turn env hk dx cx ge inp ns idx gs w = Inl (idx', gs', w')" and st: "state_ok (dx_limits dx) gs w"
  shows "grown (gs, w) (gs', w')"
proof -
  let ?l = "dx_limits dx"
  obtain how rs w1 where ex: "execute_parallel_batch env hk inp cx ge gs ns w = (how, rs, w1)" by (metis prod.collapse)
  obtain gs2 w2 where k: "keep_results env (cp_prefix_of cx) rs gs w1 = (gs2, w2)" by fastforce
  obtain e gs3 w3 where d: "dispatch_results env dx cx ge inp rs gs2 w2 = (e, gs3, w3)" by (metis prod.collapse)
  have res: "gs' = gs3" "w' = w3" using turn ex k d by (cases how; cases e; simp add: parallel_turn_def)+
  have ok1: "world_ok ?l w w1" using execute_parallel_batch_ok [OF hk ex] st by (simp add: state_ok_def)
  have st1: "state_ok ?l gs w1" using no_worse_world [OF st ok1] by (simp add: no_worse_def)
  have "state_ok ?l gs2 w2" using no_worse_keep_results [OF k st1] by (simp add: no_worse_def)
  from grown_dispatch_results [OF lms d this] grown_keep_results [OF k] grown_world [OF st ok1] show ?thesis
    using res grown_trans by blast
qed

lemma batch_turn_grown:
  assumes inv: "turn_inv dx hk (idx, gs, w)" and turn: "batch_turn env hk dx cx ge inp (idx, gs, w) = Inl (idx', gs', w')"
  shows "grown (gs, w) (gs', w')"
proof -
  have hk: "hooks_ok (dx_limits dx) hk" "0 \<le> max_dynamic_nodes (dx_limits dx)" and st: "state_ok (dx_limits dx) gs w"
    using inv by (auto simp: turn_inv_def)
  have same: "grown (gs, w) (gs, w1)" "state_ok (dx_limits dx) gs w1" if "check_cancelled env w = (False, w1)" for w1
  proof -
    have d: "w_dispatch w1 = w_dispatch w" using that by (metis snd_conv world_sels(22))
    then show "grown (gs, w) (gs, w1)" by (intro grown_same) (auto simp: dispatched_def dispatch_state_of_def split: option.splits)
    show "state_ok (dx_limits dx) gs w1" using st d by (auto simp: state_ok_def heap_ok_def ptr_ok_def split: option.splits)
  qed
  show ?thesis
    using turn
  proof (cases rule: batch_turn_cases)
    case (all_there w1)
    then show ?thesis using same by simp
  next
    case (one n w1)
    then show ?thesis using same single_turn_grown [OF hk one(4)] grown_trans by blast
  next
    case (several ns w1)
    then show ?thesis using same parallel_turn_grown [OF hk several(3)] grown_trans by blast
  qed
qed

text \<open>The count of the dispatch state is a meter of the nodes appended.\<close>

interpretation added: metered "batch_turn env hk dx cx ge inp" "turn_inv dx hk" nodes_added
    "\<lambda>s. dispatched (gs_dispatch (fst (snd s))) (snd (snd s))" "max_dynamic_nodes (dx_limits dx)"
  for env hk dx cx ge inp
proof unfold_locales
  fix s t
  assume inv: "turn_inv dx hk s" and turn: "batch_turn env hk dx cx ge inp s = Inl t"
  obtain idx gs w where s: "s = (idx, gs, w)" by (metis prod.collapse)
  obtain idx' gs' w' where t: "t = (idx', gs', w')" by (metis prod.collapse)
  show "turn_inv dx hk t" using batch_turn_ok [OF inv turn] by blast
  show "dispatched (gs_dispatch (fst (snd s))) (snd (snd s)) + int (nodes_added s t) \<le> dispatched (gs_dispatch (fst (snd t))) (snd (snd t))"
    using grown_nodes [OF batch_turn_grown [OF inv [unfolded s] turn [unfolded s t]], of idx idx'] s t by simp
next
  fix s
  assume "turn_inv dx hk s"
  then show "dispatched (gs_dispatch (fst (snd s))) (snd (snd s)) \<le> max_dynamic_nodes (dx_limits dx)"
    by (auto simp: turn_inv_def state_ok_def intro: dispatched_le)
qed

text \<open>C7: However many turns a graph takes, and whatever its nodes do, dispatch and loop back in them, the nodes
  all its dispatches append to it, together with those the run had counted when it started, stay within
  \<open>max_dynamic_nodes\<close>: a node that is taken out again still counts, and so does one of a round that was thrown away.\<close>

theorem added_nodes_capped:
  assumes "turn_inv dx hk (idx, gs, w)"
  shows "dispatched (gs_dispatch gs) w + int (over_turns nodes_added (trace (batch_turn env hk dx cx ge inp) k (idx, gs, w)))
    \<le> max_dynamic_nodes (dx_limits dx)"
  using added.within [OF assms] by simp

text \<open>C13: However many turns a graph takes, and whatever happens in them (other loops, nested ones, dispatches, work
  that fails), a node sends it back fewer times than its \<open>max_loops\<close>, the times counted before the graph started
  (restored by a resume) included.\<close>

theorem rewinds_bounded:
  "int (over_turns (sends_back n) (trace (batch_turn env hk dx cx ge inp) k (idx, gs, w)))
    \<le> max 0 (nc_max_loops (config n) - 1 - int (rounds_counted n gs))"
  using rounds.within [where env = env and hk = hk and dx = dx and cx = cx and ge = ge and inp = inp and n = n and s = "(idx, gs, w)" and k = k] by (simp add: min_def max_def split: if_splits)

section \<open>Witnesses\<close>

text \<open>A step that always asks for another round.\<close>

definition insatiable :: node where
  "insatiable = agent_node ((config looping)\<lparr>nc_loop_condition := Some [(''source'', PStr ''check.status''), (''value'', PStr ''completed'')]\<rparr>) []"

definition round_graph :: graph_state where
  "round_graph = loop_state\<lparr>gs_batches := [[simple_node ''plan'' []], [simple_node ''build'' [''plan'']], [insatiable]], gs_outputs := []\<rparr>"

theorem rewinds_bounded_witness:
  "over_turns (sends_back insatiable) (trace (batch_turn quiet_env quiet_hooks plain_dx plain_context ''g'' []) 9 (0, round_graph, fresh_world)) = 2 \<and>
   int (over_turns (sends_back insatiable) (trace (batch_turn quiet_env quiet_hooks plain_dx plain_context ''g'' []) 9 (0, round_graph, fresh_world)))
     < nc_max_loops (config insatiable)"
proof -
  have "over_turns (sends_back insatiable) (trace (batch_turn quiet_env quiet_hooks plain_dx plain_context ''g'' []) 9 (0, round_graph, fresh_world)) = 2"
    by code_simp
  moreover have "nc_max_loops (config insatiable) = 3" "rounds_counted insatiable round_graph = 0" by code_simp+
  ultimately show ?thesis
    using rewinds_bounded [of insatiable quiet_env quiet_hooks plain_dx plain_context "''g''" "[]" 9 0 round_graph fresh_world]
    by simp
qed

lemma dispatcher_turn_inv: "turn_inv plain_dx quiet_hooks (0, (dispatcher_graph r)\<lparr>gs_outputs := []\<rparr>, fresh_world)"
  using quiet_call_ok
  by (simp add: turn_inv_def call_ok_def state_ok_def graph_ok_def dict_ok_def dispatcher_graph_def ptr_ok_def)

theorem added_nodes_capped_witness:
  "over_turns nodes_added (trace (batch_turn quiet_env quiet_hooks plain_dx plain_context ''g'' []) 5
      (0, (dispatcher_graph (plain_result COMPLETED))\<lparr>gs_outputs := []\<rparr>, fresh_world)) = 1 \<and> 1 \<le> max_dynamic_nodes default_limits"
proof -
  have one: "over_turns nodes_added (trace (batch_turn quiet_env quiet_hooks plain_dx plain_context ''g'' []) 5
      (0, (dispatcher_graph (plain_result COMPLETED))\<lparr>gs_outputs := []\<rparr>, fresh_world)) = 1" by code_simp
  have "dispatched (gs_dispatch ((dispatcher_graph (plain_result COMPLETED))\<lparr>gs_outputs := []\<rparr>)) fresh_world = 0" by code_simp
  with one show ?thesis
    using added_nodes_capped [OF dispatcher_turn_inv, of "plain_result COMPLETED" quiet_env plain_context "''g''" "[]" 5]
    by (simp add: plain_dx_def)
qed

theorem dispatch_keeps_caps_witness:
  "\<exists>gs' w' old new. apply_declarative_dispatch quiet_env plain_dx plain_context None None fixed_dispatcher (plain_result COMPLETED) []
      (dispatcher_graph (plain_result COMPLETED)) fresh_world = (None, gs', w') \<and>
     gs_batches gs' = old @ new \<and> map name_of (concat new) = [''worker''] \<and> depth_of (gs_dispatch gs') w' ''worker'' = 1"
proof -
  have "case apply_declarative_dispatch quiet_env plain_dx plain_context None None fixed_dispatcher (plain_result COMPLETED) []
      (dispatcher_graph (plain_result COMPLETED)) fresh_world of (err, gs', w') \<Rightarrow> err = None \<and> map (map name_of) (gs_batches gs') = [[''boss''], [''worker'']]"
    by code_simp
  then obtain gs' w' where ap: "apply_declarative_dispatch quiet_env plain_dx plain_context None None fixed_dispatcher (plain_result COMPLETED) []
      (dispatcher_graph (plain_result COMPLETED)) fresh_world = (None, gs', w')" and bs: "map (map name_of) (gs_batches gs') = [[''boss''], [''worker'']]"
    by (auto split: prod.splits)
  have pre: "\<forall>s \<in> set (w_dispatch fresh_world). caps_ok (dx_limits plain_dx) s" "graph_ok (dispatcher_graph (plain_result COMPLETED))"
      "0 \<le> max_dynamic_nodes (dx_limits plain_dx)"
    by (simp_all add: fresh_world_def graph_ok_def dispatcher_graph_def dict_ok_def plain_dx_def default_limits_def)
  have d0: "depth_of (gs_dispatch (dispatcher_graph (plain_result COMPLETED))) fresh_world (name_of fixed_dispatcher) = 0" by code_simp
  obtain old new where on: "gs_batches gs' = old @ new" "list_all2 (\<lambda>b b'. subseq b' b) (gs_batches (dispatcher_graph (plain_result COMPLETED))) old"
      "\<forall>m \<in> set (concat new). depth_of (gs_dispatch gs') w' (name_of m) = 1"
    using dispatch_keeps_caps [OF ap pre] d0 by auto
  have "length old = 1" using list_all2_lengthD [OF on(2)] by (simp add: dispatcher_graph_def)
  then have "map (map name_of) new = [[''worker'']]" using bs on(1) by (cases old) auto
  then have new: "map name_of (concat new) = [''worker'']" by (simp add: map_concat)
  then have "''worker'' \<in> name_of ` set (concat new)" by (metis list.set_intros(1) set_map)
  then have "depth_of (gs_dispatch gs') w' ''worker'' = 1" using on(3) by force
  with ap on(1) new show ?thesis by (intro exI [of _ gs'] exI [of _ w'] exI [of _ old] exI [of _ new] conjI)
qed

end
