(* ===== verification/Stage_Run.thy ===== *)
theory Stage_Run
  imports Runs
begin

text \<open>
  What the executor calls \<open>node.run\<close>: an agent node runs its agent and tries again when it said nothing
  (\<^verbatim>\<open>temper_ai/stage/agent_node.py\<close>); a stage node lets its declared inputs in, runs its children with the same
  executor and lets its declared outputs out (\<^verbatim>\<open>temper_ai/stage/stage_node.py\<close>). With these the executor's
  parameter \<open>hk_run\<close> is the program's own, and graphs nest. Declared defaults of inputs
  (\<^verbatim>\<open>temper_ai/stage/input_defaults.py\<close>) are filled in where inputs are accepted.

  The agents themselves, nodes of other classes and the wait at a gate stay parameters (\<open>agents\<close>). The
  nesting is limited by a number, as it is by the interpreter's recursion limit: a stage that is deeper
  raises.
\<close>

section \<open>Declared defaults\<close>

definition is_missing :: "pyval \<Rightarrow> bool" where
  "is_missing v = (v = PNone \<or> v = PStr [])"

definition declared_default :: "pyval \<Rightarrow> pyval option" where
  "declared_default spec =
     (case spec of
        PDict d \<Rightarrow> (case dget_or d ''default'' PNone of PNone \<Rightarrow> None | v \<Rightarrow> Some v)
      | _ \<Rightarrow> None)"

definition with_default :: "pyval \<Rightarrow> pyval \<Rightarrow> pyval" where
  "with_default spec v = (case declared_default spec of Some d \<Rightarrow> if is_missing v then d else v | None \<Rightarrow> v)"

definition fill_one :: "string \<Rightarrow> pyval \<Rightarrow> pyval dict \<Rightarrow> pyval dict" where
  "fill_one name spec filled =
     (let v = with_default spec (dget_or filled name PNone)
      in if v \<noteq> PNone \<or> dhas name filled then dset name v filled else filled)"

fun fill_each :: "(string \<times> pyval) list \<Rightarrow> pyval dict \<Rightarrow> pyval dict" where
  "fill_each [] filled = filled"
| "fill_each ((name, spec) # rest) filled = fill_each rest (fill_one name spec filled)"

definition fill_input_defaults :: "pyval \<Rightarrow> pyval dict option \<Rightarrow> pyval dict" where
  "fill_input_defaults declared inputs =
     (let filled = (case inputs of None \<Rightarrow> [] | Some d \<Rightarrow> d)
      in case declared of PDict specs \<Rightarrow> fill_each specs filled | _ \<Rightarrow> filled)"

section \<open>Agent nodes\<close>

text \<open>
  \<open>ag_create\<close> is \<open>create_agent\<close>, giving the agent's name; \<open>ag_run\<close> the agent's own run, told which attempt this is.
\<close>

record agents =
  ag_create :: "pyval dict \<Rightarrow> string res"
  ag_run :: "pyval dict \<Rightarrow> string \<Rightarrow> nat \<Rightarrow> pyval dict \<Rightarrow> exec_context \<Rightarrow> nat option \<Rightarrow> world \<Rightarrow> agent_result outcome \<times> world"
  ag_other :: "node \<Rightarrow> pyval dict \<Rightarrow> exec_context \<Rightarrow> nat option \<Rightarrow> world \<Rightarrow> node_result outcome \<times> world"
  ag_no_stage_timeout :: "node \<Rightarrow> bool"
  ag_gate :: "node \<Rightarrow> exec_context \<Rightarrow> string \<Rightarrow> node_result dict \<Rightarrow> world \<Rightarrow> pyval dict option outcome \<times> world"

definition MAX_RETRIES :: nat where "MAX_RETRIES = 2"

definition wrap_agent_result :: "rat \<Rightarrow> agent_result \<Rightarrow> node_result" where
  "wrap_agent_result duration r =
     NodeResult (ar_status r) (ar_output r) (ar_structured_output r) [r] [] (ar_cost_usd r) (total_tokens (ar_tokens r)) duration
       (ar_error r) []"

text \<open>Nothing was said, and nothing says why.\<close>

definition said_nothing :: "agent_result \<Rightarrow> bool" where
  "said_nothing r = (strip (ar_output r) = [] \<and> (case ar_error r of None \<Rightarrow> True | Some e \<Rightarrow> e = []))"

definition slept :: "world \<Rightarrow> world" where
  "slept w = w\<lparr>w_tick := Suc (w_tick w)\<rparr>"

fun agent_attempts :: "run_env \<Rightarrow> (nat \<Rightarrow> world \<Rightarrow> agent_result outcome \<times> world) \<Rightarrow> rat \<Rightarrow> nat list \<Rightarrow> agent_result option \<Rightarrow> world
    \<Rightarrow> node_result outcome \<times> world" where
  "agent_attempts env run start [] last_result w =
     (let duration = re_monotonic env (w_tick w) - start
      in (Done (case last_result of
            Some r \<Rightarrow> wrap_agent_result duration r
          | None \<Rightarrow> with_duration duration (error_result FAILED ''Agent returned no result after retries'')), w))"
| "agent_attempts env run start (attempt # attempts) last_result w =
     (case run attempt w of
        (Done r, w) \<Rightarrow>
          if said_nothing r \<and> attempt < MAX_RETRIES then agent_attempts env run start attempts (Some r) (slept w)
          else (Done (wrap_agent_result (re_monotonic env (w_tick w) - start) r), w)
      | (Parked p, w) \<Rightarrow> (Parked p, w)
      | (Raised e, w) \<Rightarrow>
          if kind_of e = AdmissionRefused \<or> kind_of e = ReplacedByLaterAttempt then (Raised e, w)
          else if attempt < MAX_RETRIES then agent_attempts env run start attempts last_result (slept w)
          else (Done (with_duration (re_monotonic env (w_tick w) - start) (error_result FAILED (exn_str e))), w))"

definition agent_node_run :: "run_env \<Rightarrow> agents \<Rightarrow> node \<Rightarrow> pyval dict \<Rightarrow> exec_context \<Rightarrow> nat option \<Rightarrow> world \<Rightarrow> node_result outcome \<times> world" where
  "agent_node_run env ag n input_data cx ptr w =
     (case ag_create ag (agent_config n) of
        Inl e \<Rightarrow> (Raised e, w)
      | Inr agent \<Rightarrow>
          agent_attempts env (\<lambda>attempt. ag_run ag (agent_config n) agent attempt input_data (cx\<lparr>cx_node_path := step_path cx n\<rparr>) ptr)
            (re_monotonic env (w_tick w)) [1..<MAX_RETRIES + 1] None w)"

section \<open>Stage nodes\<close>

text \<open>\<open>_apply_input_gate\<close>: what goes in, and the required inputs that are missing.\<close>

fun gate_fields :: "(string \<times> pyval) list \<Rightarrow> pyval dict \<Rightarrow> pyval dict \<Rightarrow> string list \<Rightarrow> (pyval dict \<times> string list) res" where
  "gate_fields [] input_data gated missing = Inr (gated, missing)"
| "gate_fields ((local_name, source) # rest) input_data gated missing =
     (let own = dget_or input_data local_name PNone;
          go = (\<lambda>v m. gate_fields rest input_data (dset local_name v gated) m)
      in case source of
           PDict d \<Rightarrow>
             (let v = with_default source own
              in go v (if truthy (dget_or d ''required'' PNone) \<and> v = PNone then missing @ [local_name] else missing))
         | PStr s \<Rightarrow> if CHR ''.'' \<in> set s then go own missing else go (dget_or input_data s PNone) missing
         | PList xs \<Rightarrow> if py_in (PStr ''.'') xs then go own missing
                       else raise TypeError (''unhashable type: '' @ quoted ''list'')
         | _ \<Rightarrow> raise TypeError (''argument of type '' @ quoted (type_name source) @ '' is not iterable''))"

definition apply_input_gate :: "node \<Rightarrow> pyval dict \<Rightarrow> pyval dict res" where
  "apply_input_gate n input_data =
     (case nc_inputs (config n) of
        Some (p # ps) \<Rightarrow>
          bind_res (gate_fields (p # ps) input_data [] []) (\<lambda>(gated, missing).
            if missing \<noteq> []
            then raise ValueError (''Stage '' @ quoted (name_of n) @ '' is missing required input(s): '' @ join '', '' (sort missing) @
                   ''. Add them to this node'' @ [CHR 0x27] @ ''s input_map.'')
            else Inr (if dhas ''gate'' input_data \<and> \<not> dhas ''gate'' gated then dset ''gate'' (dget_or input_data ''gate'' PNone) gated else gated))
      | _ \<Rightarrow> Inr input_data)"

text \<open>Declared outputs whose source names a child are collected by the sub-graph; the others are read off its result.\<close>

definition names_child :: "node \<Rightarrow> pyval \<Rightarrow> bool" where
  "names_child n source = (hd (split_dot (py_str source)) \<in> set (map name_of (child_nodes n)))"

definition declared_outputs :: "node \<Rightarrow> pyval dict" where
  "declared_outputs n = (case nc_outputs (config n) of None \<Rightarrow> [] | Some d \<Rightarrow> d)"

definition output_languages :: "node \<Rightarrow> pyval dict \<times> pyval dict" where
  "output_languages n = (filter (\<lambda>p. names_child n (snd p)) (declared_outputs n), filter (\<lambda>p. \<not> names_child n (snd p)) (declared_outputs n))"

fun walk_output :: "pyval \<Rightarrow> string list \<Rightarrow> pyval" where
  "walk_output v [] = v"
| "walk_output v (k # ks) = (case v of PDict d \<Rightarrow> walk_output (dget_or d k PNone) ks | _ \<Rightarrow> PNone)"

definition resolve_output_field :: "node_result \<Rightarrow> pyval \<Rightarrow> pyval res" where
  "resolve_output_field r source =
     (case source of
        PStr s \<Rightarrow>
          (let parts = split_dot s
           in Inr (if hd parts = ''output'' then PStr (nr_output r)
                   else if hd parts = ''structured'' \<and> 2 \<le> length parts
                   then (case nr_structured_output r of None \<Rightarrow> PNone | Some d \<Rightarrow> walk_output (PDict d) (tl parts))
                   else if hd parts = ''status'' then PStr (status_value (nr_status r))
                   else if hd parts = ''cost_usd'' then PFloat (nr_cost_usd r)
                   else PNone))
      | _ \<Rightarrow> raise AttributeError (quoted (type_name source) @ '' object has no attribute '' @ quoted ''split''))"

fun with_structured :: "pyval dict option \<Rightarrow> node_result \<Rightarrow> node_result" where
  "with_structured so (NodeResult st out _ ars nrs c t d e m) = NodeResult st out so ars nrs c t d e m"

definition apply_output_gate :: "node \<Rightarrow> node_result \<Rightarrow> pyval dict \<Rightarrow> bool \<Rightarrow> node_result res" where
  "apply_output_gate n r projected collected =
     (if declared_outputs n = [] then Inr r
      else bind_res (map_res (\<lambda>(name, source). bind_res (resolve_output_field r source) (\<lambda>v. Inr (name, v))) projected) (\<lambda>filtered.
        Inr (with_structured (Some (if collected then dmerge (case nr_structured_output r of None \<Rightarrow> [] | Some d \<Rightarrow> d) filtered
                                    else filtered)) r)))"

definition waits_under_timeout :: "agents \<Rightarrow> node \<Rightarrow> bool" where
  "waits_under_timeout ag n =
     ((case nc_timeout_seconds (config n) of None \<Rightarrow> False | Some t \<Rightarrow> t \<noteq> 0) \<and> list_ex (ag_no_stage_timeout ag) (child_nodes n))"

definition stage_context :: "node \<Rightarrow> exec_context \<Rightarrow> exec_context" where
  "stage_context n cx = cx\<lparr>cx_node_path := step_path cx n, cx_failure_policy := Some (policy_for (config n) (cx_failure_policy cx))\<rparr>"

definition stage_call :: "node \<Rightarrow> pyval dict \<Rightarrow> graph_call" where
  "stage_call n gated =
     (let collected = fst (output_languages n)
      in \<lparr>gc_nodes = child_nodes n, gc_input = gated, gc_name = name_of n, gc_is_workflow = False, gc_initial = None,
          gc_outputs = (if collected = [] then None else Some collected), gc_resume = None\<rparr>)"

type_synonym graph_runner = "graph_call \<Rightarrow> exec_context \<Rightarrow> nat option \<Rightarrow> world \<Rightarrow> (node_result outcome \<times> world) option"

definition NEVER_RETURNED :: exn where "NEVER_RETURNED = Exn OtherException ''the graph did not return''"

definition stage_node_run :: "run_env \<Rightarrow> agents \<Rightarrow> graph_runner \<Rightarrow> node \<Rightarrow> pyval dict \<Rightarrow> exec_context \<Rightarrow> nat option \<Rightarrow> world
    \<Rightarrow> node_result outcome \<times> world" where
  "stage_node_run env ag graph n input_data cx ptr w =
     (if waits_under_timeout ag n
      then let e = ''stage '' @ quoted (name_of n) @ '': timeout_seconds is not allowed here: the stage waits on the owner for as long as the owner takes''
           in (Done (error_result FAILED e),
               case cx_parent_event cx of Some (c # cs) \<Rightarrow> update_event (c # cs) ''failed'' [(''error'', PStr e)] w | _ \<Rightarrow> w)
      else case apply_input_gate n input_data of
        Inl e \<Rightarrow> (Raised e, w)
      | Inr gated \<Rightarrow>
          (case graph (stage_call n gated) (stage_context n cx) ptr w of
             None \<Rightarrow> (Raised NEVER_RETURNED, w)
           | Some (Done r, w') \<Rightarrow>
               (let r = with_duration (re_monotonic env (w_tick w') - re_monotonic env (w_tick w)) r
                in case apply_output_gate n r (snd (output_languages n)) (fst (output_languages n) \<noteq> []) of
                     Inl e \<Rightarrow> (Raised e, w')
                   | Inr r \<Rightarrow> (Done r, w'))
           | Some out \<Rightarrow> out))"

section \<open>Nested graphs\<close>

definition TOO_DEEP :: exn where "TOO_DEEP = Exn OtherException ''maximum recursion depth exceeded''"

fun node_run :: "run_env \<Rightarrow> agents \<Rightarrow> dispatch_env \<Rightarrow> nat \<Rightarrow> node \<Rightarrow> pyval dict \<Rightarrow> string \<Rightarrow> exec_context \<Rightarrow> nat option \<Rightarrow> world
    \<Rightarrow> node_result outcome \<times> world" where
  "node_run env ag dx 0 n resolved ev cx ptr w = (Raised TOO_DEEP, w)"
| "node_run env ag dx (Suc depth) n resolved ev cx ptr w =
     (let cx = cx\<lparr>cx_parent_event := Some ev\<rparr>
      in case node_kind n of
           AgentNode \<Rightarrow> agent_node_run env ag n resolved cx ptr w
         | StageNode \<Rightarrow>
             stage_node_run env ag (execute_graph env \<lparr>hk_run = node_run env ag dx depth, hk_gate = ag_gate ag\<rparr> dx) n resolved cx ptr w
         | OtherNode \<Rightarrow> ag_other ag n resolved cx ptr w)"

definition node_hooks :: "run_env \<Rightarrow> agents \<Rightarrow> dispatch_env \<Rightarrow> nat \<Rightarrow> hooks" where
  "node_hooks env ag dx depth = \<lparr>hk_run = node_run env ag dx depth, hk_gate = ag_gate ag\<rparr>"

text \<open>A whole run: the workflow's graph, with its stages run by the same executor.\<close>

definition run_graph :: "run_env \<Rightarrow> agents \<Rightarrow> dispatch_env \<Rightarrow> nat \<Rightarrow> graph_call \<Rightarrow> exec_context \<Rightarrow> nat option \<Rightarrow> world
    \<Rightarrow> (node_result outcome \<times> world) option" where
  "run_graph env ag dx depth = execute_graph env (node_hooks env ag dx depth) dx"

section \<open>A graph keeps the caps and the states it shares\<close>

lemma dispatch_world:
  assumes "apply_declarative_dispatch env dx cx pe ge n r inp gs w = (err, gs', w')" and "state_ok (dx_limits dx) gs w"
    and "0 \<le> max_dynamic_nodes (dx_limits dx)"
  shows "world_ok (dx_limits dx) w w'" and "state_ok (dx_limits dx) gs' w'"
  using dispatch_facts(1) [OF assms(1) _ _ assms(3)] dispatch_grows [OF assms(1) _ _ assms(3)] no_worse_dispatch [OF assms] assms(2)
  by (auto simp: world_ok_def state_ok_def no_worse_def)

lemma dispatch_results_world:
  assumes "0 \<le> max_dynamic_nodes (dx_limits dx)"
  shows "dispatch_results env dx cx ge inp rs gs w = (err, gs', w') \<Longrightarrow> state_ok (dx_limits dx) gs w \<Longrightarrow> world_ok (dx_limits dx) w w'"
proof (induction rs arbitrary: gs w)
  case Nil
  then show ?case by (auto simp: state_ok_def intro: world_ok_same)
next
  case (Cons p rs)
  obtain n r where p: "p = (n, r)" by fastforce
  obtain e1 gs1 w1 where ap: "apply_declarative_dispatch env dx cx (cx_parent_event cx) (Some ge) n r inp gs w = (e1, gs1, w1)"
    by (metis prod.collapse)
  note one = dispatch_world [OF ap Cons.prems(2) assms]
  show ?case
  proof (cases e1)
    case None
    then have "dispatch_results env dx cx ge inp rs gs1 w1 = (err, gs', w')" using Cons.prems(1) p ap by simp
    from Cons.IH [OF this one(2)] one(1) show ?thesis using world_ok_trans by blast
  qed (use Cons.prems(1) p ap one in auto)
qed

lemma keep_results_dispatch: "keep_results env pfx rs gs w = (gs', w') \<Longrightarrow> w_dispatch w' = w_dispatch w"
  by (induction rs arbitrary: gs w) fastforce+

definition world_after :: "loop_position + loop_end \<Rightarrow> world" where
  "world_after x = (case x of Inl (idx, gs, w) \<Rightarrow> w | Inr (out, gs, w) \<Rightarrow> w)"

lemma single_turn_world:
  assumes hk: "hooks_ok (dx_limits dx) hk" and lms: "0 \<le> max_dynamic_nodes (dx_limits dx)" and st: "state_ok (dx_limits dx) gs w"
  shows "world_ok (dx_limits dx) w (world_after (single_turn env hk dx cx ge inp n idx gs w))"
proof -
  obtain out w1 where ex: "execute_single_node env hk inp cx ge gs n w = (out, w1)" by fastforce
  have ok1: "world_ok (dx_limits dx) w w1" using execute_single_node_ok [OF hk ex] st by (simp add: state_ok_def)
  show ?thesis
  proof (cases out)
    case (Done r)
    let ?gs = "put_output n r gs" and ?w = "record_outcome env (cp_prefix_of cx) n r w1"
    obtain e gs3 w3 where ap: "apply_declarative_dispatch env dx cx (cx_parent_event cx) (Some ge) n r inp ?gs ?w = (e, gs3, w3)"
      by (metis prod.collapse)
    have "state_ok (dx_limits dx) gs w1" using no_worse_world [OF st ok1] by (simp add: no_worse_def)
    then have "state_ok (dx_limits dx) ?gs ?w" using no_worse_put [of _ gs w1 ?w n r] by (simp add: no_worse_def)
    from dispatch_world(1) [OF ap this lms] have ok3: "world_ok (dx_limits dx) w w3"
      using ok1 world_ok_then [OF ok1, of ?w] world_ok_trans by fastforce
    obtain rw r4 gs4 w4 where hl: "handle_loop env (cp_prefix_of cx) n r inp gs3 w3 = (rw, r4, gs4, w4)" by (metis prod.collapse)
    then have "w_dispatch w4 = w_dispatch w3" using handle_loop_dispatch by blast
    then have "w_dispatch (world_after (single_turn env hk dx cx ge inp n idx gs w)) = w_dispatch w3"
      using ex Done ap hl by (cases e; cases rw) (auto simp: single_turn_def world_after_def Let_def)
    then show ?thesis using ok3 world_ok_then by blast
  qed (use ex ok1 in \<open>auto simp: single_turn_def world_after_def\<close>)
qed

lemma parallel_turn_world:
  assumes hk: "hooks_ok (dx_limits dx) hk" and lms: "0 \<le> max_dynamic_nodes (dx_limits dx)" and st: "state_ok (dx_limits dx) gs w"
  shows "world_ok (dx_limits dx) w (world_after (parallel_turn env hk dx cx ge inp ns idx gs w))"
proof -
  obtain how rs w1 where ex: "execute_parallel_batch env hk inp cx ge gs ns w = (how, rs, w1)" by (metis prod.collapse)
  obtain gs2 w2 where k: "keep_results env (cp_prefix_of cx) rs gs w1 = (gs2, w2)" by fastforce
  obtain e gs3 w3 where d: "dispatch_results env dx cx ge inp rs gs2 w2 = (e, gs3, w3)" by (metis prod.collapse)
  have ok1: "world_ok (dx_limits dx) w w1" using execute_parallel_batch_ok [OF hk ex] st by (simp add: state_ok_def)
  then have "state_ok (dx_limits dx) gs w1" using no_worse_world [OF st] by (simp add: no_worse_def)
  then have "state_ok (dx_limits dx) gs2 w2" using no_worse_keep_results [OF k] by (simp add: no_worse_def)
  from dispatch_results_world [OF lms d this] have "world_ok (dx_limits dx) w w3"
    using world_ok_then [OF ok1 keep_results_dispatch [OF k]] world_ok_trans by blast
  with ok1 show ?thesis using ex k d by (cases how; cases e) (auto simp: parallel_turn_def world_after_def)
qed

lemma batch_turn_world:
  assumes "turn_inv dx hk (idx, gs, w)"
  shows "world_ok (dx_limits dx) w (world_after (batch_turn env hk dx cx ge inp (idx, gs, w)))"
proof -
  obtain c w1 where c: "check_cancelled env w = (c, w1)" by fastforce
  then have w1: "w_dispatch w1 = w_dispatch w" by (metis snd_conv world_sels(22))
  have hk: "hooks_ok (dx_limits dx) hk" and lms: "0 \<le> max_dynamic_nodes (dx_limits dx)" and st: "state_ok (dx_limits dx) gs w"
    using assms by (auto simp: turn_inv_def)
  have ok1: "world_ok (dx_limits dx) w w1" using w1 st by (intro world_ok_same) (auto simp: state_ok_def)
  then have st1: "state_ok (dx_limits dx) gs w1" using no_worse_world [OF st] by (simp add: no_worse_def)
  have here: "world_ok (dx_limits dx) w w" using st by (intro world_ok_same) (auto simp: state_ok_def)
  show ?thesis
    using c ok1 here world_ok_trans [OF ok1 single_turn_world [OF hk lms st1]] world_ok_trans [OF ok1 parallel_turn_world [OF hk lms st1]]
    by (auto simp: batch_turn_def world_after_def Let_def split: bool.splits)
qed

lemma world_after_sel [simp]: "world_after (Inl pos) = snd (snd pos)" "world_after (Inr r) = snd (snd r)"
  by (simp_all add: world_after_def split: prod.splits)

lemma run_batches_world:
  assumes "run_batches env hk dx cx ge inp gs w = Some how" and "turn_inv dx hk (0, gs, w)"
  shows "world_ok (dx_limits dx) w (snd (snd how))"
proof -
  let ?P = "\<lambda>pos. turn_inv dx hk pos \<and> world_ok (dx_limits dx) w (snd (snd pos))"
  have start: "world_ok (dx_limits dx) w w" using assms(2) by (intro world_ok_same) (auto simp: turn_inv_def state_ok_def)
  have after: "world_ok (dx_limits dx) w (world_after (batch_turn env hk dx cx ge inp pos))" if "?P pos" for pos
    using that batch_turn_world [of dx hk "fst pos" "fst (snd pos)" "snd (snd pos)"] world_ok_trans by (metis prod.collapse)
  show ?thesis
  proof (rule iterate_invariant [where P = ?P, OF assms(1) [unfolded run_batches_def]])
    show "?P pos'" if "?P pos" "batch_turn env hk dx cx ge inp pos = Inl pos'" for pos pos'
      using that after [OF that(1)] batch_turn_ok [OF _ that(2)] by simp
    show "world_ok (dx_limits dx) w (snd (snd r))" if "?P pos" "batch_turn env hk dx cx ge inp pos = Inr r" for pos r
      using that after [OF that(1)] by simp
  qed (use assms(2) start in simp)
qed

lemma end_graph_dispatch: "end_graph env cx flag nodes inp start ge kept e gs w = (r, w') \<Longrightarrow> w_dispatch w' = w_dispatch w"
  by (auto simp: end_graph_def settle_run_def Let_def split: prod.splits option.splits if_splits)

lemma settle_run_dispatch: "settle_run env cx nodes outs inp w = (sn, w') \<Longrightarrow> w_dispatch w' = w_dispatch w"
  by (auto simp: settle_run_def Let_def split: prod.splits option.splits if_splits)

lemma close_graph_dispatch:
  "close_graph env gc cx nodes start ge kept (out, gs, w) = (r, w') \<Longrightarrow> w_dispatch w' = w_dispatch w"
  by (auto simp: close_graph_def build_final_result_def note_parked_def Let_def dest: end_graph_dispatch settle_run_dispatch
      split: prod.splits option.splits if_splits outcome.splits bool.splits)

lemma execute_graph_world:
  assumes call: "call_ok dx hk ptr w" and ex: "execute_graph env hk dx gc cx ptr w = Some (out, w')"
  shows "world_ok (dx_limits dx) w w'"
  using call
proof (cases rule: execute_graph_cases [where env = env and gc = gc and cx = cx])
  case (refused e w2)
  then show ?thesis using ex call by (auto simp: call_ok_def intro: world_ok_same)
next
  case (started cx1 nodes gs w3 start ge)
  then obtain how where how: "run_batches env hk dx cx1 ge (gc_input gc) gs w3 = Some how" using ex by (auto split: option.splits)
  obtain o2 w4 where cl: "close_graph env gc cx1 nodes start ge (map snd (gs_outputs gs)) how = (o2, w4)" by fastforce
  then have "w_dispatch w4 = w_dispatch (snd (snd how))" using close_graph_dispatch by (metis prod.collapse)
  moreover have "w_dispatch w' = w_dispatch w4" using ex started(3) how cl by (auto simp: forget_at_end_def)
  moreover have "world_ok (dx_limits dx) w3 (snd (snd how))" by (rule run_batches_world [OF how started(1)])
  moreover have "world_ok (dx_limits dx) w w3" using started(2) call by (auto simp: call_ok_def intro: world_ok_same)
  ultimately show ?thesis using world_ok_trans world_ok_then by metis
qed

section \<open>Nested graphs end\<close>

text \<open>What is relied on of the agents: that they keep the caps, and take nothing back that was dispatched.\<close>

definition agents_ok :: "dispatch_limits \<Rightarrow> agents \<Rightarrow> bool" where
  "agents_ok lms ag \<longleftrightarrow>
     (\<forall>conf name attempt inp cx ptr w out w'. ag_run ag conf name attempt inp cx ptr w = (out, w') \<longrightarrow> heap_ok lms w \<longrightarrow> ptr_ok ptr w \<longrightarrow> world_ok lms w w') \<and>
     (\<forall>n inp cx ptr w out w'. ag_other ag n inp cx ptr w = (out, w') \<longrightarrow> heap_ok lms w \<longrightarrow> ptr_ok ptr w \<longrightarrow> world_ok lms w w') \<and>
     (\<forall>n cx parent outs w out w'. ag_gate ag n cx parent outs w = (out, w') \<longrightarrow> heap_ok lms w \<longrightarrow> world_ok lms w w')"

lemma agents_okD:
  assumes "agents_ok lms ag"
  shows "ag_run ag conf name attempt inp cx ptr w = (out, w') \<Longrightarrow> heap_ok lms w \<Longrightarrow> ptr_ok ptr w \<Longrightarrow> world_ok lms w w'"
    and "ag_other ag n inp cx ptr w = (res, w') \<Longrightarrow> heap_ok lms w \<Longrightarrow> ptr_ok ptr w \<Longrightarrow> world_ok lms w w'"
    and "ag_gate ag n cx parent outs w = (answer, w') \<Longrightarrow> heap_ok lms w \<Longrightarrow> world_ok lms w w'"
  using assms [unfolded agents_ok_def, THEN conjunct1] assms [unfolded agents_ok_def, THEN conjunct2, THEN conjunct1]
    assms [unfolded agents_ok_def, THEN conjunct2, THEN conjunct2] by simp_all

lemma agent_attempts_world:
  assumes run: "\<And>a w out w'. run a w = (out, w') \<Longrightarrow> heap_ok lms w \<Longrightarrow> ptr_ok ptr w \<Longrightarrow> world_ok lms w w'"
  shows "agent_attempts env run start attempts last_result w = (out, w') \<Longrightarrow> heap_ok lms w \<Longrightarrow> ptr_ok ptr w \<Longrightarrow> world_ok lms w w'"
proof (induction attempts arbitrary: last_result w)
  case Nil
  then show ?case by (auto simp: Let_def intro: world_ok_same)
next
  case (Cons a attempts)
  obtain o1 w1 where one: "run a w = (o1, w1)" by fastforce
  have ok1: "world_ok lms w w1" using run [OF one] Cons.prems(2,3) by blast
  have "world_ok lms w (slept w1)" using ok1 by (rule world_ok_then) (simp add: slept_def)
  moreover from this have "heap_ok lms (slept w1)" "ptr_ok ptr (slept w1)" using heap_grows_ptr Cons.prems(3) by (auto simp: world_ok_def)
  ultimately have again: "world_ok lms w w'" if "agent_attempts env run start attempts l (slept w1) = (out, w')" for l
    using Cons.IH [OF that] world_ok_trans by blast
  show ?case using Cons.prems(1) one ok1 again by (auto split: outcome.splits if_splits)
qed

lemma agent_node_run_world:
  assumes ag: "agents_ok lms ag" and run: "agent_node_run env ag n inp cx ptr w = (out, w')" and heap: "heap_ok lms w" "ptr_ok ptr w"
  shows "world_ok lms w w'"
proof (cases "ag_create ag (agent_config n)")
  case (Inl e)
  then show ?thesis using run heap(1) by (auto simp: agent_node_run_def intro: world_ok_same)
next
  case (Inr agent)
  then have "agent_attempts env (\<lambda>attempt. ag_run ag (agent_config n) agent attempt inp (cx\<lparr>cx_node_path := step_path cx n\<rparr>) ptr)
      (re_monotonic env (w_tick w)) [1..<MAX_RETRIES + 1] None w = (out, w')"
    using run by (simp add: agent_node_run_def)
  from agent_attempts_world [OF agents_okD(1) [OF ag] this heap] show ?thesis .
qed

lemma stage_node_run_world:
  assumes run: "stage_node_run env ag graph n inp cx ptr w = (out, w')" and heap: "heap_ok lms w"
    and graph: "\<And>gc cx1 o1 w1. graph gc cx1 ptr w = Some (o1, w1) \<Longrightarrow> world_ok lms w w1"
  shows "world_ok lms w w'"
proof -
  have here: "world_ok lms w w" using heap by (intro world_ok_same) auto
  show ?thesis
  proof (cases "waits_under_timeout ag n")
    case True
    then have "w_dispatch w' = w_dispatch w"
      using run by (auto simp: stage_node_run_def Let_def split: option.splits list.splits)
    then show ?thesis using heap by (rule world_ok_same)
  next
    case go: False
    show ?thesis
    proof (cases "apply_input_gate n inp")
      case (Inl e)
      then show ?thesis using run go here by (simp add: stage_node_run_def)
    next
      case (Inr gated)
      show ?thesis
      proof (cases "graph (stage_call n gated) (stage_context n cx) ptr w")
        case None
        then show ?thesis using run go Inr here by (simp add: stage_node_run_def)
      next
        case (Some p)
        then obtain o1 w1 where g: "graph (stage_call n gated) (stage_context n cx) ptr w = Some (o1, w1)" by (cases p) simp
        then have "w' = w1" using run go Inr by (cases o1) (auto simp: stage_node_run_def Let_def split: sum.splits)
        then show ?thesis using graph [OF g] by simp
      qed
    qed
  qed
qed

lemma node_run_world:
  assumes ag: "agents_ok (dx_limits dx) ag" and lms: "0 \<le> max_dynamic_nodes (dx_limits dx)"
  shows "hooks_ok (dx_limits dx) (node_hooks env ag dx depth)"
proof (induction depth)
  case 0
  then show ?case using ag by (simp add: hooks_ok_def node_hooks_def agents_ok_def world_ok_def)
next
  case (Suc depth)
  have run: "world_ok (dx_limits dx) w w'"
    if run: "node_run env ag dx (Suc depth) n resolved ev cx ptr w = (out, w')" and heap: "heap_ok (dx_limits dx) w" "ptr_ok ptr w"
    for n resolved ev cx ptr w out w'
  proof (cases "node_kind n")
    case AgentNode
    then show ?thesis using run agent_node_run_world [OF ag _ heap] by simp
  next
    case OtherNode
    then have "ag_other ag n resolved (cx\<lparr>cx_parent_event := Some ev\<rparr>) ptr w = (out, w')" using run by simp
    then show ?thesis using heap agents_okD(2) [OF ag] by blast
  next
    case StageNode
    have "world_ok (dx_limits dx) w w1" if "execute_graph env (node_hooks env ag dx depth) dx gc cx1 ptr w = Some (o1, w1)" for gc cx1 o1 w1
      by (rule execute_graph_world [OF _ that]) (use Suc lms heap in \<open>simp add: call_ok_def\<close>)
    then show ?thesis using run StageNode stage_node_run_world [OF _ heap(1)] by (simp add: node_hooks_def)
  qed
  have gate: "world_ok (dx_limits dx) w w'" if "ag_gate ag n cx parent outs w = (out, w')" "heap_ok (dx_limits dx) w" for n cx parent outs w out w'
    using agents_okD(3) [OF ag] that by blast
  show ?case using run gate unfolding hooks_ok_def node_hooks_def world_ok_def by simp
qed

text \<open>A run ends with all its stages. However deep the stages nest, whatever agents dispatch into them and however
  often steps send their graph back, running the graph with the program's own nodes comes back: no stage
  is left in the branch of a graph that did not return.\<close>

theorem nested_graphs_return:
  assumes "agents_ok (dx_limits dx) ag" and "0 \<le> max_dynamic_nodes (dx_limits dx)" and "heap_ok (dx_limits dx) w" and "ptr_ok ptr w"
  shows "\<exists>out w'. run_graph env ag dx depth gc cx ptr w = Some (out, w')"
proof -
  have "call_ok dx (node_hooks env ag dx depth) ptr w" using assms node_run_world by (simp add: call_ok_def)
  then show ?thesis
  proof (cases rule: execute_graph_cases [where env = env and gc = gc and cx = cx])
    case (started cx1 nodes gs w3 start ge)
    from started(1) obtain how where "run_batches env (node_hooks env ag dx depth) dx cx1 ge (gc_input gc) gs w3 = Some how"
      using batch_loop.returns unfolding run_batches_def by blast
    then show ?thesis using started(3) by (auto simp: run_graph_def split: prod.splits)
  qed (simp add: run_graph_def)
qed

section \<open>Filling defaults\<close>

lemma with_default_twice: "with_default spec (with_default spec v) = with_default spec v"
  by (simp add: with_default_def split: option.splits)

lemma fill_one_sels:
  "dget_or (fill_one name spec d) name PNone = with_default spec (dget_or d name PNone)"
  "k \<noteq> name \<Longrightarrow> dget (fill_one name spec d) k = dget d k"
  "dget d k = Some v \<Longrightarrow> \<not> is_missing v \<Longrightarrow> dget (fill_one name spec d) k = Some v"
  "with_default spec (dget_or d name PNone) = dget_or d name PNone \<Longrightarrow> fill_one name spec d = d"
  by (auto simp: fill_one_def with_default_def dget_or_def dhas_def Let_def update_triv split: option.splits)

lemma fill_each_other: "name \<notin> fst ` set specs \<Longrightarrow> dget (fill_each specs d) name = dget d name"
  by (induction specs d rule: fill_each.induct) (auto simp: fill_one_sels)

lemma fill_each_keeps: "dget d k = Some v \<Longrightarrow> \<not> is_missing v \<Longrightarrow> dget (fill_each specs d) k = Some v"
  by (induction specs d rule: fill_each.induct) (auto simp: fill_one_sels)

lemma fill_each_stable:
  "\<forall>p \<in> set specs. with_default (snd p) (dget_or d (fst p) PNone) = dget_or d (fst p) PNone \<Longrightarrow> fill_each specs d = d"
  by (induction specs d rule: fill_each.induct) (auto simp: fill_one_sels(4))

lemma fill_each_filled:
  assumes "dict_ok specs" and "(name, spec) \<in> set specs"
  shows "with_default spec (dget_or (fill_each specs d) name PNone) = dget_or (fill_each specs d) name PNone"
  using assms
proof (induction specs d rule: fill_each.induct)
  case (2 n s rest d)
  have rest: "n \<notin> fst ` set rest" "dict_ok rest" using 2(2) by (auto simp: dict_ok_def)
  show ?case
  proof (cases "(name, spec) = (n, s)")
    case True
    have "dget_or (fill_each rest (fill_one n s d)) n PNone = dget_or (fill_one n s d) n PNone"
      using fill_each_other [OF rest(1)] by (simp add: dget_or_def)
    then show ?thesis using True with_default_twice by (simp add: fill_one_sels(1))
  next
    case False
    then show ?thesis using 2(1) [OF rest(2)] 2(3) by auto
  qed
qed simp

text \<open>Filling defaults twice changes nothing, so every place that accepts a run's inputs can fill them and get the
  same answer; and filling touches only declared inputs that were left out, null or empty.\<close>

theorem fill_input_defaults_idem:
  assumes "dict_ok specs"
  shows "fill_input_defaults (PDict specs) (Some (fill_input_defaults (PDict specs) inputs)) = fill_input_defaults (PDict specs) inputs \<and>
    (\<forall>name v. inputs \<noteq> None \<and> dget (the inputs) name = Some v \<and> \<not> is_missing v \<longrightarrow> dget (fill_input_defaults (PDict specs) inputs) name = Some v)"
proof -
  have "fill_each specs (fill_each specs d) = fill_each specs d" for d
    by (rule fill_each_stable) (use fill_each_filled [OF assms] in auto)
  then show ?thesis using fill_each_keeps by (auto simp: fill_input_defaults_def split: option.splits)
qed

section \<open>What enters and leaves a stage\<close>

definition gate_value :: "pyval dict \<Rightarrow> string \<Rightarrow> pyval \<Rightarrow> pyval" where
  "gate_value input_data local_name source =
     (case source of
        PDict d \<Rightarrow> with_default source (dget_or input_data local_name PNone)
      | PStr s \<Rightarrow> dget_or input_data (if CHR ''.'' \<in> set s then local_name else s) PNone
      | _ \<Rightarrow> dget_or input_data local_name PNone)"

definition is_required :: "pyval \<Rightarrow> bool" where
  "is_required source = (case source of PDict d \<Rightarrow> truthy (dget_or d ''required'' PNone) | _ \<Rightarrow> False)"

lemma gate_fields_step:
  assumes "gate_fields ((k, source) # rest) inp gated missing = Inr r"
  shows "gate_fields rest inp (dset k (gate_value inp k source) gated)
    (if is_required source \<and> gate_value inp k source = PNone then missing @ [k] else missing) = Inr r"
  using assms by (cases source) (auto simp: gate_value_def is_required_def Let_def split: if_splits)

lemma gate_fields_exact:
  "gate_fields ds inp gated missing = Inr (gated', missing') \<Longrightarrow> dict_ok ds \<Longrightarrow>
     (\<forall>k. dget gated' k = (case dget ds k of None \<Rightarrow> dget gated k | Some source \<Rightarrow> Some (gate_value inp k source))) \<and>
     set missing' = set missing \<union> {k. \<exists>source. dget ds k = Some source \<and> is_required source \<and> gate_value inp k source = PNone}"
proof (induction ds arbitrary: gated missing)
  case (Cons p rest)
  obtain k source where p: "p = (k, source)" by fastforce
  have rest: "dget rest k = None" "dict_ok rest" using Cons.prems(2) p by (auto simp: dict_ok_def map_of_eq_None_iff)
  from Cons.IH [OF gate_fields_step [OF Cons.prems(1) [unfolded p]] rest(2)] show ?case
    using rest(1) p by (auto split: option.splits if_splits)
qed simp

text \<open>A stage with declared inputs lets in exactly those: each under its own name with the value of its source (a
  declared default in place of a missing one), and beside them only what a person said at the stage's gate. No
  required input is missing: if one is, nothing enters and the stage raises.\<close>

theorem input_gate_exact:
  assumes "nc_inputs (config n) = Some ds" and "ds \<noteq> []" and "dict_ok ds" and "apply_input_gate n inp = Inr gated"
  shows "(\<forall>k. dget gated k = (case dget ds k of Some source \<Rightarrow> Some (gate_value inp k source)
            | None \<Rightarrow> if k = ''gate'' then dget inp ''gate'' else None)) \<and>
    (\<forall>k source. dget ds k = Some source \<and> is_required source \<longrightarrow> gate_value inp k source \<noteq> PNone)"
proof -
  obtain p ps where ds: "ds = p # ps" using assms(2) by (cases ds) auto
  obtain g m where gf: "gate_fields ds inp [] [] = Inr (g, m)"
    using assms(1,4) ds by (cases "gate_fields ds inp [] []") (auto simp: apply_input_gate_def)
  then have res: "m = []" "gated = (if dhas ''gate'' inp \<and> \<not> dhas ''gate'' g then dset ''gate'' (dget_or inp ''gate'' PNone) g else g)"
    using assms(1,4) ds by (cases "m = []"; simp add: apply_input_gate_def)+
  note ex = gate_fields_exact [OF gf assms(3)]
  have "\<forall>k source. dget ds k = Some source \<and> is_required source \<longrightarrow> gate_value inp k source \<noteq> PNone" using ex res(1) by auto
  moreover have "dget gated k = (case dget ds k of Some source \<Rightarrow> Some (gate_value inp k source)
            | None \<Rightarrow> if k = ''gate'' then dget inp ''gate'' else None)" for k
    using ex res(2) by (auto simp: dhas_def dget_or_def split: option.splits)
  ultimately show ?thesis by blast
qed

section \<open>Agents that say nothing\<close>

lemma attempts_of [simp]: "[Suc 0..<3] = [Suc 0, 2]"
  by (simp add: upt_rec)

text \<open>What an attempt cost that said nothing is lost: the agent is run again, and the node's result has the cost, the
  tokens and the agent result of the second attempt only.\<close>

theorem retry_forgets_cost:
  assumes "ag_create ag (agent_config n) = Inr agent"
    and "ag_run ag (agent_config n) agent 1 inp (cx\<lparr>cx_node_path := step_path cx n\<rparr>) ptr w = (Done r1, w1)" and "said_nothing r1"
    and "ag_run ag (agent_config n) agent 2 inp (cx\<lparr>cx_node_path := step_path cx n\<rparr>) ptr (slept w1) = (Done r2, w2)"
  shows "\<exists>r. agent_node_run env ag n inp cx ptr w = (Done r, w2) \<and> nr_cost_usd r = ar_cost_usd r2 \<and>
    nr_total_tokens r = total_tokens (ar_tokens r2) \<and> nr_agent_results r = [r2]"
  using assms by (simp add: agent_node_run_def wrap_agent_result_def MAX_RETRIES_def)

lemma agent_attempts_cong:
  "\<forall>a \<in> set as. run a = run' a \<Longrightarrow> agent_attempts env run start as l w = agent_attempts env run' start as l w"
  by (induction as arbitrary: l w) (simp_all split: prod.split outcome.split)

text \<open>An agent is run at most twice, and never again after it has answered, parked or found itself replaced. Whatever
  an agent would do on a third attempt, the node's result is the same.\<close>

theorem agent_runs_at_most_twice:
  assumes "\<forall>attempt \<in> {1, 2}. ag_run ag' (agent_config n) agent attempt = ag_run ag (agent_config n) agent attempt"
    and "ag_create ag (agent_config n) = Inr agent" and "ag_create ag' (agent_config n) = Inr agent"
  shows "agent_node_run env ag' n inp cx ptr w = agent_node_run env ag n inp cx ptr w \<and>
    (\<forall>out w1. ag_run ag (agent_config n) agent 1 inp (cx\<lparr>cx_node_path := step_path cx n\<rparr>) ptr w = (out, w1) \<and>
        (case out of Done r \<Rightarrow> \<not> said_nothing r | Parked p \<Rightarrow> True | Raised e \<Rightarrow> kind_of e \<in> {AdmissionRefused, ReplacedByLaterAttempt}) \<longrightarrow>
       snd (agent_node_run env ag n inp cx ptr w) = w1)"
proof -
  have "agent_node_run env ag' n inp cx ptr w = agent_node_run env ag n inp cx ptr w"
    using assms by (simp add: agent_node_run_def MAX_RETRIES_def del: agent_attempts.simps) (rule agent_attempts_cong, auto)
  then show ?thesis using assms(2) by (auto simp: agent_node_run_def MAX_RETRIES_def split: outcome.splits)
qed

section \<open>Witnesses\<close>

definition silent_result :: agent_result where
  "silent_result = \<lparr>ar_status = COMPLETED, ar_output = [], ar_structured_output = None,
     ar_tokens = \<lparr>prompt_tokens = 1, completion_tokens = 0, total_tokens = 1\<rparr>, ar_cost_usd = 2, ar_duration_seconds = 0,
     ar_memories_formed = [], ar_error = None, ar_llm_calls = 1, ar_tool_calls = 0, ar_metadata = []\<rparr>"

definition plain_agents :: agents where
  "plain_agents = \<lparr>ag_create = (\<lambda>conf. Inr ''helper''),
     ag_run = (\<lambda>conf name attempt inp cx ptr w. (Done (if attempt = 1 then silent_result else silent_result\<lparr>ar_output := ''done'', ar_cost_usd := 1\<rparr>), w)),
     ag_other = (\<lambda>n inp cx ptr w. (Done (plain_result COMPLETED), w)), ag_no_stage_timeout = (\<lambda>n. False),
     ag_gate = (\<lambda>n cx parent outs w. (Done None, w))\<rparr>"

lemma plain_agents_ok: "agents_ok lms plain_agents"
  by (auto simp: agents_ok_def plain_agents_def intro: world_ok_same)

definition nested_call :: graph_call where
  "nested_call = \<lparr>gc_nodes = [stage_node ((default_config ''outer'')\<lparr>nc_type := ''stage''\<rparr>) [simple_node ''inner'' []]], gc_input = [], gc_name = ''flow'',
     gc_is_workflow = True, gc_initial = None, gc_outputs = None, gc_resume = None\<rparr>"

theorem nested_graphs_return_witness:
  "\<exists>out w'. run_graph quiet_env plain_agents plain_dx 5 nested_call plain_context None fresh_world = Some (out, w')"
  by (rule nested_graphs_return [OF plain_agents_ok]) (simp_all add: plain_dx_def default_limits_def fresh_world_def heap_ok_def ptr_ok_def)

text \<open>A workflow with a stage completes, and its cost is that of the agents' last attempts.\<close>

theorem nested_run_completes:
  "case run_graph quiet_env plain_agents plain_dx 5 nested_call plain_context None fresh_world of
     Some (Done r, w') \<Rightarrow> nr_status r = COMPLETED \<and> nr_cost_usd r = 1 | _ \<Rightarrow> False"
  by code_simp

definition goal_specs :: "pyval dict" where
  "goal_specs = [(''goal'', PDict [(''default'', PStr ''ship''), (''required'', PBool True)]), (''owner'', PStr ''user'')]"

theorem fill_input_defaults_idem_witness:
  "fill_input_defaults (PDict goal_specs) (Some (fill_input_defaults (PDict goal_specs) (Some [(''goal'', PStr [])])))
     = fill_input_defaults (PDict goal_specs) (Some [(''goal'', PStr [])])"
  using fill_input_defaults_idem [of goal_specs "Some [(''goal'', PStr [])]"] by (simp add: goal_specs_def dict_ok_def)

definition goal_stage :: node where
  "goal_stage = stage_node ((default_config ''build'')\<lparr>nc_inputs := Some goal_specs\<rparr>) []"

theorem input_gate_exact_witness:
  "\<exists>gated. apply_input_gate goal_stage [(''user'', PStr ''ann''), (''secret'', PStr ''x'')] = Inr gated \<and> dget gated ''secret'' = None"
proof -
  have "case apply_input_gate goal_stage [(''user'', PStr ''ann''), (''secret'', PStr ''x'')] of Inr g \<Rightarrow> True | Inl e \<Rightarrow> False" by code_simp
  then obtain gated where g: "apply_input_gate goal_stage [(''user'', PStr ''ann''), (''secret'', PStr ''x'')] = Inr gated"
    by (auto split: sum.splits)
  have "nc_inputs (config goal_stage) = Some goal_specs" "goal_specs \<noteq> []" "dict_ok goal_specs"
    by (simp_all add: goal_stage_def goal_specs_def dict_ok_def)
  from input_gate_exact [OF this g] g show ?thesis by (auto simp: goal_specs_def)
qed

theorem retry_forgets_cost_witness:
  "\<exists>r. agent_node_run quiet_env plain_agents (simple_node ''a'' []) [] plain_context None fresh_world = (Done r, slept fresh_world) \<and> nr_cost_usd r = 1"
  using retry_forgets_cost [of plain_agents "simple_node ''a'' []" "''helper''" "[]" plain_context None fresh_world silent_result fresh_world
      "silent_result\<lparr>ar_output := ''done'', ar_cost_usd := 1\<rparr>" "slept fresh_world" quiet_env]
  by (simp add: plain_agents_def said_nothing_def silent_result_def strip_def lstrip_def) blast

definition stubborn_agents :: agents where
  "stubborn_agents = plain_agents\<lparr>ag_run := (\<lambda>conf name attempt inp cx ptr w.
     if attempt < 3 then ag_run plain_agents conf name attempt inp cx ptr w else (Raised (Exn OtherException ''again''), slept w))\<rparr>"

theorem agent_runs_at_most_twice_witness:
  "agent_node_run quiet_env stubborn_agents (simple_node ''a'' []) [] plain_context None fresh_world
     = agent_node_run quiet_env plain_agents (simple_node ''a'' []) [] plain_context None fresh_world"
proof -
  have "\<forall>attempt \<in> {1, 2}. ag_run stubborn_agents conf name attempt = ag_run plain_agents conf name attempt" for conf name
    by (auto simp: stubborn_agents_def fun_eq_iff)
  then show ?thesis
    using agent_runs_at_most_twice [of stubborn_agents "simple_node ''a'' []" "''helper''" plain_agents]
    by (simp add: stubborn_agents_def plain_agents_def)
qed

end
