(* ===== verification/Safety.thy ===== *)
theory Safety
  imports Py_Prelude "HOL-Library.List_Lexorder" "HOL-Library.Char_ord"
begin

text \<open>
  Safety policies (\<^verbatim>\<open>temper_ai/safety\<close>): the three built-in policies with their configuration checks, and
  \<open>PolicyEngine\<close>, which asks them in order before an action and stops at the first one that denies it.

  A policy class is a record of what its methods do, so that a registry can hold classes the program does
  not know; the built-in classes are three such records. Regular expressions a workflow configures are a
  parameter (\<open>regex_lib\<close>); the expressions the program builds itself, from patterns, are matched here.
\<close>

section \<open>Reading a configuration\<close>

text \<open>A value used as a dictionary, and one used as a string.\<close>

fun py_dict :: "pyval \<Rightarrow> pyval dict res" where
  "py_dict (PDict d) = Inr d"
| "py_dict v = raise AttributeError (quoted (type_name v) @ '' object has no attribute '' @ quoted ''get'')"

fun py_lower :: "pyval \<Rightarrow> string res" where
  "py_lower (PStr s) = Inr (lower s)"
| "py_lower v = raise AttributeError (quoted (type_name v) @ '' object has no attribute '' @ quoted ''lower'')"

fun py_text :: "pyval \<Rightarrow> string res" where
  "py_text (PStr s) = Inr s"
| "py_text v = raise TypeError (''expected string, got '' @ type_name v)"

text \<open>\<open>x >= y\<close> where \<open>y\<close> is a number.\<close>

definition py_ge :: "pyval \<Rightarrow> pyval \<Rightarrow> bool res" where
  "py_ge x y =
     (case (as_number x, as_number y) of
        (Some a, Some b) \<Rightarrow> Inr (b \<le> a)
      | _ \<Rightarrow> raise TypeError (quoted ''>='' @ '' not supported between instances of '' @ quoted (type_name x) @ '' and '' @ quoted (type_name y)))"

text \<open>\<open>f"{x:.4f}"\<close> rounds half to even; \<open>f"{x:,}"\<close> groups the digits before the point by three.\<close>

definition round_even :: "rat \<Rightarrow> int" where
  "round_even q = (let f = \<lfloor>q\<rfloor>; r = q - of_int f in
     if r < 1 / 2 then f else if 1 / 2 < r then f + 1 else if even f then f else f + 1)"

definition fixed_str :: "nat \<Rightarrow> rat \<Rightarrow> string" where
  "fixed_str k q = (let n = nat (round_even (\<bar>q\<bar> * 10 ^ k)); ds = nat_digits n; ds = replicate (k + 1 - length ds) (CHR ''0'') @ ds
     in (if q < 0 then ''-'' else []) @ take (length ds - k) ds @ ''.'' @ drop (length ds - k) ds)"

fun group3 :: "string \<Rightarrow> string" where
  "group3 (a # b # c # d # ds) = a # b # c # CHR '','' # group3 (d # ds)"
| "group3 ds = ds"

definition grouped :: "string \<Rightarrow> string" where
  "grouped s = (let (sign, s) = (if startswith ''-'' s then (''-'', tl s) else ([], s));
       (before, after) = (takeWhile (\<lambda>c. c \<noteq> CHR ''.'') s, dropWhile (\<lambda>c. c \<noteq> CHR ''.'') s)
     in sign @ rev (group3 (rev before)) @ after)"

definition thousands :: "pyval \<Rightarrow> string" where
  "thousands v = (case v of
       PBool b \<Rightarrow> (if b then ''1'' else ''0'')
     | _ \<Rightarrow> grouped (py_str v))"

section \<open>Actions, decisions, policies\<close>

datatype action_type = TOOL_CALL | LLM_CALL | WORKFLOW_START | WORKFLOW_END | AGENT_OUTPUT

fun action_value :: "action_type \<Rightarrow> string" where
  "action_value TOOL_CALL = ''tool_call''"
| "action_value LLM_CALL = ''llm_call''"
| "action_value WORKFLOW_START = ''workflow_start''"
| "action_value WORKFLOW_END = ''workflow_end''"
| "action_value AGENT_OUTPUT = ''agent_output''"

fun action_name :: "action_type \<Rightarrow> string" where
  "action_name TOOL_CALL = ''TOOL_CALL''"
| "action_name LLM_CALL = ''LLM_CALL''"
| "action_name WORKFLOW_START = ''WORKFLOW_START''"
| "action_name WORKFLOW_END = ''WORKFLOW_END''"
| "action_name AGENT_OUTPUT = ''AGENT_OUTPUT''"

text \<open>\<open>sorted(actions)\<close> in a message.\<close>

definition actions_str :: "action_type list \<Rightarrow> string" where
  "actions_str as = ''['' @ join '', '' (map (\<lambda>a. ''<ActionType.'' @ action_name a @ '': '' @ quoted (action_value a) @ ''>'')
     (sort_key action_value (remdups as))) @ '']''"

record policy_decision =
  pd_action :: string
  pd_reason :: string
  pd_policy_name :: pyval
  pd_modified_params :: "pyval dict option"

definition decision :: "string \<Rightarrow> string \<Rightarrow> pyval \<Rightarrow> policy_decision" where
  "decision action reason name = \<lparr>pd_action = action, pd_reason = reason, pd_policy_name = name, pd_modified_params = None\<rparr>"

definition denied :: "policy_decision \<Rightarrow> bool" where
  "denied d = (pd_action d = ''deny'')"

text \<open>
  What a subclass of \<open>BasePolicy\<close> brings: its checks of a configuration, what its constructor does after the
  base class's, and \<open>evaluate\<close>, which reads the configuration and the policy's name.
\<close>

record policy_class =
  pc_name :: string
  pc_action_types :: "action_type list"
  pc_validate :: "pyval dict \<Rightarrow> string list res"
  pc_init :: "pyval dict \<Rightarrow> unit res"
  pc_evaluate :: "pyval dict \<Rightarrow> pyval \<Rightarrow> action_type \<Rightarrow> pyval dict \<Rightarrow> pyval dict \<Rightarrow> policy_decision res"

record policy =
  pl_class :: policy_class
  pl_config :: "pyval dict"
  pl_name :: pyval
  pl_enabled :: pyval

definition base_validate :: "pyval dict \<Rightarrow> string list" where
  "base_validate config = (if truthy (dget_or config ''type'' PNone) then [] else [''Policy config must have '' @ quoted ''type''])"

definition make_policy :: "policy_class \<Rightarrow> pyval dict \<Rightarrow> policy res" where
  "make_policy c config =
     bind_res (pc_validate c config) (\<lambda>errors.
       if errors \<noteq> [] then raise SafetyConfigError (''Invalid '' @ pc_name c @ '' config: '' @ join ''; '' errors)
       else bind_res (pc_init c config) (\<lambda>_.
         Inr \<lparr>pl_class = c, pl_config = config, pl_name = dget_or config ''name'' (PStr (pc_name c)),
              pl_enabled = dget_or config ''enabled'' (PBool True)\<rparr>))"

section \<open>File access\<close>

definition file_access_validate :: "pyval dict \<Rightarrow> string list res" where
  "file_access_validate config =
     Inr (base_validate config @
       (if \<not> truthy (dget_or config ''denied_paths'' PNone) \<and> \<not> truthy (dget_or config ''allowed_paths'' PNone)
        then [''FileAccessPolicy needs '' @ quoted ''denied_paths'' @ '' or '' @ quoted ''allowed_paths''] else []))"

definition DEFAULT_DENIED :: pyval where
  "DEFAULT_DENIED = PList [PStr ''.env'', PStr ''credentials'', PStr ''/etc/'', PStr ''/root/'']"

definition FILE_TOOLS :: "string list" where
  "FILE_TOOLS = [''bash'', ''file_writer'', ''filewriter'', ''fileedit'', ''file_edit'', ''fileappend'', ''file_append'', ''git'']"

text \<open>The first denied pattern that is in the path, and whether an allowed prefix starts it.\<close>

fun first_denied :: "pyval list \<Rightarrow> string \<Rightarrow> string option res" where
  "first_denied [] path = Inr None"
| "first_denied (v # vs) path =
     bind_res (py_text v) (\<lambda>d. if has_sub d path then Inr (Some d) else first_denied vs path)"

fun any_allowed :: "pyval list \<Rightarrow> string \<Rightarrow> bool res" where
  "any_allowed [] path = Inr False"
| "any_allowed (v # vs) path = bind_res (py_text v) (\<lambda>a. if startswith a path then Inr True else any_allowed vs path)"

definition target_path :: "pyval dict \<Rightarrow> pyval" where
  "target_path params = py_or (dget_or params ''file_path'' PNone)
     (py_or (dget_or params ''path'' PNone) (dget_or params ''command'' (PStr [])))"

definition file_access_evaluate :: "pyval dict \<Rightarrow> pyval \<Rightarrow> action_type \<Rightarrow> pyval dict \<Rightarrow> pyval dict \<Rightarrow> policy_decision res" where
  "file_access_evaluate config name action data ctx =
     bind_res (py_lower (dget_or data ''tool_name'' (PStr []))) (\<lambda>tool.
       if tool \<notin> set FILE_TOOLS then Inr (decision ''allow'' ''Not a file tool'' name)
       else bind_res (py_dict (dget_or data ''tool_params'' (PDict []))) (\<lambda>params.
         let path = py_str (target_path params);
             allowed = dget_or config ''allowed_paths'' (PList [])
         in bind_res (py_iter (dget_or config ''denied_paths'' DEFAULT_DENIED)) (\<lambda>ds.
            bind_res (first_denied ds path) (\<lambda>hit.
              case hit of
                Some d \<Rightarrow> Inr (decision ''deny'' (''Access to '' @ quoted path @ '' blocked (matches denied pattern '' @ quoted d @ '')'') name)
              | None \<Rightarrow>
                  if truthy allowed
                  then bind_res (py_iter allowed) (\<lambda>as. bind_res (any_allowed as path) (\<lambda>ok.
                    if ok then Inr (decision ''allow'' ''Path allowed'' name)
                    else Inr (decision ''deny'' (''Path '' @ quoted path @ '' not in allowed paths: '' @ py_str allowed) name)))
                  else Inr (decision ''allow'' ''Path allowed'' name)))))"

definition FileAccessPolicy :: policy_class where
  "FileAccessPolicy = \<lparr>pc_name = ''FileAccessPolicy'', pc_action_types = [TOOL_CALL], pc_validate = file_access_validate,
     pc_init = (\<lambda>_. Inr ()), pc_evaluate = file_access_evaluate\<rparr>"

section \<open>Forbidden operations\<close>

text \<open>\<open>re\<close> on the expressions a workflow configures: the error of one that does not compile, and a search that ignores case.\<close>

record regex_lib =
  rx_error :: "string \<Rightarrow> string option"
  rx_search :: "string \<Rightarrow> string \<Rightarrow> bool"

text \<open>\<open>\w\<close>, up to code point 255\<close>

definition word_char :: "char \<Rightarrow> bool" where
  "word_char c = (let n = of_char c :: nat in 48 \<le> n \<and> n \<le> 57 \<or> 65 \<le> n \<and> n \<le> 90 \<or> n = 95 \<or> 97 \<le> n \<and> n \<le> 122
     \<or> n \<in> {170, 178, 179, 181, 185, 186, 188, 189, 190} \<or> 192 \<le> n \<and> n \<noteq> 215 \<and> n \<noteq> 247)"

text \<open>\<open>^\w+$\<close>, where \<open>$\<close> also stands before a newline at the end\<close>

definition bare_word :: "string \<Rightarrow> bool" where
  "bare_word s = (let s = (if s \<noteq> [] \<and> last s = CHR 0x0A then butlast s else s) in s \<noteq> [] \<and> list_all word_char s)"

definition word_at :: "string \<Rightarrow> bool" where
  "word_at s = (case s of [] \<Rightarrow> False | c # cs \<Rightarrow> word_char c)"

text \<open>\<open>_pattern_regex(pattern).search(text)\<close>: the characters of the pattern, whatever their case, and for a bare word no word character on either side\<close>

fun search_from :: "bool \<Rightarrow> string \<Rightarrow> bool \<Rightarrow> string \<Rightarrow> bool" where
  "search_from whole p after_word s =
     (startswith (lower p) (lower s) \<and> (whole \<longrightarrow> \<not> after_word \<and> \<not> word_at (drop (length p) s)) \<or>
      (case s of [] \<Rightarrow> False | c # cs \<Rightarrow> search_from whole p (word_char c) cs))"

declare search_from.simps [simp del]

definition pattern_search :: "string \<Rightarrow> string \<Rightarrow> bool" where
  "pattern_search p s = search_from (bare_word p) p False s"

definition DEFAULT_FORBIDDEN :: "string list" where
  "DEFAULT_FORBIDDEN = [''rm -rf /'', ''rm -rf ~'', ''rm -rf .'', ''DROP TABLE'', ''DROP DATABASE'', ''TRUNCATE'', ''mkfs'', ''dd if='',
     ''> /dev/sd'', ''chmod 777'', ''curl | sh'', ''wget | sh'', ''curl | bash'', ''wget | bash'']"

definition PLATFORM_TRIPWIRE_PATTERNS :: "string list" where
  "PLATFORM_TRIPWIRE_PATTERNS = [''/var/run/docker.sock'', ''.credentials.json'']"

definition PLATFORM_TRIPWIRE_REGEXES :: "string list" where
  "PLATFORM_TRIPWIRE_REGEXES = [''/proc/[^/'' @ [CHR 0x5C] @ ''s]+/environ'']"

fun regex_errors :: "regex_lib \<Rightarrow> pyval list \<Rightarrow> string list res" where
  "regex_errors rx [] = Inr []"
| "regex_errors rx (v # vs) =
     bind_res (py_text v) (\<lambda>p. bind_res (regex_errors rx vs) (\<lambda>es.
       Inr (case rx_error rx p of None \<Rightarrow> es
            | Some e \<Rightarrow> (''forbidden_regexes entry '' @ repr_str p @ '' is not a valid regex: '' @ e) # es)))"

definition forbidden_ops_validate :: "regex_lib \<Rightarrow> pyval dict \<Rightarrow> string list res" where
  "forbidden_ops_validate rx config =
     bind_res (py_iter (dget_or config ''forbidden_regexes'' (PList []))) (\<lambda>vs.
       bind_res (regex_errors rx vs) (\<lambda>es. Inr (base_validate config @ es)))"

definition config_patterns :: "pyval dict \<Rightarrow> string list res" where
  "config_patterns config =
     bind_res (py_iter (dget_or config ''forbidden_patterns'' (PList (map PStr DEFAULT_FORBIDDEN)))) (map_res py_text)"

definition config_regexes :: "pyval dict \<Rightarrow> string list res" where
  "config_regexes config = bind_res (py_iter (dget_or config ''forbidden_regexes'' (PList []))) (map_res py_text)"

text \<open>The first of a list of tests that fires.\<close>

fun first_hit :: "('a \<Rightarrow> bool) \<Rightarrow> 'a list \<Rightarrow> 'a option" where
  "first_hit P [] = None"
| "first_hit P (x # xs) = (if P x then Some x else first_hit P xs)"

definition forbidden_ops_evaluate :: "regex_lib \<Rightarrow> pyval dict \<Rightarrow> pyval \<Rightarrow> action_type \<Rightarrow> pyval dict \<Rightarrow> pyval dict \<Rightarrow> policy_decision res" where
  "forbidden_ops_evaluate rx config name action data ctx =
     bind_res (py_lower (dget_or data ''tool_name'' (PStr []))) (\<lambda>tool.
       if tool \<notin> {''bash'', ''git''} then Inr (decision ''allow'' ''Not a shell tool'' name)
       else bind_res (py_dict (dget_or data ''tool_params'' (PDict []))) (\<lambda>params.
         bind_res (config_patterns config) (\<lambda>ps. bind_res (config_regexes config) (\<lambda>rs.
           if ps = [] \<and> rs = [] then Inr (decision ''allow'' ''Command allowed'' name)
           else bind_res (py_text (dget_or params ''command'' (PStr []))) (\<lambda>command.
             case first_hit (\<lambda>p. pattern_search p command) ps of
               Some p \<Rightarrow> Inr (decision ''deny'' (''Command contains forbidden pattern: '' @ quoted p) name)
             | None \<Rightarrow>
                 (case first_hit (\<lambda>r. rx_search rx r command) rs of
                    Some r \<Rightarrow> Inr (decision ''deny'' (''Command matches forbidden pattern: '' @ quoted r) name)
                  | None \<Rightarrow> Inr (decision ''allow'' ''Command allowed'' name)))))))"

definition ForbiddenOpsPolicy :: "regex_lib \<Rightarrow> policy_class" where
  "ForbiddenOpsPolicy rx = \<lparr>pc_name = ''ForbiddenOpsPolicy'', pc_action_types = [TOOL_CALL], pc_validate = forbidden_ops_validate rx,
     pc_init = (\<lambda>config. bind_res (config_patterns config) (\<lambda>_. bind_res (config_regexes config) (\<lambda>_. Inr ()))),
     pc_evaluate = forbidden_ops_evaluate rx\<rparr>"

section \<open>Budget\<close>

definition not_positive :: "string \<Rightarrow> pyval \<Rightarrow> string list res" where
  "not_positive field v =
     (if v = PNone then Inr []
      else case as_number v of
        None \<Rightarrow> raise TypeError (quoted ''<='' @ '' not supported between instances of '' @ quoted (type_name v) @ '' and '' @ quoted ''int'')
      | Some q \<Rightarrow> Inr (if q \<le> 0 then [field @ '' must be positive, got '' @ py_str v] else []))"

definition budget_validate :: "pyval dict \<Rightarrow> string list res" where
  "budget_validate config =
     (let max_cost = dget_or config ''max_cost_usd'' PNone; max_tokens = dget_or config ''max_tokens'' PNone
      in bind_res (not_positive ''max_cost_usd'' max_cost) (\<lambda>cs.
         bind_res (not_positive ''max_tokens'' max_tokens) (\<lambda>ts.
           Inr (base_validate config @
             (if max_cost = PNone \<and> max_tokens = PNone
              then [''BudgetPolicy needs '' @ quoted ''max_cost_usd'' @ '' or '' @ quoted ''max_tokens'' @ '' (or both)''] else []) @ cs @ ts))))"

definition over_limit :: "pyval \<Rightarrow> pyval \<Rightarrow> bool res" where
  "over_limit current limit = (if limit = PNone then Inr False else py_ge current limit)"

definition dollars :: "nat \<Rightarrow> pyval \<Rightarrow> string" where
  "dollars k v = ''$'' @ fixed_str k (case as_number v of None \<Rightarrow> 0 | Some q \<Rightarrow> q)"

definition budget_evaluate :: "pyval dict \<Rightarrow> pyval \<Rightarrow> action_type \<Rightarrow> pyval dict \<Rightarrow> pyval dict \<Rightarrow> policy_decision res" where
  "budget_evaluate config name action data ctx =
     (let max_cost = dget_or config ''max_cost_usd'' PNone; max_tokens = dget_or config ''max_tokens'' PNone;
          cost = dget_or ctx ''run_cost_usd'' (PFloat 0); tokens = dget_or ctx ''run_tokens'' (PInt 0)
      in if action = WORKFLOW_START
         then Inr (decision ''allow'' (''Budget configured: $'' @ py_str max_cost @ '' / '' @ py_str max_tokens @ '' tokens'') name)
         else bind_res (over_limit cost max_cost) (\<lambda>over.
           if over then Inr (decision ''deny'' (''Budget exceeded: '' @ dollars 4 cost @ '' >= '' @ dollars 2 max_cost) name)
           else bind_res (over_limit tokens max_tokens) (\<lambda>over.
             if over then Inr (decision ''deny'' (''Token limit exceeded: '' @ thousands tokens @ '' >= '' @ thousands max_tokens) name)
             else Inr (decision ''allow'' ''Within budget'' name))))"

definition BudgetPolicy :: policy_class where
  "BudgetPolicy = \<lparr>pc_name = ''BudgetPolicy'', pc_action_types = [TOOL_CALL, LLM_CALL, WORKFLOW_START], pc_validate = budget_validate,
     pc_init = (\<lambda>_. Inr ()), pc_evaluate = budget_evaluate\<rparr>"

section \<open>The engine\<close>

definition registry_with :: "string \<Rightarrow> policy_class \<Rightarrow> policy_class dict \<Rightarrow> policy_class dict" where
  "registry_with name c registry = dset name c registry"

definition POLICY_REGISTRY :: "regex_lib \<Rightarrow> policy_class dict" where
  "POLICY_REGISTRY rx = registry_with ''budget'' BudgetPolicy (registry_with ''forbidden_ops'' (ForbiddenOpsPolicy rx)
     (registry_with ''file_access'' FileAccessPolicy []))"

definition all_passed :: policy_decision where
  "all_passed = decision ''allow'' ''All policies passed'' (PStr ''engine'')"

text \<open>\<open>skip_types and policy.config.get("type") in skip_types\<close>\<close>

definition skips :: "pyval list \<Rightarrow> policy \<Rightarrow> bool res" where
  "skips skip_types p =
     (let t = dget_or (pl_config p) ''type'' PNone
      in if skip_types = [] then Inr False
         else if hashable t then Inr (py_in t skip_types)
         else raise TypeError (''unhashable type: '' @ quoted (type_name t)))"

fun evaluate :: "policy list \<Rightarrow> action_type \<Rightarrow> pyval dict \<Rightarrow> pyval dict \<Rightarrow> pyval list \<Rightarrow> policy_decision res" where
  "evaluate [] action data ctx skip_types = Inr all_passed"
| "evaluate (p # ps) action data ctx skip_types =
     (if \<not> truthy (pl_enabled p) \<or> action \<notin> set (pc_action_types (pl_class p)) then evaluate ps action data ctx skip_types
      else bind_res (skips skip_types p) (\<lambda>skipped.
        if skipped then evaluate ps action data ctx skip_types
        else bind_res (pc_evaluate (pl_class p) (pl_config p) (pl_name p) action data ctx) (\<lambda>d.
          if denied d then Inr d else evaluate ps action data ctx skip_types)))"

definition add_policy :: "policy \<Rightarrow> policy list \<Rightarrow> policy list" where
  "add_policy p ps = ps @ [p]"

definition available_types :: "policy_class dict \<Rightarrow> string" where
  "available_types registry = py_str (PList (map PStr (sort (dkeys registry))))"

text \<open>\<open>POLICY_REGISTRY\<close> looked up with whatever the configuration gives as type.\<close>

definition class_of_type :: "policy_class dict \<Rightarrow> pyval \<Rightarrow> policy_class option res" where
  "class_of_type registry t =
     (case t of PStr s \<Rightarrow> Inr (dget registry s)
      | _ \<Rightarrow> if hashable t then Inr None else raise TypeError (''unhashable type: '' @ quoted (type_name t)))"

definition policy_from :: "policy_class dict \<Rightarrow> pyval \<Rightarrow> policy res" where
  "policy_from registry v =
     bind_res (py_dict v) (\<lambda>config. let t = dget_or config ''type'' PNone in
       if \<not> truthy t then raise SafetyConfigError (''Policy config missing '' @ quoted ''type'' @ '' field'')
       else bind_res (class_of_type registry t) (\<lambda>found.
         case found of
           None \<Rightarrow> raise SafetyConfigError (''Unknown policy type: '' @ quoted (py_str t) @ ''. Available: '' @ available_types registry)
         | Some c \<Rightarrow> make_policy c config))"

definition configured :: "pyval dict \<Rightarrow> pyval list res" where
  "configured config = py_iter (dget_or config ''policies'' (PList []))"

definition from_config :: "policy_class dict \<Rightarrow> pyval dict \<Rightarrow> policy list res" where
  "from_config registry config = bind_res (configured config) (map_res (policy_from registry))"

definition BASELINE_POLICY_NAME :: string where "BASELINE_POLICY_NAME = ''platform_baseline''"

definition baseline_config :: "pyval dict" where
  "baseline_config = [(''type'', PStr ''forbidden_ops''), (''name'', PStr BASELINE_POLICY_NAME),
     (''forbidden_patterns'', PList (map PStr (DEFAULT_FORBIDDEN @ PLATFORM_TRIPWIRE_PATTERNS))),
     (''forbidden_regexes'', PList (map PStr PLATFORM_TRIPWIRE_REGEXES))]"

text \<open>The baseline first, then the workflow's own policies.\<close>

definition for_run :: "regex_lib \<Rightarrow> policy_class dict \<Rightarrow> pyval dict option \<Rightarrow> policy list res" where
  "for_run rx registry safety =
     bind_res (make_policy (ForbiddenOpsPolicy rx) baseline_config) (\<lambda>baseline.
       bind_res (from_config registry (case safety of None \<Rightarrow> [] | Some c \<Rightarrow> c)) (\<lambda>ps. Inr (baseline # ps)))"

definition policy_errors :: "policy_class dict \<Rightarrow> nat \<Rightarrow> pyval \<Rightarrow> string list res" where
  "policy_errors registry i v =
     bind_res (py_dict v) (\<lambda>config. let t = dget_or config ''type'' PNone; here = ''Policy ['' @ nat_str i @ '']'' in
       if \<not> truthy t then Inr [here @ '' missing '' @ quoted ''type'' @ '' field'']
       else bind_res (class_of_type registry t) (\<lambda>found.
         case found of
           None \<Rightarrow> Inr [here @ '' unknown type: '' @ quoted (py_str t) @ ''. Available: '' @ available_types registry]
         | Some c \<Rightarrow> bind_res (pc_validate c config) (\<lambda>es. Inr (map (\<lambda>e. here @ '' ('' @ py_str t @ ''): '' @ e) es))))"

definition validate_config :: "policy_class dict \<Rightarrow> pyval dict \<Rightarrow> string list res" where
  "validate_config registry config =
     bind_res (configured config) (\<lambda>vs.
       bind_res (map_res (\<lambda>(i, v). policy_errors registry i v) (enumerate 0 vs)) (\<lambda>ess. Inr (concat ess)))"

definition coverage_warning :: "policy_class dict \<Rightarrow> action_type list \<Rightarrow> pyval \<Rightarrow> string list res" where
  "coverage_warning registry wired v =
     bind_res (py_dict v) (\<lambda>config. let t = dget_or config ''type'' PNone in
       bind_res (class_of_type registry t) (\<lambda>found.
         case found of
           None \<Rightarrow> Inr []
         | Some c \<Rightarrow> Inr (if list_ex (\<lambda>a. a \<in> set wired) (pc_action_types c) then []
              else [''Policy '' @ quoted (py_str t) @ '' handles '' @ actions_str (pc_action_types c) @ '' but only '' @ actions_str wired @
                    '' are evaluated. This policy will never run.''])))"

definition validate_action_coverage :: "policy_class dict \<Rightarrow> pyval dict \<Rightarrow> action_type list \<Rightarrow> string list res" where
  "validate_action_coverage registry config wired =
     bind_res (configured config) (\<lambda>vs. bind_res (map_res (coverage_warning registry wired) vs) (\<lambda>ws. Inr (concat ws)))"

section \<open>The contract of a chain that stops at the first objection\<close>

text \<open>
  What the engine, its policies and the path check of the tool executor share: members are asked in order,
  \<open>None\<close> means no objection, and the first objection is the answer.
\<close>

locale first_objection =
  fixes decide :: "'p list \<Rightarrow> 'd" and says :: "'p \<Rightarrow> 'd option" and pass :: 'd
  assumes decide_Nil: "decide [] = pass"
    and decide_Cons: "decide (p # ps) = (case says p of None \<Rightarrow> decide ps | Some d \<Rightarrow> d)"
begin

lemma decide_append: "decide (xs @ ys) = (if \<forall>p \<in> set xs. says p = None then decide ys else decide xs)"
  by (induction xs) (auto simp: decide_Cons split: option.splits)

lemma decide_first: "\<forall>q \<in> set xs. says q = None \<Longrightarrow> says p = Some d \<Longrightarrow> decide (xs @ p # ys) = d"
  by (simp add: decide_append decide_Cons)

lemma decide_quiet: "\<forall>p \<in> set ps. says p = None \<Longrightarrow> decide ps = pass"
  by (induction ps) (auto simp: decide_Nil decide_Cons)

lemma decide_cases:
  obtains "\<forall>p \<in> set ps. says p = None" and "decide ps = pass"
  | xs p ys where "ps = xs @ p # ys" and "\<forall>q \<in> set xs. says q = None" and "says p = Some (decide ps)"
proof (cases "\<forall>p \<in> set ps. says p = None")
  case True
  then show ?thesis using decide_quiet that(1) by blast
next
  case False
  then obtain xs p ys where split: "ps = xs @ p # ys" "says p \<noteq> None" "\<forall>q \<in> set xs. says q = None"
    using split_list_first_prop [of ps "\<lambda>p. says p \<noteq> None"] by blast
  then obtain d where "says p = Some d" by blast
  with decide_first [OF split(3) this, of ys] split(1,3) that(2) show ?thesis by simp
qed

lemma decide_iff:
  assumes "d \<noteq> pass"
  shows "decide ps = d \<longleftrightarrow> (\<exists>xs p ys. ps = xs @ p # ys \<and> (\<forall>q \<in> set xs. says q = None) \<and> says p = Some d)"
proof
  assume "decide ps = d"
  then show "\<exists>xs p ys. ps = xs @ p # ys \<and> (\<forall>q \<in> set xs. says q = None) \<and> says p = Some d"
    by (cases ps rule: decide_cases) (use assms in auto)
qed (use decide_first in blast)

text \<open>Whether there is an objection does not depend on the order, and more members object to more.\<close>

lemma decide_pass_iff: "\<forall>p \<in> set ps. says p \<noteq> Some pass \<Longrightarrow> decide ps = pass \<longleftrightarrow> (\<forall>p \<in> set ps. says p = None)"
  by (induction ps) (auto simp: decide_Nil decide_Cons split: option.splits)

end

section \<open>The first deny wins\<close>

text \<open>What one policy says: nothing, a deny, or an exception.\<close>

definition policy_says :: "action_type \<Rightarrow> pyval dict \<Rightarrow> pyval dict \<Rightarrow> pyval list \<Rightarrow> policy \<Rightarrow> policy_decision res option" where
  "policy_says action data ctx skip_types p =
     (if \<not> truthy (pl_enabled p) \<or> action \<notin> set (pc_action_types (pl_class p)) then None
      else case skips skip_types p of
        Inl e \<Rightarrow> Some (Inl e)
      | Inr True \<Rightarrow> None
      | Inr False \<Rightarrow>
          (case pc_evaluate (pl_class p) (pl_config p) (pl_name p) action data ctx of
             Inl e \<Rightarrow> Some (Inl e)
           | Inr d \<Rightarrow> if denied d then Some (Inr d) else None))"

interpretation engine: first_objection
  "\<lambda>ps. evaluate ps action data ctx skip_types" "policy_says action data ctx skip_types" "Inr all_passed"
  for action data ctx skip_types
  by unfold_locales (auto simp: policy_says_def split: sum.splits bool.splits)

lemma all_passed_not_denied [simp]: "\<not> denied all_passed"
  by (simp add: all_passed_def denied_def decision_def)

lemma policy_says_objects: "policy_says action data ctx skip_types p = Some (Inr d) \<Longrightarrow> denied d"
  by (auto simp: policy_says_def split: if_splits sum.splits bool.splits)

text \<open>The first deny wins. The engine's answer is a deny exactly when some policy that applies (enabled, for
  this kind of action, not skipped) denies and no policy before it objects or raises; the answer is then
  that policy's own decision, and policies after it are not asked.\<close>

theorem first_deny_wins:
  "(evaluate ps action data ctx skip_types = Inr d \<and> denied d) \<longleftrightarrow>
   (\<exists>xs p ys. ps = xs @ p # ys \<and> (\<forall>q \<in> set xs. policy_says action data ctx skip_types q = None) \<and>
      policy_says action data ctx skip_types p = Some (Inr d))"
proof (cases "denied d")
  case True
  then have "(Inr d :: policy_decision res) \<noteq> Inr all_passed" by (metis Inr_inject all_passed_not_denied)
  from engine.decide_iff [OF this] True show ?thesis by simp
qed (use policy_says_objects in blast)

lemma not_denied_quiet:
  assumes "evaluate ps action data ctx skip_types = Inr d" and "\<not> denied d"
  shows "\<forall>p \<in> set ps. policy_says action data ctx skip_types p = None"
proof -
  have "policy_says action data ctx skip_types p \<noteq> Some (Inr all_passed)" for p
    using policy_says_objects all_passed_not_denied by blast
  moreover have "d = all_passed"
    by (cases ps rule: engine.decide_cases [of _ action data ctx skip_types]) (use assms policy_says_objects in fastforce)+
  ultimately show ?thesis using assms(1) by (metis (no_types) engine.decide_pass_iff)
qed

text \<open>An action the engine lets through was let through by every policy, so neither the order of the
  policies nor dropping some of them changes that.\<close>

theorem allowed_by_all:
  assumes "evaluate ps action data ctx skip_types = Inr d" and "\<not> denied d" and "set qs \<subseteq> set ps"
  shows "evaluate qs action data ctx skip_types = Inr all_passed"
  using not_denied_quiet [OF assms(1,2)] assms(3) by (intro engine.decide_quiet) blast

section \<open>What a pattern matches\<close>

lemma match_here:
  "(\<exists>m b. s = m @ b \<and> lower m = lower p \<and> Q b) \<longleftrightarrow> startswith (lower p) (lower s) \<and> Q (drop (length p) s)"
proof
  assume "\<exists>m b. s = m @ b \<and> lower m = lower p \<and> Q b"
  then obtain m b where m: "s = m @ b" "lower m = lower p" "Q b" by blast
  from m(2) have "length m = length p" by (metis length_map lower_def)
  with m show "startswith (lower p) (lower s) \<and> Q (drop (length p) s)" by (simp add: startswith_def lower_def)
next
  assume r: "startswith (lower p) (lower s) \<and> Q (drop (length p) s)"
  then have "lower (take (length p) s) = lower p" by (simp add: startswith_def lower_def take_map)
  then show "\<exists>m b. s = m @ b \<and> lower m = lower p \<and> Q b" using r by (metis append_take_drop_id)
qed

lemma search_from_iff:
  "search_from whole p after_word s \<longleftrightarrow>
     (\<exists>a m b. s = a @ m @ b \<and> lower m = lower p \<and>
        (whole \<longrightarrow> \<not> (if a = [] then after_word else word_char (last a)) \<and> \<not> word_at b))" (is "_ \<longleftrightarrow> ?R after_word s")
proof (induction s arbitrary: after_word)
  case Nil
  show ?case by (subst search_from.simps) (auto simp: startswith_def lower_def word_at_def)
next
  case (Cons c s)
  let ?ok = "\<lambda>aft b. whole \<longrightarrow> \<not> aft \<and> \<not> word_at b"
  have "?R after_word (c # s) \<longleftrightarrow> (\<exists>m b. c # s = m @ b \<and> lower m = lower p \<and> ?ok after_word b) \<or> ?R (word_char c) s"
  proof
    assume "?R after_word (c # s)"
    then obtain a m b where r: "c # s = a @ m @ b" "lower m = lower p" "?ok (if a = [] then after_word else word_char (last a)) b" by blast
    show "(\<exists>m b. c # s = m @ b \<and> lower m = lower p \<and> ?ok after_word b) \<or> ?R (word_char c) s"
    proof (cases a)
      case Nil
      then show ?thesis using r by auto
    next
      case (Cons x a')
      then have "s = a' @ m @ b" "?ok (if a' = [] then word_char c else word_char (last a')) b" using r by auto
      then show ?thesis using r(2) by blast
    qed
  next
    assume "(\<exists>m b. c # s = m @ b \<and> lower m = lower p \<and> ?ok after_word b) \<or> ?R (word_char c) s"
    then consider m b where "c # s = m @ b" "lower m = lower p" "?ok after_word b"
      | a m b where "s = a @ m @ b" "lower m = lower p" "?ok (if a = [] then word_char c else word_char (last a)) b" by blast
    then show "?R after_word (c # s)"
    proof cases
      case 1
      then have "c # s = [] @ m @ b" "?ok (if [] = ([] :: string) then after_word else word_char (last [])) b" by auto
      with 1(2) show ?thesis by blast
    next
      case 2
      then have "c # s = (c # a) @ m @ b" "?ok (if c # a = [] then after_word else word_char (last (c # a))) b" by auto
      with 2(2) show ?thesis by blast
    qed
  qed
  then show ?case
    using match_here [of "c # s" p "?ok after_word"] Cons.IH by (subst search_from.simps) simp
qed

text \<open>A forbidden pattern matches a command exactly when its characters occur there in any mix of cases, and,
  for a pattern that is one bare word, when no letter, digit or underscore stands on either side of them.\<close>

theorem pattern_search_iff:
  "pattern_search p s \<longleftrightarrow>
     (\<exists>a m b. s = a @ m @ b \<and> lower m = lower p \<and>
        (bare_word p \<longrightarrow> \<not> (a \<noteq> [] \<and> word_char (last a)) \<and> \<not> (b \<noteq> [] \<and> word_char (hd b))))"
proof -
  have "word_at b = (b \<noteq> [] \<and> word_char (hd b))" for b by (cases b) (simp_all add: word_at_def)
  moreover have "(if a = [] then False else word_char (last a)) = (a \<noteq> [] \<and> word_char (last a))" for a by simp
  ultimately show ?thesis by (simp only: pattern_search_def search_from_iff)
qed

section \<open>The baseline of every run\<close>

interpretation hits: first_objection "first_hit P" "\<lambda>x. if P x then Some (Some x) else None" None for P
  by unfold_locales auto

lemma first_hit_None: "first_hit P xs = None \<longleftrightarrow> (\<forall>x \<in> set xs. \<not> P x)"
  by (subst hits.decide_pass_iff) auto

lemma map_res_py_text [simp]: "map_res py_text (map PStr xs) = Inr xs"
  by (induction xs) auto

lemma baseline_patterns [simp]:
  "config_patterns baseline_config = Inr (DEFAULT_FORBIDDEN @ PLATFORM_TRIPWIRE_PATTERNS)"
  "config_regexes baseline_config = Inr PLATFORM_TRIPWIRE_REGEXES"
  by (simp_all add: config_patterns_def config_regexes_def baseline_config_def dget_or_def del: map_append)

definition baseline :: "regex_lib \<Rightarrow> policy" where
  "baseline rx = \<lparr>pl_class = ForbiddenOpsPolicy rx, pl_config = baseline_config, pl_name = PStr BASELINE_POLICY_NAME, pl_enabled = PBool True\<rparr>"

lemma make_baseline: "make_policy (ForbiddenOpsPolicy rx) baseline_config = Inr p \<Longrightarrow> p = baseline rx"
  by (auto simp: make_policy_def bind_res_Inr baseline_def ForbiddenOpsPolicy_def baseline_config_def dget_or_def split: if_splits)

lemma for_run_baseline: "for_run rx registry safety = Inr ps \<Longrightarrow> \<exists>qs. ps = baseline rx # qs"
  using make_baseline by (fastforce simp: for_run_def bind_res_Inr)

lemma baseline_evaluate:
  assumes "dget data ''tool_name'' = Some (PStr tool)" and "lower tool \<in> {''bash'', ''git''}"
    and "dget data ''tool_params'' = Some (PDict params)" and "dget params ''command'' = Some (PStr command)"
    and "(\<exists>p \<in> set (DEFAULT_FORBIDDEN @ PLATFORM_TRIPWIRE_PATTERNS). pattern_search p command) \<or>
         (\<exists>r \<in> set PLATFORM_TRIPWIRE_REGEXES. rx_search rx r command)"
  shows "\<exists>d. forbidden_ops_evaluate rx baseline_config name action data ctx = Inr d \<and> denied d \<and> pd_policy_name d = name"
proof -
  let ?p = "first_hit (\<lambda>p. pattern_search p command) (DEFAULT_FORBIDDEN @ PLATFORM_TRIPWIRE_PATTERNS)"
  let ?r = "first_hit (\<lambda>r. rx_search rx r command) PLATFORM_TRIPWIRE_REGEXES"
  have "?p \<noteq> None \<or> ?r \<noteq> None" using assms(5) unfolding first_hit_None by blast
  moreover have "DEFAULT_FORBIDDEN \<noteq> []" by (simp add: DEFAULT_FORBIDDEN_def)
  ultimately show ?thesis
    using assms(1-4) by (cases ?p; cases ?r) (auto simp: forbidden_ops_evaluate_def dget_or_def decision_def denied_def)
qed

text \<open>The baseline holds in every run, whatever the workflow configures: a shell command that holds one of the
  forbidden patterns (the Docker socket and credential files among them) or matches one of the platform's
  expressions is denied by \<open>platform_baseline\<close>, provided the step does not skip policies of type
  \<open>forbidden_ops\<close>.\<close>

theorem baseline_holds:
  assumes "for_run rx registry safety = Inr ps" and "dget data ''tool_name'' = Some (PStr tool)" and "lower tool \<in> {''bash'', ''git''}"
    and "dget data ''tool_params'' = Some (PDict params)" and "dget params ''command'' = Some (PStr command)"
    and "(\<exists>p \<in> set (DEFAULT_FORBIDDEN @ PLATFORM_TRIPWIRE_PATTERNS). pattern_search p command) \<or>
         (\<exists>r \<in> set PLATFORM_TRIPWIRE_REGEXES. rx_search rx r command)"
    and "\<not> py_in (PStr ''forbidden_ops'') skip_types"
  shows "\<exists>d. evaluate ps TOOL_CALL data ctx skip_types = Inr d \<and> denied d \<and> pd_policy_name d = PStr BASELINE_POLICY_NAME"
proof -
  obtain qs where ps: "ps = baseline rx # qs" using for_run_baseline [OF assms(1)] by blast
  obtain d where d: "forbidden_ops_evaluate rx baseline_config (PStr BASELINE_POLICY_NAME) TOOL_CALL data ctx = Inr d" "denied d"
      "pd_policy_name d = PStr BASELINE_POLICY_NAME"
    using baseline_evaluate [OF assms(2-6)] by blast
  have "skips skip_types (baseline rx) = Inr False"
    using assms(7) by (simp add: skips_def baseline_def baseline_config_def dget_or_def Let_def)
  then have "policy_says TOOL_CALL data ctx skip_types (baseline rx) = Some (Inr d)"
    using d by (simp add: policy_says_def baseline_def ForbiddenOpsPolicy_def)
  then have "evaluate (baseline rx # qs) TOOL_CALL data ctx skip_types = Inr d"
    by (subst engine.decide_Cons) simp
  then show ?thesis using d(2,3) ps by blast
qed

definition plain_rx :: regex_lib where
  "plain_rx = \<lparr>rx_error = (\<lambda>_. None), rx_search = (\<lambda>_ _. False)\<rparr>"

definition shell_call :: "string \<Rightarrow> pyval dict" where
  "shell_call command = [(''tool_name'', PStr ''Bash''), (''tool_params'', PDict [(''command'', PStr command)])]"

lemma plain_run: "for_run plain_rx (POLICY_REGISTRY plain_rx) None = Inr [baseline plain_rx]"
  by (simp add: for_run_def make_policy_def ForbiddenOpsPolicy_def forbidden_ops_validate_def base_validate_def from_config_def
      configured_def baseline_def baseline_config_def dget_or_def PLATFORM_TRIPWIRE_REGEXES_def plain_rx_def config_patterns_def
      config_regexes_def del: map_append)

theorem baseline_holds_witness:
  "\<exists>d. evaluate [baseline plain_rx] TOOL_CALL (shell_call ''cat /Var/run/docker.sock'') [] [PStr ''budget''] = Inr d \<and> denied d"
proof -
  have "pattern_search ''/var/run/docker.sock'' ''cat /Var/run/docker.sock''" by code_simp
  moreover have "\<not> py_in (PStr ''forbidden_ops'') [PStr ''budget'']" by code_simp
  moreover have "lower ''Bash'' = ''bash''" by code_simp
  ultimately show ?thesis
    using baseline_holds [OF plain_run, of "shell_call ''cat /Var/run/docker.sock''" "''Bash''" "[(''command'', PStr ''cat /Var/run/docker.sock'')]"
        "''cat /Var/run/docker.sock''" "[PStr ''budget'']" "[]"]
    by (auto simp: shell_call_def PLATFORM_TRIPWIRE_PATTERNS_def simp del: evaluate.simps)
qed

text \<open>A step can switch the baseline off: under \<open>skip_policies: [forbidden_ops]\<close> a run without policies of its own
  lets every action through, whatever the command.\<close>

theorem baseline_can_be_skipped:
  "for_run rx registry None = Inr ps \<Longrightarrow> evaluate ps action data ctx [PStr ''forbidden_ops''] = Inr all_passed"
proof -
  assume run: "for_run rx registry None = Inr ps"
  then have "ps = [baseline rx]" using make_baseline by (auto simp: for_run_def bind_res_Inr from_config_def configured_def)
  moreover have "skips [PStr ''forbidden_ops''] (baseline rx) = Inr True"
    by (simp add: skips_def baseline_def baseline_config_def dget_or_def py_in_def)
  ultimately show ?thesis by (simp add: baseline_def)
qed

theorem baseline_can_be_skipped_witness:
  "evaluate [baseline plain_rx] TOOL_CALL (shell_call ''rm -rf /'') [] [PStr ''forbidden_ops''] = Inr all_passed"
  using baseline_can_be_skipped [OF plain_run] .

text \<open>The file access policy does not see the file tools the program has: whatever paths it denies, a call of
  \<open>Read\<close>, \<open>Write\<close>, \<open>Edit\<close>, \<open>Grep\<close> or \<open>Glob\<close> is allowed.\<close>

theorem file_access_misses_file_tools:
  assumes "tool \<in> {''Read'', ''Write'', ''Edit'', ''Grep'', ''Glob''}" and "dget data ''tool_name'' = Some (PStr tool)"
  shows "pc_evaluate FileAccessPolicy config name action data ctx = Inr (decision ''allow'' ''Not a file tool'' name)"
proof -
  have "lower t \<notin> set FILE_TOOLS" if "t \<in> {''Read'', ''Write'', ''Edit'', ''Grep'', ''Glob''}" for t
    using that by (elim insertE emptyE; hypsubst) code_simp+
  with assms show ?thesis by (simp add: FileAccessPolicy_def file_access_evaluate_def dget_or_def)
qed

theorem file_access_misses_file_tools_witness:
  "pc_evaluate FileAccessPolicy [(''denied_paths'', PList [PStr ''.env''])] PNone TOOL_CALL
     [(''tool_name'', PStr ''Write''), (''tool_params'', PDict [(''file_path'', PStr ''/app/.env'')])] []
     = Inr (decision ''allow'' ''Not a file tool'' PNone)"
  using file_access_misses_file_tools [of "''Write''" "[(''tool_name'', PStr ''Write''), (''tool_params'', PDict [(''file_path'', PStr ''/app/.env'')])]"]
  by simp

section \<open>Checking a configuration and loading it\<close>

definition initialises :: "policy_class dict \<Rightarrow> pyval \<Rightarrow> bool" where
  "initialises registry v =
     (case v of
        PDict config \<Rightarrow>
          (case class_of_type registry (dget_or config ''type'' PNone) of
             Inr (Some c) \<Rightarrow> pc_init c config = Inr ()
           | _ \<Rightarrow> False)
      | _ \<Rightarrow> False)"

lemma policy_from_iff:
  "(\<exists>p. policy_from registry v = Inr p) \<longleftrightarrow> policy_errors registry i v = Inr [] \<and> initialises registry v"
proof (cases v)
  case (PDict config)
  show ?thesis
  proof (cases "class_of_type registry (dget_or config ''type'' PNone)")
    case (Inr found)
    then show ?thesis
      using PDict by (cases found)
        (auto simp: policy_from_def policy_errors_def initialises_def make_policy_def bind_res_Inr Let_def split: if_splits)
  qed (use PDict in \<open>auto simp: policy_from_def policy_errors_def initialises_def Let_def\<close>)
qed (auto simp: policy_from_def policy_errors_def initialises_def)

lemma map_res_ok_iff: "(\<exists>ys. map_res f xs = Inr ys) \<longleftrightarrow> (\<forall>x \<in> set xs. \<exists>y. f x = Inr y)"
proof (induction xs)
  case (Cons x xs)
  then show ?case by (cases "f x"; cases "map_res f xs") auto
qed simp

lemma map_res_concat_Nil: "(\<exists>ess. map_res f xs = Inr ess \<and> concat ess = []) \<longleftrightarrow> (\<forall>x \<in> set xs. f x = Inr [])"
proof (induction xs)
  case (Cons x xs)
  then show ?case by (cases "f x"; cases "map_res f xs") auto
qed simp

text \<open>Checking a safety block at load time and building its policies agree: the policies are built exactly when
  the check finds nothing wrong and every constructor accepts its configuration. For the built-in file access
  and budget policies the constructor always does, so there the check alone decides.\<close>

theorem from_config_iff_validated:
  "(\<exists>ps. from_config registry config = Inr ps) \<longleftrightarrow>
     validate_config registry config = Inr [] \<and>
     (case configured config of Inl e \<Rightarrow> False | Inr vs \<Rightarrow> list_all (initialises registry) vs)"
proof (cases "configured config")
  case (Inr vs)
  have "(\<exists>ps. from_config registry config = Inr ps) \<longleftrightarrow> (\<forall>v \<in> set vs. \<exists>p. policy_from registry v = Inr p)"
    using Inr by (simp add: from_config_def map_res_ok_iff)
  also have "\<dots> \<longleftrightarrow> (\<forall>(i, v) \<in> set (enumerate 0 vs). policy_errors registry i v = Inr []) \<and> list_all (initialises registry) vs"
  proof -
    have "(\<forall>(i, v) \<in> set (enumerate 0 vs). policy_errors registry i v = Inr []) \<longleftrightarrow> (\<forall>i < length vs. policy_errors registry i (vs ! i) = Inr [])"
      by (auto simp: in_set_enumerate_eq)
    moreover have "list_all (initialises registry) vs \<longleftrightarrow> (\<forall>i < length vs. initialises registry (vs ! i))"
      by (simp add: list_all_length)
    moreover have "(\<forall>v \<in> set vs. \<exists>p. policy_from registry v = Inr p) \<longleftrightarrow> (\<forall>i < length vs. \<exists>p. policy_from registry (vs ! i) = Inr p)"
      by (simp add: all_set_conv_all_nth)
    ultimately show ?thesis using policy_from_iff [of registry] by blast
  qed
  also have "(\<forall>(i, v) \<in> set (enumerate 0 vs). policy_errors registry i v = Inr []) \<longleftrightarrow> validate_config registry config = Inr []"
    using Inr map_res_concat_Nil [of "\<lambda>(i, v). policy_errors registry i v" "enumerate 0 vs"]
    by (auto simp: validate_config_def bind_res_Inr)
  finally show ?thesis using Inr by simp
qed (simp add: from_config_def validate_config_def)

text \<open>The check accepts what the constructor of \<open>ForbiddenOpsPolicy\<close> does not: a pattern that is not a string.\<close>

theorem validated_block_can_fail:
  "validate_config (POLICY_REGISTRY rx) [(''policies'', PList [PDict [(''type'', PStr ''forbidden_ops''), (''forbidden_patterns'', PList [PInt 777])]])] = Inr [] \<and>
   from_config (POLICY_REGISTRY rx) [(''policies'', PList [PDict [(''type'', PStr ''forbidden_ops''), (''forbidden_patterns'', PList [PInt 777])]])]
     = raise TypeError ''expected string, got int''"
  by (simp add: validate_config_def from_config_def configured_def policy_errors_def policy_from_def class_of_type_def POLICY_REGISTRY_def
      registry_with_def make_policy_def ForbiddenOpsPolicy_def forbidden_ops_validate_def base_validate_def config_patterns_def dget_or_def Let_def)

section \<open>Witnesses\<close>

lemma baseline_objects:
  "\<exists>d. policy_says TOOL_CALL (shell_call ''rm -rf /'') [] [] (baseline plain_rx) = Some (Inr d)"
proof -
  have "case policy_says TOOL_CALL (shell_call ''rm -rf /'') [] [] (baseline plain_rx) of Some (Inr d) \<Rightarrow> True | _ \<Rightarrow> False" by code_simp
  then show ?thesis by (auto split: option.splits sum.splits)
qed

theorem first_deny_wins_witness:
  "\<exists>d. evaluate [baseline plain_rx] TOOL_CALL (shell_call ''rm -rf /'') [] [] = Inr d \<and> denied d"
proof -
  obtain d where "policy_says TOOL_CALL (shell_call ''rm -rf /'') [] [] (baseline plain_rx) = Some (Inr d)"
    using baseline_objects by blast
  then have "\<exists>xs p ys. [baseline plain_rx] = xs @ p # ys \<and> (\<forall>q \<in> set xs. policy_says TOOL_CALL (shell_call ''rm -rf /'') [] [] q = None) \<and>
      policy_says TOOL_CALL (shell_call ''rm -rf /'') [] [] p = Some (Inr d)"
    by (intro exI [of _ "[]"] exI [of _ "baseline plain_rx"]) simp
  then show ?thesis unfolding first_deny_wins [symmetric] by blast
qed

definition one_thousand_tokens :: policy where
  "one_thousand_tokens = \<lparr>pl_class = BudgetPolicy, pl_config = [(''type'', PStr ''budget''), (''max_tokens'', PInt 1000)],
     pl_name = PStr ''BudgetPolicy'', pl_enabled = PBool True\<rparr>"

theorem allowed_by_all_witness: "evaluate [one_thousand_tokens] TOOL_CALL (shell_call ''ls'') [(''run_tokens'', PInt 999)] [] = Inr all_passed"
proof -
  have "evaluate [one_thousand_tokens, one_thousand_tokens] TOOL_CALL (shell_call ''ls'') [(''run_tokens'', PInt 999)] [] = Inr all_passed" by code_simp
  then show ?thesis by (rule allowed_by_all) simp_all
qed

theorem pattern_search_iff_witness: "pattern_search ''mkfs'' ''sudo MKFS /dev''"
  unfolding pattern_search_iff
  by (intro exI [of _ "''sudo ''"] exI [of _ "''MKFS''"] exI [of _ "'' /dev''"]) code_simp

end
