(* ===== verification/Tool_Executor.thy ===== *)
theory Tool_Executor
  imports Safety
begin

text \<open>
  The gateway of every tool call (\<^verbatim>\<open>temper_ai/tools/executor.py\<close>): \<open>ToolExecutor\<close> with what it checks before a tool
  runs (the run's cancel flag, the caller's declared tools, the safety policies, the workspace) and how long the
  tool may take. The tools themselves are a parameter, as are the file system's \<open>resolve\<close> and \<open>mkdtemp\<close>;
  the state keeps a log of the calls that reached a tool.
\<close>

section \<open>Tools and their results\<close>

record tool_result =
  tr_success :: bool
  tr_result :: pyval
  tr_error :: "string option"
  tr_metadata :: "pyval dict"

definition tool_failure :: "string \<Rightarrow> tool_result" where
  "tool_failure e = \<lparr>tr_success = False, tr_result = PStr [], tr_error = Some e, tr_metadata = []\<rparr>"

text \<open>A registered tool: its class attributes, its configuration, the caller it is bound to.\<close>

record tool =
  tl_parameters :: "pyval dict"
  tl_local_paths :: bool
  tl_per_caller_state :: bool
  tl_manages_own_timeout :: bool
  tl_cancellable :: bool
  tl_config :: "pyval dict"
  tl_caller :: string
  tl_cancel_event :: bool

text \<open>How a tool's own \<open>execute\<close> ends: it returns a result or some other value, raises, or is not done in time.\<close>

datatype tool_end =
    Gave tool_result
  | GaveValue pyval
  | Threw string string
  | LateEnd (never_started: bool)

text \<open>
  \<open>tv_resolve\<close> is \<open>str(Path(p).resolve())\<close>; \<open>tv_path_order\<close> the order in which the set of path parameters is
  gone through.
\<close>

record tool_env =
  tv_resolve :: "string \<Rightarrow> string res"
  tv_mkdtemp :: "string res"
  tv_path_order :: "string list"
  tv_run :: "string \<Rightarrow> tool \<Rightarrow> pyval dict \<Rightarrow> pyval option \<Rightarrow> tool_end"
  tv_duration_ms :: int

record tool_event =
  tev_type :: string
  tev_parent :: pyval
  tev_execution :: pyval
  tev_status :: string
  tev_data :: "pyval dict"

record tool_executor =
  tx_workspace_root :: "string option"
  tx_default_timeout :: pyval
  tx_policy_engine :: "policy list option"
  tx_tools :: "tool dict"
  tx_scratch_dir :: "string option"
  tx_run_cost_usd :: rat
  tx_run_tokens :: int
  tx_cancel_event :: "bool option"
  tx_events :: "tool_event list"
  tx_ran :: "(string \<times> tool \<times> pyval dict) list"

definition new_executor :: "string option \<Rightarrow> pyval \<Rightarrow> policy list option \<Rightarrow> tool_executor" where
  "new_executor ws timeout engine =
     \<lparr>tx_workspace_root = ws, tx_default_timeout = timeout, tx_policy_engine = engine, tx_tools = [], tx_scratch_dir = None,
      tx_run_cost_usd = 0, tx_run_tokens = 0, tx_cancel_event = None, tx_events = [], tx_ran = []\<rparr>"

definition given :: "string option \<Rightarrow> bool" where
  "given s = (case s of None \<Rightarrow> False | Some t \<Rightarrow> t \<noteq> [])"

section \<open>Registering tools, tracking usage\<close>

definition give_cancel_event :: "bool \<Rightarrow> tool \<Rightarrow> tool" where
  "give_cancel_event ev t = (if tl_cancellable t then t\<lparr>tl_cancel_event := ev\<rparr> else t)"

definition set_cancel_event :: "bool option \<Rightarrow> tool_executor \<Rightarrow> tool_executor" where
  "set_cancel_event ev tx = tx\<lparr>tx_cancel_event := ev, tx_tools := map (\<lambda>(k, t). (k, give_cancel_event (ev \<noteq> None) t)) (tx_tools tx)\<rparr>"

definition register_tools :: "tool dict \<Rightarrow> tool_executor \<Rightarrow> tool_executor" where
  "register_tools tools tx =
     (let rooted = (\<lambda>t. if given (tx_workspace_root tx)
            then t\<lparr>tl_config := dset ''workspace_root'' (PStr (the (tx_workspace_root tx))) (tl_config t)\<rparr> else t);
          ready = map (\<lambda>(k, t). (k, give_cancel_event (tx_cancel_event tx \<noteq> None) (rooted t))) tools
      in tx\<lparr>tx_tools := dmerge (tx_tools tx) ready\<rparr>)"

definition track_usage :: "rat \<Rightarrow> int \<Rightarrow> tool_executor \<Rightarrow> tool_executor" where
  "track_usage cost tokens tx = tx\<lparr>tx_run_cost_usd := tx_run_cost_usd tx + cost, tx_run_tokens := tx_run_tokens tx + tokens\<rparr>"

definition get_tool :: "string \<Rightarrow> tool_executor \<Rightarrow> tool option" where
  "get_tool name tx = dget (tx_tools tx) name"

definition tool_names :: "tool_executor \<Rightarrow> string list" where
  "tool_names tx = sort (dkeys (tx_tools tx))"

text \<open>\<open>release_caller\<close> asks every tool that keeps state for a caller; the names of the tools asked.\<close>

definition release_caller :: "string \<Rightarrow> tool_executor \<Rightarrow> string list" where
  "release_caller caller tx =
     (if caller = [] then [] else map fst (filter (\<lambda>(k, t). tl_per_caller_state t) (tx_tools tx)))"

text \<open>\<open>shutdown\<close>: the directory to remove, and the executor without it.\<close>

definition shutdown :: "tool_executor \<Rightarrow> string option \<times> tool_executor" where
  "shutdown tx = (tx_scratch_dir tx, tx\<lparr>tx_scratch_dir := None\<rparr>)"

text \<open>The scratch directory, made when it is first asked for.\<close>

definition scratch_dir :: "tool_env \<Rightarrow> tool_executor \<Rightarrow> string res \<times> tool_executor" where
  "scratch_dir env tx =
     (case tx_scratch_dir tx of
        Some d \<Rightarrow> (Inr d, tx)
      | None \<Rightarrow> (case tv_mkdtemp env of
                   Inl e \<Rightarrow> (Inl e, tx)
                 | Inr d \<Rightarrow> (Inr d, tx\<lparr>tx_scratch_dir := Some d\<rparr>)))"

section \<open>The workspace\<close>

definition PATH_PARAMS :: "string list" where
  "PATH_PARAMS = [''path'', ''file_path'', ''directory'', ''filename'', ''output_path'']"

definition is_absolute :: "string \<Rightarrow> bool" where
  "is_absolute p = startswith ''/'' p"

definition inside :: "tool_env \<Rightarrow> string \<Rightarrow> string \<Rightarrow> bool res" where
  "inside env path ws =
     bind_res (tv_resolve env ws) (\<lambda>base.
       bind_res (tv_resolve env (if is_absolute path then path else base @ ''/'' @ path)) (\<lambda>resolved.
         Inr (resolved = base \<or> startswith (base @ ''/'') resolved)))"

text \<open>One path parameter: no objection, or what is wrong. \<open>OSError\<close> and \<open>ValueError\<close> become a refusal.\<close>

definition path_objection :: "tool_env \<Rightarrow> string \<Rightarrow> string \<Rightarrow> string \<Rightarrow> tool_executor \<Rightarrow> string option \<times> tool_executor" where
  "path_objection env ws key value tx =
     (if CHR 0x00 \<in> set value then (Some (''Path in '' @ quoted key @ '' contains null byte''), tx)
      else let bad = Some (''Invalid path in '' @ quoted key @ '': '' @ value) in
        case inside env value ws of
          Inl e \<Rightarrow> (bad, tx)
        | Inr True \<Rightarrow> (None, tx)
        | Inr False \<Rightarrow>
            (case scratch_dir env tx of
               (Inl e, tx) \<Rightarrow> (bad, tx)
             | (Inr d, tx) \<Rightarrow>
                 (case inside env value d of
                    Inl e \<Rightarrow> (bad, tx)
                  | Inr True \<Rightarrow> (None, tx)
                  | Inr False \<Rightarrow>
                      (Some (''Path '' @ quoted value @ '' escapes workspace root '' @ quoted ws @
                         ''. Temporary files belong in this run'' @ [CHR 0x27] @ ''s scratch directory '' @ quoted d @
                         ''; everything else belongs in the workspace.''), tx))))"

fun check_paths :: "tool_env \<Rightarrow> string \<Rightarrow> pyval dict \<Rightarrow> string list \<Rightarrow> tool_executor \<Rightarrow> string option \<times> tool_executor" where
  "check_paths env ws params [] tx = (None, tx)"
| "check_paths env ws params (key # keys) tx =
     (case dget params key of
        Some (PStr (c # cs)) \<Rightarrow>
          (case path_objection env ws key (c # cs) tx of
             (Some e, tx) \<Rightarrow> (Some e, tx)
           | (None, tx) \<Rightarrow> check_paths env ws params keys tx)
      | _ \<Rightarrow> check_paths env ws params keys tx)"

definition schema_properties :: "tool \<Rightarrow> pyval dict" where
  "schema_properties t = (case dget_or (tl_parameters t) ''properties'' PNone of PDict d \<Rightarrow> d | _ \<Rightarrow> [])"

definition takes_path :: "tool \<Rightarrow> bool" where
  "takes_path t = list_ex (\<lambda>k. dhas k (schema_properties t)) PATH_PARAMS"

definition tool_for :: "tool \<Rightarrow> string \<Rightarrow> tool" where
  "tool_for t workspace =
     (if py_eq (dget_or (tl_config t) ''workspace_root'' PNone) (PStr workspace) then t
      else t\<lparr>tl_config := dset ''workspace_root'' (PStr workspace) (tl_config t)\<rparr>)"

definition caller_key :: "pyval dict \<Rightarrow> string" where
  "caller_key ctx =
     py_str (py_or (dget_or ctx ''execution_id'' PNone) (PStr ''-'')) @ ''/'' @
     py_str (py_or (dget_or ctx ''node_path'' PNone) (py_or (dget_or ctx ''agent_name'' PNone) (PStr ''-'')))"

definition tool_for_caller :: "tool \<Rightarrow> string \<Rightarrow> tool" where
  "tool_for_caller t caller = (if tl_caller t = caller then t else t\<lparr>tl_caller := caller\<rparr>)"

section \<open>How long a call may take\<close>

text \<open>\<open>int(v)\<close>, where it does not raise: a string is decimal digits, single underscores between them, a sign.\<close>

fun digits_value :: "int \<Rightarrow> bool \<Rightarrow> string \<Rightarrow> int option" where
  "digits_value acc after_digit [] = (if after_digit then Some acc else None)"
| "digits_value acc after_digit (c # cs) =
     (if is_digit c then digits_value (acc * 10 + int (of_char c) - 48) True cs
      else if c = CHR ''_'' \<and> after_digit then digits_value acc False cs
      else None)"

fun py_int :: "pyval \<Rightarrow> int option" where
  "py_int (PInt i) = Some i"
| "py_int (PBool b) = Some (if b then 1 else 0)"
| "py_int (PFloat q) = Some (if q < 0 then \<lceil>q\<rceil> else \<lfloor>q\<rfloor>)"
| "py_int (PStr s) =
     (case strip s of
        [] \<Rightarrow> None
      | c # cs \<Rightarrow> if c = CHR ''-'' then map_option uminus (digits_value 0 False cs)
                  else if c = CHR ''+'' then digits_value 0 False cs
                  else digits_value 0 False (c # cs))"
| "py_int v = None"

definition own_timeout :: "tool \<Rightarrow> pyval dict \<Rightarrow> int option" where
  "own_timeout t params =
     (case (if dhas ''timeout'' (schema_properties t) then dget_or params ''timeout'' PNone else PNone) of
        PNone \<Rightarrow> None
      | raw \<Rightarrow> (case py_int raw of Some asked \<Rightarrow> if 0 < asked then Some asked else None | None \<Rightarrow> None))"

definition MAX_TIMEOUT :: int where "MAX_TIMEOUT = 600"
definition OWN_TIMEOUT_GRACE :: int where "OWN_TIMEOUT_GRACE = 5"

text \<open>\<open>time_limit\<close> of \<^verbatim>\<open>tools/bash.py\<close>, called with what was asked.\<close>

definition time_limit :: "pyval dict \<Rightarrow> pyval \<Rightarrow> pyval" where
  "time_limit params asked =
     (if truthy (dget_or params ''_skip_allowlist'' PNone) then asked
      else case as_number asked of
        Some q \<Rightarrow> if of_int MAX_TIMEOUT < q then PInt MAX_TIMEOUT else asked
      | None \<Rightarrow> asked)"

definition num_add :: "pyval \<Rightarrow> int \<Rightarrow> pyval" where
  "num_add v k = (case v of PInt i \<Rightarrow> PInt (i + k) | PBool b \<Rightarrow> PInt ((if b then 1 else 0) + k) | PFloat q \<Rightarrow> PFloat (q + of_int k) | _ \<Rightarrow> v)"

definition effective_timeout :: "tool_executor \<Rightarrow> tool \<Rightarrow> pyval dict \<Rightarrow> pyval \<Rightarrow> pyval" where
  "effective_timeout tx t params timeout =
     (let own = own_timeout t params;
          asked = py_or timeout (py_or (case own of None \<Rightarrow> PNone | Some i \<Rightarrow> PInt i) (tx_default_timeout tx))
      in num_add (time_limit params asked) (if own \<noteq> None then OWN_TIMEOUT_GRACE else 0))"

section \<open>One call\<close>

text \<open>What the caller declared: a list of names, or \<open>ALL_TOOLS\<close>.\<close>

datatype tool_scope = ALL_TOOLS | Declared "string list"

fun in_scope :: "string \<Rightarrow> tool_scope \<Rightarrow> bool" where
  "in_scope name ALL_TOOLS = True"
| "in_scope name (Declared names) = (name \<in> set names)"

record tool_call =
  tc_name :: string
  tc_params :: "pyval dict"
  tc_allowed :: tool_scope
  tc_workspace :: "string option"
  tc_timeout :: pyval
  tc_context :: "pyval dict"

definition record_tool :: "tool_call \<Rightarrow> string \<Rightarrow> string \<Rightarrow> pyval dict \<Rightarrow> tool_executor \<Rightarrow> tool_executor" where
  "record_tool c kind st data tx = tx\<lparr>tx_events := tx_events tx @
     [\<lparr>tev_type = kind, tev_parent = dget_or (tc_context c) ''parent_id'' PNone, tev_execution = dget_or (tc_context c) ''execution_id'' PNone,
       tev_status = st, tev_data = data\<rparr>]\<rparr>"

definition record_blocked :: "tool_call \<Rightarrow> string \<Rightarrow> string \<Rightarrow> pyval dict \<Rightarrow> tool_executor \<Rightarrow> tool_executor" where
  "record_blocked c reason e data tx = record_tool c ''tool.blocked'' ''blocked''
     ([(''tool_name'', PStr (tc_name c)), (''reason'', PStr reason), (''error'', PStr e)] @ data) tx"

definition not_declared :: "tool_call \<Rightarrow> tool_executor \<Rightarrow> tool_result \<times> tool_executor" where
  "not_declared c tx =
     (let declared = (case tc_allowed c of ALL_TOOLS \<Rightarrow> [] | Declared names \<Rightarrow> sort names);
          caller = py_str (py_or (dget_or (tc_context c) ''agent_name'' PNone) (PStr []));
          who = (if caller = [] then ''this caller'' else ''agent '' @ quoted caller)
      in (tool_failure (''Tool '' @ quoted (tc_name c) @ '' is not available to '' @ who @ '' (declared tools: '' @
             (if declared = [] then ''none'' else join '', '' declared) @ '')''),
          record_tool c ''tool.blocked'' ''blocked'' [(''tool_name'', PStr (tc_name c)), (''reason'', PStr ''not_declared_by_caller''),
             (''agent_name'', PStr caller), (''declared'', PList (map PStr declared))] tx))"

definition unknown_tool :: "tool_call \<Rightarrow> tool_executor \<Rightarrow> tool_result \<times> tool_executor" where
  "unknown_tool c tx =
     (let names = PList (map PStr (tool_names tx))
      in (tool_failure (''Unknown tool: '' @ quoted (tc_name c) @ ''. Available: '' @ py_str names),
          record_tool c ''tool.unknown'' ''failed'' [(''tool_name'', PStr (tc_name c)), (''available'', names)] tx))"

definition tool_action :: "tool_call \<Rightarrow> pyval dict" where
  "tool_action c = [(''tool_name'', PStr (tc_name c)), (''tool_params'', PDict (tc_params c))]"

definition policy_context :: "tool_call \<Rightarrow> tool_executor \<Rightarrow> pyval dict" where
  "policy_context c tx = dset ''run_tokens'' (PInt (tx_run_tokens tx)) (dset ''run_cost_usd'' (PFloat (tx_run_cost_usd tx)) (tc_context c))"

text \<open>\<open>set(ctx.get("skip_policies") or [])\<close>\<close>

definition skip_set :: "pyval dict \<Rightarrow> pyval list res" where
  "skip_set ctx =
     bind_res (py_iter (py_or (dget_or ctx ''skip_policies'' PNone) (PList []))) (\<lambda>vs.
       if list_all hashable vs then Inr vs
       else raise TypeError (''unhashable type: '' @ quoted (type_name (hd (filter (\<lambda>v. \<not> hashable v) vs)))))"

definition evaluate_safety_policies :: "tool_call \<Rightarrow> tool_executor \<Rightarrow> (tool_result option \<times> tool_executor) res" where
  "evaluate_safety_policies c tx =
     (case tx_policy_engine tx of
        None \<Rightarrow> Inr (None, tx)
      | Some ps \<Rightarrow>
          bind_res (skip_set (tc_context c)) (\<lambda>skip.
          bind_res (evaluate ps TOOL_CALL (tool_action c) (policy_context c tx) skip) (\<lambda>d.
            if \<not> denied d then Inr (None, tx)
            else Inr (Some (tool_failure (''Blocked by safety policy '' @ quoted (py_str (pd_policy_name d)) @ '': '' @ pd_reason d)),
              record_tool c ''safety.policy.triggered'' ''blocked'' [(''tool_name'', PStr (tc_name c)), (''policy_name'', pd_policy_name d),
                (''reason'', PStr (pd_reason d)), (''action'', PStr ''deny'')] tx))))"

text \<open>The workspace the call runs in, or a refusal.\<close>

definition resolve_workspace :: "tool_env \<Rightarrow> tool_call \<Rightarrow> tool \<Rightarrow> tool_executor \<Rightarrow> (string option \<times> tool_result option \<times> tool_executor) res" where
  "resolve_workspace env c t tx =
     bind_res (if given (tc_workspace c) \<and> given (tx_workspace_root tx)
               then inside env (the (tc_workspace c)) (the (tx_workspace_root tx)) else Inr True) (\<lambda>narrows.
       if \<not> narrows
       then (let e = ''Workspace '' @ quoted (the (tc_workspace c)) @ '' is outside this run'' @ [CHR 0x27] @ ''s workspace '' @
                     quoted (the (tx_workspace_root tx))
             in Inr (None, Some (tool_failure e), record_blocked c ''workspace_violation'' e [] tx))
       else (let effective = (if given (tc_workspace c) then tc_workspace c else tx_workspace_root tx)
             in if effective = None \<and> takes_path t
                then (let e = ''Tool '' @ quoted (tc_name c) @ '' takes a path and this run has no workspace to confine it to. Start the run with a workspace (--workspace / workspace_path), or give this node a workspace_path input.''
                      in Inr (None, Some (tool_failure e), record_blocked c ''no_workspace'' e [] tx))
                else Inr (effective, None, tx)))"

definition opt_val :: "string option \<Rightarrow> pyval" where
  "opt_val s = (case s of None \<Rightarrow> PNone | Some t \<Rightarrow> PStr t)"

definition validate_workspace_paths :: "tool_env \<Rightarrow> tool_call \<Rightarrow> string \<Rightarrow> tool_executor \<Rightarrow> tool_result option \<times> tool_executor" where
  "validate_workspace_paths env c ws tx =
     (case check_paths env ws (tc_params c) (tv_path_order env) tx of
        (None, tx) \<Rightarrow> (None, tx)
      | (Some e, tx) \<Rightarrow> (Some (tool_failure e),
           record_blocked c ''workspace_violation'' e [(''workspace_root'', PStr ws), (''scratch_dir'', opt_val (tx_scratch_dir tx))] tx))"

text \<open>The sandbox: the tool as it will run, or a refusal.\<close>

definition confine :: "tool_env \<Rightarrow> tool_call \<Rightarrow> tool \<Rightarrow> tool_executor \<Rightarrow> ((tool_result + tool) \<times> tool_executor) res" where
  "confine env c t tx =
     (if \<not> tl_local_paths t then Inr (Inr t, tx)
      else bind_res (resolve_workspace env c t tx) (\<lambda>(effective, block, tx).
        case block of
          Some r \<Rightarrow> Inr (Inl r, tx)
        | None \<Rightarrow>
            if \<not> given effective then Inr (Inr t, tx)
            else (case validate_workspace_paths env c (the effective) tx of
                    (Some r, tx) \<Rightarrow> Inr (Inl r, tx)
                  | (None, tx) \<Rightarrow> Inr (Inr (tool_for t (the effective)), tx))))"

definition run_tool :: "tool_env \<Rightarrow> tool_call \<Rightarrow> tool \<Rightarrow> pyval option \<Rightarrow> tool_executor \<Rightarrow> tool_result \<times> tool_executor" where
  "run_tool env c t limit tx =
     (let how = tv_run env (tc_name c) t (tc_params c) limit;
          tx = (if how = LateEnd True then tx else tx\<lparr>tx_ran := tx_ran tx @ [(tc_name c, t, tc_params c)]\<rparr>)
      in case how of
           Gave r \<Rightarrow> (r, tx)
         | GaveValue v \<Rightarrow> (\<lparr>tr_success = True, tr_result = PStr (if v = PNone then [] else py_str v), tr_error = None, tr_metadata = []\<rparr>, tx)
         | Threw kind msg \<Rightarrow> (tool_failure (kind @ '': '' @ msg), tx)
         | LateEnd never \<Rightarrow>
             (let limit = (case limit of None \<Rightarrow> PNone | Some v \<Rightarrow> v);
                  e = ''Tool '' @ quoted (tc_name c) @ '' timed out after '' @ py_str limit @ ''s'' @
                      (if never then '' without starting: the run'' @ [CHR 0x27] @ ''s tool workers were all busy. Wait for them; do not retry yet.'' else [])
              in (tool_failure e, record_tool c ''tool.timeout'' ''failed'' [(''tool_name'', PStr (tc_name c)), (''timeout_s'', limit),
                   (''duration_ms'', PInt (tv_duration_ms env)), (''never_started'', PBool never)] tx)))"

definition execute :: "tool_env \<Rightarrow> tool_call \<Rightarrow> tool_executor \<Rightarrow> tool_result res \<times> tool_executor" where
  "execute env c tx =
     (if tx_cancel_event tx = Some True
      then (Inr (tool_failure (''Cancelled: the run was stopped, so '' @ quoted (tc_name c) @ '' did not run.'')), tx)
      else if \<not> in_scope (tc_name c) (tc_allowed c) then (case not_declared c tx of (r, tx) \<Rightarrow> (Inr r, tx))
      else case get_tool (tc_name c) tx of
        None \<Rightarrow> (case unknown_tool c tx of (r, tx) \<Rightarrow> (Inr r, tx))
      | Some t \<Rightarrow>
          (case evaluate_safety_policies c tx of
             Inl e \<Rightarrow> (Inl e, tx)
           | Inr (Some r, tx) \<Rightarrow> (Inr r, tx)
           | Inr (None, tx) \<Rightarrow>
               (case confine env c t tx of
                  Inl e \<Rightarrow> (Inl e, tx)
                | Inr (Inl r, tx) \<Rightarrow> (Inr r, tx)
                | Inr (Inr t, tx) \<Rightarrow>
                    (let t = (if tl_per_caller_state t then tool_for_caller t (caller_key (tc_context c)) else t);
                         limit = (if tl_manages_own_timeout t then None else Some (effective_timeout tx t (tc_params c) (tc_timeout c)))
                     in case run_tool env c t limit tx of (r, tx) \<Rightarrow> (Inr r, tx)))))"

section \<open>What has to hold before a tool runs\<close>

definition path_confined :: "tool_env \<Rightarrow> string \<Rightarrow> string option \<Rightarrow> string \<Rightarrow> bool" where
  "path_confined env ws scratch v \<longleftrightarrow> CHR 0x00 \<notin> set v \<and>
     (inside env v ws = Inr True \<or> (\<exists>d. scratch = Some d \<and> inside env v d = Inr True))"

text \<open>Only the scratch directory may have been made.\<close>

definition scratched :: "tool_executor \<Rightarrow> tool_executor \<Rightarrow> bool" where
  "scratched tx tx' \<longleftrightarrow> tx' = tx\<lparr>tx_scratch_dir := tx_scratch_dir tx'\<rparr> \<and> (tx_scratch_dir tx \<noteq> None \<longrightarrow> tx_scratch_dir tx' = tx_scratch_dir tx)"

lemma scratched_refl [simp]: "scratched tx tx"
  by (simp add: scratched_def)

lemma scratched_trans: "scratched a b \<Longrightarrow> scratched b c \<Longrightarrow> scratched a c"
  unfolding scratched_def by (cases a; cases b; cases c) auto

lemma scratched_ran: "scratched tx tx' \<Longrightarrow> tx_ran tx' = tx_ran tx \<and> tx_events tx' = tx_events tx \<and> tx_default_timeout tx' = tx_default_timeout tx"
  unfolding scratched_def by (cases tx; cases tx') auto

lemma path_confined_scratched: "scratched tx tx' \<Longrightarrow> path_confined env ws (tx_scratch_dir tx) v \<Longrightarrow> path_confined env ws (tx_scratch_dir tx') v"
  by (auto simp: scratched_def path_confined_def)

lemma scratch_dir_facts: "scratch_dir env tx = (r, tx') \<Longrightarrow> scratched tx tx' \<and> (\<forall>d. r = Inr d \<longrightarrow> tx_scratch_dir tx' = Some d)"
  by (cases "tx_scratch_dir tx"; cases "tv_mkdtemp env") (auto simp: scratch_dir_def scratched_def)

lemma path_objection_facts:
  assumes "path_objection env ws key v tx = (e, tx')"
  shows "scratched tx tx'" and "e = None \<Longrightarrow> path_confined env ws (tx_scratch_dir tx') v"
proof -
  obtain r tx1 where sd: "scratch_dir env tx = (r, tx1)" by fastforce
  then have s: "scratched tx tx1" "\<And>d. r = Inr d \<Longrightarrow> tx_scratch_dir tx1 = Some d" using scratch_dir_facts by blast+
  show "scratched tx tx'"
    using assms sd s(1) by (auto simp: path_objection_def Let_def split: if_splits sum.splits bool.splits)
  show "path_confined env ws (tx_scratch_dir tx') v" if "e = None"
    using assms sd s(2) that by (auto simp: path_objection_def path_confined_def Let_def split: if_splits sum.splits bool.splits)
qed

lemma check_paths_facts:
  "check_paths env ws params keys tx = (e, tx') \<Longrightarrow> scratched tx tx' \<and>
     (e = None \<longrightarrow> (\<forall>key v. key \<in> set keys \<longrightarrow> dget params key = Some (PStr v) \<longrightarrow> v \<noteq> [] \<longrightarrow> path_confined env ws (tx_scratch_dir tx') v))"
proof (induction keys arbitrary: tx)
  case (Cons key keys)
  show ?case
  proof (cases "\<exists>v. dget params key = Some (PStr v) \<and> v \<noteq> []")
    case False
    then have "check_paths env ws params keys tx = (e, tx')"
      using Cons.prems by (auto split: option.splits pyval.splits list.splits)
    with Cons.IH [OF this] False show ?thesis by auto
  next
    case True
    then obtain v where v: "dget params key = Some (PStr v)" "v \<noteq> []" by blast
    obtain e1 tx1 where one: "path_objection env ws key v tx = (e1, tx1)" by fastforce
    note step = path_objection_facts [OF one]
    show ?thesis
    proof (cases e1)
      case (Some x)
      then show ?thesis using Cons.prems v one step(1) by (cases v) auto
    next
      case None
      then have rest: "check_paths env ws params keys tx1 = (e, tx')" using Cons.prems v one by (cases v) auto
      note ih = Cons.IH [OF rest]
      have "path_confined env ws (tx_scratch_dir tx') v" using step(2) [OF None] ih path_confined_scratched by blast
      then show ?thesis using ih scratched_trans [OF step(1)] v by auto
    qed
  qed
qed simp

lemma record_tool_ran [simp]:
  "tx_ran (record_tool c k st d tx) = tx_ran tx" "tx_ran (record_blocked c r e d tx) = tx_ran tx"
  by (simp_all add: record_tool_def record_blocked_def)

text \<open>What the tool that runs is confined to.\<close>

definition workspace_of :: "tool_call \<Rightarrow> tool_executor \<Rightarrow> string option" where
  "workspace_of c tx = (if given (tc_workspace c) then tc_workspace c else tx_workspace_root tx)"

definition confined :: "tool_env \<Rightarrow> tool_call \<Rightarrow> tool_executor \<Rightarrow> string option \<Rightarrow> tool \<Rightarrow> bool" where
  "confined env c tx scratch t \<longleftrightarrow>
     (given (tc_workspace c) \<and> given (tx_workspace_root tx) \<longrightarrow> inside env (the (tc_workspace c)) (the (tx_workspace_root tx)) = Inr True) \<and>
     (given (workspace_of c tx) \<longrightarrow> dget_or (tl_config t) ''workspace_root'' PNone = PStr (the (workspace_of c tx)) \<and>
        (\<forall>key v. key \<in> set PATH_PARAMS \<longrightarrow> dget (tc_params c) key = Some (PStr v) \<longrightarrow> v \<noteq> []
           \<longrightarrow> path_confined env (the (workspace_of c tx)) scratch v)) \<and>
     (takes_path t \<longrightarrow> workspace_of c tx \<noteq> None)"

lemma takes_path_tool_for [simp]: "takes_path (tool_for t ws) = takes_path t" "tl_per_caller_state (tool_for t ws) = tl_per_caller_state t"
  by (simp_all add: takes_path_def schema_properties_def tool_for_def)

lemma py_eq_text [simp]: "py_eq v (PStr s) \<longleftrightarrow> v = PStr s"
  by (cases v) auto

lemma tool_for_root: "dget_or (tl_config (tool_for t ws)) ''workspace_root'' PNone = PStr ws"
  by (auto simp: tool_for_def)

lemma resolve_workspace_facts:
  assumes "resolve_workspace env c t tx = Inr (eff, block, tx')"
  shows "tx_ran tx' = tx_ran tx" and "block = None \<Longrightarrow> tx' = tx \<and> eff = workspace_of c tx \<and> (takes_path t \<longrightarrow> eff \<noteq> None) \<and>
    (given (tc_workspace c) \<and> given (tx_workspace_root tx) \<longrightarrow> inside env (the (tc_workspace c)) (the (tx_workspace_root tx)) = Inr True)"
  using assms by (auto simp: resolve_workspace_def workspace_of_def bind_res_Inr Let_def split: if_splits)

lemma confine_facts:
  assumes con: "confine env c t tx = Inr (r, tx')" and order: "set (tv_path_order env) = set PATH_PARAMS"
  shows "tx_ran tx' = tx_ran tx" and "r = Inr t' \<Longrightarrow> tl_local_paths t \<Longrightarrow> confined env c tx (tx_scratch_dir tx') t'"
proof -
  have "tx_ran tx' = tx_ran tx \<and> (\<forall>t'. r = Inr t' \<longrightarrow> confined env c tx (tx_scratch_dir tx') t')" if local: "tl_local_paths t"
  proof -
    from con local obtain eff block tx1 where rw: "resolve_workspace env c t tx = Inr (eff, block, tx1)"
      and rest: "(case block of Some r \<Rightarrow> Inr (Inl r, tx1)
        | None \<Rightarrow> if \<not> given eff then Inr (Inr t, tx1)
            else (case validate_workspace_paths env c (the eff) tx1 of
                    (Some r, tx) \<Rightarrow> Inr (Inl r, tx)
                  | (None, tx) \<Rightarrow> Inr (Inr (tool_for t (the eff)), tx))) = (Inr (r, tx') :: _ res)"
      by (fastforce simp: confine_def bind_res_Inr)
    note facts = resolve_workspace_facts [OF rw]
    show ?thesis
    proof (cases "block = None \<and> given eff")
      case False
      then show ?thesis using rest facts by (auto simp: confined_def split: option.splits)
    next
      case True
      obtain e tx2 where cp: "check_paths env (the eff) (tc_params c) (tv_path_order env) tx1 = (e, tx2)" by fastforce
      note paths = check_paths_facts [OF cp]
      have f: "tx1 = tx" "eff = workspace_of c tx" using facts(2) True by auto
      show ?thesis
      proof (cases e)
        case (Some x)
        then show ?thesis using rest True cp f paths scratched_ran by (auto simp: validate_workspace_paths_def)
      next
        case None
        then have "tx' = tx2" "r = Inr (tool_for t (the eff))" using rest True cp by (auto simp: validate_workspace_paths_def)
        then show ?thesis
          using facts(2) True paths None order f scratched_ran by (auto simp: confined_def tool_for_root)
      qed
    qed
  qed
  then show "tx_ran tx' = tx_ran tx" and "r = Inr t' \<Longrightarrow> tl_local_paths t \<Longrightarrow> confined env c tx (tx_scratch_dir tx') t'"
    using con by (auto simp: confine_def split: if_splits)
qed

lemma evaluate_safety_facts:
  assumes "evaluate_safety_policies c tx = Inr (block, tx')"
  shows "tx_ran tx' = tx_ran tx" and "block = None \<Longrightarrow> tx' = tx \<and> (\<forall>ps. tx_policy_engine tx = Some ps \<longrightarrow>
    (\<exists>skip d. skip_set (tc_context c) = Inr skip \<and> evaluate ps TOOL_CALL (tool_action c) (policy_context c tx) skip = Inr d \<and> \<not> denied d))"
  using assms by (auto simp: evaluate_safety_policies_def bind_res_Inr split: option.splits if_splits)

lemma run_tool_ran:
  "run_tool env c t limit tx = (r, tx') \<Longrightarrow> tx_ran tx' \<in> {tx_ran tx, tx_ran tx @ [(tc_name c, t, tc_params c)]} \<and> tx_scratch_dir tx' = tx_scratch_dir tx"
  by (auto simp: run_tool_def Let_def record_tool_def split: tool_end.splits if_splits)

lemma confined_caller: "confined env c tx s t \<Longrightarrow> confined env c tx s (tool_for_caller t k)"
  by (simp add: confined_def tool_for_caller_def takes_path_def schema_properties_def)

text \<open>The ways a call that was not cancelled can go.\<close>

lemma execute_cases:
  assumes ex: "execute env c tx = (out, tx')" and go: "tx_cancel_event tx \<noteq> Some True"
  obtains (scope) r where "out = Inr r" "not_declared c tx = (r, tx')"
  | (unknown) r where "out = Inr r" "unknown_tool c tx = (r, tx')"
  | (raised) e where "out = Inl e" "tx' = tx"
  | (policy) r where "out = Inr r" "evaluate_safety_policies c tx = Inr (Some r, tx')"
  | (paths) t r where "out = Inr r" "confine env c t tx = Inr (Inl r, tx')"
  | (ran) t t1 limit tx2 r where "out = Inr r" "in_scope (tc_name c) (tc_allowed c)" "get_tool (tc_name c) tx = Some t"
      "evaluate_safety_policies c tx = Inr (None, tx)" "confine env c t tx = Inr (Inr t1, tx2)"
      "run_tool env c (if tl_per_caller_state t1 then tool_for_caller t1 (caller_key (tc_context c)) else t1) limit tx2 = (r, tx')"
proof (cases "in_scope (tc_name c) (tc_allowed c)")
  case False
  obtain r tx1 where "not_declared c tx = (r, tx1)" by fastforce
  with False go ex scope show ?thesis by (auto simp: execute_def)
next
  case in_scope: True
  show ?thesis
  proof (cases "get_tool (tc_name c) tx")
    case None
    obtain r tx1 where "unknown_tool c tx = (r, tx1)" by fastforce
    with None in_scope go ex unknown show ?thesis by (auto simp: execute_def)
  next
    case t: (Some t)
    show ?thesis
    proof (cases "evaluate_safety_policies c tx")
      case (Inl e)
      with t in_scope go ex raised show ?thesis by (auto simp: execute_def)
    next
      case (Inr p)
      then obtain block tx1 where ev: "evaluate_safety_policies c tx = Inr (block, tx1)" by (cases p) simp
      show ?thesis
      proof (cases block)
        case (Some r)
        with ev t in_scope go ex policy show ?thesis by (auto simp: execute_def)
      next
        case None
        then have ev: "evaluate_safety_policies c tx = Inr (None, tx)" using ev evaluate_safety_facts(2) by blast
        show ?thesis
        proof (cases "confine env c t tx")
          case (Inl e)
          with ev t in_scope go ex raised show ?thesis by (auto simp: execute_def)
        next
          case (Inr q)
          then obtain r tx2 where con: "confine env c t tx = Inr (r, tx2)" by (cases q) simp
          show ?thesis
          proof (cases r)
            case (Inl b)
            with con ev t in_scope go ex paths show ?thesis by (auto simp: execute_def)
          next
            case (Inr t1)
            let ?t = "if tl_per_caller_state t1 then tool_for_caller t1 (caller_key (tc_context c)) else t1"
            let ?limit = "if tl_manages_own_timeout ?t then None else Some (effective_timeout tx2 ?t (tc_params c) (tc_timeout c))"
            obtain r' tx3 where run: "run_tool env c ?t ?limit tx2 = (r', tx3)" by fastforce
            then have "out = Inr r'" "tx' = tx3" using Inr con ev t in_scope go ex by (simp_all add: execute_def Let_def)
            then show ?thesis using ran in_scope t ev con Inr run by blast
          qed
        qed
      qed
    qed
  qed
qed


definition refused :: "tool_executor \<Rightarrow> tool_result \<Rightarrow> tool_executor \<Rightarrow> bool" where
  "refused tx r tx' \<longleftrightarrow> (\<exists>e ev. r = tool_failure e \<and> tx_events tx' = tx_events tx @ [ev]) \<and> tx_ran tx' = tx_ran tx"

lemma record_refused: "scratched tx tx1 \<Longrightarrow> refused tx (tool_failure e) (record_tool c k st d tx1)"
  using scratched_ran by (auto simp: refused_def record_tool_def)

lemma resolve_workspace_refused: "resolve_workspace env c t tx = Inr (eff, Some r, tx') \<Longrightarrow> refused tx r tx'"
  using record_refused [OF scratched_refl]
  by (auto simp: resolve_workspace_def record_blocked_def bind_res_Inr Let_def split: if_splits)

lemma validate_workspace_outcome:
  assumes "validate_workspace_paths env c ws tx = (b, tx')"
  shows "case b of None \<Rightarrow> scratched tx tx' | Some r \<Rightarrow> refused tx r tx'"
proof -
  obtain e tx1 where cp: "check_paths env ws (tc_params c) (tv_path_order env) tx = (e, tx1)" by fastforce
  then have "scratched tx tx1" using check_paths_facts by blast
  then show ?thesis using assms cp record_refused by (cases e) (auto simp: validate_workspace_paths_def record_blocked_def)
qed

lemma confine_outcome:
  assumes "confine env c t tx = Inr (r, tx')"
  shows "case r of Inl q \<Rightarrow> refused tx q tx' | Inr t' \<Rightarrow> scratched tx tx'"
proof (cases "tl_local_paths t")
  case True
  then obtain eff block tx1 where rw: "resolve_workspace env c t tx = Inr (eff, block, tx1)"
    using assms by (cases "resolve_workspace env c t tx") (auto simp: confine_def)
  show ?thesis
  proof (cases block)
    case None
    then have "tx1 = tx" using resolve_workspace_facts(2) [OF rw] by simp
    obtain b tx2 where "validate_workspace_paths env c (the eff) tx = (b, tx2)" by fastforce
    with None \<open>tx1 = tx\<close> rw True assms validate_workspace_outcome [OF this] show ?thesis
      by (cases b) (auto simp: confine_def split: if_splits)
  qed (use assms rw True resolve_workspace_refused in \<open>auto simp: confine_def\<close>)
qed (use assms in \<open>auto simp: confine_def\<close>)

lemma evaluate_safety_refused: "evaluate_safety_policies c tx = Inr (Some r, tx') \<Longrightarrow> refused tx r tx'"
  using record_refused by (auto simp: evaluate_safety_policies_def bind_res_Inr split: option.splits if_splits)

lemma run_tool_refused: "run_tool env c t limit tx = (r, tx') \<Longrightarrow> tx_ran tx' = tx_ran tx \<Longrightarrow> refused tx r tx'"
  using record_refused by (auto simp: run_tool_def Let_def split: tool_end.splits if_splits)

lemma refused_scratched: "scratched tx tx1 \<Longrightarrow> refused tx1 r tx' \<Longrightarrow> refused tx r tx'"
  using scratched_ran by (auto simp: refused_def)

text \<open>A refused call is told so and leaves a trace: when \<open>execute\<close> returns without having run the tool, the
  result is a failure with a message, and it recorded exactly one event unless the run had been cancelled.\<close>

theorem refused_call_is_recorded:
  assumes ex: "execute env c tx = (Inr r, tx')" and ran: "tx_ran tx' = tx_ran tx"
  shows "if tx_cancel_event tx = Some True then tx' = tx \<and> (\<exists>e. r = tool_failure e) else refused tx r tx'"
proof (cases "tx_cancel_event tx = Some True")
  case False
  from ex False have "refused tx r tx'"
  proof (cases rule: execute_cases)
    case (ran t t1 limit tx2 q)
    then have s: "scratched tx tx2" using confine_outcome [OF ran(5)] by simp
    then have "refused tx2 q tx'" using run_tool_refused [OF ran(6)] scratched_ran \<open>tx_ran tx' = tx_ran tx\<close> by simp
    then show ?thesis using ran(1) refused_scratched [OF s] by simp
  next
    case (paths t q)
    then show ?thesis using confine_outcome [OF paths(2)] by simp
  qed (use record_refused [OF scratched_refl] evaluate_safety_refused in \<open>auto simp: not_declared_def unknown_tool_def Let_def\<close>)
  with False show ?thesis by simp
qed (use ex in \<open>auto simp: execute_def\<close>)

section \<open>The budget\<close>

definition usages :: "(rat \<times> int) list \<Rightarrow> tool_executor \<Rightarrow> tool_executor" where
  "usages us tx = fold (\<lambda>(cost, tokens). track_usage cost tokens) us tx"

lemma usages_spent:
  "\<forall>u \<in> set us. 0 \<le> fst u \<and> 0 \<le> snd u \<Longrightarrow> tx_run_cost_usd tx \<le> tx_run_cost_usd (usages us tx) \<and>
     tx_run_tokens tx \<le> tx_run_tokens (usages us tx) \<and> tx_policy_engine (usages us tx) = tx_policy_engine tx"
proof (induction us arbitrary: tx)
  case (Cons u us)
  obtain cost tokens where u: "u = (cost, tokens)" by fastforce
  have "tx_run_cost_usd tx \<le> tx_run_cost_usd (track_usage cost tokens tx)" "tx_run_tokens tx \<le> tx_run_tokens (track_usage cost tokens tx)"
      "tx_policy_engine (track_usage cost tokens tx) = tx_policy_engine tx"
    using Cons.prems u by (auto simp: track_usage_def)
  then show ?case using Cons.IH [of "track_usage cost tokens tx"] Cons.prems u by (auto simp: usages_def)
qed (simp add: usages_def)

text \<open>A limit of a budget that is a number, and that what was recorded has reached.\<close>

definition reached :: "pyval dict \<Rightarrow> string \<Rightarrow> rat \<Rightarrow> bool" where
  "reached config key spent =
     (case dget config key of None \<Rightarrow> False | Some v \<Rightarrow> (case as_number v of None \<Rightarrow> False | Some m \<Rightarrow> m \<le> spent))"

definition budget_spent :: "policy \<Rightarrow> tool_executor \<Rightarrow> bool" where
  "budget_spent p tx = (pl_class p = BudgetPolicy \<and> truthy (pl_enabled p) \<and>
     (reached (pl_config p) ''max_cost_usd'' (tx_run_cost_usd tx) \<or> reached (pl_config p) ''max_tokens'' (of_int (tx_run_tokens tx))))"

lemma reached_over: "reached config key q \<Longrightarrow> as_number v = Some q \<Longrightarrow> over_limit v (dget_or config key PNone) = Inr True"
  by (auto simp: reached_def over_limit_def py_ge_def dget_or_def split: option.splits)

lemma budget_denies:
  assumes "budget_spent p tx" and "skips skip p \<noteq> Inr True"
  shows "policy_says TOOL_CALL (tool_action c) (policy_context c tx) skip p \<noteq> None"
proof -
  let ?ctx = "policy_context c tx"
  have cost: "as_number (dget_or ?ctx ''run_cost_usd'' (PFloat 0)) = Some (tx_run_cost_usd tx)"
    and tokens: "as_number (dget_or ?ctx ''run_tokens'' (PInt 0)) = Some (of_int (tx_run_tokens tx))"
    by (simp_all add: policy_context_def dget_or_def)
  have "case budget_evaluate (pl_config p) (pl_name p) TOOL_CALL (tool_action c) ?ctx of Inl e \<Rightarrow> True | Inr d \<Rightarrow> denied d"
    using assms(1) reached_over [OF _ cost] reached_over [OF _ tokens]
    by (cases "over_limit (dget_or ?ctx ''run_cost_usd'' (PFloat 0)) (dget_or (pl_config p) ''max_cost_usd'' PNone)")
      (auto simp: budget_spent_def budget_evaluate_def Let_def denied_def decision_def)
  then show ?thesis
    using assms by (auto simp: policy_says_def budget_spent_def BudgetPolicy_def split: sum.splits bool.splits)
qed

text \<open>C19: A spent budget stays spent: once the recorded cost has reached the \<open>max_cost_usd\<close> of an enabled budget policy, or
  the recorded tokens its \<open>max_tokens\<close>, no tool runs any more, whatever is spent afterwards and whoever calls, unless the
  caller's step skips that policy by its type (\<open>skip_policies\<close>, which the agents always pass on, most often empty).\<close>

theorem spent_budget_stops_tools:
  assumes "tx_policy_engine tx = Some ps" and "p \<in> set ps" and "budget_spent p tx"
    and "\<forall>u \<in> set us. 0 \<le> fst u \<and> 0 \<le> snd u" and "\<forall>skip. skip_set (tc_context c) = Inr skip \<longrightarrow> skips skip p \<noteq> Inr True"
    and ex: "execute env c (usages us tx) = (out, tx')"
  shows "tx_ran tx' = tx_ran (usages us tx)"
proof (cases "tx_cancel_event (usages us tx) = Some True")
  case False
  let ?tx = "usages us tx"
  have le: "tx_run_cost_usd tx \<le> tx_run_cost_usd ?tx" "tx_run_tokens tx \<le> tx_run_tokens ?tx" and eng: "tx_policy_engine ?tx = Some ps"
    using usages_spent [OF assms(4), of tx] assms(1) by auto
  have "reached config key y" if "reached config key x" "x \<le> y" for config key x y
    using that by (auto simp: reached_def split: option.splits)
  then have u: "budget_spent p ?tx"
    using assms(3) le by (fastforce simp: budget_spent_def)
  from ex False show ?thesis
  proof (cases rule: execute_cases)
    case (ran t t1 limit tx2 r)
    then obtain skip d where skip: "skip_set (tc_context c) = Inr skip"
        and d: "evaluate ps TOOL_CALL (tool_action c) (policy_context c ?tx) skip = Inr d" "\<not> denied d"
      using evaluate_safety_facts(2) [OF ran(4) refl] eng by auto
    have "policy_says TOOL_CALL (tool_action c) (policy_context c ?tx) skip p = None" using not_denied_quiet [OF d] assms(2) by blast
    then show ?thesis using budget_denies [OF u] assms(5) skip by blast
  qed (use evaluate_safety_facts(1) confine_outcome in \<open>force simp: not_declared_def unknown_tool_def Let_def refused_def\<close>)+
qed (use ex in \<open>auto simp: execute_def\<close>)

section \<open>Time limits\<close>

text \<open>A model's call is waited for at most 600 seconds and the grace of 5: whatever time it asks for, and whatever
  the executor's default is, unless the call is a script agent's own (\<open>_skip_allowlist\<close>).\<close>

theorem model_call_time_limit:
  assumes "\<not> truthy (dget_or params ''_skip_allowlist'' PNone)" and "as_number (tx_default_timeout tx) \<noteq> None"
    and "timeout = PNone \<or> as_number timeout \<noteq> None"
  shows "\<exists>q. as_number (effective_timeout tx t params timeout) = Some q \<and> q \<le> 605"
proof -
  let ?own = "own_timeout t params"
  define asked where "asked = py_or timeout (py_or (case ?own of None \<Rightarrow> PNone | Some i \<Rightarrow> PInt i) (tx_default_timeout tx))"
  have "as_number asked \<noteq> None" using assms(2,3) by (auto simp: asked_def py_or_def split: option.splits)
  then obtain y where y: "as_number asked = Some y" by blast
  obtain q where q: "as_number (time_limit params asked) = Some q" "q \<le> 600"
    using assms(1) y by (cases "600 < y") (auto simp: time_limit_def MAX_TIMEOUT_def)
  have "as_number (num_add v k) = Some (q + of_int k)" if "as_number v = Some q" for v k
    using that by (cases v) (auto simp: num_add_def)
  with q have "as_number (effective_timeout tx t params timeout) = Some (q + of_int (if ?own \<noteq> None then OWN_TIMEOUT_GRACE else 0))"
    by (simp add: effective_timeout_def asked_def [symmetric] Let_def)
  then show ?thesis using q(2) by (auto simp: OWN_TIMEOUT_GRACE_def split: if_splits)
qed

section \<open>Two workspaces that do not work\<close>

definition reader :: tool where
  "reader = \<lparr>tl_parameters = [(''properties'', PDict [(''file_path'', PDict [])])], tl_local_paths = True, tl_per_caller_state = False,
     tl_manages_own_timeout = False, tl_cancellable = False, tl_config = [], tl_caller = [], tl_cancel_event = False\<rparr>"

definition read_call :: "string \<Rightarrow> tool_call" where
  "read_call path = \<lparr>tc_name = ''Read'', tc_params = [(''file_path'', PStr path)], tc_allowed = Declared [''Read''], tc_workspace = None,
     tc_timeout = PNone, tc_context = []\<rparr>"

definition run_in :: "string option \<Rightarrow> tool_executor" where
  "run_in ws = register_tools [(''Read'', reader)] (new_executor ws (PInt 30) None)"

text \<open>A run started with an empty workspace path is not confined at all: a tool that takes a path runs with any path,
  while with no workspace path the same call is refused.\<close>

theorem empty_workspace_is_no_sandbox:
  "execute env (read_call path) (run_in (Some [])) = (case run_tool env (read_call path) reader (Some (PInt 30)) (run_in (Some [])) of (r, tx) \<Rightarrow> (Inr r, tx)) \<and>
   (\<exists>r. execute env (read_call path) (run_in None) = (Inr r, record_blocked (read_call path) ''no_workspace'' (the (tr_error r)) [] (run_in None)))"
  by (simp add: execute_def read_call_def run_in_def register_tools_def new_executor_def given_def reader_def get_tool_def evaluate_safety_policies_def
      confine_def resolve_workspace_def takes_path_def schema_properties_def PATH_PARAMS_def dget_or_def dhas_def effective_timeout_def own_timeout_def
      time_limit_def num_add_def py_or_def MAX_TIMEOUT_def give_cancel_event_def tool_failure_def Let_def)

text \<open>A run whose workspace is the root directory refuses every path below it.\<close>

theorem root_workspace_refuses_all:
  assumes "tv_resolve env ''/'' = Inr ''/''" and "is_absolute p" and "tv_resolve env p = Inr q" and "q \<noteq> ''/''" and "\<not> startswith ''//'' q"
  shows "inside env p ''/'' = Inr False"
  using assms by (simp add: inside_def)

section \<open>Witnesses\<close>

definition plain_tools :: tool_env where
  "plain_tools = \<lparr>tv_resolve = Inr, tv_mkdtemp = Inr ''/tmp/temper-scratch-1'', tv_path_order = PATH_PARAMS,
     tv_run = (\<lambda>name t params limit. GaveValue (PStr ''text'')), tv_duration_ms = 0\<rparr>"


theorem refused_call_is_recorded_witness:
  "\<exists>r tx'. execute plain_tools (read_call ''/etc/passwd'') (run_in (Some ''/work'')) = (Inr r, tx') \<and> refused (run_in (Some ''/work'')) r tx'"
proof -
  have "case execute plain_tools (read_call ''/etc/passwd'') (run_in (Some ''/work'')) of
      (Inr r, tx') \<Rightarrow> tx_ran tx' = tx_ran (run_in (Some ''/work'')) | _ \<Rightarrow> False" by code_simp
  then obtain r tx' where ex: "execute plain_tools (read_call ''/etc/passwd'') (run_in (Some ''/work'')) = (Inr r, tx')"
      "tx_ran tx' = tx_ran (run_in (Some ''/work''))"
    by (auto split: prod.splits sum.splits)
  moreover have "tx_cancel_event (run_in (Some ''/work'')) \<noteq> Some True" by code_simp
  ultimately show ?thesis using refused_call_is_recorded [OF ex] by auto
qed

definition ten_tokens :: policy where
  "ten_tokens = \<lparr>pl_class = BudgetPolicy, pl_config = [(''type'', PStr ''budget''), (''max_tokens'', PInt 10)], pl_name = PStr ''BudgetPolicy'',
     pl_enabled = PBool True\<rparr>"

text \<open>A run out of tokens, and a caller whose step skips another policy.\<close>

definition out_of_tokens :: tool_executor where
  "out_of_tokens = (run_in (Some ''/work''))\<lparr>tx_policy_engine := Some [ten_tokens], tx_run_tokens := 12\<rparr>"

definition skipping_call :: tool_call where
  "skipping_call = (read_call ''a'')\<lparr>tc_context := [(''skip_policies'', PList [PStr ''forbidden_ops''])]\<rparr>"

theorem spent_budget_stops_tools_witness:
  "tx_ran (snd (execute plain_tools skipping_call (usages [(1 / 2, 10)] out_of_tokens))) = tx_ran (usages [(1 / 2, 10)] out_of_tokens)"
proof (rule spent_budget_stops_tools [of out_of_tokens "[ten_tokens]" ten_tokens _ skipping_call plain_tools, OF _ _ _ _ _ prod.collapse [symmetric]])
  have "skip_set (tc_context skipping_call) = Inr [PStr ''forbidden_ops'']" "skips [PStr ''forbidden_ops''] ten_tokens = Inr False" by code_simp+
  then show "\<forall>skip. skip_set (tc_context skipping_call) = Inr skip \<longrightarrow> skips skip ten_tokens \<noteq> Inr True" by simp
qed (simp_all add: out_of_tokens_def ten_tokens_def budget_spent_def reached_def dget_or_def)

theorem model_call_time_limit_witness:
  "\<exists>q. as_number (effective_timeout (run_in None) reader [(''timeout'', PInt 7200)] (PInt 7200)) = Some q \<and> q \<le> 605"
  by (rule model_call_time_limit) (simp_all add: dget_or_def run_in_def register_tools_def new_executor_def Let_def)

end
