(* ===== verification/Gate_Text.thy ===== *)
theory Gate_Text
  imports Types
begin

text \<open>
  What a person is shown at a gate and what they said (\<^verbatim>\<open>temper_ai/stage/gate.py\<close>): the questions an upstream
  output asked, brought into one shape; the context recorded on the waiting event; the response of an
  approval and its rendering as text; the words of a refused approval.

  \<open>json.loads\<close> is a parameter, \<open>None\<close> where it raises a \<open>ValueError\<close>. Characters are code points up to 255; the
  dash of a rendered answer lies outside, and the control character 0x97 stands for it.
\<close>

definition QUESTION_KEYS :: "string list" where
  "QUESTION_KEYS = [''questions'', ''questions_for_owner'', ''questions_for_human'']"

definition PROSE_KEYS :: "string list" where
  "PROSE_KEYS = [''summary'', ''pitch'', ''description'', ''context'', ''notes'', ''output'', ''text'']"

definition DASH :: string where "DASH = '' '' @ [CHR 0x97] @ '' ''"

definition EOL :: string where "EOL = [CHR 0x0A]"

section \<open>Questions\<close>

text \<open>A value that is a text with something in it, stripped.\<close>

definition said :: "pyval \<Rightarrow> string option" where
  "said v = (case v of PStr s \<Rightarrow> if strip s = [] then None else Some (strip s) | _ \<Rightarrow> None)"

definition field_or_alias :: "pyval dict \<Rightarrow> string \<Rightarrow> string list \<Rightarrow> pyval dict" where
  "field_or_alias raw k names =
     (case List.map_filter (\<lambda>n. said (dget_or raw n PNone)) names of [] \<Rightarrow> [] | s # _ \<Rightarrow> [(k, PStr s)])"

definition option_field :: "pyval dict \<Rightarrow> string \<Rightarrow> pyval dict" where
  "option_field opt k = field_or_alias opt k [k]"

definition question_option :: "pyval \<Rightarrow> pyval option" where
  "question_option opt =
     (case opt of
        PStr s \<Rightarrow> map_option (\<lambda>l. PDict [(''label'', PStr l)]) (said opt)
      | PDict d \<Rightarrow> map_option (\<lambda>l. PDict ([(''label'', PStr l)] @ option_field d ''description'' @ option_field d ''preview''))
                    (said (dget_or d ''label'' PNone))
      | _ \<Rightarrow> None)"

definition normalise_question :: "pyval \<Rightarrow> nat \<Rightarrow> pyval dict option res" where
  "normalise_question raw index =
     (case raw of
        PStr s \<Rightarrow> Inr (map_option (\<lambda>t. [(''id'', PStr (CHR ''q'' # nat_str index)), (''question'', PStr t)]) (said raw))
      | PDict d \<Rightarrow>
          (case said (py_or (dget_or d ''question'' PNone) (py_or (dget_or d ''text'' PNone) (dget_or d ''prompt'' PNone))) of
             None \<Rightarrow> Inr None
           | Some asked \<Rightarrow>
               bind_res (py_iter (py_or (dget_or d ''options'' PNone) (PList []))) (\<lambda>opts.
                 let options = List.map_filter question_option opts;
                     multi = dget_or d ''multiSelect'' (dget_or d ''multi_select'' PNone)
                 in Inr (Some ([(''id'', PStr (py_str (py_or (dget_or d ''id'' PNone) (PStr (CHR ''q'' # nat_str index))))),
                                (''question'', PStr asked)] @
                               field_or_alias d ''header'' [''header'', ''key''] @ field_or_alias d ''detail'' [''detail'', ''context''] @
                               (if options = [] then [] else [(''options'', PList options)]) @
                               (if multi = PNone then [] else [(''multiSelect'', PBool (truthy multi))])))))
      | _ \<Rightarrow> Inr None)"

fun number_questions :: "nat \<Rightarrow> pyval list \<Rightarrow> pyval dict list res" where
  "number_questions i [] = Inr []"
| "number_questions i (raw # rest) =
     bind_res (normalise_question raw (i + 1)) (\<lambda>q. bind_res (number_questions (i + 1) rest) (\<lambda>qs.
       Inr (case q of Some (p # ps) \<Rightarrow> (p # ps) # qs | _ \<Rightarrow> qs)))"

fun questions_under :: "string list \<Rightarrow> pyval dict \<Rightarrow> pyval dict list res" where
  "questions_under [] source = Inr []"
| "questions_under (k # ks) source =
     (case dget_or source k PNone of
        PList raw \<Rightarrow> bind_res (number_questions 0 raw) (\<lambda>out. if out = [] then questions_under ks source else Inr out)
      | _ \<Rightarrow> questions_under ks source)"

definition as_json_object :: "(string \<Rightarrow> pyval option) \<Rightarrow> string \<Rightarrow> pyval dict option" where
  "as_json_object json_loads text =
     (let stripped = strip text
      in if \<not> startswith ''{'' stripped then None
         else (case json_loads stripped of Some (PDict d) \<Rightarrow> Some d | _ \<Rightarrow> None))"

definition questions_in :: "pyval dict option \<Rightarrow> pyval dict list res" where
  "questions_in source = (case source of None \<Rightarrow> Inr [] | Some d \<Rightarrow> questions_under QUESTION_KEYS d)"

definition questions_from :: "(string \<Rightarrow> pyval option) \<Rightarrow> pyval dict option \<Rightarrow> string \<Rightarrow> pyval dict list res" where
  "questions_from json_loads structured text =
     bind_res (questions_in structured) (\<lambda>out. if out = [] then questions_in (as_json_object json_loads text) else Inr out)"

definition summarise_output :: "(string \<Rightarrow> pyval option) \<Rightarrow> string \<Rightarrow> pyval dict list \<Rightarrow> string" where
  "summarise_output json_loads text asked =
     (if asked = [] then text
      else case as_json_object json_loads text of
             None \<Rightarrow> text
           | Some document \<Rightarrow> join (EOL @ EOL) (List.map_filter (\<lambda>k. said (dget_or document k PNone)) PROSE_KEYS))"

text \<open>One entry of the upstream list, and its questions marked with the node that asked.\<close>

definition upstream_entry :: "(string \<Rightarrow> pyval option) \<Rightarrow> string \<Rightarrow> node_result \<Rightarrow> (pyval \<times> pyval list) res" where
  "upstream_entry json_loads dep r =
     bind_res (questions_from json_loads (nr_structured_output r) (nr_output r)) (\<lambda>asked.
       let full = nr_output r; output = summarise_output json_loads full asked
       in Inr (PDict ([(''node'', PStr dep), (''output'', PStr output),
                       (''structured_output'', case nr_structured_output r of None \<Rightarrow> PNone | Some d \<Rightarrow> PDict d)] @
                      (if full \<noteq> output then [(''full_output'', PStr full)] else [])),
               map (\<lambda>q. PDict (dset ''node'' (PStr dep) q)) asked))"

fun gate_upstream :: "(string \<Rightarrow> pyval option) \<Rightarrow> string list \<Rightarrow> node_result dict \<Rightarrow> (pyval list \<times> pyval list) res" where
  "gate_upstream json_loads [] outs = Inr ([], [])"
| "gate_upstream json_loads (dep # deps) outs =
     (case dget outs dep of
        None \<Rightarrow> gate_upstream json_loads deps outs
      | Some r \<Rightarrow> bind_res (upstream_entry json_loads dep r) (\<lambda>(e, qs). bind_res (gate_upstream json_loads deps outs) (\<lambda>(es, rest).
          Inr (e # es, qs @ rest))))"

definition build_gate_context :: "(string \<Rightarrow> pyval option) \<Rightarrow> string list \<Rightarrow> node_result dict \<Rightarrow> pyval res" where
  "build_gate_context json_loads depends_on outs =
     bind_res (gate_upstream json_loads depends_on outs) (\<lambda>(upstream, questions).
       Inr (PDict [(''upstream'', PList upstream), (''questions'', PList questions)]))"

section \<open>Responses\<close>

text \<open>An answer to one question.\<close>

record answer =
  an_id :: string
  an_question :: string
  an_selected :: "string list"
  an_custom :: string

definition answer_dict :: "answer \<Rightarrow> pyval" where
  "answer_dict a = PDict [(''id'', PStr (an_id a)), (''question'', PStr (an_question a)),
     (''selected'', PList (map PStr (an_selected a))), (''custom'', PStr (an_custom a))]"

definition render_answer :: "answer \<Rightarrow> string" where
  "render_answer a =
     (let answer = join '', '' (an_selected a);
          answer = (if an_custom a \<noteq> [] then (if answer \<noteq> [] then answer @ DASH @ an_custom a else an_custom a) else answer);
          question = (if an_question a \<noteq> [] then an_question a else an_id a)
      in ''Q: '' @ question @ EOL @ ''A: '' @ answer)"

definition render_response_text :: "answer list \<Rightarrow> string \<Rightarrow> string" where
  "render_response_text answers response =
     join (EOL @ EOL) (map render_answer answers @ (if response \<noteq> [] then [response] else []))"

definition stripped :: "pyval \<Rightarrow> string" where
  "stripped v = (case v of PStr s \<Rightarrow> strip s | _ \<Rightarrow> [])"

definition nonblank :: "pyval \<Rightarrow> string option" where
  "nonblank v = (case v of PStr s \<Rightarrow> if strip s = [] then None else Some s | _ \<Rightarrow> None)"

definition normalise_answer :: "nat \<Rightarrow> pyval \<Rightarrow> answer option res" where
  "normalise_answer so_far raw =
     (case raw of
        PDict d \<Rightarrow>
          bind_res (py_iter (py_or (dget_or d ''selected'' PNone) (PList []))) (\<lambda>items.
            let selected = List.map_filter nonblank items; custom = stripped (dget_or d ''custom'' PNone)
            in Inr (if selected = [] \<and> custom = [] then None
                    else Some \<lparr>an_id = py_str (py_or (dget_or d ''id'' PNone) (PStr (CHR ''q'' # nat_str (so_far + 1)))),
                               an_question = strip (py_str (py_or (dget_or d ''question'' PNone) (PStr []))),
                               an_selected = selected, an_custom = custom\<rparr>))
      | _ \<Rightarrow> Inr None)"

fun normalise_answers :: "nat \<Rightarrow> pyval list \<Rightarrow> answer list res" where
  "normalise_answers so_far [] = Inr []"
| "normalise_answers so_far (raw # rest) =
     bind_res (normalise_answer so_far raw) (\<lambda>a.
       case a of
         None \<Rightarrow> normalise_answers so_far rest
       | Some a \<Rightarrow> bind_res (normalise_answers (so_far + 1) rest) (\<lambda>as. Inr (a # as)))"

definition response_dict :: "answer list \<Rightarrow> string \<Rightarrow> pyval dict" where
  "response_dict answers response =
     [(''response'', PStr response), (''answers'', PList (map answer_dict answers)), (''text'', PStr (render_response_text answers response))]"

definition normalise_response :: "pyval dict option \<Rightarrow> pyval dict option res" where
  "normalise_response body =
     (case body of
        Some (p # ps) \<Rightarrow>
          bind_res (py_iter (py_or (dget_or (p # ps) ''answers'' PNone) (PList []))) (\<lambda>raw.
            bind_res (normalise_answers 0 raw) (\<lambda>answers.
              let response = stripped (dget_or (p # ps) ''response'' PNone)
              in Inr (if response = [] \<and> answers = [] then None else Some (response_dict answers response))))
      | _ \<Rightarrow> Inr None)"

section \<open>What an approval is told\<close>

record gate_info =
  gi_event_id :: pyval
  gi_node_name :: pyval
  gi_path :: string
  gi_round :: pyval
  gi_status :: pyval
  gi_answered_by :: pyval
  gi_answered_at :: pyval

text \<open>\<open>_which\<close>\<close>

definition which_gate :: "gate_info \<Rightarrow> string" where
  "which_gate g = quoted (py_str (py_or (PStr (gi_path g)) (gi_node_name g))) @
     (if truthy (gi_round g) then '', round '' @ py_str (gi_round g) else [])"

definition refusal :: "gate_info \<Rightarrow> string \<times> string" where
  "refusal g =
     (let who = (if truthy (gi_answered_by g) then '' by '' @ py_str (gi_answered_by g) else []);
          at_time = (if truthy (gi_answered_at g) then '' at '' @ py_str (gi_answered_at g) else [])
      in if gi_status g = PStr ''approved'' then
           (''already_answered'', ''Already answered'' @ who @ at_time @ '': the approval at '' @ which_gate g @
              '' is closed, so this one changed nothing.'')
         else if gi_status g = PStr ''rejected'' then
           (''already_rejected'', ''Already turned down'' @ who @ at_time @ '' (the run was stopped at '' @ which_gate g @
              ''), so this approval changed nothing.'')
         else if gi_status g = PStr ''replaced'' then
           (''replaced'', ''This approval at '' @ which_gate g @
              '' was replaced: the run was picked up again and asks again in a new one. Nothing was changed; answer the open one.'')
         else (''closed'', ''The approval at '' @ which_gate g @ '' is not open ('' @ py_str (gi_status g) @ ''); nothing was changed.''))"

definition several_waiting :: "string \<Rightarrow> gate_info list \<Rightarrow> string \<times> string" where
  "several_waiting node_name waits =
     (''several_waiting'',
      nat_str (length waits) @ '' approvals named '' @ quoted node_name @ '' are waiting: '' @
      join ''; '' (map (\<lambda>g. which_gate g @ '' (event_id '' @ py_str (gi_event_id g) @ '')'') waits) @
      ''. Nothing was approved; say which one with its event_id.'')"

section \<open>Normal forms\<close>

lemma said_Some: "said v = Some s \<Longrightarrow> said (PStr s) = Some s \<and> s \<noteq> []"
  by (auto simp: said_def split: pyval.splits if_splits)

lemma map_filter_first: "List.map_filter f xs = y # ys \<Longrightarrow> \<exists>x. f x = Some y"
  by (induction xs) (auto simp: List.map_filter_simps split: option.splits)

lemma map_filter_fixed: "list_all (\<lambda>x. f x = Some x) xs \<Longrightarrow> List.map_filter f xs = xs"
  by (induction xs) (auto simp: List.map_filter_simps)

lemma map_filter_image: "(\<And>x y. f x = Some y \<Longrightarrow> P y) \<Longrightarrow> list_all P (List.map_filter f xs)"
  by (induction xs) (auto simp: List.map_filter_simps split: option.splits)

lemma field_cases:
  obtains (none) "field_or_alias raw k names = []"
  | (one) s where "field_or_alias raw k names = [(k, PStr s)]" and "said (PStr s) = Some s" and "s \<noteq> []"
  using map_filter_first [of "\<lambda>n. said (dget_or raw n PNone)" names] said_Some
  by (cases "List.map_filter (\<lambda>n. said (dget_or raw n PNone)) names") (fastforce simp: field_or_alias_def)+

lemma said_None [simp]: "said PNone = None"
  by (simp add: said_def)

lemmas read_field = field_or_alias_def List.map_filter_simps dget_or_def

lemma question_option_fixed:
  assumes "question_option opt = Some o'"
  shows "question_option o' = Some o'"
proof (cases opt)
  case (PStr s)
  then obtain l where "said opt = Some l" and o': "o' = PDict [(''label'', PStr l)]" using assms by (auto simp: question_option_def)
  then show ?thesis using said_Some by (simp add: o' question_option_def option_field_def read_field)
next
  case (PDict d)
  then obtain l where l: "said (dget_or d ''label'' PNone) = Some l"
    and o': "o' = PDict ([(''label'', PStr l)] @ option_field d ''description'' @ option_field d ''preview'')"
    using assms by (auto simp: question_option_def)
  show ?thesis
    by (rule field_cases [of d "''description''" "[''description'']"]; rule field_cases [of d "''preview''" "[''preview'']"])
      (use said_Some [OF l] in \<open>auto simp: o' question_option_def option_field_def read_field\<close>)
qed (use assms in \<open>auto simp: question_option_def\<close>)

lemma options_fixed: "List.map_filter question_option (List.map_filter question_option opts) = List.map_filter question_option opts"
  by (intro map_filter_fixed map_filter_image) (rule question_option_fixed)

text \<open>A normalised question is left as it is by normalising it again, whatever its number then.\<close>

theorem normalise_question_idem:
  assumes "normalise_question raw i = Inr (Some q)"
  shows "normalise_question (PDict q) j = Inr (Some q)"
proof (cases raw)
  case (PStr s)
  then obtain t where t: "said raw = Some t" and q: "q = [(''id'', PStr (CHR ''q'' # nat_str i)), (''question'', PStr t)]"
    using assms by (auto simp: normalise_question_def)
  show ?thesis using said_Some [OF t] by (simp add: q normalise_question_def py_or_def read_field py_str_def Let_def)
next
  case (PDict d)
  obtain asked where asked: "said (py_or (dget_or d ''question'' PNone) (py_or (dget_or d ''text'' PNone) (dget_or d ''prompt'' PNone))) = Some asked"
    using assms PDict by (auto simp: normalise_question_def split: option.splits)
  obtain opts where opts: "py_iter (py_or (dget_or d ''options'' PNone) (PList [])) = Inr opts"
    using assms PDict asked by (auto simp: normalise_question_def bind_res_Inr)
  define ident where "ident = py_str (py_or (dget_or d ''id'' PNone) (PStr (CHR ''q'' # nat_str i)))"
  have ident: "ident \<noteq> []" by (auto simp: ident_def py_or_def dest: py_str_truthy) (simp add: py_str_def)
  define multi where "multi = dget_or d ''multiSelect'' (dget_or d ''multi_select'' PNone)"
  have q: "q = [(''id'', PStr ident), (''question'', PStr asked)] @ field_or_alias d ''header'' [''header'', ''key''] @
      field_or_alias d ''detail'' [''detail'', ''context''] @
      (if List.map_filter question_option opts = [] then [] else [(''options'', PList (List.map_filter question_option opts))]) @
      (if multi = PNone then [] else [(''multiSelect'', PBool (truthy multi))])"
    using assms PDict asked opts by (auto simp: normalise_question_def ident_def multi_def Let_def)
  note again = said_Some [OF asked] ident options_fixed [of opts]
  show ?thesis
    by (rule field_cases [of d "''header''" "[''header'', ''key'']"]; rule field_cases [of d "''detail''" "[''detail'', ''context'']"])
      (use again in \<open>simp_all add: q normalise_question_def py_or_def read_field py_str_def Let_def\<close>)
qed (use assms in \<open>auto simp: normalise_question_def\<close>)

lemma nonblank_fixed: "nonblank v = Some s \<Longrightarrow> nonblank (PStr s) = Some s"
  by (auto simp: nonblank_def split: pyval.splits if_splits)

lemma stripped_PStr [simp]: "stripped (PStr s) = strip s"
  by (simp add: stripped_def)

lemma strip_stripped [simp]: "strip (stripped v) = stripped v"
  by (auto simp: stripped_def split: pyval.split)

text \<open>An answer is normal when normalising the dictionary of it gives it back.\<close>

definition normal_answer :: "answer \<Rightarrow> bool" where
  "normal_answer a = (\<forall>n. normalise_answer n (answer_dict a) = Inr (Some a))"

lemma map_filter_nonblank: "list_all (\<lambda>s. nonblank (PStr s) = Some s) xs \<Longrightarrow> List.map_filter nonblank (map PStr xs) = xs"
  by (induction xs) (auto simp: List.map_filter_simps)

lemma normalise_answer_normal:
  assumes "normalise_answer n raw = Inr (Some a)"
  shows "normal_answer a"
proof -
  obtain d where raw: "raw = PDict d" using assms by (cases raw) (auto simp: normalise_answer_def)
  obtain items where items: "py_iter (py_or (dget_or d ''selected'' PNone) (PList [])) = Inr items"
    using assms raw by (auto simp: normalise_answer_def bind_res_Inr)
  define custom where "custom = stripped (dget_or d ''custom'' PNone)"
  define selected where "selected = List.map_filter nonblank items"
  define ident where "ident = py_str (py_or (dget_or d ''id'' PNone) (PStr (CHR ''q'' # nat_str (n + 1))))"
  define question where "question = strip (py_str (py_or (dget_or d ''question'' PNone) (PStr [])))"
  have ident: "ident \<noteq> []" by (auto simp: ident_def py_or_def dest: py_str_truthy) (simp add: py_str_def)
  have a: "a = \<lparr>an_id = ident, an_question = question, an_selected = selected, an_custom = custom\<rparr>" and some: "selected \<noteq> [] \<or> custom \<noteq> []"
    using assms raw items by (auto simp: normalise_answer_def Let_def selected_def custom_def ident_def question_def split: if_splits)
  have sel: "List.map_filter nonblank (map PStr selected) = selected"
    unfolding selected_def by (intro map_filter_nonblank map_filter_image) (rule nonblank_fixed)
  have items': "py_iter (py_or (PList (map PStr selected)) (PList [])) = Inr (map PStr selected)" by (auto simp: py_or_def)
  have fixed: "strip custom = custom" "strip question = question" by (simp_all add: custom_def question_def)
  show ?thesis
    using some ident fixed
    by (auto simp: normal_answer_def answer_dict_def a normalise_answer_def dget_or_def items' sel py_or_def py_str_def)
qed

lemma normalise_answers_normal: "normalise_answers n raws = Inr as \<Longrightarrow> list_all normal_answer as"
proof (induction raws arbitrary: n as)
  case (Cons raw raws)
  then obtain a where a: "normalise_answer n raw = Inr a" by (auto simp: bind_res_Inr)
  show ?case
  proof (cases a)
    case (Some x)
    then show ?thesis using Cons a normalise_answer_normal [of n raw x] by (auto simp: bind_res_Inr)
  qed (use Cons a in auto)
qed simp

lemma normalise_normal_answers: "list_all normal_answer as \<Longrightarrow> normalise_answers n (map answer_dict as) = Inr as"
  by (induction as arbitrary: n) (auto simp: normal_answer_def)

text \<open>A response that was normalised is left as it is by normalising it again, its rendered text included: the
  gated step gets the same response whichever way, and however often, it went through the API.
\<close>

theorem normalise_response_idem:
  assumes "normalise_response body = Inr (Some r)"
  shows "normalise_response (Some r) = Inr (Some r)"
proof -
  obtain b where b: "body = Some b" "b \<noteq> []" using assms by (cases body) (auto simp: normalise_response_def split: list.splits)
  obtain raw answers where raw: "py_iter (py_or (dget_or b ''answers'' PNone) (PList [])) = Inr raw"
    and answers: "normalise_answers 0 raw = Inr answers"
    using assms b by (cases b) (auto simp: normalise_response_def bind_res_Inr)
  define response where "response = stripped (dget_or b ''response'' PNone)"
  have r: "r = response_dict answers response" and some: "response \<noteq> [] \<or> answers \<noteq> []"
    using assms b raw answers by (cases b; auto simp: normalise_response_def response_def Let_def split: if_splits)+
  have items: "py_iter (py_or (PList (map answer_dict answers)) (PList [])) = Inr (map answer_dict answers)" by (auto simp: py_or_def)
  have again: "normalise_answers 0 (map answer_dict answers) = Inr answers"
    using normalise_normal_answers normalise_answers_normal [OF answers] by blast
  have "strip response = response" by (simp add: response_def)
  then show ?thesis using some by (auto simp: r response_dict_def normalise_response_def dget_or_def items again)
qed

theorem normalise_response_idem_witness:
  "normalise_response (Some (response_dict [\<lparr>an_id = ''q1'', an_question = ''Ship it?'', an_selected = [''yes''], an_custom = []\<rparr>] ''go'')) =
     Inr (Some (response_dict [\<lparr>an_id = ''q1'', an_question = ''Ship it?'', an_selected = [''yes''], an_custom = []\<rparr>] ''go''))"
proof -
  have "normalise_response (Some [(''response'', PStr '' go ''),
      (''answers'', PList [PDict [(''question'', PStr ''Ship it? ''), (''selected'', PList [PStr ''yes'', PStr '' ''])], PStr ''no'']) ]) =
     Inr (Some (response_dict [\<lparr>an_id = ''q1'', an_question = ''Ship it?'', an_selected = [''yes''], an_custom = []\<rparr>] ''go''))"
    by code_simp
  then show ?thesis by (rule normalise_response_idem)
qed

theorem normalise_question_idem_witness:
  "normalise_question (PDict [(''id'', PStr ''q4''), (''question'', PStr ''Which?''), (''header'', PStr ''Choice''), (''multiSelect'', PBool True)]) 9 =
     Inr (Some [(''id'', PStr ''q4''), (''question'', PStr ''Which?''), (''header'', PStr ''Choice''), (''multiSelect'', PBool True)])"
proof -
  have "normalise_question (PDict [(''text'', PStr ''Which? ''), (''key'', PStr '' Choice''), (''multi_select'', PInt 2)]) 4 =
     Inr (Some [(''id'', PStr ''q4''), (''question'', PStr ''Which?''), (''header'', PStr ''Choice''), (''multiSelect'', PBool True)])"
    by code_simp
  then show ?thesis by (rule normalise_question_idem)
qed

end
