(* ===== verification/Gate.thy ===== *)
theory Gate
  imports World Gate_Text
begin

text \<open>
  Gates: a step that waits for a person before it runs. What a wait is and which earlier waits of a step still count
  (\<^verbatim>\<open>temper_ai/stage/gate.py\<close>), the events a wait is kept in and the compare-and-set that decides it
  (\<^verbatim>\<open>temper_ai/observability/recorder.py\<close>), and the executor's side of a wait (\<^verbatim>\<open>_wait_for_gate\<close>,
  \<^verbatim>\<open>_wait_for_approval\<close>, \<^verbatim>\<open>_retire_wait\<close>, \<^verbatim>\<open>_use_earlier_answer\<close>, \<^verbatim>\<open>_keep_gate_answer\<close> of
  \<^verbatim>\<open>temper_ai/stage/executor.py\<close>).

  People answer while the worker works: every single read and write of the worker is one step of its own, and
  between any two of them a wait may be approved or turned down, or the worker may stop (it dies, is cancelled,
  or lets itself go while it waits) and the run be picked up again from the start of its gate. The answers come
  through the database, as for a worker in a process of its own: the registry of in-process signals is empty.
\<close>

section \<open>The events of the waits\<close>

record wait_event =
  we_id :: string
  we_status :: string
  we_data :: "pyval dict"

type_synonym wait_log = "wait_event list"

definition WAITING :: string where "WAITING = ''waiting''"
definition APPROVED :: string where "APPROVED = ''approved''"
definition REJECTED :: string where "REJECTED = ''rejected''"
definition REPLACED :: string where "REPLACED = ''replaced''"

definition wfield :: "wait_event \<Rightarrow> string \<Rightarrow> pyval" where
  "wfield e k = dget_or (we_data e) k PNone"

definition get_event :: "string \<Rightarrow> wait_log \<Rightarrow> wait_event option" where
  "get_event ident evs = find (\<lambda>e. we_id e = ident) evs"

definition change_event :: "string \<Rightarrow> string \<Rightarrow> pyval dict \<Rightarrow> wait_log \<Rightarrow> wait_log" where
  "change_event ident st data evs =
     map (\<lambda>e. if we_id e = ident then e\<lparr>we_status := st, we_data := dmerge (we_data e) data\<rparr> else e) evs"

text \<open>\<open>decide_event\<close>: the status changes only while it is one of the expected ones.\<close>

definition decide :: "string \<Rightarrow> string list \<Rightarrow> string \<Rightarrow> pyval dict \<Rightarrow> wait_log \<Rightarrow> (bool \<times> wait_event option) \<times> wait_log" where
  "decide ident expect st data evs =
     (case get_event ident evs of
        None \<Rightarrow> ((False, None), evs)
      | Some e \<Rightarrow>
          if we_status e \<notin> set expect then ((False, Some e), evs)
          else ((True, Some (e\<lparr>we_status := st, we_data := dmerge (we_data e) data\<rparr>)), change_event ident st data evs))"

definition GATE_STATUSES :: "string list" where
  "GATE_STATUSES = [WAITING, APPROVED, REJECTED, REPLACED]"

definition gate_events :: "string \<Rightarrow> wait_log \<Rightarrow> wait_event list" where
  "gate_events name evs =
     filter (\<lambda>e. we_status e \<in> set GATE_STATUSES \<and> truthy (wfield e ''gate'') \<and> wfield e ''name'' = PStr name) evs"

section \<open>Which wait is which\<close>

definition gate_path :: "wait_event \<Rightarrow> string" where
  "gate_path e = (if truthy (wfield e ''gate_path'') then py_str (wfield e ''gate_path'')
                  else if truthy (wfield e ''name'') then py_str (wfield e ''name'') else [])"

definition names_gate :: "wait_event \<Rightarrow> string \<Rightarrow> bool" where
  "names_gate e n = (n \<noteq> [] \<and> (wfield e ''name'' = PStr n \<or> wfield e ''gate_path'' = PStr n))"

record earlier =
  ew_answer :: "wait_event option"
  ew_adopt :: "wait_event option"
  ew_retire :: "wait_event list"
  ew_round :: pyval

definition has_path :: "wait_event \<Rightarrow> bool" where
  "has_path e = truthy (wfield e ''gate_path'')"

definition is_mine :: "string \<Rightarrow> string \<Rightarrow> wait_event \<Rightarrow> bool" where
  "is_mine path name e = (if has_path e then wfield e ''gate_path'' = PStr path else wfield e ''name'' = PStr name)"

definition used :: "wait_event \<Rightarrow> bool" where
  "used e = truthy (wfield e ''gate_used_at'')"

definition unused_answer :: "wait_event \<Rightarrow> bool" where
  "unused_answer e = (we_status e = APPROVED \<and> \<not> used e \<and> (has_path e \<or> truthy (wfield e ''gate_kept_for_resume'')))"

definition or_round :: "pyval \<Rightarrow> nat \<Rightarrow> pyval" where
  "or_round v n = (if truthy v then v else PInt (int n))"

definition earlier_waits :: "wait_event list \<Rightarrow> string \<Rightarrow> string \<Rightarrow> earlier" where
  "earlier_waits history path name =
     (let mine = filter (is_mine path name) history;
          decided = filter (\<lambda>e. has_path e \<and> we_status e \<in> {APPROVED, REJECTED}) mine;
          opened = filter (\<lambda>e. we_status e = WAITING) mine
      in case filter unused_answer mine of
           a # _ \<Rightarrow> \<lparr>ew_answer = Some a, ew_adopt = None, ew_retire = opened, ew_round = or_round (wfield a ''gate_round'') (length decided)\<rparr>
         | [] \<Rightarrow>
             (case rev (filter has_path opened) of
                ad # _ \<Rightarrow> \<lparr>ew_answer = None, ew_adopt = Some ad, ew_retire = filter (\<lambda>e. we_id e \<noteq> we_id ad) opened,
                           ew_round = or_round (wfield ad ''gate_round'') (length decided + 1)\<rparr>
              | [] \<Rightarrow> \<lparr>ew_answer = None, ew_adopt = None, ew_retire = opened, ew_round = PInt (int (length decided) + 1)\<rparr>))"

section \<open>The executor's side\<close>

text \<open>Every write carries the time it was made, which is an argument.\<close>

definition retire_wait :: "string \<Rightarrow> wait_event \<Rightarrow> string \<Rightarrow> wait_log \<Rightarrow> wait_event option \<times> wait_log" where
  "retire_wait now e took_over_by evs =
     (case decide (we_id e) [WAITING] REPLACED
         [(''gate_status'', PStr REPLACED), (''gate_replaced_at'', PStr now), (''gate_replaced_by'', PStr took_over_by)] evs of
        ((True, _), evs') \<Rightarrow> (None, evs')
      | ((False, Some after), evs') \<Rightarrow> (if we_status after = APPROVED \<and> \<not> used after then Some after else None, evs')
      | ((False, None), evs') \<Rightarrow> (None, evs'))"

definition response_of :: "wait_event \<Rightarrow> pyval dict option" where
  "response_of e = (case wfield e ''gate_response'' of PDict d \<Rightarrow> Some d | _ \<Rightarrow> None)"

definition use_earlier_answer :: "string \<Rightarrow> wait_event \<Rightarrow> wait_log \<Rightarrow> pyval dict option \<times> wait_log" where
  "use_earlier_answer now answer evs =
     (response_of answer,
      change_event (we_id answer) APPROVED [(''gate_status'', PStr APPROVED), (''gate_used_at'', PStr now)] evs)"

text \<open>The end of a wait that was approved: the answer, and the wait written down as used.\<close>

definition take_answer :: "string \<Rightarrow> string \<Rightarrow> wait_log \<Rightarrow> pyval dict option \<times> wait_log" where
  "take_answer now ident evs =
     (let response = (case get_event ident evs of None \<Rightarrow> None | Some e \<Rightarrow> response_of e)
      in (response,
          change_event ident APPROVED ([(''gate_status'', PStr APPROVED), (''gate_used_at'', PStr now)] @
            (case response of Some (p # ps) \<Rightarrow> [(''gate_response'', PDict (p # ps))] | _ \<Rightarrow> [])) evs))"

fun keep_newest :: "string \<Rightarrow> string \<Rightarrow> string \<Rightarrow> wait_event list \<Rightarrow> wait_log \<Rightarrow> wait_log" where
  "keep_newest now path while_waiting [] evs = evs"
| "keep_newest now path while_waiting (e # es) evs =
     (if wfield e ''gate_path'' \<noteq> PStr path \<or> we_status e \<noteq> APPROVED then keep_newest now path while_waiting es evs
      else if used e then change_event (we_id e) APPROVED
        [(''gate_used_at'', PNone), (''gate_kept_at'', PStr now), (''gate_kept_while'', PStr while_waiting)] evs
      else evs)"

definition keep_gate_answer :: "string \<Rightarrow> string \<Rightarrow> string \<Rightarrow> string \<Rightarrow> wait_log \<Rightarrow> wait_log" where
  "keep_gate_answer now path name while_waiting evs = keep_newest now path while_waiting (rev (gate_events name evs)) evs"

text \<open>Where a worker is at its gate.\<close>

datatype gate_state =
    Arriving
  | Retiring "wait_event list" "wait_event option" "wait_event option" string pyval   \<comment> \<open>to retire, answer, adopted wait, new id, round\<close>
  | Using wait_event
  | AtGate string   \<comment> \<open>waiting on the wait with this id\<close>
  | Taking string
  | Passed "pyval dict option"
  | StoodDown
  | GateRaised exn   \<comment> \<open>the questions of an upstream output could not be read\<close>

definition opening_data :: "node \<Rightarrow> string \<Rightarrow> pyval \<Rightarrow> pyval \<Rightarrow> pyval dict" where
  "opening_data n path gate_round gate_context =
     dmerge (build_node_event_data n)
       [(''gate'', PBool True), (''gate_status'', PStr WAITING), (''gate_path'', PStr path), (''gate_round'', gate_round),
        (''gate_context'', gate_context)]"

text \<open>The step, its path in the run and what the person is shown.\<close>

record gated_step =
  gt_node :: node
  gt_path :: string
  gt_context :: "pyval res"

definition gate_at :: "(string \<Rightarrow> pyval option) \<Rightarrow> exec_context \<Rightarrow> node \<Rightarrow> node_result dict \<Rightarrow> gated_step" where
  "gate_at json_loads cx n outs =
     \<lparr>gt_node = n, gt_path = step_path cx n, gt_context = build_gate_context json_loads (deps_of n) outs\<rparr>"

abbreviation gt_name :: "gated_step \<Rightarrow> string" where
  "gt_name g \<equiv> name_of (gt_node g)"

text \<open>One read or write of the worker, at a time, with an id no event has.\<close>

fun gate_turn :: "gated_step \<Rightarrow> string \<Rightarrow> string \<Rightarrow> gate_state \<Rightarrow> wait_log \<Rightarrow> gate_state \<times> wait_log" where
  "gate_turn g now new_id Arriving evs =
     (let ew = earlier_waits (gate_events (gt_name g) evs) (gt_path g) (gt_name g)
      in (Retiring (ew_retire ew) (ew_answer ew) (ew_adopt ew) new_id (ew_round ew), evs))"
| "gate_turn g now new_id (Retiring (e # es) answer adopt nid rnd) evs =
     (let by = (case answer of Some a \<Rightarrow> we_id a | None \<Rightarrow> (case adopt of Some a \<Rightarrow> we_id a | None \<Rightarrow> nid));
          (meanwhile, evs') = retire_wait now e by evs
      in (Retiring es (case answer of Some a \<Rightarrow> Some a | None \<Rightarrow> meanwhile) adopt nid rnd, evs'))"
| "gate_turn g now new_id (Retiring [] (Some a) (Some ad) nid rnd) evs =
     (Retiring [] (Some a) None nid rnd, snd (retire_wait now ad (we_id a) evs))"
| "gate_turn g now new_id (Retiring [] (Some a) None nid rnd) evs = (Using a, evs)"
| "gate_turn g now new_id (Retiring [] None (Some ad) nid rnd) evs = (AtGate (we_id ad), evs)"
| "gate_turn g now new_id (Retiring [] None None nid rnd) evs =
     (case gt_context g of
        Inl e \<Rightarrow> (GateRaised e, evs)
      | Inr shown \<Rightarrow> (AtGate nid, evs @ [\<lparr>we_id = nid, we_status = WAITING, we_data = opening_data (gt_node g) (gt_path g) rnd shown\<rparr>]))"
| "gate_turn g now new_id (Using a) evs = (case use_earlier_answer now a evs of (r, evs') \<Rightarrow> (Passed r, evs'))"
| "gate_turn g now new_id (AtGate ident) evs =
     (case get_event ident evs of
        None \<Rightarrow> (AtGate ident, evs)
      | Some e \<Rightarrow> if we_status e = APPROVED then (Taking ident, evs)
                  else if we_status e = REPLACED then (StoodDown, evs)
                  else (AtGate ident, evs))"
| "gate_turn g now new_id (Taking ident) evs = (case take_answer now ident evs of (r, evs') \<Rightarrow> (Passed r, evs'))"
| "gate_turn g now new_id (Passed r) evs = (Passed r, evs)"
| "gate_turn g now new_id StoodDown evs = (StoodDown, evs)"
| "gate_turn g now new_id (GateRaised e) evs = (GateRaised e, evs)"

section \<open>Reading what was written\<close>

lemma we_id_change [simp]: "map we_id (change_event i st d evs) = map we_id evs"
  by (simp add: change_event_def)

lemma find_map_id:
  "(\<And>e. we_id (f e) = we_id e) \<Longrightarrow> find (\<lambda>e. we_id e = i) (map f evs) = map_option f (find (\<lambda>e. we_id e = i) evs)"
  by (induction evs) auto

lemma get_change [simp]:
  "get_event i (change_event j st d evs) =
     (if i = j then map_option (\<lambda>e. e\<lparr>we_status := st, we_data := dmerge (we_data e) d\<rparr>) (get_event i evs) else get_event i evs)"
  by (induction evs) (auto simp: get_event_def change_event_def)

lemma get_append: "get_event i (evs @ [e]) = (case get_event i evs of Some e' \<Rightarrow> Some e' | None \<Rightarrow> if we_id e = i then Some e else None)"
  by (induction evs) (auto simp: get_event_def)

lemma get_mem: "get_event i evs = Some e \<Longrightarrow> e \<in> set evs \<and> we_id e = i"
  by (auto simp: get_event_def find_Some_iff)

lemma mem_get: "distinct (map we_id evs) \<Longrightarrow> e \<in> set evs \<Longrightarrow> get_event (we_id e) evs = Some e"
  by (induction evs) (auto simp: get_event_def)

lemma get_None: "get_event i evs = None \<longleftrightarrow> i \<notin> we_id ` set evs"
  by (auto simp: get_event_def find_None_iff)

lemma wfield_merged [simp]:
  "wfield (e\<lparr>we_status := st, we_data := dmerge (we_data e) d\<rparr>) k = (case dget (rev d) k of None \<Rightarrow> wfield e k | Some v \<Rightarrow> v)"
  by (simp add: wfield_def dget_or_def dget_dmerge split: option.split)

lemma mem_change:
  "e' \<in> set (change_event i st d evs) \<longleftrightarrow>
     (\<exists>e \<in> set evs. e' = (if we_id e = i then e\<lparr>we_status := st, we_data := dmerge (we_data e) d\<rparr> else e))"
  by (simp only: change_event_def set_map image_iff)

section \<open>Interleavings\<close>

text \<open>Data that says who decided and when: it leaves alone what tells which wait this is and whether it was used.\<close>

definition harmless :: "pyval dict \<Rightarrow> bool" where
  "harmless d = (\<forall>k \<in> set [''gate'', ''name'', ''gate_path'', ''gate_used_at'']. dget (rev d) k = None)"

text \<open>The wait whose answer a turn goes on with.\<close>

fun passing :: "gate_state \<Rightarrow> string list" where
  "passing (Using a) = [we_id a]"
| "passing (Taking i) = [i]"
| "passing _ = []"

definition still_used :: "wait_log \<Rightarrow> string \<Rightarrow> bool" where
  "still_used evs i = (case get_event i evs of None \<Rightarrow> False | Some e \<Rightarrow> used e)"

text \<open>
  \<open>gate_run g evs0 evs s given passed\<close>: from the log \<open>evs0\<close>, with \<open>given\<close> the waits a person approved and
  \<open>passed\<close> the waits whose answer let the step go on, one entry for each time (less the times its step was
  let go and will run again). One attempt of the run is alive at a time.
\<close>

inductive gate_run :: "gated_step \<Rightarrow> wait_log \<Rightarrow> wait_log \<Rightarrow> gate_state \<Rightarrow> string set \<Rightarrow> string list \<Rightarrow> bool" for g evs0 where
  begins: "gate_run g evs0 evs0 Arriving (we_id ` {e \<in> set evs0. we_status e = APPROVED}) []"
| turn: "gate_run g evs0 evs s given passed \<Longrightarrow> nid \<notin> we_id ` set evs \<Longrightarrow> now \<noteq> [] \<Longrightarrow> gate_turn g now nid s evs = (s', evs')
    \<Longrightarrow> gate_run g evs0 evs' s' given (passed @ passing s)"
| answered: "gate_run g evs0 evs s given passed \<Longrightarrow> harmless d \<Longrightarrow> st \<in> {APPROVED, REJECTED}
    \<Longrightarrow> decide i [WAITING] st d evs = ((won, e), evs')
    \<Longrightarrow> gate_run g evs0 evs' s (if won \<and> st = APPROVED then insert i given else given) passed"
| died: "gate_run g evs0 evs s given passed \<Longrightarrow> gate_run g evs0 evs Arriving given passed"
| let_go: "gate_run g evs0 evs (Passed r) given passed \<Longrightarrow> keep_gate_answer now (gt_path g) (gt_name g) waiting_on evs = evs'
    \<Longrightarrow> gate_run g evs0 evs' Arriving given (filter (still_used evs') passed)"

section \<open>What every interleaving keeps\<close>

definition answer_ready :: "wait_log \<Rightarrow> string \<Rightarrow> bool" where
  "answer_ready evs i = (\<exists>e. get_event i evs = Some e \<and> we_status e = APPROVED \<and> \<not> used e)"

definition unspent :: "wait_log \<Rightarrow> string \<Rightarrow> bool" where
  "unspent evs i = (\<exists>e. get_event i evs = Some e \<and> \<not> used e)"

definition open_here :: "gated_step \<Rightarrow> wait_event \<Rightarrow> bool" where
  "open_here g e = (we_status e = WAITING \<and> truthy (wfield e ''gate'') \<and> wfield e ''name'' = PStr (gt_name g)
                    \<and> is_mine (gt_path g) (gt_name g) e)"

definition open_ids :: "gated_step \<Rightarrow> wait_log \<Rightarrow> string set" where
  "open_ids g evs = we_id ` {e \<in> set evs. open_here g e}"

definition waits_ok :: "wait_log \<Rightarrow> string set \<Rightarrow> string list \<Rightarrow> bool" where
  "waits_ok evs given passed \<longleftrightarrow>
     distinct (map we_id evs) \<and> finite given
     \<and> (\<forall>i e. get_event i evs = Some e \<longrightarrow> (we_status e = APPROVED \<longrightarrow> i \<in> given) \<and> (we_status e = WAITING \<longrightarrow> \<not> used e))
     \<and> distinct passed \<and> (\<forall>i \<in> set passed. \<exists>e. get_event i evs = Some e \<and> we_status e = APPROVED \<and> used e)"

fun at_state :: "gated_step \<Rightarrow> wait_log \<Rightarrow> gate_state \<Rightarrow> bool" where
  "at_state g evs (Retiring es answer adopt nid rnd) \<longleftrightarrow>
     nid \<notin> we_id ` set evs \<and> pred_option (\<lambda>a. answer_ready evs (we_id a)) answer \<and> pred_option (\<lambda>a. unspent evs (we_id a)) adopt
     \<and> open_ids g evs \<subseteq> we_id ` (set es \<union> set_option adopt)"
| "at_state g evs (Using a) \<longleftrightarrow> answer_ready evs (we_id a) \<and> open_ids g evs = {}"
| "at_state g evs (AtGate i) \<longleftrightarrow> unspent evs i \<and> open_ids g evs \<subseteq> {i}"
| "at_state g evs (Taking i) \<longleftrightarrow> answer_ready evs i \<and> open_ids g evs = {}"
| "at_state g evs (Passed r) \<longleftrightarrow> open_ids g evs = {}"
| "at_state g evs _ \<longleftrightarrow> True"

lemma harmless_fields:
  assumes "harmless d"
  shows "used (e\<lparr>we_status := st, we_data := dmerge (we_data e) d\<rparr>) = used e"
    and "is_mine p n (e\<lparr>we_status := st, we_data := dmerge (we_data e) d\<rparr>) = is_mine p n e"
  using assms by (simp_all add: harmless_def used_def is_mine_def has_path_def)

lemmas status_defs = WAITING_def APPROVED_def REJECTED_def REPLACED_def

lemma open_ids_simps [simp]:
  "open_ids g [] = {}"
  "open_ids g (e # evs) = (if open_here g e then {we_id e} else {}) \<union> open_ids g evs"
  "open_ids g (evs @ evs') = open_ids g evs \<union> open_ids g evs'"
  by (auto simp: open_ids_def)

lemma open_ids_change:
  assumes "st \<noteq> WAITING"
  shows "open_ids g (change_event i st d evs) = open_ids g evs - {i}"
proof (induction evs)
  case (Cons e evs)
  have "\<not> open_here g (e\<lparr>we_status := st, we_data := dmerge (we_data e) d\<rparr>)" using assms by (simp add: open_here_def)
  then show ?case using Cons by (auto simp: change_event_def)
qed (simp add: change_event_def)

text \<open>A wait that was open is decided, by a person or by the run that replaces it.\<close>

lemma decided_ok:
  assumes "waits_ok evs given passed" and "get_event i evs = Some e" and "we_status e = WAITING" and "harmless d"
    and "st \<noteq> WAITING" and "st = APPROVED \<Longrightarrow> i \<in> given'" and "given \<subseteq> given'" and "finite given'"
  shows "waits_ok (change_event i st d evs) given' passed"
proof -
  have "i \<notin> set passed" using assms(1-3) by (auto simp: waits_ok_def status_defs)
  then show ?thesis using assms by (auto simp: waits_ok_def harmless_fields dest: bspec split: if_splits)
qed

lemma decided_ready:
  assumes "get_event i evs = Some e" and "we_status e = WAITING" and "harmless d"
  shows "answer_ready evs j \<Longrightarrow> answer_ready (change_event i st d evs) j"
    and "unspent evs j \<Longrightarrow> unspent (change_event i st d evs) j"
  using assms by (auto simp: answer_ready_def unspent_def harmless_fields status_defs split: if_splits)

lemma we_ids_change [simp]: "we_id ` set (change_event i st d evs) = we_id ` set evs"
  by (metis list.set_map we_id_change)

lemma decided_at:
  assumes "get_event i evs = Some e" and "we_status e = WAITING" and "harmless d" and "st \<noteq> WAITING" and "at_state g evs s"
  shows "at_state g (change_event i st d evs) s"
  using assms(5) open_ids_change [OF assms(4)] decided_ready [OF assms(1-3)]
  by (cases s) (auto simp: option.pred_set)

lemma retire_cases:
  assumes "retire_wait now e by_id evs = (m, evs')"
  obtains (closed) x d where "get_event (we_id e) evs = Some x" and "we_status x = WAITING" and "harmless d" and "m = None"
      and "evs' = change_event (we_id e) REPLACED d evs"
  | (kept) "evs' = evs" and "pred_option (\<lambda>a. answer_ready evs (we_id a)) m"
      and "\<And>x. get_event (we_id e) evs = Some x \<Longrightarrow> we_status x \<noteq> WAITING"
proof (cases "get_event (we_id e) evs")
  case None
  then show ?thesis using assms kept by (auto simp: retire_wait_def decide_def)
next
  case (Some x)
  note x = get_mem [OF Some]
  show ?thesis
  proof (cases "we_status x = WAITING")
    case True
    let ?d = "[(''gate_status'', PStr REPLACED), (''gate_replaced_at'', PStr now), (''gate_replaced_by'', PStr by_id)]"
    have "harmless ?d" by (simp add: harmless_def)
    moreover have "m = None" "evs' = change_event (we_id e) REPLACED ?d evs" using assms Some True by (auto simp: retire_wait_def decide_def)
    ultimately show ?thesis using closed [OF Some True] by blast
  next
    case False
    then have m: "m = (if we_status x = APPROVED \<and> \<not> used x then Some x else None)" and "evs' = evs"
      using assms Some by (auto simp: retire_wait_def decide_def)
    moreover have "pred_option (\<lambda>a. answer_ready evs (we_id a)) m" using Some x by (auto simp: m answer_ready_def)
    ultimately show ?thesis using kept Some False by auto
  qed
qed

lemma open_ids_get: "i \<in> open_ids g evs \<Longrightarrow> distinct (map we_id evs) \<Longrightarrow> \<exists>e. get_event i evs = Some e \<and> open_here g e"
  by (auto simp: open_ids_def dest: mem_get)

lemma retire_wait_ok:
  assumes "retire_wait now e by_id evs = (m, evs')" and "waits_ok evs given passed"
  shows "waits_ok evs' given passed \<and> pred_option (\<lambda>a. answer_ready evs' (we_id a)) m \<and>
    open_ids g evs' = open_ids g evs - {we_id e} \<and> we_id ` set evs' = we_id ` set evs \<and>
    (\<forall>i. answer_ready evs i \<longrightarrow> answer_ready evs' i) \<and> (\<forall>i. unspent evs i \<longrightarrow> unspent evs' i)"
  using assms(1)
proof (cases rule: retire_cases)
  case (closed x d)
  have fin: "finite given" using assms(2) by (simp add: waits_ok_def)
  have ne: "REPLACED \<noteq> WAITING" "REPLACED \<noteq> APPROVED" by (simp_all add: status_defs)
  show ?thesis
    using decided_ok [OF assms(2) closed(1-3) ne(1) _ subset_refl fin] decided_ready [OF closed(1-3)] open_ids_change [OF ne(1)] ne closed(4,5)
    by auto
next
  case kept
  have "we_id e \<notin> open_ids g evs"
    using open_ids_get [of "we_id e" g evs] kept(3) assms(2) by (auto simp: waits_ok_def open_here_def)
  then show ?thesis using assms(2) kept(1,2) by auto
qed

text \<open>An answer that is ready is written down as used.\<close>

lemma use_ok:
  assumes "waits_ok evs given passed" and "answer_ready evs i" and "dget (rev d) ''gate_used_at'' = Some v" and "truthy v"
  shows "waits_ok (change_event i APPROVED d evs) given (passed @ [i])"
proof -
  obtain e where e: "get_event i evs = Some e" "we_status e = APPROVED" "\<not> used e" using assms(2) by (auto simp: answer_ready_def)
  then have i: "i \<notin> set passed" "i \<in> given" using assms(1) by (auto simp: waits_ok_def)
  have u: "used (x\<lparr>we_status := APPROVED, we_data := dmerge (we_data x) d\<rparr>)" for x using assms(3,4) by (simp add: used_def)
  have "APPROVED \<noteq> WAITING" by (simp add: status_defs)
  then show ?thesis using assms(1) e i u by (auto simp: waits_ok_def split: if_splits)
qed

lemma earlier_state:
  assumes "waits_ok evs given passed" and "nid \<notin> we_id ` set evs"
    and "gate_turn g now nid Arriving evs = (s', evs')"
  shows "evs' = evs" and "at_state g evs s'"
proof -
  let ?h = "gate_events (gt_name g) evs" let ?ew = "earlier_waits ?h (gt_path g) (gt_name g)"
  let ?mine = "filter (is_mine (gt_path g) (gt_name g)) ?h"
  have s': "s' = Retiring (ew_retire ?ew) (ew_answer ?ew) (ew_adopt ?ew) nid (ew_round ?ew)" and "evs' = evs"
    using assms(3) by (auto simp: Let_def)
  then show "evs' = evs" by simp
  have sub: "set ?mine \<subseteq> set evs" by (auto simp: gate_events_def)
  have got: "get_event (we_id e) evs = Some e" if "e \<in> set ?mine" for e
    using that sub mem_get assms(1) by (auto simp: waits_ok_def)
  have opened: "open_ids g evs = we_id ` set (filter (\<lambda>e. we_status e = WAITING) ?mine)"
    by (auto simp: open_ids_def open_here_def gate_events_def GATE_STATUSES_def image_iff)
  have unspent: "unspent evs (we_id e)" if "e \<in> set ?mine" "we_status e = WAITING" for e
    using got [OF that(1)] assms(1) that(2) by (auto simp: unspent_def waits_ok_def)
  show "at_state g evs s'"
  proof (cases "filter unused_answer ?mine")
    case (Cons a as)
    then have "a \<in> set (filter unused_answer ?mine)" by simp
    then have a: "a \<in> set ?mine" "unused_answer a" by auto
    then have "answer_ready evs (we_id a)" using got by (auto simp: answer_ready_def unused_answer_def)
    then show ?thesis using Cons assms(2) opened by (simp add: s' earlier_waits_def Let_def)
  next
    case Nil
    show ?thesis
    proof (cases "rev (filter has_path (filter (\<lambda>e. we_status e = WAITING) ?mine))")
      case Nil
      then show ?thesis using \<open>filter unused_answer ?mine = []\<close> assms(2) opened by (simp add: s' earlier_waits_def Let_def)
    next
      case (Cons ad ads)
      then have "ad \<in> set (filter has_path (filter (\<lambda>e. we_status e = WAITING) ?mine))" by (metis list.set_intros(1) set_rev)
      then have "unspent evs (we_id ad)" using unspent by auto
      then show ?thesis using Cons \<open>filter unused_answer ?mine = []\<close> assms(2) opened
        by (auto simp: s' earlier_waits_def Let_def)
    qed
  qed
qed

lemma opening_fields [simp]:
  "wfield \<lparr>we_id = i, we_status = st, we_data = opening_data n path rnd shown\<rparr> ''gate_used_at'' = PNone"
  by (simp add: wfield_def opening_data_def dget_or_def build_node_event_data_def split: option.split list.split)

lemma opened_ok:
  assumes "waits_ok evs given passed" and "nid \<notin> we_id ` set evs"
  shows "waits_ok (evs @ [\<lparr>we_id = nid, we_status = WAITING, we_data = opening_data n path rnd shown\<rparr>]) given passed"
proof -
  have "get_event nid evs = None" using assms(2) by (simp add: get_None)
  then show ?thesis using assms by (auto simp: waits_ok_def get_append used_def status_defs split: option.splits)
qed

lemma retiring_ok:
  assumes "gate_turn g now new_id (Retiring es answer adopt nid rnd) evs = (s', evs')" and "waits_ok evs given passed"
    and "at_state g evs (Retiring es answer adopt nid rnd)"
  shows "waits_ok evs' given passed \<and> at_state g evs' s'"
proof (cases es)
  case (Cons e rest)
  define by_id where "by_id = (case answer of Some a \<Rightarrow> we_id a | None \<Rightarrow> (case adopt of Some a \<Rightarrow> we_id a | None \<Rightarrow> nid))"
  obtain m where m: "retire_wait now e by_id evs = (m, evs')"
      and s': "s' = Retiring rest (case answer of Some a \<Rightarrow> Some a | None \<Rightarrow> m) adopt nid rnd"
    using assms(1) Cons by (auto simp: by_id_def Let_def split: prod.splits)
  show ?thesis using retire_wait_ok [OF m assms(2), where g = g] assms(3) Cons by (auto simp: s' option.pred_set split: option.splits)
next
  case Nil
  consider (both) a ad where "answer = Some a" "adopt = Some ad" | (answer) a where "answer = Some a" "adopt = None"
    | (adopt) ad where "answer = None" "adopt = Some ad" | (ask) "answer = None" "adopt = None"
    by (cases answer; cases adopt) auto
  then show ?thesis
  proof cases
    case both
    obtain m where m: "retire_wait now ad (we_id a) evs = (m, evs')" and s': "s' = Retiring [] (Some a) None nid rnd"
      using assms(1) Nil both by (cases "retire_wait now ad (we_id a) evs") auto
    show ?thesis using retire_wait_ok [OF m assms(2), where g = g] assms(3) Nil both by (auto simp: s')
  next
    case answer
    then show ?thesis using assms Nil by auto
  next
    case adopt
    then show ?thesis using assms Nil by auto
  next
    case ask
    show ?thesis
    proof (cases "gt_context g")
      case (Inr shown)
      have fresh: "nid \<notin> we_id ` set evs" and "open_ids g evs = {}" using assms(3) Nil ask by auto
      moreover have "get_event nid evs = None" using fresh by (simp add: get_None)
      ultimately show ?thesis using assms(1,2) Nil ask Inr opened_ok by (auto simp: unspent_def get_append used_def)
    qed (use assms Nil ask in auto)
  qed
qed

lemma turn_ok:
  assumes "gate_turn g now nid s evs = (s', evs')" and "nid \<notin> we_id ` set evs" and "waits_ok evs given passed" and "at_state g evs s"
    and "now \<noteq> []"
  shows "waits_ok evs' given (passed @ passing s) \<and> at_state g evs' s'"
proof (cases s)
  case Arriving
  then show ?thesis using earlier_state [OF assms(3,2) assms(1) [unfolded Arriving]] assms(3) by simp
next
  case (Retiring es answer adopt nid' rnd)
  then show ?thesis using retiring_ok assms by auto
next
  case (Using a)
  have "APPROVED \<noteq> WAITING" by (simp add: status_defs)
  then show ?thesis using assms Using use_ok [OF assms(3)] by (auto simp: use_earlier_answer_def open_ids_change)
next
  case (AtGate i)
  then show ?thesis using assms open_ids_get [of i g evs]
    by (fastforce simp: unspent_def answer_ready_def waits_ok_def open_here_def status_defs split: if_splits option.splits)
next
  case (Taking i)
  have "APPROVED \<noteq> WAITING" by (simp add: status_defs)
  moreover have "dget (rev ([(''gate_status'', PStr APPROVED), (''gate_used_at'', PStr now)] @
      (case r of Some (p # ps) \<Rightarrow> [(''gate_response'', PDict (p # ps))] | _ \<Rightarrow> []))) ''gate_used_at'' = Some (PStr now)" for r
    by (auto split: option.split list.split)
  ultimately show ?thesis using assms Taking use_ok [OF assms(3)] by (auto simp: take_answer_def Let_def open_ids_change)
qed (use assms in auto)

lemma decision_cases:
  assumes "decide i [WAITING] st d evs = ((won, e), evs')"
  obtains (won) x where won and "get_event i evs = Some x" and "we_status x = WAITING" and "evs' = change_event i st d evs"
      and "e = get_event i evs'"
  | (lost) "\<not> won" and "evs' = evs" and "e = get_event i evs"
  using assms by (cases "get_event i evs") (auto simp: decide_def split: if_splits)

lemma answered_ok:
  assumes "decide i [WAITING] st d evs = ((won, e), evs')" and "harmless d" and "st \<in> {APPROVED, REJECTED}"
    and "waits_ok evs given passed" and "at_state g evs s"
  shows "waits_ok evs' (if won \<and> st = APPROVED then insert i given else given) passed \<and> at_state g evs' s"
  using assms(1)
proof (cases rule: decision_cases)
  case (won x)
  have st: "st \<noteq> WAITING" using assms(3) by (auto simp: status_defs)
  have "finite given" using assms(4) by (simp add: waits_ok_def)
  then show ?thesis using decided_ok [OF assms(4) won(2,3) assms(2) st] decided_at [OF won(2,3) assms(2) st assms(5)] won(1,4) by auto
qed (use assms in auto)

lemma keep_ok:
  assumes "waits_ok evs given passed" and "set es \<subseteq> set evs"
  shows "waits_ok (keep_newest now path w es evs) given (filter (still_used (keep_newest now path w es evs)) passed)"
  using assms(2)
proof (induction es)
  case Nil
  then show ?case using assms(1) by (auto simp: waits_ok_def)
next
  case (Cons e es)
  show ?case
  proof (cases "wfield e ''gate_path'' = PStr path \<and> we_status e = APPROVED \<and> used e")
    case True
    have "get_event (we_id e) evs = Some e" using Cons.prems mem_get assms(1) by (auto simp: waits_ok_def)
    then show ?thesis using True assms(1) by (auto simp: waits_ok_def still_used_def status_defs split: if_splits)
  next
    case False
    have "filter (still_used evs) passed = passed"
      using assms(1) by (auto simp: waits_ok_def still_used_def filter_id_conv split: option.splits)
    then show ?thesis using False Cons assms(1) by auto
  qed
qed

definition sound_log :: "wait_log \<Rightarrow> bool" where
  "sound_log evs = (distinct (map we_id evs) \<and> list_all (\<lambda>e. we_status e = WAITING \<longrightarrow> \<not> used e) evs)"

lemma gate_run_ok:
  assumes "gate_run g evs0 evs s given passed" and "sound_log evs0"
  shows "waits_ok evs given passed \<and> at_state g evs s"
  using assms(1)
proof (induction rule: gate_run.induct)
  case begins
  then show ?case using assms(2) get_mem by (fastforce simp: waits_ok_def sound_log_def list_all_iff)
next
  case (turn evs s given passed nid now s' evs')
  then show ?case using turn_ok by blast
next
  case (answered evs s given passed d st i won e evs')
  then show ?case using answered_ok by blast
next
  case (let_go evs r given passed now w evs')
  then have "set (rev (gate_events (gt_name g) evs)) \<subseteq> set evs" by (auto simp: gate_events_def)
  then show ?case using keep_ok let_go by (auto simp: keep_gate_answer_def)
qed simp

text \<open>C15: However a worker's reads and writes, the answers of people, the worker's stops and its later starts are
  interleaved, a gate lets its step go on only with the approval of a person, and each approval lets it go on
  at most once.
\<close>

theorem gate_passes_once_per_approval:
  assumes "gate_run g evs0 evs s given passed" and "sound_log evs0"
  shows "set passed \<subseteq> given \<and> distinct passed \<and> length passed \<le> card given"
proof -
  have ok: "waits_ok evs given passed" using gate_run_ok [OF assms] by simp
  then have "set passed \<subseteq> given" by (fastforce simp: waits_ok_def)
  then show ?thesis using ok by (metis card_mono distinct_card waits_ok_def)
qed

text \<open>C17: While a step waits at its gate the wait it waits on is the only one open there, so an approval that names
  the step alone reaches it.
\<close>

theorem one_wait_open_at_a_gate:
  assumes "gate_run g evs0 evs (AtGate i) given passed" and "sound_log evs0"
  shows "open_ids g evs \<subseteq> {i}"
  using gate_run_ok [OF assms] by simp

text \<open>Of two decisions on one wait exactly one gets through, and the other finds the first one's answer.\<close>

theorem decision_is_final:
  assumes "decide i [WAITING] st d evs = ((True, e), evs')" and "st \<noteq> WAITING"
  shows "decide i [WAITING] st' d' evs' = ((False, e), evs') \<and> map_option we_status e = Some st"
  using assms(1)
proof (cases rule: decision_cases)
  case (won x)
  then show ?thesis using assms(2) by (auto simp: decide_def)
qed auto

section \<open>A worker that is not interrupted\<close>

fun gate_turns :: "gated_step \<Rightarrow> string \<Rightarrow> string \<Rightarrow> nat \<Rightarrow> gate_state \<Rightarrow> wait_log \<Rightarrow> gate_state \<times> wait_log" where
  "gate_turns g now nid 0 s evs = (s, evs)"
| "gate_turns g now nid (Suc n) s evs = (case gate_turn g now nid s evs of (s', evs') \<Rightarrow> gate_turns g now nid n s' evs')"

lemma gate_turns_add: "gate_turns g now nid (m + n) s evs = (case gate_turns g now nid m s evs of (s', evs') \<Rightarrow> gate_turns g now nid n s' evs')"
  by (induction m arbitrary: s evs) (auto split: prod.splits)

lemma retire_ids: "retire_wait now e by_id evs = (m, evs') \<Longrightarrow> map we_id evs' = map we_id evs"
  by (erule retire_cases) auto

lemma retire_each:
  "\<exists>evs'. gate_turns g now nid (length es) (Retiring es (Some a) adopt n rnd) evs = (Retiring [] (Some a) adopt n rnd, evs')
     \<and> map we_id evs' = map we_id evs"
proof (induction es arbitrary: evs)
  case (Cons e es)
  obtain m evs1 where r: "retire_wait now e (we_id a) evs = (m, evs1)" by fastforce
  show ?case using Cons.IH [of evs1] retire_ids [OF r] by (auto simp: r)
qed simp

lemma answer_found:
  assumes "e \<in> set (gate_events (gt_name g) evs)" and "is_mine (gt_path g) (gt_name g) e" and "unused_answer e"
  obtains a es rnd where "a \<in> set (gate_events (gt_name g) evs)" and "is_mine (gt_path g) (gt_name g) a" and "unused_answer a"
    and "gate_turn g now nid Arriving evs = (Retiring es (Some a) None nid rnd, evs)"
proof -
  let ?answers = "filter unused_answer (filter (is_mine (gt_path g) (gt_name g)) (gate_events (gt_name g) evs))"
  have "?answers \<noteq> []" using assms by (auto simp: filter_empty_conv)
  then obtain a as where as: "?answers = a # as" by (meson list.exhaust)
  then have "a \<in> set ?answers" by simp
  then show ?thesis using that as by (auto simp: earlier_waits_def Let_def)
qed

text \<open>C16: A run that is picked up again does not ask twice: if an approval of its step was not used yet the worker
  goes on with the response of such an approval, and opens no wait.
\<close>

theorem approval_is_not_asked_for_again:
  assumes "e \<in> set (gate_events (gt_name g) evs)" and "is_mine (gt_path g) (gt_name g) e" and "unused_answer e"
  shows "\<exists>n a evs'. gate_turns g now nid n Arriving evs = (Passed (response_of a), evs') \<and> map we_id evs' = map we_id evs
    \<and> a \<in> set evs \<and> is_mine (gt_path g) (gt_name g) a \<and> unused_answer a"
proof -
  from assms obtain a es rnd where a: "a \<in> set (gate_events (gt_name g) evs)" "is_mine (gt_path g) (gt_name g) a" "unused_answer a"
    and first: "gate_turn g now nid Arriving evs = (Retiring es (Some a) None nid rnd, evs)" by (rule answer_found)
  obtain evs1 where mid: "gate_turns g now nid (length es) (Retiring es (Some a) None nid rnd) evs = (Retiring [] (Some a) None nid rnd, evs1)"
    and ids: "map we_id evs1 = map we_id evs" using retire_each by blast
  have "gate_turns g now nid (Suc (length es + 2)) Arriving evs =
      (Passed (response_of a), snd (use_earlier_answer now a evs1))"
    unfolding gate_turns.simps(2) first prod.case gate_turns_add mid by (simp add: numeral_2_eq_2 use_earlier_answer_def)
  moreover have "map we_id (snd (use_earlier_answer now a evs1)) = map we_id evs" using ids by (simp add: use_earlier_answer_def)
  moreover have "a \<in> set evs" using a(1) by (auto simp: gate_events_def)
  ultimately show ?thesis using a(2,3) by blast
qed

section \<open>An example\<close>

definition demo_step :: gated_step where
  "demo_step = \<lparr>gt_node = simple_node ''deploy'' [], gt_path = ''deploy'', gt_context = Inr (PDict [])\<rparr>"

definition demo_wait :: wait_event where
  "demo_wait = \<lparr>we_id = ''w1'', we_status = WAITING, we_data = opening_data (gt_node demo_step) ''deploy'' (PInt 1) (PDict [])\<rparr>"

definition demo_answered :: wait_log where
  "demo_answered = change_event ''w1'' APPROVED [(''gate_decided_by'', PStr ''ann'')] [demo_wait]"

lemma demo_waits: "gate_run demo_step [] [demo_wait] (AtGate ''w1'') {} []"
proof -
  have a: "gate_run demo_step [] [] Arriving {} []" using gate_run.begins [of demo_step "[]"] by simp
  have "gate_turn demo_step ''t'' ''w1'' Arriving [] = (Retiring [] None None ''w1'' (PInt 1), [])"
    by (simp add: gate_events_def earlier_waits_def Let_def)
  from gate_run.turn [OF a _ _ this] have b: "gate_run demo_step [] [] (Retiring [] None None ''w1'' (PInt 1)) {} []" by simp
  have "gate_turn demo_step ''t'' ''w1'' (Retiring [] None None ''w1'' (PInt 1)) [] = (AtGate ''w1'', [demo_wait])"
    by (simp add: demo_wait_def) (simp add: demo_step_def)
  from gate_run.turn [OF b _ _ this] show ?thesis by simp
qed

lemma demo_approved: "gate_run demo_step [] demo_answered (AtGate ''w1'') {''w1''} []"
proof -
  have d: "harmless [(''gate_decided_by'', PStr ''ann'')]" by (simp add: harmless_def)
  have "decide ''w1'' [WAITING] APPROVED [(''gate_decided_by'', PStr ''ann'')] [demo_wait] =
      ((True, Some (demo_wait\<lparr>we_status := APPROVED, we_data := dmerge (we_data demo_wait) [(''gate_decided_by'', PStr ''ann'')]\<rparr>)), demo_answered)"
    by (simp add: decide_def demo_answered_def get_event_def demo_wait_def)
  from gate_run.answered [OF demo_waits d _ this] show ?thesis by simp
qed

lemma demo_passed: "\<exists>evs r. gate_run demo_step [] evs (Passed r) {''w1''} [''w1'']"
proof -
  have "gate_turn demo_step ''t'' ''w2'' (AtGate ''w1'') demo_answered = (Taking ''w1'', demo_answered)"
    by (simp add: demo_answered_def get_event_def demo_wait_def change_event_def)
  from gate_run.turn [OF demo_approved _ _ this] have a: "gate_run demo_step [] demo_answered (Taking ''w1'') {''w1''} []"
    by (simp add: demo_answered_def demo_wait_def)
  obtain r evs where "take_answer ''t'' ''w1'' demo_answered = (r, evs)" by fastforce
  then have "gate_turn demo_step ''t'' ''w2'' (Taking ''w1'') demo_answered = (Passed r, evs)" by simp
  from gate_run.turn [OF a _ _ this] have "gate_run demo_step [] evs (Passed r) {''w1''} [''w1'']"
    by (simp add: demo_answered_def demo_wait_def)
  then show ?thesis by blast
qed

theorem gate_passes_once_per_approval_witness:
  "\<exists>evs r. gate_run demo_step [] evs (Passed r) {''w1''} [''w1''] \<and> set [''w1''] \<subseteq> {''w1''} \<and> distinct [''w1'']
     \<and> length [''w1''] \<le> card {''w1''}"
proof -
  obtain evs r where "gate_run demo_step [] evs (Passed r) {''w1''} [''w1'']" using demo_passed by blast
  then show ?thesis using gate_passes_once_per_approval by (fastforce simp: sound_log_def)
qed

theorem one_wait_open_at_a_gate_witness: "open_ids demo_step [demo_wait] \<subseteq> {''w1''}"
  by (rule one_wait_open_at_a_gate [OF demo_waits]) (simp add: sound_log_def)

theorem decision_is_final_witness:
  "decide ''w1'' [WAITING] REJECTED [] demo_answered = ((False, get_event ''w1'' demo_answered), demo_answered)"
proof -
  have "decide ''w1'' [WAITING] APPROVED [(''gate_decided_by'', PStr ''ann'')] [demo_wait] =
      ((True, get_event ''w1'' demo_answered), demo_answered)"
    by (simp add: decide_def demo_answered_def get_event_def demo_wait_def change_event_def)
  then show ?thesis using decision_is_final [of "''w1''" APPROVED] by (simp add: status_defs)
qed

theorem approval_is_not_asked_for_again_witness:
  "\<exists>n a evs'. gate_turns demo_step ''t'' ''w2'' n Arriving demo_answered = (Passed (response_of a), evs') \<and> map we_id evs' = [''w1'']"
proof -
  have "hd demo_answered \<in> set (gate_events (gt_name demo_step) demo_answered) \<and> is_mine (gt_path demo_step) (gt_name demo_step) (hd demo_answered)
      \<and> unused_answer (hd demo_answered)"
    by code_simp
  then show ?thesis using approval_is_not_asked_for_again [of "hd demo_answered" demo_step demo_answered "''t''" "''w2''"]
    by (fastforce simp: demo_answered_def demo_wait_def)
qed

end
