(* ===== verification/Plan.thy ===== *)
theory Plan
  imports Restore
begin

text \<open>
  What a resume will do with every step of a run: keep it, run it again, or make it again
  (\<^verbatim>\<open>temper_ai/stage/plan.py\<close>). The preview shows the plan, and \<open>build_restore\<close> gives the executor what it says.

  Sets of paths are lists. The dependencies of a step are a set in the program, so which of several reruns a
  reason names is left to the order of the list here.
\<close>

section \<open>The shape of a run\<close>

record pstep =
  ps_path :: string
  ps_name :: string
  ps_stage :: string
  ps_deps :: "string list"
  ps_reads :: "string list"
  ps_kind :: string
  ps_dispatched_by :: "string option"

definition path_in :: "string \<Rightarrow> string \<Rightarrow> string" where
  "path_in stage name = (if stage = [] then name else stage @ ''.'' @ name)"

text \<open>What a configuration says under the keys that are read: a node's own, or the saved dictionary of a dispatched node.\<close>

type_synonym config_view = "string \<Rightarrow> pyval"

definition opt_pyval :: "('a \<Rightarrow> pyval) \<Rightarrow> 'a option \<Rightarrow> pyval" where
  "opt_pyval f v = (case v of None \<Rightarrow> PNone | Some x \<Rightarrow> f x)"

definition node_view :: "node_config \<Rightarrow> config_view" where
  "node_view c k =
     (if k = ''input_map'' then opt_pyval PDict (nc_input_map c)
      else if k = ''condition'' then opt_pyval PDict (nc_condition c)
      else if k = ''loop_condition'' then opt_pyval PDict (nc_loop_condition c)
      else if k = ''required_files'' then opt_pyval PList (nc_required_files c)
      else PNone)"

definition dict_view :: "pyval dict \<Rightarrow> config_view" where
  "dict_view d k = dget_or d k PNone"

text \<open>The texts a value names: itself, or those among the values of a mapping.\<close>

definition texts_in :: "pyval \<Rightarrow> string list" where
  "texts_in v = (case v of PStr s \<Rightarrow> [s] | PDict d \<Rightarrow> List.map_filter (\<lambda>p. case snd p of PStr s \<Rightarrow> Some s | _ \<Rightarrow> None) d | _ \<Rightarrow> [])"

definition only_text :: "pyval \<Rightarrow> string list" where
  "only_text v = (case v of PStr s \<Rightarrow> [s] | _ \<Rightarrow> [])"

definition sources :: "config_view \<Rightarrow> string list res" where
  "sources cv =
     bind_res (case py_or (cv ''input_map'') (PDict []) of
         PDict d \<Rightarrow> Inr (concat (map (texts_in \<circ> snd) d))
       | v \<Rightarrow> raise AttributeError (quoted (type_name v) @ '' object has no attribute '' @ quoted ''values'')) (\<lambda>inputs.
     bind_res (py_iter (py_or (cv ''required_files'') (PList []))) (\<lambda>files.
       Inr (inputs @ only_text (cv ''condition'') @ only_text (cv ''loop_condition'') @ concat (map texts_in files))))"

definition names_step :: "string \<Rightarrow> string \<Rightarrow> bool" where
  "names_step name source =
     (source = name \<or> startswith (name @ ''.'') source \<or> has_sub (quoted name) source \<or> has_sub ([CHR 0x22] @ name @ [CHR 0x22]) source
      \<or> has_sub ('' '' @ name @ ''.'') source)"

definition reads_of :: "config_view \<Rightarrow> string list \<Rightarrow> string \<Rightarrow> string list res" where
  "reads_of cv siblings stage =
     bind_res (sources cv) (\<lambda>raw. Inr (map (path_in stage) (filter (\<lambda>name. list_ex (names_step name) raw) siblings)))"

definition step_kind :: "node_config \<Rightarrow> node list \<Rightarrow> string" where
  "step_kind c children =
     (case nc_undoes c of Some (u # us) \<Rightarrow> ''cleanup'' | _ \<Rightarrow> if children \<noteq> [] then ''stage'' else ''agent'')"

fun walk :: "string list \<Rightarrow> string \<Rightarrow> node list \<Rightarrow> pstep list res" where
  "walk names stage [] = Inr []"
| "walk names stage (Node k c a children f # nodes) =
     (let path = path_in stage (nc_name c)
      in bind_res (reads_of (node_view c) names stage) (\<lambda>reads.
         bind_res (walk (map name_of children) path children) (\<lambda>inner.
         bind_res (walk names stage nodes) (\<lambda>rest.
           Inr (\<lparr>ps_path = path, ps_name = nc_name c, ps_stage = stage, ps_deps = map (path_in stage) (nc_depends_on c), ps_reads = reads,
                 ps_kind = step_kind c children, ps_dispatched_by = None\<rparr> # inner @ rest)))))"

definition steps_of :: "node list \<Rightarrow> pstep list res" where
  "steps_of nodes = walk (map name_of nodes) [] nodes"

definition by_path :: "pstep list \<Rightarrow> string \<Rightarrow> pstep option" where
  "by_path steps p = find (\<lambda>s. ps_path s = p) (rev steps)"

definition step_name :: "pyval dict \<Rightarrow> string option" where
  "step_name d = (case dget_or d ''name'' PNone of PStr n \<Rightarrow> Some n | _ \<Rightarrow> None)"

fun add_each :: "string \<Rightarrow> string \<Rightarrow> string list \<Rightarrow> (string \<times> pyval dict) list \<Rightarrow> pstep list \<Rightarrow> pstep list res" where
  "add_each dispatcher graph names [] steps = Inr steps"
| "add_each dispatcher graph names ((name, d) # rest) steps =
     (if path_in graph name \<in> set (map ps_path steps) then add_each dispatcher graph names rest steps
      else bind_res (py_iter (py_or (dget_or d ''depends_on'' PNone) (PList []))) (\<lambda>deps.
           bind_res (reads_of (dict_view d) names graph) (\<lambda>reads.
             add_each dispatcher graph names rest
               (steps @ [\<lparr>ps_path = path_in graph name, ps_name = name, ps_stage = graph, ps_deps = map (path_in graph \<circ> py_str) deps,
                          ps_reads = reads, ps_kind = ''agent'', ps_dispatched_by = Some dispatcher\<rparr>]))))"

text \<open>A dispatch kept by name alone belongs to the graph its dispatcher is in.\<close>

definition graph_of_dispatch :: "pstep list \<Rightarrow> dispatch_entry \<Rightarrow> string" where
  "graph_of_dispatch walked e =
     (case de_graph_path e of
        Some g \<Rightarrow> g
      | None \<Rightarrow> (case by_path walked (de_dispatcher e) of Some s \<Rightarrow> ps_stage s | None \<Rightarrow> []))"

fun add_dispatched :: "pstep list \<Rightarrow> dispatch_entry list \<Rightarrow> pstep list \<Rightarrow> pstep list res" where
  "add_dispatched walked [] steps = Inr steps"
| "add_dispatched walked (e # es) steps =
     (let added = List.map_filter (\<lambda>d. map_option (\<lambda>n. (n, d)) (step_name d)) (de_added_nodes e)
      in bind_res (add_each (de_dispatcher e) (graph_of_dispatch walked e) (map fst added) added steps) (add_dispatched walked es))"

section \<open>The plan\<close>

definition mark :: "string \<Rightarrow> string \<Rightarrow> string dict \<Rightarrow> string dict" where
  "mark path reason reasons = (if dhas path reasons then reasons else dset path reason reasons)"

definition has_finished_child :: "pstep \<Rightarrow> 'a dict \<Rightarrow> bool" where
  "has_finished_child s outputs = (ps_kind s = ''stage'' \<and> list_ex (startswith (ps_path s @ ''.'')) (dkeys outputs))"

definition uses :: "pstep list \<Rightarrow> pstep \<Rightarrow> string \<Rightarrow> bool" where
  "uses steps s dep =
     (dep \<in> set (ps_reads s) \<or>
      \<not> (case by_path steps dep of
            None \<Rightarrow> False
          | Some other \<Rightarrow> ps_dispatched_by s \<notin> {None, Some []} \<and> ps_dispatched_by other = ps_dispatched_by s))"

definition short :: "string \<Rightarrow> string" where
  "short path = last (split_dot path)"

text \<open>What the steps themselves say: ticked, failed, or never finished.\<close>

definition own_reason :: "string list \<Rightarrow> string list \<Rightarrow> string list \<Rightarrow> 'a dict \<Rightarrow> string option \<Rightarrow> pstep \<Rightarrow> string option" where
  "own_reason ticked failed skipped outputs stopped_at s =
     (let p = ps_path s
      in if p \<in> set ticked then Some ''you asked for it to run again''
         else if p \<in> set failed
         then Some (if stopped_at = Some p then ''it failed'' else ''it failed, or was skipped because a step before it failed'')
         else if p \<in> set skipped then None
         else if \<not> dhas p outputs \<and> \<not> has_finished_child s outputs then Some ''it never finished''
         else None)"

fun seed_reasons :: "(pstep \<Rightarrow> string option) \<Rightarrow> pstep list \<Rightarrow> string dict \<Rightarrow> string dict" where
  "seed_reasons why [] reasons = reasons"
| "seed_reasons why (s # steps) reasons =
     seed_reasons why steps (case why s of None \<Rightarrow> reasons | Some r \<Rightarrow> mark (ps_path s) r reasons)"

text \<open>One turn of the \<open>while grew\<close> loop.\<close>

fun carry_pass :: "pstep list \<Rightarrow> pstep list \<Rightarrow> string dict \<Rightarrow> string dict" where
  "carry_pass all [] reasons = reasons"
| "carry_pass all (s # steps) reasons =
     carry_pass all steps
       (if dhas (ps_path s) reasons then reasons
        else case find (\<lambda>dep. dhas dep reasons \<and> uses all s dep) (ps_deps s) of
               None \<Rightarrow> reasons
             | Some dep \<Rightarrow> mark (ps_path s) (''it used '' @ quoted (short dep) @ '', which runs again'') reasons)"

text \<open>The results a step used, by path.\<close>

definition used_deps :: "pstep list \<Rightarrow> pstep list \<Rightarrow> string list dict" where
  "used_deps all steps = map (\<lambda>s. (ps_path s, filter (uses all s) (ps_deps s))) steps"

lemma dkeys_mark: "dkeys (mark p r reasons) = (if dhas p reasons then dkeys reasons else dkeys reasons @ [p])"
proof -
  have "dkeys (AList.update k v d) = (if k \<in> fst ` set d then dkeys d else dkeys d @ [k])" for k and v :: string and d
    by (induction d) auto
  then show ?thesis by (simp add: mark_def dhas_keys)
qed

lemma dkeys_carry_pass: "dkeys (carry_pass all steps reasons) = grow_pass (used_deps all steps) (dkeys reasons)"
proof (induction steps arbitrary: reasons)
  case (Cons s steps)
  have "list_ex (\<lambda>d. d \<in> set (dkeys reasons)) (filter (uses all s) (ps_deps s)) \<longleftrightarrow> find (\<lambda>dep. dhas dep reasons \<and> uses all s dep) (ps_deps s) \<noteq> None"
    by (auto simp: find_None_iff list_ex_iff dhas_keys)
  then show ?case using Cons by (auto simp: used_deps_def dkeys_mark dhas_keys split: option.splits)
qed (simp add: used_deps_def)

lemma carry_pass_extends: "\<exists>more. carry_pass all steps reasons = reasons @ more"
proof (induction steps arbitrary: reasons)
  case (Cons s steps)
  have fresh: "\<not> dhas p d \<Longrightarrow> AList.update p r d = d @ [(p, r)]" for p r and d :: "string dict"
    by (induction d) (auto simp: dhas_keys)
  show ?case
  proof (cases "dhas (ps_path s) reasons \<or> find (\<lambda>dep. dhas dep reasons \<and> uses all s dep) (ps_deps s) = None")
    case True
    then show ?thesis using Cons [of reasons] by auto
  next
    case False
    then obtain dep where "find (\<lambda>dep. dhas dep reasons \<and> uses all s dep) (ps_deps s) = Some dep" by blast
    then show ?thesis using False Cons [of "reasons @ [(ps_path s, _)]"] by (auto simp: mark_def fresh)
  qed
qed simp

lemma carry_pass_same: "carry_pass all steps reasons = reasons \<longleftrightarrow> grow_pass (used_deps all steps) (dkeys reasons) = dkeys reasons"
proof -
  obtain ext where "carry_pass all steps reasons = reasons @ ext" using carry_pass_extends by blast
  then show ?thesis using dkeys_carry_pass [of all steps reasons] by simp (metis append_self_conv map_is_Nil_conv)
qed

function carry :: "pstep list \<Rightarrow> string dict \<Rightarrow> string dict" where
  "carry steps reasons =
     (let reasons' = carry_pass steps steps reasons in if reasons' = reasons then reasons else carry steps reasons')"
  by pat_completeness auto

termination
proof (relation "measure (\<lambda>(steps, reasons). card (set (map ps_path steps) - set (dkeys reasons)))", goal_cases)
  case (2 steps reasons reasons')
  obtain ext where e: "grow_pass (used_deps steps steps) (dkeys reasons) = dkeys reasons @ ext"
    "set ext \<subseteq> set (dkeys (used_deps steps steps)) - set (dkeys reasons)" using grow_pass_extends by blast
  have k: "dkeys reasons' = dkeys reasons @ ext" using 2(1) dkeys_carry_pass e(1) by simp
  have "ext \<noteq> []" using 2 e(1) carry_pass_same by auto
  moreover have "set ext \<subseteq> set (map ps_path steps) - set (dkeys reasons)" using e(2) by (simp add: used_deps_def comp_def)
  ultimately have "set (map ps_path steps) - set (dkeys reasons') \<subset> set (map ps_path steps) - set (dkeys reasons)"
    using k by (cases ext) auto
  then show ?case by (simp add: psubset_card_mono)
qed simp

declare carry.simps [simp del]

text \<open>What a clean-up undid, and so has to be made again.\<close>

fun redo_names :: "pstep list \<Rightarrow> string dict \<Rightarrow> 'a dict \<Rightarrow> string \<Rightarrow> string \<Rightarrow> string list \<Rightarrow> string dict \<Rightarrow> string dict" where
  "redo_names steps reasons outputs cleanup stage [] redo = redo"
| "redo_names steps reasons outputs cleanup stage (name # names) redo =
     (let path = path_in stage name
      in redo_names steps reasons outputs cleanup stage names
           (if by_path steps path = None \<or> dhas path reasons \<or> \<not> dhas path outputs then redo
            else dset path (quoted (short cleanup) @ '' undid what it made, so it is made again from the same inputs'') redo))"

fun redo_steps :: "pstep list \<Rightarrow> string dict \<Rightarrow> 'a dict \<Rightarrow> (string \<times> string list) list \<Rightarrow> string dict \<Rightarrow> string dict" where
  "redo_steps steps reasons outputs [] redo = redo"
| "redo_steps steps reasons outputs ((cleanup, names) # rest) redo =
     redo_steps steps reasons outputs rest
       (redo_names steps reasons outputs cleanup (case by_path steps cleanup of Some s \<Rightarrow> ps_stage s | None \<Rightarrow> []) names redo)"

fun mark_stages :: "pstep list \<Rightarrow> string dict \<Rightarrow> pstep list \<Rightarrow> string dict \<Rightarrow> string dict" where
  "mark_stages all redo [] reasons = reasons"
| "mark_stages all redo (s # steps) reasons =
     mark_stages all redo steps
       (if ps_kind s = ''stage'' \<and> \<not> dhas (ps_path s) reasons \<and> \<not> dhas (ps_path s) redo \<and>
           list_ex (\<lambda>t. dhas (ps_path t) reasons) (filter (\<lambda>t. startswith (ps_path s) (ps_stage t)) all)
        then mark (ps_path s) ''a step inside it runs again'' reasons else reasons)"

datatype action = KEEP | RERUN | REDO

record plan_step =
  pl_path :: string
  pl_name :: string
  pl_stage :: string
  pl_action :: action
  pl_reason :: string
  pl_kind :: string
  pl_dispatched_by :: "string option"

record run_plan =
  rp_steps :: "plan_step list"
  rp_stopped_at :: "string option"

definition plan_step_of :: "string dict \<Rightarrow> string dict \<Rightarrow> string list \<Rightarrow> pstep \<Rightarrow> plan_step" where
  "plan_step_of redo reasons skipped s =
     (let (act, reason) =
        (case dget redo (ps_path s) of
           Some r \<Rightarrow> (REDO, r)
         | None \<Rightarrow> (case dget reasons (ps_path s) of
             Some r \<Rightarrow> (RERUN, r)
           | None \<Rightarrow> (KEEP, if ps_path s \<in> set skipped then ''its condition skipped it''
                           else ''it finished, and nothing it used is being run again'')))
      in \<lparr>pl_path = ps_path s, pl_name = ps_name s, pl_stage = ps_stage s, pl_action = act, pl_reason = reason, pl_kind = ps_kind s,
          pl_dispatched_by = ps_dispatched_by s\<rparr>)"

text \<open>The results and the state of the checkpoints are read with every exception caught.\<close>

definition or_empty :: "'a \<Rightarrow> 'a res \<Rightarrow> 'a" where
  "or_empty d r = (case r of Inl e \<Rightarrow> d | Inr x \<Rightarrow> x)"

definition plan_of_steps :: "pstep list \<Rightarrow> node_result dict \<Rightarrow> resume_info \<Rightarrow> string list \<Rightarrow> string option \<Rightarrow> run_plan" where
  "plan_of_steps steps outputs st rerun stopped_at =
     (let ticked = filter (\<lambda>p. p \<noteq> []) rerun;
          carried = carry steps (seed_reasons (own_reason ticked (resume_failed st) (ri_skipped st) outputs stopped_at) steps []);
          redo = redo_steps steps carried outputs (ri_undone st) [];
          reasons = mark_stages steps redo steps carried
      in \<lparr>rp_steps = map (plan_step_of redo reasons (ri_skipped st)) steps, rp_stopped_at = stopped_at\<rparr>)"

definition plan_shape :: "node list \<Rightarrow> resume_info \<Rightarrow> pstep list res" where
  "plan_shape nodes st = bind_res (steps_of nodes) (\<lambda>walked. add_dispatched walked (ri_dispatches st) walked)"

definition resume_plan :: "node list \<Rightarrow> node_result dict res \<Rightarrow> resume_info res \<Rightarrow> string list \<Rightarrow> string option \<Rightarrow> run_plan res" where
  "resume_plan nodes outputs st rerun stopped_at =
     bind_res (plan_shape nodes (or_empty empty_resume st)) (\<lambda>steps.
       Inr (plan_of_steps steps (or_empty [] outputs) (or_empty empty_resume st) rerun stopped_at))"

definition paths_with :: "action \<Rightarrow> run_plan \<Rightarrow> string list" where
  "paths_with a p = map pl_path (filter (\<lambda>s. pl_action s = a) (rp_steps p))"

definition plan_step_at :: "run_plan \<Rightarrow> string \<Rightarrow> plan_step option" where
  "plan_step_at p path = find (\<lambda>s. pl_path s = path) (rp_steps p)"

definition action_for :: "run_plan \<Rightarrow> string \<Rightarrow> action option" where
  "action_for p path = map_option pl_action (plan_step_at p path)"

definition reason_for :: "run_plan \<Rightarrow> string \<Rightarrow> string" where
  "reason_for p path = (case plan_step_at p path of Some s \<Rightarrow> pl_reason s | None \<Rightarrow> [])"

definition build_restore :: "node list \<Rightarrow> node_result dict res \<Rightarrow> resume_info res \<Rightarrow> node_result dict \<Rightarrow> string list \<Rightarrow> string option
    \<Rightarrow> (restore \<times> run_plan) res" where
  "build_restore nodes outputs st initial_outputs rerun stopped_at =
     bind_res (resume_plan nodes outputs st rerun stopped_at) (\<lambda>p.
       let info = or_empty empty_resume st
       in Inr (new_restore initial_outputs (ri_loops info) (resume_failed info) (Some (paths_with RERUN p @ paths_with REDO p))
                 (paths_with REDO p) (ri_dispatches info), p))"

section \<open>What runs again\<close>

lemma dkeys_carry: "dkeys (carry steps reasons) = grow (used_deps steps steps) (dkeys reasons)"
proof (induction steps reasons rule: carry.induct)
  case (1 steps reasons)
  show ?case
  proof (cases "carry_pass steps steps reasons = reasons")
    case True
    then show ?thesis using carry_pass_same [of steps steps reasons]
      by (subst carry.simps, subst grow.simps) (simp add: Let_def)
  next
    case False
    then have "dkeys (carry steps (carry_pass steps steps reasons)) = grow (used_deps steps steps) (grow_pass (used_deps steps steps) (dkeys reasons))"
      using 1 dkeys_carry_pass by simp
    then show ?thesis using False carry_pass_same [of steps steps reasons]
      by (subst carry.simps, subst grow.simps) (simp add: Let_def)
  qed
qed

lemma keys_mark [simp]: "fst ` set (mark p r reasons) = insert p (fst ` set reasons)"
  by (auto simp: mark_def dhas_keys)

lemma seed_keys: "fst ` set (seed_reasons why steps reasons) = fst ` set reasons \<union> ps_path ` {s \<in> set steps. why s \<noteq> None}"
  by (induction steps arbitrary: reasons) (auto split: option.splits)

text \<open>A step owes a rerun of its own when it was ticked, failed, or never finished.\<close>

definition owes_rerun :: "string list \<Rightarrow> resume_info \<Rightarrow> node_result dict \<Rightarrow> pstep \<Rightarrow> bool" where
  "owes_rerun rerun st outputs s =
     (ps_path s \<noteq> [] \<and> ps_path s \<in> set rerun \<or> ps_path s \<in> set (resume_failed st) \<or>
      ps_path s \<notin> set (ri_skipped st) \<and> \<not> dhas (ps_path s) outputs \<and> \<not> has_finished_child s outputs)"

lemma own_reason_iff:
  "own_reason (filter (\<lambda>p. p \<noteq> []) rerun) (resume_failed st) (ri_skipped st) outputs stopped_at s \<noteq> None \<longleftrightarrow> owes_rerun rerun st outputs s"
  by (auto simp: own_reason_def owes_rerun_def Let_def)

text \<open>The least set with the steps that owe a rerun and every step that used the result of one in it.\<close>

definition runs_again :: "pstep list \<Rightarrow> string list \<Rightarrow> resume_info \<Rightarrow> node_result dict \<Rightarrow> string \<Rightarrow> bool" where
  "runs_again steps rerun st outputs =
     must_rerun (ps_path ` {s \<in> set steps. owes_rerun rerun st outputs s}) (used_deps steps steps)"

lemma carried_keys:
  "fst ` set (carry steps (seed_reasons (own_reason (filter (\<lambda>p. p \<noteq> []) rerun) (resume_failed st) (ri_skipped st) outputs stopped_at) steps []))
     = {p. runs_again steps rerun st outputs p}"
proof -
  let ?seeds = "ps_path ` {s \<in> set steps. owes_rerun rerun st outputs s}"
  let ?r = "seed_reasons (own_reason (filter (\<lambda>p. p \<noteq> []) rerun) (resume_failed st) (ri_skipped st) outputs stopped_at) steps []"
  have r: "fst ` set ?r = ?seeds" using seed_keys [of _ steps "[]"] own_reason_iff by (simp add: own_reason_iff)
  have "set (dkeys (carry steps ?r)) = {p. must_rerun ?seeds (used_deps steps steps) p}"
    unfolding dkeys_carry by (rule grow_exact) (auto simp: r intro: must_rerun.marked)
  then show ?thesis by (simp add: runs_again_def)
qed

definition well_placed :: "pstep list \<Rightarrow> bool" where
  "well_placed steps = (\<forall>s \<in> set steps. startswith (ps_stage s) (ps_path s))"

lemma startswith_trans: "startswith a b \<Longrightarrow> startswith b c \<Longrightarrow> startswith a c"
  by (auto simp: startswith_iff)

text \<open>A stage with a step inside that runs again, as the program looks for one.\<close>

definition holds_rerun :: "pstep list \<Rightarrow> string set \<Rightarrow> string set \<Rightarrow> pstep \<Rightarrow> bool" where
  "holds_rerun steps redo again s =
     (ps_kind s = ''stage'' \<and> ps_path s \<notin> redo \<and> (\<exists>t \<in> set steps. startswith (ps_path s) (ps_stage t) \<and> ps_path t \<in> again))"

lemma mark_stages_keys:
  assumes "well_placed all"
  shows "set ss \<subseteq> set all \<Longrightarrow> again \<subseteq> fst ` set r \<Longrightarrow>
    fst ` set r \<subseteq> again \<union> ps_path ` {s \<in> set all. holds_rerun all (fst ` set redo) again s} \<Longrightarrow>
    fst ` set (mark_stages all redo ss r) = fst ` set r \<union> ps_path ` {s \<in> set ss. holds_rerun all (fst ` set redo) again s}"
proof (induction ss arbitrary: r)
  case (Cons s ss)
  have found: "list_ex (\<lambda>t. dhas (ps_path t) r) (filter (\<lambda>t. startswith (ps_path s) (ps_stage t)) all) \<longleftrightarrow>
      (\<exists>t \<in> set all. startswith (ps_path s) (ps_stage t) \<and> ps_path t \<in> again)" (is "?l \<longleftrightarrow> ?r")
  proof
    assume ?l
    then obtain t where t: "t \<in> set all" "startswith (ps_path s) (ps_stage t)" "ps_path t \<in> fst ` set r"
      by (auto simp: list_ex_iff dhas_keys)
    show ?r
    proof (cases "ps_path t \<in> again")
      case False
      then have "ps_path t \<in> ps_path ` {s \<in> set all. holds_rerun all (fst ` set redo) again s}" using t(3) Cons.prems(3) by blast
      then obtain u where u: "u \<in> set all" "startswith (ps_path t) (ps_stage u)" "ps_path u \<in> again"
        by (auto simp: holds_rerun_def)
      have "startswith (ps_path s) (ps_stage u)"
        using t(1,2) u(2) assms startswith_trans unfolding well_placed_def by metis
      then show ?thesis using u by blast
    qed (use t in blast)
  qed (use Cons.prems(2) in \<open>auto simp: list_ex_iff dhas_keys\<close>)
  let ?r' = "if ps_kind s = ''stage'' \<and> \<not> dhas (ps_path s) r \<and> \<not> dhas (ps_path s) redo \<and>
           list_ex (\<lambda>t. dhas (ps_path t) r) (filter (\<lambda>t. startswith (ps_path s) (ps_stage t)) all)
        then mark (ps_path s) ''a step inside it runs again'' r else r"
  have r': "fst ` set ?r' = fst ` set r \<union> (if holds_rerun all (fst ` set redo) again s then {ps_path s} else {})"
    unfolding found by (auto simp: holds_rerun_def dhas_keys)
  have "fst ` set (mark_stages all redo ss ?r') = fst ` set ?r' \<union> ps_path ` {s \<in> set ss. holds_rerun all (fst ` set redo) again s}"
  proof (rule Cons.IH)
    have s: "s \<in> set all" using Cons.prems(1) by simp
    show "fst ` set ?r' \<subseteq> again \<union> ps_path ` {s \<in> set all. holds_rerun all (fst ` set redo) again s}"
      unfolding r' using Cons.prems(3) s by (simp split: if_split)
  qed (use Cons.prems in \<open>auto simp only: r', auto\<close>)
  then show ?case by (auto simp: r')
qed simp

lemma redo_names_keys:
  "fst ` set (redo_names steps reasons outputs cleanup stage names redo) \<subseteq>
     fst ` set redo \<union> {p. \<not> dhas p reasons \<and> dhas p outputs \<and> by_path steps p \<noteq> None}" (is "_ \<subseteq> _ \<union> ?ok")
proof (induction names arbitrary: redo)
  case (Cons n names)
  let ?p = "path_in stage n"
  let ?r = "if by_path steps ?p = None \<or> dhas ?p reasons \<or> \<not> dhas ?p outputs then redo
            else dset ?p (quoted (short cleanup) @ '' undid what it made, so it is made again from the same inputs'') redo"
  have "fst ` set ?r \<subseteq> fst ` set redo \<union> ?ok" by (cases "?p \<in> ?ok") auto
  moreover have "redo_names steps reasons outputs cleanup stage (n # names) redo = redo_names steps reasons outputs cleanup stage names ?r"
    by (simp add: Let_def)
  ultimately show ?case using Cons [of ?r] by (simp only:) blast
qed simp

lemma redo_steps_keys:
  "fst ` set (redo_steps steps reasons outputs undone redo) \<subseteq>
     fst ` set redo \<union> {p. \<not> dhas p reasons \<and> dhas p outputs \<and> by_path steps p \<noteq> None}"
proof (induction undone arbitrary: redo)
  case (Cons u undone)
  obtain c names where u: "u = (c, names)" by fastforce
  show ?case using Cons [of "redo_names steps reasons outputs c (case by_path steps c of Some s \<Rightarrow> ps_stage s | None \<Rightarrow> []) names redo"]
      redo_names_keys [of steps reasons outputs c "case by_path steps c of Some s \<Rightarrow> ps_stage s | None \<Rightarrow> []" names redo] u by auto
qed simp

lemma plan_step_of_sel [simp]: "pl_path (plan_step_of redo reasons sk s) = ps_path s"
  "pl_action (plan_step_of redo reasons sk s) = (if dhas (ps_path s) redo then REDO else if dhas (ps_path s) reasons then RERUN else KEEP)"
  by (auto simp: plan_step_of_def dhas_def split: option.splits)

lemma action_for_map:
  "action_for \<lparr>rp_steps = map (plan_step_of redo reasons sk) steps, rp_stopped_at = st\<rparr> p =
     (if p \<in> ps_path ` set steps then Some (if dhas p redo then REDO else if dhas p reasons then RERUN else KEEP) else None)"
  by (induction steps) (auto simp: action_for_def plan_step_at_def)

section \<open>Every step lies in its stage\<close>

lemma startswith_path_in: "startswith stage (path_in stage name)"
  by (simp add: path_in_def startswith_iff)

lemma well_placed_walk: "walk names stage nodes = Inr steps \<Longrightarrow> well_placed steps"
  by (induction names stage nodes arbitrary: steps rule: walk.induct)
    (auto simp: bind_res_Inr well_placed_def Let_def startswith_path_in)

lemma well_placed_each: "add_each dispatcher graph names added steps = Inr steps' \<Longrightarrow> well_placed steps \<Longrightarrow> well_placed steps'"
proof (induction dispatcher graph names added steps rule: add_each.induct)
  case (2 dispatcher graph names name d rest steps)
  then show ?case by (auto simp: bind_res_Inr well_placed_def startswith_path_in split: if_splits)
qed simp

lemma well_placed_shape: "plan_shape nodes st = Inr steps \<Longrightarrow> well_placed steps"
proof -
  have "add_dispatched walked es steps = Inr steps' \<Longrightarrow> well_placed steps \<Longrightarrow> well_placed steps'" for walked es steps steps'
    by (induction walked es steps rule: add_dispatched.induct) (auto simp: bind_res_Inr Let_def dest: well_placed_each)
  then show "plan_shape nodes st = Inr steps \<Longrightarrow> well_placed steps"
    by (auto simp: plan_shape_def bind_res_Inr steps_of_def dest: well_placed_walk)
qed

lemma distinct_each:
  "add_each dispatcher graph names added steps = Inr steps' \<Longrightarrow> distinct (map ps_path steps) \<Longrightarrow> distinct (map ps_path steps')"
proof (induction dispatcher graph names added steps rule: add_each.induct)
  case (2 dispatcher graph names name d rest steps)
  then show ?case by (auto simp: bind_res_Inr split: if_splits)
qed simp

section \<open>The plan\<close>

text \<open>The steps a plan makes again.\<close>

definition made_again :: "run_plan \<Rightarrow> string set" where
  "made_again p = set (paths_with REDO p)"

lemma plan_actions:
  assumes "well_placed steps" and "plan_of_steps steps outputs st rerun stopped_at = p"
  obtains redo reasons where "fst ` set reasons = {q. runs_again steps rerun st outputs q} \<union>
        ps_path ` {s \<in> set steps. holds_rerun steps (fst ` set redo) {q. runs_again steps rerun st outputs q} s}"
    and "\<forall>q \<in> fst ` set redo. \<not> runs_again steps rerun st outputs q \<and> dhas q outputs \<and> q \<in> ps_path ` set steps"
    and "p = \<lparr>rp_steps = map (plan_step_of redo reasons (ri_skipped st)) steps, rp_stopped_at = stopped_at\<rparr>"
proof -
  define carried where "carried = carry steps (seed_reasons (own_reason (filter (\<lambda>p. p \<noteq> []) rerun) (resume_failed st) (ri_skipped st)
      outputs stopped_at) steps [])"
  define redo where "redo = redo_steps steps carried outputs (ri_undone st) []"
  define reasons where "reasons = mark_stages steps redo steps carried"
  have c: "fst ` set carried = {q. runs_again steps rerun st outputs q}" unfolding carried_def by (rule carried_keys)
  have "fst ` set reasons = fst ` set carried \<union> ps_path ` {s \<in> set steps. holds_rerun steps (fst ` set redo) (fst ` set carried) s}"
    unfolding reasons_def by (rule mark_stages_keys [OF assms(1)]) auto
  then have 1: "fst ` set reasons = {q. runs_again steps rerun st outputs q} \<union>
        ps_path ` {s \<in> set steps. holds_rerun steps (fst ` set redo) {q. runs_again steps rerun st outputs q} s}" using c by simp
  have path: "q \<in> ps_path ` set steps" if "by_path steps q \<noteq> None" for q
    using that find_None_iff [of "\<lambda>s. ps_path s = q" "rev steps"] by (auto simp: by_path_def simp del: not_None_eq)
  have 2: "\<not> runs_again steps rerun st outputs q \<and> dhas q outputs \<and> q \<in> ps_path ` set steps" if "q \<in> fst ` set redo" for q
    using redo_steps_keys [of steps carried outputs "ri_undone st" "[]"] that c path by (auto simp: redo_def dhas_keys)
  have "p = \<lparr>rp_steps = map (plan_step_of redo reasons (ri_skipped st)) steps, rp_stopped_at = stopped_at\<rparr>"
    using assms(2) by (simp add: plan_of_steps_def Let_def redo_def reasons_def carried_def)
  with that [OF 1] 2 show thesis by blast
qed

lemma paths_with_map:
  "set (paths_with a \<lparr>rp_steps = map (plan_step_of redo reasons sk) steps, rp_stopped_at = st\<rparr>) =
     {q. action_for \<lparr>rp_steps = map (plan_step_of redo reasons sk) steps, rp_stopped_at = st\<rparr> q = Some a}"
  unfolding action_for_map paths_with_def by (auto simp: filter_map comp_def split: if_splits)

lemma made_again_map:
  assumes "\<And>q. q \<in> fst ` set redo \<Longrightarrow> q \<in> ps_path ` set steps"
  shows "made_again \<lparr>rp_steps = map (plan_step_of redo reasons sk) steps, rp_stopped_at = st\<rparr> = fst ` set redo"
  unfolding made_again_def paths_with_map action_for_map using assms by (auto simp: dhas_keys)

text \<open>A step that stands inside a stage, at any depth.\<close>

definition stands_in :: "pstep \<Rightarrow> pstep \<Rightarrow> bool" where
  "stands_in t s = (ps_stage t = ps_path s \<or> startswith (ps_path s @ ''.'') (ps_stage t))"

text \<open>C20: The steps a plan runs again are exactly the least set that holds the steps that were ticked, failed or never
  finished and, with a step, every step that used its result; and, of the stages that are not made again, those whose
  path is the beginning of the path of a stage with such a step directly in it. Where the beginnings of paths are those
  of enclosing stages only, these are exactly the stages with such a step inside. They need not be: the program
  compares without the dot, so that a stage \<open>build\<close> runs again for a step of \<open>build2\<close> (\<open>neighbour_stage_runs_again\<close>).\<close>

theorem plan_reruns_exact:
  assumes "plan_shape nodes st = Inr steps" and "distinct (map ps_path steps)" and "s \<in> set steps"
    and "resume_plan nodes (Inr outputs) (Inr st) rerun stopped_at = Inr p"
  shows "(action_for p (ps_path s) = Some RERUN \<longleftrightarrow>
      runs_again steps rerun st outputs (ps_path s) \<or>
      (ps_kind s = ''stage'' \<and> ps_path s \<notin> made_again p \<and>
        (\<exists>t \<in> set steps. startswith (ps_path s) (ps_stage t) \<and> runs_again steps rerun st outputs (ps_path t)))) \<and>
    ((\<forall>t \<in> set steps. startswith (ps_path s) (ps_stage t) \<longrightarrow> stands_in t s) \<longrightarrow>
      (action_for p (ps_path s) = Some RERUN \<longleftrightarrow>
        runs_again steps rerun st outputs (ps_path s) \<or>
        (ps_kind s = ''stage'' \<and> ps_path s \<notin> made_again p \<and> (\<exists>t \<in> set steps. stands_in t s \<and> runs_again steps rerun st outputs (ps_path t)))))"
proof -
  have "plan_of_steps steps outputs st rerun stopped_at = p" using assms by (simp add: resume_plan_def or_empty_def)
  from well_placed_shape [OF assms(1)] this obtain redo reasons where
    r: "fst ` set reasons = {q. runs_again steps rerun st outputs q} \<union>
        ps_path ` {s \<in> set steps. holds_rerun steps (fst ` set redo) {q. runs_again steps rerun st outputs q} s}"
    and d: "\<forall>q \<in> fst ` set redo. \<not> runs_again steps rerun st outputs q \<and> dhas q outputs \<and> q \<in> ps_path ` set steps"
    and p: "p = \<lparr>rp_steps = map (plan_step_of redo reasons (ri_skipped st)) steps, rp_stopped_at = stopped_at\<rparr>"
    by (rule plan_actions)
  have m: "made_again p = fst ` set redo" unfolding p by (rule made_again_map) (use d in blast)
  have same: "t = s" if "t \<in> set steps" "ps_path t = ps_path s" for t
    using that assms(2,3) by (metis distinct_map inj_onD)
  have "ps_path s \<in> ps_path ` {s \<in> set steps. holds_rerun steps (fst ` set redo) {q. runs_again steps rerun st outputs q} s} \<longleftrightarrow>
      holds_rerun steps (fst ` set redo) {q. runs_again steps rerun st outputs q} s"
    using same assms(3) by auto
  moreover have "holds_rerun steps (fst ` set redo) X s \<Longrightarrow> ps_path s \<notin> fst ` set redo" for X by (simp add: holds_rerun_def)
  ultimately have *: "action_for p (ps_path s) = Some RERUN \<longleftrightarrow>
    runs_again steps rerun st outputs (ps_path s) \<or> holds_rerun steps (made_again p) {q. runs_again steps rerun st outputs q} s"
    using assms(3) d r unfolding p action_for_map m [unfolded p] by (auto simp: dhas_keys)
  have "stands_in t s \<Longrightarrow> startswith (ps_path s) (ps_stage t)" for t by (auto simp: stands_in_def startswith_iff)
  then show ?thesis unfolding * holds_rerun_def by auto
qed


text \<open>The executor runs again exactly what the plan said: in every graph, the nodes whose path the plan runs or makes
  again, and those with such a step inside.
\<close>

theorem restore_follows_plan:
  assumes "build_restore nodes outputs st initial_outputs rerun stopped_at = Inr (rt, p)"
  shows "set (reruns pfx depends_on rt) = {name \<in> set (dkeys depends_on). \<exists>q. action_for p q \<in> {Some RERUN, Some REDO} \<and>
    (q = pfx @ name \<or> startswith (pfx @ name @ ''.'') q)}"
proof -
  obtain steps where shape: "plan_shape nodes (or_empty empty_resume st) = Inr steps"
    and p: "resume_plan nodes outputs st rerun stopped_at = Inr p"
    and rt: "rt_rerun rt = Some (paths_with RERUN p @ paths_with REDO p)"
    using assms by (auto simp: build_restore_def bind_res_Inr resume_plan_def new_restore_def Let_def)
  obtain redo reasons sk where "p = \<lparr>rp_steps = map (plan_step_of redo reasons sk) steps, rp_stopped_at = stopped_at\<rparr>"
    using shape p by (auto simp: resume_plan_def plan_of_steps_def Let_def)
  then have "set (paths_with a p) = {q. action_for p q = Some a}" for a using paths_with_map by simp
  then show ?thesis by (auto simp: reruns_def again_at_def rt list_ex_iff)
qed

section \<open>Where the plan and the run part\<close>

definition finished_with :: "string list \<Rightarrow> node_result dict" where
  "finished_with ps = map (\<lambda>p. (p, plain_result COMPLETED)) ps"

definition two_builds :: "node list" where
  "two_builds = [stage_node (default_config ''build'') [simple_node ''a'' []], stage_node (default_config ''build2'') [simple_node ''b'' []],
     simple_node ''ship'' [''build'']]"

definition all_builds :: "string list" where
  "all_builds = [''build'', ''build.a'', ''build2'', ''build2.b'', ''ship'']"

text \<open>A stage runs again when its name begins the name of another one with a failed step inside.\<close>

theorem neighbour_stage_runs_again:
  "case resume_plan two_builds (Inr (finished_with [''build'', ''build.a'', ''ship'']))
      (Inr (empty_resume\<lparr>ri_last_failed := [(''build2.b'', True), (''build2'', True)]\<rparr>)) [] None of
     Inr p \<Rightarrow> action_for p ''build'' = Some RERUN \<and> reason_for p ''build'' = ''a step inside it runs again'' \<and> action_for p ''build.a'' = Some KEEP
   | Inl e \<Rightarrow> False"
  by code_simp

text \<open>A stage that runs again because of a step inside is not carried on to the steps that used its result.\<close>

theorem stage_rerun_not_carried:
  "case resume_plan two_builds (Inr (finished_with all_builds)) (Inr empty_resume) [''build.a''] None of
     Inr p \<Rightarrow> action_for p ''build.a'' = Some RERUN \<and> action_for p ''build'' = Some RERUN \<and> action_for p ''ship'' = Some KEEP
   | Inl e \<Rightarrow> False"
  by code_simp

definition undone_build :: "node list" where
  "undone_build = [stage_node (default_config ''build'') [simple_node ''stack'' [],
     agent_node ((default_config ''down'')\<lparr>nc_depends_on := [''stack''], nc_undoes := Some [''stack'']\<rparr>) []]]"

text \<open>The preview keeps a stage of which a step is made again, and the run runs it.\<close>

theorem kept_stage_runs:
  "case build_restore undone_build (Inr (finished_with [''build'', ''build.stack'', ''build.down'']))
      (Inr (empty_resume\<lparr>ri_undone := [(''build.down'', [''stack''])]\<rparr>)) (finished_with [''build'', ''build.stack'', ''build.down'']) [] None of
     Inr (rt, p) \<Rightarrow> action_for p ''build.stack'' = Some REDO \<and> action_for p ''build'' = Some KEEP \<and> reruns [] [(''build'', [])] rt = [''build'']
   | Inl e \<Rightarrow> False"
  by code_simp

section \<open>Witnesses\<close>

lemma two_builds_shape: "\<exists>steps. plan_shape two_builds empty_resume = Inr steps \<and> distinct (map ps_path steps) \<and>
    (\<exists>s \<in> set steps. ps_path s = ''build.a'' \<and> ps_kind s = ''agent'')"
proof -
  have "case plan_shape two_builds empty_resume of
     Inr steps \<Rightarrow> distinct (map ps_path steps) \<and> list_ex (\<lambda>s. ps_path s = ''build.a'' \<and> ps_kind s = ''agent'') steps | Inl e \<Rightarrow> False"
    by code_simp
  then show ?thesis by (auto simp: list_ex_iff split: sum.splits)
qed

theorem plan_reruns_exact_witness:
  "\<exists>steps p. resume_plan two_builds (Inr (finished_with all_builds)) (Inr empty_resume) [''build.a''] None = Inr p \<and>
     action_for p ''build.a'' = Some RERUN \<and> runs_again steps [''build.a''] empty_resume (finished_with all_builds) ''build.a''"
proof -
  obtain steps s where s: "plan_shape two_builds empty_resume = Inr steps" "distinct (map ps_path steps)" "s \<in> set steps"
    "ps_path s = ''build.a''" "ps_kind s = ''agent''" using two_builds_shape by blast
  have "case resume_plan two_builds (Inr (finished_with all_builds)) (Inr empty_resume) [''build.a''] None of
     Inr p \<Rightarrow> action_for p ''build.a'' = Some RERUN | Inl e \<Rightarrow> False" by code_simp
  then obtain p where p: "resume_plan two_builds (Inr (finished_with all_builds)) (Inr empty_resume) [''build.a''] None = Inr p"
    "action_for p ''build.a'' = Some RERUN" by (auto split: sum.splits)
  from plan_reruns_exact [OF s(1-3) p(1)] show ?thesis using s p by (auto simp: holds_rerun_def)
qed


theorem restore_follows_plan_witness:
  "\<exists>rt p. build_restore two_builds (Inr (finished_with all_builds)) (Inr empty_resume) (finished_with all_builds) [''build.a''] None = Inr (rt, p) \<and>
     ''a'' \<in> set (reruns ''build.'' [(''a'', [])] rt)"
proof -
  have "case build_restore two_builds (Inr (finished_with all_builds)) (Inr empty_resume) (finished_with all_builds) [''build.a''] None of
     Inr (rt, p) \<Rightarrow> action_for p ''build.a'' = Some RERUN | Inl e \<Rightarrow> False" by code_simp
  then obtain rt p where p: "build_restore two_builds (Inr (finished_with all_builds)) (Inr empty_resume) (finished_with all_builds) [''build.a''] None
      = Inr (rt, p)" "action_for p ''build.a'' = Some RERUN" by (auto split: sum.splits)
  from restore_follows_plan [OF p(1), of "''build.''" "[(''a'', [])]"] show ?thesis using p by auto
qed

end
