(* ===== verification/Run_Rows.thy ===== *)
theory Run_Rows
  imports Types
begin

text \<open>
  The rows the worker and the server keep for runs: the lane of a run (\<^verbatim>\<open>temper_ai/runner/lanes.py\<close>), putting a run in
  the queue (\<^verbatim>\<open>temper_ai/runner/queue.py\<close>), a row's generation and the end write fenced on it
  (\<^verbatim>\<open>temper_ai/runner/row_generation.py\<close>), the clean-ups a failed run holds (\<^verbatim>\<open>temper_ai/runner/holds.py\<close>) and the
  commits that end such a hold and queue what follows (\<^verbatim>\<open>temper_ai/runner/cleanup_dispatch.py\<close>).

  Every operation is one transaction: it returns the rows it leaves, or an error and then nothing was written.
  Whether a workspace path is allowed is the file system's answer, a parameter; so is the time of a write.
\<close>

section \<open>Lanes\<close>

datatype run_error =
    AlreadyQueued string string
  | AlreadyCarriedOn string
  | AdmissionProtected
  | AdmissionMode
  | LaneSettingError string
  | NoBoxRow
  | HasBoxRow
  | CancelRefused
  | HoldNoLongerWaiting string
  | RefusedByCaller string
  | WorkspacePathRefused string

definition LANE_KEY :: string where "LANE_KEY = ''lane''"
definition LANE_RECORD_KEY :: string where "LANE_RECORD_KEY = ''pi_lane''"
definition PI_LANE :: string where "PI_LANE = ''pi''"
definition LANES :: "string list" where "LANES = [PI_LANE]"
definition WORKER_KEPT :: "string list" where "WORKER_KEPT = [''box_profile'', LANE_RECORD_KEY]"
definition RESERVED_KEY :: string where "RESERVED_KEY = ''config_admission''"
definition ADMISSION_SELECTION_KEY :: string where "ADMISSION_SELECTION_KEY = ''admission_selection''"

lemmas key_defs = LANE_KEY_def LANE_RECORD_KEY_def PI_LANE_def LANES_def WORKER_KEPT_def RESERVED_KEY_def ADMISSION_SELECTION_KEY_def

datatype lane_arg = KeepLane | SetLane "string option"

definition lane_of :: "pyval dict \<Rightarrow> string option" where
  "lane_of metadata = (case dget_or metadata LANE_KEY PNone of PStr (c # cs) \<Rightarrow> Some (c # cs) | _ \<Rightarrow> None)"

definition mark_lane :: "pyval dict \<Rightarrow> string option \<Rightarrow> run_error + pyval dict" where
  "mark_lane metadata lane =
     (let out = filter (\<lambda>p. fst p \<noteq> LANE_KEY) metadata
      in case lane of
           None \<Rightarrow> Inr out
         | Some l \<Rightarrow>
             if l \<notin> set LANES
             then Inl (LaneSettingError (quoted l @ '' is not a lane temper knows ('' @ join '', '' LANES @ '')''))
             else Inr (out @ [(LANE_KEY, PStr l)]))"

text \<open>\<open>lane_clause\<close>: whether a worker of a lane may claim the row.\<close>

definition lane_clause :: "string option \<Rightarrow> pyval dict \<Rightarrow> bool" where
  "lane_clause lane metadata =
     (let value = (case dget_or metadata LANE_KEY PNone of PNone \<Rightarrow> None | v \<Rightarrow> Some (py_str v))
      in case lane of None \<Rightarrow> value \<noteq> Some PI_LANE | Some l \<Rightarrow> value = Some l)"

section \<open>Rows\<close>

record run_row =
  rr_workflow_name :: string
  rr_workspace_path :: string
  rr_inputs :: "pyval dict"
  rr_status :: string
  rr_spawner_kind :: "string option"
  rr_spawner_handle :: "string option"
  rr_metadata :: "pyval dict"
  rr_cancel_requested :: bool
  rr_attempts :: int
  rr_started_at :: "string option"
  rr_completed_at :: "string option"
  rr_result :: "pyval dict option"
  rr_error :: "pyval dict option"

definition QUEUED :: string where "QUEUED = ''queued''"
definition RUN_RUNNING :: string where "RUN_RUNNING = ''running''"

definition has_admission :: "pyval dict \<Rightarrow> bool" where
  "has_admission metadata = dhas RESERVED_KEY metadata"

text \<open>What a request asks for: the run's start and anything else its box needs to know.\<close>

definition asked_metadata :: "string option \<Rightarrow> pyval dict \<Rightarrow> pyval dict" where
  "asked_metadata start extra =
     dmerge (case start of Some (c # cs) \<Rightarrow> [(''start'', PStr (c # cs))] | _ \<Rightarrow> [])
       (filter (\<lambda>p. truthy (snd p) \<and> fst p \<notin> set (WORKER_KEPT @ [LANE_KEY])) extra)"

definition kept_metadata :: "pyval dict \<Rightarrow> pyval dict" where
  "kept_metadata old =
     List.map_filter (\<lambda>k. if dget_or old k PNone = PNone then None else Some (k, dget_or old k PNone)) WORKER_KEPT"

record run_request =
  rq_workflow_name :: string
  rq_workspace_path :: "string option"
  rq_inputs :: "pyval dict option"
  rq_start :: "string option"
  rq_extra :: "pyval dict option"
  rq_lane :: lane_arg

definition text_or_empty :: "string option \<Rightarrow> string" where
  "text_or_empty s = (case s of None \<Rightarrow> [] | Some t \<Rightarrow> t)"

definition dict_or_empty :: "pyval dict option \<Rightarrow> pyval dict" where
  "dict_or_empty d = (case d of None \<Rightarrow> [] | Some x \<Rightarrow> x)"

definition new_row :: "run_request \<Rightarrow> pyval dict \<Rightarrow> run_row" where
  "new_row rq metadata =
     \<lparr>rr_workflow_name = rq_workflow_name rq, rr_workspace_path = text_or_empty (rq_workspace_path rq), rr_inputs = dict_or_empty (rq_inputs rq),
      rr_status = QUEUED, rr_spawner_kind = None, rr_spawner_handle = None, rr_metadata = metadata, rr_cancel_requested = False, rr_attempts = 0,
      rr_started_at = None, rr_completed_at = None, rr_result = None, rr_error = None\<rparr>"

definition requeued_row :: "run_request \<Rightarrow> pyval dict \<Rightarrow> run_row \<Rightarrow> run_row" where
  "requeued_row rq metadata r =
     r\<lparr>rr_workflow_name := rq_workflow_name rq, rr_workspace_path := text_or_empty (rq_workspace_path rq), rr_inputs := dict_or_empty (rq_inputs rq),
       rr_status := QUEUED, rr_spawner_kind := None, rr_spawner_handle := None, rr_metadata := metadata, rr_cancel_requested := False,
       rr_started_at := None, rr_completed_at := None, rr_result := None, rr_error := None\<rparr>"

text \<open>\<open>queue_run_in\<close>\<close>

definition queue_run_in :: "(string option \<Rightarrow> string option) \<Rightarrow> string \<Rightarrow> run_request \<Rightarrow> run_row dict \<Rightarrow> run_error + run_row dict" where
  "queue_run_in refuse_workspace eid rq rows =
     (case refuse_workspace (rq_workspace_path rq) of
        Some why \<Rightarrow> Inl (WorkspacePathRefused why)
      | None \<Rightarrow>
          (let extra = dict_or_empty (rq_extra rq); metadata = asked_metadata (rq_start rq) extra
           in if has_admission extra \<or> dhas ADMISSION_SELECTION_KEY extra then Inl AdmissionProtected
              else case dget rows eid of
                None \<Rightarrow>
                  (case mark_lane metadata (case rq_lane rq of KeepLane \<Rightarrow> None | SetLane l \<Rightarrow> l) of
                     Inl e \<Rightarrow> Inl e
                   | Inr marked \<Rightarrow> Inr (dset eid (new_row rq marked) rows))
              | Some r \<Rightarrow>
                  if has_admission (rr_metadata r) then Inl AdmissionMode
                  else if rr_status r = QUEUED \<or> rr_status r = RUN_RUNNING then Inl (AlreadyQueued eid (rr_status r))
                  else (case mark_lane (dmerge metadata (kept_metadata (rr_metadata r)))
                            (case rq_lane rq of KeepLane \<Rightarrow> lane_of (rr_metadata r) | SetLane l \<Rightarrow> l) of
                     Inl e \<Rightarrow> Inl e
                   | Inr marked \<Rightarrow> Inr (dset eid (requeued_row rq marked r) rows))))"

section \<open>Generations\<close>

record row_generation =
  rg_status :: string
  rg_attempts :: int
  rg_kind :: "string option"
  rg_handle :: "string option"
  rg_container :: "string option"

definition identity_of :: "pyval \<Rightarrow> string option" where
  "identity_of v = (case v of PStr (c # cs) \<Rightarrow> Some (c # cs) | _ \<Rightarrow> None)"

definition from_snapshot :: "pyval dict \<Rightarrow> row_generation res" where
  "from_snapshot row =
     (case dget_or row ''status'' PNone of
        PStr (c # cs) \<Rightarrow>
          (case dget_or row ''attempts'' PNone of
             PInt n \<Rightarrow> Inr \<lparr>rg_status = c # cs, rg_attempts = n, rg_kind = identity_of (dget_or row ''spawner_kind'' PNone),
                           rg_handle = identity_of (dget_or row ''spawner_handle'' PNone),
                           rg_container = identity_of (dget_or row ''container_id'' PNone)\<rparr>
           | _ \<Rightarrow> raise ValueError ''a row generation needs the attempts its read found'')
      | _ \<Rightarrow> raise ValueError ''a row generation needs the status its read found'')"

definition opt_text :: "string option \<Rightarrow> pyval" where
  "opt_text s = (case s of None \<Rightarrow> PNone | Some t \<Rightarrow> PStr t)"

text \<open>One read of a row, as the reaper and the cancel take it.\<close>

definition snapshot :: "run_row \<Rightarrow> pyval dict" where
  "snapshot r =
     [(''status'', PStr (rr_status r)), (''spawner_kind'', opt_text (rr_spawner_kind r)), (''spawner_handle'', opt_text (rr_spawner_handle r)),
      (''attempts'', PInt (rr_attempts r)), (''container_id'', dget_or (rr_metadata r) ''container_id'' PNone)]"

definition row_container :: "run_row \<Rightarrow> string option" where
  "row_container r = (case dget_or (rr_metadata r) ''container_id'' PNone of PNone \<Rightarrow> None | v \<Rightarrow> Some (py_str v))"

text \<open>\<open>_queued_dispatch\<close>: whether the row still is the dispatch that was judged, if that read can name it.\<close>

definition queued_dispatch :: "row_generation \<Rightarrow> (run_row \<Rightarrow> bool) option" where
  "queued_dispatch judged =
     (if rg_kind judged = Some ''docker'' then
        (case (rg_handle judged, rg_container judged) of
           (Some h, Some c) \<Rightarrow> Some (\<lambda>r. rr_spawner_handle r = Some h \<and> row_container r = Some c)
         | _ \<Rightarrow> None)
      else if rg_kind judged = Some ''subprocess'' then
        (case rg_handle judged of Some h \<Rightarrow> Some (\<lambda>r. rr_spawner_handle r = Some h) | None \<Rightarrow> None)
      else None)"

definition same_generation :: "row_generation \<Rightarrow> run_row \<Rightarrow> bool" where
  "same_generation judged r =
     (rr_status r = rg_status judged \<and> rr_attempts r = rg_attempts judged \<and>
      (rg_status judged = QUEUED \<longrightarrow> (case queued_dispatch judged of None \<Rightarrow> False | Some same \<Rightarrow> same r)))"

definition ended_row :: "string \<Rightarrow> string \<Rightarrow> bool \<Rightarrow> pyval dict option \<Rightarrow> run_row \<Rightarrow> run_row" where
  "ended_row now status keep_open err r =
     r\<lparr>rr_status := status, rr_completed_at := (if keep_open then rr_completed_at r else Some now),
       rr_error := (case err of None \<Rightarrow> rr_error r | Some e \<Rightarrow> Some e)\<rparr>"

definition end_row_if_same_generation :: "string \<Rightarrow> string \<Rightarrow> row_generation \<Rightarrow> string \<Rightarrow> bool \<Rightarrow> pyval dict option \<Rightarrow> run_row dict
    \<Rightarrow> bool \<times> run_row dict" where
  "end_row_if_same_generation now eid judged status keep_open err rows =
     (case dget rows eid of
        Some r \<Rightarrow> if same_generation judged r then (True, dset eid (ended_row now status keep_open err r) rows) else (False, rows)
      | None \<Rightarrow> (False, rows))"

section \<open>Held clean-ups\<close>

record hold_row =
  hd_workflow_name :: string
  hd_workspace_path :: string
  hd_inputs :: "pyval dict"
  hd_node_paths :: "pyval dict list"
  hd_stopped_at :: "string option"
  hd_stop_reason :: "string option"
  hd_status :: string
  hd_deadline :: rat
  hd_created_at :: string
  hd_ended_at :: "string option"
  hd_ended_by :: "string option"

definition HELD :: string where "HELD = ''waiting''"

definition record_hold :: "string \<Rightarrow> string \<Rightarrow> string \<Rightarrow> string option \<Rightarrow> pyval dict option \<Rightarrow> pyval dict list \<Rightarrow> rat \<Rightarrow> string option \<Rightarrow> string option
    \<Rightarrow> hold_row dict \<Rightarrow> hold_row dict" where
  "record_hold now eid workflow_name workspace_path inputs held deadline stopped_at stop_reason holds =
     (if held = [] then holds
      else dset eid \<lparr>hd_workflow_name = workflow_name, hd_workspace_path = text_or_empty workspace_path, hd_inputs = dict_or_empty inputs,
             hd_node_paths = held, hd_stopped_at = stopped_at, hd_stop_reason = stop_reason, hd_status = HELD, hd_deadline = deadline,
             hd_created_at = now, hd_ended_at = None, hd_ended_by = None\<rparr> holds)"

definition hold_waiting :: "string \<Rightarrow> hold_row dict \<Rightarrow> hold_row option" where
  "hold_waiting eid holds = (case dget holds eid of Some h \<Rightarrow> if hd_status h = HELD then Some h else None | None \<Rightarrow> None)"

definition holds_due :: "rat \<Rightarrow> hold_row dict \<Rightarrow> string list" where
  "holds_due now holds = map fst (filter (\<lambda>(eid, h). hd_status h = HELD \<and> hd_deadline h \<le> now) holds)"

text \<open>\<open>end_in\<close>: one conditional update; the hold as it then is, or nothing when it was not waiting.\<close>

definition end_hold :: "string \<Rightarrow> string \<Rightarrow> string \<Rightarrow> string \<Rightarrow> hold_row dict \<Rightarrow> hold_row option \<times> hold_row dict" where
  "end_hold now eid status ended_by holds =
     (case hold_waiting eid holds of
        None \<Rightarrow> (None, holds)
      | Some h \<Rightarrow>
          (let h' = h\<lparr>hd_status := status, hd_ended_at := Some now, hd_ended_by := Some ended_by\<rparr> in (Some h', dset eid h' holds)))"

definition TAKEN_OVER :: string where "TAKEN_OVER = ''taken_over''"
definition RELEASED :: string where "RELEASED = ''released''"

definition take_over :: "string \<Rightarrow> string \<Rightarrow> string \<Rightarrow> hold_row dict \<Rightarrow> hold_row option \<times> hold_row dict" where
  "take_over now eid ended_by = end_hold now eid TAKEN_OVER ended_by"

definition finish_hold :: "string \<Rightarrow> string \<Rightarrow> string \<Rightarrow> hold_row dict \<Rightarrow> hold_row option \<times> hold_row dict" where
  "finish_hold now eid ended_by = end_hold now eid ''done'' ended_by"

definition cleanup_paths :: "hold_row \<Rightarrow> string list" where
  "cleanup_paths h = List.map_filter (\<lambda>c. if truthy (dget_or c ''path'' PNone) then Some (py_str (dget_or c ''path'' PNone)) else None) (hd_node_paths h)"

text \<open>\<open>queue_held_cleanups\<close>: the release of a hold and the queueing of its clean-ups, in one commit.\<close>

definition queue_held_cleanups :: "(string option \<Rightarrow> string option) \<Rightarrow> string \<Rightarrow> string \<Rightarrow> string \<Rightarrow> (hold_row \<Rightarrow> string option) \<Rightarrow>
    run_row dict \<times> hold_row dict \<Rightarrow> run_error + (hold_row option \<times> run_row dict \<times> hold_row dict)" where
  "queue_held_cleanups refuse_workspace now eid ended_by refuse_held db =
     (case end_hold now eid RELEASED ended_by (snd db) of
        (None, holds) \<Rightarrow> Inr (None, fst db, holds)
      | (Some h, holds) \<Rightarrow>
          (case refuse_held h of
             Some why \<Rightarrow> Inl (RefusedByCaller why)
           | None \<Rightarrow>
               (let paths = cleanup_paths h
                in if paths = [] then Inr (Some h, fst db, holds)
                   else case queue_run_in refuse_workspace eid
                     \<lparr>rq_workflow_name = hd_workflow_name h, rq_workspace_path = (if hd_workspace_path h = [] then None else Some (hd_workspace_path h)),
                      rq_inputs = Some (hd_inputs h), rq_start = Some ''cleanup'', rq_extra = Some [(''only'', PList (map PStr paths))],
                      rq_lane = KeepLane\<rparr> (fst db) of
                     Inl e \<Rightarrow> Inl e
                   | Inr rows \<Rightarrow> Inr (Some h, rows, holds))))"

definition release_held_cleanups :: "string \<Rightarrow> string \<Rightarrow> string \<Rightarrow> (hold_row \<Rightarrow> string option) \<Rightarrow> run_row dict \<times> hold_row dict
    \<Rightarrow> run_error + (hold_row option \<times> run_row dict \<times> hold_row dict)" where
  "release_held_cleanups now eid ended_by refuse_held db =
     (case end_hold now eid RELEASED ended_by (snd db) of
        (None, holds) \<Rightarrow> Inr (None, fst db, holds)
      | (Some h, holds) \<Rightarrow> (case refuse_held h of Some why \<Rightarrow> Inl (RefusedByCaller why) | None \<Rightarrow> Inr (Some h, fst db, holds)))"

definition queue_fork_taking_over :: "(string option \<Rightarrow> string option) \<Rightarrow> string \<Rightarrow> string \<Rightarrow> string \<Rightarrow> run_request \<Rightarrow> bool \<Rightarrow> string option \<Rightarrow>
    run_row dict \<times> hold_row dict \<Rightarrow> run_error + (hold_row option \<times> run_row dict \<times> hold_row dict)" where
  "queue_fork_taking_over refuse_workspace now source fork_id rq source_was_holding refuse_successor db =
     (case end_hold now source TAKEN_OVER fork_id (snd db) of
        (taken, holds) \<Rightarrow>
          (case refuse_successor of
             Some why \<Rightarrow> Inl (RefusedByCaller why)
           | None \<Rightarrow>
               if taken = None \<and> source_was_holding then Inl (HoldNoLongerWaiting source)
               else case queue_run_in refuse_workspace fork_id (rq\<lparr>rq_start := Some ''fork'', rq_extra := None\<rparr>) (fst db) of
                 Inl e \<Rightarrow> Inl e
               | Inr rows \<Rightarrow> Inr (taken, rows, holds)))"

section \<open>Putting a run in the queue\<close>

lemma mark_lane_Inr:
  assumes "mark_lane metadata lane = Inr marked"
  shows "lane_of marked = lane" and "k \<noteq> LANE_KEY \<Longrightarrow> dget marked k = dget metadata k"
proof -
  have f: "dget (filter (\<lambda>p. fst p \<noteq> LANE_KEY) metadata) LANE_KEY = None"
    using dget_filter [of "\<lambda>k. k \<noteq> LANE_KEY" metadata LANE_KEY] by simp
  have k: "k \<noteq> LANE_KEY \<Longrightarrow> dget (filter (\<lambda>p. fst p \<noteq> LANE_KEY) metadata) k = dget metadata k"
    using dget_filter [of "\<lambda>k. k \<noteq> LANE_KEY" metadata k] by simp
  show "lane_of marked = lane"
    using assms f by (auto simp: mark_lane_def Let_def lane_of_def dget_or_def map_add_def key_defs split: option.splits if_splits)
  show "k \<noteq> LANE_KEY \<Longrightarrow> dget marked k = dget metadata k"
    using assms k by (auto simp: mark_lane_def Let_def map_add_def split: option.splits if_splits)
qed

lemma dget_asked:
  "dget (asked_metadata start extra) k = Some v \<Longrightarrow> k = ''start'' \<or> k \<notin> set WORKER_KEPT \<and> k \<noteq> LANE_KEY \<and> k \<in> fst ` set extra"
proof -
  assume "dget (asked_metadata start extra) k = Some v"
  then consider "dget (rev (filter (\<lambda>p. truthy (snd p) \<and> fst p \<notin> set (WORKER_KEPT @ [LANE_KEY])) extra)) k = Some v" | "k = ''start''"
    by (auto simp: asked_metadata_def dget_dmerge split: option.splits list.splits if_splits)
  then show ?thesis
  proof cases
    case 1
    then have "(k, v) \<in> set (filter (\<lambda>p. truthy (snd p) \<and> fst p \<notin> set (WORKER_KEPT @ [LANE_KEY])) extra)"
      using map_of_SomeD by fastforce
    then show ?thesis by force
  qed simp
qed

lemma asked_not_kept: "k \<in> set WORKER_KEPT \<Longrightarrow> dget (asked_metadata start extra) k = None"
  using dget_asked [of start extra k] by (cases "dget (asked_metadata start extra) k") (auto simp: key_defs)

lemma asked_no_admission: "\<not> has_admission extra \<Longrightarrow> \<not> has_admission (asked_metadata start extra)"
  using dget_asked [of start extra RESERVED_KEY]
  by (cases "dget (asked_metadata start extra) RESERVED_KEY") (auto simp: has_admission_def dhas_def key_defs map_of_eq_None_iff)

lemma kept_keys:
  "k \<in> set WORKER_KEPT \<Longrightarrow> dget (rev (kept_metadata old)) k = (if dget_or old k PNone = PNone then None else Some (dget_or old k PNone))"
  "dget (rev (kept_metadata old)) RESERVED_KEY = None"
  by (auto simp: kept_metadata_def key_defs List.map_filter_simps)

text \<open>The three ways a request gets through.\<close>

lemma queue_run_cases:
  assumes "queue_run_in rw eid rq rows = Inr rows'"
  obtains (fresh) marked where "dget rows eid = None"
      and "mark_lane (asked_metadata (rq_start rq) (dict_or_empty (rq_extra rq))) (case rq_lane rq of KeepLane \<Rightarrow> None | SetLane l \<Rightarrow> l) = Inr marked"
      and "rows' = dset eid (new_row rq marked) rows"
  | (again) r marked where "dget rows eid = Some r" and "rr_status r \<noteq> QUEUED" and "rr_status r \<noteq> RUN_RUNNING" and "\<not> has_admission (rr_metadata r)"
      and "mark_lane (dmerge (asked_metadata (rq_start rq) (dict_or_empty (rq_extra rq))) (kept_metadata (rr_metadata r)))
             (case rq_lane rq of KeepLane \<Rightarrow> lane_of (rr_metadata r) | SetLane l \<Rightarrow> l) = Inr marked"
      and "rows' = dset eid (requeued_row rq marked r) rows"
  using assms by (auto simp: queue_run_in_def Let_def split: option.splits if_splits sum.splits)

text \<open>A run never gets a second box: a request gets through only when the run has no row or a row that is neither
  queued nor running; it leaves the run queued, owned by no box and with no end, and touches no other run.
\<close>

theorem queue_gives_no_second_box:
  assumes "queue_run_in rw eid rq rows = Inr rows'"
  shows "(\<forall>r. dget rows eid = Some r \<longrightarrow> rr_status r \<noteq> QUEUED \<and> rr_status r \<noteq> RUN_RUNNING) \<and>
    (\<exists>r'. dget rows' eid = Some r' \<and> rr_status r' = QUEUED \<and> rr_spawner_handle r' = None \<and> rr_completed_at r' = None \<and> \<not> rr_cancel_requested r' \<and>
       rr_attempts r' = (case dget rows eid of None \<Rightarrow> 0 | Some r \<Rightarrow> rr_attempts r)) \<and>
    (\<forall>other. other \<noteq> eid \<longrightarrow> dget rows' other = dget rows other) \<and>
    queue_run_in rw eid rq rows' = Inl (AlreadyQueued eid QUEUED)"
proof -
  have free: "\<not> has_admission (dict_or_empty (rq_extra rq))" "\<not> dhas ADMISSION_SELECTION_KEY (dict_or_empty (rq_extra rq))"
      "rw (rq_workspace_path rq) = None"
    using assms by (auto simp: queue_run_in_def Let_def split: option.splits if_splits)
  note asked = asked_no_admission [OF free(1), of "rq_start rq"]
  show ?thesis using assms
  proof (cases rule: queue_run_cases)
    case (fresh marked)
    have "\<not> has_admission marked" using mark_lane_Inr(2) [OF fresh(2), of RESERVED_KEY] asked by (simp add: has_admission_def dhas_def key_defs)
    then show ?thesis using fresh free by (auto simp: new_row_def queue_run_in_def Let_def)
  next
    case (again r marked)
    have "\<not> has_admission marked"
      using mark_lane_Inr(2) [OF again(5), of RESERVED_KEY] asked kept_keys(2) [of "rr_metadata r"]
      by (simp add: has_admission_def dhas_def dget_dmerge key_defs)
    then show ?thesis using again free by (auto simp: requeued_row_def queue_run_in_def Let_def)
  qed
qed

text \<open>Whatever a request asks for, a run that is queued again stays in its lane unless the request names one, and
  keeps the records only the worker writes: no request can hand in a lane mark or such a record of its own.
\<close>

theorem requeue_keeps_lane_and_records:
  assumes "queue_run_in rw eid rq rows = Inr rows'" and "dget rows eid = Some r"
  shows "\<exists>r'. dget rows' eid = Some r' \<and> lane_of (rr_metadata r') = (case rq_lane rq of KeepLane \<Rightarrow> lane_of (rr_metadata r) | SetLane l \<Rightarrow> l) \<and>
    (\<forall>k \<in> set WORKER_KEPT. dget_or (rr_metadata r') k PNone = dget_or (rr_metadata r) k PNone)"
  using assms(1)
proof (cases rule: queue_run_cases)
  case (again r0 marked)
  have "dget_or marked k PNone = dget_or (rr_metadata r) k PNone" if k: "k \<in> set WORKER_KEPT" for k
  proof -
    have "dget marked k = dget (dmerge (asked_metadata (rq_start rq) (dict_or_empty (rq_extra rq))) (kept_metadata (rr_metadata r))) k"
      using mark_lane_Inr(2) [OF again(5), of k] k again(1) assms(2) by (auto simp: key_defs)
    then show ?thesis
      using asked_not_kept [OF k] kept_keys(1) [OF k] by (simp add: dget_dmerge dget_or_def)
  qed
  moreover have r0: "r0 = r" using again(1) assms(2) by simp
  ultimately show ?thesis using again(6) mark_lane_Inr(1) [OF again(5)] unfolding r0 by (simp add: requeued_row_def)
qed (use assms in simp)

section \<open>The fence\<close>

lemma from_snapshot_Inr:
  assumes "from_snapshot (snapshot r0) = Inr judged"
  shows "rg_status judged = rr_status r0" and "rg_attempts judged = rr_attempts r0"
    and "\<And>c. rg_container judged = Some c \<Longrightarrow> row_container r0 = Some c" and "\<And>h. rg_handle judged = Some h \<Longrightarrow> rr_spawner_handle r0 = Some h"
    and "\<And>k. rg_kind judged = Some k \<Longrightarrow> rr_spawner_kind r0 = Some k"
  using assms
  by (auto simp: from_snapshot_def snapshot_def dget_or_def identity_of_def opt_text_def row_container_def py_str_def
      split: list.splits option.splits pyval.splits)

text \<open>C22: An end written on a read of the row lands only on the generation that read judged. If the run was started
  again since (its attempts or its status changed), or its queued row was handed to another box (another handle,
  or another container), nothing is written; and where it lands it changes the row's status, end and error and
  no other row.
\<close>

theorem end_lands_on_judged_generation:
  assumes "from_snapshot (snapshot r0) = Inr judged" and "dget rows eid = Some r"
    and "end_row_if_same_generation now eid judged status keep_open err rows = (written, rows')"
  shows "if written
     then rr_status r = rr_status r0 \<and> rr_attempts r = rr_attempts r0 \<and>
       (rr_status r0 = QUEUED \<longrightarrow> rr_spawner_handle r = rr_spawner_handle r0 \<and>
          (rr_spawner_kind r0 = Some ''docker'' \<longrightarrow> row_container r = row_container r0)) \<and>
       dget rows' eid = Some (ended_row now status keep_open err r) \<and> (\<forall>other. other \<noteq> eid \<longrightarrow> dget rows' other = dget rows other)
     else rows' = rows"
proof (cases "same_generation judged r")
  case True
  note j = from_snapshot_Inr [OF assms(1)]
  have "rr_spawner_handle r = rr_spawner_handle r0 \<and> (rr_spawner_kind r0 = Some ''docker'' \<longrightarrow> row_container r = row_container r0)"
    if queued: "rr_status r0 = QUEUED"
  proof -
    obtain same where same: "queued_dispatch judged = Some same" "same r"
      using True queued j(1) by (auto simp: same_generation_def split: option.splits)
    then show ?thesis using j(3-5)
      by (auto simp: queued_dispatch_def split: if_splits option.splits)
  qed
  then show ?thesis using True assms(2,3) j(1,2) by (auto simp: end_row_if_same_generation_def same_generation_def)
qed (use assms in \<open>auto simp: end_row_if_same_generation_def\<close>)

section \<open>A hold ends once\<close>

datatype hold_tx =
    QueueCleanups string "hold_row \<Rightarrow> string option"
  | ReleaseQuietly string "hold_row \<Rightarrow> string option"
  | ForkTakesOver string run_request bool "string option"
  | ResumeTakesOver string
  | RunFinished string

text \<open>A transaction on the hold of one run: whether it ended the hold, and what it leaves.\<close>

fun run_hold_tx :: "(string option \<Rightarrow> string option) \<Rightarrow> string \<Rightarrow> string \<Rightarrow> hold_tx \<Rightarrow> run_row dict \<times> hold_row dict \<Rightarrow> bool \<times> run_row dict \<times> hold_row dict" where
  "run_hold_tx rw now eid (QueueCleanups who refuse) db =
     (case queue_held_cleanups rw now eid who refuse db of Inl e \<Rightarrow> (False, db) | Inr (h, db') \<Rightarrow> (h \<noteq> None, db'))"
| "run_hold_tx rw now eid (ReleaseQuietly who refuse) db =
     (case release_held_cleanups now eid who refuse db of Inl e \<Rightarrow> (False, db) | Inr (h, db') \<Rightarrow> (h \<noteq> None, db'))"
| "run_hold_tx rw now eid (ForkTakesOver fork_id rq was refuse) db =
     (case queue_fork_taking_over rw now eid fork_id rq was refuse db of Inl e \<Rightarrow> (False, db) | Inr (h, db') \<Rightarrow> (h \<noteq> None, db'))"
| "run_hold_tx rw now eid (ResumeTakesOver who) db = (case take_over now eid who (snd db) of (h, holds) \<Rightarrow> (h \<noteq> None, fst db, holds))"
| "run_hold_tx rw now eid (RunFinished who) db = (case finish_hold now eid who (snd db) of (h, holds) \<Rightarrow> (h \<noteq> None, fst db, holds))"

fun times_ended :: "(string option \<Rightarrow> string option) \<Rightarrow> string \<Rightarrow> string \<Rightarrow> hold_tx list \<Rightarrow> run_row dict \<times> hold_row dict \<Rightarrow> nat" where
  "times_ended rw now eid [] db = 0"
| "times_ended rw now eid (tx # txs) db =
     (case run_hold_tx rw now eid tx db of (ended, db') \<Rightarrow> (if ended then 1 else 0) + times_ended rw now eid txs db')"

lemma end_hold_waiting:
  assumes "end_hold now eid status who holds = (h, holds')" and "status \<noteq> HELD"
  shows "hold_waiting eid holds' = None" and "h = None \<Longrightarrow> holds' = holds" and "h \<noteq> None \<longleftrightarrow> hold_waiting eid holds \<noteq> None"
  using assms by (auto simp: end_hold_def hold_waiting_def Let_def split: option.splits if_splits)

lemma hold_tx_waiting:
  assumes "run_hold_tx rw now eid tx db = (ended, db')"
  shows "ended \<Longrightarrow> hold_waiting eid (snd db) \<noteq> None \<and> hold_waiting eid (snd db') = None"
    and "hold_waiting eid (snd db) = None \<Longrightarrow> hold_waiting eid (snd db') = None"
proof -
  have st: "RELEASED \<noteq> HELD" "TAKEN_OVER \<noteq> HELD" "''done'' \<noteq> HELD" by (simp_all add: RELEASED_def TAKEN_OVER_def HELD_def)
  note one = end_hold_waiting [OF _ st(1)] end_hold_waiting [OF _ st(2)] end_hold_waiting [OF _ st(3)]
  have "(ended \<longrightarrow> hold_waiting eid (snd db) \<noteq> None \<and> hold_waiting eid (snd db') = None) \<and>
      (hold_waiting eid (snd db) = None \<longrightarrow> hold_waiting eid (snd db') = None)"
    using assms
    by (cases tx) (auto simp: queue_held_cleanups_def release_held_cleanups_def queue_fork_taking_over_def take_over_def finish_hold_def Let_def
        split: prod.splits option.splits sum.splits if_splits dest: one)
  then show "ended \<Longrightarrow> hold_waiting eid (snd db) \<noteq> None \<and> hold_waiting eid (snd db') = None"
    and "hold_waiting eid (snd db) = None \<Longrightarrow> hold_waiting eid (snd db') = None" by blast+
qed

lemma no_hold_no_end: "hold_waiting eid (snd db) = None \<Longrightarrow> times_ended rw now eid txs db = 0"
  by (induction txs arbitrary: db) (auto split: prod.splits dest: hold_tx_waiting)

text \<open>C23: The clean-ups a run holds are let go once: of any sequence of Give up, the deadline, a resume, a fork and the
  run's own end, at most one ends the hold.
\<close>

theorem hold_ends_once: "times_ended rw now eid txs db \<le> 1"
proof (induction txs arbitrary: db)
  case (Cons tx txs)
  obtain ended db' where tx: "run_hold_tx rw now eid tx db = (ended, db')" by (metis surj_pair)
  show ?case using Cons [of db'] tx hold_tx_waiting(1) [OF tx] no_hold_no_end [of eid db'] by (cases ended) auto
qed simp

section \<open>Witnesses\<close>

definition demo_request :: run_request where
  "demo_request = \<lparr>rq_workflow_name = ''build'', rq_workspace_path = None, rq_inputs = None, rq_start = Some ''resume'',
     rq_extra = Some [(''lane'', PStr ''other''), (''box_profile'', PStr ''x'')], rq_lane = KeepLane\<rparr>"

definition demo_row :: run_row where
  "demo_row = (new_row demo_request [(''box_profile'', PStr ''sealed''), (''lane'', PStr ''pi'')])\<lparr>rr_status := ''failed'', rr_attempts := 2\<rparr>"

lemma demo_queued: "\<exists>rows'. queue_run_in (\<lambda>_. None) ''r1'' demo_request [(''r1'', demo_row)] = Inr rows'"
proof -
  have "case queue_run_in (\<lambda>_. None) ''r1'' demo_request [(''r1'', demo_row)] of Inr rows' \<Rightarrow> True | Inl e \<Rightarrow> False" by code_simp
  then show ?thesis by (auto split: sum.splits)
qed

theorem queue_gives_no_second_box_witness:
  "\<exists>rows'. queue_run_in (\<lambda>_. None) ''r1'' demo_request [(''r1'', demo_row)] = Inr rows' \<and>
     queue_run_in (\<lambda>_. None) ''r1'' demo_request rows' = Inl (AlreadyQueued ''r1'' QUEUED)"
  using demo_queued queue_gives_no_second_box by blast

theorem requeue_keeps_lane_and_records_witness:
  "\<exists>rows' r'. queue_run_in (\<lambda>_. None) ''r1'' demo_request [(''r1'', demo_row)] = Inr rows' \<and> dget rows' ''r1'' = Some r' \<and>
     lane_of (rr_metadata r') = lane_of (rr_metadata demo_row) \<and> dget_or (rr_metadata r') ''box_profile'' PNone = PStr ''sealed''"
proof -
  obtain rows' where q: "queue_run_in (\<lambda>_. None) ''r1'' demo_request [(''r1'', demo_row)] = Inr rows'" using demo_queued by blast
  have "rq_lane demo_request = KeepLane" "''box_profile'' \<in> set WORKER_KEPT" "dget_or (rr_metadata demo_row) ''box_profile'' PNone = PStr ''sealed''"
    by (simp_all add: demo_request_def demo_row_def new_row_def key_defs dget_or_def)
  then show ?thesis using requeue_keeps_lane_and_records [OF q, of demo_row] q by auto
qed

theorem end_lands_on_judged_generation_witness:
  "\<exists>judged. from_snapshot (snapshot (demo_row\<lparr>rr_status := ''running'', rr_attempts := 1\<rparr>)) = Inr judged \<and>
     snd (end_row_if_same_generation ''t'' ''r1'' judged ''orphaned'' False None [(''r1'', demo_row\<lparr>rr_status := ''running''\<rparr>)])
       = [(''r1'', demo_row\<lparr>rr_status := ''running''\<rparr>)]"
proof -
  obtain judged where j: "from_snapshot (snapshot (demo_row\<lparr>rr_status := ''running'', rr_attempts := 1\<rparr>)) = Inr judged"
    by (simp add: from_snapshot_def snapshot_def dget_or_def)
  obtain b rows' where e: "end_row_if_same_generation ''t'' ''r1'' judged ''orphaned'' False None [(''r1'', demo_row\<lparr>rr_status := ''running''\<rparr>)] = (b, rows')"
    by (metis surj_pair)
  have a: "rr_attempts demo_row = 2" by (simp add: demo_row_def)
  show ?thesis using end_lands_on_judged_generation [OF j _ e] j e a by (cases b) simp_all
qed

end
