(* ===== verification/Parked.thy ===== *)
theory Parked
  imports Run_Rows Gate
begin

text \<open>
  Runs that wait on a person without holding a worker (\<^verbatim>\<open>temper_ai/runner/parked.py\<close>): the attempt's event says
  \<open>waiting\<close> with a note of where; whoever carries the run on claims that attempt with a compare-and-set, in one
  commit with the row it queues; a cancel ends it the same way.

  Every claim and every cancel is one transaction over the database (\<open>run_db\<close>), given the attempt as the caller read
  it, which may be out of date. The times of writes and the reading of times are the clock's, a parameter.
\<close>

section \<open>The database\<close>

record attempt =
  at_id :: string
  at_execution :: string
  at_time :: nat
  at_status :: string
  at_data :: "pyval dict"

record run_db =
  db_rows :: "run_row dict"
  db_attempts :: "attempt list"
  db_gates :: "wait_log dict"
  db_holds :: "hold_row dict"
  db_ended_teams :: "string list"

record clock =
  ck_now :: rat
  ck_iso :: string
  ck_parse :: "string \<Rightarrow> rat option"

definition CARRIED_ON :: string where "CARRIED_ON = ''parked''"
definition RUN_CANCELLED :: string where "RUN_CANCELLED = ''cancelled''"

lemmas park_status_defs = WAITING_def CARRIED_ON_def RUN_CANCELLED_def

definition note_of :: "attempt \<Rightarrow> pyval dict option" where
  "note_of a = (case dget_or (at_data a) ''parked'' PNone of PDict d \<Rightarrow> Some d | _ \<Rightarrow> None)"

definition note_or_empty :: "attempt \<Rightarrow> pyval dict" where
  "note_or_empty a = (case note_of a of None \<Rightarrow> [] | Some d \<Rightarrow> d)"

text \<open>\<open>find_latest_workflow_event\<close>: the newest attempt of a run.\<close>

definition newer :: "attempt \<Rightarrow> attempt \<Rightarrow> attempt" where
  "newer a b = (if at_time a < at_time b then b else a)"

definition find_latest :: "string \<Rightarrow> attempt list \<Rightarrow> attempt option" where
  "find_latest eid as = (case filter (\<lambda>a. at_execution a = eid) as of [] \<Rightarrow> None | a # rest \<Rightarrow> Some (foldl newer a rest))"

definition is_parked :: "attempt \<Rightarrow> bool" where
  "is_parked a = (at_status a = WAITING \<and> note_of a \<noteq> None)"

definition parked_attempt :: "string \<Rightarrow> run_db \<Rightarrow> attempt option" where
  "parked_attempt eid db = (case find_latest eid (db_attempts db) of Some a \<Rightarrow> if is_parked a then Some a else None | None \<Rightarrow> None)"

definition parked_waits :: "attempt \<Rightarrow> string list" where
  "parked_waits a =
     (let also = (case dget_or (note_or_empty a) ''also'' PNone of PList ws \<Rightarrow> ws | _ \<Rightarrow> [])
      in map py_str (filter truthy (dget_or (note_or_empty a) ''event_id'' PNone #
           map (\<lambda>w. case w of PDict d \<Rightarrow> dget_or d ''event_id'' PNone | _ \<Rightarrow> PNone) also)))"

definition all_gate_events :: "string \<Rightarrow> run_db \<Rightarrow> wait_event list" where
  "all_gate_events eid db =
     (case dget (db_gates db) eid of
        None \<Rightarrow> []
      | Some evs \<Rightarrow> filter (\<lambda>e. we_status e \<in> set GATE_STATUSES \<and> truthy (wfield e ''gate'')) evs)"

definition answered :: "string \<Rightarrow> attempt \<Rightarrow> run_db \<Rightarrow> wait_event option" where
  "answered eid a db = find (\<lambda>e. we_id e \<in> set (parked_waits a) \<and> we_status e = APPROVED \<and> \<not> used e) (all_gate_events eid db)"

text \<open>A parked usage-limit wake is due; a time that cannot be read never wakes a run.\<close>

definition timer_due :: "clock \<Rightarrow> attempt \<Rightarrow> bool" where
  "timer_due ck a = (case ck_parse ck (py_str (dget_or (note_or_empty a) ''wake_at'' PNone)) of None \<Rightarrow> False | Some t \<Rightarrow> t \<le> ck_now ck)"

section \<open>Claims\<close>

definition change_attempt :: "string \<Rightarrow> string \<Rightarrow> pyval dict \<Rightarrow> attempt list \<Rightarrow> attempt list" where
  "change_attempt i st data as = map (\<lambda>a. if at_id a = i then a\<lparr>at_status := st, at_data := dmerge (at_data a) data\<rparr> else a) as"

definition get_attempt :: "string \<Rightarrow> attempt list \<Rightarrow> attempt option" where
  "get_attempt i as = find (\<lambda>a. at_id a = i) as"

definition decide_attempt :: "string \<Rightarrow> string list \<Rightarrow> string \<Rightarrow> pyval dict \<Rightarrow> attempt list \<Rightarrow> (bool \<times> attempt option) \<times> attempt list" where
  "decide_attempt i expect st data as =
     (case get_attempt i as of
        None \<Rightarrow> ((False, None), as)
      | Some a \<Rightarrow>
          if at_status a \<notin> set expect then ((False, Some a), as)
          else ((True, Some (a\<lparr>at_status := st, at_data := dmerge (at_data a) data\<rparr>)), change_attempt i st data as))"

text \<open>\<open>latest_start_condition\<close>: no start of the same run is later.\<close>

definition latest_start :: "attempt \<Rightarrow> attempt list \<Rightarrow> bool" where
  "latest_start a as = list_all (\<lambda>b. at_execution b = at_execution a \<longrightarrow> at_time b \<le> at_time a) as"

definition claim_in :: "clock \<Rightarrow> attempt \<Rightarrow> attempt list \<Rightarrow> run_error + (string \<times> attempt list)" where
  "claim_in ck a as =
     (case decide_attempt (at_id a) [WAITING] CARRIED_ON
         [(''parked'', PDict (dset ''carried_on_at'' (PStr (ck_iso ck)) (note_or_empty a)))] as of
        ((True, Some now), as') \<Rightarrow> if latest_start now as' then Inr (at_execution now, as') else Inl (AlreadyCarriedOn (at_execution now))
      | ((_, Some now), _) \<Rightarrow> Inl (AlreadyCarriedOn (at_execution now))
      | ((_, None), _) \<Rightarrow> Inl (AlreadyCarriedOn (at_execution a)))"

definition claim_and_queue :: "(string option \<Rightarrow> string option) \<Rightarrow> clock \<Rightarrow> attempt \<Rightarrow> run_request \<Rightarrow> run_db \<Rightarrow> run_error + run_db" where
  "claim_and_queue rw ck a rq db =
     (case claim_in ck a (db_attempts db) of
        Inl e \<Rightarrow> Inl e
      | Inr (eid, as) \<Rightarrow>
          (case queue_run_in rw eid rq (db_rows db) of
             Inl e \<Rightarrow> Inl e
           | Inr rows \<Rightarrow> Inr (db\<lparr>db_attempts := as, db_rows := rows\<rparr>)))"

text \<open>The worker's path: workflow, workspace and inputs of the run's own row.\<close>

definition row_request :: "run_row \<Rightarrow> string option \<Rightarrow> pyval dict option \<Rightarrow> run_request" where
  "row_request r start extra =
     \<lparr>rq_workflow_name = rr_workflow_name r, rq_workspace_path = Some (rr_workspace_path r), rq_inputs = Some (rr_inputs r), rq_start = start,
      rq_extra = extra, rq_lane = KeepLane\<rparr>"

definition claim_and_requeue_row :: "(string option \<Rightarrow> string option) \<Rightarrow> clock \<Rightarrow> attempt \<Rightarrow> string option \<Rightarrow> pyval dict option \<Rightarrow> run_db
    \<Rightarrow> run_error + run_db" where
  "claim_and_requeue_row rw ck a start extra db =
     (case claim_in ck a (db_attempts db) of
        Inl e \<Rightarrow> Inl e
      | Inr (eid, as) \<Rightarrow>
          (case dget (db_rows db) eid of
             None \<Rightarrow> Inl NoBoxRow
           | Some r \<Rightarrow>
               (case queue_run_in rw eid (row_request r start extra) (db_rows db) of
                  Inl e \<Rightarrow> Inl e
                | Inr rows \<Rightarrow> Inr (db\<lparr>db_attempts := as, db_rows := rows\<rparr>))))"

definition claim_without_box_row :: "clock \<Rightarrow> attempt \<Rightarrow> run_db \<Rightarrow> run_error + (bool \<times> run_db)" where
  "claim_without_box_row ck a db =
     (case claim_in ck a (db_attempts db) of
        Inl e \<Rightarrow> Inl e
      | Inr (eid, as) \<Rightarrow> if dhas eid (db_rows db) then Inr (False, db) else Inr (True, db\<lparr>db_attempts := as\<rparr>))"

text \<open>\<open>release\<close>: a claimed attempt goes back to waiting; carrying it on did not start.\<close>

definition put_back :: "attempt \<Rightarrow> run_db \<Rightarrow> bool \<times> run_db" where
  "put_back a db =
     (case decide_attempt (at_id a) [CARRIED_ON] WAITING [(''parked'', PDict (ddel ''carried_on_at'' (note_or_empty a)))] (db_attempts db) of
        ((won, _), as) \<Rightarrow> (won, db\<lparr>db_attempts := as\<rparr>))"

section \<open>Carrying a run on\<close>

definition queue_resume :: "(string option \<Rightarrow> string option) \<Rightarrow> clock \<Rightarrow> string \<Rightarrow> run_db \<Rightarrow> run_error + run_db" where
  "queue_resume rw ck eid db =
     (case parked_attempt eid db of
        None \<Rightarrow> Inl (AlreadyCarriedOn eid)
      | Some a \<Rightarrow>
          (case claim_and_requeue_row rw ck a (Some ''resume'') (Some [(''rerun'', PList [])]) db of
             Inl e \<Rightarrow> Inl e
           | Inr db' \<Rightarrow> Inr (db'\<lparr>db_holds := snd (take_over (ck_iso ck) eid eid (db_holds db'))\<rparr>)))"

definition carry_on :: "clock \<Rightarrow> bool \<Rightarrow> (string \<Rightarrow> run_db \<Rightarrow> run_error + run_db) \<Rightarrow> string \<Rightarrow> run_db \<Rightarrow> bool \<times> run_db" where
  "carry_on ck pi_switched_off start eid db =
     (case parked_attempt eid db of
        None \<Rightarrow> (False, db)
      | Some a \<Rightarrow>
          if answered eid a db = None \<and> \<not> timer_due ck a then (False, db)
          else if pi_switched_off then (False, db)
          else (case start eid db of Inl e \<Rightarrow> (False, db) | Inr db' \<Rightarrow> (True, db')))"

definition parked_runs :: "run_db \<Rightarrow> string list" where
  "parked_runs db =
     filter (\<lambda>eid. parked_attempt eid db \<noteq> None)
       (rev (remdups (rev (map at_execution (filter (\<lambda>a. at_status a = WAITING \<and> at_execution a \<noteq> [] \<and> note_of a \<noteq> None) (db_attempts db))))))"

fun carry_each :: "clock \<Rightarrow> bool \<Rightarrow> (string \<Rightarrow> run_db \<Rightarrow> run_error + run_db) \<Rightarrow> string list \<Rightarrow> run_db \<Rightarrow> string list \<times> run_db" where
  "carry_each ck off start [] db = ([], db)"
| "carry_each ck off start (eid # eids) db =
     (case carry_on ck off start eid db of (won, db') \<Rightarrow>
        (case carry_each ck off start eids db' of (carried, db'') \<Rightarrow> (if won then eid # carried else carried, db'')))"

definition carry_on_at_startup :: "clock \<Rightarrow> bool \<Rightarrow> (string \<Rightarrow> run_db \<Rightarrow> run_error + run_db) \<Rightarrow> run_db \<Rightarrow> string list \<times> run_db" where
  "carry_on_at_startup ck off start db = carry_each ck off start (parked_runs db) db"

section \<open>Cancelling\<close>

datatype row_outcome = RowEnded | RowAlreadyEnded | NoRow | RowRefused

definition end_row_in :: "clock \<Rightarrow> string \<Rightarrow> string \<Rightarrow> row_generation option \<Rightarrow> run_row dict \<Rightarrow> row_outcome \<times> run_row dict" where
  "end_row_in ck eid status judged rows =
     (if (case judged of Some j \<Rightarrow> rg_status j \<notin> {WAITING, RUN_RUNNING} | None \<Rightarrow> False) then (RowRefused, rows)
      else case dget rows eid of
        None \<Rightarrow> (if judged = None then NoRow else RowRefused, rows)
      | Some r \<Rightarrow>
          (let attempts = (case judged of None \<Rightarrow> rr_attempts r | Some j \<Rightarrow> rg_attempts j)
           in if rr_attempts r \<noteq> attempts \<or> rr_status r = QUEUED then (RowRefused, rows)
              else if rr_status r \<notin> {WAITING, RUN_RUNNING} then (RowAlreadyEnded, rows)
              else case from_snapshot (snapshot r) of
                Inl e \<Rightarrow> (RowRefused, rows)
              | Inr observed \<Rightarrow>
                  (case end_row_if_same_generation (ck_iso ck) eid observed status False None rows of
                     (changed, rows') \<Rightarrow> (if changed then RowEnded else RowRefused, rows'))))"

definition stop_message :: "string option \<Rightarrow> string" where
  "stop_message reason = (case reason of None \<Rightarrow> CANCEL_MESSAGE | Some s \<Rightarrow> if strip s = [] then CANCEL_MESSAGE else strip s)"

definition on_cancel_of :: "attempt \<Rightarrow> pyval dict" where
  "on_cancel_of a = (case dget_or (note_or_empty a) ''on_cancel'' PNone of PDict d \<Rightarrow> d | _ \<Rightarrow> [])"

definition held_of :: "attempt \<Rightarrow> pyval list" where
  "held_of a = (case dget_or (on_cancel_of a) ''held'' PNone of PList hs \<Rightarrow> hs | _ \<Rightarrow> [])"

definition cancel_commit :: "clock \<Rightarrow> attempt \<Rightarrow> string \<Rightarrow> string option \<Rightarrow> row_generation option \<Rightarrow> run_db \<Rightarrow> run_db option" where
  "cancel_commit ck a eid reason judged db =
     (let message = stop_message reason;
          stopped = PDict [(''path'', PStr ''the run''), (''reason'', PStr message), (''at'', PStr (ck_iso ck)),
            (''mode'', dget_or (on_cancel_of a) ''mode'' PNone), (''held'', PList (held_of a))]
      in case decide_attempt (at_id a) [WAITING] RUN_CANCELLED
           [(''error'', PStr message), (''cancelled_reason'', PStr message), (''stopped'', stopped)] (db_attempts db) of
           ((True, Some now), as) \<Rightarrow>
             if \<not> latest_start now as then None
             else (case end_row_in ck eid RUN_CANCELLED judged (db_rows db) of
                     (RowRefused, _) \<Rightarrow> None
                   | (_, rows) \<Rightarrow> Some (db\<lparr>db_attempts := as, db_rows := rows\<rparr>))
         | _ \<Rightarrow> None)"

fun reject_each :: "pyval dict \<Rightarrow> wait_event list \<Rightarrow> wait_log \<Rightarrow> wait_log" where
  "reject_each rejected [] evs = evs"
| "reject_each rejected (e # es) evs =
     reject_each rejected es (if we_status e = WAITING then snd (decide (we_id e) [WAITING] REJECTED rejected evs) else evs)"

definition reject_open_waits :: "clock \<Rightarrow> string \<Rightarrow> string option \<Rightarrow> run_db \<Rightarrow> run_db" where
  "reject_open_waits ck eid reason db =
     (let said = (case reason of None \<Rightarrow> [] | Some s \<Rightarrow> strip s);
          rejected = [(''gate_status'', PStr REJECTED), (''gate_decided_at'', PStr (ck_iso ck))] @
            (if said = [] then []
             else [(''gate_response'', PDict [(''response'', PStr said), (''answers'', PList []), (''text'', PStr said)])])
      in case dget (db_gates db) eid of
           None \<Rightarrow> db
         | Some evs \<Rightarrow> db\<lparr>db_gates := dset eid (reject_each rejected (all_gate_events eid db) evs) (db_gates db)\<rparr>)"

definition hold_for_cancel :: "clock \<Rightarrow> string \<Rightarrow> attempt \<Rightarrow> string \<Rightarrow> run_db \<Rightarrow> run_db" where
  "hold_for_cancel ck eid a message db =
     (let data = at_data a;
          hours = (case as_number (py_or (dget_or (on_cancel_of a) ''hold_hours'' PNone) (PInt 24)) of Some h \<Rightarrow> h | None \<Rightarrow> 24)
      in db\<lparr>db_holds := record_hold (ck_iso ck) eid
           (py_str (py_or (dget_or data ''name'' PNone) (py_or (dget_or data ''workflow_name'' PNone) (PStr []))))
           (case dget_or data ''workspace_path'' PNone of PStr p \<Rightarrow> Some p | _ \<Rightarrow> None)
           (case dget_or data ''input_data'' PNone of PDict d \<Rightarrow> Some d | _ \<Rightarrow> None)
           (List.map_filter (\<lambda>h. case h of PDict d \<Rightarrow> Some d | _ \<Rightarrow> None) (held_of a)) (ck_now ck + max hours 0 * 3600) (Some ''the run'') (Some message)
           (db_holds db)\<rparr>)"

definition cancel_parked :: "clock \<Rightarrow> string \<Rightarrow> string option \<Rightarrow> row_generation option \<Rightarrow> run_db \<Rightarrow> bool \<times> run_db" where
  "cancel_parked ck eid reason judged db =
     (case parked_attempt eid db of
        None \<Rightarrow> (False, db)
      | Some a \<Rightarrow>
          (case cancel_commit ck a eid reason judged db of
             None \<Rightarrow> (False, db)
           | Some db' \<Rightarrow>
               (let rejected = reject_open_waits ck eid reason db';
                    ended = rejected\<lparr>db_ended_teams := db_ended_teams rejected @ [eid]\<rparr>
                in (True, if held_of a \<noteq> [] \<and> dget_or (on_cancel_of a) ''mode'' PNone = PStr ''hold''
                          then hold_for_cancel ck eid a (stop_message reason) ended else ended))))"

section \<open>One winner\<close>

lemma get_change_attempt [simp]:
  "get_attempt i (change_attempt j st d as) =
     (if i = j then map_option (\<lambda>a. a\<lparr>at_status := st, at_data := dmerge (at_data a) d\<rparr>) (get_attempt i as) else get_attempt i as)"
  by (induction as) (auto simp: get_attempt_def change_attempt_def)

lemma get_attempt_id: "get_attempt i as = Some a \<Longrightarrow> at_id a = i"
  by (auto simp: get_attempt_def find_Some_iff)

lemma latest_start_change:
  "latest_start x (change_attempt i st d as) = latest_start x as"
  "latest_start (x\<lparr>at_status := st, at_data := d\<rparr>) as = latest_start x as"
  by (induction as) (auto simp: latest_start_def change_attempt_def)

text \<open>What a claim does to the attempts, whichever of the three it is.\<close>

lemma claim_in_Inr:
  assumes "claim_in ck a as = Inr (eid, as')"
  obtains b d where "get_attempt (at_id a) as = Some b" and "at_status b = WAITING" and "as' = change_attempt (at_id a) CARRIED_ON d as"
    and "at_execution b = eid" and "latest_start (b\<lparr>at_status := CARRIED_ON, at_data := dmerge (at_data b) d\<rparr>) as'"
  using assms by (auto simp: claim_in_def decide_attempt_def split: option.splits if_splits)

lemma cancel_commit_Some:
  assumes "cancel_commit ck a eid reason judged db = Some db'"
  obtains b d where "get_attempt (at_id a) (db_attempts db) = Some b" and "at_status b = WAITING"
    and "db_attempts db' = change_attempt (at_id a) RUN_CANCELLED d (db_attempts db)"
  using assms by (auto simp: cancel_commit_def decide_attempt_def Let_def split: option.splits if_splits prod.splits row_outcome.splits)

text \<open>A transaction somebody makes with an attempt they read, and whether it took the attempt.\<close>

datatype park_move =
    ApiClaim run_request
  | WorkerClaim "string option" "pyval dict option"
  | InProcessClaim
  | Cancel string "string option" "row_generation option"

fun park_tx :: "(string option \<Rightarrow> string option) \<Rightarrow> clock \<Rightarrow> park_move \<Rightarrow> attempt \<Rightarrow> run_db \<Rightarrow> run_db option" where
  "park_tx rw ck (ApiClaim rq) a db = (case claim_and_queue rw ck a rq db of Inl e \<Rightarrow> None | Inr db' \<Rightarrow> Some db')"
| "park_tx rw ck (WorkerClaim start extra) a db = (case claim_and_requeue_row rw ck a start extra db of Inl e \<Rightarrow> None | Inr db' \<Rightarrow> Some db')"
| "park_tx rw ck InProcessClaim a db = (case claim_without_box_row ck a db of Inr (True, db') \<Rightarrow> Some db' | _ \<Rightarrow> None)"
| "park_tx rw ck (Cancel eid reason judged) a db = cancel_commit ck a eid reason judged db"

definition taken_status :: "park_move \<Rightarrow> string" where
  "taken_status tx = (case tx of Cancel _ _ _ \<Rightarrow> RUN_CANCELLED | _ \<Rightarrow> CARRIED_ON)"

lemma park_tx_Some:
  assumes "park_tx rw ck tx a db = Some db'"
  obtains b d where "get_attempt (at_id a) (db_attempts db) = Some b" and "at_status b = WAITING"
    and "db_attempts db' = change_attempt (at_id a) (taken_status tx) d (db_attempts db)"
proof (cases tx)
  case (Cancel eid reason judged)
  then show ?thesis using assms that cancel_commit_Some [of ck a eid reason judged db db'] by (auto simp: taken_status_def)
next
  case (ApiClaim rq)
  then obtain eid as where c: "claim_in ck a (db_attempts db) = Inr (eid, as)" and "db_attempts db' = as"
    using assms by (auto simp: claim_and_queue_def split: sum.splits)
  then show ?thesis using that ApiClaim by (elim claim_in_Inr) (auto simp: taken_status_def)
next
  case (WorkerClaim start extra)
  then obtain eid as where c: "claim_in ck a (db_attempts db) = Inr (eid, as)" and "db_attempts db' = as"
    using assms by (auto simp: claim_and_requeue_row_def split: sum.splits option.splits)
  then show ?thesis using that WorkerClaim by (elim claim_in_Inr) (auto simp: taken_status_def)
next
  case InProcessClaim
  then obtain eid as where c: "claim_in ck a (db_attempts db) = Inr (eid, as)" and "db_attempts db' = as"
    using assms by (auto simp: claim_without_box_row_def split: sum.splits if_splits bool.splits)
  then show ?thesis using that InProcessClaim by (elim claim_in_Inr) (auto simp: taken_status_def)
qed

lemma not_waiting_refused:
  assumes "get_attempt (at_id a) (db_attempts db) = Some b" and "at_status b \<noteq> WAITING"
  shows "park_tx rw ck tx a db = None"
proof (cases "park_tx rw ck tx a db")
  case (Some db')
  then show ?thesis using assms by (elim park_tx_Some) auto
qed simp

text \<open>Of the approval, the worker that let go, the server's start-up and a cancel, asking at the same moment with the
  same parked attempt, exactly one gets it: once one of them got through, every other is refused and writes nothing.
\<close>

theorem one_takes_a_parked_attempt:
  assumes "park_tx rw ck tx a db = Some db'" and "at_id a' = at_id a"
  shows "park_tx rw' ck' tx' a' db' = None"
proof -
  obtain b d where b: "get_attempt (at_id a) (db_attempts db) = Some b"
    and db': "db_attempts db' = change_attempt (at_id a) (taken_status tx) d (db_attempts db)"
    using assms(1) by (rule park_tx_Some)
  have "taken_status tx \<noteq> WAITING" by (simp add: taken_status_def park_status_defs split: park_move.split)
  then show ?thesis using b db' assms(2) by (intro not_waiting_refused) auto
qed

text \<open>Nobody ever sees a parked attempt claimed under a row that is not queued: a claim for a box leaves the attempt
  carried on and its run queued in one commit, and only for the run's newest start.
\<close>

theorem claim_and_queue_is_one_step:
  assumes "claim_and_queue rw ck a rq db = Inr db'"
  shows "\<exists>b r. get_attempt (at_id a) (db_attempts db) = Some b \<and> at_status b = WAITING \<and> latest_start b (db_attempts db) \<and>
    map_option at_status (get_attempt (at_id a) (db_attempts db')) = Some CARRIED_ON \<and>
    dget (db_rows db') (at_execution b) = Some r \<and> rr_status r = QUEUED \<and>
    (\<forall>r0. dget (db_rows db) (at_execution b) = Some r0 \<longrightarrow> rr_status r0 \<noteq> QUEUED \<and> rr_status r0 \<noteq> RUN_RUNNING)"
proof -
  obtain eid as rows where c: "claim_in ck a (db_attempts db) = Inr (eid, as)" and q: "queue_run_in rw eid rq (db_rows db) = Inr rows"
    and db': "db' = db\<lparr>db_attempts := as, db_rows := rows\<rparr>"
    using assms by (auto simp: claim_and_queue_def split: sum.splits)
  obtain b d where b: "get_attempt (at_id a) (db_attempts db) = Some b" "at_status b = WAITING" "as = change_attempt (at_id a) CARRIED_ON d (db_attempts db)"
      "at_execution b = eid" "latest_start (b\<lparr>at_status := CARRIED_ON, at_data := dmerge (at_data b) d\<rparr>) as"
    using c by (rule claim_in_Inr)
  have latest: "latest_start b (db_attempts db)"
    using b(3,5) latest_start_change(2) latest_start_change(1) by simp
  obtain r where r: "dget rows eid = Some r" "rr_status r = QUEUED"
    and old: "\<forall>r0. dget (db_rows db) eid = Some r0 \<longrightarrow> rr_status r0 \<noteq> QUEUED \<and> rr_status r0 \<noteq> RUN_RUNNING"
    using q by (cases rule: queue_run_cases) (auto simp: new_row_def requeued_row_def)
  have "map_option at_status (get_attempt (at_id a) (db_attempts db')) = Some CARRIED_ON" using b(1,3) db' by simp
  then show ?thesis using b(1,2,4) latest r old db' by auto
qed

section \<open>Interleavings\<close>

text \<open>
  \<open>park_run db0 db carried cancelled\<close>: claims, cancels and put-backs with attempts read at any time, in any order, and
  between them whatever else the system writes that leaves attempts alone which were carried on or cancelled.
  \<open>carried\<close> and \<open>cancelled\<close> name the attempts taken, one entry for each time.
\<close>

definition leaves_decided :: "run_db \<Rightarrow> run_db \<Rightarrow> bool" where
  "leaves_decided db db' \<longleftrightarrow>
     (\<forall>i a. get_attempt i (db_attempts db) = Some a \<and> at_status a \<in> {CARRIED_ON, RUN_CANCELLED} \<longrightarrow>
        (\<exists>a'. get_attempt i (db_attempts db') = Some a' \<and> at_status a' = at_status a))"

inductive park_run :: "run_db \<Rightarrow> run_db \<Rightarrow> string list \<Rightarrow> string list \<Rightarrow> bool" for db0 where
  begins: "park_run db0 db0 [] []"
| carried_on: "park_run db0 db carried cancelled \<Longrightarrow> park_tx rw ck tx a db = Some db' \<Longrightarrow> taken_status tx = CARRIED_ON
    \<Longrightarrow> park_run db0 db' (at_id a # carried) cancelled"
| cancels: "park_run db0 db carried cancelled \<Longrightarrow> park_tx rw ck tx a db = Some db' \<Longrightarrow> taken_status tx = RUN_CANCELLED
    \<Longrightarrow> park_run db0 db' carried (at_id a # cancelled)"
| puts_back: "park_run db0 db carried cancelled \<Longrightarrow> put_back a db = (won, db')
    \<Longrightarrow> park_run db0 db' (if won then removeAll (at_id a) carried else carried) cancelled"
| goes_on: "park_run db0 db carried cancelled \<Longrightarrow> leaves_decided db db' \<Longrightarrow> park_run db0 db' carried cancelled"

definition decided_as :: "run_db \<Rightarrow> string \<Rightarrow> string \<Rightarrow> bool" where
  "decided_as db st i = (\<exists>a. get_attempt i (db_attempts db) = Some a \<and> at_status a = st)"

lemma decided_as_take:
  assumes "park_tx rw ck tx a db = Some db'"
  shows "decided_as db' (taken_status tx) (at_id a)" and "st \<noteq> WAITING \<Longrightarrow> \<not> decided_as db st (at_id a)"
    and "i \<noteq> at_id a \<Longrightarrow> decided_as db' st i = decided_as db st i"
  using assms by (elim park_tx_Some, simp add: decided_as_def)+

lemma put_back_cases:
  assumes "put_back a db = (won, db')"
  obtains (returned) "won" and "decided_as db CARRIED_ON (at_id a)" and "\<And>i st. i \<noteq> at_id a \<Longrightarrow> decided_as db' st i = decided_as db st i"
  | (not_carried) "\<not> won" and "db' = db"
proof (cases "get_attempt (at_id a) (db_attempts db)")
  case None
  then show ?thesis using assms not_carried by (simp add: put_back_def decide_attempt_def)
next
  case (Some b)
  show ?thesis
  proof (cases "at_status b = CARRIED_ON")
    case True
    then show ?thesis using assms Some returned by (auto simp: put_back_def decide_attempt_def decided_as_def)
  next
    case False
    then show ?thesis using assms Some not_carried by (simp add: put_back_def decide_attempt_def)
  qed
qed

lemma decided_as_unique: "decided_as db st i \<Longrightarrow> decided_as db st' i \<Longrightarrow> st = st'"
  by (auto simp: decided_as_def)

lemma park_run_decided:
  "park_run db0 db carried cancelled \<Longrightarrow>
     distinct carried \<and> distinct cancelled \<and> (\<forall>i \<in> set carried. decided_as db CARRIED_ON i) \<and> (\<forall>i \<in> set cancelled. decided_as db RUN_CANCELLED i)"
proof (induction rule: park_run.induct)
  case (carried_on db carried cancelled rw ck tx a db')
  note t = decided_as_take [OF carried_on.hyps(2)]
  have "CARRIED_ON \<noteq> WAITING" "RUN_CANCELLED \<noteq> WAITING" by (simp_all add: park_status_defs)
  then have "at_id a \<notin> set carried" "at_id a \<notin> set cancelled" using t(2) carried_on.IH by blast+
  then show ?case using carried_on.IH carried_on.hyps(3) t(1,3) by (metis distinct.simps(2) set_ConsD)
next
  case (cancels db carried cancelled rw ck tx a db')
  note t = decided_as_take [OF cancels.hyps(2)]
  have "CARRIED_ON \<noteq> WAITING" "RUN_CANCELLED \<noteq> WAITING" by (simp_all add: park_status_defs)
  then have "at_id a \<notin> set carried" "at_id a \<notin> set cancelled" using t(2) cancels.IH by blast+
  then show ?case using cancels.IH cancels.hyps(3) t(1,3) by (metis distinct.simps(2) set_ConsD)
next
  case (puts_back db carried cancelled a won db')
  have "CARRIED_ON \<noteq> RUN_CANCELLED" by (simp add: park_status_defs)
  from puts_back.hyps(2) show ?case
  proof (cases rule: put_back_cases)
    case returned
    then have "at_id a \<notin> set cancelled" using puts_back.IH decided_as_unique \<open>CARRIED_ON \<noteq> RUN_CANCELLED\<close> by blast
    moreover have "decided_as db' RUN_CANCELLED i" if "i \<in> set cancelled" for i
      using returned(3) [of i RUN_CANCELLED] puts_back.IH calculation that by metis
    ultimately show ?thesis using returned puts_back.IH by (simp add: distinct_removeAll)
  qed (use puts_back.IH in simp)
next
  case (goes_on db carried cancelled db')
  then show ?case by (auto simp: leaves_decided_def decided_as_def) (metis (full_types))+
qed simp

text \<open>C24: Under every interleaving a parked attempt is carried on at most once until it is put back, is cancelled at most
  once, and is never both carried on and cancelled.
\<close>

theorem parked_attempt_carried_on_once:
  assumes "park_run db0 db carried cancelled"
  shows "distinct carried \<and> distinct cancelled \<and> set carried \<inter> set cancelled = {}"
proof -
  have "CARRIED_ON \<noteq> RUN_CANCELLED" by (simp add: park_status_defs)
  then show ?thesis using park_run_decided [OF assms] decided_as_unique by blast
qed

lemma stale_cancel_refused:
  assumes "dget (db_rows db) eid = Some r" and "rr_attempts r \<noteq> rg_attempts judged \<or> rr_status r = QUEUED"
  shows "cancel_parked ck eid reason (Some judged) db = (False, db)"
proof -
  have "end_row_in ck eid RUN_CANCELLED (Some judged) (db_rows db) = (RowRefused, db_rows db)"
    using assms by (auto simp: end_row_in_def Let_def)
  then have "cancel_commit ck a eid reason (Some judged) db = None" for a
    by (auto simp: cancel_commit_def Let_def split: prod.splits bool.splits option.splits)
  then show ?thesis by (simp add: cancel_parked_def split: option.split)
qed

text \<open>A cancel that was judged on an earlier generation of the row leaves the run alone: if the run has been started
  again or is queued again since, neither the attempt nor the row changes.
\<close>

theorem stale_cancel_changes_nothing:
  assumes "dget (db_rows db) eid = Some r" and "rr_attempts r \<noteq> rg_attempts judged \<or> rr_status r = QUEUED"
  shows "cancel_parked ck eid reason (Some judged) db = (False, db)"
  using assms by (rule stale_cancel_refused)

section \<open>Witnesses\<close>

definition demo_clock :: clock where
  "demo_clock = \<lparr>ck_now = 0, ck_iso = ''t'', ck_parse = (\<lambda>_. None)\<rparr>"

definition demo_parked :: attempt where
  "demo_parked = \<lparr>at_id = ''a1'', at_execution = ''r1'', at_time = 1, at_status = WAITING,
     at_data = [(''parked'', PDict [(''event_id'', PStr ''w1'')])]\<rparr>"

definition demo_db :: run_db where
  "demo_db = \<lparr>db_rows = [(''r1'', demo_row\<lparr>rr_status := WAITING\<rparr>)], db_attempts = [demo_parked], db_gates = [], db_holds = [], db_ended_teams = []\<rparr>"

lemma demo_claimed: "\<exists>db'. claim_and_queue (\<lambda>_. None) demo_clock demo_parked demo_request demo_db = Inr db'"
proof -
  have "case claim_and_queue (\<lambda>_. None) demo_clock demo_parked demo_request demo_db of Inr db' \<Rightarrow> True | Inl e \<Rightarrow> False" by code_simp
  then show ?thesis by (auto split: sum.splits)
qed

theorem one_takes_a_parked_attempt_witness:
  "\<exists>db'. park_tx (\<lambda>_. None) demo_clock (ApiClaim demo_request) demo_parked demo_db = Some db' \<and>
     park_tx (\<lambda>_. None) demo_clock (Cancel ''r1'' None None) demo_parked db' = None"
proof -
  obtain db' where "park_tx (\<lambda>_. None) demo_clock (ApiClaim demo_request) demo_parked demo_db = Some db'" using demo_claimed by auto
  with one_takes_a_parked_attempt [OF this] show ?thesis by blast
qed

theorem claim_and_queue_is_one_step_witness:
  "\<exists>db'. claim_and_queue (\<lambda>_. None) demo_clock demo_parked demo_request demo_db = Inr db' \<and>
     map_option at_status (get_attempt ''a1'' (db_attempts db')) = Some CARRIED_ON"
proof -
  obtain db' where c: "claim_and_queue (\<lambda>_. None) demo_clock demo_parked demo_request demo_db = Inr db'" using demo_claimed by blast
  have "at_id demo_parked = ''a1''" by (simp add: demo_parked_def)
  then show ?thesis using claim_and_queue_is_one_step [OF c] c by auto
qed

theorem parked_attempt_carried_on_once_witness:
  "\<exists>db'. park_run demo_db db' [''a1''] [] \<and> distinct [''a1''] \<and> set [''a1''] \<inter> set [] = {}"
proof -
  obtain db' where "park_tx (\<lambda>_. None) demo_clock (ApiClaim demo_request) demo_parked demo_db = Some db'" using demo_claimed by auto
  from park_run.carried_on [OF park_run.begins this] have "park_run demo_db db' [''a1''] []" by (simp add: taken_status_def demo_parked_def)
  with parked_attempt_carried_on_once [OF this] show ?thesis by auto
qed

theorem stale_cancel_changes_nothing_witness:
  "cancel_parked demo_clock ''r1'' None (Some \<lparr>rg_status = ''running'', rg_attempts = 1, rg_kind = None, rg_handle = None, rg_container = None\<rparr>) demo_db
     = (False, demo_db)"
  by (rule stale_cancel_changes_nothing [of _ _ "demo_row\<lparr>rr_status := WAITING\<rparr>"]) (simp_all add: demo_db_def demo_row_def)

end
