(* ===== verification/Reaper.thy ===== *)
theory Reaper
  imports Parked
begin

text \<open>
  The sweeper that looks after boxes (\<^verbatim>\<open>temper_ai/spawner/reaper.py\<close>): it reads the live rows once a tick, asks the
  spawner about each, and writes what it judged, fenced on the generation its read found.

  What the spawner answers is a parameter, as are the member boxes of a Pi run; the signals it is asked to send and the
  boxes it is asked to remove are kept in order in \<open>rp_calls\<close>. Between the read and the writes the database may have
  moved on: \<open>process_row\<close> is given the row as read and the database as it is.
\<close>

record box_handle =
  bh_kind :: string
  bh_handle :: string
  bh_execution :: string
  bh_container :: "string option"

datatype reaper_call = Signal box_handle bool | RemoveBoxes string "string list"

text \<open>
  The answers of the spawner. \<open>None\<close> of a question stands for a \<open>SpawnerError\<close>; a kill gives the text of its
  \<open>SpawnerError\<close>, if it has one. A spawner without \<open>is_gone\<close> is one that always answers that the box is gone.
\<close>

record spawner =
  sp_is_alive :: "box_handle \<Rightarrow> bool option"
  sp_is_gone :: "box_handle \<Rightarrow> bool option"
  sp_kill :: "box_handle \<Rightarrow> bool \<Rightarrow> string option"
  sp_members :: "string \<Rightarrow> string list"

type_synonym grace_key = "string \<times> int \<times> string option"

record reaper =
  rp_lane :: "string option"
  rp_kill_grace :: rat
  rp_termed_at :: "(grace_key \<times> rat) list"
  rp_calls :: "reaper_call list"

text \<open>What a tick needs from outside besides the spawner.\<close>

record reaper_env =
  rv_spawner :: spawner
  rv_clock :: clock
  rv_refuse_workspace :: "string option \<Rightarrow> string option"
  rv_pi_off :: bool
  rv_cancel_words :: "string \<Rightarrow> string option"

definition CLAIMING :: string where "CLAIMING = ''claiming''"

definition SPAWNER_KINDS :: "string list" where
  "SPAWNER_KINDS = [''inprocess'', ''subprocess'', ''docker'', ''k8s_job'']"

definition NON_TERMINAL :: "string list" where "NON_TERMINAL = [''running'', ''queued'', ''waiting'']"

text \<open>\<open>settle_run_event\<close>: the run's open attempts end with it.\<close>

definition settle_run_event :: "string \<Rightarrow> string \<Rightarrow> string \<Rightarrow> attempt list \<Rightarrow> attempt list" where
  "settle_run_event eid status message as =
     map (\<lambda>a. if at_execution a = eid \<and> at_status a \<in> set NON_TERMINAL
              then a\<lparr>at_status := status, at_data := (if dhas ''error'' (at_data a) then at_data a else dset ''error'' (PStr message) (at_data a))\<rparr>
              else a) as"

definition grace_key_of :: "string \<Rightarrow> row_generation \<Rightarrow> grace_key" where
  "grace_key_of eid judged = (eid, rg_attempts judged, rg_container judged)"

definition forget_term :: "grace_key \<Rightarrow> reaper \<Rightarrow> reaper" where
  "forget_term k rp = rp\<lparr>rp_termed_at := filter (\<lambda>p. fst p \<noteq> k) (rp_termed_at rp)\<rparr>"

definition note_call :: "reaper_call \<Rightarrow> reaper \<Rightarrow> reaper" where
  "note_call c rp = rp\<lparr>rp_calls := rp_calls rp @ [c]\<rparr>"

definition mark_status :: "clock \<Rightarrow> string \<Rightarrow> string \<Rightarrow> row_generation \<Rightarrow> pyval dict option \<Rightarrow> string \<Rightarrow> bool \<Rightarrow> run_db \<Rightarrow> bool \<times> run_db" where
  "mark_status ck eid status judged err from_status keep_open db =
     (if rg_status judged \<noteq> from_status then (False, db)
      else case end_row_if_same_generation (ck_iso ck) eid judged status keep_open err (db_rows db) of
             (written, rows) \<Rightarrow> (written, db\<lparr>db_rows := rows\<rparr>))"

definition mark_orphaned :: "clock \<Rightarrow> string \<Rightarrow> row_generation \<Rightarrow> string \<Rightarrow> run_db \<Rightarrow> run_db" where
  "mark_orphaned ck eid judged reason db =
     (case mark_status ck eid ''orphaned'' judged
         (Some [(''message'', PStr (''reaped: '' @ reason)), (''kind'', PStr ''orphaned'')]) RUN_RUNNING False db of
        (True, db') \<Rightarrow> db'\<lparr>db_attempts := settle_run_event eid ''interrupted''
            (''Interrupted: the run'' @ [CHR 0x27] @ ''s worker stopped before it finished ('' @ reason @ '').'') (db_attempts db')\<rparr>
      | (False, db') \<Rightarrow> db')"

definition end_unstarted :: "clock \<Rightarrow> string \<Rightarrow> row_generation \<Rightarrow> bool \<Rightarrow> reaper \<times> run_db \<Rightarrow> reaper \<times> run_db" where
  "end_unstarted ck eid judged cancelled s =
     (forget_term (grace_key_of eid judged) (fst s),
      snd (if cancelled then mark_status ck eid RUN_CANCELLED judged None QUEUED False (snd s)
           else mark_status ck eid ''failed'' judged
             (Some [(''message'', PStr (''The run'' @ [CHR 0x27] @ ''s box stopped before the run started.'')), (''kind'', PStr ''spawn'')]) QUEUED False (snd s)))"

definition honor_cancel :: "reaper_env \<Rightarrow> string \<Rightarrow> box_handle \<Rightarrow> row_generation \<Rightarrow> reaper \<times> run_db \<Rightarrow> reaper \<times> run_db" where
  "honor_cancel rv eid h judged s =
     (let key = grace_key_of eid judged; rp = fst s; db = snd s; ck = rv_clock rv
      in case map_of (rp_termed_at rp) key of
           None \<Rightarrow>
             (let rp' = note_call (Signal h False) rp
              in case sp_kill (rv_spawner rv) h False of
                   None \<Rightarrow> (rp'\<lparr>rp_termed_at := rp_termed_at rp' @ [(key, ck_now ck)]\<rparr>, db)
                 | Some why \<Rightarrow> (rp', mark_orphaned ck eid judged (''signal failed: '' @ why) db))
         | Some sent_at \<Rightarrow>
             if ck_now ck - sent_at \<le> rp_kill_grace rp then (rp, db)
             else
               (let rp1 = note_call (Signal h True) rp;
                    members = (if rp_lane rp = Some PI_LANE then sp_members (rv_spawner rv) eid else [])
                in case mark_status ck eid RUN_CANCELLED judged None RUN_RUNNING False db of
                     (True, db') \<Rightarrow>
                       (forget_term key (if rp_lane rp = Some PI_LANE then note_call (RemoveBoxes eid members) rp1 else rp1),
                        db'\<lparr>db_attempts := settle_run_event eid RUN_CANCELLED ''Cancelled: stopped by force.'' (db_attempts db')\<rparr>)
                   | (False, db') \<Rightarrow> (forget_term key rp1, db')))"

definition let_go_parked :: "reaper_env \<Rightarrow> string \<Rightarrow> box_handle \<Rightarrow> row_generation \<Rightarrow> bool \<Rightarrow> reaper \<times> run_db \<Rightarrow> reaper \<times> run_db" where
  "let_go_parked rv eid h judged cancel s =
     (case sp_is_gone (rv_spawner rv) h of
        None \<Rightarrow> s
      | Some False \<Rightarrow> s
      | Some True \<Rightarrow>
          (let rp = forget_term (grace_key_of eid judged) (fst s); ck = rv_clock rv
           in if cancel then (rp, snd (cancel_parked ck eid (rv_cancel_words rv eid) (Some judged) (snd s)))
              else (rp, snd (carry_on ck (rv_pi_off rv) (queue_resume (rv_refuse_workspace rv) ck) eid
                     (snd (mark_status ck eid WAITING judged None RUN_RUNNING True (snd s)))))))"

definition handle_of :: "string \<Rightarrow> run_row \<Rightarrow> row_generation \<Rightarrow> string \<Rightarrow> box_handle" where
  "handle_of eid r judged h =
     \<lparr>bh_kind = (case rr_spawner_kind r of Some k \<Rightarrow> k | None \<Rightarrow> []), bh_handle = h, bh_execution = eid,
      bh_container = (if rg_kind judged = Some ''docker'' then rg_container judged else None)\<rparr>"

definition process_row :: "reaper_env \<Rightarrow> string \<Rightarrow> run_row \<Rightarrow> reaper \<times> run_db \<Rightarrow> reaper \<times> run_db" where
  "process_row rv eid r s =
     (case from_snapshot (snapshot r) of
        Inl e \<Rightarrow> s
      | Inr judged \<Rightarrow>
          (let ck = rv_clock rv; key = grace_key_of eid judged; orphan = (\<lambda>reason s. (fst s, mark_orphaned ck eid judged reason (snd s)))
           in if rg_kind judged = Some ''docker'' \<and> rg_container judged = None then s
              else case rr_spawner_handle r of
                None \<Rightarrow> orphan ''no spawner handle'' s
              | Some [] \<Rightarrow> orphan ''no spawner handle'' s
              | Some (c # cs) \<Rightarrow>
                  (let h = handle_of eid r judged (c # cs)
                   in if bh_kind h \<notin> set SPAWNER_KINDS then orphan (''bad handle: '' @ repr_str (bh_kind h) @ '' is not a valid SpawnerKind'') s
                      else case sp_is_alive (rv_spawner rv) h of
                        None \<Rightarrow> s
                      | Some alive \<Rightarrow>
                          if rr_status r = QUEUED then
                            (if rr_cancel_requested r \<and> alive then honor_cancel rv eid h judged s
                             else if \<not> alive then end_unstarted ck eid judged (rr_cancel_requested r) s else s)
                          else if rr_cancel_requested r \<and> alive then honor_cancel rv eid h judged s
                          else if \<not> alive \<and> parked_attempt eid (snd s) \<noteq> None
                          then let_go_parked rv eid h judged (rr_cancel_requested r) s
                          else if \<not> alive then (case orphan ''worker process gone'' s of (rp, db) \<Rightarrow> (forget_term key rp, db))
                          else s)))"

definition live_row :: "string option \<Rightarrow> run_row \<Rightarrow> bool" where
  "live_row lane r =
     (rr_spawner_kind r \<noteq> None \<and> lane_clause lane (rr_metadata r) \<and>
      (rr_status r = RUN_RUNNING \<or> rr_status r = QUEUED \<and> rr_spawner_handle r \<noteq> None \<and> rr_spawner_handle r \<noteq> Some CLAIMING))"

definition load_live_rows :: "string option \<Rightarrow> run_row dict \<Rightarrow> run_row dict" where
  "load_live_rows lane rows = filter (\<lambda>p. live_row lane (snd p)) rows"

fun wake_each :: "reaper_env \<Rightarrow> string list \<Rightarrow> run_db \<Rightarrow> run_db" where
  "wake_each rv [] db = db"
| "wake_each rv (eid # eids) db =
     wake_each rv eids
       (case parked_attempt eid db of
          Some a \<Rightarrow> if timer_due (rv_clock rv) a
                    then snd (carry_on (rv_clock rv) (rv_pi_off rv) (queue_resume (rv_refuse_workspace rv) (rv_clock rv)) eid db) else db
        | None \<Rightarrow> db)"

definition wake_due_timers :: "reaper_env \<Rightarrow> string option \<Rightarrow> run_db \<Rightarrow> run_db" where
  "wake_due_timers rv lane db =
     wake_each rv (map fst (filter (\<lambda>p. rr_status (snd p) = WAITING \<and> lane_clause lane (rr_metadata (snd p))) (db_rows db))) db"

definition live_keys :: "run_row dict \<Rightarrow> grace_key list" where
  "live_keys rows = List.map_filter (\<lambda>(eid, r). case from_snapshot (snapshot r) of Inl e \<Rightarrow> None | Inr j \<Rightarrow> Some (grace_key_of eid j)) rows"

fun process_rows :: "reaper_env \<Rightarrow> (string \<times> run_row) list \<Rightarrow> reaper \<times> run_db \<Rightarrow> reaper \<times> run_db" where
  "process_rows rv [] s = s"
| "process_rows rv ((eid, r) # rows) s = process_rows rv rows (process_row rv eid r s)"

definition tick :: "reaper_env \<Rightarrow> reaper \<times> run_db \<Rightarrow> reaper \<times> run_db" where
  "tick rv s =
     (let rp = fst s; db = wake_due_timers rv (rp_lane rp) (snd s); rows = load_live_rows (rp_lane rp) (db_rows db);
          rp = rp\<lparr>rp_termed_at := filter (\<lambda>p. fst p \<in> set (live_keys rows)) (rp_termed_at rp)\<rparr>
      in process_rows rv rows (rp, db))"


section \<open>What a row's turn writes\<close>

lemma mark_status_cases:
  assumes "mark_status ck eid status judged err from_status keep db = (written, db')"
  obtains (ended) r where "written" and "dget (db_rows db) eid = Some r" and "same_generation judged r" and "rg_status judged = from_status"
      and "db' = db\<lparr>db_rows := dset eid (ended_row (ck_iso ck) status keep err r) (db_rows db)\<rparr>"
  | (refused) "\<not> written" and "db' = db"
  using assms by (auto simp: mark_status_def end_row_if_same_generation_def split: if_splits option.splits prod.splits)

text \<open>A row that was started again is not the generation that was judged: every fenced write leaves the database alone.\<close>

lemma mark_status_stale:
  assumes "dget (db_rows db) eid = Some now" and "rr_attempts now \<noteq> rg_attempts judged"
  shows "mark_status ck eid status judged err from_status keep db = (False, db)"
  using assms by (simp add: mark_status_def end_row_if_same_generation_def same_generation_def)

lemma honor_cancel_stale:
  assumes "dget (db_rows db) eid = Some now" and "rr_attempts now \<noteq> rg_attempts judged"
  shows "snd (honor_cancel rv eid h judged (rp, db)) = db"
  using mark_status_stale [OF assms]
  by (simp add: honor_cancel_def mark_orphaned_def Let_def split: option.split)

lemma let_go_stale:
  assumes "dget (db_rows db) eid = Some now" and "rr_attempts now \<noteq> rg_attempts judged"
  shows "snd (let_go_parked rv eid h judged cancel (rp, db)) \<in>
    {db, snd (carry_on (rv_clock rv) (rv_pi_off rv) (queue_resume (rv_refuse_workspace rv) (rv_clock rv)) eid db)}"
  using mark_status_stale [OF assms] stale_cancel_refused [OF assms(1), of judged] assms(2)
  by (simp add: let_go_parked_def Let_def split: option.split bool.split)

text \<open>A read that is out of date ends nothing. If the run was started again after the reaper read its row, the
  reaper's turn leaves the database as it is, or does what any approval does: it carries a parked attempt on.
\<close>

theorem stale_read_ends_nothing:
  assumes "dget (db_rows db) eid = Some now" and "rr_attempts now \<noteq> rr_attempts r"
  shows "snd (process_row rv eid r (rp, db)) \<in>
    {db, snd (carry_on (rv_clock rv) (rv_pi_off rv) (queue_resume (rv_refuse_workspace rv) (rv_clock rv)) eid db)}"
proof (cases "from_snapshot (snapshot r)")
  case (Inr judged)
  have stale: "rr_attempts now \<noteq> rg_attempts judged" using from_snapshot_Inr(2) [OF Inr] assms(2) by simp
  note rows = mark_status_stale [OF assms(1) stale] honor_cancel_stale [OF assms(1) stale] let_go_stale [OF assms(1) stale]
  show ?thesis using Inr rows
    by (auto simp: process_row_def Let_def mark_orphaned_def end_unstarted_def split: option.splits list.splits)
qed (simp add: process_row_def)

section \<open>Signals\<close>

definition forced_after :: "reaper_env \<Rightarrow> reaper \<Rightarrow> grace_key \<Rightarrow> bool" where
  "forced_after rv rp key = (\<exists>t. map_of (rp_termed_at rp) key = Some t \<and> rp_kill_grace rp < ck_now (rv_clock rv) - t)"

lemma honor_cancel_calls:
  assumes "honor_cancel rv eid h judged (rp, db) = (rp', db')"
  obtains (idle) "rp' = rp" and "db' = db"
  | (sigterm) "rp_calls rp' = rp_calls rp @ [Signal h False]"
      and "rp_termed_at rp' = rp_termed_at rp \<or> (\<exists>t. rp_termed_at rp' = rp_termed_at rp @ [(grace_key_of eid judged, t)])"
  | (sigkill) rest where "rp_calls rp' = rp_calls rp @ Signal h True # rest" and "forced_after rv rp (grace_key_of eid judged)"
      and "set (rp_termed_at rp') \<subseteq> set (rp_termed_at rp)"
      and "rest \<noteq> [] \<Longrightarrow> rp_lane rp = Some PI_LANE \<and> rest = [RemoveBoxes eid (sp_members (rv_spawner rv) eid)] \<and>
             (\<exists>r. dget (db_rows db) eid = Some r \<and> same_generation judged r \<and> map_option rr_status (dget (db_rows db') eid) = Some RUN_CANCELLED)"
proof (cases "map_of (rp_termed_at rp) (grace_key_of eid judged)")
  case None
  then show ?thesis using assms sigterm by (auto simp: honor_cancel_def Let_def note_call_def split: option.splits)
next
  case (Some t)
  show ?thesis
  proof (cases "ck_now (rv_clock rv) - t \<le> rp_kill_grace rp")
    case True
    then have "rp' = rp \<and> db' = db" using assms Some by (simp add: honor_cancel_def Let_def)
    then show ?thesis using idle by blast
  next
    case False
    obtain w db1 where m: "mark_status (rv_clock rv) eid RUN_CANCELLED judged None RUN_RUNNING False db = (w, db1)" by (metis surj_pair)
    have "forced_after rv rp (grace_key_of eid judged)" using Some False by (auto simp: forced_after_def)
    moreover from m have "w \<Longrightarrow> \<exists>r. dget (db_rows db) eid = Some r \<and> same_generation judged r \<and>
        map_option rr_status (dget (db_rows db1) eid) = Some RUN_CANCELLED"
      by (cases rule: mark_status_cases) (auto simp: ended_row_def)
    ultimately show ?thesis using assms Some False m
      by (intro sigkill [of "if w \<and> rp_lane rp = Some PI_LANE then [RemoveBoxes eid (sp_members (rv_spawner rv) eid)] else []"])
        (auto simp: honor_cancel_def Let_def note_call_def forget_term_def split: if_splits bool.splits)
  qed
qed

text \<open>Where a turn signals at all, it honours a cancel of a living box.\<close>

lemma process_row_signals:
  assumes "process_row rv eid r (rp, db) = (rp', db')"
  obtains (quiet) "rp_calls rp' = rp_calls rp" and "set (rp_termed_at rp') \<subseteq> set (rp_termed_at rp)"
  | (cancels) judged h where "from_snapshot (snapshot r) = Inr judged" and "rr_cancel_requested r"
      and "bh_execution h = eid" and "rr_spawner_kind r = Some ''docker'' \<Longrightarrow> \<exists>c. bh_container h = Some c \<and> row_container r = Some c"
      and "sp_is_alive (rv_spawner rv) h = Some True" and "honor_cancel rv eid h judged (rp, db) = (rp', db')"
proof (cases "from_snapshot (snapshot r)")
  case (Inl e)
  then show ?thesis using assms quiet by (simp add: process_row_def)
next
  case (Inr judged)
  have kind: "rr_spawner_kind r = Some ''docker'' \<Longrightarrow> rg_kind judged = Some ''docker''"
    using Inr by (auto simp: from_snapshot_def snapshot_def dget_or_def opt_text_def identity_of_def split: list.splits)
  have let_go: "rp_calls rp' = rp_calls rp" "x \<in> set (rp_termed_at rp') \<Longrightarrow> x \<in> set (rp_termed_at rp)"
    if "let_go_parked rv eid h judged c (rp, db) = (rp', db')" for h c x
    using that by (auto simp: let_go_parked_def Let_def forget_term_def split: option.splits bool.splits if_splits)
  show ?thesis
  proof (cases "\<exists>c cs. rr_spawner_handle r = Some (c # cs) \<and> \<not> (rg_kind judged = Some ''docker'' \<and> rg_container judged = None) \<and>
      rr_cancel_requested r \<and> bh_kind (handle_of eid r judged (c # cs)) \<in> set SPAWNER_KINDS \<and>
      sp_is_alive (rv_spawner rv) (handle_of eid r judged (c # cs)) = Some True")
    case True
    then obtain c cs where h: "rr_spawner_handle r = Some (c # cs)" "\<not> (rg_kind judged = Some ''docker'' \<and> rg_container judged = None)"
      "rr_cancel_requested r" "bh_kind (handle_of eid r judged (c # cs)) \<in> set SPAWNER_KINDS"
      "sp_is_alive (rv_spawner rv) (handle_of eid r judged (c # cs)) = Some True" by blast
    have "honor_cancel rv eid (handle_of eid r judged (c # cs)) judged (rp, db) = (rp', db')"
      using assms h Inr by (simp add: process_row_def Let_def split: if_splits)
    moreover have "\<exists>x. bh_container (handle_of eid r judged (c # cs)) = Some x \<and> row_container r = Some x"
      if "rr_spawner_kind r = Some ''docker''"
      using kind [OF that] h(2) from_snapshot_Inr(3) [OF Inr] by (auto simp: handle_of_def)
    moreover have "bh_execution (handle_of eid r judged (c # cs)) = eid" by (simp add: handle_of_def)
    ultimately show ?thesis using h Inr cancels by blast
  next
    case False
    then show ?thesis using assms Inr
      by (intro quiet) (auto simp: process_row_def Let_def end_unstarted_def forget_term_def
          split: option.splits list.splits if_splits bool.splits dest: let_go)
  qed
qed

text \<open>The reaper signals only on a cancel, only a box that lives, and of a Docker run only the container its read
  found, never a box by name; it kills by force only after a signal of the same generation whose grace has passed;
  and it removes the member boxes of a run only in the Pi lane and only once the run's row says cancelled.
\<close>

theorem signals_only_judged_boxes:
  assumes "process_row rv eid r (rp, db) = (rp', db')"
  shows "\<exists>new. rp_calls rp' = rp_calls rp @ new \<and>
    (\<forall>h forced. Signal h forced \<in> set new \<longrightarrow> rr_cancel_requested r \<and> bh_execution h = eid \<and> sp_is_alive (rv_spawner rv) h = Some True \<and>
       (rr_spawner_kind r = Some ''docker'' \<longrightarrow> (\<exists>c. bh_container h = Some c \<and> row_container r = Some c)) \<and>
       (forced \<longrightarrow> (\<exists>c. forced_after rv rp (eid, rr_attempts r, c)))) \<and>
    (\<forall>e boxes. RemoveBoxes e boxes \<in> set new \<longrightarrow> e = eid \<and> rp_lane rp = Some PI_LANE \<and>
       map_option rr_status (dget (db_rows db') eid) = Some RUN_CANCELLED)"
  using assms
proof (cases rule: process_row_signals)
  case (cancels judged h)
  have a: "rg_attempts judged = rr_attempts r" using from_snapshot_Inr(2) [OF cancels(1)] .
  from cancels(6) show ?thesis
  proof (cases rule: honor_cancel_calls)
    case idle
    then show ?thesis by simp
  next
    case sigterm
    then show ?thesis using cancels by auto
  next
    case (sigkill rest)
    then show ?thesis using cancels a by (cases "rest = []") (auto simp: grace_key_of_def)
  qed
qed simp

definition warned_first :: "reaper_call list \<Rightarrow> bool" where
  "warned_first calls \<longleftrightarrow>
     (\<forall>i < length calls. \<forall>h. calls ! i = Signal h True \<longrightarrow> (\<exists>j < i. \<exists>h'. calls ! j = Signal h' False \<and> bh_execution h' = bh_execution h))"

definition warned :: "string \<Rightarrow> reaper_call list \<Rightarrow> bool" where
  "warned eid calls \<longleftrightarrow> (\<exists>h. Signal h False \<in> set calls \<and> bh_execution h = eid)"

definition reaper_ok :: "reaper \<Rightarrow> bool" where
  "reaper_ok rp \<longleftrightarrow> warned_first (rp_calls rp) \<and> (\<forall>(key, t) \<in> set (rp_termed_at rp). warned (fst key) (rp_calls rp))"

lemma warned_mono: "warned eid calls \<Longrightarrow> warned eid (calls @ more_calls)"
  by (auto simp: warned_def)

lemma warned_first_append:
  assumes "warned_first calls" and "\<And>h. Signal h True \<in> set new \<Longrightarrow> warned (bh_execution h) calls"
  shows "warned_first (calls @ new)"
  unfolding warned_first_def
proof (intro allI impI)
  fix i h assume i: "i < length (calls @ new)" and h: "(calls @ new) ! i = Signal h True"
  show "\<exists>j < i. \<exists>h'. (calls @ new) ! j = Signal h' False \<and> bh_execution h' = bh_execution h"
  proof (cases "i < length calls")
    case True
    then obtain j h' where "j < i" "calls ! j = Signal h' False" "bh_execution h' = bh_execution h"
      using assms(1) h unfolding warned_first_def by (metis nth_append)
    then show ?thesis using True by (auto simp: nth_append intro!: exI [of _ j])
  next
    case False
    then have "Signal h True \<in> set new" using h i by (metis nth_append_right not_less length_append nat_add_left_cancel_less le_add_diff_inverse nth_mem)
    then obtain h' where h': "Signal h' False \<in> set calls" "bh_execution h' = bh_execution h" using assms(2) by (auto simp: warned_def)
    then obtain j where "j < length calls" "calls ! j = Signal h' False" by (metis in_set_conv_nth)
    then show ?thesis using False h' by (auto simp: nth_append intro!: exI [of _ j])
  qed
qed

lemma process_row_ok:
  assumes "process_row rv eid r (rp, db) = (rp', db')" and "reaper_ok rp"
  shows "reaper_ok rp'"
  using assms(1)
proof (cases rule: process_row_signals)
  case quiet
  then show ?thesis using assms(2) by (auto simp: reaper_ok_def)
next
  case (cancels judged h)
  from cancels(6) show ?thesis
  proof (cases rule: honor_cancel_calls)
    case idle
    then show ?thesis using assms(2) by simp
  next
    case sigterm
    have "warned eid (rp_calls rp')" using sigterm(1) cancels(3) by (auto simp: warned_def)
    then show ?thesis using sigterm assms(2) by (fastforce simp: reaper_ok_def grace_key_of_def intro: warned_mono warned_first_append)
  next
    case (sigkill rest)
    then obtain t where "map_of (rp_termed_at rp) (grace_key_of eid judged) = Some t" by (auto simp: forced_after_def)
    then have "warned eid (rp_calls rp)" using assms(2) by (fastforce simp: reaper_ok_def grace_key_of_def dest: map_of_SomeD)
    then show ?thesis using sigkill assms(2) cancels(3)
      by (cases "rest = []") (fastforce simp: reaper_ok_def intro: warned_mono warned_first_append)+
  qed
qed

lemma process_rows_ok: "reaper_ok (fst s) \<Longrightarrow> reaper_ok (fst (process_rows rv rows s))"
proof (induction rv rows s rule: process_rows.induct)
  case (2 rv eid r rows s)
  then show ?case using process_row_ok [of rv eid r "fst s" "snd s" "fst (process_row rv eid r s)" "snd (process_row rv eid r s)"] by simp
qed simp

text \<open>A reaper's life: ticks, each with the clock, the spawner and the database it then finds.\<close>

inductive reaper_life :: "reaper \<Rightarrow> bool" where
  starts: "rp_termed_at rp = [] \<Longrightarrow> rp_calls rp = [] \<Longrightarrow> reaper_life rp"
| ticks: "reaper_life rp \<Longrightarrow> tick rv (rp, db) = (rp', db') \<Longrightarrow> reaper_life rp'"

lemma reaper_life_ok: "reaper_life rp \<Longrightarrow> reaper_ok rp"
proof (induction rule: reaper_life.induct)
  case (ticks rp rv db rp' db')
  let ?rows = "load_live_rows (rp_lane rp) (db_rows (wake_due_timers rv (rp_lane rp) db))"
  let ?rp = "rp\<lparr>rp_termed_at := filter (\<lambda>p. fst p \<in> set (live_keys ?rows)) (rp_termed_at rp)\<rparr>"
  have "reaper_ok ?rp" using ticks.IH by (auto simp: reaper_ok_def)
  then show ?case using process_rows_ok [of "(?rp, wake_due_timers rv (rp_lane rp) db)" rv ?rows] ticks.hyps(2) by (simp add: tick_def Let_def)
qed (simp add: reaper_ok_def warned_first_def)

text \<open>C25: Whatever the database, the clock and the spawner do between its ticks, the reaper never kills a run's box by
  force without having asked a box of that run to stop before.
\<close>

theorem no_kill_without_warning:
  assumes "reaper_life rp" and "i < length (rp_calls rp)" and "rp_calls rp ! i = Signal h True"
  shows "\<exists>j < i. \<exists>h'. rp_calls rp ! j = Signal h' False \<and> bh_execution h' = bh_execution h"
  using reaper_life_ok [OF assms(1)] assms(2,3) unfolding reaper_ok_def warned_first_def by blast

section \<open>Lanes\<close>

text \<open>A change that touches the row of one run only and keeps the attempts' identities.\<close>

definition only_row :: "string \<Rightarrow> run_db \<Rightarrow> run_db \<Rightarrow> bool" where
  "only_row eid db db' \<longleftrightarrow> map at_id (db_attempts db') = map at_id (db_attempts db) \<and>
     (dict_ok (db_rows db) \<longrightarrow> dict_ok (db_rows db')) \<and> (\<forall>x. x \<noteq> eid \<longrightarrow> dget (db_rows db') x = dget (db_rows db) x)"

lemma only_row_refl [simp]: "only_row eid db db"
  by (simp add: only_row_def)

lemma only_row_trans: "only_row eid db db' \<Longrightarrow> only_row eid db' db'' \<Longrightarrow> only_row eid db db''"
  by (simp add: only_row_def)

lemma ids_kept [simp]:
  "map at_id (change_attempt i st d as) = map at_id as" "map at_id (settle_run_event eid st m as) = map at_id as"
  by (auto simp: change_attempt_def settle_run_event_def)

lemma get_attempt_member: "a \<in> set as \<Longrightarrow> distinct (map at_id as) \<Longrightarrow> get_attempt (at_id a) as = Some a"
  by (induction as) (auto simp: get_attempt_def)

lemma parked_attempt_found:
  assumes "parked_attempt eid db = Some a" and "distinct (map at_id (db_attempts db))"
  shows "at_execution a = eid" and "get_attempt (at_id a) (db_attempts db) = Some a"
proof -
  have fold_in: "foldl newer a0 as \<in> insert a0 (set as)" for a0 as
    by (induction as arbitrary: a0) (auto simp: newer_def)
  obtain a0 rest where f: "filter (\<lambda>a. at_execution a = eid) (db_attempts db) = a0 # rest" and a: "a = foldl newer a0 rest"
    using assms(1) by (auto simp: parked_attempt_def find_latest_def split: option.splits list.splits if_splits)
  have "a \<in> set (filter (\<lambda>a. at_execution a = eid) (db_attempts db))" using fold_in [of a0 rest] f a by simp
  then have "at_execution a = eid" and mem: "a \<in> set (db_attempts db)" by auto
  then show "at_execution a = eid" by simp
  show "get_attempt (at_id a) (db_attempts db) = Some a"
    using mem assms(2) by (rule get_attempt_member)
qed

lemma carry_on_only_row:
  assumes "distinct (map at_id (db_attempts db))"
  shows "only_row eid db (snd (carry_on ck off (queue_resume rw ck) eid db))"
proof (cases "parked_attempt eid db")
  case (Some a)
  note a = parked_attempt_found [OF Some assms]
  have "only_row eid db db'" if q: "queue_resume rw ck eid db = Inr db'" for db'
  proof -
    obtain e as rows r where c: "claim_in ck a (db_attempts db) = Inr (e, as)"
        and rows: "queue_run_in rw e (row_request r (Some ''resume'') (Some [(''rerun'', PList [])])) (db_rows db) = Inr rows"
        and db': "db_attempts db' = as" "db_rows db' = rows"
      using q Some by (auto simp: queue_resume_def claim_and_requeue_row_def split: sum.splits option.splits)
    from c obtain d where "as = change_attempt (at_id a) CARRIED_ON d (db_attempts db)" "e = eid"
      using a by (elim claim_in_Inr) auto
    moreover from rows have "dict_ok (db_rows db) \<Longrightarrow> dict_ok rows" by (cases rule: queue_run_cases) auto
    ultimately show ?thesis using rows db' by (auto simp: only_row_def elim: queue_run_cases)
  qed
  then show ?thesis using Some by (simp add: carry_on_def split: sum.split)
qed (simp add: carry_on_def)

lemma mark_status_only_row: "only_row eid db (snd (mark_status ck eid st judged err from_status keep db))"
proof -
  obtain w db' where m: "mark_status ck eid st judged err from_status keep db = (w, db')" by (metis surj_pair)
  then show ?thesis by (cases rule: mark_status_cases) (auto simp: m only_row_def)
qed

lemma mark_orphaned_only_row: "only_row eid db (mark_orphaned ck eid judged why db)"
  using mark_status_only_row [of eid db ck]
  by (auto simp: mark_orphaned_def only_row_def split: prod.split bool.split) (metis snd_conv)+

lemma cancel_only_row: "only_row eid db (snd (cancel_parked ck eid reason judged db))"
proof -
  have rows: "dget (snd (end_row_in ck eid RUN_CANCELLED judged rows)) x = dget rows x" if "x \<noteq> eid" for x rows
    using that by (auto simp: end_row_in_def Let_def end_row_if_same_generation_def split: option.splits sum.splits)
  have ok: "dict_ok (snd (end_row_in ck eid RUN_CANCELLED judged rows))" if "dict_ok rows" for rows
    using that by (auto simp: end_row_in_def Let_def end_row_if_same_generation_def split: option.splits sum.splits)
  have "only_row eid db db'" if c: "cancel_commit ck a eid reason judged db = Some db'" for a db'
  proof -
    have "db_rows db' = snd (end_row_in ck eid RUN_CANCELLED judged (db_rows db))"
      using c by (auto simp: cancel_commit_def Let_def split: prod.splits bool.splits option.splits if_splits row_outcome.splits)
    then show ?thesis using c rows ok by (elim cancel_commit_Some) (simp add: only_row_def)
  qed
  then show ?thesis
    by (auto simp: cancel_parked_def Let_def only_row_def reject_open_waits_def hold_for_cancel_def split: option.split)
qed

lemma process_row_only_row:
  assumes "distinct (map at_id (db_attempts db))"
  shows "only_row eid db (snd (process_row rv eid r (rp, db)))"
proof -
  have honor: "only_row eid db (snd (honor_cancel rv eid h judged (rp, db)))" for h judged
  proof -
    obtain w db' where m: "mark_status (rv_clock rv) eid RUN_CANCELLED judged None RUN_RUNNING False db = (w, db')" by (metis surj_pair)
    have "only_row eid db db'" using mark_status_only_row [of eid db] m by (metis snd_conv)
    then show ?thesis using mark_orphaned_only_row m
      by (auto simp: honor_cancel_def Let_def only_row_def split: option.split bool.split)
  qed
  have let_go: "only_row eid db (snd (let_go_parked rv eid h judged c (rp, db)))" for h judged c
  proof -
    let ?db = "snd (mark_status (rv_clock rv) eid WAITING judged None RUN_RUNNING True db)"
    have w: "only_row eid db ?db" by (rule mark_status_only_row)
    then have "only_row eid db (snd (carry_on (rv_clock rv) (rv_pi_off rv) (queue_resume (rv_refuse_workspace rv) (rv_clock rv)) eid ?db))"
      using carry_on_only_row [of ?db] assms by (intro only_row_trans [OF w]) (simp add: only_row_def)
    then show ?thesis using cancel_only_row by (simp add: let_go_parked_def Let_def split: option.split bool.split)
  qed
  show ?thesis using honor let_go mark_orphaned_only_row mark_status_only_row
    by (auto simp: process_row_def Let_def end_unstarted_def split: sum.split option.split list.split)
qed

lemma process_rows_keep:
  "\<lbrakk>distinct (map at_id (db_attempts (snd s))); eid \<notin> fst ` set rows\<rbrakk> \<Longrightarrow>
     dget (db_rows (snd (process_rows rv rows s))) eid = dget (db_rows (snd s)) eid"
proof (induction rv rows s rule: process_rows.induct)
  case (2 rv e r rows s)
  then show ?case using process_row_only_row [of "snd s" e rv r "fst s"] by (simp add: only_row_def)
qed simp

lemma wake_keeps:
  "\<lbrakk>distinct (map at_id (db_attempts db)); eid \<notin> set eids\<rbrakk> \<Longrightarrow>
     dget (db_rows (wake_each rv eids db)) eid = dget (db_rows db) eid \<and> map at_id (db_attempts (wake_each rv eids db)) = map at_id (db_attempts db) \<and>
     (dict_ok (db_rows db) \<longrightarrow> dict_ok (db_rows (wake_each rv eids db)))"
proof (induction rv eids db rule: wake_each.induct)
  case (2 rv e eids db)
  let ?db = "snd (carry_on (rv_clock rv) (rv_pi_off rv) (queue_resume (rv_refuse_workspace rv) (rv_clock rv)) e db)"
  have "only_row e db ?db" using 2(2) by (rule carry_on_only_row)
  then show ?case using 2 by (auto simp: only_row_def split: option.splits)
qed simp

text \<open>A lane's reaper never touches the row of a run of another lane, whatever that row says and whatever its own
  spawner answers. (Run and attempt identities are primary keys.)
\<close>

theorem reaper_keeps_to_its_lane:
  assumes "distinct (map at_id (db_attempts db))" and "dict_ok (db_rows db)"
    and "dget (db_rows db) eid = Some r" and "\<not> lane_clause (rp_lane rp) (rr_metadata r)"
  shows "dget (db_rows (snd (tick rv (rp, db)))) eid = Some r"
proof -
  have only: "(eid, x) \<in> set (db_rows d) \<Longrightarrow> x = r" if "dict_ok (db_rows d)" "dget (db_rows d) eid = Some r" for d x
    using that by (simp add: dict_ok_def map_of_eq_Some_iff)
  let ?db = "wake_due_timers rv (rp_lane rp) db"
  let ?rows = "load_live_rows (rp_lane rp) (db_rows ?db)"
  have "eid \<notin> set (map fst (filter (\<lambda>p. rr_status (snd p) = WAITING \<and> lane_clause (rp_lane rp) (rr_metadata (snd p))) (db_rows db)))"
    using only [OF assms(2,3)] assms(4) by auto
  then have w: "dget (db_rows ?db) eid = Some r" "distinct (map at_id (db_attempts ?db))" "dict_ok (db_rows ?db)"
    unfolding wake_due_timers_def using assms wake_keeps [OF assms(1)] by simp_all
  have "eid \<notin> fst ` set ?rows" using only [OF w(3,1)] assms(4) by (auto simp: load_live_rows_def live_row_def)
  then show ?thesis using w(1) process_rows_keep [of "(_, ?db)" eid ?rows] w(2) by (simp add: tick_def Let_def)
qed

section \<open>Witnesses\<close>

text \<open>A spawner whose boxes all live and take every signal; a running run of the Pi lane that somebody cancelled.\<close>

definition demo_spawner :: spawner where
  "demo_spawner = \<lparr>sp_is_alive = (\<lambda>_. Some True), sp_is_gone = (\<lambda>_. Some False), sp_kill = (\<lambda>_ _. None), sp_members = (\<lambda>_. [''m1''])\<rparr>"

definition demo_env :: "rat \<Rightarrow> reaper_env" where
  "demo_env t = \<lparr>rv_spawner = demo_spawner, rv_clock = demo_clock\<lparr>ck_now := t\<rparr>, rv_refuse_workspace = (\<lambda>_. None), rv_pi_off = False,
     rv_cancel_words = (\<lambda>_. None)\<rparr>"

definition demo_box_row :: run_row where
  "demo_box_row = demo_row\<lparr>rr_status := RUN_RUNNING, rr_spawner_kind := Some ''docker'', rr_spawner_handle := Some ''box'', rr_cancel_requested := True,
     rr_metadata := [(''lane'', PStr ''pi''), (''container_id'', PStr ''c1'')]\<rparr>"

definition demo_box_db :: run_db where
  "demo_box_db = demo_db\<lparr>db_rows := [(''r1'', demo_box_row)], db_attempts := []\<rparr>"

definition demo_reaper :: "string option \<Rightarrow> reaper" where
  "demo_reaper lane = \<lparr>rp_lane = lane, rp_kill_grace = 30, rp_termed_at = [], rp_calls = []\<rparr>"

definition demo_life :: reaper where
  "demo_life = fst (tick (demo_env 40) (tick (demo_env 0) (demo_reaper (Some ''pi''), demo_box_db)))"

lemma demo_life_calls:
  "rp_calls demo_life = [Signal \<lparr>bh_kind = ''docker'', bh_handle = ''box'', bh_execution = ''r1'', bh_container = Some ''c1''\<rparr> False,
     Signal \<lparr>bh_kind = ''docker'', bh_handle = ''box'', bh_execution = ''r1'', bh_container = Some ''c1''\<rparr> True, RemoveBoxes ''r1'' [''m1'']]"
  by code_simp

theorem stale_read_ends_nothing_witness:
  "snd (process_row (demo_env 0) ''r1'' (demo_box_row\<lparr>rr_attempts := 1\<rparr>) (demo_reaper None, demo_box_db)) \<in>
    {demo_box_db, snd (carry_on (rv_clock (demo_env 0)) (rv_pi_off (demo_env 0)) (queue_resume (rv_refuse_workspace (demo_env 0)) (rv_clock (demo_env 0)))
       ''r1'' demo_box_db)}"
  by (rule stale_read_ends_nothing [of _ _ demo_box_row]) (simp_all add: demo_box_db_def demo_box_row_def demo_row_def)

theorem signals_only_judged_boxes_witness:
  "\<exists>rp' db' new. process_row (demo_env 0) ''r1'' demo_box_row (demo_reaper None, demo_box_db) = (rp', db') \<and>
     rp_calls rp' = rp_calls (demo_reaper None) @ new \<and>
     (\<forall>h forced. Signal h forced \<in> set new \<longrightarrow> rr_cancel_requested demo_box_row \<and> bh_execution h = ''r1'')"
  using signals_only_judged_boxes by (metis surj_pair)

theorem no_kill_without_warning_witness:
  "\<exists>j < 1. \<exists>h'. rp_calls demo_life ! j = Signal h' False \<and> bh_execution h' = ''r1''"
proof -
  have "reaper_life (demo_reaper (Some ''pi''))" by (rule reaper_life.starts) (simp_all add: demo_reaper_def)
  then have "reaper_life demo_life" unfolding demo_life_def by (metis reaper_life.ticks surj_pair prod.collapse)
  from no_kill_without_warning [OF this, of 1] show ?thesis by (simp add: demo_life_calls)
qed

theorem reaper_keeps_to_its_lane_witness:
  "dget (db_rows (snd (tick (demo_env 0) (demo_reaper None, demo_box_db)))) ''r1'' = Some demo_box_row"
  by (rule reaper_keeps_to_its_lane)
    (simp_all add: demo_box_db_def demo_box_row_def demo_reaper_def dict_ok_def lane_clause_def key_defs dget_or_def py_str_def)

end
