(* ===== verification/Config_Store.thy ===== *)
theory Config_Store
  imports Types
begin

text \<open>
  The configurations a run is built from: the table of \<^verbatim>\<open>temper_ai/config/models.py\<close> with its store
  (\<^verbatim>\<open>temper_ai/config/store.py\<close>), the checks and the substitution of environment variables
  (\<^verbatim>\<open>temper_ai/config/helpers.py\<close>), and reading files into it and out of it (\<^verbatim>\<open>importer.py\<close>, \<^verbatim>\<open>exporter.py\<close>).

  Files, YAML and JSON are parameters (\<open>config_files\<close>), as are the ids of new rows and the time (\<open>store_env\<close>). A box that is
  sealed reads its configurations from its own files; that path is not modelled. The members of a set print in one
  fixed order. A parsed file is a tree: the check for a value that holds itself has nothing to find in it.
\<close>

section \<open>Environment variables\<close>

definition MAX_YAML_NESTING_DEPTH :: nat where "MAX_YAML_NESTING_DEPTH = 20"
definition MAX_YAML_NODES :: nat where "MAX_YAML_NODES = 10000"
definition MAX_ENV_VAR_SIZE :: nat where "MAX_ENV_VAR_SIZE = 10000"
definition MAX_CONFIG_SIZE :: nat where "MAX_CONFIG_SIZE = 1048576"
definition SUPPORTED_SCHEMA_VERSION :: string where "SUPPORTED_SCHEMA_VERSION = ''1.0''"

type_synonym environ = "string \<rightharpoonup> string"

definition ident_char :: "char \<Rightarrow> bool" where
  "ident_char c = (is_alpha c \<or> is_digit c \<or> c = CHR ''_'')"

text \<open>
  A match of the pattern at a dollar sign, given the text after it: the name, the default if there is one, and
  what follows. The name takes all it can, since neither a colon nor a brace belongs to it.
\<close>

definition match_var :: "string \<Rightarrow> (string \<times> string option \<times> string) option" where
  "match_var s =
     (case s of
        b # cs \<Rightarrow>
          if b \<noteq> CHR ''{'' then None
          else (let n = takeWhile ident_char cs
                in if \<not> is_ident n then None
                   else (case dropWhile ident_char cs of
                           c # rest \<Rightarrow>
                             if c = CHR ''}'' then Some (n, None, rest)
                             else if c = CHR '':'' then
                               (case dropWhile (\<lambda>x. x \<noteq> CHR ''}'') rest of
                                  e # after \<Rightarrow> Some (n, Some (takeWhile (\<lambda>x. x \<noteq> CHR ''}'') rest), after)
                                | [] \<Rightarrow> None)
                             else None
                         | [] \<Rightarrow> None))
      | [] \<Rightarrow> None)"

definition replacer :: "environ \<Rightarrow> string \<Rightarrow> string option \<Rightarrow> string res" where
  "replacer env var_name default_value =
     (case env var_name of
        Some v \<Rightarrow>
          if MAX_ENV_VAR_SIZE < length v
          then raise ConfigValidationError (''Env var '' @ quoted var_name @ '' too large: '' @ nat_str (length v) @ '' chars'')
          else Inr v
      | None \<Rightarrow>
          (case default_value of
             Some d \<Rightarrow> Inr d
           | None \<Rightarrow> raise ConfigValidationError (''Environment variable '' @ quoted var_name @ '' is required but not set'')))"

lemma dropWhile_rest: "dropWhile P xs = y # ys \<Longrightarrow> length ys < length xs"
  using length_dropWhile_le [of P xs] by simp

lemma match_var_shorter:
  assumes "match_var s = Some (n, d, rest)"
  shows "length rest < length s"
proof -
  obtain cs where s: "s = CHR ''{'' # cs" using assms by (cases s) (auto simp: match_var_def split: if_splits)
  obtain c r where r: "dropWhile ident_char cs = c # r"
    using assms s by (auto simp: match_var_def Let_def split: if_splits list.splits)
  have "rest = r \<or> (\<exists>e. dropWhile (\<lambda>x. x \<noteq> CHR ''}'') r = e # rest)"
    using assms s r by (auto simp: match_var_def Let_def split: if_splits list.splits)
  then show ?thesis using dropWhile_rest [OF r] dropWhile_rest s by fastforce
qed

function substitute_env_var_string :: "environ \<Rightarrow> string \<Rightarrow> string res" where
  "substitute_env_var_string env [] = Inr []"
| "substitute_env_var_string env (c # cs) =
     (case (if c = CHR ''$'' then match_var cs else None) of
        Some (n, d, rest) \<Rightarrow>
          bind_res (replacer env n d) (\<lambda>v. bind_res (substitute_env_var_string env rest) (\<lambda>t. Inr (v @ t)))
      | None \<Rightarrow> bind_res (substitute_env_var_string env cs) (\<lambda>t. Inr (c # t)))"
  by pat_completeness auto
termination
  by (relation "measure (\<lambda>(env, s). length s)") (auto split: if_splits dest: match_var_shorter)

fun substitute_env_vars :: "environ \<Rightarrow> pyval \<Rightarrow> pyval res"
  and substitute_list :: "environ \<Rightarrow> pyval list \<Rightarrow> pyval list res"
  and substitute_items :: "environ \<Rightarrow> (string \<times> pyval) list \<Rightarrow> (string \<times> pyval) list res" where
  "substitute_env_vars env (PDict d) = bind_res (substitute_items env d) (\<lambda>d'. Inr (PDict d'))"
| "substitute_env_vars env (PList xs) = bind_res (substitute_list env xs) (\<lambda>ys. Inr (PList ys))"
| "substitute_env_vars env (PStr s) = bind_res (substitute_env_var_string env s) (\<lambda>t. Inr (PStr t))"
| "substitute_env_vars env v = Inr v"
| "substitute_list env [] = Inr []"
| "substitute_list env (x # xs) =
     bind_res (substitute_env_vars env x) (\<lambda>y. bind_res (substitute_list env xs) (\<lambda>ys. Inr (y # ys)))"
| "substitute_items env [] = Inr []"
| "substitute_items env ((k, v) # d) =
     bind_res (substitute_env_vars env v) (\<lambda>w. bind_res (substitute_items env d) (\<lambda>d'. Inr ((k, w) # d')))"

section \<open>The table\<close>

record config_row =
  cf_id :: string
  cf_type :: string
  cf_name :: string
  cf_schema_version :: string
  cf_config :: "pyval dict"
  cf_created_at :: string
  cf_updated_at :: string

type_synonym config_table = "config_row list"

record store_env =
  se_new_id :: "config_table \<Rightarrow> string"
  se_now :: string
  se_environ :: environ

definition VALID_TYPES :: "string list" where "VALID_TYPES = [''workflow'', ''stage'', ''agent'']"

definition validate_type :: "string \<Rightarrow> unit res" where
  "validate_type t =
     (if t \<in> set VALID_TYPES then Inr ()
      else raise ValueError (''Invalid config type '' @ quoted t @ ''. Must be one of: {'' @ join '', '' (map repr_str VALID_TYPES) @ ''}''))"

definition check_schema_version :: "string \<Rightarrow> unit res" where
  "check_schema_version version =
     (if version = SUPPORTED_SCHEMA_VERSION then Inr ()
      else raise SchemaVersionError (''Config schema version '' @ quoted version @ '' is not supported. Supported: '' @ SUPPORTED_SCHEMA_VERSION))"

definition is_key :: "string \<Rightarrow> string \<Rightarrow> config_row \<Rightarrow> bool" where
  "is_key t n r = (cf_type r = t \<and> cf_name r = n)"

definition find_row :: "config_table \<Rightarrow> string \<Rightarrow> string \<Rightarrow> config_row option" where
  "find_row rows t n = find (is_key t n) rows"

definition config_get :: "store_env \<Rightarrow> config_table \<Rightarrow> string \<Rightarrow> string \<Rightarrow> pyval dict res" where
  "config_get se rows n t =
     bind_res (validate_type t) (\<lambda>_.
       case find_row rows t n of
         None \<Rightarrow> raise ConfigNotFoundError (t @ '' config '' @ quoted n @ '' not found'')
       | Some r \<Rightarrow> bind_res (check_schema_version (cf_schema_version r)) (\<lambda>_. substitute_items (se_environ se) (cf_config r)))"

definition updated_row :: "store_env \<Rightarrow> string \<Rightarrow> pyval dict \<Rightarrow> config_row \<Rightarrow> config_row" where
  "updated_row se version conf r = r\<lparr>cf_config := conf, cf_schema_version := version, cf_updated_at := se_now se\<rparr>"

definition fresh_row :: "store_env \<Rightarrow> config_table \<Rightarrow> string \<Rightarrow> string \<Rightarrow> string \<Rightarrow> pyval dict \<Rightarrow> config_row" where
  "fresh_row se rows t n version conf =
     \<lparr>cf_id = se_new_id se rows, cf_type = t, cf_name = n, cf_schema_version = version, cf_config = conf,
      cf_created_at = se_now se, cf_updated_at = se_now se\<rparr>"

text \<open>The database's own write of one row: the row found changes in place, or a new one is added.\<close>

definition upsert :: "store_env \<Rightarrow> string \<Rightarrow> string \<Rightarrow> string \<Rightarrow> pyval dict \<Rightarrow> config_table \<Rightarrow> config_table" where
  "upsert se t n version conf rows =
     (case find_row rows t n of
        Some e \<Rightarrow> map (\<lambda>r. if cf_id r = cf_id e then updated_row se version conf r else r) rows
      | None \<Rightarrow> rows @ [fresh_row se rows t n version conf])"

definition config_put :: "store_env \<Rightarrow> string \<Rightarrow> string \<Rightarrow> pyval dict \<Rightarrow> string \<Rightarrow> config_table \<Rightarrow> (string \<times> config_table) res" where
  "config_put se n t conf version rows =
     bind_res (validate_type t) (\<lambda>_.
       Inr (case find_row rows t n of Some e \<Rightarrow> cf_id e | None \<Rightarrow> se_new_id se rows, upsert se t n version conf rows))"

record config_entry =
  ce_name :: string
  ce_type :: string
  ce_config :: "pyval dict"
  ce_schema_version :: string

text \<open>
  The loop of \<open>put_many\<close>: \<open>seen\<close> is the dictionary of rows read before it, by type and name, with the rows the batch
  has added; a row object is known by its id.
\<close>

fun put_each :: "store_env \<Rightarrow> config_entry list \<Rightarrow> ((string \<times> string) \<times> string) list \<Rightarrow> config_table \<Rightarrow> string list \<times> config_table" where
  "put_each se [] seen rows = ([], rows)"
| "put_each se (e # es) seen rows =
     (case map_of seen (ce_type e, ce_name e) of
        Some i \<Rightarrow>
          (case put_each se es seen
              (map (\<lambda>r. if cf_id r = i then updated_row se (ce_schema_version e) (ce_config e) r else r) rows) of
             (ids, rows') \<Rightarrow> (i # ids, rows'))
      | None \<Rightarrow>
          (let r = fresh_row se rows (ce_type e) (ce_name e) (ce_schema_version e) (ce_config e)
           in case put_each se es (((ce_type e, ce_name e), cf_id r) # seen) (rows @ [r]) of
                (ids, rows') \<Rightarrow> (cf_id r # ids, rows')))"

definition existing_rows :: "config_entry list \<Rightarrow> config_table \<Rightarrow> ((string \<times> string) \<times> string) list" where
  "existing_rows es rows =
     rev (map (\<lambda>r. ((cf_type r, cf_name r), cf_id r))
       (filter (\<lambda>r. cf_type r \<in> ce_type ` set es \<and> cf_name r \<in> ce_name ` set es) rows))"

definition put_many :: "store_env \<Rightarrow> config_entry list \<Rightarrow> config_table \<Rightarrow> (string list \<times> config_table) res" where
  "put_many se es rows =
     bind_res (map_res (\<lambda>e. validate_type (ce_type e)) es) (\<lambda>_. Inr (put_each se es (existing_rows es rows) rows))"

definition config_delete :: "string \<Rightarrow> string \<Rightarrow> config_table \<Rightarrow> (bool \<times> config_table) res" where
  "config_delete n t rows =
     bind_res (validate_type t) (\<lambda>_.
       Inr (case find_row rows t n of
              None \<Rightarrow> (False, rows)
            | Some e \<Rightarrow> (True, filter (\<lambda>r. cf_id r \<noteq> cf_id e) rows)))"

section \<open>Files\<close>

text \<open>What the file system and the parsers answer for a path; a size is that of a file that exists.\<close>

record config_source =
  fs_size :: "nat option"
  fs_parsed :: "pyval res"

text \<open>\<open>_validate_structure\<close>: the count of values so far, one list shared by all calls.\<close>

fun validate_structure :: "string \<Rightarrow> nat \<Rightarrow> pyval \<Rightarrow> nat \<Rightarrow> nat res"
  and validate_children :: "string \<Rightarrow> nat \<Rightarrow> pyval list \<Rightarrow> nat \<Rightarrow> nat res"
  and validate_values :: "string \<Rightarrow> nat \<Rightarrow> (string \<times> pyval) list \<Rightarrow> nat \<Rightarrow> nat res" where
  "validate_structure path depth v count =
     (if MAX_YAML_NESTING_DEPTH < depth
      then raise ConfigValidationError (path @ '': exceeds max nesting depth of '' @ nat_str MAX_YAML_NESTING_DEPTH)
      else if MAX_YAML_NODES < count + 1
      then raise ConfigValidationError (path @ '': exceeds max node count of '' @ nat_str MAX_YAML_NODES)
      else case v of
        PDict d \<Rightarrow> validate_values path (depth + 1) d (count + 1)
      | PList xs \<Rightarrow> validate_children path (depth + 1) xs (count + 1)
      | _ \<Rightarrow> Inr (count + 1))"
| "validate_children path depth [] count = Inr count"
| "validate_children path depth (x # xs) count =
     bind_res (validate_structure path depth x count) (\<lambda>n. validate_children path depth xs n)"
| "validate_values path depth [] count = Inr count"
| "validate_values path depth ((k, v) # d) count =
     bind_res (validate_structure path depth v count) (\<lambda>n. validate_values path depth d n)"

definition load_yaml_file :: "string \<Rightarrow> config_source \<Rightarrow> pyval dict res" where
  "load_yaml_file path src =
     (case fs_size src of
        None \<Rightarrow> raise ConfigNotFoundError (''Config file not found: '' @ path)
      | Some bytes \<Rightarrow>
          if MAX_CONFIG_SIZE < bytes
          then raise ConfigValidationError (''Config file too large: '' @ nat_str bytes @ '' bytes (max: '' @ nat_str MAX_CONFIG_SIZE @ '')'')
          else bind_res (fs_parsed src) (\<lambda>v.
            case v of
              PDict d \<Rightarrow> bind_res (validate_structure path 0 v 0) (\<lambda>_. Inr d)
            | _ \<Rightarrow> raise ConfigValidationError (''Config must be a mapping, got '' @ type_name v)))"

definition detect_config_type :: "pyval dict \<Rightarrow> string res" where
  "detect_config_type conf =
     (if dhas ''workflow'' conf then Inr ''workflow''
      else if dhas ''stage'' conf then Inr ''stage''
      else if dhas ''agent'' conf then Inr ''agent''
      else raise ConfigValidationError (''Cannot detect config type. Expected top-level key: workflow, stage, or agent. Got: '' @
             py_repr (PList (map PStr (dkeys conf)))))"

text \<open>
  \<open>parse_yaml\<close>; the check of a \<open>notify\<close> block belongs to the notifications and is a parameter. A name or a version that
  is no text is refused by the database, whose columns are text.
\<close>

definition entry_of :: "(string \<Rightarrow> pyval \<Rightarrow> string option) \<Rightarrow> string \<Rightarrow> pyval dict \<Rightarrow> string \<Rightarrow> config_entry res" where
  "entry_of notify_problem path raw t =
     (case dget_or raw t (PDict []) of
        PDict inner \<Rightarrow>
          (let n = dget_or inner ''name'' PNone
           in if \<not> truthy n
              then raise ConfigValidationError (''Config must have a '' @ quoted ''name'' @ '' field inside '' @ quoted t @ '' block'')
              else case (if t = ''workflow'' \<and> dget_or inner ''notify'' PNone \<noteq> PNone
                         then notify_problem (py_str n @ '': notify'') (dget_or inner ''notify'' PNone) else None) of
                Some why \<Rightarrow> raise ConfigValidationError (path @ '': '' @ why)
              | None \<Rightarrow>
                  (case (n, dget_or raw ''schema_version'' (PStr ''1.0'')) of
                     (PStr name, PStr version) \<Rightarrow> Inr \<lparr>ce_name = name, ce_type = t, ce_config = raw, ce_schema_version = version\<rparr>
                   | _ \<Rightarrow> raise TypeError ''a name and a version are text''))
      | v \<Rightarrow> raise AttributeError (quoted (type_name v) @ '' object has no attribute '' @ quoted ''get''))"

definition parse_yaml :: "(string \<Rightarrow> pyval \<Rightarrow> string option) \<Rightarrow> string \<Rightarrow> config_source \<Rightarrow> config_entry res" where
  "parse_yaml notify_problem path src =
     bind_res (load_yaml_file path src) (\<lambda>raw. bind_res (detect_config_type raw) (\<lambda>t. entry_of notify_problem path raw t))"

definition TRIAL_PREFIX :: string where "TRIAL_PREFIX = ''team-trial-''"

text \<open>The files of a tree, in order, with their parsed contents: those that fail and those of a team trial are left out.\<close>

definition parse_tree :: "(string \<Rightarrow> pyval \<Rightarrow> string option) \<Rightarrow> (string \<times> config_source) list \<Rightarrow> config_entry list" where
  "parse_tree notify_problem files =
     List.map_filter (\<lambda>(path, src).
       case parse_yaml notify_problem path src of
         Inl e \<Rightarrow> None
       | Inr e \<Rightarrow> if startswith TRIAL_PREFIX (ce_name e) then None else Some e) files"

definition import_config_tree :: "store_env \<Rightarrow> (string \<Rightarrow> pyval \<Rightarrow> string option) \<Rightarrow> (string \<times> config_source) list \<Rightarrow> config_table
    \<Rightarrow> (nat \<times> config_table) res" where
  "import_config_tree se notify_problem files rows =
     (let parsed = parse_tree notify_problem files
      in if parsed = [] then Inr (0, rows)
         else bind_res (put_many se parsed rows) (\<lambda>(ids, rows'). Inr (length parsed, rows')))"

definition import_yaml :: "store_env \<Rightarrow> (string \<Rightarrow> pyval \<Rightarrow> string option) \<Rightarrow> string \<Rightarrow> config_source \<Rightarrow> config_table
    \<Rightarrow> (string \<times> config_table) res" where
  "import_yaml se notify_problem path src rows =
     bind_res (parse_yaml notify_problem path src) (\<lambda>e.
       config_put se (ce_name e) (ce_type e) (ce_config e) (ce_schema_version e) rows)"

text \<open>\<open>export_yaml\<close>: what the dump gives of the row's own configuration, variables unresolved.\<close>

definition export_yaml :: "(pyval dict \<Rightarrow> string) \<Rightarrow> string \<Rightarrow> string \<Rightarrow> config_table \<Rightarrow> string res" where
  "export_yaml yaml_dump n t rows =
     (case find_row rows t n of
        None \<Rightarrow> raise ConfigNotFoundError (t @ '' config '' @ quoted n @ '' not found'')
      | Some r \<Rightarrow> Inr (yaml_dump (cf_config r)))"

section \<open>The contract of a keyed store\<close>

text \<open>What whoever reads configurations relies on: a write is found again and changes nothing else.\<close>

locale keyed_store =
  fixes store_write :: "'k \<Rightarrow> 'v \<Rightarrow> 's \<Rightarrow> 's" and store_drop :: "'k \<Rightarrow> 's \<Rightarrow> 's" and look :: "'s \<Rightarrow> 'k \<Rightarrow> 'v option" and ok :: "'s \<Rightarrow> bool"
  assumes look_write: "ok s \<Longrightarrow> look (store_write k v s) j = (if j = k then Some v else look s j)"
    and look_drop: "ok s \<Longrightarrow> look (store_drop k s) j = (if j = k then None else look s j)"
    and ok_write: "ok s \<Longrightarrow> ok (store_write k v s)"
    and ok_drop: "ok s \<Longrightarrow> ok (store_drop k s)"
begin

lemma ok_writes: "ok s \<Longrightarrow> ok (fold (\<lambda>(k, v). store_write k v) kvs s)"
  by (induction kvs arbitrary: s) (auto intro: ok_write)

text \<open>Of several writes of one key the last stands.\<close>

lemma look_writes: "ok s \<Longrightarrow> look (fold (\<lambda>(k, v). store_write k v) kvs s) j = (case map_of (rev kvs) j of Some v \<Rightarrow> Some v | None \<Rightarrow> look s j)"
proof (induction kvs arbitrary: s)
  case (Cons kv kvs)
  then show ?case using ok_write [of s "fst kv" "snd kv"] look_write [of s "fst kv" "snd kv" j]
    by (auto simp: map_add_def split: prod.splits option.splits)
qed simp

lemma look_drop_write: "ok s \<Longrightarrow> look s k = None \<Longrightarrow> look (store_drop k (store_write k v s)) j = look s j"
  using ok_write [of s k v] by (simp add: look_drop look_write)

end

interpretation dict_store: keyed_store dset ddel dget "\<lambda>d. True"
  by unfold_locales (auto simp: dget_ddel)

definition table_ok :: "config_table \<Rightarrow> bool" where
  "table_ok rows \<longleftrightarrow> distinct (map cf_id rows) \<and> distinct (map (\<lambda>r. (cf_type r, cf_name r)) rows)"

definition fresh_ids :: "store_env \<Rightarrow> bool" where
  "fresh_ids se \<longleftrightarrow> (\<forall>rows. se_new_id se rows \<notin> cf_id ` set rows)"

definition lookup_row :: "config_table \<Rightarrow> string \<times> string \<Rightarrow> (string \<times> pyval dict) option" where
  "lookup_row rows k = map_option (\<lambda>r. (cf_schema_version r, cf_config r)) (find_row rows (fst k) (snd k))"

definition drop_row :: "string \<times> string \<Rightarrow> config_table \<Rightarrow> config_table" where
  "drop_row k rows = (case find_row rows (fst k) (snd k) of None \<Rightarrow> rows | Some e \<Rightarrow> filter (\<lambda>r. cf_id r \<noteq> cf_id e) rows)"

lemma find_row_Some: "find_row rows t n = Some e \<Longrightarrow> e \<in> set rows \<and> cf_type e = t \<and> cf_name e = n"
  by (auto simp: find_row_def find_Some_iff is_key_def)

lemma find_row_None: "find_row rows t n = None \<longleftrightarrow> (t, n) \<notin> (\<lambda>r. (cf_type r, cf_name r)) ` set rows"
  by (auto simp: find_row_def find_None_iff is_key_def)

lemma find_row_simps [simp]:
  "find_row [] t n = None" "find_row (r # rows) t n = (if cf_type r = t \<and> cf_name r = n then Some r else find_row rows t n)"
  by (simp_all add: find_row_def is_key_def)

lemma find_row_append: "find_row (rows @ rows') t n = (case find_row rows t n of Some r \<Rightarrow> Some r | None \<Rightarrow> find_row rows' t n)"
  by (induction rows) auto

lemma same_row_same_key: "table_ok rows \<Longrightarrow> e \<in> set rows \<Longrightarrow> r \<in> set rows \<Longrightarrow> cf_id r = cf_id e \<longleftrightarrow> cf_type r = cf_type e \<and> cf_name r = cf_name e"
  by (auto simp: table_ok_def distinct_map dest: inj_onD)

text \<open>Changing one row, found by its id, is changing the row of its key.\<close>

lemma find_row_update:
  assumes "table_ok rows" and "e \<in> set rows"
  shows "find_row (map (\<lambda>r. if cf_id r = cf_id e then updated_row se version conf r else r) rows) t n =
    (if t = cf_type e \<and> n = cf_name e then Some (updated_row se version conf e) else find_row rows t n)"
proof -
  let ?f = "\<lambda>r. if cf_id r = cf_id e then updated_row se version conf r else r"
  have kept: "cf_type (?f r) = cf_type r" "cf_name (?f r) = cf_name r" for r by (simp_all add: updated_row_def)
  have all: "find_row (map ?f rs) t n = map_option ?f (find_row rs t n)" for rs by (induction rs) (simp_all only: list.map find_row_simps kept if_distrib [of "map_option ?f"] option.map)
  show ?thesis
  proof (cases "find_row rows t n")
    case None
    moreover have "\<not> (t = cf_type e \<and> n = cf_name e)" using None assms(2) unfolding find_row_None by blast
    ultimately show ?thesis using all by simp
  next
    case (Some x)
    have "cf_id x = cf_id e \<longleftrightarrow> t = cf_type e \<and> n = cf_name e" and "cf_id x = cf_id e \<longleftrightarrow> x = e"
      using same_row_same_key [OF assms, of x] find_row_Some [OF Some] assms by (auto simp: table_ok_def distinct_map dest: inj_onD)
    then show ?thesis using all Some by auto
  qed
qed

lemma upsert_ok: "table_ok rows \<Longrightarrow> fresh_ids se \<Longrightarrow> table_ok (upsert se t n version conf rows)"
proof (cases "find_row rows t n")
  case None
  then have "(t, n) \<notin> (\<lambda>r. (cf_type r, cf_name r)) ` set rows" by (simp only: find_row_None not_False_eq_True)
  then show "table_ok rows \<Longrightarrow> fresh_ids se \<Longrightarrow> ?thesis"
    by (simp add: upsert_def None table_ok_def fresh_ids_def fresh_row_def)
next
  case (Some e)
  have "map cf_id (upsert se t n version conf rows) = map cf_id rows"
    "map (\<lambda>r. (cf_type r, cf_name r)) (upsert se t n version conf rows) = map (\<lambda>r. (cf_type r, cf_name r)) rows"
    using Some by (simp_all add: upsert_def updated_row_def)
  then show "table_ok rows \<Longrightarrow> ?thesis" by (simp add: table_ok_def)
qed

lemma find_upsert:
  assumes "table_ok rows"
  shows "find_row (upsert se t n version conf rows) t' n' =
    (if t' = t \<and> n' = n then Some (case find_row rows t n of Some e \<Rightarrow> updated_row se version conf e | None \<Rightarrow> fresh_row se rows t n version conf)
     else find_row rows t' n')"
proof (cases "find_row rows t n")
  case None
  then show ?thesis by (auto simp: upsert_def find_row_append fresh_row_def split: option.splits)
next
  case (Some e)
  then show ?thesis using find_row_update [OF assms, of e] find_row_Some [OF Some] by (auto simp: upsert_def)
qed

interpretation config_table: keyed_store "\<lambda>k v. upsert se (fst k) (snd k) (fst v) (snd v)" drop_row lookup_row "\<lambda>rows. table_ok rows \<and> fresh_ids se" for se
proof (unfold_locales, goal_cases)
  case (1 rows k v j)
  then show ?case using find_upsert [of rows] by (cases k; cases v; cases j) (auto simp: lookup_row_def updated_row_def fresh_row_def split: option.splits)
next
  case (2 rows k j)
  then show ?case
  proof (cases "find_row rows (fst k) (snd k)")
    case (Some e)
    have "find_row (filter (\<lambda>r. cf_id r \<noteq> cf_id e) rs) t n = (if t = fst k \<and> n = snd k then None else find_row rs t n)" if "set rs \<subseteq> set rows" for rs t n
      using that by (induction rs) (use same_row_same_key [of rows e] 2 find_row_Some [OF Some] in auto)
    then show ?thesis using Some by (cases j; cases k) (auto simp: lookup_row_def drop_row_def)
  qed (auto simp: lookup_row_def drop_row_def)
next
  case (3 rows k v)
  then show ?case using upsert_ok by simp
next
  case (4 rows k)
  then show ?case by (auto simp: table_ok_def drop_row_def distinct_map inj_on_def split: option.split)
qed

section \<open>What the store promises\<close>

lemma validate_type_Inr: "validate_type t = Inr u \<longleftrightarrow> t \<in> set VALID_TYPES"
  by (auto simp: validate_type_def)

lemma config_get_lookup:
  "config_get se rows n t = bind_res (validate_type t) (\<lambda>_. case lookup_row rows (t, n) of
     None \<Rightarrow> raise ConfigNotFoundError (t @ '' config '' @ quoted n @ '' not found'')
   | Some (version, conf) \<Rightarrow> bind_res (check_schema_version version) (\<lambda>_. substitute_items (se_environ se) conf))"
  by (simp add: config_get_def lookup_row_def split: option.split)

lemma config_put_Inr:
  assumes "config_put se n t conf version rows = Inr (i, rows')"
  shows "t \<in> set VALID_TYPES" and "rows' = upsert se t n version conf rows"
    and "i = (case find_row rows t n of Some e \<Rightarrow> cf_id e | None \<Rightarrow> se_new_id se rows)"
  using assms by (auto simp: config_put_def bind_res_Inr validate_type_Inr)

text \<open>C30: What is put into the store is what is read from it, its variables resolved with the environment of the read,
  if its version is the supported one; every other configuration reads as before, and the index on type and name
  stays unique.
\<close>

theorem put_get_round_trip:
  assumes "table_ok rows" and "fresh_ids se" and "config_put se n t conf version rows = Inr (i, rows')"
  shows "config_get se' rows' n t = bind_res (check_schema_version version) (\<lambda>_. substitute_items (se_environ se') conf) \<and>
    (\<forall>n' t'. (t', n') \<noteq> (t, n) \<longrightarrow> config_get se' rows' n' t' = config_get se' rows n' t') \<and> table_ok rows'"
proof -
  note put = config_put_Inr [OF assms(3)]
  have look: "lookup_row rows' j = (if j = (t, n) then Some (version, conf) else lookup_row rows j)" for j
    using config_table.look_write [of rows se "(t, n)" "(version, conf)" j] assms(1,2) put(2) by simp
  have "validate_type t = Inr ()" using put(1) by (simp add: validate_type_def)
  then show ?thesis using look upsert_ok [OF assms(1,2)] put(2) by (simp add: config_get_lookup bind_res_def)
qed

text \<open>One \<open>put\<close> after the other, collecting the ids.\<close>

fun put_in_turn :: "store_env \<Rightarrow> config_entry list \<Rightarrow> config_table \<Rightarrow> (string list \<times> config_table) res" where
  "put_in_turn se [] rows = Inr ([], rows)"
| "put_in_turn se (e # es) rows =
     bind_res (config_put se (ce_name e) (ce_type e) (ce_config e) (ce_schema_version e) rows) (\<lambda>(i, rows').
     bind_res (put_in_turn se es rows') (\<lambda>(ids, rows''). Inr (i # ids, rows'')))"

lemma existing_rows_find:
  assumes "table_ok rows" and "t \<in> ce_type ` set es" and "n \<in> ce_name ` set es"
  shows "map_of (existing_rows es rows) (t, n) = map_option cf_id (find_row rows t n)"
proof -
  have "distinct (map (\<lambda>r. (cf_type r, cf_name r)) (filter P rows))" for P
    using assms(1) by (simp add: table_ok_def distinct_map_filter)
  then have d: "distinct (map fst (map (\<lambda>r. ((cf_type r, cf_name r), cf_id r)) (filter P rows)))" for P by (simp add: comp_def)
  have "map_of (map (\<lambda>r. ((cf_type r, cf_name r), cf_id r)) (filter (\<lambda>r. cf_type r \<in> ce_type ` set es \<and> cf_name r \<in> ce_name ` set es) rows)) (t, n)
      = map_option cf_id (find_row rows t n)"
    using assms(2,3) by (induction rows) auto
  then show ?thesis unfolding existing_rows_def using d by (subst map_of_inject_set [THEN iffD2, OF _ d]) (simp_all add: rev_map [symmetric])
qed

text \<open>The rows the batch knows are those a fresh look at the table would find.\<close>

lemma put_each_in_turn:
  "\<lbrakk>table_ok rows; fresh_ids se; \<forall>e \<in> set es. ce_type e \<in> set VALID_TYPES;
    \<forall>e \<in> set es. map_of seen (ce_type e, ce_name e) = map_option cf_id (find_row rows (ce_type e) (ce_name e))\<rbrakk>
   \<Longrightarrow> put_in_turn se es rows = Inr (put_each se es seen rows)"
proof (induction es arbitrary: seen rows)
  case (Cons e es)
  let ?t = "ce_type e" and ?n = "ce_name e"
  let ?rows = "upsert se ?t ?n (ce_schema_version e) (ce_config e) rows"
  have ok: "table_ok ?rows" using Cons.prems upsert_ok by blast
  have put: "config_put se ?n ?t (ce_config e) (ce_schema_version e) rows =
      Inr (case find_row rows ?t ?n of Some x \<Rightarrow> cf_id x | None \<Rightarrow> se_new_id se rows, ?rows)"
    using Cons.prems(3) by (simp add: config_put_def validate_type_def bind_res_def)
  have find: "find_row ?rows t n = (if t = ?t \<and> n = ?n
      then Some (case find_row rows ?t ?n of Some x \<Rightarrow> updated_row se (ce_schema_version e) (ce_config e) x
        | None \<Rightarrow> fresh_row se rows ?t ?n (ce_schema_version e) (ce_config e)) else find_row rows t n)" for t n
    using find_upsert [OF Cons.prems(1)] .
  show ?case
  proof (cases "find_row rows ?t ?n")
    case None
    let ?seen = "((?t, ?n), se_new_id se rows) # seen"
    have "put_in_turn se es ?rows = Inr (put_each se es ?seen ?rows)"
      using Cons.prems ok find None by (intro Cons.IH) (auto simp: fresh_row_def)
    then show ?thesis using Cons.prems(4) None put
      by (simp add: bind_res_def upsert_def fresh_row_def Let_def split: prod.split)
  next
    case (Some x)
    have "put_in_turn se es ?rows = Inr (put_each se es seen ?rows)"
      using Cons.prems ok find Some by (intro Cons.IH) (auto simp: updated_row_def)
    then show ?thesis using Cons.prems(4) Some put by (simp add: bind_res_def upsert_def split: prod.split)
  qed
qed simp

lemma put_in_turn_of_many:
  assumes "table_ok rows" and "fresh_ids se" and "put_many se es rows = Inr (ids, rows')"
  shows "put_in_turn se es rows = Inr (ids, rows')"
proof -
  have valid: "\<forall>e \<in> set es. ce_type e \<in> set VALID_TYPES"
  proof -
    obtain us where "map_res (\<lambda>e. validate_type (ce_type e)) es = Inr us" using assms(3) by (auto simp: put_many_def bind_res_Inr)
    then show ?thesis by (induction es arbitrary: us) (auto simp: validate_type_Inr split: sum.splits)
  qed
  have "\<forall>e \<in> set es. map_of (existing_rows es rows) (ce_type e, ce_name e) = map_option cf_id (find_row rows (ce_type e) (ce_name e))"
    using existing_rows_find [OF assms(1)] by blast
  then have "put_in_turn se es rows = Inr (put_each se es (existing_rows es rows) rows)"
    using put_each_in_turn [OF assms(1,2) valid] by blast
  then show ?thesis using assms(3) by (auto simp: put_many_def bind_res_Inr)
qed

text \<open>Writing many configurations in one transaction gives the same rows and the same ids as writing them one after
  the other, also when the batch names a configuration twice; only a batch with a wrong type writes nothing at all.
\<close>

theorem put_many_is_puts:
  assumes "table_ok rows" and "fresh_ids se" and "put_many se es rows = Inr (ids, rows')"
  shows "put_in_turn se es rows = Inr (ids, rows')"
  using assms by (rule put_in_turn_of_many)

section \<open>The limits of a file\<close>

text \<open>Whether no value lies deeper than \<open>depth\<close> below this one, and how many values it holds, with itself.\<close>

fun within_depth :: "nat \<Rightarrow> pyval \<Rightarrow> bool"
  and within_all :: "nat \<Rightarrow> pyval list \<Rightarrow> bool"
  and within_values :: "nat \<Rightarrow> (string \<times> pyval) list \<Rightarrow> bool" where
  "within_depth n (PList xs) = (xs = [] \<or> 0 < n \<and> within_all (n - 1) xs)"
| "within_depth n (PDict d) = (d = [] \<or> 0 < n \<and> within_values (n - 1) d)"
| "within_depth n _ = True"
| "within_all n [] = True"
| "within_all n (x # xs) = (within_depth n x \<and> within_all n xs)"
| "within_values n [] = True"
| "within_values n ((k, v) # d) = (within_depth n v \<and> within_values n d)"

fun count_values :: "pyval \<Rightarrow> nat"
  and count_all :: "pyval list \<Rightarrow> nat"
  and count_items :: "(string \<times> pyval) list \<Rightarrow> nat" where
  "count_values (PList xs) = 1 + count_all xs"
| "count_values (PDict d) = 1 + count_items d"
| "count_values _ = 1"
| "count_all [] = 0"
| "count_all (x # xs) = count_values x + count_all xs"
| "count_items [] = 0"
| "count_items ((k, v) # d) = count_values v + count_items d"

lemma validate_structure_Inr:
  "validate_structure path depth v count = Inr m \<longleftrightarrow>
     depth \<le> MAX_YAML_NESTING_DEPTH \<and> within_depth (MAX_YAML_NESTING_DEPTH - depth) v \<and> count + count_values v \<le> MAX_YAML_NODES \<and> m = count + count_values v"
  "validate_children path depth xs count = Inr m \<longleftrightarrow>
     (xs = [] \<or> depth \<le> MAX_YAML_NESTING_DEPTH \<and> within_all (MAX_YAML_NESTING_DEPTH - depth) xs \<and> count + count_all xs \<le> MAX_YAML_NODES) \<and> m = count + count_all xs"
  "validate_values path depth d count = Inr m \<longleftrightarrow>
     (d = [] \<or> depth \<le> MAX_YAML_NESTING_DEPTH \<and> within_values (MAX_YAML_NESTING_DEPTH - depth) d \<and> count + count_items d \<le> MAX_YAML_NODES) \<and> m = count + count_items d"
proof (induction path depth v count and path depth xs count and path depth d count arbitrary: m and m and m
    rule: validate_structure_validate_children_validate_values.induct)
  case (1 path depth v count)
  then show ?case
    by (cases v) (auto simp: not_less)
next
  case (3 path depth x xs count)
  then show ?case by (auto simp: bind_res_Inr simp del: validate_structure.simps)
next
  case (5 path depth k v d count)
  then show ?case by (auto simp: bind_res_Inr simp del: validate_structure.simps)
qed auto

lemma within_deeper:
  "within_depth n v \<Longrightarrow> n \<le> n' \<Longrightarrow> within_depth n' v"
  "within_all n xs \<Longrightarrow> n \<le> n' \<Longrightarrow> within_all n' xs"
  "within_values n d \<Longrightarrow> n \<le> n' \<Longrightarrow> within_values n' d"
  by (induction n v and n xs and n d arbitrary: n' and n' and n' rule: within_depth_within_all_within_values.induct) auto

text \<open>A file is taken exactly when it exists, is no larger than the limit, parses to a mapping, and that mapping is
  nested no deeper and holds no more values than the limits say; then it gives what it parses to.
\<close>

theorem load_yaml_file_iff:
  "load_yaml_file path src = Inr d \<longleftrightarrow>
     (\<exists>bytes. fs_size src = Some bytes \<and> bytes \<le> MAX_CONFIG_SIZE) \<and> fs_parsed src = Inr (PDict d) \<and>
     within_depth MAX_YAML_NESTING_DEPTH (PDict d) \<and> count_values (PDict d) \<le> MAX_YAML_NODES"
proof (cases "fs_parsed src")
  case (Inr v)
  then show ?thesis
    by (cases v) (auto simp: load_yaml_file_def bind_res_Inr validate_structure_Inr not_less simp del: validate_structure.simps
        split: option.splits if_splits)
qed (auto simp: load_yaml_file_def bind_res_def split: option.splits)

section \<open>Substitution\<close>

text \<open>The variables a text names, from left to right, and those of a value.\<close>

function vars_of_text :: "string \<Rightarrow> (string \<times> string option) list" where
  "vars_of_text [] = []"
| "vars_of_text (c # cs) =
     (case (if c = CHR ''$'' then match_var cs else None) of
        Some (n, d, rest) \<Rightarrow> (n, d) # vars_of_text rest
      | None \<Rightarrow> vars_of_text cs)"
  by pat_completeness auto
termination
  by (relation "measure length") (auto split: if_splits dest: match_var_shorter)

fun vars_of :: "pyval \<Rightarrow> (string \<times> string option) list"
  and vars_of_list :: "pyval list \<Rightarrow> (string \<times> string option) list"
  and vars_of_items :: "(string \<times> pyval) list \<Rightarrow> (string \<times> string option) list" where
  "vars_of (PDict d) = vars_of_items d"
| "vars_of (PList xs) = vars_of_list xs"
| "vars_of (PStr s) = vars_of_text s"
| "vars_of _ = []"
| "vars_of_list [] = []"
| "vars_of_list (x # xs) = vars_of x @ vars_of_list xs"
| "vars_of_items [] = []"
| "vars_of_items ((k, v) # d) = vars_of v @ vars_of_items d"

definition resolvable :: "environ \<Rightarrow> string \<times> string option \<Rightarrow> bool" where
  "resolvable env v = (case env (fst v) of Some x \<Rightarrow> length x \<le> MAX_ENV_VAR_SIZE | None \<Rightarrow> snd v \<noteq> None)"

lemma replacer_Inr: "(\<exists>x. replacer env n d = Inr x) \<longleftrightarrow> resolvable env (n, d)"
  by (auto simp: replacer_def resolvable_def split: option.split)

lemma substitute_text_Inr: "(\<exists>t. substitute_env_var_string env s = Inr t) \<longleftrightarrow> list_all (resolvable env) (vars_of_text s)"
proof (induction env s rule: substitute_env_var_string.induct)
  case (2 env c cs)
  show ?case
  proof (cases "if c = CHR ''$'' then match_var cs else None")
    case None
    then show ?thesis using 2(1) [OF None] by (simp add: bind_res_Inr)
  next
    case (Some m)
    obtain n d rest where m: "m = (n, d, rest)" by (cases m)
    show ?thesis using 2(2) [OF Some m [symmetric] refl] replacer_Inr [of env n d] Some m by (auto simp: bind_res_Inr)
  qed
qed simp

lemma substitute_text_none: "vars_of_text s = [] \<Longrightarrow> substitute_env_var_string env s = Inr s"
proof (induction s rule: vars_of_text.induct)
  case (2 c cs)
  then show ?case by (cases "if c = CHR ''$'' then match_var cs else None") (auto simp: bind_res_def)
qed simp

lemma substitute_Inr:
  "(\<exists>w. substitute_env_vars env v = Inr w) \<longleftrightarrow> list_all (resolvable env) (vars_of v)"
  "(\<exists>ys. substitute_list env xs = Inr ys) \<longleftrightarrow> list_all (resolvable env) (vars_of_list xs)"
  "(\<exists>d'. substitute_items env d = Inr d') \<longleftrightarrow> list_all (resolvable env) (vars_of_items d)"
  by (induction v and xs and d rule: vars_of_vars_of_list_vars_of_items.induct)
    (auto simp: bind_res_Inr substitute_text_Inr [symmetric])

lemma substitute_none:
  "vars_of v = [] \<Longrightarrow> substitute_env_vars env v = Inr v"
  "vars_of_list xs = [] \<Longrightarrow> substitute_list env xs = Inr xs"
  "vars_of_items d = [] \<Longrightarrow> substitute_items env d = Inr d"
  by (induction v and xs and d rule: vars_of_vars_of_list_vars_of_items.induct) (auto simp: bind_res_def substitute_text_none)

text \<open>A stored configuration can be read exactly when its version is the supported one and every variable it names is
  set to a value no longer than the limit, or is not set and has a default; one that names none is read as it was written.
\<close>

theorem config_readable_iff:
  assumes "t \<in> set VALID_TYPES" and "lookup_row rows (t, n) = Some (version, conf)"
  shows "((\<exists>d. config_get se rows n t = Inr d) \<longleftrightarrow>
       version = SUPPORTED_SCHEMA_VERSION \<and> list_all (resolvable (se_environ se)) (vars_of_items conf)) \<and>
    (version = SUPPORTED_SCHEMA_VERSION \<and> vars_of_items conf = [] \<longrightarrow> config_get se rows n t = Inr conf)"
  using assms substitute_Inr(3) [of "se_environ se" conf] substitute_none(3) [of conf "se_environ se"]
  by (auto simp: config_get_lookup validate_type_def check_schema_version_def bind_res_def)

section \<open>Files and rows\<close>

lemma detect_config_type_Inr: "detect_config_type conf = Inr t \<Longrightarrow> t \<in> set VALID_TYPES"
  by (auto simp: detect_config_type_def VALID_TYPES_def split: if_splits)

lemma entry_of_Inr:
  assumes "entry_of np path raw t = Inr e"
  shows "ce_config e = raw" and "ce_type e = t" and "entry_of np path' raw t = Inr e"
proof -
  obtain inner where i: "dget_or raw t (PDict []) = PDict inner"
    using assms by (cases "dget_or raw t (PDict [])") (auto simp: entry_of_def)
  obtain name where n: "dget_or inner ''name'' PNone = PStr name"
    using assms i by (cases "dget_or inner ''name'' PNone") (auto simp: entry_of_def Let_def split: if_splits option.splits)
  obtain version where v: "dget_or raw ''schema_version'' (PStr ''1.0'') = PStr version"
    using assms i n by (cases "dget_or raw ''schema_version'' (PStr ''1.0'')") (auto simp: entry_of_def Let_def split: if_splits option.splits)
  show "ce_config e = raw" and "ce_type e = t" and "entry_of np path' raw t = Inr e"
    using assms i n v by (auto simp: entry_of_def Let_def split: if_splits option.splits)
qed

lemma parse_yaml_Inr:
  assumes "parse_yaml np path src = Inr e"
  shows "load_yaml_file path src = Inr (ce_config e)" and "ce_type e \<in> set VALID_TYPES"
    and "load_yaml_file path' src' = Inr (ce_config e) \<Longrightarrow> parse_yaml np path' src' = Inr e"
proof -
  obtain raw t where l: "load_yaml_file path src = Inr raw" and t: "detect_config_type raw = Inr t" and e: "entry_of np path raw t = Inr e"
    using assms by (auto simp: parse_yaml_def bind_res_Inr)
  note entry = entry_of_Inr [OF e]
  show "load_yaml_file path src = Inr (ce_config e)" "ce_type e \<in> set VALID_TYPES" using l t entry detect_config_type_Inr by auto
  assume "load_yaml_file path' src' = Inr (ce_config e)"
  then show "parse_yaml np path' src' = Inr e" using t entry by (simp add: parse_yaml_def bind_res_def)
qed

text \<open>Exporting a configuration and importing the file again changes no configuration: the same row is written with
  what it had, its variables still unresolved, whatever the environment holds.
\<close>

theorem export_import_round_trip:
  assumes "table_ok rows" and "fresh_ids se" and "import_yaml se np path src rows = Inr (i, rows1)"
    and "parse_yaml np path src = Inr e" and "yaml_load (yaml_dump (ce_config e)) = Inr (PDict (ce_config e))"
    and "export_yaml yaml_dump (ce_name e) (ce_type e) rows1 = Inr text" and "length text \<le> MAX_CONFIG_SIZE"
  shows "\<exists>rows2. import_yaml se' np path' \<lparr>fs_size = Some (length text), fs_parsed = yaml_load text\<rparr> rows1 = Inr (i, rows2) \<and>
    (\<forall>k. lookup_row rows2 k = lookup_row rows1 k)"
proof -
  note parsed = parse_yaml_Inr [OF assms(4)]
  have put: "config_put se (ce_name e) (ce_type e) (ce_config e) (ce_schema_version e) rows = Inr (i, rows1)"
    using assms(3,4) by (simp add: import_yaml_def bind_res_def)
  note put = config_put_Inr [OF put]
  have found: "find_row rows1 (ce_type e) (ce_name e) = Some (case find_row rows (ce_type e) (ce_name e) of
      Some x \<Rightarrow> updated_row se (ce_schema_version e) (ce_config e) x
    | None \<Rightarrow> fresh_row se rows (ce_type e) (ce_name e) (ce_schema_version e) (ce_config e))" (is "_ = Some ?r")
    using find_upsert [OF assms(1)] put(2) by simp
  have r: "cf_config ?r = ce_config e" "cf_schema_version ?r = ce_schema_version e" "cf_id ?r = i"
    using put(3) by (auto simp: updated_row_def fresh_row_def split: option.split)
  have "text = yaml_dump (ce_config e)" using assms(6) found r(1) by (simp add: export_yaml_def)
  then have "yaml_load text = Inr (PDict (ce_config e))" using assms(5) by simp
  then have "load_yaml_file path' \<lparr>fs_size = Some (length text), fs_parsed = yaml_load text\<rparr> = Inr (ce_config e)"
    using parsed(1) assms(7) unfolding load_yaml_file_iff by simp
  from parsed(3) [OF this] have again: "import_yaml se' np path' \<lparr>fs_size = Some (length text), fs_parsed = yaml_load text\<rparr> rows1 =
      Inr (i, upsert se' (ce_type e) (ce_name e) (ce_schema_version e) (ce_config e) rows1)"
    using put(1) found r(3) by (simp add: import_yaml_def bind_res_def config_put_def validate_type_def)
  have ok: "table_ok rows1" using upsert_ok [OF assms(1,2)] put(2) by simp
  have "lookup_row (upsert se' (ce_type e) (ce_name e) (ce_schema_version e) (ce_config e) rows1) k = lookup_row rows1 k" for k
    using find_upsert [OF ok] found r by (cases k) (simp add: lookup_row_def updated_row_def)
  then show ?thesis using again by blast
qed

lemma put_in_turn_keeps:
  "\<lbrakk>put_in_turn se es rows = Inr (ids, rows'); table_ok rows; fresh_ids se; \<forall>e \<in> set es. ce_name e \<noteq> n\<rbrakk> \<Longrightarrow> find_row rows' t n = find_row rows t n"
proof (induction es arbitrary: ids rows)
  case (Cons e es)
  obtain i mid ids' where p: "config_put se (ce_name e) (ce_type e) (ce_config e) (ce_schema_version e) rows = Inr (i, mid)"
    and rest: "put_in_turn se es mid = Inr (ids', rows')" using Cons.prems(1) by (auto simp: bind_res_Inr)
  have mid: "mid = upsert se (ce_type e) (ce_name e) (ce_schema_version e) (ce_config e) rows" using config_put_Inr(2) [OF p] .
  have "find_row rows' t n = find_row mid t n" using Cons.IH [OF rest] Cons.prems upsert_ok mid by simp
  then show ?case using find_upsert [OF Cons.prems(2)] mid Cons.prems(4) by auto
qed simp

text \<open>Loading a folder of files never replaces a configuration of a team trial, whatever the files say; and a file
  that cannot be parsed only leaves itself out.
\<close>

theorem import_tree_keeps_trials:
  assumes "table_ok rows" and "fresh_ids se" and "import_config_tree se np files rows = Inr (k, rows')"
  shows "(startswith TRIAL_PREFIX n \<longrightarrow> find_row rows' t n = find_row rows t n) \<and>
    k = length (filter (\<lambda>(path, src). case parse_yaml np path src of Inl e \<Rightarrow> False | Inr e \<Rightarrow> \<not> startswith TRIAL_PREFIX (ce_name e)) files)"
proof
  let ?es = "parse_tree np files"
  have es: "\<forall>e \<in> set ?es. \<not> startswith TRIAL_PREFIX (ce_name e)"
    by (auto simp: parse_tree_def List.map_filter_def split: sum.splits if_splits)
  show "startswith TRIAL_PREFIX n \<longrightarrow> find_row rows' t n = find_row rows t n"
  proof (cases "?es = []")
    case False
    then obtain ids where "put_many se ?es rows = Inr (ids, rows')"
      using assms(3) by (auto simp: import_config_tree_def Let_def bind_res_Inr)
    from put_in_turn_keeps [OF put_in_turn_of_many [OF assms(1,2) this] assms(1,2), of n t] es show ?thesis by auto
  qed (use assms(3) in \<open>simp add: import_config_tree_def\<close>)
  have "length ?es = length (filter (\<lambda>(path, src). case parse_yaml np path src of Inl e \<Rightarrow> False | Inr e \<Rightarrow> \<not> startswith TRIAL_PREFIX (ce_name e)) files)"
    by (induction files) (auto simp: parse_tree_def List.map_filter_def split: sum.splits)
  then show "k = length (filter (\<lambda>(path, src). case parse_yaml np path src of Inl e \<Rightarrow> False | Inr e \<Rightarrow> \<not> startswith TRIAL_PREFIX (ce_name e)) files)"
    using assms(3) by (auto simp: import_config_tree_def Let_def bind_res_Inr split: if_splits)
qed

section \<open>Witnesses\<close>

definition demo_store :: store_env where
  "demo_store = \<lparr>se_new_id = (\<lambda>rows. CHR ''x'' # concat (map cf_id rows)), se_now = ''t'', se_environ = [''HOME'' \<mapsto> ''/root'']\<rparr>"

definition demo_conf :: "pyval dict" where
  "demo_conf = [(''agent'', PDict [(''name'', PStr ''writer''), (''dir'', PStr ''${HOME}/w''), (''model'', PStr ''${MODEL:m1}'')])]"

definition demo_file :: config_source where
  "demo_file = \<lparr>fs_size = Some 10, fs_parsed = Inr (PDict demo_conf)\<rparr>"

definition demo_entry :: config_entry where
  "demo_entry = \<lparr>ce_name = ''writer'', ce_type = ''agent'', ce_config = demo_conf, ce_schema_version = ''1.0''\<rparr>"

lemma demo_fresh: "fresh_ids demo_store"
proof -
  have "length i \<le> length (concat (map cf_id rows))" if "i \<in> cf_id ` set rows" for i rows
    using that by (induction rows) auto
  then show ?thesis unfolding fresh_ids_def demo_store_def by (metis Suc_n_not_le_n length_Cons store_env.select_convs(1))
qed

lemma demo_table: "table_ok []"
  by (simp add: table_ok_def)

lemma demo_put: "config_put demo_store ''writer'' ''agent'' demo_conf ''1.0'' [] = Inr (''x'', [fresh_row demo_store [] ''agent'' ''writer'' ''1.0'' demo_conf])"
  by (simp add: config_put_def validate_type_def VALID_TYPES_def bind_res_def demo_store_def upsert_def)

lemma demo_parsed: "parse_yaml (\<lambda>_ _. None) ''a.yaml'' demo_file = Inr demo_entry"
proof -
  have "load_yaml_file ''a.yaml'' demo_file = Inr demo_conf"
    unfolding load_yaml_file_iff
    by (simp add: demo_file_def demo_conf_def MAX_CONFIG_SIZE_def MAX_YAML_NESTING_DEPTH_def MAX_YAML_NODES_def)
  then show ?thesis
    by (simp add: parse_yaml_def bind_res_def detect_config_type_def entry_of_def demo_entry_def demo_conf_def dhas_def dget_or_def)
qed

theorem put_get_round_trip_witness:
  "config_get demo_store [fresh_row demo_store [] ''agent'' ''writer'' ''1.0'' demo_conf] ''writer'' ''agent'' =
     Inr [(''agent'', PDict [(''name'', PStr ''writer''), (''dir'', PStr ''/root/w''), (''model'', PStr ''m1'')])]"
proof -
  have "bind_res (check_schema_version ''1.0'') (\<lambda>_. substitute_items (se_environ demo_store) demo_conf) =
      Inr [(''agent'', PDict [(''name'', PStr ''writer''), (''dir'', PStr ''/root/w''), (''model'', PStr ''m1'')])]" by code_simp
  then show ?thesis using put_get_round_trip [OF demo_table demo_fresh demo_put] by simp
qed

theorem put_many_is_puts_witness:
  "\<exists>ids rows'. put_many demo_store [demo_entry, demo_entry] [] = Inr (ids, rows') \<and> put_in_turn demo_store [demo_entry, demo_entry] [] = Inr (ids, rows')"
proof -
  have "\<exists>r. put_many demo_store [demo_entry, demo_entry] [] = Inr r"
    by (simp add: put_many_def bind_res_def validate_type_def VALID_TYPES_def demo_entry_def)
  then show ?thesis using put_many_is_puts [OF demo_table demo_fresh] by (metis surj_pair)
qed

theorem config_readable_iff_witness:
  "\<exists>d. config_get demo_store [fresh_row demo_store [] ''agent'' ''writer'' ''1.0'' demo_conf] ''writer'' ''agent'' = Inr d"
proof -
  have "lookup_row [fresh_row demo_store [] ''agent'' ''writer'' ''1.0'' demo_conf] (''agent'', ''writer'') = Some (''1.0'', demo_conf)"
    by (simp add: lookup_row_def fresh_row_def)
  moreover have "list_all (resolvable (se_environ demo_store)) (vars_of_items demo_conf)" by code_simp
  ultimately show ?thesis
    using config_readable_iff [of "''agent''"] by (simp add: VALID_TYPES_def SUPPORTED_SCHEMA_VERSION_def)
qed

theorem export_import_round_trip_witness:
  "\<exists>i rows1 rows2. import_yaml demo_store (\<lambda>_ _. None) ''a.yaml'' demo_file [] = Inr (i, rows1) \<and>
     import_yaml demo_store (\<lambda>_ _. None) ''b.yaml'' \<lparr>fs_size = Some (length ''text''), fs_parsed = Inr (PDict demo_conf)\<rparr> rows1 = Inr (i, rows2) \<and>
     (\<forall>k. lookup_row rows2 k = lookup_row rows1 k)"
proof -
  let ?rows = "[fresh_row demo_store [] ''agent'' ''writer'' ''1.0'' demo_conf]"
  have i: "import_yaml demo_store (\<lambda>_ _. None) ''a.yaml'' demo_file [] = Inr (''x'', ?rows)"
    using demo_put by (simp add: import_yaml_def demo_parsed bind_res_def demo_entry_def)
  have e: "export_yaml (\<lambda>_. ''text'') (ce_name demo_entry) (ce_type demo_entry) ?rows = Inr ''text''"
    by (simp add: export_yaml_def demo_entry_def fresh_row_def)
  have "(\<lambda>_. Inr (PDict demo_conf)) ((\<lambda>_. ''text'') (ce_config demo_entry)) = Inr (PDict (ce_config demo_entry))" by (simp add: demo_entry_def)
  from export_import_round_trip [OF demo_table demo_fresh i demo_parsed this e, of demo_store "''b.yaml''"] i
  show ?thesis by (auto simp: MAX_CONFIG_SIZE_def)
qed

theorem import_tree_keeps_trials_witness:
  "\<exists>k rows'. import_config_tree demo_store (\<lambda>_ _. None) [(''a.yaml'', demo_file)] [] = Inr (k, rows') \<and> find_row rows' ''agent'' ''team-trial-1'' = None"
proof -
  have "\<exists>r. import_config_tree demo_store (\<lambda>_ _. None) [(''a.yaml'', demo_file)] [] = Inr r"
    by (simp add: import_config_tree_def parse_tree_def List.map_filter_simps demo_parsed TRIAL_PREFIX_def demo_entry_def startswith_def put_many_def
        bind_res_def validate_type_def VALID_TYPES_def Let_def split: prod.split)
  then obtain k rows' where i: "import_config_tree demo_store (\<lambda>_ _. None) [(''a.yaml'', demo_file)] [] = Inr (k, rows')" by (metis surj_pair)
  have "startswith TRIAL_PREFIX ''team-trial-1''" by (simp add: TRIAL_PREFIX_def startswith_def)
  then show ?thesis using import_tree_keeps_trials [OF demo_table demo_fresh i, of "''team-trial-1''" "''agent''"] i by auto
qed

end
