(* ===== verification/Dispatch_Validate.thy ===== *)
theory Dispatch_Validate
  imports Dispatch_Render Config_Store
begin

text \<open>
  The static check of \<open>dispatch\<close> blocks at load time, \<^verbatim>\<open>temper_ai/stage/dispatch_validation.py\<close>, and what a block that
  passes it gives when its agent fires (\<^theory_text>\<open>Dispatch_Render\<close>).

  The store is its \<open>get\<close>, or \<open>None\<close> where there is none; \<^theory_text>\<open>Config_Store\<close> has one.
\<close>

type_synonym resolver = "string \<Rightarrow> string \<Rightarrow> pyval dict res"

section \<open>The checks\<close>

definition has_jinja :: "pyval \<Rightarrow> bool" where
  "has_jinja v = (case v of PStr s \<Rightarrow> has_markers s | _ \<Rightarrow> False)"

definition last_part :: "string \<Rightarrow> string" where
  "last_part ref = last (split_on (CHR ''/'') ref)"

text \<open>Anything but \<open>ConfigNotFoundError\<close> and \<open>KeyError\<close> is inconclusive.\<close>

definition agent_ref_resolves :: "resolver \<Rightarrow> string \<Rightarrow> bool" where
  "agent_ref_resolves get_config ref =
     (case get_config (last_part ref) ''agent'' of Inr d \<Rightarrow> True | Inl e \<Rightarrow> kind_of e \<notin> {ConfigNotFoundError, KeyError})"

definition validate_for_each :: "string \<Rightarrow> pyval \<Rightarrow> string list" where
  "validate_for_each loc spec =
     (case spec of
        PNone \<Rightarrow> []
      | PBool b \<Rightarrow> [loc @ '': `for_each` must not be a bool'']
      | PList xs \<Rightarrow> []
      | PInt i \<Rightarrow> if i < 0 then [loc @ '': `for_each` int must be non-negative, got '' @ int_str i] else []
      | PStr s \<Rightarrow>
          if has_markers s then []
          else if hd (split_dot s) \<notin> {''input'', ''output'', ''structured''}
          then [loc @ '': `for_each` string must start with '' @ quoted ''input.'' @ '', '' @ quoted ''output.'' @ '', or '' @ quoted ''structured.'' @
                '' -- got '' @ repr_str s]
          else []
      | _ \<Rightarrow> [loc @ '': `for_each` must be list, int, or string path, got '' @ type_name spec])"

definition unresolved :: "resolver option \<Rightarrow> pyval \<Rightarrow> bool" where
  "unresolved config_store v =
     (case v of
        PStr (c # cs) \<Rightarrow> \<not> has_markers (c # cs) \<and>
          (case config_store of None \<Rightarrow> False | Some get_config \<Rightarrow> \<not> agent_ref_resolves get_config (c # cs))
      | _ \<Rightarrow> False)"

definition head_and_rest :: "string \<Rightarrow> string \<times> string" where
  "head_and_rest s = (takeWhile (\<lambda>c. c \<noteq> CHR ''.'') s, drop 1 (dropWhile (\<lambda>c. c \<noteq> CHR ''.'') s))"

definition source_problem :: "string \<Rightarrow> string set \<Rightarrow> string \<times> pyval \<Rightarrow> string list" where
  "source_problem loc known p =
     (case snd p of
        PStr s \<Rightarrow>
          if has_markers s \<or> CHR ''.'' \<notin> set s then []
          else (case head_and_rest s of (source_node, rest) \<Rightarrow>
            if source_node \<in> {''input'', ''workflow''} \<or> source_node \<in> known then []
            else [loc @ '': input_map['' @ repr_str (fst p) @ ''] references '' @ repr_str source_node @ ''.'' @ rest @
                  '' but no node '' @ repr_str source_node @ '' exists in the DAG or subgraph''])
      | _ \<Rightarrow> [])"

definition dep_problem :: "string \<Rightarrow> string set \<Rightarrow> nat \<times> pyval \<Rightarrow> string list" where
  "dep_problem loc known p =
     (case snd p of
        PStr dep \<Rightarrow>
          if has_markers dep \<or> dep \<in> known then []
          else [loc @ '': depends_on['' @ nat_str (fst p) @ '']='' @ repr_str dep @ '' but no such node exists'']
      | _ \<Rightarrow> [])"

definition validate_added_node :: "string \<Rightarrow> pyval dict \<Rightarrow> resolver option \<Rightarrow> string set \<Rightarrow> string list" where
  "validate_added_node loc n config_store known =
     (let node_type = dget_or n ''type'' PNone; agent_ref = dget_or n ''agent'' PNone; agents = dget_or n ''agents'' PNone
      in (case dget_or n ''name'' PNone of
            PStr s \<Rightarrow> if strip s = [] then [loc @ '': `name` must be a non-empty string''] else []
          | _ \<Rightarrow> [loc @ '': `name` must be a non-empty string'']) @
         (if node_type = PStr ''template''
          then [loc @ '': nested `type: template` inside a dispatch block is not supported in v1 -- use static workflow-level templates instead'']
          else []) @
         (if \<not> truthy agent_ref \<and> \<not> truthy agents \<and> \<not> truthy node_type
          then [loc @ '': needs `agent:`, `agents:`, or `type:` to specify what to run''] else []) @
         (if unresolved config_store agent_ref
          then [loc @ '': agent ref '' @ py_repr agent_ref @ '' not found in config store''] else []) @
         (case agents of
            PList as \<Rightarrow> concat (map (\<lambda>(k, a). if unresolved config_store a
              then [loc @ '': agents['' @ nat_str k @ ''] ref '' @ py_repr a @ '' not found in config store''] else []) (enumerate 0 as))
          | _ \<Rightarrow> []) @
         (case dget_or n ''input_map'' PNone of PDict im \<Rightarrow> concat (map (source_problem loc known) im) | _ \<Rightarrow> []) @
         (case dget_or n ''depends_on'' PNone of PList deps \<Rightarrow> concat (map (dep_problem loc known) (enumerate 0 deps)) | _ \<Rightarrow> []))"

definition validate_remove_op :: "string \<Rightarrow> pyval dict \<Rightarrow> string list" where
  "validate_remove_op loc raw_op =
     (case dget_or raw_op ''target'' PNone of
        PStr s \<Rightarrow> if strip s = [] then [loc @ '': op=remove requires a non-empty `target:` string''] else []
      | _ \<Rightarrow> [loc @ '': op=remove requires a non-empty `target:` string''])"

definition is_dict :: "pyval \<Rightarrow> bool" where
  "is_dict v = (case v of PDict d \<Rightarrow> True | _ \<Rightarrow> False)"

definition dicts_of :: "pyval list \<Rightarrow> pyval dict list" where
  "dicts_of vs = List.map_filter (\<lambda>v. case v of PDict d \<Rightarrow> Some d | _ \<Rightarrow> None) vs"

text \<open>The child dictionaries of an add, or what is wrong with them.\<close>

definition add_children :: "string \<Rightarrow> pyval dict \<Rightarrow> string + pyval dict list" where
  "add_children loc raw_op =
     (let node_spec = dget_or raw_op ''node'' PNone; nodes_spec = dget_or raw_op ''nodes'' PNone
      in if (node_spec = PNone) = (nodes_spec = PNone)
         then Inl (loc @ '' with op=add must carry exactly one of `node:` (single) or `nodes:` (list)'')
         else if node_spec \<noteq> PNone
         then (case node_spec of PDict d \<Rightarrow> Inr [d] | _ \<Rightarrow> Inl (loc @ '': `node:` must be a dict''))
         else (case nodes_spec of
                 PList (v # vs) \<Rightarrow>
                   (case find (\<lambda>(j, n). \<not> is_dict n) (enumerate 0 (v # vs)) of
                      Some (j, n) \<Rightarrow> Inl (loc @ '': `nodes['' @ nat_str j @ '']` must be a dict'')
                    | None \<Rightarrow> Inr (dicts_of (v # vs)))
               | _ \<Rightarrow> Inl (loc @ '': `nodes:` must be a non-empty list'')))"

definition plain_name :: "pyval dict \<Rightarrow> string option" where
  "plain_name n = (case dget_or n ''name'' PNone of PStr (c # cs) \<Rightarrow> if has_markers (c # cs) then None else Some (c # cs) | _ \<Rightarrow> None)"

definition validate_add_op :: "string \<Rightarrow> pyval dict \<Rightarrow> resolver option \<Rightarrow> string set \<Rightarrow> string list" where
  "validate_add_op loc raw_op config_store known =
     (case add_children loc raw_op of
        Inl why \<Rightarrow> [why]
      | Inr children \<Rightarrow>
          (let merged = known \<union> set (List.map_filter plain_name children);
               child_loc = (\<lambda>j. if dget_or raw_op ''node'' PNone = PNone then loc @ '' child['' @ nat_str j @ '']'' else loc @ '' node'')
           in concat (map (\<lambda>(j, child). validate_added_node (child_loc j) child config_store merged) (enumerate 0 children))))"

definition validate_op :: "string \<Rightarrow> nat \<Rightarrow> pyval \<Rightarrow> resolver option \<Rightarrow> string set \<Rightarrow> string list" where
  "validate_op agent_name op_idx v config_store known =
     (let loc = ''agent '' @ quoted agent_name @ '' dispatch['' @ nat_str op_idx @ '']''
      in case v of
           PDict raw_op \<Rightarrow>
             (let op_name = dget_or raw_op ''op'' PNone
              in if op_name \<notin> {PStr ''add'', PStr ''remove''}
                 then [loc @ '': `op:` must be '' @ quoted ''add'' @ '' or '' @ quoted ''remove'' @ '', got '' @ py_repr op_name]
                 else validate_for_each loc (dget_or raw_op ''for_each'' PNone) @
                      (if op_name = PStr ''add'' then validate_add_op loc raw_op config_store known else validate_remove_op loc raw_op))
         | _ \<Rightarrow> [loc @ '' must be a dict, got '' @ type_name v])"

definition name_strs :: "pyval dict list \<Rightarrow> string list" where
  "name_strs ds = List.map_filter (\<lambda>d. case dget_or d ''name'' PNone of PStr s \<Rightarrow> Some s | _ \<Rightarrow> None) ds"

definition added_names_from_op :: "pyval dict \<Rightarrow> string list" where
  "added_names_from_op raw_op =
     name_strs (case dget_or raw_op ''node'' PNone of PDict d \<Rightarrow> [d] | _ \<Rightarrow> []) @
     name_strs (case dget_or raw_op ''nodes'' PNone of PList vs \<Rightarrow> dicts_of vs | _ \<Rightarrow> [])"

text \<open>The names an operation contributes for those after it.\<close>

definition grow_known :: "pyval \<Rightarrow> string set \<Rightarrow> string set" where
  "grow_known v known =
     (case v of
        PDict raw_op \<Rightarrow>
          if dget_or raw_op ''op'' PNone = PStr ''add''
          then known \<union> set (filter (\<lambda>n. n \<noteq> [] \<and> \<not> has_markers n) (added_names_from_op raw_op)) else known
      | _ \<Rightarrow> known)"

fun validate_ops :: "string \<Rightarrow> nat \<Rightarrow> pyval list \<Rightarrow> resolver option \<Rightarrow> string set \<Rightarrow> string list" where
  "validate_ops agent_name i [] config_store known = []"
| "validate_ops agent_name i (v # vs) config_store known =
     validate_op agent_name i v config_store known @ validate_ops agent_name (i + 1) vs config_store (grow_known v known)"

definition validate_dispatch_block :: "string \<Rightarrow> pyval dict \<Rightarrow> resolver option \<Rightarrow> string set \<Rightarrow> string list" where
  "validate_dispatch_block agent_name conf config_store known =
     (case dget_or conf ''dispatch'' PNone of
        PNone \<Rightarrow> []
      | PList vs \<Rightarrow> validate_ops agent_name 0 vs config_store known
      | v \<Rightarrow> [''agent '' @ quoted agent_name @ '': `dispatch:` must be a list, got '' @ type_name v])"

section \<open>A block that passes\<close>

lemma plain_items_get: "plain_items d \<Longrightarrow> plain_val (dget_or d k PNone)"
  by (induction d) (auto simp: dget_or_def)

lemma plain_vals_all: "plain_vals xs \<longleftrightarrow> (\<forall>x \<in> set xs. plain_val x)"
  by (induction xs) auto

lemma added_node_renders:
  assumes "validate_added_node loc n store known = []" and "plain_items n"
  shows "render_node J L scope i l n = Inr n"
proof -
  obtain name where "dget_or n ''name'' PNone = PStr name" "strip name \<noteq> []"
    using assms(1) by (cases "dget_or n ''name'' PNone") (auto simp: validate_added_node_def Let_def split: if_splits)
  moreover have "truthy (dget_or n ''agent'' PNone) \<or> truthy (dget_or n ''agents'' PNone) \<or> truthy (dget_or n ''type'' PNone)"
    using assms(1) by (auto simp: validate_added_node_def Let_def split: if_splits)
  then have "dhas ''type'' n \<or> dhas ''agent'' n \<or> dhas ''agents'' n" by (auto simp: dget_or_def dhas_def split: option.splits)
  ultimately have "require_node_shape n i l = Inr ()" by (auto simp: require_node_shape_def Let_def)
  then show ?thesis using render_plain(3) [OF assms(2)] by (simp add: render_node_def deep_render_def bind_res_def)
qed

lemma enumerate_member: "x \<in> set xs \<Longrightarrow> \<exists>j. (j, x) \<in> set (enumerate k xs)"
  by (induction xs arbitrary: k) auto

lemma render_nodes_plain:
  "\<forall>n \<in> set ds. render_node J L scope i l n = Inr n \<Longrightarrow> render_nodes J L scope i l k (map PDict ds) = Inr ds"
  by (induction ds arbitrary: k) (auto simp: bind_res_def)

lemma all_dicts: "find (\<lambda>(j, n). \<not> is_dict n) (enumerate k vs) = None \<Longrightarrow> vs = map PDict (dicts_of vs)"
  by (induction vs arbitrary: k) (auto simp: is_dict_def dicts_of_def List.map_filter_simps split: pyval.splits if_splits)

text \<open>The two forms of an add.\<close>

lemma add_children_cases:
  assumes "add_children loc raw_op = Inr cs"
  obtains (single) d where "dget_or raw_op ''node'' PNone = PDict d" and "dget_or raw_op ''nodes'' PNone = PNone" and "cs = [d]"
  | (several) vs where "dget_or raw_op ''node'' PNone = PNone" and "dget_or raw_op ''nodes'' PNone = PList vs" and "vs \<noteq> []"
      and "vs = map PDict cs"
proof (cases "dget_or raw_op ''node'' PNone = PNone")
  case True
  with assms obtain v vs where vs: "dget_or raw_op ''nodes'' PNone = PList (v # vs)"
      "find (\<lambda>(j, n). \<not> is_dict n) (enumerate 0 (v # vs)) = None" "cs = dicts_of (v # vs)"
    by (auto simp: add_children_def Let_def split: if_splits pyval.splits list.splits option.splits prod.splits)
  have e: "v # vs = map PDict cs" using all_dicts [OF vs(2)] unfolding vs(3) .
  show ?thesis by (rule several [OF True vs(1) _ e]) simp
next
  case False
  with assms single show ?thesis by (auto simp: add_children_def Let_def split: if_splits pyval.splits)
qed

lemma dicts_of_map [simp]: "dicts_of (map PDict cs) = cs"
  by (induction cs) (simp_all add: dicts_of_def List.map_filter_simps)

definition children_of :: "pyval dict \<Rightarrow> pyval dict list" where
  "children_of raw_op = (case add_children [] raw_op of Inl why \<Rightarrow> [] | Inr cs \<Rightarrow> cs)"

lemma add_children_loc: "add_children loc raw_op = Inr cs \<Longrightarrow> children_of raw_op = cs"
  by (auto simp: children_of_def add_children_def Let_def split: if_splits pyval.splits list.splits option.splits prod.splits)

text \<open>An add that passes: its children are dictionaries, and each passes on its own.\<close>

lemma add_op_passes:
  assumes "validate_add_op loc raw_op store known = []"
  obtains cs where "add_children loc raw_op = Inr cs" and "cs = children_of raw_op"
    and "\<forall>c \<in> set cs. \<exists>loc'. validate_added_node loc' c store (known \<union> set (List.map_filter plain_name cs)) = []"
proof -
  obtain cs where cs: "add_children loc raw_op = Inr cs" using assms by (auto simp: validate_add_op_def split: sum.splits)
  show thesis
  proof (rule that [OF cs add_children_loc [OF cs, symmetric]], intro ballI)
    fix c assume "c \<in> set cs"
    then obtain j where "(j, c) \<in> set (enumerate 0 cs)" using enumerate_member by fast
    then show "\<exists>loc'. validate_added_node loc' c store (known \<union> set (List.map_filter plain_name cs)) = []"
      using assms cs unfolding validate_add_op_def Let_def sum.case by fastforce
  qed
qed

lemma children_plain:
  assumes "plain_items raw_op" and "c \<in> set (children_of raw_op)"
  shows "plain_items c"
proof -
  have "dget_or raw_op ''node'' PNone = PDict c \<or> (\<exists>vs. dget_or raw_op ''nodes'' PNone = PList vs \<and> PDict c \<in> set vs)"
    using assms(2) by (auto simp: children_of_def add_children_def Let_def dicts_of_def List.map_filter_def
        split: if_splits pyval.splits list.splits option.splits prod.splits)
  then show ?thesis using plain_items_get [OF assms(1), of "''node''"] plain_items_get [OF assms(1), of "''nodes''"]
    by (auto simp: plain_vals_all dest!: bspec)
qed

definition op_of :: "pyval dict \<Rightarrow> dispatch_op" where
  "op_of raw_op =
     (if dget_or raw_op ''op'' PNone = PStr ''remove''
      then \<lparr>op_op = ''remove'', op_node = None, op_nodes = [], op_target = Some (py_str (dget_or raw_op ''target'' PNone))\<rparr>
      else if dget_or raw_op ''node'' PNone = PNone
      then \<lparr>op_op = ''add'', op_node = None, op_nodes = children_of raw_op, op_target = None\<rparr>
      else \<lparr>op_op = ''add'', op_node = Some (hd (children_of raw_op)), op_nodes = [], op_target = None\<rparr>)"

lemma single_op_renders:
  assumes "validate_op agent i (PDict raw_op) store known = []" and "plain_items raw_op" and "dget_or raw_op ''op'' PNone = PStr op_name"
  shows "op_name \<in> {''add'', ''remove''}" and "render_single_op J L raw_op op_name scope k l = Inr (op_of raw_op)"
proof -
  show op: "op_name \<in> {''add'', ''remove''}" using assms(1,3) by (auto simp: validate_op_def Let_def split: if_splits)
  show "render_single_op J L raw_op op_name scope k l = Inr (op_of raw_op)"
  proof (cases "op_name = ''remove''")
    case True
    obtain t where t: "dget_or raw_op ''target'' PNone = PStr t" "strip t \<noteq> []"
      using assms(1,3) True by (auto simp: validate_op_def validate_remove_op_def Let_def split: if_splits pyval.splits)
    then have "t \<noteq> []" by (auto simp: strip_def lstrip_def)
    moreover have "\<not> has_markers t" using plain_items_get [OF assms(2), of "''target''"] t(1) by simp
    ultimately show ?thesis using True t(1) assms(3)
      by (cases t) (auto simp: render_single_op_def op_of_def render_string_leaf_def render_leaf_def bind_res_def py_str_def)
  next
    case False
    then have "validate_add_op (''agent '' @ quoted agent @ '' dispatch['' @ nat_str i @ '']'') raw_op store known = []"
      using assms(1,3) op by (auto simp: validate_op_def Let_def split: if_splits)
    then obtain cs where cs: "add_children (''agent '' @ quoted agent @ '' dispatch['' @ nat_str i @ '']'') raw_op = Inr cs" "cs = children_of raw_op"
      and each: "\<forall>c \<in> set cs. \<exists>loc'. validate_added_node loc' c store (known \<union> set (List.map_filter plain_name cs)) = []"
      by (rule add_op_passes)
    have node: "\<forall>n \<in> set cs. render_node J L scope k l n = Inr n"
      using each children_plain [OF assms(2)] cs(2) added_node_renders by blast
    show ?thesis
    proof (cases "dget_or raw_op ''node'' PNone = PNone")
      case True
      with cs(1) obtain vs where vs: "dget_or raw_op ''nodes'' PNone = PList vs" "vs = map PDict cs" "vs \<noteq> []"
        by (cases rule: add_children_cases) simp_all
      have "render_nodes J L scope k l 0 vs = Inr cs" using render_nodes_plain [OF node] vs(2) by simp
      then show ?thesis using True vs(1,3) False assms(3) cs(2)
        by (cases vs) (simp_all add: render_single_op_def op_of_def bind_res_def)
    next
      case single: False
      with cs(1) obtain d where d: "dget_or raw_op ''node'' PNone = PDict d" "cs = [d]" "dget_or raw_op ''nodes'' PNone = PNone"
        by (cases rule: add_children_cases) auto
      show ?thesis using node d False assms(3) cs(2) by (simp add: render_single_op_def op_of_def bind_res_def)
    qed
  qed
qed

text \<open>What an operation loops over, where it says so itself and not by a path.\<close>

definition loop_length :: "pyval \<Rightarrow> nat option" where
  "loop_length spec = (case spec of PNone \<Rightarrow> Some 1 | PList xs \<Rightarrow> Some (length xs) | PInt i \<Rightarrow> Some (nat i) | _ \<Rightarrow> None)"

definition as_ok :: "pyval dict \<Rightarrow> bool" where
  "as_ok raw_op = (case dget_or raw_op ''as'' (PStr ''item'') of PStr v \<Rightarrow> is_ident v | _ \<Rightarrow> False)"

lemma map_res_same: "\<forall>x \<in> set xs. f x = Inr y \<Longrightarrow> map_res f xs = Inr (replicate (length xs) y)"
  by (induction xs) auto

lemma one_op_renders:
  assumes "validate_op agent i (PDict raw_op) store known = []" and "plain_items raw_op"
    and "loop_length (dget_or raw_op ''for_each'' PNone) = Some m" and "as_ok raw_op"
  shows "render_one_op J L raw_op k scope = Inr (replicate m (op_of raw_op), [])"
proof -
  let ?spec = "dget_or raw_op ''for_each'' PNone"
  obtain op_name where n: "dget_or raw_op ''op'' PNone = PStr op_name" using assms(1) by (auto simp: validate_op_def Let_def split: if_splits)
  note single = single_op_renders [OF assms(1,2) n]
  show ?thesis
  proof (cases "?spec = PNone")
    case True
    then show ?thesis using single n assms(3) by (auto simp: render_one_op_def bind_res_def loop_length_def)
  next
    case False
    obtain v where v: "dget_or raw_op ''as'' (PStr ''item'') = PStr v" "is_ident v" using assms(4) by (auto simp: as_ok_def split: pyval.splits)
    have fe: "validate_for_each (''agent '' @ quoted agent @ '' dispatch['' @ nat_str i @ '']'') ?spec = []"
      using assms(1) n single(1) by (auto simp: validate_op_def Let_def split: if_splits)
    have "\<exists>xs. resolve_for_each_list ?spec scope k = Inr (xs, []) \<and> length xs = m"
      using assms(3) False fe by (auto simp: loop_length_def resolve_for_each_list_def validate_for_each_def ints_upto_def split: pyval.splits if_splits)
    then obtain xs where xs: "resolve_for_each_list ?spec scope k = Inr (xs, [])" "length xs = m" by blast
    have "render_rounds J L raw_op op_name scope k v xs = Inr (replicate m (op_of raw_op))"
      unfolding render_rounds_def using single(2) xs(2) by (subst map_res_same) auto
    then show ?thesis using False n v xs single(1) by (auto simp: render_one_op_def bind_res_def)
  qed
qed

fun checked_ops :: "pyval list \<Rightarrow> dispatch_op list" where
  "checked_ops [] = []"
| "checked_ops (v # vs) =
     (case v of PDict raw_op \<Rightarrow> replicate (the (loop_length (dget_or raw_op ''for_each'' PNone))) (op_of raw_op) @ checked_ops vs | _ \<Rightarrow> checked_ops vs)"

text \<open>A block whose texts hold no Jinja, whose loops are over lists or numbers, and whose loop variables are identifiers.\<close>

definition static_block :: "pyval list \<Rightarrow> bool" where
  "static_block vs \<longleftrightarrow> (\<forall>v \<in> set vs. plain_val v \<and> (case v of PDict raw_op \<Rightarrow> loop_length (dget_or raw_op ''for_each'' PNone) \<noteq> None \<and> as_ok raw_op | _ \<Rightarrow> True))"

lemma ops_render:
  "\<lbrakk>validate_ops agent i vs store known = []; static_block vs\<rbrakk> \<Longrightarrow> render_ops J L scope k vs = Inr (checked_ops vs, [])"
proof (induction vs arbitrary: i k known)
  case (Cons v vs)
  obtain raw_op where v: "v = PDict raw_op" using Cons.prems(1) by (cases v) (auto simp: validate_op_def)
  have "render_one_op J L raw_op k scope = Inr (replicate (the (loop_length (dget_or raw_op ''for_each'' PNone))) (op_of raw_op), [])"
    using Cons.prems v by (intro one_op_renders) (auto simp: static_block_def)
  moreover have "render_ops J L scope (k + 1) vs = Inr (checked_ops vs, [])"
    using Cons.prems v by (intro Cons.IH) (auto simp: static_block_def)
  ultimately show ?case using v by (simp add: bind_res_def)
qed simp

text \<open>C31: A static dispatch block that passes the check at load time renders when its agent fires, whatever the agent
  said: it gives one operation per round, in order, without an error and without a note. Static means that its texts
  hold no Jinja, that its \<open>for_each\<close> are absent, lists or numbers, and that the names its loops bind (\<open>as\<close>) are
  identifiers. Of the other blocks the check promises nothing: a \<open>for_each\<close> over \<open>output.structured.x\<close> passes and
  never renders (\<open>output_structured_path_refused\<close>), and so does a loop with \<open>as: "1x"\<close> (\<open>bad_loop_name_refused\<close>).\<close>

theorem checked_block_renders:
  assumes "validate_dispatch_block agent conf store known = []" and "dget_or conf ''dispatch'' PNone = PList vs" and "static_block vs"
  shows "render_dispatch J L conf out so inp = Inr (checked_ops vs, [])"
  using assms ops_render [of agent 0 vs store known] by (auto simp: validate_dispatch_block_def render_dispatch_def Let_def)

section \<open>References\<close>

lemma op_of_added:
  assumes "validate_op agent i (PDict raw_op) store known = []"
  shows "all_added_nodes (op_of raw_op) = (if dget_or raw_op ''op'' PNone = PStr ''add'' then children_of raw_op else [])"
proof (cases "dget_or raw_op ''op'' PNone = PStr ''add''")
  case True
  then have "validate_add_op (''agent '' @ quoted agent @ '' dispatch['' @ nat_str i @ '']'') raw_op store known = []"
    using assms by (auto simp: validate_op_def Let_def)
  then obtain cs where "add_children (''agent '' @ quoted agent @ '' dispatch['' @ nat_str i @ '']'') raw_op = Inr cs" "cs = children_of raw_op"
    by (rule add_op_passes)
  then have "dget_or raw_op ''node'' PNone = PNone \<or> children_of raw_op = [hd (children_of raw_op)]"
    by (cases rule: add_children_cases) (auto dest: sym)
  then show ?thesis using True by (auto simp: op_of_def all_added_nodes_def)
next
  case False
  then have "dget_or raw_op ''op'' PNone = PStr ''remove''" using assms by (auto simp: validate_op_def Let_def split: if_splits)
  then show ?thesis by (simp add: op_of_def all_added_nodes_def)
qed

definition named_in :: "string \<Rightarrow> pyval dict list \<Rightarrow> bool" where
  "named_in dep ns = (\<exists>n \<in> set ns. dget n ''name'' = Some (PStr dep))"

lemma plain_name_named: "dep \<in> set (List.map_filter plain_name cs) \<Longrightarrow> named_in dep cs"
  by (fastforce simp: List.map_filter_def named_in_def plain_name_def dget_or_def split: option.splits pyval.splits list.splits if_splits)

lemma added_names_named:
  assumes "dep \<in> set (added_names_from_op raw_op)" and "add_children loc raw_op = Inr cs"
  shows "named_in dep cs"
proof -
  have "added_names_from_op raw_op = name_strs cs"
    using assms(2) by (cases rule: add_children_cases) (auto simp: added_names_from_op_def name_strs_def List.map_filter_simps)
  then show ?thesis using assms(1)
    by (fastforce simp: name_strs_def named_in_def List.map_filter_def dget_or_def split: option.splits pyval.splits)
qed

text \<open>A dependency of an added node that passed is a node it was checked against.\<close>

lemma dep_known:
  assumes "validate_added_node loc n store known = []" and "dget_or n ''depends_on'' PNone = PList deps" and "PStr dep \<in> set deps" and "plain_items n"
  shows "dep \<in> known"
proof -
  obtain j where j: "(j, PStr dep) \<in> set (enumerate 0 deps)" using enumerate_member [OF assms(3)] by blast
  have "concat (map (dep_problem loc known) (enumerate 0 deps)) = []"
    using assms(1,2) by (simp add: validate_added_node_def Let_def)
  then have "dep_problem loc known (j, PStr dep) = []" using j by simp
  moreover have "plain_val (PList deps)" using plain_items_get [OF assms(4), of "''depends_on''"] assms(2) by simp
  ultimately show ?thesis using assms(3) by (auto simp: dep_problem_def plain_vals_all split: if_splits)
qed

lemma ops_refer:
  "\<lbrakk>validate_ops agent i vs store known = []; static_block vs; \<forall>v \<in> set vs. \<forall>raw_op. v = PDict raw_op \<longrightarrow> dget_or raw_op ''for_each'' PNone = PNone;
    k < length (checked_ops vs); n \<in> set (all_added_nodes (checked_ops vs ! k)); dget_or n ''depends_on'' PNone = PList deps; PStr dep \<in> set deps\<rbrakk>
   \<Longrightarrow> dep \<in> known \<or> (\<exists>j \<le> k. named_in dep (all_added_nodes (checked_ops vs ! j)))"
proof (induction vs arbitrary: i k known)
  case (Cons v vs)
  obtain raw_op where v: "v = PDict raw_op" using Cons.prems(1) by (cases v) (auto simp: validate_op_def)
  have ops: "checked_ops (v # vs) = op_of raw_op # checked_ops vs" using v Cons.prems(3) by (simp add: loop_length_def)
  have valid: "validate_op agent i (PDict raw_op) store known = []" using Cons.prems(1) v by simp
  note added = op_of_added [OF valid]
  have plain: "plain_items raw_op" using Cons.prems(2) v by (auto simp: static_block_def)
  have add: "\<exists>loc cs. add_children loc raw_op = Inr cs \<and> cs = children_of raw_op \<and>
      (\<forall>c \<in> set cs. \<exists>loc'. validate_added_node loc' c store (known \<union> set (List.map_filter plain_name cs)) = [])"
    if "dget_or raw_op ''op'' PNone = PStr ''add''"
  proof -
    have "validate_add_op (''agent '' @ quoted agent @ '' dispatch['' @ nat_str i @ '']'') raw_op store known = []"
      using valid that by (auto simp: validate_op_def Let_def)
    then show ?thesis by (rule add_op_passes) blast
  qed
  show ?case
  proof (cases k)
    case 0
    then have n: "dget_or raw_op ''op'' PNone = PStr ''add''" "n \<in> set (children_of raw_op)"
      using Cons.prems(5) ops added by (auto split: if_splits)
    obtain loc' where "validate_added_node loc' n store (known \<union> set (List.map_filter plain_name (children_of raw_op))) = []"
      using add [OF n(1)] n(2) by blast
    from dep_known [OF this Cons.prems(6,7) children_plain [OF plain n(2)]]
    have "dep \<in> known \<or> named_in dep (children_of raw_op)" using plain_name_named by blast
    then show ?thesis using ops added n(1) by auto
  next
    case (Suc k')
    have "dep \<in> grow_known v known \<or> (\<exists>j \<le> k'. named_in dep (all_added_nodes (checked_ops vs ! j)))"
      using Cons.prems ops Suc by (intro Cons.IH [of "i + 1"]) (auto simp: static_block_def)
    moreover have "named_in dep (children_of raw_op)" if "dep \<in> grow_known v known" "dep \<notin> known"
    proof -
      have "dget_or raw_op ''op'' PNone = PStr ''add''" "dep \<in> set (added_names_from_op raw_op)"
        using that v by (auto simp: grow_known_def split: if_splits)
      then show ?thesis using add added_names_named by blast
    qed
    moreover have "named_in dep (children_of raw_op) \<Longrightarrow> dep \<in> grow_known v known \<Longrightarrow> dep \<notin> known \<Longrightarrow> named_in dep (all_added_nodes (checked_ops (v # vs) ! 0))"
      using ops added v by (auto simp: grow_known_def split: if_splits)
    ultimately show ?thesis using ops Suc by (metis Suc_le_mono le0 nth_Cons_Suc)
  qed
qed simp

text \<open>What a checked block without loops adds depends only on nodes that are there: every dependency an added node
  names is a node of the graph, a node added beside it, or one an earlier operation of the block adds.
\<close>

theorem checked_block_refers_to_nodes:
  assumes "validate_dispatch_block agent conf store known = []" and "dget_or conf ''dispatch'' PNone = PList vs" and "static_block vs"
    and "\<forall>v \<in> set vs. \<forall>raw_op. v = PDict raw_op \<longrightarrow> dget_or raw_op ''for_each'' PNone = PNone"
    and "render_dispatch J L conf out so inp = Inr (ops, nts)" and "k < length ops" and "n \<in> set (all_added_nodes (ops ! k))"
    and "dget_or n ''depends_on'' PNone = PList deps" and "PStr dep \<in> set deps"
  shows "dep \<in> known \<or> (\<exists>j \<le> k. named_in dep (all_added_nodes (ops ! j)))"
proof -
  have v: "validate_ops agent 0 vs store known = []" using assms(1,2) by (simp add: validate_dispatch_block_def)
  then have "ops = checked_ops vs" using assms(2,3,5) ops_render [OF v assms(3)] by (cases vs) (auto simp: render_dispatch_def Let_def)
  then show ?thesis using ops_refer [OF v assms(3,4)] assms(6-9) by blast
qed

section \<open>What the check lets through\<close>

definition bad_loop_name :: "pyval dict" where
  "bad_loop_name = [(''dispatch'', PList [PDict [(''op'', PStr ''add''), (''for_each'', PInt 2), (''as'', PStr ''1x''),
     (''node'', PDict [(''name'', PStr ''b''), (''agent'', PStr ''w'')])]])]"

text \<open>The check does not look at \<open>as\<close>: a loop that binds \<open>1x\<close> passes it, and its rendering ends in an error.\<close>

theorem bad_loop_name_refused:
  "validate_dispatch_block ''d'' bad_loop_name None {} = [] \<and>
   (case render_dispatch (\<lambda>_ s _. Inr s) (\<lambda>_. None) bad_loop_name ''said'' None [] of Inl e \<Rightarrow> kind_of e = DispatchRenderError | Inr _ \<Rightarrow> False)"
  by code_simp

section \<open>Witnesses\<close>

definition add_after :: "string \<Rightarrow> string \<Rightarrow> pyval" where
  "add_after name dep = PDict [(''op'', PStr ''add''), (''node'', PDict [(''name'', PStr name), (''agent'', PStr ''w''), (''depends_on'', PList [PStr dep])])]"

definition demo_block :: "pyval dict" where
  "demo_block = [(''dispatch'', PList [add_after ''b'' ''a'', add_after ''c'' ''b''])]"

lemma demo_block_checked:
  "validate_dispatch_block ''d'' demo_block None {''a''} = []" "dget_or demo_block ''dispatch'' PNone = PList [add_after ''b'' ''a'', add_after ''c'' ''b'']"
  "static_block [add_after ''b'' ''a'', add_after ''c'' ''b'']"
  by code_simp+

definition demo_ops :: "dispatch_op list" where
  "demo_ops =
    [\<lparr>op_op = ''add'', op_node = Some [(''name'', PStr ''b''), (''agent'', PStr ''w''), (''depends_on'', PList [PStr ''a''])], op_nodes = [], op_target = None\<rparr>,
     \<lparr>op_op = ''add'', op_node = Some [(''name'', PStr ''c''), (''agent'', PStr ''w''), (''depends_on'', PList [PStr ''b''])], op_nodes = [], op_target = None\<rparr>]"

theorem checked_block_renders_witness:
  "render_dispatch (\<lambda>_ s _. Inr s) (\<lambda>_. None) demo_block ''said'' None [] = Inr (checked_ops [add_after ''b'' ''a'', add_after ''c'' ''b''], [])"
  by (rule checked_block_renders [OF demo_block_checked])

theorem checked_block_refers_to_nodes_witness:
  "render_dispatch (\<lambda>_ s _. Inr s) (\<lambda>_. None) demo_block ''said'' None [] = Inr (demo_ops, []) \<and>
     (''b'' \<in> {''a''} \<or> (\<exists>j \<le> 1. named_in ''b'' (all_added_nodes (demo_ops ! j))))"
proof -
  let ?vs = "[add_after ''b'' ''a'', add_after ''c'' ''b'']"
  have r: "render_dispatch (\<lambda>_ s _. Inr s) (\<lambda>_. None) demo_block ''said'' None [] = Inr (demo_ops, [])" by code_simp
  have "\<forall>v \<in> set ?vs. \<forall>raw_op. v = PDict raw_op \<longrightarrow> dget_or raw_op ''for_each'' PNone = PNone"
    by (simp add: add_after_def dget_or_def)
  from checked_block_refers_to_nodes [OF demo_block_checked this r, of 1 "[(''name'', PStr ''c''), (''agent'', PStr ''w''), (''depends_on'', PList [PStr ''b''])]"
      "[PStr ''b'']" "''b''"] r
  show ?thesis by (simp add: demo_ops_def all_added_nodes_def dget_or_def)
qed

end
