(* ===== verification/Loader.thy ===== *)
theory Loader
  imports Dispatch_Validate Topology Toposort Stage_Run Gate_Text
begin

text \<open>
  From configurations to a graph of nodes: \<open>from_dict\<close> of \<^verbatim>\<open>temper_ai/stage/models.py\<close>, the loader of
  \<^verbatim>\<open>temper_ai/stage/loader.py\<close> and the rules for Pi workflows of \<^verbatim>\<open>temper_ai/stage/pi_workflows.py\<close>.

  A field whose value has another type than \<open>NodeConfig\<close> declares is outside the model: the program keeps such a value
  and whoever reads it fails; here it is a \<open>TypeError\<close> at once. A \<open>frozenset\<close> is the list of its members. The checks some
  strategies make when a run starts are not modelled: no built-in strategy has one. The depth of the interpreter's
  stack is the number \<open>depth\<close>: a graph nested deeper raises \<open>RecursionError\<close>.
\<close>

section \<open>Reading a node's configuration\<close>

definition get_text :: "pyval dict \<Rightarrow> string \<Rightarrow> string option res" where
  "get_text d k = (case dget_or d k PNone of PNone \<Rightarrow> Inr None | PStr s \<Rightarrow> Inr (Some s) | _ \<Rightarrow> raise TypeError k)"

definition get_text_or :: "pyval dict \<Rightarrow> string \<Rightarrow> string \<Rightarrow> string res" where
  "get_text_or d k s = (case dget_or d k (PStr s) of PStr t \<Rightarrow> Inr t | _ \<Rightarrow> raise TypeError k)"

definition get_int :: "pyval dict \<Rightarrow> string \<Rightarrow> int option res" where
  "get_int d k = (case dget_or d k PNone of PNone \<Rightarrow> Inr None | PInt i \<Rightarrow> Inr (Some i) | _ \<Rightarrow> raise TypeError k)"

definition get_number :: "pyval dict \<Rightarrow> string \<Rightarrow> rat option res" where
  "get_number d k =
     (case dget_or d k PNone of PNone \<Rightarrow> Inr None | PInt i \<Rightarrow> Inr (Some (of_int i)) | PFloat q \<Rightarrow> Inr (Some q) | _ \<Rightarrow> raise TypeError k)"

definition get_dict :: "pyval dict \<Rightarrow> string \<Rightarrow> pyval dict option res" where
  "get_dict d k = (case dget_or d k PNone of PNone \<Rightarrow> Inr None | PDict e \<Rightarrow> Inr (Some e) | _ \<Rightarrow> raise TypeError k)"

definition get_list :: "pyval dict \<Rightarrow> string \<Rightarrow> pyval list option res" where
  "get_list d k = (case dget_or d k PNone of PNone \<Rightarrow> Inr None | PList xs \<Rightarrow> Inr (Some xs) | _ \<Rightarrow> raise TypeError k)"

definition text_list :: "string \<Rightarrow> pyval list \<Rightarrow> string list res" where
  "text_list k vs = map_res (\<lambda>v. case v of PStr s \<Rightarrow> Inr s | _ \<Rightarrow> raise TypeError k) vs"

definition get_texts :: "pyval dict \<Rightarrow> string \<Rightarrow> string list option res" where
  "get_texts d k =
     bind_res (get_list d k) (\<lambda>vs. case vs of None \<Rightarrow> Inr None | Some xs \<Rightarrow> bind_res (text_list k xs) (\<lambda>ss. Inr (Some ss)))"

definition get_flag :: "pyval dict \<Rightarrow> string \<Rightarrow> bool res" where
  "get_flag d k = (case dget_or d k (PBool False) of PBool b \<Rightarrow> Inr b | _ \<Rightarrow> raise TypeError k)"

text \<open>\<open>_names\<close>: one name, or a list of them.\<close>

definition names_of :: "pyval \<Rightarrow> string list option res" where
  "names_of v =
     (case v of PNone \<Rightarrow> Inr None | PStr s \<Rightarrow> Inr (Some [s]) | _ \<Rightarrow> bind_res (py_iter v) (\<lambda>vs. Inr (Some (map py_str vs))))"

definition identity_fields :: "pyval dict \<Rightarrow> node_config \<Rightarrow> node_config res" where
  "identity_fields d nc =
     bind_res (get_text_or d ''type'' ''agent'') (\<lambda>t. bind_res (get_text d ''agent'') (\<lambda>a. bind_res (get_text d ''strategy'') (\<lambda>s.
     bind_res (case dget_or d ''strategy_config'' (PDict []) of PDict sc \<Rightarrow> Inr sc | _ \<Rightarrow> raise TypeError ''strategy_config'') (\<lambda>sc.
     bind_res (get_list d ''agents'') (\<lambda>as. bind_res (get_text d ''ref'') (\<lambda>r.
       Inr (nc\<lparr>nc_type := t, nc_agent := a, nc_strategy := s, nc_strategy_config := sc, nc_agents := as, nc_ref := r\<rparr>)))))))"

definition graph_fields :: "pyval dict \<Rightarrow> node_config \<Rightarrow> node_config res" where
  "graph_fields d nc =
     bind_res (case dget_or d ''depends_on'' (PList []) of PList vs \<Rightarrow> text_list ''depends_on'' vs | _ \<Rightarrow> raise TypeError ''depends_on'') (\<lambda>deps.
     bind_res (get_dict d ''condition'') (\<lambda>cond. bind_res (get_text d ''loop_to'') (\<lambda>loop.
     bind_res (case dget_or d ''max_loops'' (PInt 1) of PInt i \<Rightarrow> Inr i | _ \<Rightarrow> raise TypeError ''max_loops'') (\<lambda>ml.
     bind_res (get_dict d ''loop_condition'') (\<lambda>lc. bind_res (get_text_or d ''on_max_loops'' ''silent'') (\<lambda>oml.
       Inr (nc\<lparr>nc_depends_on := deps, nc_condition := cond, nc_loop_to := loop, nc_max_loops := ml, nc_loop_condition := lc, nc_on_max_loops := oml,
               nc_run_after_failure := truthy (dget_or d ''run_after_failure'' (PBool False))\<rparr>)))))))"

definition policy_fields :: "pyval dict \<Rightarrow> node_config \<Rightarrow> node_config res" where
  "policy_fields d nc =
     bind_res (names_of (dget_or d ''undoes'' PNone)) (\<lambda>un. bind_res (get_list d ''required_files'') (\<lambda>rf.
     bind_res (names_of (dget_or d ''renamed_from'' PNone)) (\<lambda>ren. bind_res (get_int d ''timeout_seconds'') (\<lambda>ts.
     bind_res (get_flag d ''gate'') (\<lambda>g. bind_res (get_texts d ''skip_policies'') (\<lambda>sp.
       Inr (nc\<lparr>nc_undoes := un, nc_on_failure := dget_or d ''on_failure'' PNone, nc_required_files := rf, nc_renamed_from := ren,
               nc_timeout_seconds := ts, nc_gate := g, nc_skip_policies := sp\<rparr>)))))))"

definition mapping_fields :: "pyval dict \<Rightarrow> node_config \<Rightarrow> node_config res" where
  "mapping_fields d nc =
     bind_res (get_dict d ''input_map'') (\<lambda>im. bind_res (get_dict d ''inputs'') (\<lambda>ins. bind_res (get_dict d ''outputs'') (\<lambda>outs.
       Inr (nc\<lparr>nc_input_map := im, nc_inputs := ins, nc_outputs := outs\<rparr>))))"

definition override_fields :: "pyval dict \<Rightarrow> node_config \<Rightarrow> node_config res" where
  "override_fields d nc =
     bind_res (get_text d ''task_template'') (\<lambda>tt. bind_res (get_text d ''system_prompt'') (\<lambda>sp. bind_res (get_text d ''role'') (\<lambda>ro.
     bind_res (get_text d ''model'') (\<lambda>mo. bind_res (get_text d ''provider'') (\<lambda>pr. bind_res (get_number d ''temperature'') (\<lambda>te.
     bind_res (get_int d ''max_tokens'') (\<lambda>mt. bind_res (get_int d ''token_budget'') (\<lambda>tb. bind_res (get_texts d ''tools'') (\<lambda>tl.
     bind_res (get_dict d ''memory'') (\<lambda>me.
       Inr (nc\<lparr>nc_task_template := tt, nc_system_prompt := sp, nc_role := ro, nc_model := mo, nc_provider := pr, nc_temperature := te,
               nc_max_tokens := mt, nc_token_budget := tb, nc_tools := tl, nc_memory := me\<rparr>)))))))))))"

definition own_fields :: "pyval dict \<Rightarrow> node_config res" where
  "own_fields d =
     (case dget d ''name'' of
        None \<Rightarrow> raise KeyError ''name''
      | Some (PStr n) \<Rightarrow>
          bind_res (identity_fields d (default_config n)) (\<lambda>nc. bind_res (graph_fields d nc) (\<lambda>nc.
          bind_res (policy_fields d nc) (\<lambda>nc. bind_res (mapping_fields d nc) (\<lambda>nc. override_fields d nc))))
      | Some _ \<Rightarrow> raise TypeError ''name'')"

lemma size_dget: "dget_or d k PNone = PList vs \<Longrightarrow> size_list size vs < size (PDict d)"
  by (induction d) (auto simp: dget_or_def split: option.splits if_splits)

function from_dict :: "pyval dict \<Rightarrow> config_tree res"
  and from_dicts :: "pyval list \<Rightarrow> config_tree list res" where
  "from_dict d =
     bind_res (case dget_or d ''nodes'' PNone of
                 PNone \<Rightarrow> Inr None
               | PList vs \<Rightarrow> if vs = [] then Inr None else bind_res (from_dicts vs) (\<lambda>ts. Inr (Some ts))
               | _ \<Rightarrow> raise TypeError ''nodes'') (\<lambda>nodes.
     bind_res (own_fields d) (\<lambda>nc. Inr (ConfigTree nc nodes)))"
| "from_dicts [] = Inr []"
| "from_dicts (v # vs) =
     (case v of
        PDict d \<Rightarrow> bind_res (from_dict d) (\<lambda>t. bind_res (from_dicts vs) (\<lambda>ts. Inr (t # ts)))
      | _ \<Rightarrow> raise TypeError ''nodes'')"
  by pat_completeness auto
termination
  by (relation "measure (\<lambda>x. case x of Inl d \<Rightarrow> size (PDict d) | Inr vs \<Rightarrow> size_list size vs)") (auto dest: size_dget)

declare from_dict.simps [simp del]

definition workflow_from_dict :: "pyval dict \<Rightarrow> workflow_config res" where
  "workflow_from_dict d =
     bind_res (case dget_or d ''nodes'' (PList []) of PList vs \<Rightarrow> from_dicts vs | _ \<Rightarrow> raise TypeError ''nodes'') (\<lambda>nodes.
     bind_res (case dget d ''name'' of None \<Rightarrow> raise KeyError ''name'' | Some (PStr n) \<Rightarrow> Inr n | _ \<Rightarrow> raise TypeError ''name'') (\<lambda>n.
     bind_res (get_text_or d ''description'' []) (\<lambda>de. bind_res (get_text_or d ''version'' ''1.0'') (\<lambda>ve.
     bind_res (get_dict d ''inputs'') (\<lambda>ins. bind_res (get_dict d ''outputs'') (\<lambda>outs. bind_res (get_dict d ''safety'') (\<lambda>sa.
     bind_res (get_dict d ''memory'') (\<lambda>me. bind_res (get_dict d ''defaults'') (\<lambda>df.
       Inr \<lparr>wf_name = n, wf_description = de, wf_version = ve, wf_nodes = nodes, wf_inputs = ins, wf_outputs = outs, wf_safety = sa, wf_memory = me,
            wf_defaults = df, wf_on_failure = dget_or d ''on_failure'' PNone, wf_notify = dget_or d ''notify'' PNone,
            wf_starts_runs = (dget_or d ''starts_runs'' PNone = PBool True)\<rparr>)))))))))"

section \<open>The fields of a node, by name\<close>

definition opt_of :: "('a \<Rightarrow> pyval) \<Rightarrow> 'a option \<Rightarrow> pyval" where
  "opt_of f x = (case x of None \<Rightarrow> PNone | Some v \<Rightarrow> f v)"

abbreviation texts :: "string list \<Rightarrow> pyval" where "texts ss \<equiv> PList (map PStr ss)"

text \<open>\<open>vars(nc)\<close> without \<open>nodes\<close> and \<open>_KNOWN_FIELDS\<close>, in the order the class declares them.\<close>

definition all_fields :: "node_config \<Rightarrow> pyval dict" where
  "all_fields nc =
     [(''name'', PStr (nc_name nc)), (''type'', PStr (nc_type nc)), (''agent'', opt_of PStr (nc_agent nc)), (''strategy'', opt_of PStr (nc_strategy nc)),
      (''strategy_config'', PDict (nc_strategy_config nc)), (''agents'', opt_of PList (nc_agents nc)), (''ref'', opt_of PStr (nc_ref nc)),
      (''depends_on'', texts (nc_depends_on nc)), (''condition'', opt_of PDict (nc_condition nc)), (''loop_to'', opt_of PStr (nc_loop_to nc)),
      (''max_loops'', PInt (nc_max_loops nc)), (''loop_condition'', opt_of PDict (nc_loop_condition nc)), (''on_max_loops'', PStr (nc_on_max_loops nc)),
      (''run_after_failure'', PBool (nc_run_after_failure nc)), (''undoes'', opt_of texts (nc_undoes nc)), (''on_failure'', nc_on_failure nc),
      (''required_files'', opt_of PList (nc_required_files nc)), (''renamed_from'', opt_of texts (nc_renamed_from nc)),
      (''timeout_seconds'', opt_of PInt (nc_timeout_seconds nc)), (''gate'', PBool (nc_gate nc)), (''skip_policies'', opt_of texts (nc_skip_policies nc)),
      (''input_map'', opt_of PDict (nc_input_map nc)), (''inputs'', opt_of PDict (nc_inputs nc)), (''outputs'', opt_of PDict (nc_outputs nc)),
      (''task_template'', opt_of PStr (nc_task_template nc)), (''system_prompt'', opt_of PStr (nc_system_prompt nc)), (''role'', opt_of PStr (nc_role nc)),
      (''model'', opt_of PStr (nc_model nc)), (''provider'', opt_of PStr (nc_provider nc)), (''temperature'', opt_of PFloat (nc_temperature nc)),
      (''max_tokens'', opt_of PInt (nc_max_tokens nc)), (''token_budget'', opt_of PInt (nc_token_budget nc)), (''tools'', opt_of texts (nc_tools nc)),
      (''memory'', opt_of PDict (nc_memory nc))]"

definition KNOWN_FIELDS :: "string list" where
  "KNOWN_FIELDS = [''name'', ''type'', ''agent'', ''strategy'', ''strategy_config'', ''agents'', ''nodes'', ''ref'', ''depends_on'', ''condition'',
     ''loop_to'', ''max_loops'', ''loop_condition'', ''on_max_loops'', ''run_after_failure'', ''undoes'', ''on_failure'', ''required_files'', ''renamed_from'',
     ''timeout_seconds'', ''gate'', ''skip_policies'', ''input_map'', ''inputs'', ''outputs'', ''task_template'', ''system_prompt'', ''role'', ''model'',
     ''provider'', ''temperature'', ''max_tokens'', ''token_budget'', ''tools'', ''memory'']"

definition NODE_FIELDS :: "string list" where
  "NODE_FIELDS = [''name'', ''type'', ''agent'', ''strategy'', ''strategy_config'', ''agents'', ''nodes'', ''ref'', ''depends_on'', ''condition'',
     ''loop_to'', ''max_loops'', ''input_map'', ''inputs'', ''outputs'']"

definition SINGLE_CALL_NODE_FIELDS :: "string list" where
  "SINGLE_CALL_NODE_FIELDS = NODE_FIELDS @ [''loop_condition'', ''on_max_loops'', ''run_after_failure'', ''undoes'', ''on_failure'', ''required_files'',
     ''renamed_from'', ''timeout_seconds'', ''gate'', ''skip_policies'', ''_KNOWN_FIELDS'']"

definition node_overrides :: "string list \<Rightarrow> node_config \<Rightarrow> pyval dict" where
  "node_overrides node_fields nc =
     filter (\<lambda>p. snd p \<noteq> PNone \<and> fst p \<notin> set node_fields) (all_fields nc @ [(''_KNOWN_FIELDS'', texts KNOWN_FIELDS)])"

section \<open>The loader\<close>

record loader =
  ld_config_store :: "resolver option"
  ld_overrides :: "pyval dict"
  ld_registry :: topology_registry
  ld_no_llm_settings :: "string \<Rightarrow> bool"
  ld_single_call_errors :: "pyval dict \<Rightarrow> string list"
  ld_jinja :: jinja
  ld_json :: json

definition WORKFLOW_ONLY_DEFAULTS :: "string list" where "WORKFLOW_ONLY_DEFAULTS = [''dispatch'', ''safety'']"

definition LLM_SETTINGS :: "string list" where
  "LLM_SETTINGS = [''provider'', ''model'', ''temperature'', ''max_tokens'', ''fallback'', ''token'']"

definition agent_defaults :: "pyval dict \<Rightarrow> pyval dict" where
  "agent_defaults defaults = filter (\<lambda>p. fst p \<notin> set WORKFLOW_ONLY_DEFAULTS) defaults"

definition agent_type :: "pyval dict \<Rightarrow> pyval dict \<Rightarrow> pyval" where
  "agent_type defaults mine = py_or (dget_or mine ''type'' PNone) (py_or (dget_or defaults ''type'' PNone) (PStr ''llm''))"

definition takes_no_llm_settings :: "loader \<Rightarrow> pyval dict \<Rightarrow> pyval dict \<Rightarrow> bool" where
  "takes_no_llm_settings ld defaults mine = (case agent_type defaults mine of PStr t \<Rightarrow> ld_no_llm_settings ld t | _ \<Rightarrow> False)"

definition merge_agent_config :: "loader \<Rightarrow> pyval dict \<Rightarrow> pyval dict \<Rightarrow> pyval dict" where
  "merge_agent_config ld defaults mine =
     (let kept = (\<lambda>d. if takes_no_llm_settings ld defaults mine then filter (\<lambda>p. fst p \<notin> set LLM_SETTINGS) d else d)
      in dmerge (dmerge (kept defaults) mine) (kept (ld_overrides ld)))"

definition unwrap_config :: "pyval dict \<Rightarrow> string \<Rightarrow> pyval dict" where
  "unwrap_config raw t = (case dget raw t of Some (PDict d) \<Rightarrow> d | _ \<Rightarrow> raw)"

definition load_or_fail :: "loader \<Rightarrow> string \<Rightarrow> string \<Rightarrow> string \<Rightarrow> pyval dict res" where
  "load_or_fail ld what ref t =
     (case ld_config_store ld of
        None \<Rightarrow> raise LoaderError (''Cannot resolve '' @ what @ quoted ref @ '': no config store available'')
      | Some get_config \<Rightarrow>
          (case get_config (last_part ref) t of
             Inr raw \<Rightarrow> Inr (unwrap_config raw t)
           | Inl e \<Rightarrow> if kind_of e = LoaderError then Inl e
                      else raise LoaderError (''Failed to load '' @ t @ '' config '' @ quoted ref @ '': '' @ exn_str e)))"

definition load_agent_config :: "loader \<Rightarrow> string \<Rightarrow> pyval dict res" where
  "load_agent_config ld ref = load_or_fail ld ''agent ref '' ref ''agent''"

definition load_config :: "loader \<Rightarrow> string \<Rightarrow> string \<Rightarrow> pyval dict res" where
  "load_config ld ref t = load_or_fail ld ''ref '' ref t"

definition strip_graph_metadata :: "pyval dict \<Rightarrow> pyval dict" where
  "strip_graph_metadata conf = filter (\<lambda>p. fst p \<notin> {''version'', ''description'', ''defaults''}) conf"

definition explicit_type :: "string \<Rightarrow> string option" where
  "explicit_type ref =
     (case split_on (CHR ''/'') ref of
        p # _ # _ \<Rightarrow> map_of [(''stages'', ''stage''), (''stage'', ''stage''), (''workflows'', ''workflow''), (''workflow'', ''workflow'')] p
      | _ \<Rightarrow> None)"

definition load_referenced_graph :: "loader \<Rightarrow> string \<Rightarrow> pyval dict res" where
  "load_referenced_graph ld ref =
     (case explicit_type ref of
        Some t \<Rightarrow> bind_res (load_config ld ref t) (\<lambda>c. Inr (strip_graph_metadata c))
      | None \<Rightarrow>
          (case load_config ld ref ''stage'' of
             Inr c \<Rightarrow> Inr (strip_graph_metadata c)
           | Inl e \<Rightarrow>
               (case load_config ld ref ''workflow'' of
                  Inr c \<Rightarrow> Inr (strip_graph_metadata c)
                | Inl _ \<Rightarrow> raise LoaderError (''Cannot resolve ref '' @ quoted ref @ '': no stage or workflow config by that name. ('' @ exn_str e @ '')''))))"

definition explicit_fields :: "node_config \<Rightarrow> pyval dict" where
  "explicit_fields nc =
     filter (\<lambda>p. fst p \<notin> {''ref'', ''name''} \<and> snd p \<noteq> PNone \<and> \<not> py_eq (snd p) (dget_or (all_fields (default_config (nc_name nc))) (fst p) PNone))
       (all_fields nc)"

text \<open>
  \<open>_resolve_ref\<close>: only fields that differ from their defaults override the referenced graph. Child nodes of the node
  itself are configurations already and stay as they are.
\<close>

definition resolve_ref :: "loader \<Rightarrow> string \<Rightarrow> config_tree \<Rightarrow> config_tree res" where
  "resolve_ref ld ref t =
     bind_res (load_referenced_graph ld ref) (\<lambda>ref_config.
       (let merged = dset ''name'' (PStr (nc_name (tree_config t))) (dmerge ref_config (explicit_fields (tree_config t)))
        in case tree_nodes t of
             None \<Rightarrow> from_dict merged
           | Some ts \<Rightarrow> bind_res (from_dict (dset ''nodes'' PNone merged)) (\<lambda>r. Inr (ConfigTree (tree_config r) (Some ts)))))"

text \<open>\<open>_resolve_agent_config\<close>\<close>

definition resolve_agent_config :: "loader \<Rightarrow> pyval dict \<Rightarrow> node_config \<Rightarrow> pyval dict res" where
  "resolve_agent_config ld defaults nc =
     bind_res (case nc_agent nc of Some (c # cs) \<Rightarrow> load_agent_config ld (c # cs) | _ \<Rightarrow> Inr []) (\<lambda>base.
       (let node_fields = (if dget_or base ''type'' PNone = PStr ''single_call'' then SINGLE_CALL_NODE_FIELDS else NODE_FIELDS);
            merged = merge_agent_config ld (agent_defaults defaults) (dmerge base (node_overrides node_fields nc))
        in Inr (if dhas ''name'' merged then merged else merged @ [(''name'', PStr (nc_name nc))])))"

definition resolve_member :: "loader \<Rightarrow> pyval dict \<Rightarrow> string \<Rightarrow> pyval \<Rightarrow> pyval dict res" where
  "resolve_member ld defaults stage v =
     bind_res
       (case v of
          PStr ref \<Rightarrow> bind_res (load_agent_config ld ref) (\<lambda>mine. Inr (merge_agent_config ld defaults mine))
        | PDict d \<Rightarrow>
            if dhas ''agent'' d \<or> dhas ''ref'' d
            then (case py_or (dget_or d ''agent'' PNone) (py_or (dget_or d ''ref'' PNone) (PStr [])) of
                    PStr ref \<Rightarrow> bind_res (load_agent_config ld ref) (\<lambda>base.
                      Inr (merge_agent_config ld defaults (dmerge base (filter (\<lambda>p. fst p \<notin> {''agent'', ''ref''}) d))))
                  | w \<Rightarrow> raise AttributeError (quoted (type_name w) @ '' object has no attribute '' @ quoted ''split''))
            else Inr (merge_agent_config ld defaults d)
        | _ \<Rightarrow> raise LoaderError (''Invalid agent entry in stage '' @ quoted stage @ '': '' @ py_str v))
       (\<lambda>conf. Inr (if dhas ''name'' conf then conf
                    else conf @ [(''name'', case v of PStr ref \<Rightarrow> PStr ref | _ \<Rightarrow> PStr ''unnamed'')]))"

text \<open>The first name that comes twice.\<close>

fun repeated_name :: "string set \<Rightarrow> pyval dict list \<Rightarrow> string option res" where
  "repeated_name seen [] = Inr None"
| "repeated_name seen (c # cs) =
     bind_res (conf_name c) (\<lambda>n. if n \<in> seen then Inr (Some n) else repeated_name (insert n seen) cs)"

definition resolve_strategy_stage :: "loader \<Rightarrow> pyval dict \<Rightarrow> node_config \<Rightarrow> pyval list \<Rightarrow> node res" where
  "resolve_strategy_stage ld defaults nc as =
     (case nc_strategy nc of
        Some (c # cs) \<Rightarrow>
          bind_res (map_res (resolve_member ld (agent_defaults defaults) (nc_name nc)) as) (\<lambda>confs.
          bind_res (repeated_name {} confs) (\<lambda>twice.
            case twice of
              Some n \<Rightarrow> raise LoaderError (''Stage '' @ quoted (nc_name nc) @ '' uses the agent name '' @ quoted n @ '' more than once. '' @
                  ''Give each entry a distinct `name:`, e.g. `- agent: '' @ n @ ''` + `  name: '' @ n @ ''_2`.'')
            | None \<Rightarrow> bind_res (build_topology (ld_registry ld) (c # cs) confs (nc_strategy_config nc)) (\<lambda>children. Inr (stage_node nc children))))
      | _ \<Rightarrow> raise ValidationError (''Stage '' @ quoted (nc_name nc) @ '' has '' @ quoted ''agents'' @ '' but no '' @ quoted ''strategy'' @
               ''. Specify a strategy ('' @ join '', '' (named_strategies (ld_registry ld)) @ '').''))"

fun resolve_node :: "loader \<Rightarrow> pyval dict \<Rightarrow> nat \<Rightarrow> config_tree \<Rightarrow> node res"
  and resolve_nodes :: "loader \<Rightarrow> pyval dict \<Rightarrow> nat \<Rightarrow> config_tree list \<Rightarrow> node list res" where
  "resolve_node ld defaults 0 t = raise RecursionError ''maximum recursion depth exceeded''"
| "resolve_node ld defaults (Suc depth) t =
     bind_res (case nc_ref (tree_config t) of Some (c # cs) \<Rightarrow> resolve_ref ld (c # cs) t | _ \<Rightarrow> Inr t) (\<lambda>t.
       (let nc = tree_config t
        in if nc_type nc = ''agent''
           then bind_res (resolve_agent_config ld defaults nc) (\<lambda>conf. Inr (agent_node nc conf))
           else if nc_type nc = ''stage''
           then (case (nc_agents nc, tree_nodes t) of
                   (Some as, Some ts) \<Rightarrow> raise ValidationError (''Stage '' @ quoted (nc_name nc) @ '' has both '' @ quoted ''agents'' @ '' and '' @
                       quoted ''nodes'' @ ''. Use agents + strategy OR nodes, not both.'')
                 | (None, None) \<Rightarrow> raise ValidationError (''Stage '' @ quoted (nc_name nc) @ '' needs either '' @ quoted ''agents'' @ '' + '' @
                       quoted ''strategy'' @ '' or '' @ quoted ''nodes'' @ ''.'')
                 | (Some as, None) \<Rightarrow> resolve_strategy_stage ld defaults nc as
                 | (None, Some ts) \<Rightarrow> bind_res (resolve_nodes ld defaults depth ts) (\<lambda>children. Inr (stage_node nc children)))
           else raise LoaderError (''Unknown node type: '' @ quoted (nc_type nc) @ '' for node '' @ quoted (nc_name nc))))"
| "resolve_nodes ld defaults depth [] = Inr []"
| "resolve_nodes ld defaults depth (t # ts) =
     bind_res (resolve_node ld defaults depth t) (\<lambda>n. bind_res (resolve_nodes ld defaults depth ts) (\<lambda>ns. Inr (n # ns)))"

section \<open>Validation\<close>

text \<open>The head of a condition's source, when it has a dot: \<open>None\<close> where there is nothing to check.\<close>

definition source_head :: "pyval dict \<Rightarrow> string option res" where
  "source_head cond =
     (case dget_or cond ''source'' (PStr []) of
        PStr s \<Rightarrow> Inr (if CHR ''.'' \<in> set s \<and> hd (split_dot s) \<noteq> [] then Some (hd (split_dot s)) else None)
      | PList xs \<Rightarrow> if PStr ''.'' \<in> set xs then raise AttributeError (quoted ''list'' @ '' object has no attribute '' @ quoted ''split'') else Inr None
      | PDict d \<Rightarrow> if dhas ''.'' d then raise AttributeError (quoted ''dict'' @ '' object has no attribute '' @ quoted ''split'') else Inr None
      | v \<Rightarrow> raise TypeError (''argument of type '' @ quoted (type_name v) @ '' is not iterable''))"

definition condition_problems :: "string \<Rightarrow> string \<Rightarrow> string list \<Rightarrow> pyval dict option \<Rightarrow> string list res" where
  "condition_problems name what names cond =
     (case cond of
        Some (c # cs) \<Rightarrow> bind_res (source_head (c # cs)) (\<lambda>h.
          Inr (case h of
                 Some x \<Rightarrow> if x \<in> set names then []
                           else [''Node '' @ quoted name @ '' '' @ what @ '' references '' @ quoted x @ '' which doesn'' @ [CHR 0x27] @ ''t exist'']
               | None \<Rightarrow> []))
      | _ \<Rightarrow> Inr [])"

definition input_map_problem :: "string \<Rightarrow> string list \<Rightarrow> string \<times> pyval \<Rightarrow> string list" where
  "input_map_problem name names p =
     (case snd p of
        PStr s \<Rightarrow>
          (case split_dot s of
             h # _ # _ \<Rightarrow>
               if looks_like_node_ref s \<and> h \<notin> {''workflow'', ''input''} \<and> h \<notin> set names
               then [''Node '' @ quoted name @ '' input_map '' @ quoted (fst p) @ '' references '' @ quoted h @ '' which doesn'' @ [CHR 0x27] @
                     ''t exist. Available nodes: '' @ py_repr (texts (sort (remdups names)))]
               else []
           | _ \<Rightarrow> [])
      | _ \<Rightarrow> [])"

definition validate_dispatch_on_node :: "loader \<Rightarrow> string list \<Rightarrow> node \<Rightarrow> string list" where
  "validate_dispatch_on_node ld names n =
     (if \<not> truthy (dget_or (agent_config n) ''dispatch'' PNone) then []
      else validate_dispatch_block (name_of n) (agent_config n) (ld_config_store ld) (set names))"

definition agent_problems :: "loader \<Rightarrow> string list \<Rightarrow> node \<Rightarrow> string list" where
  "agent_problems ld names n =
     (if node_kind n \<noteq> AgentNode then []
      else (if dget_or (agent_config n) ''type'' PNone = PStr ''single_call''
            then map (\<lambda>e. ''Node '' @ quoted (name_of n) @ '': '' @ e) (ld_single_call_errors ld (agent_config n)) else []) @
           validate_dispatch_on_node ld names n)"

definition missing :: "string \<Rightarrow> string \<Rightarrow> string \<Rightarrow> string" where
  "missing name what target = ''Node '' @ quoted name @ what @ quoted target @ '' doesn'' @ [CHR 0x27] @ ''t exist''"

definition node_problems :: "loader \<Rightarrow> string list \<Rightarrow> node \<Rightarrow> string list res" where
  "node_problems ld names n =
     (let nc = config n; name = nc_name nc;
          deps = map (\<lambda>d. ''Node '' @ quoted name @ '' depends on '' @ quoted d @ '' which doesn'' @ [CHR 0x27] @ ''t exist'')
            (filter (\<lambda>d. d \<notin> set names) (nc_depends_on nc));
          loop = (case nc_loop_to nc of Some (c # cs) \<Rightarrow> if c # cs \<in> set names then [] else [missing name '' loop_to target '' (c # cs)] | _ \<Rightarrow> [])
      in bind_res (condition_problems name ''condition'' names (nc_condition nc)) (\<lambda>cond.
         bind_res (condition_problems name ''loop_condition'' names (nc_loop_condition nc)) (\<lambda>lcond.
           Inr (deps @ loop @ cond @ lcond @ concat (map (input_map_problem name names) (case nc_input_map nc of None \<Rightarrow> [] | Some m \<Rightarrow> m)) @
                agent_problems ld names n))))"

fun validate_graph :: "loader \<Rightarrow> string list \<Rightarrow> node list \<Rightarrow> string list res" where
  "validate_graph ld names [] = Inr []"
| "validate_graph ld names (Node kind nc conf children fs # ns) =
     bind_res (node_problems ld names (Node kind nc conf children fs)) (\<lambda>mine.
     bind_res (if kind = StageNode then validate_graph ld (map name_of children) children else Inr []) (\<lambda>inner.
     bind_res (validate_graph ld names ns) (\<lambda>rest. Inr (mine @ inner @ rest))))"

definition validate :: "loader \<Rightarrow> node list \<Rightarrow> string list res" where
  "validate ld nodes = validate_graph ld (map name_of nodes) nodes"

section \<open>Pi workflows\<close>

definition PI_AGENT_TYPE :: string where "PI_AGENT_TYPE = ''pi''"
definition PI_LOOP_POLICY :: string where "PI_LOOP_POLICY = ''fail''"

fun walk_all :: "node list \<Rightarrow> node list" where
  "walk_all [] = []"
| "walk_all (Node kind nc conf children fs # ns) = Node kind nc conf children fs # walk_all children @ walk_all ns"

definition is_pi_workflow :: "node list \<Rightarrow> bool" where
  "is_pi_workflow nodes = list_ex (\<lambda>n. list_ex (\<lambda>conf. dget_or conf ''type'' PNone = PStr PI_AGENT_TYPE) (agent_configs n)) nodes"

definition pi_loop_problem :: "node \<Rightarrow> string list" where
  "pi_loop_problem n =
     (case nc_loop_to (config n) of
        Some (c # cs) \<Rightarrow>
          (let policy = (if nc_on_max_loops (config n) = [] then ''silent'' else nc_on_max_loops (config n))
           in if policy = PI_LOOP_POLICY then []
              else [''Node '' @ quoted (name_of n) @ '' loops back to '' @ quoted (c # cs) @ '' with on_max_loops: '' @ policy @
                    ''. In a workflow with a Pi step every loop must say on_max_loops: fail, so running out of rounds stops the run red '' @
                    ''instead of letting it count as done.''])
      | _ \<Rightarrow> [])"

definition pi_loop_problems :: "node list \<Rightarrow> string list" where
  "pi_loop_problems nodes = (if is_pi_workflow nodes then concat (map pi_loop_problem (walk_all nodes)) else [])"

section \<open>Loading a workflow\<close>

definition expand_or_fail :: "loader \<Rightarrow> pyval dict \<Rightarrow> pyval dict option \<Rightarrow> pyval dict res" where
  "expand_or_fail ld raw inputs =
     (case expand_templates (ld_jinja ld) (ld_json ld) raw inputs of
        Inl e \<Rightarrow> if kind_of e = TemplateExpansionError then raise LoaderError (''template expansion failed: '' @ exn_str e) else Inl e
      | Inr r \<Rightarrow> Inr r)"

definition resolve_workflow :: "loader \<Rightarrow> nat \<Rightarrow> string \<Rightarrow> pyval dict option \<Rightarrow> (node list \<times> workflow_config) res" where
  "resolve_workflow ld depth ref inputs =
     bind_res (load_config ld ref ''workflow'') (\<lambda>raw.
     bind_res (expand_or_fail ld raw (map_option (\<lambda>i. fill_input_defaults (dget_or raw ''inputs'' PNone) (Some i)) inputs)) (\<lambda>raw.
     bind_res (workflow_from_dict raw) (\<lambda>cfg.
     bind_res (resolve_nodes ld (case wf_defaults cfg of None \<Rightarrow> [] | Some d \<Rightarrow> d) depth (wf_nodes cfg)) (\<lambda>nodes. Inr (nodes, cfg)))))"

definition validation_failed :: "string \<Rightarrow> string list \<Rightarrow> string" where
  "validation_failed name errors =
     ''Workflow '' @ quoted name @ '' validation failed:'' @ EOL @ join EOL (map (\<lambda>e. ''  - '' @ e) errors)"

definition load_workflow :: "loader \<Rightarrow> nat \<Rightarrow> string \<Rightarrow> pyval dict option \<Rightarrow> (node list \<times> workflow_config) res" where
  "load_workflow ld depth ref inputs =
     bind_res (resolve_workflow ld depth ref inputs) (\<lambda>(nodes, cfg).
     bind_res (validate ld nodes) (\<lambda>errors.
       (let errors = errors @ pi_loop_problems nodes
        in if errors \<noteq> [] then raise ValidationError (validation_failed (wf_name cfg) errors) else Inr (nodes, cfg))))"

section \<open>What a loaded graph is\<close>

definition known_source :: "string list \<Rightarrow> pyval dict option \<Rightarrow> bool" where
  "known_source names cond = (case cond of Some (c # cs) \<Rightarrow> (\<forall>h. source_head (c # cs) = Inr (Some h) \<longrightarrow> h \<in> set names) | _ \<Rightarrow> True)"

text \<open>At every depth, what a node waits for, loops back to and asks about is a node of its own graph.\<close>

fun closed_graph :: "string list \<Rightarrow> node list \<Rightarrow> bool" where
  "closed_graph names [] = True"
| "closed_graph names (Node kind nc conf children fs # ns) =
     (set (nc_depends_on nc) \<subseteq> set names \<and>
      (\<forall>c cs. nc_loop_to nc = Some (c # cs) \<longrightarrow> c # cs \<in> set names) \<and>
      known_source names (nc_condition nc) \<and> known_source names (nc_loop_condition nc) \<and>
      (kind = StageNode \<longrightarrow> closed_graph (map name_of children) children) \<and> closed_graph names ns)"

lemma condition_problems_Nil: "condition_problems name what names cond = Inr [] \<Longrightarrow> known_source names cond"
proof (cases "\<exists>c cs. cond = Some (c # cs)")
  case True
  then obtain c cs where "cond = Some (c # cs)" by blast
  then show "condition_problems name what names cond = Inr [] \<Longrightarrow> ?thesis"
    by (auto simp: condition_problems_def known_source_def bind_res_def split: sum.splits if_splits)
qed (auto simp: known_source_def split: option.split list.split)

lemma node_problems_Nil:
  assumes "node_problems ld names n = Inr []"
  shows "set (deps_of n) \<subseteq> set names" and "nc_loop_to (config n) = Some (c # cs) \<Longrightarrow> c # cs \<in> set names"
    and "known_source names (nc_condition (config n))" and "known_source names (nc_loop_condition (config n))"
  using assms by (auto simp: node_problems_def Let_def bind_res_Inr filter_empty_conv dest: condition_problems_Nil split: if_splits)

lemma validate_closed: "validate_graph ld names nodes = Inr [] \<Longrightarrow> closed_graph names nodes"
proof (induction ld names nodes rule: validate_graph.induct)
  case (2 ld names kind nc conf children fs ns)
  have n: "node_problems ld names (Node kind nc conf children fs) = Inr []" and rest: "validate_graph ld names ns = Inr []"
    and inner: "kind = StageNode \<Longrightarrow> validate_graph ld (map name_of children) children = Inr []"
    using 2(3) by (auto simp: bind_res_Inr split: if_splits)
  note p = node_problems_Nil [OF n]
  show ?case using p 2(1) [OF _ inner] 2(2) [OF rest] by auto
qed simp

lemma load_workflow_Inr:
  assumes "load_workflow ld depth ref inputs = Inr (nodes, cfg)"
  shows "resolve_workflow ld depth ref inputs = Inr (nodes, cfg)" and "validate ld nodes = Inr []" and "pi_loop_problems nodes = []"
  using assms by (auto simp: load_workflow_def bind_res_Inr Let_def split: if_splits prod.splits)

text \<open>C28: A workflow that loads names only nodes it has: at every depth, what a node depends on, loops back to and asks
  about in its conditions is a node of the same graph.
\<close>

theorem loaded_graph_is_closed:
  assumes "load_workflow ld depth ref inputs = Inr (nodes, cfg)"
  shows "closed_graph (map name_of nodes) nodes"
  using load_workflow_Inr(2) [OF assms] by (auto simp: validate_def intro: validate_closed)

lemma closed_graph_deps: "closed_graph names nodes \<Longrightarrow> n \<in> set nodes \<Longrightarrow> set (deps_of n) \<subseteq> set names"
  by (induction names nodes rule: closed_graph.induct) auto

text \<open>Once a loaded workflow is sorted, every node comes after everything its configuration says it depends on: the
  sort ignores dependencies it does not know, and a loaded workflow has none.
\<close>

theorem loaded_nodes_run_after_dependencies:
  assumes "load_workflow ld depth ref inputs = Inr (nodes, cfg)" and "topological_sort nodes = Inr batches"
    and "i < length batches" and "n \<in> set (batches ! i)" and "d \<in> set (deps_of n)"
  shows "\<exists>j < i. d \<in> name_of ` set (batches ! j)"
proof -
  have "closed_graph (map name_of nodes) nodes"
    using load_workflow_Inr(2) [OF assms(1)] by (auto simp: validate_def intro: validate_closed)
  moreover have "n \<in> set nodes" using kahn.in_batch [OF assms(2)] assms(3,4) by blast
  ultimately have "d \<in> name_of ` set nodes" using closed_graph_deps assms(5) by fastforce
  then show ?thesis using kahn.sound [OF assms(2)] assms(3-5) by blast
qed

text \<open>In a workflow with a Pi step, at any depth, every loop, at any depth, ends the run when it runs out of rounds.
\<close>

theorem pi_loops_end_red:
  assumes "load_workflow ld depth ref inputs = Inr (nodes, cfg)" and "m \<in> set nodes" and "conf \<in> set (agent_configs m)"
    and "dget conf ''type'' = Some (PStr ''pi'')" and "n \<in> set (walk_all nodes)" and "nc_loop_to (config n) = Some (c # cs)"
  shows "nc_on_max_loops (config n) = ''fail''"
proof -
  have "is_pi_workflow nodes" using assms(2-4) unfolding is_pi_workflow_def list_ex_iff dget_or_def PI_AGENT_TYPE_def by force
  then have "pi_loop_problem n = []" using load_workflow_Inr(3) [OF assms(1)] assms(5) by (simp add: pi_loop_problems_def)
  then show ?thesis using assms(6) by (auto simp: pi_loop_problem_def PI_LOOP_POLICY_def Let_def split: if_splits)
qed

section \<open>Where an agent's settings come from\<close>

lemma dget_keep_out: "dget (filter (\<lambda>p. fst p \<notin> X) d) k = (if k \<in> X then None else dget d k)"
  using dget_filter [of "\<lambda>k. k \<notin> X" d k] by simp

fun first_of :: "'a option list \<Rightarrow> 'a option" where
  "first_of [] = None"
| "first_of (x # xs) = (case x of Some v \<Rightarrow> Some v | None \<Rightarrow> first_of xs)"

lemma filter_dict_ok: "dict_ok d \<Longrightarrow> dict_ok (filter P d)"
  by (simp add: dict_ok_def distinct_map_filter)

lemma fields_ok: "dict_ok (node_overrides fs nc)"
proof -
  have "distinct (map fst (all_fields nc @ [(''_KNOWN_FIELDS'', texts KNOWN_FIELDS)]))" by (simp add: all_fields_def)
  then show ?thesis unfolding node_overrides_def by (intro filter_dict_ok) (simp add: dict_ok_def)
qed

lemma merge_layers:
  assumes "dict_ok mine" and "dict_ok (ld_overrides ld)"
  shows "dget (merge_agent_config ld defaults mine) k =
    first_of (let skip = takes_no_llm_settings ld defaults mine \<and> k \<in> set LLM_SETTINGS
      in [if skip then None else dget (ld_overrides ld) k, dget mine k, if skip then None else dget defaults k])"
  using assms by (simp add: merge_agent_config_def Let_def dget_dmerge_ok filter_dict_ok dget_keep_out split: option.split)

text \<open>C29: An agent's setting comes from the first of these that says it: the overrides of the run, the node, the agent's
  own configuration, the defaults of the workflow. The workflow's own keys never reach an agent, and an agent type that
  calls no language model gets none of the settings for one from the run or the workflow.
\<close>

theorem settings_precedence:
  assumes "resolve_agent_config ld defaults nc = Inr conf" and "nc_agent nc = Some (c # cs)" and "load_agent_config ld (c # cs) = Inr base"
    and "dict_ok base" and "dict_ok (ld_overrides ld)" and "k \<noteq> ''name''"
    and "node_fs = (if dget_or base ''type'' PNone = PStr ''single_call'' then SINGLE_CALL_NODE_FIELDS else NODE_FIELDS)"
    and "skip = (takes_no_llm_settings ld (agent_defaults defaults) (dmerge base (node_overrides node_fs nc)) \<and> k \<in> set LLM_SETTINGS)"
  shows "dget conf k = first_of [if skip then None else dget (ld_overrides ld) k, dget (node_overrides node_fs nc) k, dget base k,
      if skip \<or> k \<in> set WORKFLOW_ONLY_DEFAULTS then None else dget defaults k]"
proof -
  let ?mine = "dmerge base (node_overrides node_fs nc)"
  let ?merged = "merge_agent_config ld (agent_defaults defaults) ?mine"
  have "conf = (if dhas ''name'' ?merged then ?merged else ?merged @ [(''name'', PStr (nc_name nc))])"
    using assms(1-3) unfolding resolve_agent_config_def assms(7) Let_def by (simp add: bind_res_def)
  then have conf: "dget conf k = dget ?merged k" using assms(6) by (auto simp: map_add_def split: option.split)
  have "dict_ok ?mine" using assms(4) by (rule dict_ok_dmerge)
  then have "dget ?merged k = first_of [if skip then None else dget (ld_overrides ld) k, dget ?mine k, if skip then None else dget (agent_defaults defaults) k]"
    using merge_layers [OF _ assms(5)] assms(8) by (simp add: Let_def)
  then show ?thesis using conf by (simp add: dget_dmerge_ok fields_ok agent_defaults_def dget_keep_out split: option.split)
qed

section \<open>References end\<close>

text \<open>
  \<open>rank\<close> puts every graph above those it refers to. A tree fits when the references in it rank below \<open>r\<close> and it is no
  higher than \<open>h\<close>.
\<close>

fun tree_fits :: "(string \<Rightarrow> nat) \<Rightarrow> nat \<Rightarrow> nat \<Rightarrow> config_tree \<Rightarrow> bool" where
  "tree_fits rank r h (ConfigTree nc ts) =
     ((\<forall>c cs. nc_ref nc = Some (c # cs) \<longrightarrow> rank (c # cs) < r) \<and>
      (case ts of None \<Rightarrow> True | Some us \<Rightarrow> 0 < h \<and> (\<forall>u \<in> set us. tree_fits rank r (h - 1) u)))"

definition refs_ranked :: "loader \<Rightarrow> (string \<Rightarrow> nat) \<Rightarrow> nat \<Rightarrow> bool" where
  "refs_ranked ld rank height \<longleftrightarrow>
     (\<forall>ref t t' us. resolve_ref ld ref t = Inr t' \<and> tree_nodes t = None \<and> tree_nodes t' = Some us \<longrightarrow> (\<forall>u \<in> set us. tree_fits rank (rank ref) height u))"

definition sound_strategies :: "loader \<Rightarrow> bool" where
  "sound_strategies ld \<longleftrightarrow> (\<forall>s confs sc e. build_topology (ld_registry ld) s confs sc = Inl e \<longrightarrow> kind_of e \<noteq> RecursionError)"

text \<open>Everything but the depth itself fails with another exception.\<close>

definition calm :: "'a res \<Rightarrow> bool" where
  "calm r \<longleftrightarrow> (\<forall>e. r = Inl e \<longrightarrow> kind_of e \<noteq> RecursionError)"

lemma calm_simps [simp]: "calm (Inr x)" "calm (raise k m) \<longleftrightarrow> k \<noteq> RecursionError"
  by (auto simp: calm_def)

lemma calm_bind: "calm r \<Longrightarrow> (\<And>x. r = Inr x \<Longrightarrow> calm (f x)) \<Longrightarrow> calm (bind_res r f)"
  by (cases r) (auto simp: calm_def bind_res_def)

lemma calm_map_res: "(\<And>x. x \<in> set xs \<Longrightarrow> calm (f x)) \<Longrightarrow> calm (map_res f xs)"
  by (induction xs) (auto simp: calm_def split: sum.splits)

lemma calm_readers:
  "calm (get_text d k)" "calm (get_text_or d k s)" "calm (get_int d k)" "calm (get_number d k)" "calm (get_dict d k)" "calm (get_list d k)" "calm (get_flag d k)"
  by (simp_all add: get_text_def get_text_or_def get_int_def get_number_def get_dict_def get_list_def get_flag_def split: pyval.split)

lemma calm_text_list: "calm (text_list k vs)"
  unfolding text_list_def by (rule calm_map_res) (simp split: pyval.split)

lemma calm_get_texts: "calm (get_texts d k)"
  unfolding get_texts_def by (intro calm_bind calm_readers) (auto split: option.split intro!: calm_bind calm_text_list)

lemma calm_names_of: "calm (names_of v)"
  by (cases v) (auto simp: names_of_def intro!: calm_bind)

lemmas calm_intros = calm_bind calm_readers calm_text_list calm_get_texts calm_names_of

lemma calm_own_fields: "calm (own_fields d)"
proof -
  have "calm (identity_fields d nc)" "calm (graph_fields d nc)" "calm (policy_fields d nc)" "calm (mapping_fields d nc)" "calm (override_fields d nc)" for nc
    unfolding identity_fields_def graph_fields_def policy_fields_def mapping_fields_def override_fields_def
    by (intro calm_intros; auto split: pyval.split intro: calm_text_list)+
  then show ?thesis unfolding own_fields_def by (auto split: option.split pyval.split intro!: calm_bind)
qed

lemma calm_from_dict: "calm (from_dict d)" "calm (from_dicts vs)"
proof (induction d and vs rule: from_dict_from_dicts.induct)
  case (1 d)
  then show ?case by (auto simp: from_dict.simps split: pyval.split intro!: calm_bind calm_own_fields)
next
  case (3 v vs)
  then show ?case by (auto split: pyval.split intro!: calm_bind)
qed simp

lemma calm_load: "calm (load_or_fail ld what ref t)"
  by (auto simp: load_or_fail_def calm_def split: option.split sum.split)

lemma calm_resolve_ref: "calm (resolve_ref ld ref t)"
proof -
  have "calm (load_referenced_graph ld ref)"
    unfolding load_referenced_graph_def load_config_def by (auto split: option.split sum.split intro!: calm_bind calm_load)
  then show ?thesis unfolding resolve_ref_def Let_def by (auto split: option.split intro!: calm_bind calm_from_dict)
qed

lemma calm_agent: "calm (resolve_agent_config ld defaults nc)"
  unfolding resolve_agent_config_def load_agent_config_def Let_def by (auto split: option.split list.split intro!: calm_bind calm_load)

lemma calm_strategy_stage:
  assumes "sound_strategies ld"
  shows "calm (resolve_strategy_stage ld defaults nc as)"
proof -
  have "calm (resolve_member ld d st v)" for d st v
    unfolding resolve_member_def load_agent_config_def by (auto split: pyval.split intro!: calm_bind calm_load)
  moreover have "calm (repeated_name seen confs)" for seen confs
    by (induction seen confs rule: repeated_name.induct) (auto simp: conf_name_def intro!: calm_bind split: option.split pyval.split)
  moreover have "calm (build_topology (ld_registry ld) s confs sc)" for s confs sc
    using assms by (auto simp: sound_strategies_def calm_def)
  ultimately show ?thesis unfolding resolve_strategy_stage_def
    by (auto split: option.split list.split intro!: calm_bind calm_map_res)
qed

lemma resolve_ref_nodes: "resolve_ref ld ref t = Inr t' \<Longrightarrow> tree_nodes t = Some us \<Longrightarrow> tree_nodes t' = Some us"
  by (auto simp: resolve_ref_def bind_res_Inr)

lemma calm_nodes: "\<forall>t \<in> set ts. calm (resolve_node ld defaults depth t) \<Longrightarrow> calm (resolve_nodes ld defaults depth ts)"
  by (induction ts) (auto intro!: calm_bind)

text \<open>The children a node is resolved with: its own, or those of the graph it refers to, which ranks below.\<close>

lemma children_fit:
  assumes "refs_ranked ld rank height" and "tree_fits rank r h t" and "h \<le> height"
    and "(case nc_ref (tree_config t) of Some (c # cs) \<Rightarrow> resolve_ref ld (c # cs) t | _ \<Rightarrow> Inr t) = Inr t'" and "tree_nodes t' = Some us"
  obtains r' h' where "\<forall>u \<in> set us. tree_fits rank r' h' u" and "h' \<le> height" and "r' * Suc height + h' < r * Suc height + h"
proof (cases "tree_nodes t")
  case (Some vs)
  then have "us = vs" using assms(4,5) resolve_ref_nodes by (fastforce split: option.splits list.splits)
  then show ?thesis using Some assms(2,3) that [of r "h - 1"] by (cases t) auto
next
  case None
  then obtain c cs where ref: "nc_ref (tree_config t) = Some (c # cs)" using assms(4,5) by (auto split: option.splits list.splits)
  then have "\<forall>u \<in> set us. tree_fits rank (rank (c # cs)) height u"
    using assms(1,4,5) None unfolding refs_ranked_def by force
  moreover have "rank (c # cs) < r" using assms(2) ref by (cases t) auto
  then have "Suc (rank (c # cs)) * Suc height \<le> r * Suc height" by (intro mult_le_mono1) simp
  then have "rank (c # cs) * Suc height + height < r * Suc height + h" by simp
  ultimately show ?thesis using that [of "rank (c # cs)" height] by blast
qed

text \<open>The depth a tree needs: its own height, and a full height for each rank below.\<close>

lemma resolve_calm:
  assumes "refs_ranked ld rank height" and "sound_strategies ld"
  shows "tree_fits rank r h t \<Longrightarrow> h \<le> height \<Longrightarrow> r * Suc height + h < depth \<Longrightarrow> calm (resolve_node ld defaults depth t)"
proof (induction depth arbitrary: r h t)
  case (Suc depth)
  let ?own = "case nc_ref (tree_config t) of Some (c # cs) \<Rightarrow> resolve_ref ld (c # cs) t | _ \<Rightarrow> Inr t"
  have ref: "calm ?own" by (auto split: option.split list.split intro: calm_resolve_ref)
  have inner: "calm (resolve_nodes ld defaults depth us)" if t': "?own = Inr t'" "tree_nodes t' = Some us" for t' us
  proof -
    obtain r' h' where c: "\<forall>u \<in> set us. tree_fits rank r' h' u" "h' \<le> height" "r' * Suc height + h' < r * Suc height + h"
      using children_fit [OF assms(1) Suc.prems(1,2) t'] by blast
    then show ?thesis using Suc.IH Suc.prems(3) by (intro calm_nodes) (metis (no_types, lifting) less_Suc_eq_le order_less_le_trans)
  qed
  show ?case unfolding resolve_node.simps Let_def
    by (rule calm_bind [OF ref])
      (auto simp: calm_strategy_stage [OF assms(2)] intro!: calm_bind calm_agent inner split: option.split)
qed simp

text \<open>Where no graph refers back to itself, loading ends: the depth of stack it needs is bounded by the number of
  graphs that refer to each other and the height of one. Only such a circle runs out of stack.
\<close>

theorem references_end:
  assumes "refs_ranked ld rank height" and "sound_strategies ld" and "\<forall>t \<in> set ts. tree_fits rank r h t" and "h \<le> height"
    and "r * Suc height + h < depth"
  shows "\<nexists>e. resolve_nodes ld defaults depth ts = Inl e \<and> kind_of e = RecursionError"
  using calm_nodes [of ts ld defaults depth] resolve_calm [OF assms(1,2)] assms(3-5) unfolding calm_def by blast

section \<open>What loading does not catch\<close>

definition memory_loader :: "((string \<times> string) \<times> pyval dict) list \<Rightarrow> loader" where
  "memory_loader confs =
     \<lparr>ld_config_store = Some (\<lambda>name t. case map_of confs (t, name) of Some d \<Rightarrow> Inr d | None \<Rightarrow> raise ConfigNotFoundError name), ld_overrides = [],
      ld_registry = builtin_registry, ld_no_llm_settings = (\<lambda>t. t \<in> {''jev'', ''single_call'', ''pi''}), ld_single_call_errors = (\<lambda>_. []),
      ld_jinja = (\<lambda>_ s _. Inr s), ld_json = (\<lambda>_. None)\<rparr>"

definition yaml_node :: "string \<Rightarrow> string list \<Rightarrow> pyval" where
  "yaml_node name deps = PDict [(''name'', PStr name), (''agent'', PStr ''w''), (''depends_on'', texts deps)]"

definition flow_loader :: "pyval list \<Rightarrow> loader" where
  "flow_loader nodes = memory_loader
     [((''agent'', ''w''), [(''name'', PStr ''w''), (''model'', PStr ''m1'')]),
      ((''workflow'', ''flow''), [(''name'', PStr ''flow''), (''nodes'', PList nodes)])]"

text \<open>
  The loader's own description names circular dependencies among what it validates, but a workflow whose nodes wait for
  each other loads; only the sort, at run time, refuses it.
\<close>

theorem cyclic_workflow_loads:
  "\<exists>nodes cfg e. load_workflow (flow_loader [yaml_node ''a'' [''b''], yaml_node ''b'' [''a'']]) 5 ''flow'' None = Inr (nodes, cfg) \<and>
     topological_sort nodes = Inl e \<and> kind_of e = CyclicDependencyError"
proof -
  have "case load_workflow (flow_loader [yaml_node ''a'' [''b''], yaml_node ''b'' [''a'']]) 5 ''flow'' None of
      Inr (nodes, cfg) \<Rightarrow> (case topological_sort nodes of Inl e \<Rightarrow> kind_of e = CyclicDependencyError | Inr _ \<Rightarrow> False) | Inl _ \<Rightarrow> False" by code_simp
  then show ?thesis by (auto split: sum.splits prod.splits)
qed

definition circle_loader :: loader where
  "circle_loader = memory_loader
     [((''stage'', ''a''), [(''type'', PStr ''stage''), (''nodes'', PList [PDict [(''name'', PStr ''x''), (''type'', PStr ''stage''), (''ref'', PStr ''a'')]])])]"

definition circle_tree :: config_tree where
  "circle_tree = ConfigTree ((default_config ''x'')\<lparr>nc_type := ''stage'', nc_ref := Some ''a''\<rparr>) None"

lemma circle_ref: "resolve_ref circle_loader ''a'' circle_tree = Inr (ConfigTree ((default_config ''x'')\<lparr>nc_type := ''stage''\<rparr>) (Some [circle_tree]))"
  by code_simp

text \<open>A graph that refers to itself is not refused: loading it uses up the stack, however deep that is.\<close>

theorem circular_reference_uses_up_stack:
  "resolve_node circle_loader defaults depth circle_tree = raise RecursionError ''maximum recursion depth exceeded''"
proof (induction depth)
  case (Suc depth)
  have "nc_ref (tree_config circle_tree) = Some ''a''" by (simp add: circle_tree_def)
  then show ?case using Suc by (simp add: circle_ref bind_res_def default_config_def)
qed simp

section \<open>Witnesses\<close>

definition demo_ld :: loader where
  "demo_ld = flow_loader [yaml_node ''a'' [], yaml_node ''b'' [''a'']]"

definition demo_conf_of :: "pyval dict" where
  "demo_conf_of = [(''name'', PStr ''w''), (''model'', PStr ''m1'')] @
     [(''on_max_loops'', PStr ''silent''), (''run_after_failure'', PBool False), (''gate'', PBool False), (''_KNOWN_FIELDS'', texts KNOWN_FIELDS)]"

definition demo_a :: node where
  "demo_a = agent_node ((default_config ''a'')\<lparr>nc_agent := Some ''w''\<rparr>) demo_conf_of"

definition demo_b :: node where
  "demo_b = agent_node ((default_config ''b'')\<lparr>nc_agent := Some ''w'', nc_depends_on := [''a'']\<rparr>) demo_conf_of"

lemma demo_loads: "\<exists>cfg. load_workflow demo_ld 5 ''flow'' None = Inr ([demo_a, demo_b], cfg)"
proof -
  have "case load_workflow demo_ld 5 ''flow'' None of Inr (nodes, cfg) \<Rightarrow> nodes = [demo_a, demo_b] | Inl _ \<Rightarrow> False" by code_simp
  then show ?thesis by (auto split: sum.splits prod.splits)
qed

theorem loaded_graph_is_closed_witness: "closed_graph [''a'', ''b''] [demo_a, demo_b]"
proof -
  obtain cfg where "load_workflow demo_ld 5 ''flow'' None = Inr ([demo_a, demo_b], cfg)" using demo_loads by blast
  from loaded_graph_is_closed [OF this] show ?thesis by (simp add: demo_a_def demo_b_def)
qed

theorem loaded_nodes_run_after_dependencies_witness:
  "topological_sort [demo_a, demo_b] = Inr [[demo_a], [demo_b]] \<and> (\<exists>j < 1. ''a'' \<in> name_of ` set ([[demo_a], [demo_b]] ! j))"
proof -
  obtain cfg where l: "load_workflow demo_ld 5 ''flow'' None = Inr ([demo_a, demo_b], cfg)" using demo_loads by blast
  have t: "topological_sort [demo_a, demo_b] = Inr [[demo_a], [demo_b]]" by code_simp
  from loaded_nodes_run_after_dependencies [OF l t, of 1 demo_b "''a''"] t show ?thesis by (simp add: demo_b_def)
qed

definition pi_ld :: loader where
  "pi_ld = memory_loader
     [((''workflow'', ''flow''), [(''name'', PStr ''flow''), (''defaults'', PDict [(''type'', PStr ''pi'')]),
        (''nodes'', PList [PDict [(''name'', PStr ''a''), (''loop_to'', PStr ''a''), (''on_max_loops'', PStr ''fail'')]])])]"

definition pi_config :: node_config where
  "pi_config = (default_config ''a'')\<lparr>nc_loop_to := Some ''a'', nc_on_max_loops := ''fail''\<rparr>"

definition pi_node :: node where
  "pi_node = agent_node pi_config
     [(''type'', PStr ''pi''), (''on_max_loops'', PStr ''fail''), (''run_after_failure'', PBool False), (''gate'', PBool False),
      (''_KNOWN_FIELDS'', texts KNOWN_FIELDS), (''name'', PStr ''a'')]"

theorem pi_loops_end_red_witness:
  "(\<exists>cfg. load_workflow pi_ld 5 ''flow'' None = Inr ([pi_node], cfg)) \<and> nc_on_max_loops (config pi_node) = ''fail''"
proof -
  have "case load_workflow pi_ld 5 ''flow'' None of Inr (nodes, cfg) \<Rightarrow> nodes = [pi_node] | Inl _ \<Rightarrow> False" by code_simp
  then obtain cfg where l: "load_workflow pi_ld 5 ''flow'' None = Inr ([pi_node], cfg)" by (auto split: sum.splits prod.splits)
  from pi_loops_end_red [OF l, of pi_node "agent_config pi_node" pi_node "CHR ''a''" "[]"] l
  show ?thesis by (simp add: pi_node_def pi_config_def agent_node_def)
qed

theorem settings_precedence_witness:
  "\<exists>conf. resolve_agent_config demo_ld [(''model'', PStr ''m2'')] ((default_config ''a'')\<lparr>nc_agent := Some ''w''\<rparr>) = Inr conf \<and>
     dget conf ''model'' = first_of [None, None, Some (PStr ''m1''), Some (PStr ''m2'')]"
proof -
  let ?nc = "(default_config ''a'')\<lparr>nc_agent := Some ''w''\<rparr>"
  have "case resolve_agent_config demo_ld [(''model'', PStr ''m2'')] ?nc of Inr _ \<Rightarrow> True | Inl _ \<Rightarrow> False" by code_simp
  then obtain conf where r: "resolve_agent_config demo_ld [(''model'', PStr ''m2'')] ?nc = Inr conf" by (auto split: sum.splits)
  have b: "load_agent_config demo_ld ''w'' = Inr [(''name'', PStr ''w''), (''model'', PStr ''m1'')]" by code_simp
  have o: "dget (node_overrides NODE_FIELDS ?nc) ''model'' = None" by code_simp
  have n: "\<not> takes_no_llm_settings demo_ld [(''model'', PStr ''m2'')] (dmerge [(''name'', PStr ''w''), (''model'', PStr ''m1'')] (node_overrides NODE_FIELDS ?nc))"
    by code_simp
  have d: "agent_defaults [(''model'', PStr ''m2'')] = [(''model'', PStr ''m2'')]" by code_simp
  show ?thesis
    using settings_precedence [OF r _ b, of "''model''" NODE_FIELDS False] o n r
    by (simp add: d dict_ok_def dget_or_def demo_ld_def flow_loader_def memory_loader_def WORKFLOW_ONLY_DEFAULTS_def)
qed

lemma calm_conf_name: "calm (conf_name conf)"
  by (auto simp: conf_name_def split: option.split pyval.split)

lemma builtin_sound: "ld_registry ld = builtin_registry \<Longrightarrow> sound_strategies ld"
proof -
  have node: "calm (strategy_node deps conf)" for deps conf
    unfolding strategy_node_def conf_name_def by (auto intro!: calm_bind split: option.split pyval.split)
  have "calm (sequential_from deps confs)" for deps confs
    by (induction deps confs rule: sequential_from.induct) (auto intro!: calm_bind node)
  then have "calm (parallel_topology confs sc)" "calm (sequential_topology confs sc)" "calm (leader_topology confs sc)" for confs sc
    by (auto simp: parallel_topology_def sequential_topology_def leader_topology_def split_leader_def Let_def intro!: calm_bind calm_map_res calm_conf_name node split: list.split)
  then show "ld_registry ld = builtin_registry \<Longrightarrow> ?thesis"
    by (auto simp: sound_strategies_def build_topology_def builtin_registry_def calm_def Let_def split: option.splits if_splits)
qed

definition ref_loader :: loader where
  "ref_loader = memory_loader [((''stage'', ''s''), [(''type'', PStr ''stage''), (''nodes'', PList [yaml_node ''y'' []])])]"

lemma ref_loader_ranked: "refs_ranked ref_loader (\<lambda>_. 0) 1"
  unfolding refs_ranked_def
proof (intro allI impI, elim conjE)
  fix ref t t' us assume r: "resolve_ref ref_loader ref t = Inr t'" and t: "tree_nodes t = None" "tree_nodes t' = Some us"
  obtain rc where rc: "load_referenced_graph ref_loader ref = Inr rc"
    and t': "from_dict (dset ''name'' (PStr (nc_name (tree_config t))) (dmerge rc (explicit_fields (tree_config t)))) = Inr t'"
    using r t(1) by (auto simp: resolve_ref_def bind_res_Inr Let_def)
  have "dget rc ''nodes'' = Some (PList [yaml_node ''y'' []])"
    using rc by (auto simp: load_referenced_graph_def load_config_def load_or_fail_def ref_loader_def memory_loader_def strip_graph_metadata_def
        unwrap_config_def bind_res_Inr split: option.splits if_splits sum.splits)
  moreover have "dget (rev (explicit_fields nc)) ''nodes'' = None" for nc
  proof -
    have "''nodes'' \<notin> fst ` set (all_fields nc)" by (simp add: all_fields_def)
    then show ?thesis unfolding explicit_fields_def map_of_eq_None_iff by auto
  qed
  ultimately have "dget_or (dset ''name'' (PStr (nc_name (tree_config t))) (dmerge rc (explicit_fields (tree_config t)))) ''nodes'' PNone = PList [yaml_node ''y'' []]"
    by (simp add: dget_or_def dget_dmerge)
  then have "from_dicts [yaml_node ''y'' []] = Inr us" using t' t(2) by (auto simp: from_dict.simps [of "dset _ _ _"] bind_res_Inr)
  moreover have "from_dicts [yaml_node ''y'' []] = Inr [ConfigTree ((default_config ''y'')\<lparr>nc_agent := Some ''w''\<rparr>) None]" by code_simp
  ultimately show "\<forall>u \<in> set us. tree_fits (\<lambda>_. 0) 0 1 u" by (auto simp: default_config_def)
qed

theorem references_end_witness:
  "\<nexists>e. resolve_nodes ref_loader [] 4 [ConfigTree ((default_config ''x'')\<lparr>nc_type := ''stage'', nc_ref := Some ''s''\<rparr>) None] = Inl e \<and> kind_of e = RecursionError"
proof -
  have "sound_strategies ref_loader" by (rule builtin_sound) (simp add: ref_loader_def memory_loader_def)
  from references_end [OF ref_loader_ranked this, of "[ConfigTree ((default_config ''x'')\<lparr>nc_type := ''stage'', nc_ref := Some ''s''\<rparr>) None]" 1 0 4]
  show ?thesis by auto
qed

end
