(* ===== verification/Resume_Claim.thy ===== *)
theory Resume_Claim
  imports Parked
begin

text \<open>
  One start at a time for a run that was cut off (\<^verbatim>\<open>temper_ai/runner/resume_claim.py\<close>), and which attempt an event of a run
  belongs to (\<^verbatim>\<open>temper_ai/runner/attempts.py\<close>).

  An asker's \<open>claim\<close> is a program of single reads and writes of the database. Each of them is one step here, so that
  askers interleave between any two of them; the lock SQLite takes instead only removes interleavings.
\<close>

section \<open>The claim\<close>

definition GOING :: string where "GOING = ''running''"
definition INTERRUPTED :: string where "INTERRUPTED = ''interrupted''"

text \<open>Two minutes.\<close>

definition CLAIM_STARTS_WITHIN :: rat where "CLAIM_STARTS_WITHIN = 120"

record resume_claim =
  rc_from_attempt :: string
  rc_token :: string
  rc_claimed_at :: "rat option"
  rc_claimed_by :: string

record look =
  lk_attempt :: string
  lk_parked :: bool
  lk_cut_off :: bool
  lk_cut_off_only :: bool

definition attempt_id :: "attempt option \<Rightarrow> string" where
  "attempt_id a = (case a of None \<Rightarrow> [] | Some x \<Rightarrow> at_id x)"

definition look_at :: "bool \<Rightarrow> string \<Rightarrow> attempt list \<Rightarrow> look" where
  "look_at cut_off_only eid as =
     (let newest = find_latest eid as
      in \<lparr>lk_attempt = attempt_id newest, lk_parked = (case newest of None \<Rightarrow> False | Some a \<Rightarrow> is_parked a),
          lk_cut_off = (case newest of None \<Rightarrow> False | Some a \<Rightarrow> at_status a = INTERRUPTED), lk_cut_off_only = cut_off_only\<rparr>)"

definition leaves_alone :: "look \<Rightarrow> attempt option \<Rightarrow> bool" where
  "leaves_alone lk parked =
     (if lk_cut_off_only lk \<and> \<not> lk_cut_off lk then True
      else case parked of None \<Rightarrow> False | Some a \<Rightarrow> \<not> (lk_parked lk \<and> lk_attempt lk = at_id a))"

definition moved_on :: "attempt option \<Rightarrow> string option \<Rightarrow> bool" where
  "moved_on newest seen = (case seen of None \<Rightarrow> False | Some s \<Rightarrow> attempt_id newest \<noteq> s)"

definition still_held :: "rat \<Rightarrow> resume_claim \<Rightarrow> attempt option \<Rightarrow> bool" where
  "still_held now held newest =
     (if rc_from_attempt held = attempt_id newest
      then (case rc_claimed_at held of None \<Rightarrow> False | Some t \<Rightarrow> now - t < CLAIM_STARTS_WITHIN)
      else case newest of None \<Rightarrow> False | Some a \<Rightarrow> at_status a = GOING \<or> is_parked a)"

definition insert_claim :: "string \<Rightarrow> resume_claim \<Rightarrow> resume_claim dict \<Rightarrow> bool \<times> resume_claim dict" where
  "insert_claim eid c claims = (if dhas eid claims then (False, claims) else (True, dset eid c claims))"

definition take_over_claim :: "string \<Rightarrow> string \<Rightarrow> resume_claim \<Rightarrow> resume_claim dict \<Rightarrow> bool \<times> resume_claim dict" where
  "take_over_claim eid old_token c claims =
     (case dget claims eid of
        Some held \<Rightarrow> if rc_token held = old_token then (True, dset eid c claims) else (False, claims)
      | None \<Rightarrow> (False, claims))"

definition release_claim :: "string \<Rightarrow> string \<Rightarrow> resume_claim dict \<Rightarrow> resume_claim dict" where
  "release_claim eid token claims =
     (case dget claims eid of Some held \<Rightarrow> if rc_token held = token then ddel eid claims else claims | None \<Rightarrow> claims)"

text \<open>Where an asker is in \<open>claim\<close>, with the tries it has left and what it has read in this one.\<close>

datatype ask_at =
    Asking nat
  | Inserting nat string
  | ReadingHeld nat
  | Judging nat resume_claim
  | TakingOver nat resume_claim string
  | Claimed
  | Refused

record asker =
  ak_token :: string
  ak_by :: string
  ak_seen :: "string option"
  ak_at :: ask_at

definition new_asker :: "string \<Rightarrow> string \<Rightarrow> string option \<Rightarrow> asker" where
  "new_asker token who seen = \<lparr>ak_token = token, ak_by = who, ak_seen = seen, ak_at = Asking 3\<rparr>"

definition claim_of :: "asker \<Rightarrow> string \<Rightarrow> rat \<Rightarrow> resume_claim" where
  "claim_of ak from_attempt now = \<lparr>rc_from_attempt = from_attempt, rc_token = ak_token ak, rc_claimed_at = Some now, rc_claimed_by = ak_by ak\<rparr>"

definition next_try :: "nat \<Rightarrow> ask_at" where
  "next_try n = (if n = 0 then Refused else Asking n)"

definition ask_step :: "string \<Rightarrow> rat \<Rightarrow> attempt list \<Rightarrow> asker \<times> resume_claim dict \<Rightarrow> asker \<times> resume_claim dict" where
  "ask_step eid now as s =
     (case s of (ak, claims) \<Rightarrow>
        (let newest = find_latest eid as; goes = (\<lambda>pc. ak\<lparr>ak_at := pc\<rparr>)
         in case ak_at ak of
              Asking n \<Rightarrow> (if n = 0 \<or> moved_on newest (ak_seen ak) then goes Refused else goes (Inserting n (attempt_id newest)), claims)
            | Inserting n a \<Rightarrow>
                (case insert_claim eid (claim_of ak a now) claims of (won, claims') \<Rightarrow> (goes (if won then Claimed else ReadingHeld n), claims'))
            | ReadingHeld n \<Rightarrow> (goes (case dget claims eid of None \<Rightarrow> next_try (n - 1) | Some held \<Rightarrow> Judging n held), claims)
            | Judging n held \<Rightarrow>
                (goes (if still_held now held newest \<or> moved_on newest (ak_seen ak) then Refused else TakingOver n held (attempt_id newest)), claims)
            | TakingOver n held a \<Rightarrow>
                (case take_over_claim eid (rc_token held) (claim_of ak a now) claims of
                   (won, claims') \<Rightarrow> (goes (if won then Claimed else next_try (n - 1)), claims'))
            | Claimed \<Rightarrow> s
            | Refused \<Rightarrow> s))"

definition finished_asking :: "asker \<Rightarrow> bool" where
  "finished_asking ak = (ak_at ak = Claimed \<or> ak_at ak = Refused)"

text \<open>\<open>claim\<close> by one asker alone: the token it won, if it did.\<close>

fun ask_alone :: "nat \<Rightarrow> string \<Rightarrow> rat \<Rightarrow> attempt list \<Rightarrow> asker \<times> resume_claim dict \<Rightarrow> asker \<times> resume_claim dict" where
  "ask_alone 0 eid now as s = s"
| "ask_alone (Suc k) eid now as s = (if finished_asking (fst s) then s else ask_alone k eid now as (ask_step eid now as s))"

text \<open>An asker takes at most four steps a try.\<close>

definition claim_run :: "string \<Rightarrow> rat \<Rightarrow> attempt list \<Rightarrow> asker \<Rightarrow> resume_claim dict \<Rightarrow> string option \<times> resume_claim dict" where
  "claim_run eid now as ak claims =
     (case ask_alone 12 eid now as (ak, claims) of (ak', claims') \<Rightarrow> (if ak_at ak' = Claimed then Some (ak_token ak) else None, claims'))"

section \<open>Attempts\<close>

text \<open>\<open>_attempt\<close>: up the parents to the start of an attempt. The ids seen never come again, so each step uses up one parent.\<close>

function attempt_above :: "string option dict \<Rightarrow> string list \<Rightarrow> string list \<Rightarrow> string option \<Rightarrow> string option" where
  "attempt_above parent_of starts seen current =
     (case current of
        None \<Rightarrow> None
      | Some c \<Rightarrow>
          if c \<in> set seen then None
          else if c \<in> set starts then Some c
          else case dget parent_of c of None \<Rightarrow> None | Some p \<Rightarrow> attempt_above parent_of starts (c # seen) p)"
  by pat_completeness auto
termination
proof (relation "measure (\<lambda>(parent_of, starts, seen, current). card (set (dkeys parent_of) - set seen))", goal_cases)
  case (2 parent_of starts seen current c p)
  then have "c \<in> set (dkeys parent_of) - set seen" by (auto dest: dget_in_keys)
  then have "set (dkeys parent_of) - set (c # seen) \<subset> set (dkeys parent_of) - set seen" by auto
  then show ?case unfolding in_measure prod.case by (rule psubset_card_mono [rotated]) simp
qed simp

declare attempt_above.simps [simp del]

definition starts_of :: "string \<Rightarrow> attempt list \<Rightarrow> nat dict" where
  "starts_of eid as = map (\<lambda>a. (at_id a, at_time a)) (filter (\<lambda>a. at_execution a = eid) as)"

definition attempt_of :: "string option dict \<Rightarrow> string \<Rightarrow> attempt list \<Rightarrow> string option \<Rightarrow> string option" where
  "attempt_of parent_of eid as event =
     (case event of Some (c # cs) \<Rightarrow> attempt_above parent_of (dkeys (starts_of eid as)) [] (Some (c # cs)) | _ \<Rightarrow> None)"

definition later_attempts :: "string option dict \<Rightarrow> string \<Rightarrow> attempt list \<Rightarrow> string option \<Rightarrow> string list" where
  "later_attempts parent_of eid as event =
     (let starts = starts_of eid as
      in case attempt_of parent_of eid as event of
           None \<Rightarrow> []
         | Some mine \<Rightarrow>
             (let newer = map fst (filter (\<lambda>p. dget_or starts mine 0 < snd p) starts)
              in filter (\<lambda>e. case attempt_above parent_of (dkeys starts) [] (Some e) of Some a \<Rightarrow> a \<in> set newer | None \<Rightarrow> False)
                   (dkeys parent_of @ filter (\<lambda>s. s \<notin> set (dkeys parent_of)) (dkeys starts))))"

definition stand_down_if_replaced :: "string option dict \<Rightarrow> string \<Rightarrow> attempt list \<Rightarrow> string option \<Rightarrow> string \<Rightarrow> unit res" where
  "stand_down_if_replaced parent_of eid as event where_at =
     (case attempt_of parent_of eid as event of
        None \<Rightarrow> Inr ()
      | Some mine \<Rightarrow>
          (case find_latest eid as of
             None \<Rightarrow> Inr ()
           | Some newest \<Rightarrow>
               if at_id newest = mine then Inr ()
               else raise ReplacedByLaterAttempt (''A later attempt of this run ('' @ at_id newest @ '') has started, so this attempt ('' @ mine @
                      '') stands down '' @ where_at)))"

section \<open>Askers that interleave\<close>

text \<open>
  Several askers of one run, by their tokens, each anywhere in its \<open>claim\<close>. The run's newest attempt is \<open>a0\<close> when they
  start. Between any two of their steps time passes and attempts are written; what happens to the run is what a claim promises:
  only the asker that has the claim starts the next attempt, within the time a claim holds, and while that attempt is
  going or parked. An asker whose start fails gives its claim back.
\<close>

definition newest_id :: "string \<Rightarrow> attempt list \<Rightarrow> string" where
  "newest_id eid as = attempt_id (find_latest eid as)"

definition claimed_among :: "string \<Rightarrow> resume_claim dict \<Rightarrow> (string \<rightharpoonup> asker) \<Rightarrow> resume_claim \<Rightarrow> bool" where
  "claimed_among eid claims A c = (dget claims eid = Some c \<and> rc_token c \<in> dom A)"

inductive claim_race :: "string \<Rightarrow> string \<Rightarrow> rat \<Rightarrow> attempt list \<Rightarrow> resume_claim dict \<Rightarrow> (string \<rightharpoonup> asker) \<Rightarrow> bool" for eid a0 where
  race_begins: "newest_id eid as = a0 \<Longrightarrow> (\<And>c. \<not> claimed_among eid claims A c) \<Longrightarrow>
    (\<And>t ak. A t = Some ak \<Longrightarrow> \<exists>w seen. ak = new_asker t w seen) \<Longrightarrow> claim_race eid a0 now as claims A"
| race_asks: "claim_race eid a0 now as claims A \<Longrightarrow> A t = Some ak \<Longrightarrow> ask_step eid now as (ak, claims) = (ak', claims') \<Longrightarrow>
    claim_race eid a0 now as claims' (A(t \<mapsto> ak'))"
| race_moves: "claim_race eid a0 now as claims A \<Longrightarrow>
    (\<And>c. claimed_among eid claims A c \<Longrightarrow> still_held now' c (find_latest eid as')) \<Longrightarrow>
    newest_id eid as' = a0 \<or> (\<exists>c. claimed_among eid claims A c) \<Longrightarrow>
    (newest_id eid as \<noteq> a0 \<Longrightarrow> newest_id eid as' \<noteq> a0) \<Longrightarrow> claim_race eid a0 now' as' claims A"
| race_gives_back: "claim_race eid a0 now as claims A \<Longrightarrow> A t = Some ak \<Longrightarrow> ak_at ak = Claimed \<Longrightarrow> newest_id eid as = a0 \<Longrightarrow>
    claim_race eid a0 now as (release_claim eid t claims) (A(t \<mapsto> ak\<lparr>ak_at := Refused\<rparr>))"

text \<open>What is true of an asker at each point of its \<open>claim\<close>.\<close>

definition gave_up :: "(string \<rightharpoonup> asker) \<Rightarrow> string \<Rightarrow> bool" where
  "gave_up A t = (t \<in> dom A \<longrightarrow> (\<exists>x. A t = Some x \<and> ak_at x = Refused))"

definition asker_ok :: "string \<Rightarrow> string \<Rightarrow> rat \<Rightarrow> attempt list \<Rightarrow> resume_claim dict \<Rightarrow> (string \<rightharpoonup> asker) \<Rightarrow> string \<Rightarrow> asker \<Rightarrow> bool" where
  "asker_ok eid a0 now as claims A t ak =
     (ak_token ak = t \<and>
      (case ak_at ak of
         Claimed \<Rightarrow> (\<exists>c. dget claims eid = Some c \<and> rc_token c = t \<and> rc_from_attempt c = a0 \<and> still_held now c (find_latest eid as))
       | Inserting n a \<Rightarrow> newest_id eid as = a0 \<longrightarrow> a = a0
       | Judging n held \<Rightarrow> dget claims eid = Some held \<or> gave_up A (rc_token held)
       | TakingOver n held a \<Rightarrow> (newest_id eid as = a0 \<longrightarrow> a = a0) \<and> gave_up A (rc_token held)
       | _ \<Rightarrow> True))"

definition race_inv :: "string \<Rightarrow> string \<Rightarrow> rat \<Rightarrow> attempt list \<Rightarrow> resume_claim dict \<Rightarrow> (string \<rightharpoonup> asker) \<Rightarrow> bool" where
  "race_inv eid a0 now as claims A =
     ((\<forall>t ak. A t = Some ak \<longrightarrow> asker_ok eid a0 now as claims A t ak) \<and>
      (\<forall>c. claimed_among eid claims A c \<longrightarrow> (\<exists>ak. A (rc_token c) = Some ak \<and> ak_at ak = Claimed)) \<and>
      (newest_id eid as \<noteq> a0 \<longrightarrow> (\<exists>c. claimed_among eid claims A c)))"

lemma race_invD:
  assumes "race_inv eid a0 now as claims A"
  shows "A t = Some ak \<Longrightarrow> asker_ok eid a0 now as claims A t ak"
    and "claimed_among eid claims A c \<Longrightarrow> \<exists>ak. A (rc_token c) = Some ak \<and> ak_at ak = Claimed"
    and "newest_id eid as \<noteq> a0 \<Longrightarrow> \<exists>c. claimed_among eid claims A c"
  using assms unfolding race_inv_def by blast+

text \<open>A row that is not one of the askers' cannot be theirs to win: whoever wins finds \<open>a0\<close> still the newest.\<close>

lemma win_finds_a0:
  assumes "race_inv eid a0 now as claims A" and "\<And>c. dget claims eid = Some c \<Longrightarrow> rc_token c \<notin> dom A"
  shows "newest_id eid as = a0" "\<And>t ak. A t = Some ak \<Longrightarrow> ak_at ak \<noteq> Claimed"
proof -
  have none: "\<not> claimed_among eid claims A c" for c using assms(2) by (auto simp: claimed_among_def)
  then show "newest_id eid as = a0" using race_invD(3) [OF assms(1)] by blast
  fix t ak assume "A t = Some ak"
  then show "ak_at ak \<noteq> Claimed"
    using none race_invD(1) [OF assms(1)] by (fastforce simp: asker_ok_def claimed_among_def)
qed

lemma taken_over_is_foreign:
  assumes "race_inv eid a0 now as claims A" "dget claims eid = Some c" "gave_up A (rc_token c)"
  shows "rc_token c \<notin> dom A"
proof
  assume "rc_token c \<in> dom A"
  with assms(2) have "claimed_among eid claims A c" by (simp add: claimed_among_def)
  with race_invD(2) [OF assms(1)] assms(3) show False by (fastforce simp: gave_up_def)
qed

lemma gave_up_goes: "A t = Some ak \<Longrightarrow> ak_at ak \<noteq> Refused \<Longrightarrow> gave_up A u \<Longrightarrow> gave_up (A(t \<mapsto> ak')) u"
  by (auto simp: gave_up_def)

lemma asker_ok_other:
  assumes "asker_ok eid a0 now as claims A u x" "A t = Some ak" "ak_at ak \<noteq> Refused"
  shows "asker_ok eid a0 now as claims (A(t \<mapsto> ak')) u x"
  using assms gave_up_goes [of A t ak _ ak'] by (auto simp: asker_ok_def split: ask_at.splits)

text \<open>A step that writes nothing.\<close>

lemma race_inv_goes:
  assumes inv: "race_inv eid a0 now as claims A" and A: "A t = Some ak" "\<not> finished_asking ak"
    and ok: "asker_ok eid a0 now as claims A t (ak\<lparr>ak_at := pc\<rparr>)"
  shows "race_inv eid a0 now as claims (A(t \<mapsto> ak\<lparr>ak_at := pc\<rparr>))" (is "race_inv _ _ _ _ _ ?A")
proof -
  have dom: "dom ?A = dom A" using A by auto
  have "asker_ok eid a0 now as claims ?A u x" if "?A u = Some x" for u x
    using that ok A race_invD(1) [OF inv] by (auto intro!: asker_ok_other simp: finished_asking_def split: if_splits)
  moreover have "\<exists>x. ?A (rc_token c) = Some x \<and> ak_at x = Claimed" if "claimed_among eid claims A c" for c
    using race_invD(2) [OF inv that] A by (auto simp: finished_asking_def)
  ultimately show ?thesis using race_invD(3) [OF inv] unfolding race_inv_def claimed_among_def dom by blast
qed

text \<open>A new claim of an asker that found nobody else's claim standing.\<close>

lemma still_held_fresh: "still_held now (claim_of ak (newest_id eid as) now) (find_latest eid as)"
  by (simp add: still_held_def claim_of_def newest_id_def CLAIM_STARTS_WITHIN_def)

lemma race_inv_win:
  assumes inv: "race_inv eid a0 now as claims A" and A: "A t = Some ak" "\<not> finished_asking ak"
    and foreign: "\<And>c. dget claims eid = Some c \<Longrightarrow> rc_token c \<notin> dom A"
    and a: "newest_id eid as = a0 \<longrightarrow> a = a0"
  shows "race_inv eid a0 now as (dset eid (claim_of ak a now) claims) (A(t \<mapsto> ak\<lparr>ak_at := Claimed\<rparr>))"
    (is "race_inv _ _ _ _ ?claims ?A")
proof -
  have a0: "newest_id eid as = a0" using inv foreign by (rule win_finds_a0)
  have unclaimed: "A u = Some x \<Longrightarrow> ak_at x \<noteq> Claimed" for u x using inv foreign by (rule win_finds_a0)
  have tok: "ak_token ak = t" using race_invD(1) [OF inv A(1)] by (simp add: asker_ok_def)
  have fresh: "still_held now (claim_of ak a0 now) (find_latest eid as)"
    using still_held_fresh [of now ak eid as] a0 by simp
  have "asker_ok eid a0 now as ?claims ?A u x" if "?A u = Some x" for u x
  proof (cases "u = t")
    case True
    then show ?thesis using that fresh a a0 tok by (auto simp: asker_ok_def claim_of_def)
  next
    case False
    with that have u: "A u = Some x" by simp
    with A have "asker_ok eid a0 now as claims ?A u x"
      by (intro asker_ok_other [OF race_invD(1) [OF inv]]) (auto simp: finished_asking_def)
    moreover have "gave_up ?A (rc_token held)" if "dget claims eid = Some held" for held
      using foreign [OF that] A by (auto simp: gave_up_def)
    ultimately show ?thesis using unclaimed [OF u] by (auto simp: asker_ok_def split: ask_at.splits)
  qed
  then show ?thesis using a0 tok by (auto simp: race_inv_def claimed_among_def claim_of_def)
qed

lemma race_inv_step:
  assumes inv: "race_inv eid a0 now as claims A" and A: "A t = Some ak"
  shows "race_inv eid a0 now as (snd (ask_step eid now as (ak, claims))) (A(t \<mapsto> fst (ask_step eid now as (ak, claims))))"
proof (cases "finished_asking ak")
  case True
  then show ?thesis using A inv by (auto simp: ask_step_def finished_asking_def map_upd_triv)
next
  case False
  have ok: "asker_ok eid a0 now as claims A t ak" using race_invD(1) [OF inv A] .
  then have tok: "t = ak_token ak" by (simp add: asker_ok_def)
  note goes = race_inv_goes [OF inv A False, unfolded tok] and win = race_inv_win [OF inv A False, unfolded tok]
  show ?thesis
  proof (cases "ak_at ak")
    case (Asking n)
    then show ?thesis using ok by (auto simp: ask_step_def Let_def asker_ok_def newest_id_def tok intro!: goes)
  next
    case (Inserting n a)
    show ?thesis
    proof (cases "dget claims eid")
      case None
      then show ?thesis using ok Inserting
        by (auto simp: ask_step_def Let_def insert_claim_def dhas_def asker_ok_def tok intro!: win)
    next
      case (Some c)
      then show ?thesis using ok Inserting
        by (auto simp: ask_step_def Let_def insert_claim_def dhas_def asker_ok_def tok intro!: goes)
    qed
  next
    case (ReadingHeld n)
    then show ?thesis using ok
      by (auto simp: ask_step_def Let_def asker_ok_def next_try_def tok intro!: goes split: option.splits)
  next
    case (Judging n held)
    show ?thesis
    proof (cases "still_held now held (find_latest eid as)")
      case True
      then show ?thesis using ok Judging by (auto simp: ask_step_def Let_def asker_ok_def tok intro!: goes)
    next
      case False
      have "gave_up A (rc_token held)"
      proof (cases "claimed_among eid claims A held")
        case True
        then obtain x where "A (rc_token held) = Some x" "ak_at x = Claimed" using race_invD(2) [OF inv] by blast
        then show ?thesis using race_invD(1) [OF inv] False True by (fastforce simp: asker_ok_def claimed_among_def)
      next
        case False
        then show ?thesis using ok Judging by (auto simp: asker_ok_def claimed_among_def gave_up_def)
      qed
      then show ?thesis using ok Judging False
        by (auto simp: ask_step_def Let_def asker_ok_def newest_id_def tok intro!: goes)
    qed
  next
    case (TakingOver n held a)
    show ?thesis
    proof (cases "\<exists>c. dget claims eid = Some c \<and> rc_token c = rc_token held")
      case True
      then obtain c where c: "dget claims eid = Some c" "rc_token c = rc_token held" by blast
      have "gave_up A (rc_token c)" using ok TakingOver c by (simp add: asker_ok_def)
      from taken_over_is_foreign [OF inv c(1) this]
      show ?thesis using ok TakingOver c by (auto simp: ask_step_def Let_def take_over_claim_def asker_ok_def tok intro!: win)
    next
      case False
      then show ?thesis using ok TakingOver
        by (auto simp: ask_step_def Let_def take_over_claim_def asker_ok_def next_try_def tok intro!: goes split: option.splits)
    qed
  qed (use False in \<open>auto simp: finished_asking_def\<close>)
qed

lemma claim_race_inv: "claim_race eid a0 now as claims A \<Longrightarrow> race_inv eid a0 now as claims A"
proof (induction rule: claim_race.induct)
  case (race_begins as claims A now)
  then show ?case by (fastforce simp: race_inv_def asker_ok_def new_asker_def)
next
  case (race_asks now as claims A t ak ak' claims')
  then show ?case using race_inv_step [of eid a0 now as claims A t ak] by (simp del: fun_upd_apply)
next
  case (race_moves now as claims A now' as')
  have "asker_ok eid a0 now' as' claims A t ak" if "A t = Some ak" for t ak
  proof -
    have "asker_ok eid a0 now as claims A t ak" using race_moves.IH that by (rule race_invD(1))
    moreover have "still_held now' c (find_latest eid as')" if "dget claims eid = Some c" "rc_token c = t" for c
      using race_moves.hyps(2) that \<open>A t = Some ak\<close> by (auto simp: claimed_among_def)
    ultimately show ?thesis using race_moves.hyps(4) by (auto simp: asker_ok_def split: ask_at.splits)
  qed
  then show ?case using race_invD(2) [OF race_moves.IH] race_moves.hyps(3) unfolding race_inv_def by blast
next
  case (race_gives_back now as claims A t ak)
  let ?A = "A(t \<mapsto> ak\<lparr>ak_at := Refused\<rparr>)"
  note inv = race_gives_back.IH
  have ok: "asker_ok eid a0 now as claims A t ak" using inv race_gives_back.hyps(2) by (rule race_invD(1))
  then obtain c where c: "dget claims eid = Some c" "rc_token c = t" using race_gives_back.hyps(3) by (auto simp: asker_ok_def)
  have rel: "release_claim eid t claims = ddel eid claims" using c by (simp add: release_claim_def)
  have gone: "gave_up ?A u" if "gave_up A u \<or> u = t" for u using that race_gives_back.hyps by (auto simp: gave_up_def)
  have "asker_ok eid a0 now as (ddel eid claims) ?A u x" if "?A u = Some x" for u x
  proof (cases "u = t")
    case True
    then show ?thesis using that ok by (auto simp: asker_ok_def)
  next
    case False
    then have "asker_ok eid a0 now as claims A u x" using that race_invD(1) [OF inv] by simp
    then show ?thesis using False c gone by (auto simp: asker_ok_def split: ask_at.splits)
  qed
  then show ?case using race_gives_back.hyps(4) unfolding rel race_inv_def claimed_among_def by (auto simp del: fun_upd_apply)
qed

text \<open>C27: However askers of one run interleave, read by read and write by write, and whatever time passes and attempts are
  written between, as long as the claim of the one who won still holds at most one of them has the claim, and the row of the run
  names it: no two of them start the next attempt.\<close>

theorem one_asker_carries_on:
  assumes "claim_race eid a0 now as claims A" and "A t = Some x" "ak_at x = Claimed"
  shows "(\<exists>c. dget claims eid = Some c \<and> rc_token c = t \<and> rc_from_attempt c = a0) \<and> (\<forall>u y. A u = Some y \<and> ak_at y = Claimed \<longrightarrow> u = t)"
proof -
  have ok: "A u = Some y \<Longrightarrow> asker_ok eid a0 now as claims A u y" for u y
    using assms(1) by (intro race_invD(1) [OF claim_race_inv])
  have row: "\<exists>c. dget claims eid = Some c \<and> rc_token c = u \<and> rc_from_attempt c = a0" if "A u = Some y" "ak_at y = Claimed" for u y
    using ok [OF that(1)] that(2) by (auto simp: asker_ok_def)
  from row [OF assms(2,3)] row show ?thesis by fastforce
qed

text \<open>Turns of askers in a given order.\<close>

definition race_turn :: "string \<Rightarrow> rat \<Rightarrow> attempt list \<Rightarrow> string \<Rightarrow> resume_claim dict \<times> (string \<rightharpoonup> asker) \<Rightarrow> resume_claim dict \<times> (string \<rightharpoonup> asker)" where
  "race_turn eid now as t s =
     (case snd s t of None \<Rightarrow> s | Some ak \<Rightarrow> (case ask_step eid now as (ak, fst s) of (ak', claims') \<Rightarrow> (claims', (snd s)(t \<mapsto> ak'))))"

lemma claim_race_turns:
  "claim_race eid a0 now as (fst s) (snd s) \<Longrightarrow>
   claim_race eid a0 now as (fst (fold (race_turn eid now as) ts s)) (snd (fold (race_turn eid now as) ts s))"
proof (induction ts arbitrary: s)
  case (Cons t ts)
  have "claim_race eid a0 now as (fst (race_turn eid now as t s)) (snd (race_turn eid now as t s))"
    using Cons.prems by (auto simp: race_turn_def split: option.split prod.split intro: race_asks)
  then show ?case using Cons.IH by simp
qed simp

definition cut_off_run :: "attempt list" where
  "cut_off_run = [\<lparr>at_id = ''a1'', at_execution = ''run'', at_time = 1, at_status = INTERRUPTED, at_data = []\<rparr>]"

definition two_askers :: "string \<rightharpoonup> asker" where
  "two_askers = [''t1'' \<mapsto> new_asker ''t1'' ''ann'' (Some ''a1''), ''t2'' \<mapsto> new_asker ''t2'' ''bob'' (Some ''a1'')]"

definition two_in_turn :: "resume_claim dict \<times> (string \<rightharpoonup> asker)" where
  "two_in_turn = fold (race_turn ''run'' 5 cut_off_run) [''t1'', ''t2'', ''t1'', ''t2'', ''t2'', ''t2''] ([], two_askers)"

lemmas claim_defs = ask_step_def insert_claim_def take_over_claim_def claim_of_def next_try_def moved_on_def still_held_def
  CLAIM_STARTS_WITHIN_def finished_asking_def

lemma two_race: "claim_race ''run'' ''a1'' 5 cut_off_run (fst two_in_turn) (snd two_in_turn)"
  unfolding two_in_turn_def
  by (rule claim_race_turns, rule race_begins)
     (auto simp: newest_id_def cut_off_run_def find_latest_def attempt_id_def claimed_among_def two_askers_def split: if_splits)

lemma two_end: "ak_at (the (snd two_in_turn ''t1'')) = Claimed" "ak_at (the (snd two_in_turn ''t2'')) = Refused"
  "\<exists>x. snd two_in_turn ''t1'' = Some x"
  by (simp_all add: two_in_turn_def race_turn_def two_askers_def new_asker_def cut_off_run_def find_latest_def attempt_id_def
      claim_defs dhas_def Let_def)

theorem one_asker_carries_on_witness:
  "\<exists>x. snd two_in_turn ''t1'' = Some x \<and> ak_at x = Claimed \<and> (\<nexists>u y. snd two_in_turn u = Some y \<and> ak_at y = Claimed \<and> u \<noteq> ''t1'')"
  using one_asker_carries_on [OF two_race, of "''t1''"] two_end by fastforce

text \<open>An asker alone claims the run exactly when the newest attempt is the one it saw and no claim on the run still holds;
  otherwise it changes nothing. It needs no second try.\<close>

theorem claim_run_exact:
  "claim_run eid now as (new_asker t w seen) claims =
     (let newest = find_latest eid as; mine = claim_of (new_asker t w seen) (attempt_id newest) now
      in if moved_on newest seen \<or> (case dget claims eid of Some held \<Rightarrow> still_held now held newest | None \<Rightarrow> False) then (None, claims)
         else (Some t, dset eid mine claims))"
proof -
  let ?newest = "find_latest eid as"
  consider "moved_on ?newest seen" | "\<not> moved_on ?newest seen" "dget claims eid = None"
    | held where "\<not> moved_on ?newest seen" "dget claims eid = Some held" "still_held now held ?newest"
    | held where "\<not> moved_on ?newest seen" "dget claims eid = Some held" "\<not> still_held now held ?newest"
    by (cases "dget claims eid") auto
  then show ?thesis
    by cases (simp_all add: claim_run_def new_asker_def numeral_eq_Suc ask_step_def insert_claim_def take_over_claim_def claim_of_def
        finished_asking_def dhas_def Let_def)
qed

section \<open>The attempt an event belongs to\<close>

fun up :: "string option dict \<Rightarrow> nat \<Rightarrow> string \<Rightarrow> string option" where
  "up parent_of 0 e = Some e"
| "up parent_of (Suc n) e = (case dget parent_of e of Some (Some q) \<Rightarrow> up parent_of n q | _ \<Rightarrow> None)"

definition first_start_up :: "string option dict \<Rightarrow> string list \<Rightarrow> nat \<Rightarrow> string \<Rightarrow> string \<Rightarrow> bool" where
  "first_start_up parent_of starts n e s = (up parent_of n e = Some s \<and> s \<in> set starts \<and> (\<forall>m < n. \<forall>q. up parent_of m e = Some q \<longrightarrow> q \<notin> set starts))"

lemma up_add: "up p m e = Some q \<Longrightarrow> up p (m + k) e = up p k q"
  by (induction m arbitrary: e) (auto split: option.splits)

lemma first_start_up_Suc:
  "first_start_up p starts (Suc n) e s \<longleftrightarrow> e \<notin> set starts \<and> (\<exists>q. dget p e = Some (Some q) \<and> first_start_up p starts n q s)"
  by (auto simp: first_start_up_def less_Suc_eq_0_disj split: option.splits)

lemma attempt_above_None: "attempt_above p starts seen None = None"
  by (simp add: attempt_above.simps)

lemma attempt_above_Some:
  "attempt_above p starts seen (Some c) =
     (if c \<in> set seen then None else if c \<in> set starts then Some c
      else case dget p c of None \<Rightarrow> None | Some q \<Rightarrow> attempt_above p starts (c # seen) q)"
  by (subst attempt_above.simps) simp

lemma attempt_above_sound: "attempt_above p starts seen (Some e) = Some s \<Longrightarrow> \<exists>n. first_start_up p starts n e s"
proof (induction p starts seen "Some e" arbitrary: e rule: attempt_above.induct)
  case (1 p starts seen)
  show ?case
  proof (cases "e \<in> set starts")
    case True
    then have "first_start_up p starts 0 e s" using "1.prems" by (auto simp: first_start_up_def attempt_above_Some split: if_splits)
    then show ?thesis ..
  next
    case False
    then obtain r where r: "dget p e = Some r" "e \<notin> set seen" "attempt_above p starts (e # seen) r = Some s"
      using "1.prems" by (auto simp: attempt_above_Some split: if_splits option.splits)
    then obtain q where q: "r = Some q" by (cases r) (auto simp: attempt_above_None)
    then show ?thesis using "1.hyps" False r first_start_up_Suc [of p starts _ e s] by blast
  qed
qed

lemma attempt_above_complete:
  "first_start_up p starts n e s \<Longrightarrow> (\<And>m q. m \<le> n \<Longrightarrow> up p m e = Some q \<Longrightarrow> q \<notin> set seen) \<Longrightarrow> attempt_above p starts seen (Some e) = Some s"
proof (induction n arbitrary: e seen)
  case 0
  then show ?case using "0.prems"(2) [of 0 e] by (auto simp: attempt_above_Some first_start_up_def)
next
  case (Suc n)
  obtain q where q: "e \<notin> set starts" "dget p e = Some (Some q)" "first_start_up p starts n q s"
    using Suc.prems(1) by (auto simp: first_start_up_Suc)
  have "r \<notin> set (e # seen)" if "m \<le> n" "up p m q = Some r" for m r
  proof -
    have r: "up p (Suc m) e = Some r" using that(2) q(2) by simp
    have "r \<noteq> e"
    proof
      assume "r = e"
      then have "up p (n - m) e = up p (Suc n) e" using up_add [OF r, of "n - m"] that(1) by simp
      moreover have "n - m < Suc n" by simp
      ultimately show False using Suc.prems(1) unfolding first_start_up_def by metis
    qed
    with Suc.prems(2) [OF _ r] that(1) show ?thesis by simp
  qed
  then have "attempt_above p starts (e # seen) (Some q) = Some s" using Suc.IH q(3) by blast
  then show ?case using Suc.prems(2) [of 0 e] q by (simp add: attempt_above_Some)
qed

text \<open>The walk up the parents of an event finds the attempt \<open>s\<close> exactly when \<open>s\<close> is the first start of an attempt on the way
  up; parents that go in a circle give none. It always ends.\<close>

theorem attempt_is_first_start_up:
  "attempt_above parent_of starts [] (Some e) = Some s \<longleftrightarrow> (\<exists>n. first_start_up parent_of starts n e s)"
  using attempt_above_sound attempt_above_complete [of parent_of starts _ e s "[]"] by fastforce

end
