(* ===== verification/Token_Pool.thy ===== *)
theory Token_Pool
  imports Failure "HOL-Library.List_Lexorder" "HOL-Library.Char_ord"
begin

text \<open>
  The pool of subscription tokens (\<^verbatim>\<open>temper_ai/llm/token_pool.py\<close>), the coolings every process shares
  (\<^verbatim>\<open>temper_ai/llm/shared_cooldowns.py\<close>) and the weekly figures that move an agent off a spent account
  (\<^verbatim>\<open>temper_ai/llm/week_usage.py\<close>).

  Times are epoch seconds. An operation reads the clock once here; in the code the readings of one operation may lie a
  moment apart. Redis is a parameter: each command gives its new state, or nothing when it raised, and what the code
  relies on is \<open>redis_ok\<close>. The digest of a text, in hexadecimal digits, is a parameter too.
\<close>

section \<open>Redis\<close>

record 'r redis =
  rd_connects :: "'r \<Rightarrow> bool"
  rd_zadd_gt :: "string \<Rightarrow> string \<Rightarrow> rat \<Rightarrow> 'r \<Rightarrow> 'r option"
  rd_zremrangebyscore :: "string \<Rightarrow> rat \<Rightarrow> 'r \<Rightarrow> 'r option"
  rd_expire :: "string \<Rightarrow> rat \<Rightarrow> 'r \<Rightarrow> 'r option"
  rd_zrangebyscore :: "string \<Rightarrow> rat \<Rightarrow> 'r \<Rightarrow> (string \<times> rat) list option"
  rd_hset :: "string \<Rightarrow> string \<Rightarrow> string \<Rightarrow> 'r \<Rightarrow> 'r option"
  rd_hgetall :: "string \<Rightarrow> 'r \<Rightarrow> string dict option"
  rd_delete :: "string \<Rightarrow> 'r \<Rightarrow> 'r option"
  rd_zscore :: "string \<Rightarrow> string \<Rightarrow> 'r \<Rightarrow> rat option"

text \<open>
  The commands of a sorted set as Redis documents them. \<open>zadd\<close> with \<open>GT\<close> adds a member or raises its score and never
  lowers it, \<open>zremrangebyscore\<close> takes the members away up to a score, \<open>zrangebyscore\<close> lists those from a score on, and
  \<open>expire\<close> changes no score now.
\<close>

definition redis_ok :: "'r redis \<Rightarrow> bool" where
  "redis_ok rd =
     ((\<forall>k m u r r'. rd_zadd_gt rd k m u r = Some r' \<longrightarrow>
         (\<forall>k' m'. rd_zscore rd k' m' r' =
            (if k' = k \<and> m' = m then Some (case rd_zscore rd k m r of None \<Rightarrow> u | Some v \<Rightarrow> max u v) else rd_zscore rd k' m' r))) \<and>
      (\<forall>k t r r'. rd_zremrangebyscore rd k t r = Some r' \<longrightarrow>
         (\<forall>k' m'. rd_zscore rd k' m' r' = (case rd_zscore rd k' m' r of Some v \<Rightarrow> if k' = k \<and> v \<le> t then None else Some v | None \<Rightarrow> None))) \<and>
      (\<forall>k s r r'. rd_expire rd k s r = Some r' \<longrightarrow> (\<forall>k' m'. rd_zscore rd k' m' r' = rd_zscore rd k' m' r)) \<and>
      (\<forall>k t r rows. rd_zrangebyscore rd k t r = Some rows \<longrightarrow>
         distinct (map fst rows) \<and> (\<forall>m v. (m, v) \<in> set rows \<longleftrightarrow> rd_zscore rd k m r = Some v \<and> t \<le> v)))"

section \<open>A client that fails open\<close>

definition RETRY_AFTER_S :: rat where "RETRY_AFTER_S = 30"

record client =
  cl_enabled :: bool
  cl_connected :: bool
  cl_down_until :: rat

definition went_down :: "rat \<Rightarrow> client \<Rightarrow> client" where
  "went_down now cl = cl\<lparr>cl_down_until := now + RETRY_AFTER_S\<rparr>"

text \<open>Whether there is a client to ask.\<close>

definition usable_client :: "'r redis \<Rightarrow> 'r \<Rightarrow> rat \<Rightarrow> client \<Rightarrow> bool \<times> client" where
  "usable_client rd r now cl =
     (if \<not> cl_enabled cl \<or> now < cl_down_until cl then (False, cl)
      else if cl_connected cl then (True, cl)
      else if rd_connects rd r then (True, cl\<lparr>cl_connected := True\<rparr>)
      else (False, went_down now cl))"

section \<open>Coolings every process shares\<close>

definition KEY_PREFIX :: string where "KEY_PREFIX = ''temper:cooldowns:''"
definition PULL_EVERY_S :: rat where "PULL_EVERY_S = 1"
definition KEEP_S :: rat where "KEEP_S = 8 * 24 * 3600"

type_synonym coolings = "((string \<times> string) \<times> rat) list"

type_synonym digest = "string \<Rightarrow> string"

definition fingerprint :: "digest \<Rightarrow> string \<Rightarrow> string" where
  "fingerprint sha token = take 16 (sha token)"

text \<open>\<open>int(s, 16)\<close>\<close>

definition hex_value :: "string \<Rightarrow> nat" where
  "hex_value s = foldl (\<lambda>n c. 16 * n + (if is_digit c then of_char c - 48 else of_char c - 87)) 0 s"

definition digest_ok :: "digest \<Rightarrow> bool" where
  "digest_ok sha = (\<forall>s. sha s \<noteq> [] \<and> set (sha s) \<subseteq> set (map hex_digit [0..<16]))"

record shared_cooldowns =
  sc_client :: client
  sc_seen :: "(rat \<times> coolings) dict"

definition score_of :: "coolings \<Rightarrow> string \<times> string \<Rightarrow> rat" where
  "score_of cs k = (case map_of cs k of None \<Rightarrow> 0 | Some u \<Rightarrow> u)"

definition still_on :: "rat \<Rightarrow> coolings \<Rightarrow> coolings" where
  "still_on now cs = filter (\<lambda>p. now < snd p) cs"

definition member_of :: "digest \<Rightarrow> string \<Rightarrow> string \<Rightarrow> string" where
  "member_of sha family token = family @ ''|'' @ fingerprint sha token"

definition note_seen :: "digest \<Rightarrow> string \<Rightarrow> string \<Rightarrow> string \<Rightarrow> rat \<Rightarrow> shared_cooldowns \<Rightarrow> shared_cooldowns" where
  "note_seen sha pool family token until sc =
     (case dget (sc_seen sc) pool of
        None \<Rightarrow> sc
      | Some (read_at, cs) \<Rightarrow>
          if score_of cs (family, fingerprint sha token) < until
          then sc\<lparr>sc_seen := dset pool (read_at, AList.update (family, fingerprint sha token) until cs) (sc_seen sc)\<rparr> else sc)"

definition push :: "'r redis \<Rightarrow> digest \<Rightarrow> string \<Rightarrow> string \<Rightarrow> string \<Rightarrow> rat \<Rightarrow> rat \<Rightarrow> shared_cooldowns \<times> 'r \<Rightarrow> shared_cooldowns \<times> 'r" where
  "push rd sha pool family token until now s =
     (case s of (sc0, r) \<Rightarrow>
        (let key = KEY_PREFIX @ pool; sc = note_seen sha pool family token until sc0
         in case usable_client rd r now (sc_client sc) of
              (False, cl) \<Rightarrow> (sc\<lparr>sc_client := cl\<rparr>, r)
            | (True, cl) \<Rightarrow>
                (case rd_zadd_gt rd key (member_of sha family token) until r of
                   None \<Rightarrow> (sc\<lparr>sc_client := went_down now cl\<rparr>, r)
                 | Some r1 \<Rightarrow>
                     (case rd_zremrangebyscore rd key now r1 of
                        None \<Rightarrow> (sc\<lparr>sc_client := went_down now cl\<rparr>, r1)
                      | Some r2 \<Rightarrow>
                          (case rd_expire rd key KEEP_S r2 of
                             None \<Rightarrow> (sc\<lparr>sc_client := went_down now cl\<rparr>, r2)
                           | Some r3 \<Rightarrow> (sc\<lparr>sc_client := cl\<rparr>, r3))))))"

text \<open>\<open>rpartition\<close>: at the last bar.\<close>

definition member_parts :: "string \<Rightarrow> string \<times> string" where
  "member_parts m =
     (if CHR ''|'' \<in> set m
      then (rev (tl (dropWhile (\<lambda>c. c \<noteq> CHR ''|'') (rev m))), rev (takeWhile (\<lambda>c. c \<noteq> CHR ''|'') (rev m)))
      else ([], m))"

definition read_rows :: "(string \<times> rat) list \<Rightarrow> coolings" where
  "read_rows rows =
     fold (\<lambda>(m, v) cs. case member_parts m of (family, fp) \<Rightarrow> if family \<noteq> [] \<and> fp \<noteq> [] then AList.update (family, fp) v cs else cs) rows []"

definition last_seen :: "string \<Rightarrow> rat \<Rightarrow> shared_cooldowns \<Rightarrow> coolings" where
  "last_seen pool now sc = (case dget (sc_seen sc) pool of None \<Rightarrow> [] | Some (read_at, cs) \<Rightarrow> still_on now cs)"

definition pull :: "'r redis \<Rightarrow> string \<Rightarrow> rat \<Rightarrow> 'r \<Rightarrow> shared_cooldowns \<Rightarrow> coolings \<times> shared_cooldowns" where
  "pull rd pool now r sc =
     (let fresh = (case dget (sc_seen sc) pool of None \<Rightarrow> False | Some (read_at, cs) \<Rightarrow> now - read_at < PULL_EVERY_S)
      in if fresh then (last_seen pool now sc, sc)
         else case usable_client rd r now (sc_client sc) of
                (False, cl) \<Rightarrow> (last_seen pool now sc, sc\<lparr>sc_client := cl\<rparr>)
              | (True, cl) \<Rightarrow>
                  (case rd_zrangebyscore rd (KEY_PREFIX @ pool) now r of
                     None \<Rightarrow> (last_seen pool now sc, sc\<lparr>sc_client := went_down now cl\<rparr>)
                   | Some rows \<Rightarrow> (read_rows rows, sc\<lparr>sc_client := cl, sc_seen := dset pool (now, read_rows rows) (sc_seen sc)\<rparr>)))"

definition clear_shared :: "'r redis \<Rightarrow> string \<Rightarrow> rat \<Rightarrow> shared_cooldowns \<times> 'r \<Rightarrow> shared_cooldowns \<times> 'r" where
  "clear_shared rd pool now s =
     (case s of (sc0, r) \<Rightarrow>
        (let sc = sc0\<lparr>sc_seen := ddel pool (sc_seen sc0)\<rparr>
         in case usable_client rd r now (sc_client sc) of
              (False, cl) \<Rightarrow> (sc\<lparr>sc_client := cl\<rparr>, r)
            | (True, cl) \<Rightarrow>
                (case rd_delete rd (KEY_PREFIX @ pool) r of
                   None \<Rightarrow> (sc\<lparr>sc_client := went_down now cl\<rparr>, r)
                 | Some r1 \<Rightarrow> (sc\<lparr>sc_client := cl\<rparr>, r1))))"

text \<open>A later token with the same fingerprint takes the place of an earlier one.\<close>

definition by_fingerprint :: "digest \<Rightarrow> string list \<Rightarrow> string \<Rightarrow> string option" where
  "by_fingerprint sha tokens fp = find (\<lambda>t. fingerprint sha t = fp) (rev tokens)"

definition for_tokens :: "digest \<Rightarrow> string list \<Rightarrow> coolings \<Rightarrow> coolings" where
  "for_tokens sha tokens shared =
     fold (\<lambda>((family, fp), u) cs. case by_fingerprint sha tokens fp of Some t \<Rightarrow> AList.update (family, t) u cs | None \<Rightarrow> cs) shared []"

section \<open>The week of an account\<close>

definition WEEK_KEY :: string where "WEEK_KEY = ''temper:week_usage''"
definition WEEKLY_PREFIX :: string where "WEEKLY_PREFIX = ''seven_day''"
definition DEFAULT_LINE :: rat where "DEFAULT_LINE = 9 / 10"
definition NO_RESET_HOLD_S :: rat where "NO_RESET_HOLD_S = 2 * 3600"
definition WEEK_PULL_EVERY_S :: rat where "WEEK_PULL_EVERY_S = 5"
definition WEEK_KEEP_S :: rat where "WEEK_KEEP_S = 8 * 24 * 3600"

record figure =
  fg_label :: string
  fg_kind :: string
  fg_used :: rat
  fg_seen_at :: rat
  fg_resets_at :: "rat option"

definition in_force :: "rat \<Rightarrow> figure \<Rightarrow> bool" where
  "in_force now f = (case fg_resets_at f of Some t \<Rightarrow> now < t | None \<Rightarrow> now - fg_seen_at f < NO_RESET_HOLD_S)"

text \<open>\<open>_share\<close> and \<open>_epoch\<close>; \<open>iso_time\<close> reads an ISO time.\<close>

definition share_of :: "pyval \<Rightarrow> rat option" where
  "share_of v =
     (let fraction = (\<lambda>q. if q < 0 then None else Some (if 3 / 2 < q then q / 100 else q))
      in case v of PInt i \<Rightarrow> fraction (of_int i) | PFloat q \<Rightarrow> fraction q | _ \<Rightarrow> None)"

definition epoch_of :: "(string \<Rightarrow> rat option) \<Rightarrow> pyval \<Rightarrow> rat option" where
  "epoch_of iso_time v =
     (let seconds = (\<lambda>q. if q \<le> 0 then None else Some (if 10 ^ 11 < q then q / 1000 else q))
      in case v of
           PInt i \<Rightarrow> seconds (of_int i)
         | PFloat q \<Rightarrow> seconds q
         | PStr s \<Rightarrow> if strip s = [] then None else iso_time (strip s)
         | _ \<Rightarrow> None)"

text \<open>The weekly figures of a \<open>rate_limit_event\<close>: the highest of a kind, its reset with it.\<close>

type_synonym found_figures = "(rat \<times> rat option) dict"

definition add_figure :: "(string \<Rightarrow> rat option) \<Rightarrow> pyval \<Rightarrow> pyval \<Rightarrow> pyval \<Rightarrow> found_figures \<Rightarrow> found_figures" where
  "add_figure iso_time kind value resets found =
     (case (kind, share_of value) of
        (PStr k, Some share) \<Rightarrow>
          if startswith WEEKLY_PREFIX k \<and> (case dget found k of None \<Rightarrow> True | Some (s, _) \<Rightarrow> s < share)
          then dset k (share, epoch_of iso_time resets) found else found
      | _ \<Rightarrow> found)"

definition figures_in_event :: "(string \<Rightarrow> rat option) \<Rightarrow> pyval \<Rightarrow> found_figures" where
  "figures_in_event iso_time event =
     (case event of
        PDict e \<Rightarrow>
          (case (dget e ''type'', dget e ''rate_limit_info'') of
             (Some (PStr t), Some (PDict info)) \<Rightarrow>
               if t \<noteq> ''rate_limit_event'' then []
               else (let windows = (case dget info ''unifiedWindows'' of Some (PDict ws) \<Rightarrow> ws | _ \<Rightarrow> []);
                         listed = fold (\<lambda>(kind, window) found. case window of
                             PDict w \<Rightarrow> add_figure iso_time (PStr kind) (dget_or w ''utilization'' PNone) (dget_or w ''resetsAt'' PNone) found
                           | _ \<Rightarrow> found) windows []
                     in add_figure iso_time (dget_or info ''rateLimitType'' PNone) (dget_or info ''utilization'' PNone)
                          (dget_or info ''resetsAt'' PNone) listed)
           | _ \<Rightarrow> [])
      | _ \<Rightarrow> [])"

type_synonym figures = "((string \<times> string) \<times> figure) list"

record week_usage =
  wu_client :: client
  wu_mine :: figures
  wu_shared :: figures
  wu_pulled_at :: "rat option"

text \<open>JSON, as far as a figure needs it.\<close>

record figure_json =
  fj_dumps :: "pyval \<Rightarrow> string"
  fj_loads :: "string \<Rightarrow> pyval option"
  fj_iso :: "string \<Rightarrow> rat option"

definition figure_to_json :: "figure_json \<Rightarrow> figure \<Rightarrow> string" where
  "figure_to_json fj f =
     fj_dumps fj (PDict [(''used'', PFloat (fg_used f)), (''seen_at'', PFloat (fg_seen_at f)),
       (''resets_at'', case fg_resets_at f of None \<Rightarrow> PNone | Some t \<Rightarrow> PFloat t)])"

definition figure_from_json :: "figure_json \<Rightarrow> string \<Rightarrow> string \<Rightarrow> string \<Rightarrow> figure option" where
  "figure_from_json fj label kind raw =
     (case fj_loads fj raw of
        Some (PDict d) \<Rightarrow>
          (case (share_of (dget_or d ''used'' PNone), Option.bind (dget d ''seen_at'') py_float) of
             (Some share, Some seen_at) \<Rightarrow>
               Some \<lparr>fg_label = label, fg_kind = kind, fg_used = share, fg_seen_at = seen_at,
                     fg_resets_at = epoch_of (fj_iso fj) (dget_or d ''resets_at'' PNone)\<rparr>
           | _ \<Rightarrow> None)
      | _ \<Rightarrow> None)"

definition note_figure :: "'r redis \<Rightarrow> figure_json \<Rightarrow> string \<Rightarrow> string \<Rightarrow> rat \<Rightarrow> rat option \<Rightarrow> rat \<Rightarrow> week_usage \<times> 'r \<Rightarrow> week_usage \<times> 'r" where
  "note_figure rd fj label kind share resets_at now s =
     (case s of (wu0, r) \<Rightarrow>
        (let f = \<lparr>fg_label = label, fg_kind = kind, fg_used = share, fg_seen_at = now, fg_resets_at = resets_at\<rparr>;
             wu = wu0\<lparr>wu_mine := AList.update (label, kind) f (wu_mine wu0)\<rparr>
         in case usable_client rd r now (wu_client wu) of
              (False, cl) \<Rightarrow> (wu\<lparr>wu_client := cl\<rparr>, r)
            | (True, cl) \<Rightarrow>
                (case rd_hset rd WEEK_KEY (label @ ''|'' @ kind) (figure_to_json fj f) r of
                   None \<Rightarrow> (wu\<lparr>wu_client := went_down now cl\<rparr>, r)
                 | Some r1 \<Rightarrow>
                     (case rd_expire rd WEEK_KEY WEEK_KEEP_S r1 of
                        None \<Rightarrow> (wu\<lparr>wu_client := went_down now cl\<rparr>, r1)
                      | Some r2 \<Rightarrow> (wu\<lparr>wu_client := cl\<rparr>, r2)))))"

definition note_event :: "'r redis \<Rightarrow> figure_json \<Rightarrow> string \<Rightarrow> pyval \<Rightarrow> rat \<Rightarrow> week_usage \<times> 'r \<Rightarrow> week_usage \<times> 'r" where
  "note_event rd fj label event now s =
     (if label = [] then s
      else fold (\<lambda>(kind, share, resets). note_figure rd fj label kind share resets now) (figures_in_event (fj_iso fj) event) s)"

definition read_figures :: "figure_json \<Rightarrow> string dict \<Rightarrow> figures" where
  "read_figures fj rows =
     fold (\<lambda>(field, raw) fs. case member_parts field of (label, kind) \<Rightarrow>
        (if label = [] \<or> kind = [] then fs
         else case figure_from_json fj label kind raw of None \<Rightarrow> fs | Some f \<Rightarrow> AList.update (label, kind) f fs)) rows []"

definition week_pull :: "'r redis \<Rightarrow> figure_json \<Rightarrow> rat \<Rightarrow> 'r \<Rightarrow> week_usage \<Rightarrow> week_usage" where
  "week_pull rd fj now r wu =
     (if (case wu_pulled_at wu of None \<Rightarrow> False | Some t \<Rightarrow> now - t < WEEK_PULL_EVERY_S) then wu
      else case usable_client rd r now (wu_client wu) of
             (False, cl) \<Rightarrow> wu\<lparr>wu_client := cl\<rparr>
           | (True, cl) \<Rightarrow>
               (case rd_hgetall rd WEEK_KEY r of
                  None \<Rightarrow> wu\<lparr>wu_client := went_down now cl\<rparr>
                | Some rows \<Rightarrow> wu\<lparr>wu_client := cl, wu_shared := read_figures fj rows, wu_pulled_at := Some now\<rparr>))"

text \<open>The figures after a pull: the shared ones, and the process's own where it saw later.\<close>

definition merged_figures :: "week_usage \<Rightarrow> figures" where
  "merged_figures wu =
     fold (\<lambda>(k, f) fs. case map_of fs k of
         None \<Rightarrow> AList.update k f fs
       | Some g \<Rightarrow> if fg_seen_at g \<le> fg_seen_at f then AList.update k f fs else fs) (wu_mine wu) (wu_shared wu)"

text \<open>\<open>max(xs, key=f)\<close>: the first of the highest.\<close>

fun first_max :: "('a \<Rightarrow> 'b::linorder) \<Rightarrow> 'a \<Rightarrow> 'a list \<Rightarrow> 'a" where
  "first_max f x [] = x"
| "first_max f x (y # ys) = first_max f (if f x < f y then y else x) ys"

definition highest :: "figure list \<Rightarrow> string \<Rightarrow> rat \<Rightarrow> figure option" where
  "highest fs label now =
     (case filter (\<lambda>f. fg_label f = label \<and> startswith WEEKLY_PREFIX (fg_kind f) \<and> in_force now f) fs of
        [] \<Rightarrow> None | f # rest \<Rightarrow> Some (first_max fg_used f rest))"

definition over_line :: "figure list \<Rightarrow> rat \<Rightarrow> rat \<Rightarrow> string \<Rightarrow> figure option" where
  "over_line fs line now label = (case highest fs label now of None \<Rightarrow> None | Some f \<Rightarrow> if line \<le> fg_used f then Some f else None)"

text \<open>\<open>_read_line\<close>: the file's value where it is a share of a week; \<open>None\<close> is a file that cannot be read.\<close>

definition read_line :: "pyval option \<Rightarrow> rat" where
  "read_line parsed =
     (case parsed of
        None \<Rightarrow> DEFAULT_LINE
      | Some v \<Rightarrow>
          (let raw = (if truthy v then v else PDict []);
               block = (case raw of PDict d \<Rightarrow> dget_or d ''pools'' raw | _ \<Rightarrow> PDict []);
               value = (case block of PDict d \<Rightarrow> dget_or d ''week_line'' (PFloat DEFAULT_LINE) | _ \<Rightarrow> PFloat DEFAULT_LINE)
           in case share_of value of None \<Rightarrow> DEFAULT_LINE | Some q \<Rightarrow> if 0 < q \<and> q \<le> 1 then q else DEFAULT_LINE))"

text \<open>The first eight of the 32 bytes of the digest, which are sixteen digits.\<close>

definition rendezvous_weight :: "digest \<Rightarrow> string \<Rightarrow> string \<Rightarrow> nat" where
  "rendezvous_weight sha key label = hex_value (take 16 (sha (key @ ''|'' @ label)))"

definition heaviest :: "digest \<Rightarrow> (string \<Rightarrow> string) \<Rightarrow> string \<Rightarrow> string list \<Rightarrow> string" where
  "heaviest sha label_of key ts = (case ts of [] \<Rightarrow> [] | t # rest \<Rightarrow> first_max (\<lambda>t. rendezvous_weight sha key (label_of t)) t rest)"

definition under_line :: "(string \<Rightarrow> bool) \<Rightarrow> (string \<Rightarrow> string) \<Rightarrow> string list \<Rightarrow> string list" where
  "under_line over label_of usable = filter (\<lambda>t. \<not> over (label_of t)) usable"

definition stays_on :: "(string \<Rightarrow> bool) \<Rightarrow> (string \<Rightarrow> string) \<Rightarrow> string option \<Rightarrow> string list \<Rightarrow> bool" where
  "stays_on over label_of first usable =
     (case first of None \<Rightarrow> False | Some f \<Rightarrow> f \<in> set usable \<and> (\<not> over (label_of f) \<or> under_line over label_of usable = []))"

definition candidates :: "(string \<Rightarrow> bool) \<Rightarrow> (string \<Rightarrow> string) \<Rightarrow> string list \<Rightarrow> string list" where
  "candidates over label_of usable = (if under_line over label_of usable = [] then usable else under_line over label_of usable)"

definition choose_account :: "digest \<Rightarrow> (string list \<Rightarrow> string) \<Rightarrow> (string \<Rightarrow> bool) \<Rightarrow> (string \<Rightarrow> string) \<Rightarrow> string option \<Rightarrow> string option \<Rightarrow> string list \<Rightarrow> string option" where
  "choose_account sha random over label_of key first usable =
     (if usable = [] then None
      else if stays_on over label_of first usable then first
      else case key of
             None \<Rightarrow> Some (random (candidates over label_of usable))
           | Some k \<Rightarrow> Some (heaviest sha label_of k (candidates over label_of usable)))"

section \<open>The pool\<close>

definition DEFAULT_COOLDOWN_S :: rat where "DEFAULT_COOLDOWN_S = 15 * 60"
definition MIN_COOLDOWN_S :: rat where "MIN_COOLDOWN_S = 5"
definition RESET_PAD_S :: rat where "RESET_PAD_S = 30"
definition KNOWN_FAMILIES :: "string list" where "KNOWN_FAMILIES = [''opus'', ''sonnet'', ''haiku'', ''fable'']"
definition ANY_MODEL :: string where "ANY_MODEL = ''*''"

definition model_family :: "string option \<Rightarrow> string" where
  "model_family model =
     (case model of
        Some (c # cs) \<Rightarrow> (case find (\<lambda>f. has_sub f (lower (c # cs))) KNOWN_FAMILIES of Some f \<Rightarrow> f | None \<Rightarrow> lower (c # cs))
      | _ \<Rightarrow> ANY_MODEL)"

definition sticky_key_from_kwargs :: "pyval dict \<Rightarrow> string option" where
  "sticky_key_from_kwargs kwargs =
     (let session_id = dget_or kwargs ''session_id'' PNone; run_id = dget_or kwargs ''execution_id'' PNone;
          agent_name = dget_or kwargs ''agent_name'' PNone
      in if truthy session_id then Some (py_str session_id)
         else if truthy run_id \<and> truthy agent_name then Some (py_str run_id @ ''-'' @ py_str agent_name) else None)"

text \<open>An exhausted pool, with the size of the pool and the soonest end of a cooling.\<close>

datatype pool_exhausted = PoolExhausted nat "rat option"

record token_pool =
  tp_name :: string
  tp_tokens :: "string list"
  tp_labels :: "string list"
  tp_cooldown :: coolings
  tp_default_slot :: nat

record 'r pool_env =
  pe_redis :: "'r redis"
  pe_sha :: digest
  pe_json :: figure_json
  pe_random :: "string list \<Rightarrow> string"
  pe_line :: rat

text \<open>One process and the Redis it talks to.\<close>

record 'r pool_world =
  pw_pool :: token_pool
  pw_shared :: shared_cooldowns
  pw_week :: week_usage
  pw_redis :: 'r

definition index_of :: "token_pool \<Rightarrow> string \<Rightarrow> nat option" where
  "index_of tp token = (let i = length (takeWhile (\<lambda>t. t \<noteq> token) (tp_tokens tp)) in if i < length (tp_tokens tp) then Some i else None)"

definition label_of :: "token_pool \<Rightarrow> string \<Rightarrow> string" where
  "label_of tp token =
     (case index_of tp token of
        Some i \<Rightarrow> if i < length (tp_labels tp) \<and> tp_labels tp ! i \<noteq> [] then tp_labels tp ! i else ''slot '' @ nat_str i
      | None \<Rightarrow> ''slot -1'')"

definition sync_pool :: "'r pool_env \<Rightarrow> rat \<Rightarrow> 'r pool_world \<Rightarrow> 'r pool_world" where
  "sync_pool pe now w =
     (case pull (pe_redis pe) (tp_name (pw_pool w)) now (pw_redis w) (pw_shared w) of (shared, sc) \<Rightarrow>
        (let found = for_tokens (pe_sha pe) (tp_tokens (pw_pool w)) shared;
             cooldown = fold (\<lambda>(k, u) cs. if score_of cs k < u then AList.update k u cs else cs) found (tp_cooldown (pw_pool w))
         in w\<lparr>pw_shared := sc, pw_pool := (pw_pool w)\<lparr>tp_cooldown := cooldown\<rparr>\<rparr>))"

definition blocked_until :: "coolings \<Rightarrow> string \<Rightarrow> string \<Rightarrow> rat" where
  "blocked_until cs token family =
     (if family = ANY_MODEL then (case map snd (filter (\<lambda>p. snd (fst p) = token) cs) of [] \<Rightarrow> 0 | u # us \<Rightarrow> fold max us u)
      else max (score_of cs (family, token)) (score_of cs (ANY_MODEL, token)))"

definition blocked :: "'r pool_world \<Rightarrow> string option \<Rightarrow> string \<Rightarrow> rat" where
  "blocked w model token = blocked_until (tp_cooldown (pw_pool w)) token (model_family model)"

definition cooling_until :: "'r pool_env \<Rightarrow> rat \<Rightarrow> string \<Rightarrow> string option \<Rightarrow> 'r pool_world \<Rightarrow> rat option \<times> 'r pool_world" where
  "cooling_until pe now token model w0 =
     (let w = sync_pool pe now w0; until = blocked w model token in (if now < until then Some until else None, w))"

definition available :: "'r pool_env \<Rightarrow> rat \<Rightarrow> string option \<Rightarrow> 'r pool_world \<Rightarrow> string list \<times> 'r pool_world" where
  "available pe now model w0 = (let w = sync_pool pe now w0 in (filter (\<lambda>t. blocked w model t < now) (tp_tokens (pw_pool w)), w))"

definition soonest_reset :: "'r pool_env \<Rightarrow> rat \<Rightarrow> string option \<Rightarrow> 'r pool_world \<Rightarrow> rat option \<times> 'r pool_world" where
  "soonest_reset pe now model w0 =
     (let w = sync_pool pe now w0
      in (case filter (\<lambda>u. now < u) (map (blocked w model) (tp_tokens (pw_pool w))) of [] \<Rightarrow> None | u # us \<Rightarrow> Some (fold min us u), w))"

definition sticky_slot :: "'r pool_env \<Rightarrow> token_pool \<Rightarrow> string option \<Rightarrow> string \<times> string" where
  "sticky_slot pe tp sticky_key =
     (case sticky_key of
        Some (c # cs) \<Rightarrow>
          if 1 < length (tp_tokens tp) then (tp_tokens tp ! (hex_value (pe_sha pe (c # cs)) mod length (tp_tokens tp)), c # cs)
          else (tp_tokens tp ! (tp_default_slot tp mod length (tp_tokens tp)), ''default-'' @ nat_str (tp_default_slot tp))
      | _ \<Rightarrow> (tp_tokens tp ! (tp_default_slot tp mod length (tp_tokens tp)), ''default-'' @ nat_str (tp_default_slot tp)))"

definition nearly_spent :: "'r pool_env \<Rightarrow> rat \<Rightarrow> 'r pool_world \<Rightarrow> string \<Rightarrow> bool" where
  "nearly_spent pe now w label = (over_line (map snd (merged_figures (pw_week w))) (pe_line pe) now label \<noteq> None)"

definition pick :: "'r pool_env \<Rightarrow> rat \<Rightarrow> string option \<Rightarrow> string option \<Rightarrow> string set \<Rightarrow> 'r pool_world \<Rightarrow> (pool_exhausted + string) \<times> 'r pool_world" where
  "pick pe now sticky_key model exclude w0 =
     (if tp_tokens (pw_pool w0) = [] then (Inl (PoolExhausted 0 None), w0)
      else case available pe now model w0 of (free, w1) \<Rightarrow>
        (let usable = filter (\<lambda>t. t \<notin> exclude) free
         in if usable = []
            then (case soonest_reset pe now model w1 of (reset, w2) \<Rightarrow> (Inl (PoolExhausted (length (tp_tokens (pw_pool w2))) reset), w2))
            else (let tp = pw_pool w1;
                      w2 = w1\<lparr>pw_week := week_pull (pe_redis pe) (pe_json pe) now (pw_redis w1) (pw_week w1)\<rparr>;
                      slot = sticky_slot pe tp sticky_key
                  in (Inr (case choose_account (pe_sha pe) (pe_random pe) (nearly_spent pe now w2) (label_of tp) (Some (snd slot)) (Some (fst slot)) usable of
                             None \<Rightarrow> hd usable | Some t \<Rightarrow> t), w2))))"

definition cool_deadline :: "rat \<Rightarrow> rat option \<Rightarrow> rat" where
  "cool_deadline now until =
     (let d = (case until of Some u \<Rightarrow> if u = 0 then now + DEFAULT_COOLDOWN_S else u + RESET_PAD_S | None \<Rightarrow> now + DEFAULT_COOLDOWN_S)
      in max d (now + MIN_COOLDOWN_S))"

definition cool :: "'r pool_env \<Rightarrow> rat \<Rightarrow> string \<Rightarrow> rat option \<Rightarrow> string option \<Rightarrow> 'r pool_world \<Rightarrow> rat \<times> 'r pool_world" where
  "cool pe now token until model w =
     (let d = cool_deadline now until; family = model_family model; tp = pw_pool w
      in case push (pe_redis pe) (pe_sha pe) (tp_name tp) family token d now (pw_shared w, pw_redis w) of (sc, r) \<Rightarrow>
           (d, snd (available pe now model
                 (w\<lparr>pw_pool := tp\<lparr>tp_cooldown := AList.update (family, token) d (tp_cooldown tp)\<rparr>, pw_shared := sc, pw_redis := r\<rparr>))))"

definition clear_cooldowns :: "'r pool_env \<Rightarrow> rat \<Rightarrow> 'r pool_world \<Rightarrow> 'r pool_world" where
  "clear_cooldowns pe now w =
     (case clear_shared (pe_redis pe) (tp_name (pw_pool w)) now (pw_shared w, pw_redis w) of (sc, r) \<Rightarrow>
        w\<lparr>pw_pool := (pw_pool w)\<lparr>tp_cooldown := []\<rparr>, pw_shared := sc, pw_redis := r\<rparr>)"

text \<open>What the pool can serve, family by family: how many slots, the soonest end of a cooling, and each slot's own.\<close>

record family_state =
  fs_size :: nat
  fs_available :: nat
  fs_soonest_reset :: "rat option"
  fs_slots :: "(string \<times> rat option) list"

definition family_state_of :: "rat \<Rightarrow> token_pool \<Rightarrow> string \<Rightarrow> family_state" where
  "family_state_of now tp family =
     (let untils = map (\<lambda>t. blocked_until (tp_cooldown tp) t family) (tp_tokens tp); pending = filter (\<lambda>u. now < u) untils
      in \<lparr>fs_size = length (tp_tokens tp), fs_available = length untils - length pending,
          fs_soonest_reset = (case pending of [] \<Rightarrow> None | u # us \<Rightarrow> Some (fold min us u)),
          fs_slots = map (\<lambda>(t, u). (label_of tp t, if now < u then Some u else None)) (zip (tp_tokens tp) untils)\<rparr>)"

definition pool_state :: "'r pool_env \<Rightarrow> rat \<Rightarrow> 'r pool_world \<Rightarrow> family_state dict \<times> 'r pool_world" where
  "pool_state pe now w0 =
     (let w = sync_pool pe now w0; tp = pw_pool w;
          others = sort (remdups (filter (\<lambda>f. f \<notin> set KNOWN_FAMILIES \<and> f \<noteq> ANY_MODEL) (map (fst \<circ> fst) (tp_cooldown tp))))
      in (map (\<lambda>f. (f, family_state_of now tp f)) (KNOWN_FAMILIES @ others), w))"

section \<open>What a pick gives\<close>

lemma first_max_in: "first_max f x xs \<in> set (x # xs)"
  by (induction xs arbitrary: x) (auto split: if_splits)

lemma heaviest_in: "ts \<noteq> [] \<Longrightarrow> heaviest sha lb k ts \<in> set ts"
  by (cases ts) (simp_all add: heaviest_def first_max_in [simplified])

lemma candidates_sub: "set (candidates over lb usable) \<subseteq> set usable"
  by (simp add: candidates_def under_line_def)

lemma candidates_Nil [simp]: "candidates over lb usable = [] \<longleftrightarrow> usable = []"
  by (auto simp: candidates_def under_line_def)

lemma candidates_over: "t \<in> set (candidates over lb usable) \<Longrightarrow> over (lb t) \<Longrightarrow> u \<in> set usable \<Longrightarrow> over (lb u)"
  by (auto simp: candidates_def under_line_def filter_empty_conv split: if_splits)

text \<open>With a key the choice is a usable account, and one under the line while there is one.\<close>

lemma choose_account_sound:
  assumes "usable \<noteq> []"
  shows "\<exists>t \<in> set usable. choose_account sha rnd over lb (Some k) first usable = Some t \<and> (over (lb t) \<longrightarrow> (\<forall>u \<in> set usable. over (lb u)))"
proof (cases "stays_on over lb first usable")
  case True
  then show ?thesis using assms by (auto simp: choose_account_def stays_on_def under_line_def filter_empty_conv split: option.splits)
next
  case False
  have "heaviest sha lb k (candidates over lb usable) \<in> set (candidates over lb usable)" using assms by (intro heaviest_in) simp
  then show ?thesis using False assms candidates_sub candidates_over by (fastforce simp: choose_account_def)
qed

lemma sync_pool_fields [simp]:
  "tp_tokens (pw_pool (sync_pool pe now w)) = tp_tokens (pw_pool w)" "tp_labels (pw_pool (sync_pool pe now w)) = tp_labels (pw_pool w)"
  "tp_name (pw_pool (sync_pool pe now w)) = tp_name (pw_pool w)" "pw_redis (sync_pool pe now w) = pw_redis w"
  "pw_week (sync_pool pe now w) = pw_week w"
  by (simp_all add: sync_pool_def Let_def split: prod.split)

definition usable_now :: "rat \<Rightarrow> string option \<Rightarrow> string set \<Rightarrow> 'r pool_world \<Rightarrow> string \<Rightarrow> bool" where
  "usable_now now model exclude w t = (t \<in> set (tp_tokens (pw_pool w)) \<and> t \<notin> exclude \<and> blocked w model t < now)"

lemma usable_now_set: "set (filter (\<lambda>t. t \<notin> exclude) (fst (available pe now model w))) = {t. usable_now now model exclude (sync_pool pe now w) t}"
  by (auto simp: available_def usable_now_def Let_def)

lemma usable_now_week [simp]: "usable_now now model exclude (w\<lparr>pw_week := v\<rparr>) t = usable_now now model exclude w t"
  by (simp add: usable_now_def blocked_def)

abbreviation usable_list :: "'r pool_env \<Rightarrow> rat \<Rightarrow> string option \<Rightarrow> string set \<Rightarrow> 'r pool_world \<Rightarrow> string list" where
  "usable_list pe now model exclude w \<equiv> filter (\<lambda>t. t \<notin> exclude) (fst (available pe now model w))"

definition world_at_choice :: "'r pool_env \<Rightarrow> rat \<Rightarrow> 'r pool_world \<Rightarrow> 'r pool_world" where
  "world_at_choice pe now w =
     (let w1 = sync_pool pe now w in w1\<lparr>pw_week := week_pull (pe_redis pe) (pe_json pe) now (pw_redis w1) (pw_week w1)\<rparr>)"

definition choice :: "'r pool_env \<Rightarrow> rat \<Rightarrow> string option \<Rightarrow> string list \<Rightarrow> 'r pool_world \<Rightarrow> string option" where
  "choice pe now key usable w =
     (let slot = sticky_slot pe (pw_pool w) key
      in choose_account (pe_sha pe) (pe_random pe) (nearly_spent pe now w) (label_of (pw_pool w)) (Some (snd slot)) (Some (fst slot)) usable)"

lemma snd_available: "snd (available pe now model w) = sync_pool pe now w"
  by (simp add: available_def Let_def)

lemma pick_eq:
  assumes "usable_list pe now model exclude w \<noteq> []"
  shows "pick pe now key model exclude w =
    (Inr (case choice pe now key (usable_list pe now model exclude w) (world_at_choice pe now w) of
            None \<Rightarrow> hd (usable_list pe now model exclude w) | Some t \<Rightarrow> t), world_at_choice pe now w)"
proof -
  have ne: "tp_tokens (pw_pool w) \<noteq> []" using assms by (auto simp: available_def Let_def)
  obtain free w1 where av: "available pe now model w = (free, w1)" by (cases "available pe now model w")
  then have "w1 = sync_pool pe now w" using snd_available [of pe now model w] by simp
  then show ?thesis using ne assms av by (simp add: pick_def choice_def world_at_choice_def Let_def split: option.split)
qed

lemma pick_eq_exhausted:
  assumes "usable_list pe now model exclude w = []"
  shows "\<exists>e w'. pick pe now key model exclude w = (Inl e, w')"
  using assms by (auto simp: pick_def Let_def split: prod.splits)

lemma pick_sound:
  assumes "pick pe now key model exclude w = (Inr t, w')"
  shows "w' = world_at_choice pe now w" and "t \<in> set (usable_list pe now model exclude w)"
    and "nearly_spent pe now w' (label_of (pw_pool w') t) \<Longrightarrow> u \<in> set (usable_list pe now model exclude w) \<Longrightarrow>
      nearly_spent pe now w' (label_of (pw_pool w') u)"
proof -
  let ?us = "usable_list pe now model exclude w"
  have ne: "?us \<noteq> []" using assms pick_eq_exhausted [of exclude pe now model w key] by auto
  then show w': "w' = world_at_choice pe now w" using assms pick_eq [OF ne, of key] by auto
  have t: "t = (case choice pe now key ?us w' of None \<Rightarrow> hd ?us | Some t \<Rightarrow> t)" using assms pick_eq [OF ne, of key] w' by auto
  have "t \<in> set ?us \<and> (nearly_spent pe now w' (label_of (pw_pool w') t) \<longrightarrow> (\<forall>u \<in> set ?us. nearly_spent pe now w' (label_of (pw_pool w') u)))"
    using choose_account_sound [OF ne, of "pe_sha pe" "pe_random pe" "nearly_spent pe now w'" "label_of (pw_pool w')"
        "snd (sticky_slot pe (pw_pool w') key)" "Some (fst (sticky_slot pe (pw_pool w') key))"] t
    by (auto simp: choice_def Let_def)
  then show "t \<in> set ?us" "nearly_spent pe now w' (label_of (pw_pool w') t) \<Longrightarrow> u \<in> set ?us \<Longrightarrow> nearly_spent pe now w' (label_of (pw_pool w') u)" by blast+
qed

text \<open>C32: A pick gives a token of the pool that is not excluded and not cooling for the model's family, by every cooling this process
  knows after looking at the others'; and never one of an account over the week line while a usable account is under it.\<close>

theorem pick_gives_usable_token:
  assumes "pick pe now key model exclude w = (Inr t, w')"
  shows "usable_now now model exclude w' t \<and>
    (nearly_spent pe now w' (label_of (pw_pool w') t) \<longrightarrow> (\<forall>u. usable_now now model exclude w' u \<longrightarrow> nearly_spent pe now w' (label_of (pw_pool w') u)))"
proof -
  have "usable_now now model exclude w' = usable_now now model exclude (sync_pool pe now w)"
    unfolding pick_sound(1) [OF assms] world_at_choice_def Let_def by (rule ext) simp
  then show ?thesis using pick_sound(2,3) [OF assms] unfolding usable_now_set by auto
qed

text \<open>The pool says it is exhausted exactly when every token is excluded or cooling for the model's family.\<close>

theorem pick_exhausted_iff:
  "(\<exists>e w'. pick pe now key model exclude w = (Inl e, w')) \<longleftrightarrow> (\<nexists>t. usable_now now model exclude (sync_pool pe now w) t)"
proof -
  have "usable_list pe now model exclude w = [] \<longleftrightarrow> (\<nexists>t. usable_now now model exclude (sync_pool pe now w) t)"
    unfolding set_empty [symmetric] usable_now_set by blast
  then show ?thesis using pick_eq pick_eq_exhausted by (metis Inl_Inr_False Pair_inject)
qed

section \<open>An agent stays on its account\<close>

definition is_first_max :: "('a \<Rightarrow> 'b::linorder) \<Rightarrow> 'a \<Rightarrow> 'a list \<Rightarrow> bool" where
  "is_first_max f m zs = (\<exists>as bs. zs = as @ m # bs \<and> (\<forall>a \<in> set as. f a < f m) \<and> (\<forall>b \<in> set bs. f b \<le> f m))"

lemma is_first_maxI: "zs = as @ m # bs \<Longrightarrow> \<forall>a \<in> set as. f a < f m \<Longrightarrow> \<forall>b \<in> set bs. f b \<le> f m \<Longrightarrow> is_first_max f m zs"
  by (auto simp: is_first_max_def)

lemma first_max_split: "is_first_max f (first_max f x xs) (x # xs)"
proof (induction xs arbitrary: x)
  case Nil
  show ?case by (rule is_first_maxI [of _ "[]" _ "[]"]) simp_all
next
  case (Cons y ys)
  let ?z = "if f x < f y then y else x"
  obtain m as bs where m: "first_max f x (y # ys) = m"
    and ab: "?z # ys = as @ m # bs" "\<forall>a \<in> set as. f a < f m" "\<forall>b \<in> set bs. f b \<le> f m"
    using Cons.IH [of ?z] unfolding is_first_max_def by (metis first_max.simps(2))
  have "?z \<in> set (as @ m # bs)" using ab(1) by (metis list.set_intros(1))
  then have zm: "f ?z \<le> f m" using ab by auto
  show ?case unfolding m
  proof (cases "f x < f y")
    case True
    then show "is_first_max f m (x # y # ys)" using ab zm by (intro is_first_maxI [of _ "x # as" _ bs]) auto
  next
    case False
    then show "is_first_max f m (x # y # ys)"
    proof (cases as)
      case Nil
      then show ?thesis using ab False by (intro is_first_maxI [of _ "[]" _ "y # ys"]) auto
    next
      case (Cons a as')
      then show ?thesis using ab False by (intro is_first_maxI [of _ "x # y # as'" _ bs]) auto
    qed
  qed
qed

lemma first_max_unique:
  "x # xs = as @ m # bs \<Longrightarrow> \<forall>a \<in> set as. f a < f m \<Longrightarrow> \<forall>b \<in> set bs. f b \<le> f m \<Longrightarrow> first_max f x xs = m"
proof (induction xs arbitrary: x as bs)
  case Nil
  then show ?case by (cases as) auto
next
  case (Cons y ys)
  show ?case
  proof (cases as)
    case Nil
    then have "x = m" "bs = y # ys" using Cons.prems by auto
    then show ?thesis using Cons.IH [of x "[]" ys] Cons.prems by auto
  next
    case (Cons a as')
    note as = this
    show ?thesis
    proof (cases as')
      case Nil
      then show ?thesis using Cons.prems as Cons.IH [of m "[]" bs] by auto
    next
      case (Cons b as'')
      then show ?thesis using Cons.prems as Cons.IH [of "if f x < f y then y else x" "(if f x < f y then y else x) # as''" bs] by auto
    qed
  qed
qed

lemma heaviest_filter:
  assumes "ts \<noteq> []" and "P (heaviest sha lb k ts)"
  shows "heaviest sha lb k (filter P ts) = heaviest sha lb k ts"
proof -
  let ?f = "\<lambda>t. rendezvous_weight sha k (lb t)" and ?m = "heaviest sha lb k ts"
  obtain x xs where ts: "ts = x # xs" using assms(1) by (cases ts) auto
  then obtain as bs where ab: "ts = as @ ?m # bs" "\<forall>a \<in> set as. ?f a < ?f ?m" "\<forall>b \<in> set bs. ?f b \<le> ?f ?m"
    using first_max_split [of ?f x xs] unfolding is_first_max_def by (metis heaviest_def list.simps(5))
  then have "filter P ts = filter P as @ ?m # filter P bs" using assms(2) by (metis filter.simps(2) filter_append)
  moreover from this obtain y ys where y: "filter P ts = y # ys" by (metis append_is_Nil_conv list.distinct(1) list.exhaust)
  ultimately have "first_max ?f y ys = ?m" using ab by (intro first_max_unique [of y ys "filter P as" _ "filter P bs"]) auto
  then show ?thesis using y by (subst heaviest_def) simp
qed

lemma under_line_filter: "under_line over lb (filter P us) = filter P (under_line over lb us)"
  by (simp add: under_line_def conj_commute)

text \<open>An agent moves only off an account that is no longer usable: whatever other accounts are taken away, cooled or excluded,
  the same key keeps its account, so its prompt cache stays warm.\<close>

theorem moved_agent_stays:
  assumes "choose_account sha rnd over lb (Some k) first usable = Some t" and "P t"
  shows "choose_account sha rnd over lb (Some k) first (filter P usable) = Some t"
proof -
  have t: "t \<in> set usable" using assms(1) choose_account_sound [of usable sha rnd over lb k first] by (cases "usable = []") (auto simp: choose_account_def)
  then have ne: "filter P usable \<noteq> []" using assms(2) by (auto simp: filter_empty_conv)
  show ?thesis
  proof (cases "stays_on over lb first usable")
    case True
    then have "first = Some t" using assms(1) t by (auto simp: choose_account_def split: if_splits)
    moreover have "stays_on over lb first (filter P usable)" using True calculation assms(2) by (auto simp: stays_on_def under_line_filter)
    ultimately show ?thesis using ne by (simp add: choose_account_def)
  next
    case False
    have h: "t = heaviest sha lb k (candidates over lb usable)" using False assms(1) t by (auto simp: choose_account_def split: if_splits)
    have tc: "t \<in> set (candidates over lb usable)" unfolding h using t by (intro heaviest_in) auto
    have c: "candidates over lb (filter P usable) = filter P (candidates over lb usable)"
      using tc assms(2) by (auto simp: candidates_def under_line_filter filter_empty_conv)
    have "\<not> stays_on over lb first (filter P usable)"
      using False tc assms(2) by (auto simp: stays_on_def under_line_filter candidates_def filter_empty_conv split: option.splits if_splits)
    moreover have "heaviest sha lb k (filter P (candidates over lb usable)) = t" unfolding h using assms(2) h t by (intro heaviest_filter) auto
    ultimately show ?thesis using ne c by (simp add: choose_account_def)
  qed
qed

section \<open>A limit is found once\<close>

lemma hex_digit_no_bar: "n < 16 \<Longrightarrow> hex_digit n \<noteq> CHR ''|''"
proof
  assume "n < 16" "hex_digit n = CHR ''|''"
  then have "(of_char (hex_digit n) :: nat) = 124" by simp
  with \<open>n < 16\<close> show False by (auto simp: hex_digit_def split: if_splits)
qed

lemma fingerprint_no_bar: "digest_ok sha \<Longrightarrow> CHR ''|'' \<notin> set (fingerprint sha t)"
  using hex_digit_no_bar unfolding digest_ok_def fingerprint_def by (fastforce dest: in_set_takeD)

lemma fingerprint_nonempty: "digest_ok sha \<Longrightarrow> fingerprint sha t \<noteq> []"
  by (simp add: digest_ok_def fingerprint_def)

lemma member_parts_join: "CHR ''|'' \<notin> set fp \<Longrightarrow> member_parts (family @ ''|'' @ fp) = (family, fp)"
  unfolding member_parts_def by (simp add: dropWhile_append3 takeWhile_append takeWhile_eq_all_conv [THEN iffD2] dropWhile_append)

lemma member_parts_split: "member_parts m = (family, fp) \<Longrightarrow> family \<noteq> [] \<Longrightarrow> m = family @ ''|'' @ fp"
proof -
  assume parts: "member_parts m = (family, fp)" and ne: "family \<noteq> []"
  let ?d = "dropWhile (\<lambda>c. c \<noteq> CHR ''|'') (rev m)" and ?t = "takeWhile (\<lambda>c. c \<noteq> CHR ''|'') (rev m)"
  have bar: "CHR ''|'' \<in> set m" and fam: "family = rev (tl ?d)" and fp: "fp = rev ?t"
    using parts ne by (auto simp: member_parts_def split: if_splits)
  have "?d \<noteq> []" using bar by (simp add: dropWhile_eq_Nil_conv)
  then have "?d = CHR ''|'' # tl ?d" using hd_dropWhile [of "\<lambda>c. c \<noteq> CHR ''|''" "rev m"] by (metis list.collapse)
  then have "rev m = ?t @ CHR ''|'' # tl ?d" by (metis takeWhile_dropWhile_id)
  then have "m = rev (?t @ CHR ''|'' # tl ?d)" by (metis rev_rev_ident)
  then show ?thesis using fam fp by simp
qed

text \<open>What is read back from the board: writing one entry after the other, a key has the value of the one entry that names it.\<close>

lemma fold_update_lookup:
  assumes "distinct (map fst xs)" and "\<And>x v. key x = Some k \<longleftrightarrow> x = x0"
  shows "map_of (fold (\<lambda>(x, v) cs. case key x of Some k' \<Rightarrow> AList.update k' v cs | None \<Rightarrow> cs) xs cs) k =
    (case map_of xs x0 of Some v \<Rightarrow> Some v | None \<Rightarrow> map_of cs k)"
  using assms(1)
proof (induction xs arbitrary: cs)
  case (Cons p xs)
  obtain x v where p: "p = (x, v)" by (cases p)
  let ?cs = "case key x of Some k' \<Rightarrow> AList.update k' v cs | None \<Rightarrow> cs"
  have cs: "map_of ?cs k = (if x = x0 then Some v else map_of cs k)"
    using assms(2) [of x] by (auto simp: update_conv' split: option.split)
  have "map_of xs x0 = None" if "x = x0" using Cons.prems that by (simp add: p map_of_eq_None_iff)
  then show ?case using Cons.IH [of ?cs] Cons.prems cs by (auto simp: p split: option.split)
qed simp

definition row_key :: "string \<Rightarrow> (string \<times> string) option" where
  "row_key m = (case member_parts m of (family, fp) \<Rightarrow> if family \<noteq> [] \<and> fp \<noteq> [] then Some (family, fp) else None)"

lemma row_key_iff:
  assumes "family \<noteq> []" and "fp \<noteq> []" and "CHR ''|'' \<notin> set fp"
  shows "row_key m = Some (family, fp) \<longleftrightarrow> m = family @ ''|'' @ fp"
  using assms member_parts_join [OF assms(3), of family] member_parts_split [of m family fp] by (auto simp: row_key_def split: prod.splits if_splits)

lemma read_rows_lookup:
  assumes "distinct (map fst rows)" and "family \<noteq> []" and "digest_ok sha"
  shows "map_of (read_rows rows) (family, fingerprint sha t) = map_of rows (member_of sha family t)"
proof -
  have "read_rows rows = fold (\<lambda>(m, v) cs. case row_key m of Some k' \<Rightarrow> AList.update k' v cs | None \<Rightarrow> cs) rows []"
    unfolding read_rows_def row_key_def by (rule arg_cong [where f = "\<lambda>g. fold g rows []"]) (auto simp: fun_eq_iff split: prod.split)
  then show ?thesis
    using fold_update_lookup [OF assms(1), of row_key "(family, fingerprint sha t)" "member_of sha family t" "[]"] row_key_iff assms(2) fingerprint_no_bar [OF assms(3)] fingerprint_nonempty [OF assms(3)]
    by (auto simp: member_of_def split: option.splits)
qed

lemma for_tokens_lookup:
  assumes "distinct (map fst shared)" and "by_fingerprint sha tokens (fingerprint sha t) = Some t"
  shows "map_of (for_tokens sha tokens shared) (family, t) = map_of shared (family, fingerprint sha t)"
proof -
  let ?key = "\<lambda>(f, fp). map_option (Pair f) (by_fingerprint sha tokens fp)"
  have fp: "by_fingerprint sha tokens fp = Some t \<longleftrightarrow> fp = fingerprint sha t" for fp
    using assms(2) find_Some_iff [of "\<lambda>t. fingerprint sha t = fp" "rev tokens" t] unfolding by_fingerprint_def by metis
  have key: "?key x = Some (family, t) \<longleftrightarrow> x = (family, fingerprint sha t)" for x by (cases x) (auto simp: fp)
  have "for_tokens sha tokens shared = fold (\<lambda>(x, v) cs. case ?key x of Some k' \<Rightarrow> AList.update k' v cs | None \<Rightarrow> cs) shared []"
    unfolding for_tokens_def by (rule arg_cong [where f = "\<lambda>g. fold g shared []"]) (auto simp: fun_eq_iff split: prod.split option.split)
  then show ?thesis using fold_update_lookup [OF assms(1), of ?key "(family, t)" "(family, fingerprint sha t)" "[]"] key by (auto split: option.splits)
qed

definition raise_all :: "coolings \<Rightarrow> coolings \<Rightarrow> coolings" where
  "raise_all found cs = fold (\<lambda>(k, u) cs. if score_of cs k < u then AList.update k u cs else cs) found cs"

lemma raise_all_ge: "score_of cs k \<le> score_of (raise_all found cs) k \<and> (\<forall>u. (k, u) \<in> set found \<longrightarrow> u \<le> score_of (raise_all found cs) k)"
proof (induction found arbitrary: cs)
  case (Cons p found)
  obtain k' u' where p: "p = (k', u')" by (cases p)
  let ?cs = "if score_of cs k' < u' then AList.update k' u' cs else cs"
  have "score_of cs k \<le> score_of ?cs k" "k = k' \<Longrightarrow> u' \<le> score_of ?cs k" by (auto simp: score_of_def update_conv')
  moreover have "raise_all (p # found) cs = raise_all found ?cs" by (simp add: raise_all_def p)
  ultimately show ?case using Cons.IH [of ?cs] p by fastforce
qed (simp add: raise_all_def)

lemma redis_okD:
  assumes "redis_ok rd"
  shows "rd_zadd_gt rd k m u r = Some r' \<Longrightarrow> rd_zscore rd k' m' r' =
      (if k' = k \<and> m' = m then Some (case rd_zscore rd k m r of None \<Rightarrow> u | Some v \<Rightarrow> max u v) else rd_zscore rd k' m' r)"
    and "rd_zremrangebyscore rd k t r = Some r' \<Longrightarrow>
      rd_zscore rd k' m' r' = (case rd_zscore rd k' m' r of Some v \<Rightarrow> if k' = k \<and> v \<le> t then None else Some v | None \<Rightarrow> None)"
    and "rd_expire rd k s r = Some r' \<Longrightarrow> rd_zscore rd k' m' r' = rd_zscore rd k' m' r"
    and "rd_zrangebyscore rd k t r = Some rows \<Longrightarrow> distinct (map fst rows) \<and> (map_of rows m = Some v \<longleftrightarrow> rd_zscore rd k m r = Some v \<and> t \<le> v)"
proof -
  show "rd_zadd_gt rd k m u r = Some r' \<Longrightarrow> rd_zscore rd k' m' r' =
      (if k' = k \<and> m' = m then Some (case rd_zscore rd k m r of None \<Rightarrow> u | Some v \<Rightarrow> max u v) else rd_zscore rd k' m' r)"
    using conjunct1 [OF assms [unfolded redis_ok_def]] by blast
  show "rd_zremrangebyscore rd k t r = Some r' \<Longrightarrow>
      rd_zscore rd k' m' r' = (case rd_zscore rd k' m' r of Some v \<Rightarrow> if k' = k \<and> v \<le> t then None else Some v | None \<Rightarrow> None)"
    using conjunct2 [OF assms [unfolded redis_ok_def], THEN conjunct1] by blast
  show "rd_expire rd k s r = Some r' \<Longrightarrow> rd_zscore rd k' m' r' = rd_zscore rd k' m' r"
    using conjunct2 [OF assms [unfolded redis_ok_def], THEN conjunct2, THEN conjunct1] by blast
  assume "rd_zrangebyscore rd k t r = Some rows"
  then have "distinct (map fst rows)" "(m, v) \<in> set rows \<longleftrightarrow> rd_zscore rd k m r = Some v \<and> t \<le> v"
    using conjunct2 [OF assms [unfolded redis_ok_def], THEN conjunct2, THEN conjunct2] by blast+
  then show "distinct (map fst rows) \<and> (map_of rows m = Some v \<longleftrightarrow> rd_zscore rd k m r = Some v \<and> t \<le> v)"
    by (simp add: map_of_eq_Some_iff)
qed

text \<open>Redis is reachable and answers.\<close>

definition redis_up :: "'r redis \<Rightarrow> bool" where
  "redis_up rd =
     ((\<forall>r. rd_connects rd r) \<and> (\<forall>k m u r. rd_zadd_gt rd k m u r \<noteq> None) \<and> (\<forall>k t r. rd_zremrangebyscore rd k t r \<noteq> None) \<and>
      (\<forall>k t r. rd_expire rd k t r \<noteq> None) \<and> (\<forall>k t r. rd_zrangebyscore rd k t r \<noteq> None))"

lemma usable_client_up: "redis_up rd \<Longrightarrow> cl_enabled cl \<Longrightarrow> cl_down_until cl \<le> now \<Longrightarrow> \<exists>cl'. usable_client rd r now cl = (True, cl')"
  by (auto simp: usable_client_def redis_up_def)

definition at_least :: "'r redis \<Rightarrow> string \<Rightarrow> string \<Rightarrow> rat \<Rightarrow> 'r \<Rightarrow> bool" where
  "at_least rd k m d r = (\<exists>v. rd_zscore rd k m r = Some v \<and> d \<le> v)"

text \<open>Nobody's push lowers a score before its time has come, whatever of the push fails on the way.\<close>

lemma push_keeps:
  assumes "redis_ok rd" and "at_least rd k m d r" and "now < d" and "push rd sha pool family token until now (sc, r) = (sc', r')"
  shows "at_least rd k m d r'"
proof -
  note D = redis_okD [OF assms(1)]
  have add: "at_least rd k m d r1" if "rd_zadd_gt rd k' m' u r0 = Some r1" "at_least rd k m d r0" for r0 r1 k' m' u
    using D(1) [OF that(1), of k m] that(2) by (auto simp: at_least_def split: if_splits option.splits)
  have rem: "at_least rd k m d r1" if "rd_zremrangebyscore rd k' now r0 = Some r1" "at_least rd k m d r0" for r0 r1 k'
    using D(2) [OF that(1), of k m] that(2) assms(3) by (auto simp: at_least_def)
  have ex: "at_least rd k m d r1" if "rd_expire rd k' t r0 = Some r1" "at_least rd k m d r0" for r0 r1 k' t
    using D(3) [OF that(1), of k m] that(2) by (auto simp: at_least_def)
  show ?thesis using assms(2,4) by (auto simp: push_def Let_def split: prod.splits bool.splits option.splits intro: add rem ex)
      (blast intro: add rem ex)
qed

lemma push_adds:
  assumes ok: "redis_ok rd" and up: "redis_up rd" and cl: "cl_enabled (sc_client sc)" "cl_down_until (sc_client sc) \<le> now" and "now < until"
    and push: "push rd sha pool family token until now (sc, r) = (sc', r')"
  shows "at_least rd (KEY_PREFIX @ pool) (member_of sha family token) until r'"
proof -
  let ?k = "KEY_PREFIX @ pool" and ?m = "member_of sha family token"
  note D = redis_okD [OF ok]
  have cl': "sc_client (note_seen sha pool family token until sc) = sc_client sc" by (simp add: note_seen_def split: option.split prod.split)
  obtain cl1 where c: "usable_client rd r now (sc_client sc) = (True, cl1)" using usable_client_up [OF up cl] by blast
  obtain r1 r2 r3 where r: "rd_zadd_gt rd ?k ?m until r = Some r1" "rd_zremrangebyscore rd ?k now r1 = Some r2" "rd_expire rd ?k KEEP_S r2 = Some r3"
    using up unfolding redis_up_def by (metis option.exhaust)
  have "r' = r3" using push by (simp add: push_def Let_def cl' c r)
  moreover have "rd_zscore rd ?k ?m r1 = Some (case rd_zscore rd ?k ?m r of None \<Rightarrow> until | Some v \<Rightarrow> max until v)" using D(1) [OF r(1), of ?k ?m] by simp
  then obtain v where "rd_zscore rd ?k ?m r1 = Some v" "until \<le> v" by (auto split: option.splits)
  ultimately show ?thesis using D(2) [OF r(2), of ?k ?m] D(3) [OF r(3), of ?k ?m] \<open>now < until\<close> by (auto simp: at_least_def)
qed

text \<open>What happens on the board after a push: pushes of any process, of any pool, as time goes on.\<close>

inductive board_moves :: "'r redis \<Rightarrow> digest \<Rightarrow> rat \<Rightarrow> 'r \<Rightarrow> rat \<Rightarrow> 'r \<Rightarrow> bool" for rd sha t0 r0 where
  board_still: "t0 \<le> t \<Longrightarrow> board_moves rd sha t0 r0 t r0"
| board_push: "board_moves rd sha t0 r0 t r \<Longrightarrow> t \<le> t' \<Longrightarrow> push rd sha pool family token until t' (sc, r) = (sc', r') \<Longrightarrow> t' \<le> t'' \<Longrightarrow>
    board_moves rd sha t0 r0 t'' r'"

lemma board_keeps:
  assumes "redis_ok rd" "board_moves rd sha t0 r0 t r" "at_least rd k m d r0" "t < d"
  shows "at_least rd k m d r"
  using assms(2,4)
proof (induction rule: board_moves.induct)
  case (board_push t r t' pool family token until sc sc' r' t'')
  then show ?case using push_keeps [OF assms(1), of k m d r t' sha pool family token until sc sc' r'] by simp
qed (use assms(3) in simp)

lemma model_family_nonempty: "model_family model \<noteq> []"
  by (auto simp: model_family_def ANY_MODEL_def KNOWN_FAMILIES_def lower_def split: option.splits list.splits if_splits)

lemma sync_cooldown:
  "tp_cooldown (pw_pool (sync_pool pe now w)) =
     raise_all (for_tokens (pe_sha pe) (tp_tokens (pw_pool w)) (fst (pull (pe_redis pe) (tp_name (pw_pool w)) now (pw_redis w) (pw_shared w))))
       (tp_cooldown (pw_pool w))"
  by (simp add: sync_pool_def raise_all_def Let_def split: prod.split)

lemma read_rows_distinct: "distinct (map fst (read_rows rows))"
proof -
  have "distinct (map fst cs) \<Longrightarrow> distinct (map fst (fold (\<lambda>(m, v) cs. case member_parts m of (family, fp) \<Rightarrow>
      if family \<noteq> [] \<and> fp \<noteq> [] then AList.update (family, fp) v cs else cs) rows cs))" for cs
    by (induction rows arbitrary: cs) (auto simp: distinct_update split: prod.split)
  then show ?thesis by (simp add: read_rows_def)
qed

text \<open>A process that may read the board, and has not in the last second.\<close>

definition reads_board :: "rat \<Rightarrow> 'r pool_world \<Rightarrow> bool" where
  "reads_board now w =
     (cl_enabled (sc_client (pw_shared w)) \<and> cl_down_until (sc_client (pw_shared w)) \<le> now \<and>
      (case dget (sc_seen (pw_shared w)) (tp_name (pw_pool w)) of None \<Rightarrow> True | Some (read_at, _) \<Rightarrow> PULL_EVERY_S \<le> now - read_at))"

lemma by_fingerprint_own: "t \<in> set tokens \<Longrightarrow> inj_on (fingerprint sha) (set tokens) \<Longrightarrow> by_fingerprint sha tokens (fingerprint sha t) = Some t"
proof (cases "by_fingerprint sha tokens (fingerprint sha t)")
  case None
  moreover assume "t \<in> set tokens"
  ultimately show ?thesis by (auto simp: by_fingerprint_def find_None_iff)
next
  case (Some u)
  then have "u \<in> set tokens" "fingerprint sha u = fingerprint sha t"
    unfolding by_fingerprint_def by (auto simp: find_Some_iff) (metis nth_mem set_rev length_rev)
  moreover assume "t \<in> set tokens" "inj_on (fingerprint sha) (set tokens)"
  ultimately show ?thesis using Some by (auto dest: inj_onD)
qed

lemma sync_sees:
  assumes ok: "redis_ok (pe_redis pe)" and up: "redis_up (pe_redis pe)" and reads: "reads_board now w" and family: "family \<noteq> []" and sha: "digest_ok (pe_sha pe)"
    and board: "at_least (pe_redis pe) (KEY_PREFIX @ tp_name (pw_pool w)) (member_of (pe_sha pe) family token) d (pw_redis w)" and "now < d"
    and token: "token \<in> set (tp_tokens (pw_pool w))" "inj_on (fingerprint (pe_sha pe)) (set (tp_tokens (pw_pool w)))"
  shows "d \<le> score_of (tp_cooldown (pw_pool (sync_pool pe now w))) (family, token)"
proof -
  let ?rd = "pe_redis pe" and ?k = "KEY_PREFIX @ tp_name (pw_pool w)" and ?m = "member_of (pe_sha pe) family token"
  obtain v where v: "rd_zscore ?rd ?k ?m (pw_redis w) = Some v" "d \<le> v" using board by (auto simp: at_least_def)
  obtain rows where rows: "rd_zrangebyscore ?rd ?k now (pw_redis w) = Some rows" using up unfolding redis_up_def by (metis option.exhaust)
  obtain cl where cl: "usable_client ?rd (pw_redis w) now (sc_client (pw_shared w)) = (True, cl)"
    using usable_client_up [OF up] reads unfolding reads_board_def by blast
  have pulled: "fst (pull ?rd (tp_name (pw_pool w)) now (pw_redis w) (pw_shared w)) = read_rows rows"
    using reads rows cl by (auto simp: pull_def reads_board_def Let_def split: option.splits)
  have "map_of rows ?m = Some v" "distinct (map fst rows)" using redis_okD(4) [OF ok rows, of ?m v] v \<open>now < d\<close> by auto
  then have "map_of (read_rows rows) (family, fingerprint (pe_sha pe) token) = Some v" using read_rows_lookup family sha by simp
  moreover have "by_fingerprint (pe_sha pe) (tp_tokens (pw_pool w)) (fingerprint (pe_sha pe) token) = Some token"
    using token by (rule by_fingerprint_own)
  ultimately have "map_of (for_tokens (pe_sha pe) (tp_tokens (pw_pool w)) (read_rows rows)) (family, token) = Some v"
    using for_tokens_lookup read_rows_distinct by simp
  then have "((family, token), v) \<in> set (for_tokens (pe_sha pe) (tp_tokens (pw_pool w)) (read_rows rows))" by (rule map_of_SomeD)
  then show ?thesis unfolding sync_cooldown pulled using raise_all_ge v(2) by (meson order_trans)
qed

lemma fold_max_ge: "(u::rat) \<in> set (x # us) \<Longrightarrow> u \<le> fold max us x"
  by (simp add: Max.set_eq_fold [symmetric] del: list.set)

text \<open>A cooling counts for its own family, and one that names no model for every family; who asks for no model asks for all.\<close>

definition covers :: "string option \<Rightarrow> string option \<Rightarrow> bool" where
  "covers model model' = (model_family model = model_family model' \<or> model_family model = ANY_MODEL \<or> model_family model' = ANY_MODEL)"

lemma blocked_ge:
  assumes "covers model model'" and "0 < d" and d: "d \<le> score_of cs (model_family model, token)"
  shows "d \<le> blocked_until cs token (model_family model')"
proof (cases "model_family model' = ANY_MODEL")
  case True
  obtain v where "map_of cs (model_family model, token) = Some v" "d \<le> v" using assms(2) d by (auto simp: score_of_def split: option.splits)
  then have "v \<in> set (map snd (filter (\<lambda>p. snd (fst p) = token) cs))" using map_of_SomeD by force
  moreover from this obtain u us where us: "map snd (filter (\<lambda>p. snd (fst p) = token) cs) = u # us" by (metis list.set_cases)
  ultimately have "v \<le> fold max us u" using fold_max_ge by metis
  then show ?thesis using True \<open>d \<le> v\<close> us by (simp add: blocked_until_def)
next
  case False
  then show ?thesis using assms by (auto simp: blocked_until_def covers_def max.coboundedI1 max.coboundedI2)
qed

lemma cool_deadline_later: "now < cool_deadline now until"
  by (simp add: cool_deadline_def MIN_COOLDOWN_S_def Let_def less_max_iff_disj)

lemma pick_blocked:
  assumes "pick pe now key model exclude w = (Inr t, w')" and "now < d" and "d \<le> blocked (sync_pool pe now w) model token"
  shows "t \<noteq> token"
  using pick_sound(2) [OF assms(1)] assms(2,3) unfolding usable_now_set by (auto simp: usable_now_def)

text \<open>C33: A limit is found once. While Redis answers, the cooling one process notes keeps every other process from picking that
  token for a model it covers until it ends, whatever other coolings are noted in between: the other process only has to look at the
  board, which it does once a second.\<close>

theorem cooling_reaches_every_process:
  assumes "redis_ok (pe_redis pe)" and "redis_up (pe_redis pe)" and "digest_ok (pe_sha pe)" and "pe_redis pe' = pe_redis pe" and "pe_sha pe' = pe_sha pe"
    and "cool pe t0 token until model w = (d, w1)"
    and "cl_enabled (sc_client (pw_shared w))" and "cl_down_until (sc_client (pw_shared w)) \<le> t0"
    and "board_moves (pe_redis pe) (pe_sha pe) t0 (pw_redis w1) now (pw_redis v)" and "0 < now" and "now < d"
    and "tp_name (pw_pool v) = tp_name (pw_pool w)" and "token \<in> set (tp_tokens (pw_pool v))"
    and "inj_on (fingerprint (pe_sha pe)) (set (tp_tokens (pw_pool v)))" and "reads_board now v" and "covers model model'"
    and "pick pe' now key model' exclude v = (Inr t, v1)"
  shows "t \<noteq> token"
proof -
  let ?fam = "model_family model" and ?pool = "tp_name (pw_pool w)"
  obtain sc r where push: "push (pe_redis pe) (pe_sha pe) ?pool ?fam token (cool_deadline t0 until) t0 (pw_shared w, pw_redis w) = (sc, r)"
    by (cases "push (pe_redis pe) (pe_sha pe) ?pool ?fam token (cool_deadline t0 until) t0 (pw_shared w, pw_redis w)")
  then have d: "d = cool_deadline t0 until" and r: "pw_redis w1 = r"
    using assms(6) by (auto simp: cool_def Let_def snd_available)
  have "at_least (pe_redis pe) (KEY_PREFIX @ ?pool) (member_of (pe_sha pe) ?fam token) d r"
    using push_adds [OF assms(1,2,7,8) cool_deadline_later push] d by simp
  then have "at_least (pe_redis pe) (KEY_PREFIX @ ?pool) (member_of (pe_sha pe) ?fam token) d (pw_redis v)"
    using board_keeps [OF assms(1,9)] r assms(11) by simp
  then have "d \<le> score_of (tp_cooldown (pw_pool (sync_pool pe' now v))) (?fam, token)"
    using assms(1-5,11-15) by (intro sync_sees) (simp_all add: model_family_nonempty)
  then have "d \<le> blocked (sync_pool pe' now v) model' token" using blocked_ge [OF assms(16)] assms(10,11) by (simp add: blocked_def)
  then show ?thesis using pick_blocked [OF assms(17,11)] by simp
qed

section \<open>Examples\<close>

text \<open>A Redis of one sorted set a key, as a list.\<close>

definition list_redis :: "((string \<times> string) \<times> rat) list redis" where
  "list_redis =
     \<lparr>rd_connects = (\<lambda>_. True),
      rd_zadd_gt = (\<lambda>k m u r. Some (AList.update (k, m) (case map_of r (k, m) of None \<Rightarrow> u | Some v \<Rightarrow> max u v) r)),
      rd_zremrangebyscore = (\<lambda>k t r. Some (filter (\<lambda>((k', m'), v). case map_of r (k', m') of Some w \<Rightarrow> \<not> (k' = k \<and> w \<le> t) | None \<Rightarrow> True) r)),
      rd_expire = (\<lambda>k t r. Some r),
      rd_zrangebyscore = (\<lambda>k t r. Some (map (\<lambda>m. (m, the (map_of r (k, m))))
        (filter (\<lambda>m. case map_of r (k, m) of Some v \<Rightarrow> t \<le> v | None \<Rightarrow> False) (remdups (map (snd \<circ> fst) r))))),
      rd_hset = (\<lambda>_ _ _ r. Some r), rd_hgetall = (\<lambda>_ _. Some []), rd_delete = (\<lambda>k r. Some (filter (\<lambda>p. fst (fst p) \<noteq> k) r)),
      rd_zscore = (\<lambda>k m r. map_of r (k, m))\<rparr>"

lemma map_of_filter_by_key: "map_of (filter (\<lambda>(k, v). P k) r) k = (if P k then map_of r k else None)"
  by (induction r) auto

lemma list_redis_ok: "redis_ok list_redis"
  unfolding redis_ok_def
proof (intro conjI allI impI)
  fix k t r r' k' m' assume "rd_zremrangebyscore list_redis k t r = Some r'"
  then have "r' = filter (\<lambda>(k', v). case map_of r k' of Some w \<Rightarrow> \<not> (fst k' = k \<and> w \<le> t) | None \<Rightarrow> True) r"
    by (auto simp: list_redis_def intro!: filter_cong split: option.split)
  then show "rd_zscore list_redis k' m' r' = (case rd_zscore list_redis k' m' r of Some v \<Rightarrow> if k' = k \<and> v \<le> t then None else Some v | None \<Rightarrow> None)"
    by (simp add: list_redis_def map_of_filter_by_key split: option.split)
next
  fix k t r rows m v assume "rd_zrangebyscore list_redis k t r = Some rows"
  then show "((m, v) \<in> set rows) = (rd_zscore list_redis k m r = Some v \<and> t \<le> v)"
    by (auto simp: list_redis_def image_iff split: option.splits) (metis fst_conv map_of_SomeD snd_conv)
qed (auto simp: list_redis_def update_conv' o_def split: option.split)

lemma list_redis_up: "redis_up list_redis"
  by (simp add: redis_up_def list_redis_def)

definition demo_sha :: digest where
  "demo_sha s = replicate 14 CHR ''0'' @ (case s of [] \<Rightarrow> ''00'' | c # _ \<Rightarrow> [hex_digit (of_char c div 16 mod 16), hex_digit (of_char c mod 16)])"

lemma demo_sha_ok: "digest_ok demo_sha"
proof -
  have "hex_digit n \<in> hex_digit ` {0..<16}" if "n < 16" for n using that by (intro imageI) auto
  moreover have "CHR ''0'' = hex_digit 0" by code_simp
  ultimately show ?thesis by (auto simp: digest_ok_def demo_sha_def split: list.split)
qed

definition demo_pool_env :: "((string \<times> string) \<times> rat) list pool_env" where
  "demo_pool_env =
     \<lparr>pe_redis = list_redis, pe_sha = demo_sha, pe_json = \<lparr>fj_dumps = (\<lambda>_. []), fj_loads = (\<lambda>_. None), fj_iso = (\<lambda>_. None)\<rparr>,
      pe_random = hd, pe_line = DEFAULT_LINE\<rparr>"

definition demo_process :: "bool \<Rightarrow> string list \<Rightarrow> ((string \<times> string) \<times> rat) list \<Rightarrow> ((string \<times> string) \<times> rat) list pool_world" where
  "demo_process shares tokens r =
     (let cl = \<lparr>cl_enabled = shares, cl_connected = False, cl_down_until = 0\<rparr>
      in \<lparr>pw_pool = \<lparr>tp_name = ''pool'', tp_tokens = tokens, tp_labels = [], tp_cooldown = [], tp_default_slot = 0\<rparr>,
          pw_shared = \<lparr>sc_client = cl, sc_seen = []\<rparr>, pw_week = \<lparr>wu_client = cl, wu_mine = [], wu_shared = [], wu_pulled_at = None\<rparr>, pw_redis = r\<rparr>)"

definition demo_cooled :: "rat \<times> ((string \<times> string) \<times> rat) list pool_world" where
  "demo_cooled = cool demo_pool_env 100 ''a'' (Some 500) (Some ''opus'') (demo_process True [''a'', ''b''] [])"

lemma demo_pick: "fst (pick demo_pool_env 200 (Some ''b'') (Some ''claude-opus-5'') {} (demo_process True [''a'', ''b''] (pw_redis (snd demo_cooled)))) = Inr ''b''"
  by code_simp

theorem pick_gives_usable_token_witness:
  "\<exists>w'. pick demo_pool_env 200 (Some ''b'') (Some ''claude-opus-5'') {} (demo_process True [''a'', ''b''] (pw_redis (snd demo_cooled))) = (Inr ''b'', w') \<and>
     usable_now 200 (Some ''claude-opus-5'') {} w' ''b''"
proof -
  obtain w' where "pick demo_pool_env 200 (Some ''b'') (Some ''claude-opus-5'') {} (demo_process True [''a'', ''b''] (pw_redis (snd demo_cooled))) = (Inr ''b'', w')"
    using demo_pick by (metis prod.collapse)
  from this pick_gives_usable_token [OF this] show ?thesis by blast
qed

theorem cooling_reaches_every_process_witness:
  "fst (pick demo_pool_env 200 (Some ''b'') (Some ''claude-opus-5'') {} (demo_process True [''a'', ''b''] (pw_redis (snd demo_cooled)))) = Inr ''b'' \<and> ''b'' \<noteq> ''a''"
proof -
  obtain v1 where p: "pick demo_pool_env 200 (Some ''b'') (Some ''claude-opus-5'') {} (demo_process True [''a'', ''b''] (pw_redis (snd demo_cooled))) = (Inr ''b'', v1)"
    using demo_pick by (metis prod.collapse)
  have d: "fst demo_cooled = 530" by code_simp
  have "fingerprint demo_sha ''a'' \<noteq> fingerprint demo_sha ''b''" by code_simp
  then have inj: "inj_on (fingerprint demo_sha) {''a'', ''b''}" by (simp add: inj_on_def)
  have "covers (Some ''opus'') (Some ''claude-opus-5'')" by code_simp
  then have "''b'' \<noteq> ''a''"
    using cooling_reaches_every_process [OF _ _ _ refl refl, of demo_pool_env 100 "''a''" "Some 500" "Some ''opus''" "demo_process True [''a'', ''b''] []"
        "fst demo_cooled" "snd demo_cooled" 200 "demo_process True [''a'', ''b''] (pw_redis (snd demo_cooled))", OF _ _ _ _ _ _ _ _ _ _ _ _ _ _ p]
      list_redis_ok list_redis_up demo_sha_ok d inj
    by (simp add: demo_pool_env_def demo_cooled_def demo_process_def reads_board_def board_still Let_def)
  then show ?thesis using demo_pick by simp
qed

text \<open>
  A token cooled until its weekly reset, then cooled again by a refusal that names no reset: without Redis the second, shorter
  cooling takes the place of the first, and the token is handed out before its reset.
\<close>

theorem later_cooling_shortens:
  "(let w1 = snd (cool demo_pool_env 100 ''a'' (Some 100000) (Some ''opus'') (demo_process False [''a''] []));
        w2 = snd (cool demo_pool_env 200 ''a'' None (Some ''opus'') w1)
    in fst (cooling_until demo_pool_env 300 ''a'' (Some ''opus'') w1) = Some 100030 \<and> fst (pick demo_pool_env 2000 None (Some ''opus'') {} w2) = Inr ''a'')"
  by code_simp

text \<open>At the very moment a cooling ends the token is not available, but no cooling is pending either: the pool is exhausted and names no
  reset, and without one nobody waits.\<close>

theorem exhausted_with_no_reset:
  "(let w = snd (cool demo_pool_env 100 ''a'' (Some 500) (Some ''opus'') (demo_process False [''a''] []))
    in fst (pick demo_pool_env 530 None (Some ''opus'') {} w) = Inl (PoolExhausted 1 None) \<and> fst (cooling_until demo_pool_env 530 ''a'' (Some ''opus'') w) = None)"
  by code_simp

theorem moved_agent_stays_witness:
  "choose_account demo_sha hd (\<lambda>_. False) id (Some ''k'') (Some ''z'') [''a'', ''b'', ''c''] = Some ''a'' \<and>
   choose_account demo_sha hd (\<lambda>_. False) id (Some ''k'') (Some ''z'') [''a'', ''c''] = Some ''a''"
proof -
  have "choose_account demo_sha hd (\<lambda>_. False) id (Some ''k'') (Some ''z'') [''a'', ''b'', ''c''] = Some ''a''" by code_simp
  from this moved_agent_stays [OF this, of "\<lambda>t. t \<noteq> ''b''"] show ?thesis by simp
qed

end
