(* ===== verification/Calendar.thy ===== *)
theory Calendar
  imports Py_Prelude
begin

text \<open>
  What the code uses of Python's \<open>datetime\<close>: the calendar behind a day's number, and the text of a moment to the minute
  (\<open>strftime\<close>, \<open>fromisoformat\<close>). Days are counted as \<open>date.toordinal\<close> does, from 1 for the first of January of the year 1.
\<close>

section \<open>Days\<close>

definition is_leap :: "int \<Rightarrow> bool" where
  "is_leap y = (y mod 4 = 0 \<and> (y mod 100 \<noteq> 0 \<or> y mod 400 = 0))"

definition days_before_year :: "int \<Rightarrow> int" where
  "days_before_year y = (y - 1) * 365 + (y - 1) div 4 - (y - 1) div 100 + (y - 1) div 400"

definition month_days :: "int \<Rightarrow> int \<Rightarrow> int" where
  "month_days y m = (if m = 2 then (if is_leap y then 29 else 28) else if m \<in> {4, 6, 9, 11} then 30 else 31)"

definition days_before_month :: "int \<Rightarrow> int \<Rightarrow> int" where
  "days_before_month y m = sum_list (map (month_days y) [1..m - 1])"

definition ordinal :: "int \<Rightarrow> int \<Rightarrow> int \<Rightarrow> int" where
  "ordinal y m d = days_before_year y + days_before_month y m + d"

definition year_of :: "int \<Rightarrow> int" where
  "year_of n = (case find (\<lambda>y. n \<le> days_before_year (y + 1)) [max 1 (n div 366)..n div 365 + 1] of Some y \<Rightarrow> y | None \<Rightarrow> 0)"

definition month_of :: "int \<Rightarrow> int \<Rightarrow> int" where
  "month_of y rest = (case find (\<lambda>m. rest \<le> days_before_month y (m + 1)) [1..12] of Some m \<Rightarrow> m | None \<Rightarrow> 0)"

definition date_of :: "int \<Rightarrow> int \<times> int \<times> int" where
  "date_of n = (let y = year_of n; rest = n - days_before_year y; m = month_of y rest in (y, m, rest - days_before_month y m))"

definition valid_date :: "int \<Rightarrow> int \<Rightarrow> int \<Rightarrow> bool" where
  "valid_date y m d = (1 \<le> y \<and> 1 \<le> m \<and> m \<le> 12 \<and> 1 \<le> d \<and> d \<le> month_days y m)"

text \<open>Monday is 0.\<close>

definition weekday :: "int \<Rightarrow> int" where
  "weekday n = (n + 6) mod 7"

text \<open>The first of January 1970.\<close>

definition EPOCH :: int where "EPOCH = 719163"

section \<open>Text\<close>

definition pad :: "nat \<Rightarrow> int \<Rightarrow> string" where
  "pad k i = (let s = nat_str (nat i) in replicate (k - length s) CHR ''0'' @ s)"

text \<open>\<open>strftime\<close> with \<open>%Y-%m-%d %H:%MZ\<close> of a moment in epoch seconds.\<close>

definition fmt_utc :: "rat \<Rightarrow> string" where
  "fmt_utc t =
     (let minutes = \<lfloor>t / 60\<rfloor>; clock = minutes mod 1440
      in case date_of (minutes div 1440 + EPOCH) of (y, m, d) \<Rightarrow>
           pad 4 y @ ''-'' @ pad 2 m @ ''-'' @ pad 2 d @ '' '' @ pad 2 (clock div 60) @ '':'' @ pad 2 (clock mod 60) @ ''Z'')"

definition digits_val :: "string \<Rightarrow> int" where
  "digits_val s = foldl (\<lambda>n c. 10 * n + (of_char c - 48)) 0 s"

definition take_digits :: "nat \<Rightarrow> string \<Rightarrow> (int \<times> string) option" where
  "take_digits k s = (if k \<le> length s \<and> list_all is_digit (take k s) then Some (digits_val (take k s), drop k s) else None)"

definition expect :: "string \<Rightarrow> string \<Rightarrow> string option" where
  "expect cs s = (case s of c # r \<Rightarrow> if c \<in> set cs then Some r else None | [] \<Rightarrow> None)"

text \<open>A day and a clock time as written by \<open>fmt_utc\<close>, without looking at what they say; a \<open>T\<close> may stand between them.\<close>

definition read_moment :: "string \<Rightarrow> (int \<times> int \<times> int \<times> int \<times> int) option" where
  "read_moment s =
     Option.bind (take_digits 4 s) (\<lambda>(y, s). Option.bind (expect ''-'' s) (\<lambda>s.
     Option.bind (take_digits 2 s) (\<lambda>(m, s). Option.bind (expect ''-'' s) (\<lambda>s.
     Option.bind (take_digits 2 s) (\<lambda>(d, s). Option.bind (expect '' Tt'' s) (\<lambda>s.
     Option.bind (take_digits 2 s) (\<lambda>(h, s). Option.bind (expect '':'' s) (\<lambda>s.
     Option.bind (take_digits 2 s) (\<lambda>(mi, s). Option.bind (expect ''Zz'' s) (\<lambda>s. Some (y, m, d, h, mi)))))))))))"

definition moment_seconds :: "int \<times> int \<times> int \<times> int \<times> int \<Rightarrow> rat option" where
  "moment_seconds x =
     (case x of (y, m, d, h, mi) \<Rightarrow>
        if valid_date y m d \<and> 0 \<le> h \<and> h < 24 \<and> 0 \<le> mi \<and> mi < 60
        then Some (of_int (((ordinal y m d - EPOCH) * 1440 + h * 60 + mi) * 60)) else None)"

section \<open>A day's number and its date\<close>

lemma find_first_upto:
  assumes "find P [a..b] = Some x"
  shows "P x" "a \<le> x" "x \<le> b" "x = a \<or> \<not> P (x - 1)"
proof -
  obtain i where i: "i < length [a..b]" "P ([a..b] ! i)" "x = [a..b] ! i" "\<And>j. j < i \<Longrightarrow> \<not> P ([a..b] ! j)"
    using assms by (auto simp: find_Some_iff)
  then have x: "x = a + int i" "a + int i \<le> b" by (auto simp: nth_upto)
  then show "P x" "a \<le> x" "x \<le> b" using i by auto
  show "x = a \<or> \<not> P (x - 1)"
  proof (cases i)
    case 0
    then show ?thesis using x by simp
  next
    case (Suc j)
    then have "[a..b] ! j = x - 1" using x by (subst nth_upto) auto
    then show ?thesis using i(4) [of j] Suc by simp
  qed
qed

lemma find_in_upto: "P x \<Longrightarrow> a \<le> x \<Longrightarrow> x \<le> b \<Longrightarrow> \<exists>y. find P [a..b] = Some y"
  by (cases "find P [a..b]") (auto simp: find_None_iff)

lemma div_pred:
  assumes "0 < (k::int)"
  shows "y div k = (y - 1) div k + (if y mod k = 0 then 1 else 0)"
proof (cases "y mod k = 0")
  case True
  have "(y - 1) div k = y div k - 1"
    using assms True by (intro int_div_pos_eq [of _ _ _ "k - 1"]) (auto simp: algebra_simps minus_mod_eq_mult_div [symmetric])
  then show ?thesis using True by simp
next
  case False
  then have "0 < y mod k" using assms by (metis order_le_less pos_mod_sign)
  moreover have "y = k * (y div k) + y mod k" "y mod k < k" using assms by simp_all
  ultimately have "(y - 1) div k = y div k" by (intro int_div_pos_eq [of _ _ _ "y mod k - 1"]) linarith+
  then show ?thesis using False by simp
qed

lemma leap_mods: "(y::int) mod 400 = 0 \<Longrightarrow> y mod 100 = 0" "y mod 100 = 0 \<Longrightarrow> y mod 4 = 0"
proof -
  have "(100::int) dvd 400" "(4::int) dvd 100" by simp_all
  then show "y mod 400 = 0 \<Longrightarrow> y mod 100 = 0" "y mod 100 = 0 \<Longrightarrow> y mod 4 = 0" by (metis dvd_trans mod_0_imp_dvd dvd_imp_mod_0)+
qed

lemma year_sum:
  "A' = A + i \<Longrightarrow> B' = B + j \<Longrightarrow> C' = C + k \<Longrightarrow> y * 365 + A' - B' + C' = (y - 1) * 365 + A - B + C + 365 + (i - j + (k::int))"
  by simp

lemma leap_count:
  "(r \<Longrightarrow> q) \<Longrightarrow> (q \<Longrightarrow> p) \<Longrightarrow>
   (if p then 1 else 0) - (if q then 1 else 0) + (if r then 1 else 0) = (if p \<and> (\<not> q \<or> r) then 1 else (0::int))"
  by (cases p; cases q; cases r; simp)

lemma year_length: "days_before_year (y + 1) = days_before_year y + (if is_leap y then 366 else 365)"
proof -
  have "days_before_year (y + 1) = y * 365 + y div 4 - y div 100 + y div 400" by (simp only: days_before_year_def add_diff_cancel_right')
  also have "\<dots> = days_before_year y + 365 + ((if y mod 4 = 0 then 1 else 0) - (if y mod 100 = 0 then 1 else 0) + (if y mod 400 = 0 then 1 else 0))"
    unfolding days_before_year_def by (rule year_sum; rule div_pred) simp_all
  also have "\<dots> = days_before_year y + 365 + (if is_leap y then 1 else 0)"
    unfolding is_leap_def by (subst leap_count [OF leap_mods]) (assumption | rule refl)+
  also have "\<dots> = days_before_year y + (if is_leap y then 366 else 365)" by simp
  finally show ?thesis .
qed

lemma days_before_year_bounds:
  assumes "1 \<le> y"
  shows "365 * (y - 1) \<le> days_before_year y" "days_before_year y \<le> 366 * (y - 1)"
proof -
  obtain a b c where abc: "a = (y - 1) div 4" "b = (y - 1) div 100" "c = (y - 1) div 400" by blast
  have "b \<le> a" "a \<le> y - 1" "c \<le> b" "0 \<le> c" using assms by (simp_all add: abc zdiv_mono2)
  moreover have "days_before_year y = (y - 1) * 365 + a - b + c" by (simp add: days_before_year_def abc)
  ultimately show "365 * (y - 1) \<le> days_before_year y" "days_before_year y \<le> 366 * (y - 1)" by simp_all
qed

lemma days_before_month_step: "1 \<le> m \<Longrightarrow> days_before_month y (m + 1) = days_before_month y m + month_days y m"
  by (simp add: days_before_month_def upto_rec2)

lemma days_before_month_1 [simp]: "days_before_month y 1 = 0"
  by (simp add: days_before_month_def)

lemma days_before_month_13: "days_before_month y 13 = (if is_leap y then 366 else 365)"
  by (simp add: days_before_month_def month_days_def upto.simps)

text \<open>Every day from the first on has a date, and its number is the date's.\<close>

lemma year_of_bounds:
  assumes "1 \<le> n"
  shows "1 \<le> year_of n" "days_before_year (year_of n) < n" "n \<le> days_before_year (year_of n + 1)"
proof -
  let ?a = "max 1 (n div 366)"
  have "n \<le> days_before_year (n div 365 + 1 + 1)" using days_before_year_bounds(1) [of "n div 365 + 1 + 1"] assms by simp
  moreover have "?a \<le> n div 365 + 1" using assms zdiv_mono2 [of n 365 366] by (auto simp: max_def pos_imp_zdiv_nonneg_iff)
  ultimately obtain y where y: "find (\<lambda>y. n \<le> days_before_year (y + 1)) [?a..n div 365 + 1] = Some y"
    using find_in_upto [of "\<lambda>y. n \<le> days_before_year (y + 1)" "n div 365 + 1" ?a "n div 365 + 1"] by auto
  note f = find_first_upto [OF y]
  have ya: "year_of n = y" using y by (simp add: year_of_def)
  have low: "days_before_year ?a < n"
  proof (cases "1 \<le> n div 366")
    case True
    have "366 * (n div 366) \<le> n" using assms by simp
    moreover have "days_before_year (n div 366) \<le> 366 * (n div 366 - 1)" using True by (rule days_before_year_bounds)
    ultimately show ?thesis using True by (simp add: max_def)
  next
    case False
    then show ?thesis using assms by (simp add: max_def days_before_year_def)
  qed
  show "1 \<le> year_of n" "n \<le> days_before_year (year_of n + 1)" using f ya by auto
  show "days_before_year (year_of n) < n" using f(4) low ya by auto
qed

lemma date_of_valid:
  assumes "1 \<le> n" and "date_of n = (y, m, d)"
  shows "ordinal y m d = n" and "valid_date y m d"
proof -
  have y: "y = year_of n" and m: "m = month_of y (n - days_before_year y)" and d: "d = n - days_before_year y - days_before_month y m"
    using assms(2) by (auto simp: date_of_def Let_def)
  let ?rest = "n - days_before_year y"
  note yb = year_of_bounds [OF assms(1), folded y]
  have "?rest \<le> days_before_month y (12 + 1)" using yb(3) year_length [of y] days_before_month_13 [of y] by simp
  then obtain k where k: "find (\<lambda>m. ?rest \<le> days_before_month y (m + 1)) [1..12] = Some k"
    using find_in_upto [of "\<lambda>m. ?rest \<le> days_before_month y (m + 1)" 12 1 12] by auto
  then have "m = k" using m by (simp add: month_of_def)
  with k have "?rest \<le> days_before_month y (m + 1)" "1 \<le> m" "m \<le> 12" "m = 1 \<or> \<not> ?rest \<le> days_before_month y m"
    using find_first_upto [OF k] by auto
  then show "ordinal y m d = n" "valid_date y m d"
    using d yb days_before_month_step [of m y] by (auto simp: ordinal_def valid_date_def)
qed

section \<open>A moment and its text\<close>

lemma digit_char: "is_digit (char_of (48 + k mod 10))" "(of_char (char_of (48 + k mod 10) :: char) :: int) = 48 + int (k mod 10)"
proof -
  let ?c = "char_of (48 + k mod 10) :: char"
  have n: "(of_char ?c :: nat) = 48 + k mod 10" by simp
  then show "is_digit ?c" by (simp add: is_digit_def Let_def)
  have "int (of_char ?c :: nat) = 48 + int (k mod 10)" unfolding n by simp
  then show "(of_char ?c :: int) = 48 + int (k mod 10)" unfolding of_nat_of_char .
qed

lemma nat_digits_digit: "list_all is_digit (nat_digits n)"
proof (induction n rule: nat_digits.induct)
  case (1 n)
  then show ?case using digit_char(1) [of n] by (subst nat_digits.simps) auto
qed

lemma digits_val_append: "digits_val (s @ [c]) = 10 * digits_val s + (of_char c - 48)"
  by (simp add: digits_val_def)

lemma digits_val_nat_digits: "digits_val (nat_digits n) = int n"
proof (induction n rule: nat_digits.induct)
  case (1 n)
  show ?case
  proof (cases "n < 10")
    case True
    then show ?thesis using digit_char(2) [of n] by (subst nat_digits.simps) (simp add: digits_val_def)
  next
    case False
    then have "digits_val (nat_digits n) = 10 * int (n div 10) + int (n mod 10)"
      using 1 digit_char(2) [of n] by (subst nat_digits.simps) (simp add: digits_val_append)
    then show ?thesis by presburger
  qed
qed

lemma nat_digits_length: "n < 10 ^ k \<Longrightarrow> 0 < k \<Longrightarrow> length (nat_digits n) \<le> k"
proof (induction n arbitrary: k rule: nat_digits.induct)
  case (1 n)
  show ?case
  proof (cases "n < 10")
    case False
    obtain j where j: "k = Suc j" "0 < j"
    proof (cases k)
      case (Suc i)
      then show ?thesis using that [of i] False "1.prems"(1) by (cases i) auto
    qed (use "1.prems" in simp)
    then have "n div 10 < 10 ^ j" using "1.prems" by (simp add: less_mult_imp_div_less mult.commute)
    then show ?thesis using False "1.IH" [of j] j by (subst nat_digits.simps) simp
  qed (use "1.prems" in \<open>subst nat_digits.simps, simp\<close>)
qed

lemma digits_val_zeros: "digits_val (replicate k CHR ''0'' @ s) = digits_val s"
  by (induction k) (auto simp: digits_val_def)

lemma pad_props:
  assumes "0 \<le> i" "i < 10 ^ k" "0 < k"
  shows "length (pad k i) = k" "list_all is_digit (pad k i)" "digits_val (pad k i) = i"
proof -
  have "nat i < 10 ^ k" using assms by (simp add: nat_less_iff)
  then have "length (nat_digits (nat i)) \<le> k" using assms(3) by (rule nat_digits_length)
  then show "length (pad k i) = k" by (simp add: pad_def nat_str_def Let_def)
  show "list_all is_digit (pad k i)" using nat_digits_digit [of "nat i"] by (auto simp: pad_def nat_str_def Let_def list_all_iff is_digit_def)
  show "digits_val (pad k i) = i" using assms(1) by (simp add: pad_def nat_str_def Let_def digits_val_zeros digits_val_nat_digits)
qed

lemma take_digits_pad: "0 \<le> i \<Longrightarrow> i < 10 ^ k \<Longrightarrow> 0 < k \<Longrightarrow> take_digits k (pad k i @ s) = Some (i, s)"
  using pad_props [of i k] by (simp add: take_digits_def)

text \<open>A moment from the epoch to the year 9999 is read back to the minute.\<close>

lemma read_moment_fmt:
  assumes "0 \<le> t" and "fst (date_of (\<lfloor>t / 60\<rfloor> div 1440 + EPOCH)) \<le> 9999"
  shows "Option.bind (read_moment (fmt_utc t @ s)) moment_seconds = Some (of_int (\<lfloor>t / 60\<rfloor> * 60))"
proof -
  let ?mins = "\<lfloor>t / 60\<rfloor>"
  obtain y m d where ymd: "date_of (?mins div 1440 + EPOCH) = (y, m, d)" by (cases "date_of (?mins div 1440 + EPOCH)")
  have "0 \<le> ?mins" using assms(1) by simp
  then have "1 \<le> ?mins div 1440 + EPOCH" by (simp add: EPOCH_def pos_imp_zdiv_nonneg_iff add_nonneg_pos)
  note v = date_of_valid [OF this ymd]
  have md: "month_days y m \<le> 31" by (simp add: month_days_def)
  then have b: "0 \<le> y" "y < 10 ^ 4" "0 \<le> m" "m < 10 ^ 2" "0 \<le> d" "d < 10 ^ 2" using v(2) assms(2) ymd by (auto simp: valid_date_def)
  let ?c = "?mins mod 1440"
  have c: "0 \<le> ?c" "?c < 1440" by simp_all
  then have c2: "0 \<le> ?c div 60" "?c div 60 < 24" "0 \<le> ?c mod 60" "?c mod 60 < 60" by auto
  have r: "read_moment (fmt_utc t @ s) = Some (y, m, d, ?c div 60, ?c mod 60)"
    using b c2 by (simp add: fmt_utc_def Let_def ymd read_moment_def expect_def take_digits_pad)
  have "?mins div 1440 * 1440 + ?c div 60 * 60 + ?c mod 60 = ?mins" by (simp add: add.assoc)
  then show ?thesis using v c2 unfolding r by (simp add: moment_seconds_def)
qed

end
