(* ===== verification/Cron.thy ===== *)
theory Cron
  imports Calendar
begin

text \<open>
  Cron expressions and durations (\<^verbatim>\<open>temper_ai/triggers/cron.py\<close>). A time in the rule's own zone is the number of minutes its clock
  has shown since the first of January 1970, as the arithmetic of \<open>datetime\<close> on a zone's times goes by the clock on its wall.
\<close>

section \<open>Fields\<close>

text \<open>\<open>CronError\<close>, and the \<open>ValueError\<close> of \<open>int\<close> on a digit it cannot read (a superscript).\<close>

datatype cron_error = CronError string | NotAnInt string

type_synonym 'a cron_res = "cron_error + 'a"

definition isdigit :: "string \<Rightarrow> bool" where
  "isdigit s = (s \<noteq> [] \<and> list_all (\<lambda>c. is_digit c \<or> of_char c \<in> {178, 179, 185 :: nat}) s)"

definition int_of :: "string \<Rightarrow> int cron_res" where
  "int_of s = (if list_all is_digit s then Inr (digits_val s) else Inl (NotAnInt s))"

definition bind_cron :: "'a cron_res \<Rightarrow> ('a \<Rightarrow> 'b cron_res) \<Rightarrow> 'b cron_res" where
  "bind_cron r f = (case r of Inl e \<Rightarrow> Inl e | Inr x \<Rightarrow> f x)"

text \<open>\<open>part.split(c, 1)\<close> where the part holds \<open>c\<close>.\<close>

definition split_once :: "char \<Rightarrow> string \<Rightarrow> string \<times> string" where
  "split_once c s = (takeWhile (\<lambda>x. x \<noteq> c) s, tl (dropWhile (\<lambda>x. x \<noteq> c) s))"

definition step_of :: "string \<Rightarrow> string \<Rightarrow> (string \<times> int) cron_res" where
  "step_of name part =
     (if CHR ''/'' \<in> set part
      then (case split_once CHR ''/'' part of (rest, step_text) \<Rightarrow>
              if \<not> isdigit step_text then Inl (CronError (name @ '': bad step '' @ quoted step_text))
              else bind_cron (int_of step_text) (\<lambda>step.
                if step < 1 then Inl (CronError (name @ '': bad step '' @ quoted step_text)) else Inr (rest, step)))
      else Inr (part, 1))"

definition span_of :: "string \<Rightarrow> int \<Rightarrow> int \<Rightarrow> string \<Rightarrow> int \<Rightarrow> (int \<times> int) cron_res" where
  "span_of name lo hi part step =
     (if part = ''*'' then Inr (lo, hi)
      else if CHR ''-'' \<in> set part
      then (case split_once CHR ''-'' part of (a, b) \<Rightarrow>
              if \<not> (isdigit a \<and> isdigit b) then Inl (CronError (name @ '': bad range '' @ quoted part))
              else bind_cron (int_of a) (\<lambda>i. bind_cron (int_of b) (\<lambda>j. Inr (i, j))))
      else if isdigit part then bind_cron (int_of part) (\<lambda>i. Inr (i, if 1 < step then hi else i))
      else Inl (CronError (name @ '': '' @ quoted part @ '' is not a number, range or *'')))"

definition range_values :: "int \<Rightarrow> int \<Rightarrow> int \<Rightarrow> int set" where
  "range_values start stop step = set (filter (\<lambda>v. (v - start) mod step = 0) [start..stop])"

definition part_values :: "int \<Rightarrow> int \<Rightarrow> string \<Rightarrow> string \<Rightarrow> int set cron_res" where
  "part_values lo hi name part0 =
     bind_cron (step_of name part0) (\<lambda>(part, step). bind_cron (span_of name lo hi part step) (\<lambda>(start, stop).
       if start < lo \<or> hi < stop \<or> stop < start
       then Inl (CronError (name @ '': '' @ part @ '' is outside '' @ int_str lo @ ''-'' @ int_str hi))
       else Inr (range_values start stop step)))"

fun field_values :: "int \<Rightarrow> int \<Rightarrow> string \<Rightarrow> string list \<Rightarrow> int set cron_res" where
  "field_values lo hi name [] = Inr {}"
| "field_values lo hi name (p # ps) =
     bind_cron (part_values lo hi name p) (\<lambda>vs. bind_cron (field_values lo hi name ps) (\<lambda>ws. Inr (vs \<union> ws)))"

definition cron_field :: "string \<Rightarrow> int \<Rightarrow> int \<Rightarrow> string \<Rightarrow> int set cron_res" where
  "cron_field text lo hi name = field_values lo hi name (split_on CHR '','' text)"

section \<open>Expressions\<close>

record cron =
  cr_minutes :: "int set"
  cr_hours :: "int set"
  cr_days :: "int set"
  cr_months :: "int set"
  cr_weekdays :: "int set"
  cr_day_restricted :: bool
  cr_weekday_restricted :: bool

text \<open>\<open>str.split()\<close>\<close>

function words_of :: "string \<Rightarrow> string list" where
  "words_of s =
     (case dropWhile is_space s of
        [] \<Rightarrow> []
      | c # cs \<Rightarrow> takeWhile (\<lambda>x. \<not> is_space x) (c # cs) # words_of (dropWhile (\<lambda>x. \<not> is_space x) (c # cs)))"
  by pat_completeness auto
termination
proof (relation "measure length", goal_cases)
  case (2 s c cs)
  have "\<not> is_space c" using hd_dropWhile [of is_space s] 2 by auto
  then have "length (dropWhile (\<lambda>x. \<not> is_space x) (c # cs)) \<le> length cs" by (simp add: length_dropWhile_le)
  moreover have "length (c # cs) \<le> length s" using 2 length_dropWhile_le [of is_space s] by simp
  ultimately show ?case by simp
qed simp

declare words_of.simps [simp del]

definition cron_parse :: "string \<Rightarrow> cron cron_res" where
  "cron_parse expression =
     (case words_of expression of
        [mi, h, d, mo, wd] \<Rightarrow>
          bind_cron (cron_field mi 0 59 ''minute'') (\<lambda>minutes. bind_cron (cron_field h 0 23 ''hour'') (\<lambda>hours.
          bind_cron (cron_field d 1 31 ''day of month'') (\<lambda>days. bind_cron (cron_field mo 1 12 ''month'') (\<lambda>months.
          bind_cron (cron_field wd 0 7 ''day of week'') (\<lambda>weekdays.
            Inr \<lparr>cr_minutes = minutes, cr_hours = hours, cr_days = days, cr_months = months,
                 cr_weekdays = (\<lambda>x. if x = 7 then 0 else x) ` weekdays, cr_day_restricted = (d \<noteq> ''*''), cr_weekday_restricted = (wd \<noteq> ''*'')\<rparr>)))))
      | _ \<Rightarrow> Inl (CronError (quoted expression @ '': expected 5 fields (minute hour day month weekday)'')))"

definition matches :: "cron \<Rightarrow> int \<Rightarrow> bool" where
  "matches c t =
     (let n = t div 1440 + EPOCH; clock = t mod 1440
      in case date_of n of (y, m, d) \<Rightarrow>
           clock mod 60 \<in> cr_minutes c \<and> clock div 60 \<in> cr_hours c \<and> m \<in> cr_months c \<and>
           (let day_ok = (d \<in> cr_days c); weekday_ok = ((weekday n + 1) mod 7 \<in> cr_weekdays c)
            in if cr_day_restricted c \<and> cr_weekday_restricted c then day_ok \<or> weekday_ok else day_ok \<and> weekday_ok))"

text \<open>366 days of minutes.\<close>

definition SEARCH_LIMIT :: nat where "SEARCH_LIMIT = 366 * 1440"

fun search_back :: "cron \<Rightarrow> int \<Rightarrow> nat \<Rightarrow> int option" where
  "search_back c t 0 = None"
| "search_back c t (Suc n) = (if matches c t then Some t else search_back c (t - 1) n)"

fun search_on :: "cron \<Rightarrow> int \<Rightarrow> nat \<Rightarrow> int option" where
  "search_on c t 0 = None"
| "search_on c t (Suc n) = (if matches c t then Some t else search_on c (t + 1) n)"

definition last_at_or_before :: "cron \<Rightarrow> int \<Rightarrow> int option" where
  "last_at_or_before c t = search_back c t SEARCH_LIMIT"

definition next_after :: "cron \<Rightarrow> int \<Rightarrow> int option" where
  "next_after c t = search_on c (t + 1) SEARCH_LIMIT"

section \<open>Durations\<close>

definition unit_seconds :: "char \<Rightarrow> int option" where
  "unit_seconds c = map_of [(CHR ''s'', 1), (CHR ''m'', 60), (CHR ''h'', 3600), (CHR ''d'', 86400)] c"

definition duration_text :: "string \<Rightarrow> int option" where
  "duration_text s0 =
     (let s = strip s0; ds = takeWhile is_digit s
      in if ds = [] then None
         else case lstrip (dropWhile is_digit s) of [u] \<Rightarrow> map_option (\<lambda>k. digits_val ds * k) (unit_seconds u) | _ \<Rightarrow> None)"

definition parse_duration :: "pyval \<Rightarrow> rat cron_res" where
  "parse_duration v =
     (let shown = py_str v;
          positive = (\<lambda>q. if q \<le> 0 then Inl (CronError (quoted shown @ '' must be more than zero'')) else Inr q)
      in case v of
           PInt i \<Rightarrow> positive (of_int i)
         | PFloat q \<Rightarrow> positive q
         | _ \<Rightarrow> (case duration_text shown of
                   None \<Rightarrow> Inl (CronError (quoted shown @ '' is not a duration like 90s, 30m, 2h or 1d''))
                 | Some i \<Rightarrow> positive (of_int i)))"

section \<open>What a field holds\<close>

lemma bind_cron_Inr: "bind_cron r f = Inr y \<longleftrightarrow> (\<exists>x. r = Inr x \<and> f x = Inr y)"
  by (cases r) (auto simp: bind_cron_def)

lemma range_values_in: "start \<le> stop \<Longrightarrow> range_values start stop step \<subseteq> {start..stop} \<and> range_values start stop step \<noteq> {}"
  by (auto simp: range_values_def filter_empty_conv intro!: bexI [of _ start])

lemma part_values_in:
  assumes "part_values lo hi name p = Inr vs"
  shows "vs \<subseteq> {lo..hi} \<and> vs \<noteq> {}"
proof -
  obtain start stop step where "lo \<le> start" "stop \<le> hi" "start \<le> stop" "vs = range_values start stop step"
    using assms by (auto simp: part_values_def bind_cron_Inr not_less split: if_splits prod.splits)
  then show ?thesis using range_values_in [of start stop step] by auto
qed

lemma field_values_in: "field_values lo hi name ps = Inr vs \<Longrightarrow> vs \<subseteq> {lo..hi} \<and> (ps \<noteq> [] \<longrightarrow> vs \<noteq> {})"
proof (induction ps arbitrary: vs)
  case (Cons p ps)
  then show ?case using part_values_in [of lo hi name p] by (fastforce simp: bind_cron_Inr)
qed simp

lemma cron_field_in: "cron_field text lo hi name = Inr vs \<Longrightarrow> vs \<subseteq> {lo..hi} \<and> vs \<noteq> {}"
  using field_values_in split_on_nonempty unfolding cron_field_def by blast

text \<open>An expression that parses has at least one value in each field, and every value is one the clock or the calendar can show.\<close>

theorem parsed_cron_in_range:
  assumes "cron_parse e = Inr c"
  shows "cr_minutes c \<subseteq> {0..59} \<and> cr_minutes c \<noteq> {} \<and> cr_hours c \<subseteq> {0..23} \<and> cr_hours c \<noteq> {} \<and> cr_days c \<subseteq> {1..31} \<and> cr_days c \<noteq> {} \<and>
    cr_months c \<subseteq> {1..12} \<and> cr_months c \<noteq> {} \<and> cr_weekdays c \<subseteq> {0..6} \<and> cr_weekdays c \<noteq> {}"
proof -
  obtain mi h d mo wd minutes hours days months weekdays where
    f: "cron_field mi 0 59 ''minute'' = Inr minutes" "cron_field h 0 23 ''hour'' = Inr hours" "cron_field d 1 31 ''day of month'' = Inr days"
      "cron_field mo 1 12 ''month'' = Inr months" "cron_field wd 0 7 ''day of week'' = Inr weekdays"
    and c: "c = \<lparr>cr_minutes = minutes, cr_hours = hours, cr_days = days, cr_months = months,
      cr_weekdays = (\<lambda>x. if x = 7 then 0 else x) ` weekdays, cr_day_restricted = (d \<noteq> ''*''), cr_weekday_restricted = (wd \<noteq> ''*'')\<rparr>"
    using assms unfolding cron_parse_def by (auto simp: bind_cron_Inr split: list.splits)
  have "cr_weekdays c \<subseteq> {0..6}" "cr_weekdays c \<noteq> {}" unfolding c using cron_field_in [OF f(5)] by force+
  then show ?thesis using cron_field_in [OF f(1)] cron_field_in [OF f(2)] cron_field_in [OF f(3)] cron_field_in [OF f(4)] by (simp add: c)
qed

section \<open>The next time and the last\<close>

lemma search_on_spec:
  "search_on c t n = Some u \<longleftrightarrow> t \<le> u \<and> u < t + int n \<and> matches c u \<and> (\<forall>v. t \<le> v \<and> v < u \<longrightarrow> \<not> matches c v)"
proof (induction n arbitrary: t)
  case (Suc n)
  show ?case
  proof (cases "matches c t")
    case True
    then show ?thesis by (auto dest: spec [of _ t] intro: order.antisym leI)
  next
    case False
    then have "t \<le> v \<longleftrightarrow> v = t \<or> t + 1 \<le> v" for v by auto
    then show ?thesis using Suc.IH [of "t + 1"] False by auto
  qed
qed auto

lemma search_back_spec:
  "search_back c t n = Some u \<longleftrightarrow> u \<le> t \<and> t - int n < u \<and> matches c u \<and> (\<forall>v. u < v \<and> v \<le> t \<longrightarrow> \<not> matches c v)"
proof (induction n arbitrary: t)
  case (Suc n)
  show ?case
  proof (cases "matches c t")
    case True
    then show ?thesis by (auto dest: spec [of _ t] intro: order.antisym leI)
  next
    case False
    then have "v \<le> t \<longleftrightarrow> v = t \<or> v \<le> t - 1" for v by auto
    then show ?thesis using Suc.IH [of "t - 1"] False by auto
  qed
qed auto

lemma search_on_None: "search_on c t n = None \<longleftrightarrow> (\<forall>v. t \<le> v \<and> v < t + int n \<longrightarrow> \<not> matches c v)"
proof (induction n arbitrary: t)
  case (Suc n)
  have "t \<le> v \<and> v < t + int (Suc n) \<longleftrightarrow> v = t \<or> t + 1 \<le> v \<and> v < t + 1 + int n" for v by auto
  then show ?case using Suc.IH [of "t + 1"] by auto
qed auto

text \<open>C34: The next time of an expression after a moment is the first minute after it that matches, and there is none exactly when no
  minute of the 366 days after it matches.\<close>

theorem next_after_exact:
  "(next_after c t = Some u \<longleftrightarrow> t < u \<and> u \<le> t + 366 * 1440 \<and> matches c u \<and> (\<nexists>v. t < v \<and> v < u \<and> matches c v)) \<and>
   (next_after c t = None \<longleftrightarrow> (\<nexists>v. t < v \<and> v \<le> t + 366 * 1440 \<and> matches c v))"
proof -
  have "t + 1 \<le> v \<longleftrightarrow> t < v" "v < t + 1 + int SEARCH_LIMIT \<longleftrightarrow> v \<le> t + 366 * 1440" for v by (auto simp: SEARCH_LIMIT_def)
  then show ?thesis unfolding next_after_def search_on_spec search_on_None by simp blast
qed

text \<open>The last time of an expression at or before a moment is the latest minute up to it that matches, if one of the last 366 days does.\<close>

theorem last_at_or_before_exact:
  "last_at_or_before c t = Some u \<longleftrightarrow> u \<le> t \<and> t - 366 * 1440 < u \<and> matches c u \<and> (\<forall>v. u < v \<and> v \<le> t \<longrightarrow> \<not> matches c v)"
  unfolding last_at_or_before_def search_back_spec by (simp add: SEARCH_LIMIT_def)

lemma days_before_year_mono: "days_before_year y + 365 * int k \<le> days_before_year (y + int k)"
proof (induction k)
  case (Suc k)
  then show ?case using year_length [of "y + int k"] by (auto simp: algebra_simps split: if_splits)
qed simp

text \<open>
  A rule for the 29th of February: seen from the first of March 2025 it has no next time, though it matches in 2028. The search looks at
  366 days, which is enough only for what comes every year.
\<close>

definition leap_day :: cron where
  "leap_day = \<lparr>cr_minutes = {0}, cr_hours = {0}, cr_days = {29}, cr_months = {2}, cr_weekdays = {0, 1, 2, 3, 4, 5, 6},
     cr_day_restricted = True, cr_weekday_restricted = False\<rparr>"

definition march_2025 :: int where "march_2025 = (ordinal 2025 3 1 - EPOCH) * 1440"

lemma ordinal_march_2025: "ordinal 2025 3 1 = 739311"
  by code_simp

theorem leap_day_has_no_next:
  "cron_parse ''0 0 29 2 *'' = Inr leap_day \<and> next_after leap_day march_2025 = None \<and> matches leap_day ((ordinal 2028 2 29 - EPOCH) * 1440)"
proof (intro conjI)
  show "cron_parse ''0 0 29 2 *'' = Inr leap_day" by code_simp
  show "matches leap_day ((ordinal 2028 2 29 - EPOCH) * 1440)" by code_simp
  have "\<not> matches leap_day v" if v: "march_2025 < v" "v \<le> march_2025 + 366 * 1440" for v
  proof
    assume m: "matches leap_day v"
    let ?n = "v div 1440 + EPOCH"
    obtain y mo d where ymd: "date_of ?n = (y, mo, d)" by (cases "date_of ?n")
    then have md: "mo = 2" "d = 29" using m by (auto simp: matches_def leap_day_def Let_def)
    have n: "739311 \<le> ?n" "?n \<le> 739311 + 366" using v by (auto simp: march_2025_def ordinal_march_2025 EPOCH_def)
    then have ok: "ordinal y 2 29 = ?n" "valid_date y 2 29" using date_of_valid [of ?n y mo d] ymd md by auto
    have "days_before_month y 2 = 31" by (simp add: days_before_month_def month_days_def)
    then have "days_before_year y + 60 = ?n" using ok(1) by (simp add: ordinal_def)
    then have dy: "739251 \<le> days_before_year y" "days_before_year y \<le> 739251 + 366" using n by auto
    have "2025 \<le> y"
    proof (rule ccontr)
      assume "\<not> 2025 \<le> y"
      then have "days_before_year y + 365 * int (nat (2025 - y)) \<le> days_before_year 2025" using days_before_year_mono [of y "nat (2025 - y)"] by simp
      then show False using dy \<open>\<not> 2025 \<le> y\<close> by (simp add: days_before_year_def [of 2025])
    qed
    moreover have "y \<le> 2026"
    proof (rule ccontr)
      assume "\<not> y \<le> 2026"
      then have "days_before_year 2027 + 365 * int (nat (y - 2027)) \<le> days_before_year y" using days_before_year_mono [of 2027 "nat (y - 2027)"] by simp
      then show False using dy \<open>\<not> y \<le> 2026\<close> by (simp add: days_before_year_def [of 2027])
    qed
    ultimately have "y = 2025 \<or> y = 2026" by auto
    then show False using ok(2) by (auto simp: valid_date_def month_days_def is_leap_def)
  qed
  then show "next_after leap_day march_2025 = None"
    unfolding next_after_def search_on_None by (auto simp: SEARCH_LIMIT_def)
qed

theorem parsed_cron_in_range_witness: "cron_parse ''0 0 29 2 *'' = Inr leap_day \<and> cr_hours leap_day \<subseteq> {0..23} \<and> cr_hours leap_day \<noteq> {}"
proof -
  have "cron_parse ''0 0 29 2 *'' = Inr leap_day" by code_simp
  from this parsed_cron_in_range [OF this] show ?thesis by blast
qed

text \<open>A duration is more than nothing.\<close>

lemma parse_duration_positive: "parse_duration v = Inr q \<Longrightarrow> 0 < q"
  by (auto simp: parse_duration_def Let_def split: pyval.splits if_splits option.splits)

end
