(* ===== verification/Triggers.thy ===== *)
theory Triggers
  imports Cron "HOL-Library.List_Lexorder" "HOL-Library.Char_ord" "HOL-Library.Product_Lexorder"
begin

text \<open>
  Rules that start runs on a schedule, after another run or when a run is stuck (\<^verbatim>\<open>temper_ai/triggers/scheduler.py\<close>).

  Moments are epoch seconds. A time zone is what its clock shows at a moment and the moment a reading of it stands for; the texts of
  moments, the runs there are and what starting one does are parameters.
\<close>

section \<open>Rules\<close>

definition SCHEDULE :: string where "SCHEDULE = ''schedule''"
definition AFTER_RUN :: string where "AFTER_RUN = ''run''"
definition STUCK :: string where "STUCK = ''stuck''"
definition GRACE :: rat where "GRACE = 5 * 60"
definition END_STATES :: "string list" where "END_STATES = [''completed'', ''failed'', ''cancelled'', ''interrupted'']"

record trigger =
  tg_name :: string
  tg_source :: string
  tg_on :: "pyval dict"
  tg_workflow :: string
  tg_inputs :: "string dict"
  tg_enabled :: bool
  tg_ignore_self :: bool
  tg_path :: string

text \<open>A time zone: the minute its clock shows at a moment, whether that reading is the second of two that look the same, and the moment a
  reading stands for. Arithmetic on a reading always gives the first of two.\<close>

record tz =
  tz_wall :: "rat \<Rightarrow> int"
  tz_fold :: "rat \<Rightarrow> bool"
  tz_utc :: "bool \<Rightarrow> int \<Rightarrow> rat"

record trigger_plan =
  tn_trigger :: trigger
  tn_cron :: "cron option"
  tn_every :: "rat option"
  tn_tz :: tz
  tn_catch_up :: bool
  tn_workflows :: "string list"
  tn_statuses :: "string list"
  tn_inputs :: "string dict"
  tn_after :: "rat option"
  tn_waiting :: bool

datatype trigger_error = TriggerConfigError string | BadInt string

definition as_config_error :: "'a cron_res \<Rightarrow> trigger_error + 'a" where
  "as_config_error r = (case r of Inr x \<Rightarrow> Inr x | Inl (CronError m) \<Rightarrow> Inl (TriggerConfigError m) | Inl (NotAnInt m) \<Rightarrow> Inl (BadInt m))"

definition bind_trigger :: "trigger_error + 'a \<Rightarrow> ('a \<Rightarrow> trigger_error + 'b) \<Rightarrow> trigger_error + 'b" where
  "bind_trigger r f = (case r of Inl e \<Rightarrow> Inl e | Inr x \<Rightarrow> f x)"

text \<open>Rule files. A bare \<open>on\<close> key, which YAML 1.1 reads as the boolean, is the key \<open>on\<close> here; \<open>jinja_error\<close> is what parsing a template says.\<close>

fun bad_input :: "(string \<Rightarrow> string option) \<Rightarrow> pyval dict \<Rightarrow> string option" where
  "bad_input jinja_error [] = None"
| "bad_input jinja_error ((key, template) # rest) =
     (case template of
        PStr t \<Rightarrow> (case jinja_error t of Some e \<Rightarrow> Some (''input '' @ quoted key @ '': '' @ e) | None \<Rightarrow> bad_input jinja_error rest)
      | _ \<Rightarrow> Some (''input '' @ quoted key @ '' must be a template string''))"

definition missing_key :: "pyval dict \<Rightarrow> string option" where
  "missing_key body = find (\<lambda>k. strip (py_str (py_or (dget_or body k PNone) (PStr []))) = []) [''name'', ''source'', ''workflow'']"

definition parse_trigger :: "(string \<Rightarrow> string option) \<Rightarrow> pyval \<Rightarrow> string \<Rightarrow> trigger_error + trigger" where
  "parse_trigger jinja_error raw path =
     (case (case raw of PDict d \<Rightarrow> dget_or d ''trigger'' raw | _ \<Rightarrow> PNone) of
        PDict body \<Rightarrow>
          (case missing_key body of
             Some k \<Rightarrow> Inl (TriggerConfigError (quoted k @ '' is required''))
           | None \<Rightarrow>
               (case dget_or body ''on'' PNone of
                  PDict (o1 # on) \<Rightarrow>
                    (case py_or (dget_or body ''inputs'' PNone) (PDict []) of
                       PDict inputs \<Rightarrow>
                         (case bad_input jinja_error inputs of
                            Some m \<Rightarrow> Inl (TriggerConfigError m)
                          | None \<Rightarrow>
                              Inr \<lparr>tg_name = strip (py_str (dget_or body ''name'' PNone)), tg_source = lower (strip (py_str (dget_or body ''source'' PNone))),
                                   tg_on = o1 # on, tg_workflow = strip (py_str (dget_or body ''workflow'' PNone)),
                                   tg_inputs = map (\<lambda>(k, v). (k, case v of PStr t \<Rightarrow> t | _ \<Rightarrow> [])) inputs,
                                   tg_enabled = truthy (dget_or body ''enabled'' (PBool True)), tg_ignore_self = truthy (dget_or body ''ignore_self'' (PBool True)),
                                   tg_path = path\<rparr>)
                     | _ \<Rightarrow> Inl (TriggerConfigError (quoted ''inputs'' @ '' must be a mapping of input name to template'')))
                | _ \<Rightarrow> Inl (TriggerConfigError (quoted ''on'' @ '' must be a non-empty mapping''))))
      | _ \<Rightarrow> Inl (TriggerConfigError (''expected a mapping under '' @ quoted ''trigger:'')))"

text \<open>The files in the order they are read, tracked ones first, each with what YAML makes of it.\<close>

fun load_triggers_from :: "(string \<Rightarrow> string option) \<Rightarrow> string option \<Rightarrow> string list \<Rightarrow> (string \<times> pyval option) list \<Rightarrow> trigger list" where
  "load_triggers_from jinja_error source seen [] = []"
| "load_triggers_from jinja_error source seen ((path, raw) # files) =
     (case raw of
        None \<Rightarrow> load_triggers_from jinja_error source seen files
      | Some v \<Rightarrow>
          (case parse_trigger jinja_error v path of
             Inl e \<Rightarrow> load_triggers_from jinja_error source seen files
           | Inr t \<Rightarrow>
               if tg_name t \<in> set seen then load_triggers_from jinja_error source seen files
               else (let rest = load_triggers_from jinja_error source (tg_name t # seen) files
                     in if source = None \<or> source = Some (tg_source t) then t # rest else rest)))"

definition load_triggers :: "(string \<Rightarrow> string option) \<Rightarrow> string option \<Rightarrow> (string \<times> pyval option) list \<Rightarrow> trigger list" where
  "load_triggers jinja_error source files = load_triggers_from jinja_error source [] files"

definition names_in :: "pyval \<Rightarrow> string \<Rightarrow> trigger_error + string list" where
  "names_in value what =
     (let items = (case value of PList vs \<Rightarrow> vs | v \<Rightarrow> [v]);
          names = remdups (filter (\<lambda>s. s \<noteq> []) (map (\<lambda>v. strip (py_str v)) (filter (\<lambda>v. v \<noteq> PNone) items)))
      in if names = [] then Inl (TriggerConfigError (quoted what @ '' is required'')) else Inr names)"

definition zone_of :: "(string \<Rightarrow> tz option) \<Rightarrow> pyval \<Rightarrow> tz cron_res" where
  "zone_of zones v =
     (let name = (if truthy v then py_str v else ''UTC'')
      in case zones name of None \<Rightarrow> Inl (CronError (''unknown time zone '' @ quoted (py_str v))) | Some z \<Rightarrow> Inr z)"

definition empty_plan :: "tz \<Rightarrow> trigger \<Rightarrow> trigger_plan" where
  "empty_plan z t =
     \<lparr>tn_trigger = t, tn_cron = None, tn_every = None, tn_tz = z, tn_catch_up = False, tn_workflows = [], tn_statuses = [], tn_inputs = [],
      tn_after = None, tn_waiting = False\<rparr>"

definition plan_schedule :: "(string \<Rightarrow> tz option) \<Rightarrow> tz \<Rightarrow> trigger \<Rightarrow> trigger_error + trigger_plan" where
  "plan_schedule zones utc t =
     (let on = tg_on t
      in if dhas ''cron'' on = dhas ''every'' on then Inl (TriggerConfigError (''a schedule needs exactly one of '' @ quoted ''cron'' @ '' or '' @ quoted ''every''))
         else bind_trigger (as_config_error (case dget on ''cron'' of None \<Rightarrow> Inr None | Some v \<Rightarrow> bind_cron (cron_parse (py_str v)) (\<lambda>c. Inr (Some c)))) (\<lambda>c.
              bind_trigger (as_config_error (case dget on ''every'' of None \<Rightarrow> Inr None | Some v \<Rightarrow> bind_cron (parse_duration v) (\<lambda>q. Inr (Some q)))) (\<lambda>e.
              bind_trigger (as_config_error (zone_of zones (dget_or on ''timezone'' PNone))) (\<lambda>z.
                Inr ((empty_plan utc t)\<lparr>tn_cron := c, tn_every := e, tn_tz := z, tn_catch_up := truthy (dget_or on ''catch_up'' (PBool False))\<rparr>)))))"

definition plan_after_run :: "tz \<Rightarrow> trigger \<Rightarrow> trigger_error + trigger_plan" where
  "plan_after_run utc t =
     (let on = tg_on t; status = dget_or on ''status'' (PStr ''completed'')
      in bind_trigger (if status = PStr ''any'' then Inr END_STATES else names_in status ''status'') (\<lambda>statuses.
         let unknown = filter (\<lambda>s. s \<notin> set END_STATES) statuses
         in if unknown \<noteq> []
            then Inl (TriggerConfigError (''status '' @ py_repr (PList (map PStr (sort unknown))) @ '' is not one of '' @ py_repr (PList (map PStr END_STATES)) @ '' or '' @ quoted ''any''))
            else case py_or (dget_or on ''inputs'' PNone) (PDict []) of
                   PDict wanted \<Rightarrow>
                     bind_trigger (names_in (dget_or on ''workflow'' PNone) ''workflow'') (\<lambda>ws.
                       Inr ((empty_plan utc t)\<lparr>tn_workflows := ws, tn_statuses := statuses, tn_inputs := sort (map (\<lambda>(k, v). (k, py_str v)) wanted)\<rparr>))
                 | _ \<Rightarrow> Inl (TriggerConfigError (quoted ''inputs'' @ '' under '' @ quoted ''on'' @ '' must be a mapping''))))"

definition plan_stuck :: "tz \<Rightarrow> trigger \<Rightarrow> trigger_error + trigger_plan" where
  "plan_stuck utc t =
     (let on = tg_on t
      in case dget on ''after'' of
           None \<Rightarrow> Inl (TriggerConfigError (quoted ''after'' @ '' is required (e.g. 45m)''))
         | Some v \<Rightarrow>
             bind_trigger (if truthy (dget_or on ''workflow'' PNone) then names_in (dget_or on ''workflow'' PNone) ''workflow'' else Inr []) (\<lambda>ws.
             bind_trigger (as_config_error (parse_duration v)) (\<lambda>q.
               Inr ((empty_plan utc t)\<lparr>tn_after := Some q, tn_workflows := ws, tn_waiting := truthy (dget_or on ''waiting'' (PBool False))\<rparr>))))"

definition plan_trigger :: "(string \<Rightarrow> tz option) \<Rightarrow> tz \<Rightarrow> trigger \<Rightarrow> trigger_error + trigger_plan" where
  "plan_trigger zones utc t =
     (if tg_source t = SCHEDULE then plan_schedule zones utc t
      else if tg_source t = AFTER_RUN then plan_after_run utc t
      else if tg_source t = STUCK then plan_stuck utc t
      else Inl (TriggerConfigError (''source '' @ quoted (tg_source t) @ '' is not one of '' @ py_repr (PList [PStr SCHEDULE, PStr AFTER_RUN, PStr STUCK]))))"

text \<open>The rules that are usable; a rule with a wrong setting is left out.\<close>

fun load_plans :: "(string \<Rightarrow> tz option) \<Rightarrow> tz \<Rightarrow> trigger list \<Rightarrow> trigger_error + trigger_plan list" where
  "load_plans zones utc [] = Inr []"
| "load_plans zones utc (t # ts) =
     (if tg_source t \<notin> {SCHEDULE, AFTER_RUN, STUCK} \<or> \<not> tg_enabled t then load_plans zones utc ts
      else case plan_trigger zones utc t of
             Inl (TriggerConfigError m) \<Rightarrow> load_plans zones utc ts
           | Inl (BadInt m) \<Rightarrow> Inl (BadInt m)
           | Inr p \<Rightarrow> bind_trigger (load_plans zones utc ts) (\<lambda>ps. Inr (p # ps)))"

section \<open>When a rule is due\<close>

fun count_back :: "cron \<Rightarrow> int \<Rightarrow> nat \<Rightarrow> int option \<times> nat" where
  "count_back c t 0 = (None, 0)"
| "count_back c t (Suc n) =
     (case count_back c (t - 1) n of (latest, k) \<Rightarrow> if matches c t then (Some t, Suc k) else (latest, k))"

definition last_due :: "trigger_plan \<Rightarrow> rat \<Rightarrow> rat \<Rightarrow> rat \<Rightarrow> rat option \<times> nat" where
  "last_due p since now anchor =
     (case tn_every p of
        Some step \<Rightarrow>
          (let k_now = \<lfloor>(now - anchor) / step\<rfloor>; k_since = \<lfloor>(since - anchor) / step\<rfloor>
           in if k_now \<le> k_since \<or> k_now < 1 then (None, 0) else (Some (anchor + of_int k_now * step), nat (k_now - max k_since 0)))
      | None \<Rightarrow>
          (case tn_cron p of
             None \<Rightarrow> (None, 0)
           | Some c \<Rightarrow>
               (let local_since = tz_wall (tn_tz p) since; t = tz_wall (tn_tz p) now
                in case count_back c t (nat (t - local_since)) of (latest, k) \<Rightarrow> (map_option (\<lambda>u. tz_utc (tn_tz p) (u = t \<and> tz_fold (tn_tz p) now) u) latest, k))))"

definition next_due :: "trigger_plan \<Rightarrow> rat \<Rightarrow> rat \<Rightarrow> rat option" where
  "next_due p now anchor =
     (case tn_every p of
        Some step \<Rightarrow> Some (anchor + of_int (\<lfloor>(now - anchor) / step\<rfloor> + 1) * step)
      | None \<Rightarrow> (case tn_cron p of None \<Rightarrow> None | Some c \<Rightarrow> map_option (tz_utc (tn_tz p) False) (next_after c (tz_wall (tn_tz p) now))))"

section \<open>What is stored\<close>

record trigger_fire =
  tf_id :: nat
  tf_trigger :: string
  tf_key :: string
  tf_at :: rat
  tf_outcome :: string
  tf_detail :: string
  tf_execution :: "string option"

record trigger_db =
  td_fires :: "trigger_fire list"
  td_states :: "(rat \<times> rat option) dict"

definition state_for :: "string \<Rightarrow> rat \<Rightarrow> trigger_db \<Rightarrow> (rat \<times> rat option) \<times> trigger_db" where
  "state_for name now db =
     (case dget (td_states db) name of
        Some s \<Rightarrow> (s, db)
      | None \<Rightarrow> ((now, None), db\<lparr>td_states := dset name (now, None) (td_states db)\<rparr>))"

definition mark_checked :: "string \<Rightarrow> rat \<Rightarrow> trigger_db \<Rightarrow> trigger_db" where
  "mark_checked name time db =
     (case dget (td_states db) name of
        None \<Rightarrow> db
      | Some (first_seen, _) \<Rightarrow> db\<lparr>td_states := dset name (first_seen, Some time) (td_states db)\<rparr>)"

text \<open>The table has one row for a trigger and a key; a second insert is refused.\<close>

definition occasion :: "trigger_fire \<Rightarrow> string \<times> string" where
  "occasion r = (tf_trigger r, tf_key r)"

definition next_fire_id :: "trigger_fire list \<Rightarrow> nat" where
  "next_fire_id rows = Suc (fold (\<lambda>r m. max (tf_id r) m) rows 0)"

definition trigger_claim :: "rat \<Rightarrow> string \<Rightarrow> string \<Rightarrow> string \<Rightarrow> string \<Rightarrow> trigger_db \<Rightarrow> nat option \<times> trigger_db" where
  "trigger_claim time name key result detail db =
     (if (name, key) \<in> occasion ` set (td_fires db) then (None, db)
      else (let i = next_fire_id (td_fires db)
            in (Some i, db\<lparr>td_fires := td_fires db @
                  [\<lparr>tf_id = i, tf_trigger = name, tf_key = key, tf_at = time, tf_outcome = result, tf_detail = take 500 detail, tf_execution = None\<rparr>]\<rparr>)))"

definition settle_fire :: "nat \<Rightarrow> string \<Rightarrow> string \<Rightarrow> string option \<Rightarrow> trigger_db \<Rightarrow> trigger_db" where
  "settle_fire i result detail eid db =
     db\<lparr>td_fires := map (\<lambda>r. if tf_id r = i then r\<lparr>tf_outcome := result, tf_detail := take 500 detail, tf_execution := eid\<rparr> else r) (td_fires db)\<rparr>"

definition decided_keys :: "string \<Rightarrow> string list \<Rightarrow> trigger_db \<Rightarrow> string set" where
  "decided_keys name keys db = {k \<in> set keys. (name, k) \<in> occasion ` set (td_fires db)}"

fun latest_row :: "trigger_fire option \<Rightarrow> trigger_fire list \<Rightarrow> trigger_fire option" where
  "latest_row best [] = best"
| "latest_row best (r # rs) =
     latest_row (case best of None \<Rightarrow> Some r | Some b \<Rightarrow> if tf_at b < tf_at r then Some r else Some b) rs"

definition last_started :: "string \<Rightarrow> trigger_db \<Rightarrow> string option" where
  "last_started name db =
     Option.bind (latest_row None (filter (\<lambda>r. tf_trigger r = name \<and> tf_outcome r = ''started'') (td_fires db))) tf_execution"

section \<open>One pass over the rules\<close>

record seen_run =
  sr_id :: string
  sr_workflow :: "string option"
  sr_status :: "string option"
  sr_start_time :: "string option"
  sr_end_time :: "string option"
  sr_cost :: pyval
  sr_duration :: pyval

text \<open>What a pass asks: the time a row is written at, the runs there are, the data of a run's start event, its last event, whether a run is still going, texts of moments
  and the reading of them, Jinja, starting a run (an execution id, or the text of what was raised, by the number of starts before it),
  and the part of a text that may be shown.\<close>

record trigger_env =
  te_written :: "nat \<Rightarrow> rat"
  te_runs :: "string option \<Rightarrow> seen_run list"
  te_start_data :: "string \<Rightarrow> pyval option"
  te_last_activity :: "string \<Rightarrow> rat option"
  te_still_going :: "string option \<Rightarrow> string option"
  te_iso :: "tz option \<Rightarrow> rat \<Rightarrow> string"
  te_read :: "string \<Rightarrow> rat option"
  te_render :: "string \<Rightarrow> pyval dict \<Rightarrow> string + string"
  te_start_run :: "string \<Rightarrow> string dict \<Rightarrow> nat \<Rightarrow> string + string"
  te_shown :: "string \<Rightarrow> string"

record trigger_world =
  tw_db :: trigger_db
  tw_begun :: "((string \<times> string) \<times> string \<times> string dict) list"

record decision =
  de_trigger :: string
  de_key :: string
  de_outcome :: string
  de_execution :: "string option"
  de_detail :: "string option"

definition te_parse_time :: "trigger_env \<Rightarrow> string option \<Rightarrow> rat option" where
  "te_parse_time te text = (case text of Some (c # cs) \<Rightarrow> te_read te (c # cs) | _ \<Rightarrow> None)"

definition run_inputs :: "trigger_env \<Rightarrow> string \<Rightarrow> pyval dict" where
  "run_inputs te eid =
     (case te_start_data te eid of
        Some (PDict data) \<Rightarrow> (case py_or (dget_or data ''input_data'' PNone) (PDict []) of PDict inputs \<Rightarrow> inputs | _ \<Rightarrow> [])
      | _ \<Rightarrow> [])"

fun render_inputs :: "trigger_env \<Rightarrow> string \<Rightarrow> pyval dict \<Rightarrow> string dict \<Rightarrow> string dict \<Rightarrow> string + string dict" where
  "render_inputs te name event sofar [] = Inr sofar"
| "render_inputs te name event sofar ((key, template) # rest) =
     (case te_render te template event of
        Inl e \<Rightarrow> Inl (''trigger '' @ quoted name @ '', input '' @ quoted key @ '': '' @ e)
      | Inr text \<Rightarrow> render_inputs te name event (dset key text sofar) rest)"

definition begin_run :: "trigger_env \<Rightarrow> trigger_plan \<Rightarrow> string \<Rightarrow> pyval dict \<Rightarrow> trigger_world \<Rightarrow> (string + string) \<times> trigger_world" where
  "begin_run te p key event w =
     (let t = tn_trigger p
      in case render_inputs te (tg_name t) event [] (tg_inputs t) of
           Inl e \<Rightarrow> (Inl e, w)
         | Inr inputs \<Rightarrow>
             (te_start_run te (tg_workflow t) inputs (length (tw_begun w)),
              w\<lparr>tw_begun := tw_begun w @ [((tg_name t, key), tg_workflow t, inputs)]\<rparr>))"

definition fire_rule :: "trigger_env \<Rightarrow> trigger_plan \<Rightarrow> string \<Rightarrow> pyval dict \<Rightarrow> trigger_world \<Rightarrow> decision option \<times> trigger_world" where
  "fire_rule te p key event w0 =
     (let t = tn_trigger p
      in case trigger_claim (te_written te (length (td_fires (tw_db w0)))) (tg_name t) key ''starting'' [] (tw_db w0) of
           (None, db) \<Rightarrow> (None, w0\<lparr>tw_db := db\<rparr>)
         | (Some i, db) \<Rightarrow>
             (case begin_run te p key event (w0\<lparr>tw_db := db\<rparr>) of
                (Inr eid, w) \<Rightarrow>
                  (Some \<lparr>de_trigger = tg_name t, de_key = key, de_outcome = ''started'', de_execution = Some eid, de_detail = None\<rparr>,
                   w\<lparr>tw_db := settle_fire i ''started'' (tg_workflow t @ '' '' @ take 8 eid) (Some eid) (tw_db w)\<rparr>)
              | (Inl detail, w) \<Rightarrow>
                  (Some \<lparr>de_trigger = tg_name t, de_key = key, de_outcome = ''failed'', de_execution = None, de_detail = Some (te_shown te detail)\<rparr>,
                   w\<lparr>tw_db := settle_fire i ''failed'' detail None (tw_db w)\<rparr>)))"

definition skip_rule :: "trigger_env \<Rightarrow> trigger_plan \<Rightarrow> string \<Rightarrow> string \<Rightarrow> trigger_world \<Rightarrow> decision option \<times> trigger_world" where
  "skip_rule te p key reason w =
     (let name = tg_name (tn_trigger p)
      in case trigger_claim (te_written te (length (td_fires (tw_db w)))) name key ''skipped'' reason (tw_db w) of
           (None, db) \<Rightarrow> (None, w\<lparr>tw_db := db\<rparr>)
         | (Some i, db) \<Rightarrow>
             (Some \<lparr>de_trigger = name, de_key = key, de_outcome = ''skipped'', de_execution = None, de_detail = Some reason\<rparr>, w\<lparr>tw_db := db\<rparr>))"

definition truncated :: "rat \<Rightarrow> int" where
  "truncated q = (if q < 0 then - \<lfloor>- q\<rfloor> else \<lfloor>q\<rfloor>)"

definition as_list :: "'a option \<Rightarrow> 'a list" where
  "as_list x = (case x of None \<Rightarrow> [] | Some d \<Rightarrow> [d])"

text \<open>What a due time leads to.\<close>

definition act_on_due :: "trigger_env \<Rightarrow> trigger_plan \<Rightarrow> rat \<Rightarrow> rat \<Rightarrow> nat \<Rightarrow> trigger_world \<Rightarrow> decision option \<times> trigger_world" where
  "act_on_due te p now due count w =
     (let key = te_iso te None due; local_due = te_iso te (Some (tn_tz p)) due; late = now - due
      in if GRACE < late \<and> \<not> tn_catch_up p
         then skip_rule te p key (''missed: temper was not running at '' @ local_due @
                (if 1 < count then '' (and '' @ nat_str (count - 1) @ '' earlier)'' else [])) w
         else case te_still_going te (last_started (tg_name (tn_trigger p)) (tw_db w)) of
                Some (c # cs) \<Rightarrow> skip_rule te p key (''previous run '' @ take 8 (c # cs) @ '' is still going'') w
              | _ \<Rightarrow> fire_rule te p key
                      [(''due'', PStr local_due), (''now'', PStr (te_iso te (Some (tn_tz p)) now)), (''late_seconds'', PInt (truncated late))] w)"

definition schedule_rule :: "trigger_env \<Rightarrow> rat \<Rightarrow> trigger_plan \<Rightarrow> trigger_world \<Rightarrow> decision list \<times> trigger_world" where
  "schedule_rule te now p w0 =
     (let name = tg_name (tn_trigger p)
      in case state_for name now (tw_db w0) of
           ((first_seen, None), db) \<Rightarrow> ([], w0\<lparr>tw_db := mark_checked name now db\<rparr>)
         | ((first_seen, Some checked_at), db) \<Rightarrow>
             (let w = w0\<lparr>tw_db := mark_checked name now db\<rparr>
              in case last_due p checked_at now first_seen of
                   (None, count) \<Rightarrow> ([], w)
                 | (Some due, count) \<Rightarrow> apfst as_list (act_on_due te p now due count w)))"

text \<open>The loops over the runs a rule is about: each is decided on its own.\<close>

fun fire_each :: "trigger_env \<Rightarrow> trigger_plan \<Rightarrow> (string \<times> pyval dict) list \<Rightarrow> trigger_world \<Rightarrow> decision list \<times> trigger_world" where
  "fire_each te p [] w = ([], w)"
| "fire_each te p ((key, event) # rest) w =
     (case fire_rule te p key event w of (d, w1) \<Rightarrow> apfst (\<lambda>ds. as_list d @ ds) (fire_each te p rest w1))"

definition opt_text_val :: "string option \<Rightarrow> pyval" where
  "opt_text_val x = (case x of None \<Rightarrow> PNone | Some s \<Rightarrow> PStr s)"

definition named_among :: "string option \<Rightarrow> string list \<Rightarrow> bool" where
  "named_among x xs = (case x of None \<Rightarrow> False | Some s \<Rightarrow> s \<in> set xs)"

definition ended_since :: "trigger_env \<Rightarrow> rat \<Rightarrow> seen_run \<Rightarrow> bool" where
  "ended_since te first_seen r =
     (case (case te_parse_time te (sr_end_time r) of Some t \<Rightarrow> Some t | None \<Rightarrow> te_parse_time te (sr_start_time r)) of
        None \<Rightarrow> False | Some t \<Rightarrow> first_seen \<le> t)"

definition inputs_wanted :: "trigger_env \<Rightarrow> trigger_plan \<Rightarrow> seen_run \<Rightarrow> bool" where
  "inputs_wanted te p r = list_all (\<lambda>(k, v). py_str (dget_or (run_inputs te (sr_id r)) k PNone) = v) (tn_inputs p)"

definition run_event :: "trigger_env \<Rightarrow> seen_run \<Rightarrow> pyval dict" where
  "run_event te r =
     [(''run'', PDict [(''id'', PStr (sr_id r)), (''workflow'', opt_text_val (sr_workflow r)), (''status'', opt_text_val (sr_status r)),
                       (''inputs'', PDict (run_inputs te (sr_id r))), (''end_time'', opt_text_val (sr_end_time r)),
                       (''cost_usd'', sr_cost r), (''duration_seconds'', sr_duration r)])]"

definition after_run_rule :: "trigger_env \<Rightarrow> rat \<Rightarrow> trigger_plan \<Rightarrow> trigger_world \<Rightarrow> decision list \<times> trigger_world" where
  "after_run_rule te now p w0 =
     (case state_for (tg_name (tn_trigger p)) now (tw_db w0) of
        ((first_seen, _), db) \<Rightarrow>
          (let w = w0\<lparr>tw_db := db\<rparr>;
               found = filter (\<lambda>r. named_among (sr_workflow r) (tn_workflows p) \<and> named_among (sr_status r) (tn_statuses p) \<and> ended_since te first_seen r)
                         (te_runs te None);
               decided = decided_keys (tg_name (tn_trigger p)) (map sr_id found) db
           in fire_each te p (map (\<lambda>r. (sr_id r, run_event te r)) (filter (\<lambda>r. sr_id r \<notin> decided \<and> inputs_wanted te p r) found)) w))"

definition last_sign :: "trigger_env \<Rightarrow> seen_run \<Rightarrow> rat option" where
  "last_sign te r = (case te_last_activity te (sr_id r) of Some t \<Rightarrow> Some t | None \<Rightarrow> te_parse_time te (sr_start_time r))"

definition stuck_event :: "trigger_env \<Rightarrow> rat \<Rightarrow> seen_run \<Rightarrow> rat \<Rightarrow> pyval dict" where
  "stuck_event te now r time =
     [(''run'', PDict [(''id'', PStr (sr_id r)), (''workflow'', opt_text_val (sr_workflow r)), (''status'', opt_text_val (sr_status r)),
                       (''inputs'', PDict (run_inputs te (sr_id r))), (''idle_minutes'', PInt \<lfloor>(now - time) / 60\<rfloor>),
                       (''last_event_at'', PStr (te_iso te None time))])]"

definition stuck_rule :: "trigger_env \<Rightarrow> rat \<Rightarrow> trigger_plan \<Rightarrow> trigger_world \<Rightarrow> decision list \<times> trigger_world" where
  "stuck_rule te now p w =
     (case tn_after p of
        None \<Rightarrow> ([], w)
      | Some idle \<Rightarrow>
          (let runs = filter (\<lambda>r. tn_workflows p = [] \<or> named_among (sr_workflow r) (tn_workflows p))
                        (te_runs te (Some ''running'') @ (if tn_waiting p then te_runs te (Some ''waiting'') else []));
               decided = decided_keys (tg_name (tn_trigger p)) (map sr_id runs) (tw_db w);
               stuck = filter (\<lambda>r. sr_id r \<notin> decided \<and> (case last_sign te r of None \<Rightarrow> False | Some t \<Rightarrow> idle \<le> now - t)) runs
           in fire_each te p (map (\<lambda>r. (sr_id r, stuck_event te now r (case last_sign te r of Some t \<Rightarrow> t | None \<Rightarrow> 0))) stuck) w))"

definition tick_rule :: "trigger_env \<Rightarrow> rat \<Rightarrow> trigger_plan \<Rightarrow> trigger_world \<Rightarrow> decision list \<times> trigger_world" where
  "tick_rule te now p w =
     (if tg_source (tn_trigger p) = SCHEDULE then schedule_rule te now p w
      else if tg_source (tn_trigger p) = AFTER_RUN then after_run_rule te now p w
      else if tg_source (tn_trigger p) = STUCK then stuck_rule te now p w
      else ([], w))"

fun tick_rules :: "trigger_env \<Rightarrow> rat \<Rightarrow> trigger_plan list \<Rightarrow> trigger_world \<Rightarrow> decision list \<times> trigger_world" where
  "tick_rules te now [] w = ([], w)"
| "tick_rules te now (p # ps) w = (case tick_rule te now p w of (ds, w1) \<Rightarrow> apfst (\<lambda>es. ds @ es) (tick_rules te now ps w1))"

definition trigger_tick :: "trigger_env \<Rightarrow> (string \<Rightarrow> tz option) \<Rightarrow> tz \<Rightarrow> rat \<Rightarrow> trigger list \<Rightarrow> trigger_world \<Rightarrow> trigger_error + decision list \<times> trigger_world" where
  "trigger_tick te zones utc now triggers w = bind_trigger (load_plans zones utc triggers) (\<lambda>ps. Inr (tick_rules te now ps w))"

section \<open>The due times of a window\<close>

lemma every_window:
  assumes "(0::rat) < step"
  shows "{k. 1 \<le> k \<and> since < anchor + of_int k * step \<and> anchor + of_int k * step \<le> now} =
    {max \<lfloor>(since - anchor) / step\<rfloor> 0 + 1..\<lfloor>(now - anchor) / step\<rfloor>}"
proof -
  have up: "anchor + of_int k * step \<le> now \<longleftrightarrow> k \<le> \<lfloor>(now - anchor) / step\<rfloor>" for k
    using assms by (simp add: le_floor_iff pos_le_divide_eq algebra_simps)
  have "since < anchor + of_int k * step \<longleftrightarrow> \<lfloor>(since - anchor) / step\<rfloor> < k" for k
    using assms by (simp add: floor_less_iff pos_divide_less_eq algebra_simps)
  then show ?thesis using up by auto
qed

lemma Max_atLeastAtMost_int: "(a::int) \<le> b \<Longrightarrow> Max {a..b} = b"
  by (rule Max_eqI) auto

lemma last_due_every:
  assumes "tn_every p = Some step" and "0 < step"
  shows "last_due p since now anchor =
    (let D = {k. 1 \<le> k \<and> since < anchor + of_int k * step \<and> anchor + of_int k * step \<le> now}
     in if D = {} then (None, 0) else (Some (anchor + of_int (Max D) * step), card D))"
proof -
  define a where "a = \<lfloor>(now - anchor) / step\<rfloor>"
  define b where "b = \<lfloor>(since - anchor) / step\<rfloor>"
  have "last_due p since now anchor = (if a \<le> b \<or> a < 1 then (None, 0) else (Some (anchor + of_int a * step), nat (a - max b 0)))"
    unfolding last_due_def a_def b_def Let_def by (simp only: assms(1) option.case)
  also have "\<dots> = (if {max b 0 + 1..a} = {} then (None, 0) else (Some (anchor + of_int (Max {max b 0 + 1..a}) * step), card {max b 0 + 1..a}))"
    by (auto simp: Max_atLeastAtMost_int)
  finally show ?thesis unfolding Let_def every_window [OF assms(2)] a_def b_def .
qed

lemma last_due_count:
  assumes "tn_every p = Some step" and "0 < step"
  shows "snd (last_due p since now anchor) = nat (\<lfloor>(now - anchor) / step\<rfloor> - max \<lfloor>(since - anchor) / step\<rfloor> 0)"
proof -
  define a where "a = \<lfloor>(now - anchor) / step\<rfloor>"
  define b where "b = \<lfloor>(since - anchor) / step\<rfloor>"
  have "last_due p since now anchor = (if a \<le> b \<or> a < 1 then (None, 0) else (Some (anchor + of_int a * step), nat (a - max b 0)))"
    unfolding last_due_def a_def b_def Let_def by (simp only: assms(1) option.case)
  then show ?thesis unfolding a_def [symmetric] b_def [symmetric] by auto
qed

lemma every_count_add:
  assumes "tn_every p = Some step" and "0 < step" and "since \<le> now" and "now \<le> later"
  shows "snd (last_due p since later anchor) = snd (last_due p since now anchor) + snd (last_due p now later anchor)"
proof -
  have "\<lfloor>(since - anchor) / step\<rfloor> \<le> \<lfloor>(now - anchor) / step\<rfloor>" "\<lfloor>(now - anchor) / step\<rfloor> \<le> \<lfloor>(later - anchor) / step\<rfloor>"
    using assms by (intro floor_mono divide_right_mono; simp)+
  moreover have "nat (c - max a 0) = nat (b - max a 0) + nat (c - max b 0)" if "a \<le> b" "b \<le> c" for a b c :: int
    using that by linarith
  ultimately show ?thesis unfolding last_due_count [OF assms(1,2)] by blast
qed

text \<open>Once a rule is checked up to a moment, only later due times are found.\<close>

lemma checked_moves_on:
  assumes "tn_every p = Some step" and "0 < step" and "last_due p checked now anchor = (Some due, n)"
  shows "checked < due"
proof -
  have "\<not> \<lfloor>(now - anchor) / step\<rfloor> \<le> \<lfloor>(checked - anchor) / step\<rfloor>" and due: "due = anchor + of_int \<lfloor>(now - anchor) / step\<rfloor> * step"
    using assms by (auto simp: last_due_def Let_def split: if_splits)
  then show ?thesis using assms(2) by (simp add: not_le floor_less_iff pos_divide_less_eq algebra_simps)
qed

lemma planned_step_positive:
  assumes "plan_trigger zones utc t = Inr p" and "tn_every p = Some step"
  shows "0 < step"
proof -
  have "0 < q" if "parse_duration v = Inr q" for v q
    using that by (auto simp: parse_duration_def Let_def split: pyval.splits option.splits if_splits)
  then show ?thesis using assms
    by (auto simp: plan_trigger_def plan_schedule_def plan_after_run_def plan_stuck_def empty_plan_def bind_trigger_def as_config_error_def bind_cron_def Let_def
        split: if_splits sum.splits option.splits cron_error.splits pyval.splits)
qed

lemma minutes_insert:
  "{m. t - int (Suc n) < m \<and> m \<le> t \<and> matches c m} = (if matches c t then insert t else id) {m. t - 1 - int n < m \<and> m \<le> t - 1 \<and> matches c m}"
  by (auto simp: le_less)

lemma finite_minutes: "finite {m::int. a < m \<and> m \<le> b \<and> P m}"
  by (rule finite_subset [of _ "{a..b}"]) auto

lemma count_back_exact:
  "count_back c t n = (let D = {m. t - int n < m \<and> m \<le> t \<and> matches c m} in (if D = {} then None else Some (Max D), card D))"
proof (induction n arbitrary: t)
  case (Suc n)
  let ?D = "{m. t - 1 - int n < m \<and> m \<le> t - 1 \<and> matches c m}"
  have fin: "finite ?D" by (rule finite_minutes)
  have new: "t \<notin> ?D" by simp
  have "Max (insert t ?D) = t" using fin by (intro Max_eqI) auto
  then show ?case unfolding minutes_insert using Suc.IH [of "t - 1"] fin new by (simp add: Let_def) blast
next
  case 0
  have "{m. t - int 0 < m \<and> m \<le> t \<and> matches c m} = {}" for t by auto
  then show ?case by (simp only: count_back.simps Let_def if_True card.empty simp_thms)
qed

lemma last_due_cron:
  assumes "tn_every p = None" and "tn_cron p = Some c"
  shows "last_due p since now anchor =
    (let z = tn_tz p; D = {m. tz_wall z since < m \<and> m \<le> tz_wall z now \<and> matches c m}
     in (if D = {} then None else Some (tz_utc z (Max D = tz_wall z now \<and> tz_fold z now) (Max D)), card D))"
proof -
  let ?t = "tz_wall (tn_tz p) now" and ?s = "tz_wall (tn_tz p) since"
  have "{m. ?t - int (nat (?t - ?s)) < m \<and> m \<le> ?t \<and> matches c m} = {m. ?s < m \<and> m \<le> ?t \<and> matches c m}"
    by (cases "?s \<le> ?t") auto
  then show ?thesis using assms unfolding last_due_def count_back_exact Let_def by (simp del: Collect_empty_eq int_nat_eq)
qed

text \<open>C36: For an interval rule that passed its check, the interval is positive, and what is due in a window is exactly its due times there, the anchor plus whole
  intervals: the latest is given, with how many there are; none is counted by two windows that follow each other, and none is lost between them.\<close>

theorem last_due_exact:
  assumes "plan_trigger zones utc t = Inr p" and "tn_every p = Some step"
  shows "0 < step \<and>
    last_due p since now anchor =
      (let D = {k. 1 \<le> k \<and> since < anchor + of_int k * step \<and> anchor + of_int k * step \<le> now}
       in if D = {} then (None, 0) else (Some (anchor + of_int (Max D) * step), card D)) \<and>
    (since \<le> now \<and> now \<le> later \<longrightarrow> snd (last_due p since later anchor) = snd (last_due p since now anchor) + snd (last_due p now later anchor))"
proof -
  have pos: "0 < step" by (rule planned_step_positive [OF assms])
  moreover have "snd (last_due p since later anchor) = snd (last_due p since now anchor) + snd (last_due p now later anchor)" if "since \<le> now" "now \<le> later"
    using every_count_add [OF assms(2) pos that] .
  ultimately show ?thesis using last_due_every [OF assms(2) pos] by blast
qed

section \<open>Each occasion once\<close>

text \<open>Servers whose passes interleave write by write: an occasion is claimed, the one who claimed it begins its run or gives up (a skip, a template
  that does not render, a server that dies), and any row may be settled and any check noted. The list is of the occasions that are
  claimed and whose run is still to be begun.\<close>

inductive trigger_moves :: "trigger_world \<Rightarrow> (string \<times> string) list \<Rightarrow> trigger_world \<Rightarrow> (string \<times> string) list \<Rightarrow> bool" for w0 q0 where
  unmoved: "trigger_moves w0 q0 w0 q0"
| claims: "trigger_moves w0 q0 w q \<Longrightarrow> trigger_claim time name key result detail (tw_db w) = (Some i, db) \<Longrightarrow>
    trigger_moves w0 q0 (w\<lparr>tw_db := db\<rparr>) ((name, key) # q)"
| begins: "trigger_moves w0 q0 w q \<Longrightarrow> occ \<in> set q \<Longrightarrow> trigger_moves w0 q0 (w\<lparr>tw_begun := tw_begun w @ [(occ, workflow, inputs)]\<rparr>) (remove1 occ q)"
| gives_up: "trigger_moves w0 q0 w q \<Longrightarrow> trigger_moves w0 q0 w (remove1 occ q)"
| settles: "trigger_moves w0 q0 w q \<Longrightarrow> trigger_moves w0 q0 (w\<lparr>tw_db := settle_fire i result detail eid (tw_db w)\<rparr>) q"
| keeps_fires: "trigger_moves w0 q0 w q \<Longrightarrow> td_fires db = td_fires (tw_db w) \<Longrightarrow> trigger_moves w0 q0 (w\<lparr>tw_db := db\<rparr>) q"

lemma trigger_moves_trans: "trigger_moves w1 q1 w2 q2 \<Longrightarrow> trigger_moves w0 q0 w1 q1 \<Longrightarrow> trigger_moves w0 q0 w2 q2"
  by (induction rule: trigger_moves.induct) (auto intro: trigger_moves.intros)

definition decided_in :: "trigger_world \<Rightarrow> (string \<times> string) set" where
  "decided_in w = occasion ` set (td_fires (tw_db w))"

lemma claim_cases:
  "trigger_claim time name key result detail db = (Some i, db') \<Longrightarrow>
     (name, key) \<notin> occasion ` set (td_fires db) \<and> map occasion (td_fires db') = map occasion (td_fires db) @ [(name, key)]"
  "trigger_claim time name key result detail db = (None, db') \<Longrightarrow> (name, key) \<in> occasion ` set (td_fires db) \<and> db' = db"
  by (auto simp: trigger_claim_def Let_def occasion_def split: if_splits)

lemma occasions_settle [simp]: "map occasion (td_fires (settle_fire i result detail eid db)) = map occasion (td_fires db)"
  by (auto simp: settle_fire_def occasion_def)

lemma occasion_set_eq: "map occasion xs = map occasion ys \<Longrightarrow> occasion ` set xs = occasion ` set ys"
  by (metis list.set_map)

definition once_inv :: "(string \<times> string) set \<Rightarrow> trigger_world \<Rightarrow> (string \<times> string) list \<Rightarrow> bool" where
  "once_inv before w q \<longleftrightarrow> distinct (map occasion (td_fires (tw_db w))) \<and> distinct (q @ map fst (tw_begun w)) \<and>
     before \<subseteq> decided_in w \<and> set q \<union> fst ` set (tw_begun w) \<subseteq> decided_in w - before"

lemma once_inv_moves:
  assumes "trigger_moves w0 q0 w q" and "once_inv before w0 q0"
  shows "once_inv before w q"
  using assms
proof (induction rule: trigger_moves.induct)
  case (claims w q time name key result detail i db)
  note new = claim_cases(1) [OF claims.hyps(2)]
  have "occasion ` set (td_fires db) = insert (name, key) (decided_in w)"
    using new by (metis Un_insert_right decided_in_def list.set_map list.simps(15) set_append sup_bot.right_neutral list.set(1))
  then show ?case using claims.IH [OF claims.prems] new by (auto simp: once_inv_def decided_in_def)
next
  case (begins w q occ workflow inputs)
  then show ?case by (auto simp: once_inv_def decided_in_def dest: in_set_remove1 set_remove1_subset [THEN subsetD])
next
  case (gives_up w q occ)
  then show ?case by (auto simp: once_inv_def decided_in_def dest: set_remove1_subset [THEN subsetD])
next
  case (settles w q i result detail eid)
  have "occasion ` set (td_fires (settle_fire i result detail eid (tw_db w))) = decided_in w"
    unfolding decided_in_def by (rule occasion_set_eq) simp
  then show ?case using settles.IH [OF settles.prems] by (simp add: once_inv_def decided_in_def)
next
  case (keeps_fires w q db)
  then show ?case by (simp add: once_inv_def decided_in_def)
qed simp

text \<open>A pass, alone, is such moves.\<close>

lemma begin_run_moves:
  assumes "begin_run te p key event w = (r, w')" and "q = (tg_name (tn_trigger p), key) # q'"
  shows "trigger_moves w q w' q'"
proof (cases "render_inputs te (tg_name (tn_trigger p)) event [] (tg_inputs (tn_trigger p))")
  case (Inl e)
  then have "w' = w" using assms(1) by (simp add: begin_run_def Let_def)
  then show ?thesis using gives_up [OF unmoved, of w q "(tg_name (tn_trigger p), key)"] assms(2) by simp
next
  case (Inr inputs)
  then have "w' = w\<lparr>tw_begun := tw_begun w @ [((tg_name (tn_trigger p), key), tg_workflow (tn_trigger p), inputs)]\<rparr>"
    using assms(1) by (auto simp: begin_run_def Let_def)
  then show ?thesis using begins [OF unmoved, of "(tg_name (tn_trigger p), key)" q w] assms(2) by simp
qed

lemma fire_rule_moves: "fire_rule te p key event w = (d, w') \<Longrightarrow> trigger_moves w q w' q"
proof -
  assume run: "fire_rule te p key event w = (d, w')"
  obtain i db where claim: "trigger_claim (te_written te (length (td_fires (tw_db w)))) (tg_name (tn_trigger p)) key ''starting'' [] (tw_db w) = (i, db)"
    by fastforce
  show ?thesis
  proof (cases i)
    case None
    then have "db = tw_db w" using claim claim_cases(2) by auto
    then show ?thesis using None claim run by (auto simp: fire_rule_def Let_def intro: trigger_moves.intros)
  next
    case (Some n)
    let ?w = "w\<lparr>tw_db := db\<rparr>" and ?q = "(tg_name (tn_trigger p), key) # q"
    obtain r v where beg: "begin_run te p key event ?w = (r, v)" by fastforce
    have "trigger_moves w q ?w ?q" using claims [OF unmoved claim [unfolded Some]] .
    then have mv: "trigger_moves w q v q" using begin_run_moves [OF beg refl] trigger_moves_trans by blast
    then show ?thesis using settles [OF mv] run claim Some beg by (cases r) (auto simp: fire_rule_def Let_def)
  qed
qed

lemma skip_rule_moves: "skip_rule te p key reason w = (d, w') \<Longrightarrow> trigger_moves w q w' q"
proof -
  assume run: "skip_rule te p key reason w = (d, w')"
  let ?occ = "(tg_name (tn_trigger p), key)"
  obtain i db where claim: "trigger_claim (te_written te (length (td_fires (tw_db w)))) (fst ?occ) (snd ?occ) ''skipped'' reason (tw_db w) = (i, db)"
    by fastforce
  show ?thesis
  proof (cases i)
    case None
    then have "db = tw_db w" using claim claim_cases(2) by auto
    then show ?thesis using None claim run by (auto simp: skip_rule_def Let_def intro: trigger_moves.intros)
  next
    case (Some n)
    have "trigger_moves w q (w\<lparr>tw_db := db\<rparr>) (remove1 ?occ (?occ # q))"
      using gives_up [OF claims [OF unmoved claim [unfolded Some]], where occ = ?occ] by simp
    then show ?thesis using run claim Some by (simp add: skip_rule_def Let_def)
  qed
qed

lemma fire_each_moves: "fire_each te p xs w = (ds, w') \<Longrightarrow> trigger_moves w q w' q"
proof (induction te p xs w arbitrary: ds w' rule: fire_each.induct)
  case (2 te p key event rest w)
  obtain d w1 where one: "fire_rule te p key event w = (d, w1)" by fastforce
  moreover obtain es w2 where others: "fire_each te p rest w1 = (es, w2)" by fastforce
  ultimately have "w' = w2" using "2.prems" by simp
  then show ?case using trigger_moves_trans [OF "2.IH" [OF one [symmetric] others] fire_rule_moves [OF one]] by simp
qed (simp add: unmoved)

lemma state_for_fires: "state_for name now db = (s, db') \<Longrightarrow> td_fires db' = td_fires db"
  by (auto simp: state_for_def split: option.splits)

lemma mark_checked_fires [simp]: "td_fires (mark_checked name time db) = td_fires db"
  by (auto simp: mark_checked_def split: option.splits prod.splits)

lemma act_on_due_moves: "act_on_due te p now due count w = (d, w') \<Longrightarrow> trigger_moves w q w' q"
  by (auto simp: act_on_due_def Let_def split: if_splits option.splits list.splits intro: skip_rule_moves fire_rule_moves)

lemma schedule_rule_moves:
  assumes "schedule_rule te now p w = (ds, w')"
  shows "trigger_moves w q w' q"
proof -
  let ?name = "tg_name (tn_trigger p)"
  obtain first checked db where st: "state_for ?name now (tw_db w) = ((first, checked), db)" by (metis prod.collapse)
  define v where "v = w\<lparr>tw_db := mark_checked ?name now db\<rparr>"
  have v: "trigger_moves w q v q" unfolding v_def using state_for_fires [OF st] by (intro keeps_fires [OF unmoved]) simp
  show ?thesis
  proof (cases checked)
    case None
    then show ?thesis using assms st v by (simp add: schedule_rule_def Let_def v_def)
  next
    case (Some t)
    obtain due count where due: "last_due p t now first = (due, count)" by fastforce
    show ?thesis
    proof (cases due)
      case None
      then show ?thesis using assms st Some due v by (simp add: schedule_rule_def Let_def v_def)
    next
      fix u assume "due = Some u"
      then obtain d where "act_on_due te p now u count v = (d, w')"
        using assms st Some due by (cases "act_on_due te p now u count v") (auto simp: schedule_rule_def Let_def v_def)
      then show ?thesis using trigger_moves_trans [OF act_on_due_moves v] by blast
    qed
  qed
qed

lemma after_run_rule_moves:
  assumes "after_run_rule te now p w = (ds, w')"
  shows "trigger_moves w q w' q"
proof -
  obtain first checked db where st: "state_for (tg_name (tn_trigger p)) now (tw_db w) = ((first, checked), db)" by (metis prod.collapse)
  have "trigger_moves w q (w\<lparr>tw_db := db\<rparr>) q" using state_for_fires [OF st] by (intro keeps_fires [OF unmoved])
  then show ?thesis using assms st by (auto simp: after_run_rule_def Let_def intro: trigger_moves_trans dest: fire_each_moves)
qed

lemma tick_rule_moves: "tick_rule te now p w = (ds, w') \<Longrightarrow> trigger_moves w q w' q"
  by (auto simp: tick_rule_def stuck_rule_def Let_def split: if_splits option.splits
      intro: schedule_rule_moves after_run_rule_moves fire_each_moves unmoved)

lemma tick_rules_moves: "tick_rules te now ps w = (ds, w') \<Longrightarrow> trigger_moves w q w' q"
proof (induction te now ps w arbitrary: ds w' rule: tick_rules.induct)
  case (2 te now p ps w)
  obtain d w1 where one: "tick_rule te now p w = (d, w1)" by fastforce
  moreover obtain es w2 where others: "tick_rules te now ps w1 = (es, w2)" by fastforce
  ultimately have "w' = w2" using "2.prems" by simp
  then show ?case using trigger_moves_trans [OF "2.IH" [OF one [symmetric] others] tick_rule_moves [OF one]] by simp
qed (simp add: unmoved)

text \<open>C35: Whatever other servers claim, begin, settle or leave undone before a pass and whatever it finds, no occasion (a due time, a finished run, a stuck run)
  ever begins a second run, and none that was decided before they started begins one.\<close>

theorem each_occasion_begins_once:
  assumes "tw_begun w0 = []" and "distinct (map occasion (td_fires (tw_db w0)))" and "trigger_moves w0 [] w q"
    and "trigger_tick te zones utc now triggers w = Inr (ds, w')"
  shows "distinct (map fst (tw_begun w')) \<and> fst ` set (tw_begun w') \<subseteq> decided_in w' - decided_in w0"
proof -
  obtain ps where "tick_rules te now ps w = (ds, w')"
    using assms(4) by (auto simp: trigger_tick_def bind_trigger_def split: sum.splits)
  then have "trigger_moves w0 [] w' q" using trigger_moves_trans [OF tick_rules_moves assms(3)] by blast
  moreover have "once_inv (decided_in w0) w0 []" using assms(1,2) by (simp add: once_inv_def)
  ultimately have "once_inv (decided_in w0) w' q" by (rule once_inv_moves)
  then show ?thesis by (simp add: once_inv_def)
qed

lemma fire_decides: "fire_rule te p key event w = (d, w') \<Longrightarrow> (tg_name (tn_trigger p), key) \<in> decided_in w'"
proof -
  assume run: "fire_rule te p key event w = (d, w')"
  obtain i db where claim: "trigger_claim (te_written te (length (td_fires (tw_db w)))) (tg_name (tn_trigger p)) key ''starting'' [] (tw_db w) = (i, db)"
    by fastforce
  obtain r v where beg: "begin_run te p key event (w\<lparr>tw_db := db\<rparr>) = (r, v)" by fastforce
  then have "tw_db v = db" by (auto simp: begin_run_def Let_def split: sum.splits)
  moreover have "(tg_name (tn_trigger p), key) \<in> occasion ` set (td_fires db)"
  proof (cases i)
    case None
    then show ?thesis using claim claim_cases(2) by blast
  next
    case (Some n)
    then have "map occasion (td_fires db) = map occasion (td_fires (tw_db w)) @ [(tg_name (tn_trigger p), key)]" using claim claim_cases(1) by blast
    then have "(tg_name (tn_trigger p), key) \<in> set (map occasion (td_fires db))" by simp
    then show ?thesis by simp
  qed
  moreover have "occasion ` set (td_fires (settle_fire j x y z db)) = occasion ` set (td_fires db)" for j x y z
    by (rule occasion_set_eq) simp
  ultimately show ?thesis using run claim beg by (auto simp: fire_rule_def Let_def decided_in_def split: option.splits sum.splits)
qed

lemma skip_decides: "skip_rule te p key reason w = (d, w') \<Longrightarrow> (tg_name (tn_trigger p), key) \<in> decided_in w'"
  by (auto simp: skip_rule_def Let_def decided_in_def trigger_claim_def occasion_def split: if_splits)

lemma fire_keeps_states: "fire_rule te p key event w = (d, w') \<Longrightarrow> td_states (tw_db w') = td_states (tw_db w)"
  by (auto simp: fire_rule_def begin_run_def trigger_claim_def settle_fire_def Let_def split: sum.splits if_splits)

lemma skip_keeps_states: "skip_rule te p key reason w = (d, w') \<Longrightarrow> td_states (tw_db w') = td_states (tw_db w)"
  by (auto simp: skip_rule_def trigger_claim_def Let_def split: if_splits)

lemma act_keeps_states: "act_on_due te p now due count w = (d, w') \<Longrightarrow> td_states (tw_db w') = td_states (tw_db w)"
  by (auto simp: act_on_due_def Let_def split: if_splits option.splits list.splits dest: skip_keeps_states fire_keeps_states)

lemma act_decides: "act_on_due te p now due count w = (d, w') \<Longrightarrow> (tg_name (tn_trigger p), te_iso te None due) \<in> decided_in w'"
  by (auto simp: act_on_due_def Let_def split: if_splits option.splits list.splits intro: skip_decides fire_decides)

text \<open>A schedule misses nothing. When a pass finds that the rule was due since it was last checked, the latest due time is decided: it has a row that says
  started, failed or skipped, so the next pass and every other server leave it alone; and the rule counts as checked up to now.\<close>

theorem due_time_is_decided:
  assumes "dget (td_states (tw_db w)) (tg_name (tn_trigger p)) = Some (first_seen, Some checked_at)"
    and "last_due p checked_at now first_seen = (Some due, count)" and "schedule_rule te now p w = (ds, w')"
  shows "(tg_name (tn_trigger p), te_iso te None due) \<in> decided_in w' \<and>
    dget (td_states (tw_db w')) (tg_name (tn_trigger p)) = Some (first_seen, Some now)"
proof -
  let ?name = "tg_name (tn_trigger p)"
  define v where "v = w\<lparr>tw_db := mark_checked ?name now (tw_db w)\<rparr>"
  have v: "dget (td_states (tw_db v)) ?name = Some (first_seen, Some now)" using assms(1) by (simp add: v_def mark_checked_def)
  obtain d where act: "act_on_due te p now due count v = (d, w')"
    using assms by (cases "act_on_due te p now due count v") (auto simp: schedule_rule_def state_for_def Let_def v_def)
  have "td_states (tw_db w') = td_states (tw_db v)" using act_keeps_states [OF act] .
  then show ?thesis using v act_decides [OF act] by simp
qed

section \<open>Concrete passes\<close>

definition demo_tz :: tz where
  "demo_tz = \<lparr>tz_wall = (\<lambda>t. \<lfloor>t / 60\<rfloor>), tz_fold = (\<lambda>_. False), tz_utc = (\<lambda>_ m. of_int m * 60)\<rparr>"

definition demo_te :: trigger_env where
  "demo_te = \<lparr>te_written = rat_of_nat, te_runs = (\<lambda>_. []), te_start_data = (\<lambda>_. None), te_last_activity = (\<lambda>_. None), te_still_going = (\<lambda>_. None),
     te_iso = (\<lambda>_ t. int_str \<lfloor>t\<rfloor>), te_read = (\<lambda>_. None), te_render = (\<lambda>t _. Inr t), te_start_run = (\<lambda>_ _ n. Inr (''run'' @ nat_str n)), te_shown = id\<rparr>"

definition demo_rule :: trigger where
  "demo_rule = \<lparr>tg_name = ''sweep'', tg_source = ''schedule'', tg_on = [(''every'', PInt 60)], tg_workflow = ''tidy'', tg_inputs = [(''why'', ''due'')],
     tg_enabled = True, tg_ignore_self = True, tg_path = []\<rparr>"

definition demo_plan :: trigger_plan where
  "demo_plan = (empty_plan demo_tz demo_rule)\<lparr>tn_every := Some 60\<rparr>"

definition demo_tw :: trigger_world where
  "demo_tw = \<lparr>tw_db = \<lparr>td_fires = [], td_states = [(''sweep'', (0, Some 50))]\<rparr>, tw_begun = []\<rparr>"

definition demo_fire :: trigger_fire where
  "demo_fire = \<lparr>tf_id = 1, tf_trigger = ''sweep'', tf_key = ''120'', tf_at = 0, tf_outcome = ''started'', tf_detail = ''tidy run0'', tf_execution = Some ''run0''\<rparr>"

definition demo_after :: trigger_world where
  "demo_after = \<lparr>tw_db = \<lparr>td_fires = [demo_fire], td_states = [(''sweep'', (0, Some 130))]\<rparr>,
     tw_begun = [((''sweep'', ''120''), ''tidy'', [(''why'', ''due'')])]\<rparr>"

lemma demo_plans: "load_plans (\<lambda>_. Some demo_tz) demo_tz [demo_rule] = Inr [demo_plan]"
  by (simp add: plan_trigger_def plan_schedule_def demo_rule_def demo_plan_def SCHEDULE_def bind_trigger_def as_config_error_def bind_cron_def
      parse_duration_def zone_of_def dhas_def empty_plan_def Let_def dget_or_def)

lemma demo_last_due: "last_due demo_plan 50 130 0 = (Some 120, 2)"
  by code_simp

lemma demo_pass: "schedule_rule demo_te 130 demo_plan demo_tw = ([\<lparr>de_trigger = ''sweep'', de_key = ''120'', de_outcome = ''started'', de_execution = Some ''run0'', de_detail = None\<rparr>], demo_after)"
  by code_simp

lemma demo_tick: "\<exists>ds. trigger_tick demo_te (\<lambda>_. Some demo_tz) demo_tz 130 [demo_rule] demo_tw = Inr (ds, demo_after)"
proof -
  have "tg_source (tn_trigger demo_plan) = SCHEDULE" by (simp add: demo_plan_def empty_plan_def demo_rule_def SCHEDULE_def)
  then show ?thesis unfolding trigger_tick_def demo_plans using demo_pass by (simp add: bind_trigger_def tick_rule_def)
qed

theorem each_occasion_begins_once_witness:
  "length (tw_begun demo_after) = 1 \<and> distinct (map fst (tw_begun demo_after)) \<and> fst ` set (tw_begun demo_after) \<subseteq> decided_in demo_after - decided_in demo_tw"
proof -
  obtain ds where tick: "trigger_tick demo_te (\<lambda>_. Some demo_tz) demo_tz 130 [demo_rule] demo_tw = Inr (ds, demo_after)" using demo_tick by blast
  have "tw_begun demo_tw = []" and "distinct (map occasion (td_fires (tw_db demo_tw)))" by (simp_all add: demo_tw_def)
  from each_occasion_begins_once [OF this unmoved tick] show ?thesis by (simp add: demo_after_def)
qed

theorem due_time_is_decided_witness: "(''sweep'', ''120'') \<in> decided_in demo_after"
proof -
  have "dget (td_states (tw_db demo_tw)) (tg_name (tn_trigger demo_plan)) = Some (0, Some 50)"
    by (simp add: demo_tw_def demo_plan_def empty_plan_def demo_rule_def)
  moreover have "(tg_name (tn_trigger demo_plan), te_iso demo_te None 120) = (''sweep'', ''120'')" by code_simp
  ultimately show ?thesis using due_time_is_decided [OF _ demo_last_due demo_pass] by simp
qed

theorem last_due_exact_witness: "(0::rat) < 60 \<and> snd (last_due demo_plan 0 130 0) = snd (last_due demo_plan 0 50 0) + snd (last_due demo_plan 50 130 0)"
proof -
  have "plan_trigger (\<lambda>_. Some demo_tz) demo_tz demo_rule = Inr demo_plan"
    by (simp add: plan_trigger_def plan_schedule_def demo_rule_def demo_plan_def SCHEDULE_def bind_trigger_def as_config_error_def bind_cron_def
      parse_duration_def zone_of_def dhas_def empty_plan_def Let_def dget_or_def)
  moreover have "tn_every demo_plan = Some 60" by (simp add: demo_plan_def)
  ultimately show ?thesis using last_due_exact [of "\<lambda>_. Some demo_tz" demo_tz demo_rule demo_plan 60 0 50 0 130] by simp
qed

end
