(* ===== verification/Allowance.thy ===== *)
theory Allowance
  imports Token_Pool Cron Iterate
begin

text \<open>
  What happens when a model is out of capacity: the list of fallbacks an agent names and which failures move down it
  (\<^verbatim>\<open>temper_ai/llm/fallback.py\<close>), and the wait for an allowance that reopens (\<^verbatim>\<open>temper_ai/llm/allowance.py\<close>).

  An exception is a record of what this code reads of it. The dash in the pool's message is the character 0x97; a quotation mark outside
  Latin-1 occurs in no text of the model, so the one pattern with it is left out. Reading an ISO time is a parameter.
\<close>

section \<open>The fallback list\<close>

definition CAPACITY_STATUSES :: "int list" where "CAPACITY_STATUSES = [429, 529]"

definition CAPACITY_TEXT :: "string list" where
  "CAPACITY_TEXT =
     [''rate limit'', ''rate_limit'', ''usage limit'', ''usage_limit'', ''too many requests'', ''overloaded'', ''pool exhausted'', ''quota exceeded'',
      ''quota reached'', ''insufficient_quota'', ''hit your limit'', ''you'' @ [CHR 0x27] @ ''ve hit your'', ''session limit'', ''weekly limit'',
      ''limit reached'', ''credit balance is too low'', ''http 429'', ''http 529'']"

definition ENTRY_KEYS :: "string list" where "ENTRY_KEYS = [''provider'', ''model'', ''provider_config'', ''token'']"

definition is_word :: "char \<Rightarrow> bool" where
  "is_word c = (let n = of_char c :: nat in 48 \<le> n \<and> n \<le> 57 \<or> 65 \<le> n \<and> n \<le> 90 \<or> 97 \<le> n \<and> n \<le> 122)"

definition token_name :: "string \<Rightarrow> bool" where
  "token_name s = (case s of [] \<Rightarrow> False | c # cs \<Rightarrow> is_word c \<and> length cs \<le> 63 \<and> list_all (\<lambda>c. is_word c \<or> c \<in> set ''._@+-'') cs)"

definition parse_token :: "pyval \<Rightarrow> string \<Rightarrow> string + string option" where
  "parse_token raw place =
     (case raw of
        PNone \<Rightarrow> Inr None
      | PStr s \<Rightarrow>
          if strip s = [] then Inl (place @ '' must be a token'' @ [CHR 0x27] @ ''s name'')
          else if startswith ''sk-'' (strip s) \<or> \<not> token_name (strip s)
          then Inl (place @ '' must name the token -- its account, or the variable that holds it -- not be the token itself'')
          else Inr (Some (strip s))
      | _ \<Rightarrow> Inl (place @ '' must be a token'' @ [CHR 0x27] @ ''s name''))"

record fallback_target =
  ft_provider :: "string option"
  ft_model :: "string option"
  ft_config :: "pyval dict option"
  ft_token :: "string option"

definition describe_target :: "fallback_target \<Rightarrow> string \<Rightarrow> string" where
  "describe_target t own_provider =
     (let place = (case ft_provider t of Some (c # cs) \<Rightarrow> c # cs | _ \<Rightarrow> own_provider) @ ''/'' @ (case ft_model t of Some (c # cs) \<Rightarrow> c # cs | _ \<Rightarrow> ''default model'')
      in case ft_token t of Some (c # cs) \<Rightarrow> place @ '' on '' @ (c # cs) | _ \<Rightarrow> place)"

text \<open>A name that is absent, or given and not blank.\<close>

definition name_setting :: "pyval \<Rightarrow> (string option) option" where
  "name_setting v = (case v of PNone \<Rightarrow> Some None | PStr s \<Rightarrow> if strip s = [] then None else Some (Some (strip s)) | _ \<Rightarrow> None)"

definition parse_entry :: "string \<Rightarrow> pyval \<Rightarrow> string + fallback_target" where
  "parse_entry place entry =
     (case entry of
        PStr s \<Rightarrow>
          if strip s = [] then Inl (place @ '' is an empty model name'')
          else Inr \<lparr>ft_provider = None, ft_model = Some (strip s), ft_config = None, ft_token = None\<rparr>
      | PDict d \<Rightarrow>
          (let unknown = sort (filter (\<lambda>k. k \<notin> set ENTRY_KEYS) (map fst d))
           in if unknown \<noteq> []
              then Inl (place @ '' has unknown key(s) '' @ join '', '' unknown @ ''; allowed: provider, model, provider_config, token'')
              else case name_setting (dget_or d ''provider'' PNone) of
                     None \<Rightarrow> Inl (place @ ''.provider must be a non-empty string'')
                   | Some provider \<Rightarrow>
                       (case name_setting (dget_or d ''model'' PNone) of
                          None \<Rightarrow> Inl (place @ ''.model must be a non-empty string'')
                        | Some model \<Rightarrow>
                            (case parse_token (dget_or d ''token'' PNone) (place @ ''.token'') of
                               Inl e \<Rightarrow> Inl e
                             | Inr token \<Rightarrow>
                                 if provider = None \<and> model = None \<and> token = None then Inl (place @ '' names no provider, model or token'')
                                 else case dget_or d ''provider_config'' PNone of
                                        PNone \<Rightarrow> Inr \<lparr>ft_provider = provider, ft_model = model, ft_config = None, ft_token = token\<rparr>
                                      | PDict c \<Rightarrow> Inr \<lparr>ft_provider = provider, ft_model = model, ft_config = (if c = [] then None else Some c), ft_token = token\<rparr>
                                      | _ \<Rightarrow> Inl (place @ ''.provider_config must be a mapping''))))
      | _ \<Rightarrow> Inl (place @ '' must be a model name or a mapping, not '' @ type_name entry))"

fun parse_entries :: "nat \<Rightarrow> pyval list \<Rightarrow> string + fallback_target list" where
  "parse_entries i [] = Inr []"
| "parse_entries i (entry # rest) =
     (case parse_entry (''fallback['' @ nat_str i @ '']'') entry of
        Inl e \<Rightarrow> Inl e
      | Inr t \<Rightarrow> (case parse_entries (Suc i) rest of Inl e \<Rightarrow> Inl e | Inr ts \<Rightarrow> Inr (t # ts)))"

definition parse_fallback :: "pyval \<Rightarrow> string + fallback_target list" where
  "parse_fallback raw =
     (case raw of
        PNone \<Rightarrow> Inr []
      | PStr s \<Rightarrow> parse_entries 0 [raw]
      | PDict d \<Rightarrow> parse_entries 0 [raw]
      | PList vs \<Rightarrow> parse_entries 0 vs
      | _ \<Rightarrow> Inl (''fallback must be a list, not '' @ type_name raw))"

section \<open>Failures for want of capacity\<close>

text \<open>A \<open>reset_at\<close> attribute is absent, a number of seconds, or a \<open>datetime\<close>, here by its epoch.\<close>

datatype reset_value = NoReset | ResetNumber rat | ResetMoment rat

record llm_error =
  le_pool :: bool
  le_kind :: string
  le_text :: string
  le_status :: pyval
  le_response_status :: "pyval option"
  le_headers :: "(string \<Rightarrow> pyval) option"
  le_reset :: reset_value

definition error_status :: "llm_error \<Rightarrow> int option" where
  "error_status e =
     (let as_int = (\<lambda>v. case v of PInt i \<Rightarrow> Some i | PBool b \<Rightarrow> Some (if b then 1 else 0) | _ \<Rightarrow> None)
      in if le_status e = PNone then (case le_response_status e of None \<Rightarrow> None | Some v \<Rightarrow> as_int v) else as_int (le_status e))"

definition reads_as_capacity :: "string \<Rightarrow> bool" where
  "reads_as_capacity text = list_ex (\<lambda>p. has_sub p (lower text)) CAPACITY_TEXT"

definition is_capacity_error :: "llm_error \<Rightarrow> bool" where
  "is_capacity_error e =
     (if le_pool e then True
      else case error_status e of
             Some s \<Rightarrow> s \<in> set CAPACITY_STATUSES \<or> s = 400 \<and> has_sub ''credit balance is too low'' (lower (le_text e))
           | None \<Rightarrow> reads_as_capacity (le_text e))"

section \<open>When the allowance reopens\<close>

definition DEFAULT_MAX_WAIT :: rat where "DEFAULT_MAX_WAIT = 6 * 3600"
definition SLICE_S :: rat where "SLICE_S = 5"
definition WAKE_PAD_S :: rat where "WAKE_PAD_S = 30"
definition MIN_WAIT_S :: rat where "MIN_WAIT_S = 5"
definition MAX_HEADER_WAIT_S :: rat where "MAX_HEADER_WAIT_S = 24 * 3600"

record wait =
  wt_until :: rat
  wt_seconds :: rat

definition how_long :: "rat \<Rightarrow> string" where
  "how_long seconds =
     (let total = \<lfloor>max 0 seconds\<rfloor>; minutes = total div 60
      in if total < 60 then ''under a minute''
         else if minutes < 60 then int_str minutes @ ''m''
         else if minutes mod 60 \<noteq> 0 then int_str (minutes div 60) @ ''h '' @ int_str (minutes mod 60) @ ''m''
         else int_str (minutes div 60) @ ''h'')"

text \<open>The pool's refusals in words.\<close>

definition pool_message :: "pool_exhausted \<Rightarrow> string" where
  "pool_message e =
     (case e of PoolExhausted n reset \<Rightarrow>
        ''token pool exhausted '' @ [CHR 0x97] @ '' all '' @ nat_str n @ '' tokens cooling; soonest reset '' @
        (case reset of Some t \<Rightarrow> if t = 0 then ''unknown'' else fmt_utc t | None \<Rightarrow> ''unknown''))"

definition cooling_message :: "string \<Rightarrow> string option \<Rightarrow> rat option \<Rightarrow> string \<Rightarrow> string" where
  "cooling_message label model reset detail =
     ''token '' @ label @ '' is rate limited for '' @ model_family model @ '' until '' @
     (case reset of Some t \<Rightarrow> if t = 0 then ''unknown'' else fmt_utc t | None \<Rightarrow> ''unknown'') @
     (if detail = [] then [] else '': '' @ detail)"

text \<open>\<open>_RESET_IN_TEXT\<close>: the leftmost place where the words are followed by a moment, whatever the case of the letters.\<close>

fun after_words :: "string \<Rightarrow> string \<Rightarrow> string option" where
  "after_words [] s = Some s"
| "after_words (p # ps) [] = None"
| "after_words (p # ps) (c # s) = (if lower_char c = p then after_words ps s else None)"

definition reset_here :: "string \<Rightarrow> (int \<times> int \<times> int \<times> int \<times> int) option" where
  "reset_here s =
     (case Option.bind (after_words ''soonest reset '' s) read_moment of
        Some x \<Rightarrow> Some x | None \<Rightarrow> Option.bind (after_words ''until '' s) read_moment)"

fun search_reset :: "string \<Rightarrow> (int \<times> int \<times> int \<times> int \<times> int) option" where
  "search_reset [] = None"
| "search_reset (c # s) = (case reset_here (c # s) of Some x \<Rightarrow> Some x | None \<Rightarrow> search_reset s)"

definition reset_in_text :: "string \<Rightarrow> rat option" where
  "reset_in_text text = Option.bind (search_reset text) moment_seconds"

definition as_float_text :: "pyval \<Rightarrow> rat option" where
  "as_float_text v = float_of_str (strip (py_str v))"

definition as_moment :: "(string \<Rightarrow> rat option) \<Rightarrow> pyval \<Rightarrow> rat option" where
  "as_moment iso_time v =
     (if v = PNone then None
      else let raw = strip (py_str v)
           in case as_float_text (PStr raw) of
                Some s \<Rightarrow> if 1000000000 < s then Some s else None
              | None \<Rightarrow> iso_time (concat (map (\<lambda>c. if c = CHR ''Z'' then ''+00:00'' else [c]) raw)))"

fun first_span :: "(string \<Rightarrow> pyval) \<Rightarrow> string list \<Rightarrow> rat option" where
  "first_span get [] = None"
| "first_span get (h # hs) =
     (case as_float_text (get h) of
        Some s \<Rightarrow> if 0 \<le> s \<and> s \<le> MAX_HEADER_WAIT_S then Some s else first_span get hs
      | None \<Rightarrow> first_span get hs)"

fun first_moment :: "(string \<Rightarrow> rat option) \<Rightarrow> (string \<Rightarrow> pyval) \<Rightarrow> string list \<Rightarrow> rat option" where
  "first_moment iso_time get [] = None"
| "first_moment iso_time get (h # hs) = (case as_moment iso_time (get h) of Some t \<Rightarrow> Some t | None \<Rightarrow> first_moment iso_time get hs)"

definition reset_in_headers :: "(string \<Rightarrow> rat option) \<Rightarrow> rat \<Rightarrow> llm_error \<Rightarrow> rat option" where
  "reset_in_headers iso_time now e =
     (case le_headers e of
        None \<Rightarrow> None
      | Some get \<Rightarrow>
          (case first_span get [''retry-after'', ''x-ratelimit-reset-after''] of
             Some s \<Rightarrow> Some (now + s)
           | None \<Rightarrow> first_moment iso_time get [''anthropic-ratelimit-unified-reset'', ''anthropic-ratelimit-requests-reset'', ''anthropic-ratelimit-tokens-reset'']))"

definition reset_at :: "(string \<Rightarrow> rat option) \<Rightarrow> rat \<Rightarrow> llm_error \<Rightarrow> rat option" where
  "reset_at iso_time now e =
     (let rest = (case reset_in_headers iso_time now e of Some t \<Rightarrow> Some t | None \<Rightarrow> reset_in_text (le_text e))
      in case le_reset e of
           ResetNumber t \<Rightarrow> if 0 < t then Some t else rest
         | ResetMoment t \<Rightarrow> Some t
         | NoReset \<Rightarrow> rest)"

definition decide_wait :: "(string \<Rightarrow> rat option) \<Rightarrow> llm_error \<Rightarrow> rat \<Rightarrow> rat \<Rightarrow> rat \<Rightarrow> wait option" where
  "decide_wait iso_time e now max_wait already_waited =
     (if max_wait \<le> 0 then None
      else case reset_at iso_time now e of
             None \<Rightarrow> None
           | Some reset \<Rightarrow>
               (let until = max (reset + WAKE_PAD_S) (now + MIN_WAIT_S); seconds = until - now
                in if max_wait < already_waited + seconds then None else Some \<lparr>wt_until = until, wt_seconds = seconds\<rparr>))"

section \<open>Waiting\<close>

text \<open>One look of the sleeper: at the stop flag, then at the clock; \<open>stop\<close> and \<open>clock\<close> say what the looks see, one after the other.\<close>

definition look_up :: "(nat \<Rightarrow> bool) \<Rightarrow> (nat \<Rightarrow> rat) \<Rightarrow> rat \<Rightarrow> nat \<Rightarrow> nat + bool \<times> nat" where
  "look_up stop clock until i = (if stop i then Inr (False, i) else if until - clock i \<le> 0 then Inr (True, i) else Inl (Suc i))"

definition nap :: "(nat \<Rightarrow> rat) \<Rightarrow> rat \<Rightarrow> rat \<Rightarrow> nat \<Rightarrow> rat" where
  "nap clock slice until i = min slice (until - clock i)"

definition sleep_until :: "(nat \<Rightarrow> bool) \<Rightarrow> (nat \<Rightarrow> rat) \<Rightarrow> rat \<Rightarrow> nat \<Rightarrow> (bool \<times> nat) option" where
  "sleep_until stop clock until i = iterate (look_up stop clock until) i"

section \<open>The setting of a workflow\<close>

definition setting_in :: "pyval dict option \<Rightarrow> pyval" where
  "setting_in conf =
     (case conf of
        None \<Rightarrow> PNone
      | Some d \<Rightarrow> (case dget_or d ''workflow'' (PDict d) of PDict body \<Rightarrow> dget_or body ''wait_for_allowance'' PNone | _ \<Rightarrow> dget_or d ''wait_for_allowance'' PNone))"

definition SETTING_CACHE_S :: rat where "SETTING_CACHE_S = 60"

definition cached_setting :: "(string \<Rightarrow> pyval dict option) \<Rightarrow> rat \<Rightarrow> string \<Rightarrow> (rat \<times> pyval) dict \<Rightarrow> pyval \<times> (rat \<times> pyval) dict" where
  "cached_setting configs now name cache =
     (if name = [] then (PNone, cache)
      else let fresh = (\<lambda>_. let v = setting_in (configs name) in (v, dset name (now, v) cache))
           in case dget cache name of
                Some (at_time, v) \<Rightarrow> if now - at_time < SETTING_CACHE_S then (v, cache) else fresh ()
              | None \<Rightarrow> fresh ())"

definition max_wait_of :: "pyval \<Rightarrow> rat" where
  "max_wait_of raw =
     (if raw = PNone then DEFAULT_MAX_WAIT
      else if raw \<in> {PBool False, PInt 0, PFloat 0, PStr ''0''} then 0
      else case parse_duration raw of Inr s \<Rightarrow> s | Inl e \<Rightarrow> DEFAULT_MAX_WAIT)"

definition max_wait_for :: "(string \<Rightarrow> pyval dict option) \<Rightarrow> rat \<Rightarrow> string \<Rightarrow> (rat \<times> pyval) dict \<Rightarrow> rat \<times> (rat \<times> pyval) dict" where
  "max_wait_for configs now name cache = apfst max_wait_of (cached_setting configs now name cache)"

section \<open>Reading the pool's own words\<close>

text \<open>Text in which none of the words begins.\<close>

fun dull :: "string \<Rightarrow> bool" where
  "dull [] = True"
| "dull [c] = (lower_char c \<noteq> CHR ''s'' \<and> lower_char c \<noteq> CHR ''u'')"
| "dull (c # d # p) = ((lower_char c = CHR ''s'' \<longrightarrow> lower_char d \<noteq> CHR ''o'') \<and> (lower_char c = CHR ''u'' \<longrightarrow> lower_char d \<noteq> CHR ''n'') \<and> dull (d # p))"

lemma search_reset_dull: "dull p \<Longrightarrow> search_reset (p @ s) = search_reset s"
  by (induction p rule: dull.induct) (auto simp: reset_here_def)

lemma reset_here_other:
  "lower_char c \<noteq> CHR ''s'' \<Longrightarrow> lower_char c \<noteq> CHR ''u'' \<Longrightarrow> reset_here (c # s) = None"
  by (simp add: reset_here_def)

lemma search_reset_digits: "list_all is_digit ds \<Longrightarrow> search_reset (ds @ s) = search_reset s"
proof (induction ds)
  case (Cons c ds)
  have "lower_char c = c" and "c \<noteq> CHR ''s''" and "c \<noteq> CHR ''u''"
    using Cons.prems by (auto simp: is_digit_def lower_char_def Let_def)
  then show ?case using Cons reset_here_other [of c "ds @ s"] by simp
qed simp

lemma after_words_self: "list_all (\<lambda>c. lower_char c = c) p \<Longrightarrow> after_words p (p @ s) = Some s"
  by (induction p) auto

lemma search_reset_words:
  assumes "p \<in> {''soonest reset '', ''until ''}" and "read_moment s = Some x"
  shows "search_reset (p @ s) = Some x"
proof -
  have "list_all (\<lambda>c. lower_char c = c) p" using assms(1) by (auto simp: lower_char_def)
  then have "Option.bind (after_words p (p @ s)) read_moment = Some x" using assms(2) by (simp only: after_words_self bind.simps)
  moreover have "after_words ''soonest reset '' (''until '' @ s) = None" by (simp add: lower_char_def)
  ultimately have "reset_here (p @ s) = Some x" using assms(1) unfolding reset_here_def by (elim insertE) (simp_all only: option.case bind.simps empty_iff)
  then show ?thesis using assms(1) by (cases "p @ s") simp_all
qed

lemma pool_message_search: "search_reset (pool_message (PoolExhausted n reset) @ rest) =
    search_reset (''soonest reset '' @ (case reset of Some t \<Rightarrow> if t = 0 then ''unknown'' else fmt_utc t | None \<Rightarrow> ''unknown'') @ rest)"
proof -
  let ?tail = "''soonest reset '' @ (case reset of Some t \<Rightarrow> if t = 0 then ''unknown'' else fmt_utc t | None \<Rightarrow> ''unknown'') @ rest"
  have a: "search_reset ('' tokens cooling; '' @ s) = search_reset s" for s by (rule search_reset_dull) code_simp
  have b: "search_reset ((''token pool exhausted '' @ [CHR 0x97] @ '' all '') @ s) = search_reset s" for s by (rule search_reset_dull) code_simp
  have "pool_message (PoolExhausted n reset) @ rest = (''token pool exhausted '' @ [CHR 0x97] @ '' all '') @ nat_digits n @ '' tokens cooling; '' @ ?tail"
    by (simp add: pool_message_def nat_str_def)
  then show ?thesis by (simp only: a b search_reset_digits [OF nat_digits_digit])
qed

lemma moment_read:
  assumes "0 \<le> t" and "fst (date_of (\<lfloor>t / 60\<rfloor> div 1440 + EPOCH)) \<le> 9999"
  obtains x where "read_moment (fmt_utc t @ s) = Some x" and "moment_seconds x = Some (of_int (\<lfloor>t / 60\<rfloor> * 60))"
  using read_moment_fmt [OF assms, of s] by (cases "read_moment (fmt_utc t @ s)") auto

text \<open>The moment the pool writes into its refusal is read back from the words alone, to the minute, whatever follows it and whatever stands before it
  that is not such a moment itself.\<close>

lemma pool_refusal_read:
  assumes "0 < t" and "fst (date_of (\<lfloor>t / 60\<rfloor> div 1440 + EPOCH)) \<le> 9999" and "dull pre"
  shows "reset_in_text (pre @ pool_message (PoolExhausted n (Some t)) @ rest) = Some (of_int (\<lfloor>t / 60\<rfloor> * 60))"
proof -
  obtain x where x: "read_moment (fmt_utc t @ rest) = Some x" "moment_seconds x = Some (of_int (\<lfloor>t / 60\<rfloor> * 60))"
    using moment_read [of t rest] assms by (metis less_le)
  have "search_reset (''soonest reset '' @ fmt_utc t @ rest) = Some x" by (rule search_reset_words) (use x in simp_all)
  then show ?thesis using x assms(1) unfolding reset_in_text_def search_reset_dull [OF assms(3)] pool_message_search by simp
qed

section \<open>How long a run waits\<close>

lemma decide_wait_cases:
  assumes "decide_wait iso_time e now max_wait already = Some w"
  obtains reset where "reset_at iso_time now e = Some reset" and "wt_until w = max (reset + WAKE_PAD_S) (now + MIN_WAIT_S)" and "wt_seconds w = wt_until w - now"
    and "already + wt_seconds w \<le> max_wait"
  using assms by (auto simp: decide_wait_def Let_def split: if_splits option.splits)

text \<open>A wait is never shorter than the least one worth taking, never wakes before the padded reset, and never takes what the agent has waited in all
  past its ceiling.\<close>

theorem wait_within_bounds:
  assumes "decide_wait iso_time e now max_wait already = Some w"
  shows "MIN_WAIT_S \<le> wt_seconds w \<and> wt_until w = now + wt_seconds w \<and> already + wt_seconds w \<le> max_wait \<and>
    (\<exists>reset. reset_at iso_time now e = Some reset \<and> reset + WAKE_PAD_S \<le> wt_until w)"
  using assms by (rule decide_wait_cases) auto

lemma cool_until: "fst (cool pe now token until model w) = cool_deadline now until"
  by (simp add: cool_def Let_def split: prod.split)

lemma minute_floor: "t - 60 < of_int (\<lfloor>t / 60\<rfloor> * 60)" for t :: rat
proof -
  have "t / 60 < of_int \<lfloor>t / 60\<rfloor> + 1" by linarith
  then show ?thesis by simp
qed

text \<open>C40: A run parked on nothing but the words of a pool's refusal wakes no sooner than the reset the provider named, although the words give the end of the cooling only
  to the minute: what the pool and the wait add makes up for what the words leave out.\<close>

theorem wakes_after_named_reset:
  assumes "cool pe t0 token (Some u) model w = (d, w1)" and "0 < u" and "fst (date_of (\<lfloor>d / 60\<rfloor> div 1440 + EPOCH)) \<le> 9999"
    and "le_reset e = NoReset" and "le_headers e = None" and "le_text e = pre @ pool_message (PoolExhausted n (Some d)) @ rest" and "dull pre"
    and "decide_wait iso_time e now max_wait already = Some wt"
  shows "u < wt_until wt"
proof -
  have "d = cool_deadline t0 (Some u)" using cool_until [of pe t0 token "Some u" model w] assms(1) by simp
  then have d: "u + 30 \<le> d" using assms(2) by (simp add: cool_deadline_def RESET_PAD_S_def Let_def)
  have "reset_in_text (le_text e) = Some (of_int (\<lfloor>d / 60\<rfloor> * 60))"
    unfolding assms(6) by (rule pool_refusal_read) (use assms d in simp_all)
  then have "reset_at iso_time now e = Some (of_int (\<lfloor>d / 60\<rfloor> * 60))"
    using assms(4,5) by (simp add: reset_at_def reset_in_headers_def Let_def)
  with assms(8) have "of_int (\<lfloor>d / 60\<rfloor> * 60) + WAKE_PAD_S \<le> wt_until wt" by (auto elim: decide_wait_cases)
  then show ?thesis using minute_floor [of d] d by (simp add: WAKE_PAD_S_def)
qed

section \<open>The sleep ends\<close>

text \<open>A sleep that really passes, at least as long as asked for.\<close>

definition clock_runs :: "(nat \<Rightarrow> rat) \<Rightarrow> rat \<Rightarrow> bool" where
  "clock_runs clock until \<longleftrightarrow> (\<forall>i. clock i < until \<longrightarrow> clock i + nap clock SLICE_S until i \<le> clock (Suc i))"

lemma sleep_loop:
  assumes "clock_runs clock until"
  shows "bounded_loop (look_up stop clock until) (\<lambda>_. True) (measure (\<lambda>i. nat \<lceil>(until - clock i) / SLICE_S\<rceil>))"
proof unfold_locales
  fix s t
  assume "look_up stop clock until s = Inl t"
  then have t: "t = Suc s" and left: "clock s < until" by (auto simp: look_up_def split: if_splits)
  have "clock s + min 5 (until - clock s) \<le> clock t" using assms left t by (auto simp: clock_runs_def nap_def SLICE_S_def)
  then have "until - clock t \<le> max (until - clock s - 5) 0" by linarith
  then have "(until - clock t) / 5 \<le> max (until - clock s - 5) 0 / 5" by (intro divide_right_mono) simp_all
  moreover have "max (q - 5) 0 / 5 = max (q / 5 - 1) 0" for q :: rat by (auto simp: max_def field_simps)
  ultimately have step: "(until - clock t) / 5 \<le> max ((until - clock s) / 5 - 1) 0" by simp
  have pos: "0 < (until - clock s) / 5" using left by simp
  have "\<lceil>(until - clock t) / 5\<rceil> \<le> max (\<lceil>(until - clock s) / 5\<rceil> - 1) 0"
    using ceiling_mono [OF step] by (auto simp: max_def split: if_splits)
  moreover have "0 < \<lceil>(until - clock s) / 5\<rceil>" using pos by simp
  ultimately have "nat \<lceil>(until - clock t) / 5\<rceil> < nat \<lceil>(until - clock s) / 5\<rceil>" by linarith
  then show "(t, s) \<in> measure (\<lambda>i. nat \<lceil>(until - clock i) / SLICE_S\<rceil>)" by (simp add: SLICE_S_def)
qed simp_all

text \<open>The sleep always ends when the clock goes on: awake no sooner than the moment, or because the run was stopped, which the first look that sees the
  flag notices.\<close>

theorem sleep_until_ends:
  assumes "clock_runs clock until"
  shows "\<exists>woke k. sleep_until stop clock until i = Some (woke, k) \<and> i \<le> k \<and> (if woke then until \<le> clock k \<and> \<not> stop k else stop k) \<and> (\<nexists>j. i \<le> j \<and> j < k \<and> (stop j \<or> until \<le> clock j))"
proof -
  obtain woke k where r: "iterate (look_up stop clock until) i = Some (woke, k)"
    using bounded_loop.returns [OF sleep_loop [OF assms]] by (metis surj_pair)
  define early where "early = (\<lambda>k. i \<le> k \<and> (\<nexists>j. i \<le> j \<and> j < k \<and> (stop j \<or> until \<le> clock j)))"
  have "(\<lambda>(woke, k). early k \<and> (if woke then until \<le> clock k \<and> \<not> stop k else stop k)) (woke, k)"
  proof (rule iterate_invariant [OF r, where P = early])
    show "early i" by (simp add: early_def)
    show "early t" if "early s" and "look_up stop clock until s = Inl t" for s t
      using that by (auto simp: early_def look_up_def less_Suc_eq split: if_splits)
    show "case x of (woke, k) \<Rightarrow> early k \<and> (if woke then until \<le> clock k \<and> \<not> stop k else stop k)" if "early s" and "look_up stop clock until s = Inr x" for s x
      using that by (auto simp: look_up_def split: if_splits)
  qed
  then have "i \<le> k \<and> (if woke then until \<le> clock k \<and> \<not> stop k else stop k) \<and> (\<nexists>j. i \<le> j \<and> j < k \<and> (stop j \<or> until \<le> clock j))"
    by (simp add: early_def)
  then show ?thesis using r unfolding sleep_until_def by blast
qed

section \<open>What a parsed list names\<close>

lemma parse_token_name: "parse_token raw place = Inr (Some t) \<Longrightarrow> token_name t \<and> \<not> startswith ''sk-'' t"
  by (auto simp: parse_token_def split: pyval.splits if_splits)

lemma parse_entry_names:
  assumes "parse_entry place entry = Inr t"
  shows "(ft_provider t \<noteq> None \<or> ft_model t \<noteq> None \<or> ft_token t \<noteq> None) \<and> (\<forall>k. ft_token t = Some k \<longrightarrow> token_name k \<and> \<not> startswith ''sk-'' k)"
proof (cases entry)
  case (PDict d)
  then show ?thesis using assms parse_token_name [of "dget_or d ''token'' PNone" "place @ ''.token''"]
    by (simp add: parse_entry_def Let_def split: if_split_asm option.split_asm sum.split_asm pyval.split_asm) auto
qed (use assms in \<open>auto simp: parse_entry_def split: if_splits\<close>)

lemma parse_entries_from: "parse_entries i vs = Inr ts \<Longrightarrow> t \<in> set ts \<Longrightarrow> \<exists>place entry. parse_entry place entry = Inr t"
proof (induction i vs arbitrary: ts rule: parse_entries.induct)
  case (2 i entry rest)
  then obtain u us where "parse_entry (''fallback['' @ nat_str i @ '']'') entry = Inr u" "parse_entries (Suc i) rest = Inr us" "ts = u # us"
    by (auto split: sum.splits)
  then show ?case using 2 by auto
qed simp

text \<open>Every entry of a list that parses names a provider, a model or a token, and what it names as a token reads as a name, never as a credential.\<close>

lemma parse_fallback_names:
  assumes "parse_fallback raw = Inr ts" and "t \<in> set ts"
  shows "(ft_provider t \<noteq> None \<or> ft_model t \<noteq> None \<or> ft_token t \<noteq> None) \<and> (\<forall>k. ft_token t = Some k \<longrightarrow> token_name k \<and> \<not> startswith ''sk-'' k)"
proof -
  obtain vs where "parse_entries 0 vs = Inr ts"
    using assms by (cases raw) (auto simp: parse_fallback_def simp del: parse_entries.simps intro: that elim: parse_entries.elims)
  then obtain place entry where "parse_entry place entry = Inr t" using parse_entries_from assms(2) by blast
  then show ?thesis by (rule parse_entry_names)
qed

section \<open>A concrete wait\<close>

definition demo_refusal :: llm_error where
  "demo_refusal =
     \<lparr>le_pool = False, le_kind = ''ProviderErrorResponse'', le_text = ''claude answered with an error: '' @ pool_message (PoolExhausted 3 (Some 1000000059)) @ [],
      le_status = PNone, le_response_status = None, le_headers = None, le_reset = NoReset\<rparr>"

lemma demo_minute: "\<lfloor>1000000059 / 60 :: rat\<rfloor> = 16666667"
  by code_simp

lemma demo_year: "fst (date_of (\<lfloor>1000000059 / 60 :: rat\<rfloor> div 1440 + EPOCH)) \<le> 9999"
  unfolding demo_minute by code_simp

lemma demo_before: "dull ''claude answered with an error: ''"
  by code_simp

lemma demo_wait: "decide_wait (\<lambda>_. None) demo_refusal 1000000000 21600 0 = Some \<lparr>wt_until = 1000000050, wt_seconds = 50\<rparr>"
proof -
  have "reset_in_text (le_text demo_refusal) = Some 1000000020"
    using pool_refusal_read [OF _ demo_year demo_before, of 3 "[]", unfolded demo_minute] by (simp add: demo_refusal_def)
  then show ?thesis by (simp add: decide_wait_def reset_at_def reset_in_headers_def demo_refusal_def Let_def WAKE_PAD_S_def MIN_WAIT_S_def)
qed

theorem wait_within_bounds_witness: "MIN_WAIT_S \<le> 50"
  using wait_within_bounds [OF demo_wait] by simp

theorem wakes_after_named_reset_witness: "\<exists>w. fst (cool demo_pool_env 1000000000 ''a'' (Some 1000000029) None w) = 1000000059 \<and> 1000000029 < (1000000050 :: rat)"
proof -
  define w where "w = demo_process True [''a''] []"
  have d: "cool_deadline 1000000000 (Some 1000000029) = 1000000059" by (simp add: cool_deadline_def RESET_PAD_S_def MIN_COOLDOWN_S_def)
  then obtain w1 where c: "cool demo_pool_env 1000000000 ''a'' (Some 1000000029) None w = (1000000059, w1)"
    using cool_until [of demo_pool_env 1000000000 "''a''" "Some 1000000029" None w] by (metis prod.collapse)
  have "1000000029 < wt_until \<lparr>wt_until = 1000000050, wt_seconds = 50\<rparr>"
    by (rule wakes_after_named_reset [OF c _ demo_year _ _ _ demo_before demo_wait, where n = 3 and rest = "[]"]) (simp_all add: demo_refusal_def)
  then show ?thesis using c by (intro exI [of _ w]) simp
qed

text \<open>Woken by the words alone, a run asks again before the pool's own cooling has ended.\<close>

theorem woken_into_cooling:
  "decide_wait (\<lambda>_. None) demo_refusal 1000000000 21600 0 = Some \<lparr>wt_until = 1000000050, wt_seconds = 50\<rparr> \<and> (1000000050 :: rat) < 1000000059"
  using demo_wait by simp

lemma demo_clock_runs: "clock_runs (\<lambda>i. rat_of_nat i * 5) 12"
  by (auto simp: clock_runs_def nap_def SLICE_S_def)

theorem sleep_until_ends_witness: "\<exists>woke k. sleep_until (\<lambda>_. False) (\<lambda>i. rat_of_nat i * 5) 12 0 = Some (woke, k)"
  using sleep_until_ends [OF demo_clock_runs, of "\<lambda>_. False" 0] by blast

end
