(* ===== verification/Transcript.thy ===== *)
theory Transcript
  imports Inputs
begin

text \<open>
  The transcript an agent's calls send: the tool calls of a reply and their results put into it, the notes to the model, and the trimming to
  the context limit (the functions on messages of \<^verbatim>\<open>temper_ai/llm/service.py\<close>, \<^verbatim>\<open>temper_ai/llm/response_parser.py\<close>, the token estimate of
  \<^verbatim>\<open>temper_ai/llm/context.py\<close>). The message list is changed in place there; here each function returns the new list. JSON is a parameter.
\<close>

section \<open>Messages\<close>

record sent_call =
  sd_id :: string
  sd_name :: string
  sd_arguments :: string

record message =
  mg_role :: string
  mg_content :: "string option"
  mg_calls :: "sent_call list"
  mg_call_id :: "string option"

text \<open>A reply of a provider, and a tool call as a provider reports it.\<close>

record raw_call =
  rw_id :: string
  rw_name :: string
  rw_arguments :: "pyval option"

record tool_call =
  tc_id :: string
  tc_name :: string
  tc_arguments :: pyval

record llm_response =
  rs_content :: "string option"
  rs_provider :: string
  rs_model :: string
  rs_total_tokens :: "int option"
  rs_finish_reason :: "string option"
  rs_tool_calls :: "raw_call list"
  rs_reported_cost :: pyval

definition extract_final_answer :: "llm_response \<Rightarrow> string" where
  "extract_final_answer r = (case rs_content r of Some s \<Rightarrow> s | None \<Rightarrow> [])"

definition parse_arguments :: "(string \<Rightarrow> pyval option) \<Rightarrow> pyval \<Rightarrow> pyval" where
  "parse_arguments loads v =
     (case v of
        PStr s \<Rightarrow>
          (case loads s of
             Some x \<Rightarrow> x
           | None \<Rightarrow>
               if \<not> startswith ''{'' s \<and> CHR '':'' \<in> set s
               then (case loads (''{'' @ s) of Some x \<Rightarrow> x | None \<Rightarrow> PDict [(''_raw'', PStr s)])
               else PDict [(''_raw'', PStr s)])
      | _ \<Rightarrow> v)"

definition parse_tool_calls :: "(string \<Rightarrow> pyval option) \<Rightarrow> llm_response \<Rightarrow> tool_call list" where
  "parse_tool_calls loads r =
     map (\<lambda>c. \<lparr>tc_id = rw_id c, tc_name = rw_name c,
               tc_arguments = parse_arguments loads (case rw_arguments c of None \<Rightarrow> PStr ''{}'' | Some v \<Rightarrow> v)\<rparr>)
       (filter (\<lambda>c. rw_id c \<noteq> [] \<and> rw_name c \<noteq> []) (rs_tool_calls r))"

section \<open>Growing\<close>

definition MAX_TOOL_RESULT_CHARS :: int where "MAX_TOOL_RESULT_CHARS = 200000"
definition WRAP_UP_TURNS :: int where "WRAP_UP_TURNS = 3"

definition para_break :: string where "para_break = [CHR 0x0A, CHR 0x0A]"

definition cut_to :: "int \<Rightarrow> string \<Rightarrow> string" where
  "cut_to n s = (if n < int (length s) then take (nat n) s @ para_break @ ''... [truncated from '' @ nat_str (length s) @ '' chars]'' else s)"

definition sent_form :: "(pyval \<Rightarrow> string) \<Rightarrow> tool_call \<Rightarrow> sent_call" where
  "sent_form dumps c =
     \<lparr>sd_id = tc_id c, sd_name = tc_name c, sd_arguments = (case tc_arguments c of PDict d \<Rightarrow> dumps (PDict d) | v \<Rightarrow> py_str v)\<rparr>"

definition inject_tool_results :: "(pyval \<Rightarrow> string) \<Rightarrow> llm_response \<Rightarrow> tool_call list \<Rightarrow> (string \<times> string) list \<Rightarrow> message list \<Rightarrow> message list" where
  "inject_tool_results dumps r calls results ms =
     ms @ [\<lparr>mg_role = ''assistant'', mg_content = Some (extract_final_answer r), mg_calls = map (sent_form dumps) calls, mg_call_id = None\<rparr>] @
     map (\<lambda>(i, text). \<lparr>mg_role = ''tool'', mg_content = Some (cut_to MAX_TOOL_RESULT_CHARS text), mg_calls = [], mg_call_id = Some i\<rparr>) results"

definition shown_content :: "message \<Rightarrow> string" where
  "shown_content m = (case mg_content m of Some s \<Rightarrow> s | None \<Rightarrow> ''None'')"

definition on_last :: "(message \<Rightarrow> message) \<Rightarrow> message list \<Rightarrow> message list" where
  "on_last f ms = (if ms = [] then [] else butlast ms @ [f (last ms)])"

definition finish_note :: "int \<Rightarrow> int \<Rightarrow> string" where
  "finish_note left max_iterations =
     (if left = 1 then ''Your next reply is the last one the iteration budget allows. It must be your final answer, with no tool calls.''
      else ''You have '' @ int_str left @ '' LLM turns left before the iteration budget ('' @ int_str max_iterations @ '') is spent. '' @
           (if WRAP_UP_TURNS < left
            then ''Start nothing new; use them to bring what is in hand to a state you can hand over, then reply.''
            else ''Stop exploring and produce your final answer now, from what you already know.''))"

definition nudge_to_finish :: "int \<Rightarrow> int \<Rightarrow> int \<Rightarrow> message list \<Rightarrow> message list" where
  "nudge_to_finish iteration max_iterations wrap_up_turns ms =
     (let left = max_iterations - iteration
      in if wrap_up_turns < left \<or> left < 1 \<or> ms = [] \<or> mg_role (last ms) \<noteq> ''tool'' then ms
         else on_last (\<lambda>m. m\<lparr>mg_content := Some (shown_content m @ para_break @ ''[iteration budget] '' @ finish_note left max_iterations)\<rparr>) ms)"

definition OUTPUT_LIMIT_NOTE :: string where
  "OUTPUT_LIMIT_NOTE =
     ''[output limit] Your last reply spent its whole output allowance thinking and returned no text and no tool call, so none of it was kept. '' @
     ''Take a smaller step now: act on what you have already decided (one tool call, or your answer) before thinking further.''"

definition note_output_limit :: "message list \<Rightarrow> message list" where
  "note_output_limit ms =
     (if ms = [] then ms
      else case mg_content (last ms) of
             None \<Rightarrow> ms
           | Some s \<Rightarrow> if has_sub OUTPUT_LIMIT_NOTE s then ms else on_last (\<lambda>m. m\<lparr>mg_content := Some (s @ para_break @ OUTPUT_LIMIT_NOTE)\<rparr>) ms)"

section \<open>Trimming\<close>

definition message_tokens :: "message \<Rightarrow> nat" where
  "message_tokens m =
     (case mg_content m of Some (c # cs) \<Rightarrow> length (c # cs) div 3 + 4 | _ \<Rightarrow> 0) +
     sum_list (map (\<lambda>c. length (sd_name c) div 3 + length (sd_arguments c) div 3) (mg_calls m))"

definition estimate_messages_tokens :: "message list \<Rightarrow> nat" where
  "estimate_messages_tokens ms = sum_list (map message_tokens ms)"

definition truncate_tool_results :: "int \<Rightarrow> message list \<Rightarrow> message list" where
  "truncate_tool_results n ms =
     map (\<lambda>m. if mg_role m = ''tool'' then m\<lparr>mg_content := map_option (cut_to n) (mg_content m)\<rparr> else m) ms"

text \<open>\<open>xs[k:]\<close>\<close>

definition slice_from :: "int \<Rightarrow> 'a list \<Rightarrow> 'a list" where
  "slice_from k xs = (if k < 0 then drop (length xs - nat (- k)) xs else drop (nat k) xs)"

definition prefix_end :: "message list \<Rightarrow> nat" where
  "prefix_end ms = (if list_ex (\<lambda>m. mg_role m = ''user'') ms then Suc (length (takeWhile (\<lambda>m. mg_role m \<noteq> ''user'') ms)) else 1)"

definition apply_message_window :: "int \<Rightarrow> message list \<Rightarrow> message list" where
  "apply_message_window max_messages ms =
     (if int (length ms) \<le> max_messages then ms
      else take (prefix_end ms) ms @ dropWhile (\<lambda>m. mg_role m = ''tool'') (slice_from (- (max_messages - int (prefix_end ms))) ms))"

text \<open>The steps of \<open>_enforce_context_limit\<close>, each taken only while the estimate is over the limit.\<close>

definition enforce_context_limit :: "int \<Rightarrow> int \<Rightarrow> message list \<Rightarrow> message list" where
  "enforce_context_limit max_tokens max_messages ms0 =
     (let fits = (\<lambda>ms. int (estimate_messages_tokens ms) \<le> max_tokens)
      in if fits ms0 then ms0
         else let ms1 = apply_message_window max_messages ms0
              in if fits ms1 then ms1
                 else let ms2 = truncate_tool_results 5000 ms1
                      in if fits ms2 then ms2
                         else let ms3 = truncate_tool_results 2000 ms2
                              in if fits ms3 then ms3 else truncate_tool_results 1000 (apply_message_window 10 ms3))"

section \<open>Tool calls and their results stay together\<close>

text \<open>A provider refuses a tool result whose call is not in the message before the results, and a call that has none.\<close>

fun paired :: "string list \<Rightarrow> message list \<Rightarrow> bool" where
  "paired calls [] = (calls = [])"
| "paired calls (m # ms) =
     (if mg_role m = ''tool'' then (case mg_call_id m of Some i \<Rightarrow> i \<in> set calls \<and> paired (remove1 i calls) ms | None \<Rightarrow> False)
      else calls = [] \<and> paired (map sd_id (mg_calls m)) ms)"

fun open_calls :: "string list \<Rightarrow> message list \<Rightarrow> string list" where
  "open_calls calls [] = calls"
| "open_calls calls (m # ms) =
     open_calls (if mg_role m = ''tool'' then (case mg_call_id m of Some i \<Rightarrow> remove1 i calls | None \<Rightarrow> calls) else map sd_id (mg_calls m)) ms"

fun paired_so_far :: "string list \<Rightarrow> message list \<Rightarrow> bool" where
  "paired_so_far calls [] = True"
| "paired_so_far calls (m # ms) =
     (if mg_role m = ''tool'' then (case mg_call_id m of Some i \<Rightarrow> i \<in> set calls \<and> paired_so_far (remove1 i calls) ms | None \<Rightarrow> False)
      else calls = [] \<and> paired_so_far (map sd_id (mg_calls m)) ms)"

lemma paired_append: "paired calls (xs @ ys) \<longleftrightarrow> paired_so_far calls xs \<and> paired (open_calls calls xs) ys"
  by (induction calls xs rule: paired_so_far.induct) (auto split: option.splits)

lemma paired_starts: "paired calls (m # ms) \<Longrightarrow> mg_role m \<noteq> ''tool'' \<Longrightarrow> calls = []"
  by simp

text \<open>What can be cut off at a message that is not a tool result.\<close>

lemma paired_suffix:
  assumes "paired [] (xs @ ys)" and "ys = [] \<or> mg_role (hd ys) \<noteq> ''tool''"
  shows "paired [] ys"
proof (cases ys)
  case (Cons m ms)
  have "paired (open_calls [] xs) ys" using assms(1) by (simp add: paired_append)
  then show ?thesis using Cons assms(2) paired_starts [of "open_calls [] xs" m ms] by auto
qed simp

lemma paired_glue: "paired [] xs \<Longrightarrow> paired [] ys \<Longrightarrow> paired [] (xs @ ys)"
proof -
  have "paired calls xs \<Longrightarrow> paired_so_far calls xs \<and> open_calls calls xs = []" for calls
    by (induction calls xs rule: paired.induct) (auto split: option.splits)
  then show "paired [] xs \<Longrightarrow> paired [] ys \<Longrightarrow> paired [] (xs @ ys)" by (simp add: paired_append)
qed

text \<open>A transcript that can be sent: calls and results together, a user message whose place leaves room under the smallest window, and no calls in
  user messages.\<close>

definition transcript_ok :: "int \<Rightarrow> message list \<Rightarrow> bool" where
  "transcript_ok bound ms \<longleftrightarrow> paired [] ms \<and> list_ex (\<lambda>m. mg_role m = ''user'') ms \<and> list_all (\<lambda>m. mg_role m = ''user'' \<longrightarrow> mg_calls m = []) ms \<and>
     int (prefix_end ms) < bound"

lemma open_calls_append: "open_calls calls (xs @ ys) = open_calls (open_calls calls xs) ys"
  by (induction calls xs rule: open_calls.induct) auto

lemma paired_closed: "paired calls xs \<longleftrightarrow> paired_so_far calls xs \<and> open_calls calls xs = []"
  using paired_append [of calls xs "[]"] by simp

lemma prefix_shape:
  assumes "list_ex (\<lambda>m. mg_role m = ''user'') ms"
  obtains pre u post where "ms = pre @ u # post" and "mg_role u = ''user''" and "\<forall>m \<in> set pre. mg_role m \<noteq> ''user''" and "prefix_end ms = Suc (length pre)"
proof -
  let ?P = "\<lambda>m. mg_role m \<noteq> ''user''"
  have "dropWhile ?P ms \<noteq> []" using assms by (auto simp: dropWhile_eq_Nil_conv list_ex_iff)
  then obtain u post where d: "dropWhile ?P ms = u # post" by (cases "dropWhile ?P ms") auto
  show ?thesis
  proof (rule that)
    show "ms = takeWhile ?P ms @ u # post" using d takeWhile_dropWhile_id [of ?P ms] by simp
    show "mg_role u = ''user''" using hd_dropWhile [of ?P ms] d by simp
    show "\<forall>m \<in> set (takeWhile ?P ms). ?P m" by (auto dest: set_takeWhileD)
    show "prefix_end ms = Suc (length (takeWhile ?P ms))" using assms by (simp add: prefix_end_def)
  qed
qed

lemma prefix_end_shape: "\<forall>m \<in> set pre. mg_role m \<noteq> ''user'' \<Longrightarrow> mg_role u = ''user'' \<Longrightarrow> prefix_end (pre @ u # post) = Suc (length pre)"
  by (simp add: prefix_end_def takeWhile_append2)

lemma window_ok:
  assumes "transcript_ok bound ms" and "bound \<le> max_messages"
  shows "transcript_ok bound (apply_message_window max_messages ms)"
    and "length (apply_message_window max_messages ms) \<le> nat max_messages"
    and "take (prefix_end ms) (apply_message_window max_messages ms) = take (prefix_end ms) ms"
proof -
  let ?tool = "\<lambda>m. mg_role m = ''tool''"
  have ok: "paired [] ms" "list_ex (\<lambda>m. mg_role m = ''user'') ms" "list_all (\<lambda>m. mg_role m = ''user'' \<longrightarrow> mg_calls m = []) ms" "int (prefix_end ms) < bound"
    using assms(1) by (auto simp: transcript_ok_def)
  obtain pre u post where shape: "ms = pre @ u # post" "mg_role u = ''user''" "\<forall>m \<in> set pre. mg_role m \<noteq> ''user''" "prefix_end ms = Suc (length pre)"
    using prefix_shape [OF ok(2)] .
  have "transcript_ok bound (apply_message_window max_messages ms) \<and> length (apply_message_window max_messages ms) \<le> nat max_messages \<and>
    take (prefix_end ms) (apply_message_window max_messages ms) = take (prefix_end ms) ms"
  proof (cases "int (length ms) \<le> max_messages")
    case True
    then show ?thesis using assms(1) by (simp add: apply_message_window_def)
  next
    case False
    define n where "n = length ms - nat (max_messages - int (prefix_end ms))"
    define ys where "ys = dropWhile ?tool (drop n ms)"
    have win: "apply_message_window max_messages ms = pre @ u # ys"
      using False shape ok(4) assms(2) by (simp add: apply_message_window_def slice_from_def n_def ys_def)
    have cut: "ms = (take n ms @ takeWhile ?tool (drop n ms)) @ ys" by (simp add: ys_def)
    have "ys = [] \<or> mg_role (hd ys) \<noteq> ''tool''" unfolding ys_def using hd_dropWhile [of ?tool "drop n ms"] by auto
    then have "paired [] ys" using paired_suffix [of "take n ms @ takeWhile ?tool (drop n ms)" ys] ok(1) cut by simp
    moreover have "paired [] (pre @ [u])"
    proof -
      have "mg_calls u = []" using ok(3) shape(1,2) by simp
      then have "open_calls [] (pre @ [u]) = []" using shape(2) by (simp add: open_calls_append)
      moreover have "paired_so_far [] (pre @ [u])" using ok(1) paired_append [of "[]" "pre @ [u]" post] shape(1) by simp
      ultimately show ?thesis by (simp add: paired_closed)
    qed
    ultimately have "paired [] (pre @ u # ys)" using paired_glue [of "pre @ [u]" ys] by simp
    moreover have "set ys \<subseteq> set ms" unfolding ys_def by (meson set_drop_subset set_dropWhileD subsetD subsetI)
    moreover have "length ys \<le> length (drop n ms)" unfolding ys_def by (rule length_dropWhile_le)
    moreover have "length (drop n ms) = nat (max_messages - int (prefix_end ms))" using False ok(4) assms(2) by (simp add: n_def)
    ultimately show ?thesis using ok shape win prefix_end_shape [OF shape(3,2)] assms(2)
      by (auto simp: transcript_ok_def list_all_iff)
  qed
  then show "transcript_ok bound (apply_message_window max_messages ms)" "length (apply_message_window max_messages ms) \<le> nat max_messages"
    "take (prefix_end ms) (apply_message_window max_messages ms) = take (prefix_end ms) ms" by simp_all
qed

text \<open>What is said in a message does not matter to it.\<close>

definition frame :: "message \<Rightarrow> string \<times> string option \<times> sent_call list" where
  "frame m = (mg_role m, mg_call_id m, mg_calls m)"

lemma paired_frames: "map frame xs = map frame ys \<Longrightarrow> paired calls xs = paired calls ys"
proof (induction xs arbitrary: ys calls)
  case (Cons x xs)
  then obtain y ys' where ys: "ys = y # ys'" "frame x = frame y" "map frame xs = map frame ys'" by (cases ys) auto
  have "paired c xs = paired c ys'" for c by (rule Cons.IH [OF ys(3)])
  then show ?case using ys(1,2) by (simp add: frame_def split: option.split)
qed simp

lemma frames_by:
  "list_ex (\<lambda>m. mg_role m = ''user'') ms = list_ex (\<lambda>f. fst f = ''user'') (map frame ms)"
  "list_all (\<lambda>m. mg_role m = ''user'' \<longrightarrow> mg_calls m = []) ms = list_all (\<lambda>f. fst f = ''user'' \<longrightarrow> snd (snd f) = []) (map frame ms)"
  "prefix_end ms = (if list_ex (\<lambda>f. fst f = ''user'') (map frame ms) then Suc (length (takeWhile (\<lambda>f. fst f \<noteq> ''user'') (map frame ms))) else 1)"
  by (simp_all add: frame_def list_ex_iff list_all_iff prefix_end_def takeWhile_map o_def)

lemma transcript_ok_frames: "map frame xs = map frame ys \<Longrightarrow> transcript_ok bound xs = transcript_ok bound ys"
  unfolding transcript_ok_def frames_by using paired_frames by metis

lemma truncate_ok: "transcript_ok bound (truncate_tool_results n ms) = transcript_ok bound ms"
  by (rule transcript_ok_frames) (simp add: truncate_tool_results_def frame_def)

lemma enforce_ok:
  assumes "transcript_ok bound ms" and "bound \<le> max_messages" and "bound \<le> 10"
  shows "transcript_ok bound (enforce_context_limit max_tokens max_messages ms)"
  using window_ok(1) [OF assms(1,2)] window_ok(1) [of bound _ 10] assms by (simp add: enforce_context_limit_def truncate_ok Let_def)

lemma on_last_ok: "(\<And>m. frame (f m) = frame m) \<Longrightarrow> transcript_ok bound (on_last f ms) = transcript_ok bound ms"
  by (rule transcript_ok_frames) (cases ms rule: rev_cases; simp add: on_last_def)

lemma nudge_ok: "transcript_ok bound (nudge_to_finish iteration max_iterations turns ms) = transcript_ok bound ms"
  by (simp add: nudge_to_finish_def Let_def on_last_ok frame_def)

lemma note_ok: "transcript_ok bound (note_output_limit ms) = transcript_ok bound ms"
  by (simp add: note_output_limit_def on_last_ok frame_def split: option.split)

lemma paired_results:
  "paired (map fst results) (map (\<lambda>(i, text). \<lparr>mg_role = ''tool'', mg_content = Some (c text), mg_calls = [], mg_call_id = Some i\<rparr>) results)"
  by (induction results) auto

lemma inject_ok:
  assumes "transcript_ok bound ms" and "map fst results = map tc_id calls"
  shows "transcript_ok bound (inject_tool_results dumps r calls results ms)"
proof -
  let ?new = "[\<lparr>mg_role = ''assistant'', mg_content = Some (extract_final_answer r), mg_calls = map (sent_form dumps) calls, mg_call_id = None\<rparr>] @
     map (\<lambda>(i, text). \<lparr>mg_role = ''tool'', mg_content = Some (cut_to MAX_TOOL_RESULT_CHARS text), mg_calls = [], mg_call_id = Some i\<rparr>) results"
  have "map sd_id (map (sent_form dumps) calls) = map fst results" using assms(2) by (simp add: sent_form_def)
  then have "paired [] ?new" using paired_results [of results "cut_to MAX_TOOL_RESULT_CHARS"] by simp
  moreover have "prefix_end (ms @ ?new) = prefix_end ms" if "list_ex (\<lambda>m. mg_role m = ''user'') ms"
    using that by (auto simp: prefix_end_def list_ex_iff)
  ultimately show ?thesis using assms(1) paired_glue [of ms ?new] by (auto simp: transcript_ok_def inject_tool_results_def list_all_iff)
qed

text \<open>Trimming to the context limit never splits a tool call from its result, never loses the user's message, and keeps within the window, wherever the
  user's message leaves room under it.\<close>

theorem trimming_keeps_calls_and_results:
  assumes "transcript_ok bound ms" and "bound \<le> max_messages" and "bound \<le> 10"
  shows "transcript_ok bound (enforce_context_limit max_tokens max_messages ms) \<and>
    length (apply_message_window max_messages ms) \<le> nat max_messages \<and>
    take (prefix_end ms) (apply_message_window max_messages ms) = take (prefix_end ms) ms"
  using enforce_ok [OF assms] window_ok(2,3) [OF assms(1,2)] by simp

section \<open>Concrete transcripts\<close>

definition plain_message :: "string \<Rightarrow> string \<Rightarrow> message" where
  "plain_message role text = \<lparr>mg_role = role, mg_content = Some text, mg_calls = [], mg_call_id = None\<rparr>"

definition demo_transcript :: "message list" where
  "demo_transcript =
     [plain_message ''system'' ''s'', plain_message ''user'' ''u'',
      (plain_message ''assistant'' [])\<lparr>mg_calls := [\<lparr>sd_id = ''c1'', sd_name = ''Read'', sd_arguments = ''{}''\<rparr>]\<rparr>,
      (plain_message ''tool'' ''some text that is long'')\<lparr>mg_call_id := Some ''c1''\<rparr>,
      plain_message ''assistant'' ''done'']"

theorem trimming_keeps_calls_and_results_witness:
  "transcript_ok 3 demo_transcript \<and> transcript_ok 3 (enforce_context_limit 5 4 demo_transcript) \<and> length (apply_message_window 4 demo_transcript) = 3"
proof -
  have "transcript_ok 3 demo_transcript" by code_simp
  moreover have "length (apply_message_window 4 demo_transcript) = 3" by code_simp
  ultimately show ?thesis using trimming_keeps_calls_and_results [of 3 demo_transcript 4 5] by simp
qed

text \<open>A window no wider than the messages up to the user's one lets everything through and repeats those messages.\<close>

theorem window_repeats_prefix:
  "length demo_transcript = 5 \<and> length (apply_message_window 2 demo_transcript) = 7 \<and> mg_role (apply_message_window 2 demo_transcript ! 2) = ''system''"
  by code_simp

text \<open>A result that was cut is longer than the limit it was cut to, so every later call cuts it again and the note on it gives the length of the cut text instead of the
  result's.\<close>

theorem cut_again_forgets_length:
  "cut_to 5 ''0123456789'' = ''01234'' @ para_break @ ''... [truncated from 10 chars]'' \<and>
   cut_to 5 (cut_to 5 ''0123456789'') = ''01234'' @ para_break @ ''... [truncated from 36 chars]''"
  by code_simp

end
