(* ===== verification/Llm_Service.thy ===== *)
theory Llm_Service
  imports Transcript Allowance Safety
begin

text \<open>
  The loop of calls an agent makes (\<^verbatim>\<open>temper_ai/llm/service.py\<close>): a call, its fallbacks and its waits until it is answered or fails for good, and
  the turns of calls and tools until there is an answer. Context is trimmed (the policy \<open>truncate\<close>); the compressor of the other policy is not
  modelled.

  A provider is what this code reads of it; what it answers to the n-th request is a parameter, and so are the clocks, the stop flag, the budget's
  answers, the tools, JSON and the estimate of a cost.
\<close>

section \<open>Providers, settings and state\<close>

record llm_provider =
  lp_id :: nat
  lp_name :: string
  lp_model :: string
  lp_max_tokens :: pyval
  lp_supports_tools :: bool
  lp_cooling_until :: "string \<Rightarrow> string \<Rightarrow> rat option"

record llm_service =
  ls_own :: llm_provider
  ls_fallbacks :: "fallback_target list"
  ls_resolve :: "string \<Rightarrow> llm_provider option"
  ls_token :: "string option"
  ls_max_iterations :: nat
  ls_wrap_up_turns :: int
  ls_max_messages :: int
  ls_max_context_tokens :: int
  ls_total_timeout :: rat
  ls_has_tools :: bool
  ls_has_executor :: bool
  ls_named :: "pyval dict"
  ls_model :: "string option"
  ls_config :: "pyval dict"
  ls_wait_max :: "rat option"

text \<open>Where calls go: provider, model and the token they are pinned to.\<close>

type_synonym place = "string \<times> string \<times> string option"

datatype llm_event =
    CallStarted nat place
  | CallFailed nat llm_error
  | CallCompleted nat rat
  | FellBack place place "(string \<times> string) list" nat
  | NoFallbackLeft place "(string \<times> string) list"
  | WaitsForAllowance rat rat
  | WaitOver bool rat
  | IterationNoted nat string nat "int option"
  | NoExecutor nat "string list"
  | MaxIterations nat

record request =
  rq_provider :: nat
  rq_messages :: "message list"
  rq_kwargs :: "pyval dict"

record call_state =
  cs_provider :: llm_provider
  cs_active :: "fallback_target option"
  cs_queue :: "fallback_target list"
  cs_extra_room :: "int option"
  cs_retries :: nat
  cs_parked :: rat
  cs_waits :: nat
  cs_messages :: "message list"
  cs_tool_log :: "(string \<times> pyval \<times> string \<times> bool) list"
  cs_tokens :: int
  cs_cost :: rat
  cs_response :: "llm_response option"
  cs_sent :: "request list"
  cs_events :: "llm_event list"

record llm_env =
  en_answer :: "nat \<Rightarrow> request \<Rightarrow> llm_error + llm_response"
  en_time :: "nat \<Rightarrow> rat"
  en_wait :: "nat \<Rightarrow> (nat \<Rightarrow> bool) \<times> (nat \<Rightarrow> rat)"
  en_cut_short :: "nat \<Rightarrow> rat"
  en_iso_time :: "string \<Rightarrow> rat option"
  en_cancelled :: "nat \<Rightarrow> bool"
  en_budget :: "nat \<Rightarrow> string option"
  en_elapsed :: "nat \<Rightarrow> rat"
  en_tool :: "nat \<Rightarrow> string \<Rightarrow> pyval \<Rightarrow> (string \<times> string) + pyval"
  en_estimate :: "llm_response \<Rightarrow> rat"
  en_loads :: "string \<Rightarrow> pyval option"
  en_dumps :: "pyval \<Rightarrow> string"

definition note_event_of :: "llm_event \<Rightarrow> call_state \<Rightarrow> call_state" where
  "note_event_of e s = s\<lparr>cs_events := cs_events s @ [e]\<rparr>"

definition truthy_text :: "string option \<Rightarrow> string option" where
  "truthy_text x = (case x of Some (c # cs) \<Rightarrow> Some (c # cs) | _ \<Rightarrow> None)"

section \<open>Where a call goes\<close>

definition entry_model :: "llm_service \<Rightarrow> fallback_target \<Rightarrow> llm_provider \<Rightarrow> string option" where
  "entry_model sv t llm =
     (case truthy_text (ft_model t) of Some m \<Rightarrow> Some m | None \<Rightarrow> if lp_id llm = lp_id (ls_own sv) then ls_model sv else None)"

definition requested_model :: "llm_service \<Rightarrow> call_state \<Rightarrow> string option" where
  "requested_model sv s = (case cs_active s of Some t \<Rightarrow> entry_model sv t (cs_provider s) | None \<Rightarrow> ls_model sv)"

definition model_in_use :: "llm_service \<Rightarrow> call_state \<Rightarrow> string" where
  "model_in_use sv s = (case truthy_text (requested_model sv s) of Some m \<Rightarrow> m | None \<Rightarrow> lp_model (cs_provider s))"

definition requested_token :: "llm_service \<Rightarrow> call_state \<Rightarrow> string option" where
  "requested_token sv s = (case cs_active s of Some t \<Rightarrow> ft_token t | None \<Rightarrow> ls_token sv)"

definition where_now :: "llm_service \<Rightarrow> call_state \<Rightarrow> place" where
  "where_now sv s = (lp_name (cs_provider s), model_in_use sv s, truthy_text (requested_token sv s))"

definition describe_place :: "place \<Rightarrow> string" where
  "describe_place p = (case p of (provider, model, token) \<Rightarrow> provider @ ''/'' @ model @ (case truthy_text token of Some t \<Rightarrow> '' on '' @ t | None \<Rightarrow> []))"

definition provider_config :: "llm_service \<Rightarrow> call_state \<Rightarrow> pyval dict" where
  "provider_config sv s =
     (let own = (if lp_id (cs_provider s) = lp_id (ls_own sv) then dmerge [] (ls_config sv) else [])
      in case cs_active s of Some t \<Rightarrow> (case ft_config t of Some c \<Rightarrow> dmerge own c | None \<Rightarrow> own) | None \<Rightarrow> own)"

definition resolve_provider :: "llm_service \<Rightarrow> fallback_target \<Rightarrow> llm_provider option" where
  "resolve_provider sv t = (case ft_provider t of None \<Rightarrow> Some (ls_own sv) | Some p \<Rightarrow> ls_resolve sv p)"

text \<open>The keyword arguments of a call.\<close>

definition set_default :: "string \<times> pyval \<Rightarrow> pyval dict \<Rightarrow> pyval dict" where
  "set_default kv d = (if dhas (fst kv) d then d else dset (fst kv) (snd kv) d)"

definition call_kwargs :: "llm_service \<Rightarrow> call_state \<Rightarrow> pyval dict" where
  "call_kwargs sv s =
     (let named = (case truthy_text (requested_model sv s) of Some m \<Rightarrow> dset ''model'' (PStr m) (ls_named sv) | None \<Rightarrow> ls_named sv);
          kw = fold set_default (provider_config sv s) named;
          kw = (case cs_extra_room s of Some r \<Rightarrow> if r \<noteq> 0 then dset ''max_tokens'' (PInt r) kw else kw | None \<Rightarrow> kw);
          kw = ddel ''token'' kw
      in case truthy_text (requested_token sv s) of Some t \<Rightarrow> dset ''token'' (PStr t) kw | None \<Rightarrow> kw)"

section \<open>Falling back\<close>

text \<open>Why an entry is passed over, with the name it is given there, or the provider it goes to.\<close>

definition entry_check :: "llm_service \<Rightarrow> call_state \<Rightarrow> fallback_target \<Rightarrow> (string \<times> string) + llm_provider" where
  "entry_check sv s t =
     (let label = describe_target t (lp_name (ls_own sv))
      in case resolve_provider sv t of
           None \<Rightarrow> Inl (label, ''provider not configured: '' @ repr_str (case ft_provider t of Some p \<Rightarrow> p | None \<Rightarrow> []))
         | Some llm \<Rightarrow>
             if ls_has_tools sv \<and> \<not> lp_supports_tools llm then Inl (label, ''provider cannot offer tools'')
             else (let model = (case truthy_text (entry_model sv t llm) of Some m \<Rightarrow> m | None \<Rightarrow> lp_model llm);
                       label = describe_place (lp_name llm, model, ft_token t)
                   in if lp_id llm = lp_id (cs_provider s) \<and> model = model_in_use sv s \<and> ft_token t = truthy_text (requested_token sv s)
                      then Inl (label, ''already in use'')
                      else case truthy_text (ft_token t) of
                             None \<Rightarrow> Inr llm
                           | Some tok \<Rightarrow>
                               (case lp_cooling_until llm tok model of
                                  Some u \<Rightarrow> if u \<noteq> 0 then Inl (label, tok @ '' is rate limited for '' @ model @ '' until '' @ fmt_utc u) else Inr llm
                                | None \<Rightarrow> Inr llm)))"

fun next_entry :: "llm_service \<Rightarrow> call_state \<Rightarrow> (string \<times> string) list \<Rightarrow> fallback_target list \<Rightarrow>
    (llm_provider \<times> fallback_target) option \<times> fallback_target list \<times> (string \<times> string) list" where
  "next_entry sv s skipped [] = (None, [], skipped)"
| "next_entry sv s skipped (t # ts) =
     (case entry_check sv s t of Inl why \<Rightarrow> next_entry sv s (skipped @ [why]) ts | Inr llm \<Rightarrow> (Some (llm, t), ts, skipped))"

definition fall_back :: "llm_service \<Rightarrow> call_state \<Rightarrow> bool \<times> call_state" where
  "fall_back sv s =
     (case next_entry sv s [] (cs_queue s) of
        (Some (llm, t), rest, skipped) \<Rightarrow>
          (let s' = s\<lparr>cs_provider := llm, cs_active := Some t, cs_queue := rest\<rparr>
           in (True, note_event_of (FellBack (where_now sv s) (where_now sv s') skipped (length rest)) s'))
      | (None, rest, skipped) \<Rightarrow>
          (let s' = s\<lparr>cs_queue := rest\<rparr>
           in (False, if ls_fallbacks sv = [] then s' else note_event_of (NoFallbackLeft (where_now sv s) skipped) s')))"

section \<open>Waiting, and the room of a retried call\<close>

definition allowance_max_wait :: "llm_service \<Rightarrow> rat" where
  "allowance_max_wait sv = (case ls_wait_max sv of Some q \<Rightarrow> max 0 q | None \<Rightarrow> DEFAULT_MAX_WAIT)"

text \<open>\<open>None\<close> when the sleep never ends.\<close>

definition wait_for_allowance :: "llm_env \<Rightarrow> llm_service \<Rightarrow> llm_error \<Rightarrow> call_state \<Rightarrow> (bool \<times> call_state) option" where
  "wait_for_allowance en sv e s =
     (case decide_wait (en_iso_time en) e (en_time en (length (cs_sent s))) (allowance_max_wait sv) (cs_parked s) of
        None \<Rightarrow> Some (False, s)
      | Some w \<Rightarrow>
          (let n = cs_waits s; s1 = note_event_of (WaitsForAllowance (wt_seconds w) (wt_until w)) s
           in Option.bind (sleep_until (fst (en_wait en n)) (snd (en_wait en n)) (wt_until w) 0) (\<lambda>(woke, looks).
                let parked = (if woke then wt_seconds w else en_cut_short en n)
                in Some (woke, note_event_of (WaitOver woke parked) (s1\<lparr>cs_parked := cs_parked s1 + parked, cs_waits := Suc n\<rparr>)))))"

definition as_int_val :: "pyval \<Rightarrow> int option" where
  "as_int_val v =
     (case v of PInt i \<Rightarrow> Some i | PBool b \<Rightarrow> Some (if b then 1 else 0) | PFloat q \<Rightarrow> Some (if q < 0 then - \<lfloor>- q\<rfloor> else \<lfloor>q\<rfloor>)
      | PStr s \<Rightarrow> int_of_str s | _ \<Rightarrow> None)"

definition OUTPUT_LIMIT_RETRIES :: nat where "OUTPUT_LIMIT_RETRIES = 1"
definition OUTPUT_LIMIT_HEADROOM :: int where "OUTPUT_LIMIT_HEADROOM = 2"

definition room_for_retry :: "llm_service \<Rightarrow> call_state \<Rightarrow> int option" where
  "room_for_retry sv s =
     (let raw = py_or (dget_or (provider_config sv s) ''max_tokens'' PNone) (lp_max_tokens (cs_provider s))
      in case as_int_val raw of Some asked \<Rightarrow> if 0 < asked then Some (asked * OUTPUT_LIMIT_HEADROOM) else None | None \<Rightarrow> None)"

definition drop_extra_room :: "llm_error \<Rightarrow> call_state \<Rightarrow> call_state option" where
  "drop_extra_room e s =
     (if cs_extra_room s = None \<or> \<not> has_sub ''max_tokens'' (lower (le_text e)) then None else Some (s\<lparr>cs_extra_room := None\<rparr>))"

section \<open>One call\<close>

definition provider_error :: "llm_response \<Rightarrow> llm_error" where
  "provider_error r =
     (let words = join '' '' (words_of (extract_final_answer r))
      in \<lparr>le_pool = False, le_kind = ''ProviderErrorResponse'',
          le_text = rs_provider r @ '' answered with an error: '' @ take 2000 (if words = [] then ''no text'' else words),
          le_status = PNone, le_response_status = None, le_headers = None, le_reset = NoReset\<rparr>)"

definition invoke_provider :: "llm_env \<Rightarrow> llm_service \<Rightarrow> call_state \<Rightarrow> (llm_error + llm_response) \<times> call_state" where
  "invoke_provider en sv s =
     (let ms = enforce_context_limit (ls_max_context_tokens sv) (ls_max_messages sv) (cs_messages s);
          s1 = s\<lparr>cs_messages := ms\<rparr>;
          rq = \<lparr>rq_provider = lp_id (cs_provider s), rq_messages = ms, rq_kwargs = call_kwargs sv s1\<rparr>
      in (en_answer en (length (cs_sent s)) rq, s1\<lparr>cs_sent := cs_sent s1 @ [rq]\<rparr>))"

definition answered_or_failed :: "llm_error + llm_response \<Rightarrow> llm_error + llm_response" where
  "answered_or_failed a = (case a of Inr r \<Rightarrow> if rs_finish_reason r = Some ''error'' then Inl (provider_error r) else Inr r | Inl e \<Rightarrow> Inl e)"

text \<open>One turn of the loop in \<open>_call_llm\<close>: \<open>Inl\<close> to ask again.\<close>

definition call_turn :: "llm_env \<Rightarrow> llm_service \<Rightarrow> nat \<Rightarrow> call_state \<Rightarrow> (call_state + (llm_error + llm_response) \<times> call_state) option" where
  "call_turn en sv iteration s0 =
     (case invoke_provider en sv (note_event_of (CallStarted iteration (where_now sv s0)) s0) of (a, s1) \<Rightarrow>
        (case answered_or_failed a of
           Inr r \<Rightarrow> Some (Inr (Inr r, s1))
         | Inl e \<Rightarrow>
             (let s2 = note_event_of (CallFailed iteration e) s1
              in case drop_extra_room e s2 of
                   Some s3 \<Rightarrow> Some (Inl s3)
                 | None \<Rightarrow>
                     if \<not> is_capacity_error e then Some (Inr (Inl e, s2))
                     else (case fall_back sv s2 of
                             (True, s3) \<Rightarrow> Some (Inl s3)
                           | (False, s3) \<Rightarrow>
                               Option.bind (wait_for_allowance en sv e s3) (\<lambda>(woke, s4). Some (if woke then Inl s4 else Inr (Inl e, s4)))))))"

partial_function (option) call_loop :: "llm_env \<Rightarrow> llm_service \<Rightarrow> nat \<Rightarrow> call_state \<Rightarrow> ((llm_error + llm_response) \<times> call_state) option" where
  "call_loop en sv iteration s =
     Option.bind (call_turn en sv iteration s) (\<lambda>t. case t of Inl s' \<Rightarrow> call_loop en sv iteration s' | Inr r \<Rightarrow> Some r)"

declare call_loop.simps [code]

definition call_cost :: "llm_env \<Rightarrow> llm_response \<Rightarrow> rat" where
  "call_cost en r = (if rs_reported_cost r = PNone then en_estimate en r else case py_float (rs_reported_cost r) of Some q \<Rightarrow> q | None \<Rightarrow> en_estimate en r)"

definition call_llm :: "llm_env \<Rightarrow> llm_service \<Rightarrow> nat \<Rightarrow> call_state \<Rightarrow> ((llm_error + llm_response \<times> rat) \<times> call_state) option" where
  "call_llm en sv iteration s =
     Option.bind (call_loop en sv iteration s) (\<lambda>(a, s').
       case a of
         Inl e \<Rightarrow> Some (Inl e, s')
       | Inr r \<Rightarrow> Some (Inr (r, call_cost en r), note_event_of (CallCompleted iteration (call_cost en r)) s'))"

section \<open>The turns of a run\<close>

record llm_run_result =
  rr_output :: string
  rr_tool_calls :: "(string \<times> pyval \<times> string \<times> bool) list"
  rr_tokens :: int
  rr_cost :: rat
  rr_iterations :: nat
  rr_error :: "string option"

definition build_result :: "nat \<Rightarrow> string \<Rightarrow> string option \<Rightarrow> call_state \<Rightarrow> llm_run_result" where
  "build_result iterations output err s =
     \<lparr>rr_output = output, rr_tool_calls = cs_tool_log s, rr_tokens = cs_tokens s, rr_cost = of_int (round_even (cs_cost s * 10 ^ 6)) / 10 ^ 6,
      rr_iterations = iterations, rr_error = err\<rparr>"

definition one_tool_result :: "llm_env \<Rightarrow> nat \<Rightarrow> tool_call \<Rightarrow> string \<times> bool" where
  "one_tool_result en n c =
     (case en_tool en n (tc_name c) (tc_arguments c) of
        Inr v \<Rightarrow> (if v = PNone then [] else py_str v, True)
      | Inl (kind, text) \<Rightarrow> (''Error: '' @ kind @ '': '' @ text, False))"

fun execute_calls :: "llm_env \<Rightarrow> nat \<Rightarrow> tool_call list \<Rightarrow> (tool_call \<times> string \<times> bool) list" where
  "execute_calls en n [] = []"
| "execute_calls en n (c # cs) = (c, one_tool_result en n c) # execute_calls en (Suc n) cs"

definition execute_and_inject_tools :: "llm_env \<Rightarrow> llm_service \<Rightarrow> nat \<Rightarrow> llm_response \<Rightarrow> tool_call list \<Rightarrow> call_state \<Rightarrow> call_state" where
  "execute_and_inject_tools en sv iteration r calls s =
     (let results = execute_calls en (length (cs_tool_log s)) calls;
          ms = inject_tool_results (en_dumps en) r calls (map (\<lambda>(c, text, ok). (tc_id c, text)) results) (cs_messages s)
      in s\<lparr>cs_tool_log := cs_tool_log s @ map (\<lambda>(c, text, ok). (tc_name c, tc_arguments c, text, ok)) results,
           cs_messages := nudge_to_finish (int iteration) (int (ls_max_iterations sv)) (ls_wrap_up_turns sv) ms\<rparr>)"

definition MAX_TOKENS_ERROR :: string where
  "MAX_TOKENS_ERROR = ''Response hit max_tokens before any text was returned. Raise the agent'' @ [CHR 0x27] @ ''s provider_config.max_tokens.''"

definition no_tool_calls :: "llm_service \<Rightarrow> nat \<Rightarrow> llm_response \<Rightarrow> call_state \<Rightarrow> llm_run_result option \<times> call_state" where
  "no_tool_calls sv iteration r s =
     (let output = extract_final_answer r; lost = (strip output = [] \<and> rs_finish_reason r = Some ''max_tokens'')
      in if lost \<and> cs_retries s < OUTPUT_LIMIT_RETRIES
         then (let room = room_for_retry sv s;
                   s1 = s\<lparr>cs_retries := Suc (cs_retries s), cs_extra_room := room\<rparr>
               in (None, (note_event_of (IterationNoted iteration ''output_limit_retry'' 0 room) s1)\<lparr>cs_messages := note_output_limit (cs_messages s)\<rparr>))
         else (let s1 = note_event_of (IterationNoted iteration ''final_response'' 0 None) s
               in (Some (build_result iteration output (if lost then Some MAX_TOKENS_ERROR else None) s1), s1)))"

definition run_iteration :: "llm_env \<Rightarrow> llm_service \<Rightarrow> nat \<Rightarrow> call_state \<Rightarrow> ((llm_error + llm_run_result option) \<times> call_state) option" where
  "run_iteration en sv iteration s0 =
     (let elapsed = en_elapsed en iteration - cs_parked s0
      in if ls_total_timeout sv < elapsed
         then Some (Inr (Some (build_result (iteration - 1) [] (Some (''LLM run timed out after '' @ int_str (round_even elapsed) @ ''s'')) s0)), s0)
         else Option.bind (call_llm en sv iteration s0) (\<lambda>(a, s1).
           case a of
             Inl e \<Rightarrow> Some (Inl e, s1)
           | Inr (r, cost) \<Rightarrow>
               (let s2 = s1\<lparr>cs_response := Some r, cs_tokens := cs_tokens s1 + (case rs_total_tokens r of Some n \<Rightarrow> n | None \<Rightarrow> 0), cs_cost := cs_cost s1 + cost\<rparr>;
                    calls = parse_tool_calls (en_loads en) r
                in if calls = [] then (case no_tool_calls sv iteration r s2 of (res, s3) \<Rightarrow> Some (Inr res, s3))
                   else (let s3 = s2\<lparr>cs_retries := 0, cs_extra_room := None\<rparr>
                         in if \<not> ls_has_executor sv
                            then (let s4 = note_event_of (NoExecutor iteration (map tc_name calls)) s3
                                  in Some (Inr (Some (build_result iteration [] (Some ''Tool calls requested but no tool executor available'') s4)), s4))
                            else Some (Inr None, note_event_of (IterationNoted iteration ''tool_calls'' (length calls) None)
                                                   (execute_and_inject_tools en sv iteration r calls s3))))))"

definition last_output :: "call_state \<Rightarrow> string" where
  "last_output s = (case cs_response s of Some r \<Rightarrow> extract_final_answer r | None \<Rightarrow> [])"

definition CANCELLED_ERROR :: string where "CANCELLED_ERROR = ''Cancelled: the run was stopped''"

definition budget_error :: "string \<Rightarrow> string" where
  "budget_error reason = (if startswith ''budget'' (lower reason) then reason else ''Budget exceeded: '' @ reason)"

fun run_from :: "llm_env \<Rightarrow> llm_service \<Rightarrow> nat \<Rightarrow> nat \<Rightarrow> call_state \<Rightarrow> ((llm_error + llm_run_result) \<times> call_state) option" where
  "run_from en sv iteration 0 s =
     (let s1 = note_event_of (MaxIterations (ls_max_iterations sv)) s
      in Some (Inr (build_result (ls_max_iterations sv) (last_output s1)
           (Some (''Reached max iterations ('' @ nat_str (ls_max_iterations sv) @ '')'')) s1), s1))"
| "run_from en sv iteration (Suc left) s =
     (if en_cancelled en iteration then Some (Inr (build_result (iteration - 1) (last_output s) (Some CANCELLED_ERROR) s), s)
      else case en_budget en iteration of
             Some reason \<Rightarrow> Some (Inr (build_result (iteration - 1) [] (Some (budget_error reason)) s), s)
           | None \<Rightarrow>
               Option.bind (run_iteration en sv iteration s) (\<lambda>(a, s1).
                 case a of
                   Inl e \<Rightarrow> Some (Inl e, s1)
                 | Inr (Some res) \<Rightarrow> Some (Inr res, s1)
                 | Inr None \<Rightarrow> run_from en sv (Suc iteration) left s1))"

definition fresh_state :: "llm_service \<Rightarrow> message list \<Rightarrow> call_state" where
  "fresh_state sv ms =
     \<lparr>cs_provider = ls_own sv, cs_active = None, cs_queue = ls_fallbacks sv, cs_extra_room = None, cs_retries = 0, cs_parked = 0, cs_waits = 0,
      cs_messages = ms, cs_tool_log = [], cs_tokens = 0, cs_cost = 0, cs_response = None, cs_sent = [], cs_events = []\<rparr>"

definition llm_run :: "llm_env \<Rightarrow> llm_service \<Rightarrow> message list \<Rightarrow> ((llm_error + llm_run_result) \<times> call_state) option" where
  "llm_run en sv ms = run_from en sv 1 (ls_max_iterations sv) (fresh_state sv ms)"

section \<open>The first entry that can be used\<close>

lemma next_entry_spec:
  "next_entry sv s skipped q = (r, rest, skipped') \<Longrightarrow>
     (case r of
        None \<Rightarrow> rest = [] \<and> list_all (\<lambda>t. isl (entry_check sv s t)) q
      | Some (llm, t) \<Rightarrow> entry_check sv s t = Inr llm \<and> (\<exists>passed. q = passed @ t # rest \<and> list_all (\<lambda>t. isl (entry_check sv s t)) passed))"
proof (induction sv s skipped q rule: next_entry.induct)
  case (2 sv s skipped t ts)
  show ?case
  proof (cases "entry_check sv s t")
    case (Inl why)
    then have "next_entry sv s (skipped @ [why]) ts = (r, rest, skipped')" using "2.prems" by simp
    from "2.IH" [OF Inl this] Inl show ?thesis by (cases r) (auto intro: exI [of _ "t # _"])
  next
    case (Inr llm)
    then show ?thesis using "2.prems" by auto
  qed
qed auto

text \<open>Falling back goes to the first entry left on the list that can be used, whatever the error was, and passes over only those that cannot; it says no exactly when
  none of those left can.\<close>

lemma fall_back_exact:
  "fall_back sv s = (moved, s') \<Longrightarrow>
     (if moved
      then \<exists>passed t llm. cs_queue s = passed @ t # cs_queue s' \<and> list_all (\<lambda>t. isl (entry_check sv s t)) passed \<and> entry_check sv s t = Inr llm \<and>
             cs_active s' = Some t \<and> cs_provider s' = llm \<and> requested_token sv s' = ft_token t
      else list_all (\<lambda>t. isl (entry_check sv s t)) (cs_queue s) \<and> cs_queue s' = [] \<and> cs_active s' = cs_active s \<and> cs_provider s' = cs_provider s)"
proof -
  assume run: "fall_back sv s = (moved, s')"
  obtain r rest skipped where e: "next_entry sv s [] (cs_queue s) = (r, rest, skipped)" by (metis prod_cases3)
  note spec = next_entry_spec [OF e]
  show ?thesis
  proof (cases r)
    case None
    then show ?thesis using run e spec by (auto simp: fall_back_def Let_def note_event_of_def split: if_splits)
  next
    case (Some p)
    then show ?thesis using run e spec by (cases p) (auto simp: fall_back_def Let_def note_event_of_def requested_token_def)
  qed
qed

section \<open>A call is settled\<close>

lemma fall_back_moves:
  assumes "fall_back sv s = (True, s')"
  shows "length (cs_queue s') < length (cs_queue s)" "set (cs_queue s') \<subseteq> set (cs_queue s)" "\<exists>t \<in> set (cs_queue s). cs_active s' = Some t"
  using next_entry_spec [of sv s "[]" "cs_queue s"] assms
  by (auto simp: fall_back_def Let_def note_event_of_def split: prod.splits option.splits if_splits)

lemma fall_back_keeps:
  "fall_back sv s = (moved, s') \<Longrightarrow> cs_extra_room s' = cs_extra_room s \<and> cs_parked s' = cs_parked s \<and> cs_messages s' = cs_messages s \<and> cs_sent s' = cs_sent s"
  by (auto simp: fall_back_def Let_def note_event_of_def split: prod.splits option.splits if_splits)

lemma wait_cases:
  assumes "wait_for_allowance en sv e s = Some (woke, s')"
  shows "cs_queue s' = cs_queue s \<and> cs_extra_room s' = cs_extra_room s \<and> cs_messages s' = cs_messages s \<and> cs_sent s' = cs_sent s \<and> cs_active s' = cs_active s"
    and "woke \<Longrightarrow> cs_parked s + MIN_WAIT_S \<le> cs_parked s' \<and> cs_parked s' \<le> allowance_max_wait sv"
    and "\<not> woke \<Longrightarrow> cs_parked s' = cs_parked s \<or> cs_parked s' = cs_parked s + en_cut_short en (cs_waits s)"
proof -
  have *: "(\<exists>w. decide_wait (en_iso_time en) e (en_time en (length (cs_sent s))) (allowance_max_wait sv) (cs_parked s) = Some w \<and>
      cs_parked s' = cs_parked s + (if woke then wt_seconds w else en_cut_short en (cs_waits s))) \<or> \<not> woke \<and> cs_parked s' = cs_parked s"
    "cs_queue s' = cs_queue s \<and> cs_extra_room s' = cs_extra_room s \<and> cs_messages s' = cs_messages s \<and> cs_sent s' = cs_sent s \<and> cs_active s' = cs_active s"
    using assms by (auto simp: wait_for_allowance_def Let_def note_event_of_def bind_eq_Some_conv split: option.splits)
  then show "cs_queue s' = cs_queue s \<and> cs_extra_room s' = cs_extra_room s \<and> cs_messages s' = cs_messages s \<and> cs_sent s' = cs_sent s \<and> cs_active s' = cs_active s"
    by blast
  show "woke \<Longrightarrow> cs_parked s + MIN_WAIT_S \<le> cs_parked s' \<and> cs_parked s' \<le> allowance_max_wait sv" using *(1) by (auto elim!: decide_wait_cases)
  show "\<not> woke \<Longrightarrow> cs_parked s' = cs_parked s \<or> cs_parked s' = cs_parked s + en_cut_short en (cs_waits s)" using *(1) by auto
qed

text \<open>What a run can still spend on asking again: the extra room to give up, the entries of the list, the waits that fit the ceiling.\<close>

definition calls_left :: "llm_service \<Rightarrow> call_state \<Rightarrow> nat" where
  "calls_left sv s = (if cs_extra_room s = None then 0 else 1) + length (cs_queue s) + nat \<lfloor>(allowance_max_wait sv - cs_parked s) / MIN_WAIT_S\<rfloor>"

definition env_ok :: "llm_env \<Rightarrow> bool" where
  "env_ok en \<longleftrightarrow> (\<forall>n until. clock_runs (snd (en_wait en n)) until) \<and> (\<forall>n. 0 \<le> en_cut_short en n)"

lemma waits_fewer:
  assumes "parked + 5 \<le> parked'" and "parked' \<le> (m::rat)"
  shows "nat \<lfloor>(m - parked') / 5\<rfloor> < nat \<lfloor>(m - parked) / 5\<rfloor>"
proof -
  have "(m - parked') / 5 + 1 \<le> (m - parked) / 5" using assms(1) by (simp add: field_simps)
  then have "\<lfloor>(m - parked') / 5\<rfloor> + 1 \<le> \<lfloor>(m - parked) / 5\<rfloor>" by linarith
  moreover have "0 \<le> \<lfloor>(m - parked') / 5\<rfloor>" using assms(2) by simp
  ultimately show ?thesis by linarith
qed

lemma waits_no_more: "parked \<le> parked' \<Longrightarrow> nat \<lfloor>((m::rat) - parked') / 5\<rfloor> \<le> nat \<lfloor>(m - parked) / 5\<rfloor>"
  by (intro nat_mono floor_mono divide_right_mono) simp_all

lemma invoke_keeps:
  "invoke_provider en sv s = (a, s') \<Longrightarrow> cs_queue s' = cs_queue s \<and> cs_extra_room s' = cs_extra_room s \<and> cs_parked s' = cs_parked s \<and>
     cs_active s' = cs_active s \<and> cs_provider s' = cs_provider s \<and> length (cs_sent s') = Suc (length (cs_sent s))"
  by (auto simp: invoke_provider_def Let_def)

text \<open>The ways a turn ends.\<close>

lemma call_turn_cases:
  assumes "call_turn en sv it s = Some t"
  obtains (answered) r s1 where "invoke_provider en sv (note_event_of (CallStarted it (where_now sv s)) s) = (Inr r, s1)" and "t = Inr (Inr r, s1)"
  | (roomier) a e s1 where "invoke_provider en sv (note_event_of (CallStarted it (where_now sv s)) s) = (a, s1)" and "cs_extra_room s1 \<noteq> None"
      and "t = Inl ((note_event_of (CallFailed it e) s1)\<lparr>cs_extra_room := None\<rparr>)"
  | (failed) a e s1 where "invoke_provider en sv (note_event_of (CallStarted it (where_now sv s)) s) = (a, s1)" and "t = Inr (Inl e, note_event_of (CallFailed it e) s1)"
      and "\<not> is_capacity_error e"
  | (moved) a e s1 s3 where "invoke_provider en sv (note_event_of (CallStarted it (where_now sv s)) s) = (a, s1)" and "is_capacity_error e"
      and "fall_back sv (note_event_of (CallFailed it e) s1) = (True, s3)" and "t = Inl s3"
  | (waited) a e s1 s3 woke s4 where "invoke_provider en sv (note_event_of (CallStarted it (where_now sv s)) s) = (a, s1)" and "is_capacity_error e"
      and "fall_back sv (note_event_of (CallFailed it e) s1) = (False, s3)" and "wait_for_allowance en sv e s3 = Some (woke, s4)"
      and "t = (if woke then Inl s4 else Inr (Inl e, s4))"
proof -
  obtain a s1 where inv: "invoke_provider en sv (note_event_of (CallStarted it (where_now sv s)) s) = (a, s1)" by fastforce
  show thesis
  proof (cases "answered_or_failed a")
    case (Inr r)
    then have "a = Inr r" by (auto simp: answered_or_failed_def split: sum.splits if_splits)
    then show thesis using answered [of r s1] inv Inr assms by (simp add: call_turn_def)
  next
    case (Inl e)
    let ?s2 = "note_event_of (CallFailed it e) s1"
    show thesis
    proof (cases "drop_extra_room e ?s2")
      case (Some s3)
      then show thesis using roomier [of a s1 e] inv Inl assms by (auto simp: call_turn_def Let_def drop_extra_room_def note_event_of_def split: if_splits)
    next
      case None
      obtain m s3 where fb: "fall_back sv ?s2 = (m, s3)" by fastforce
      show thesis
      proof (cases "is_capacity_error e")
        case False
        then show thesis using failed [of a s1 e] inv Inl None assms by (simp add: call_turn_def Let_def)
      next
        case True
        then show thesis using moved [OF inv True, of s3] waited [OF inv True, of s3] inv Inl None fb assms
          by (cases m) (auto simp: call_turn_def Let_def bind_eq_Some_conv)
      qed
    qed
  qed
qed

lemma note_event_keeps [simp]:
  "cs_queue (note_event_of e s) = cs_queue s" "cs_extra_room (note_event_of e s) = cs_extra_room s" "cs_parked (note_event_of e s) = cs_parked s"
  "cs_sent (note_event_of e s) = cs_sent s" "cs_messages (note_event_of e s) = cs_messages s" "cs_active (note_event_of e s) = cs_active s"
  "cs_provider (note_event_of e s) = cs_provider s" "calls_left sv (note_event_of e s) = calls_left sv s"
  by (simp_all add: note_event_of_def calls_left_def)

lemma turn_again:
  assumes "call_turn en sv it s = Some (Inl s')"
  shows "calls_left sv s' < calls_left sv s \<and> length (cs_sent s') = Suc (length (cs_sent s))"
  using assms
proof (cases rule: call_turn_cases)
  case (roomier a e s1)
  then show ?thesis using invoke_keeps [OF roomier(1)] by (simp add: calls_left_def note_event_of_def)
next
  case (moved a e s1 s3)
  then show ?thesis using invoke_keeps [OF moved(1)] fall_back_moves(1) [OF moved(3)] fall_back_keeps [OF moved(3)] by (simp add: calls_left_def)
next
  case (waited a e s1 s3 woke s4)
  then have woke: "woke" and s': "s' = s4" by (auto split: if_splits)
  have q: "cs_queue s3 = []" using fall_back_exact [OF waited(3)] by simp
  define f where "f p = nat \<lfloor>(allowance_max_wait sv - p) / MIN_WAIT_S\<rfloor>" for p
  have "f (cs_parked s4) < f (cs_parked s)"
    using invoke_keeps [OF waited(1)] fall_back_keeps [OF waited(3)] wait_cases(2) [OF waited(4) woke]
    unfolding f_def MIN_WAIT_S_def by (intro waits_fewer) simp_all
  then show ?thesis
    using invoke_keeps [OF waited(1)] fall_back_keeps [OF waited(3)] wait_cases(1) [OF waited(4)] q s'
    unfolding calls_left_def f_def [symmetric] by simp
qed auto

lemma turn_ends:
  assumes "call_turn en sv it s = Some (Inr (a, s'))" and "env_ok en"
  shows "calls_left sv s' \<le> calls_left sv s \<and> length (cs_sent s') = Suc (length (cs_sent s))"
  using assms(1)
proof (cases rule: call_turn_cases)
  case (answered r s1)
  then show ?thesis using invoke_keeps [OF answered(1)] by (simp add: calls_left_def)
next
  case (failed a' e s1)
  then show ?thesis using invoke_keeps [OF failed(1)] by (simp add: calls_left_def)
next
  case (waited a' e s1 s3 woke s4)
  then have woke: "\<not> woke" and s': "s' = s4" by (auto split: if_splits)
  have "cs_parked s3 \<le> cs_parked s4" using wait_cases(3) [OF waited(4) woke] assms(2) by (auto simp: env_ok_def)
  moreover have "cs_queue s3 = []" using fall_back_exact [OF waited(3)] by simp
  ultimately show ?thesis
    using invoke_keeps [OF waited(1)] fall_back_keeps [OF waited(3)] wait_cases(1) [OF waited(4)] s'
      waits_no_more [of "cs_parked s" "cs_parked s4" "allowance_max_wait sv"]
    by (simp add: calls_left_def MIN_WAIT_S_def)
qed auto

lemma call_turn_returns:
  assumes "env_ok en"
  shows "\<exists>t. call_turn en sv it s = Some t"
proof -
  have "\<exists>r. wait_for_allowance en sv e s3 = Some r" for e s3
  proof (cases "decide_wait (en_iso_time en) e (en_time en (length (cs_sent s3))) (allowance_max_wait sv) (cs_parked s3)")
    case (Some w)
    have "clock_runs (snd (en_wait en (cs_waits s3))) (wt_until w)" using assms by (simp add: env_ok_def)
    from sleep_until_ends [OF this, of "fst (en_wait en (cs_waits s3))" 0]
    show ?thesis using Some by (auto simp: wait_for_allowance_def Let_def)
  qed (auto simp: wait_for_allowance_def)
  then show ?thesis
    by (auto simp: call_turn_def Let_def bind_eq_Some_conv split: prod.splits sum.splits option.splits bool.splits)
qed

lemma call_loop_returns:
  assumes "env_ok en"
  shows "\<exists>a s'. call_loop en sv it s = Some (a, s') \<and> length (cs_sent s') + calls_left sv s' \<le> Suc (length (cs_sent s) + calls_left sv s)"
proof (induction "calls_left sv s" arbitrary: s rule: less_induct)
  case less
  obtain t where t: "call_turn en sv it s = Some t" using call_turn_returns [OF assms] by blast
  show ?case
  proof (cases t)
    case (Inl s')
    with less [of s'] turn_again [of en sv it s s'] t show ?thesis by (subst call_loop.simps) fastforce
  next
    case (Inr p)
    then show ?thesis using turn_ends [OF _ assms, of sv it s "fst p" "snd p"] t by (subst call_loop.simps) (cases p; auto)
  qed
qed

section \<open>What every step of a run keeps\<close>

text \<open>Of the events of a run, two kinds say where its calls went: a call was started, and it fell back.\<close>

definition is_fall_back :: "llm_event \<Rightarrow> bool" where
  "is_fall_back e = (case e of FellBack _ _ _ _ \<Rightarrow> True | _ \<Rightarrow> False)"

definition is_call :: "llm_event \<Rightarrow> bool" where
  "is_call e = (case e of CallStarted _ _ \<Rightarrow> True | _ \<Rightarrow> False)"

lemma other_events [simp]:
  "\<not> is_call (CallFailed i e)" "\<not> is_call (CallCompleted i c)" "\<not> is_call (NoFallbackLeft w sk)" "\<not> is_call (WaitsForAllowance x y)" "\<not> is_call (WaitOver b x)"
  "\<not> is_call (IterationNoted i k n r)" "\<not> is_call (NoExecutor i ns)" "\<not> is_call (MaxIterations i)" "\<not> is_call (FellBack w w' sk n)" "is_call (CallStarted i w)"
  "\<not> is_fall_back (CallFailed i e)" "\<not> is_fall_back (CallCompleted i c)" "\<not> is_fall_back (NoFallbackLeft w sk)" "\<not> is_fall_back (WaitsForAllowance x y)"
  "\<not> is_fall_back (WaitOver b x)" "\<not> is_fall_back (IterationNoted i k n r)" "\<not> is_fall_back (NoExecutor i ns)" "\<not> is_fall_back (MaxIterations i)"
  "is_fall_back (FellBack w w' sk n)" "\<not> is_fall_back (CallStarted i w)"
  by (simp_all add: is_call_def is_fall_back_def)

text \<open>The contract of a property a run keeps: \<open>I\<close> holds between calls, \<open>K\<close> is what is left of it where a call fails for good.\<close>

locale run_keeps =
  fixes en :: llm_env and sv :: llm_service and I :: "call_state \<Rightarrow> bool" and K :: "call_state \<Rightarrow> bool"
  assumes weaker: "I s \<Longrightarrow> K s"
    and again: "I s \<Longrightarrow> call_turn en sv it s = Some (Inl s') \<Longrightarrow> I s'"
    and answer: "I s \<Longrightarrow> call_turn en sv it s = Some (Inr (Inr r, s')) \<Longrightarrow> I s'"
    and failure: "I s \<Longrightarrow> call_turn en sv it s = Some (Inr (Inl e, s')) \<Longrightarrow> K s'"
    and noted: "I s \<Longrightarrow> \<not> is_call ev \<Longrightarrow> \<not> is_fall_back ev \<Longrightarrow> I (note_event_of ev s)"
    and accounted: "I s \<Longrightarrow> I (s\<lparr>cs_response := r', cs_tokens := n, cs_cost := c\<rparr>)"
    and asked_again: "I s \<Longrightarrow> I (s\<lparr>cs_retries := k, cs_extra_room := room\<rparr>)"
    and limit_noted: "I s \<Longrightarrow> I (s\<lparr>cs_messages := note_output_limit (cs_messages s)\<rparr>)"
    and tools_run: "I s \<Longrightarrow> I (execute_and_inject_tools en sv it r calls s)"
begin

lemma call_loop_keeps: "call_loop en sv it s = Some (a, s') \<Longrightarrow> I s \<Longrightarrow> K s' \<and> (\<not> isl a \<longrightarrow> I s')"
proof -
  assume run: "call_loop en sv it s = Some (a, s')" and "I s"
  have "en = en \<and> sv = sv \<and> it = it \<and> I s \<longrightarrow> K (snd (a, s')) \<and> (\<not> isl (fst (a, s')) \<longrightarrow> I (snd (a, s')))"
  proof (rule call_loop.raw_induct [where P = "\<lambda>en' sv' it' s p. en' = en \<and> sv' = sv \<and> it' = it \<and> I s \<longrightarrow> K (snd p) \<and> (\<not> isl (fst p) \<longrightarrow> I (snd p))", OF _ run])
    fix f en' sv' it' s p
    assume ih: "\<And>en' sv' it' s p. f en' sv' it' s = Some p \<Longrightarrow> en' = en \<and> sv' = sv \<and> it' = it \<and> I s \<longrightarrow> K (snd p) \<and> (\<not> isl (fst p) \<longrightarrow> I (snd p))"
      and res: "Option.bind (call_turn en' sv' it' s) (\<lambda>t. case t of Inl s' \<Rightarrow> f en' sv' it' s' | Inr r \<Rightarrow> Some r) = Some p"
    show "en' = en \<and> sv' = sv \<and> it' = it \<and> I s \<longrightarrow> K (snd p) \<and> (\<not> isl (fst p) \<longrightarrow> I (snd p))"
    proof (intro impI)
      assume same: "en' = en \<and> sv' = sv \<and> it' = it \<and> I s"
      obtain t where t: "call_turn en sv it s = Some t" using res same by (auto simp: bind_eq_Some_conv)
      show "K (snd p) \<and> (\<not> isl (fst p) \<longrightarrow> I (snd p))"
      proof (cases t)
        case (Inl s')
        then show ?thesis using again [of s it s'] t same res ih [of en sv it s' p] by simp
      next
        case (Inr q)
        then have "q = p" using res t same by simp
        then show ?thesis using Inr t same answer [of s it _ "snd p"] failure [of s it _ "snd p"] weaker by (cases p; cases "fst p") auto
      qed
    qed
  qed
  then show ?thesis using \<open>I s\<close> by simp
qed

lemma call_llm_keeps: "call_llm en sv it s = Some (a, s') \<Longrightarrow> I s \<Longrightarrow> K s' \<and> (\<not> isl a \<longrightarrow> I s')"
proof -
  assume run: "call_llm en sv it s = Some (a, s')" and i: "I s"
  obtain b s1 where c: "call_loop en sv it s = Some (b, s1)" using run by (auto simp: call_llm_def bind_eq_Some_conv)
  note k = call_loop_keeps [OF c i]
  show ?thesis
  proof (cases b)
    case (Inl e)
    then show ?thesis using run c k by (auto simp: call_llm_def)
  next
    case (Inr r)
    then have "s' = note_event_of (CallCompleted it (call_cost en r)) s1" using run c by (simp add: call_llm_def)
    then show ?thesis using k Inr noted weaker by simp
  qed
qed

lemma no_tool_calls_keeps: "no_tool_calls sv it r s = (res, s') \<Longrightarrow> I s \<Longrightarrow> I s'"
proof -
  assume run: "no_tool_calls sv it r s = (res, s')" and i: "I s"
  have "I ((note_event_of ev (s\<lparr>cs_retries := k, cs_extra_room := room\<rparr>))\<lparr>cs_messages := note_output_limit (cs_messages s)\<rparr>)" if "\<not> is_call ev" "\<not> is_fall_back ev" for ev k room
    using limit_noted [OF noted [OF asked_again [OF i, where k = k and room = room] that]] by simp
  then show "I s'" using run noted [OF i] by (auto simp: no_tool_calls_def Let_def split: if_splits)
qed

lemma run_iteration_keeps: "run_iteration en sv it s = Some (a, s') \<Longrightarrow> I s \<Longrightarrow> K s' \<and> (\<not> isl a \<longrightarrow> I s')"
proof -
  assume run: "run_iteration en sv it s = Some (a, s')" and i: "I s"
  show ?thesis
  proof (cases "ls_total_timeout sv < en_elapsed en it - cs_parked s")
    case True
    then show ?thesis using run i weaker by (auto simp: run_iteration_def Let_def)
  next
    case False
    then obtain b s1 where c: "call_llm en sv it s = Some (b, s1)" using run by (auto simp: run_iteration_def Let_def bind_eq_Some_conv)
    note k = call_llm_keeps [OF c i]
    show ?thesis
    proof (cases b)
      case (Inl e)
      then show ?thesis using run c False k by (auto simp: run_iteration_def Let_def)
    next
      case (Inr p)
      obtain r cost where p: "p = (r, cost)" by fastforce
      let ?s2 = "s1\<lparr>cs_response := Some r, cs_tokens := cs_tokens s1 + (case rs_total_tokens r of Some n \<Rightarrow> n | None \<Rightarrow> 0), cs_cost := cs_cost s1 + cost\<rparr>"
      have i2: "I ?s2" using k Inr accounted by simp
      then have i3: "I (?s2\<lparr>cs_retries := 0, cs_extra_room := None\<rparr>)" by (rule asked_again)
      have "I s'"
        using run c False Inr p i2 noted [OF i3] noted [OF tools_run [OF i3]] no_tool_calls_keeps [of it r ?s2]
        by (auto simp: run_iteration_def Let_def split: if_splits prod.splits)
      then show ?thesis using weaker by simp
    qed
  qed
qed

lemma run_from_keeps: "run_from en sv it left s = Some (a, s') \<Longrightarrow> I s \<Longrightarrow> K s' \<and> (\<not> isl a \<longrightarrow> I s')"
proof (induction left arbitrary: it s)
  case 0
  then show ?case using noted weaker by (auto simp: Let_def)
next
  case (Suc left)
  show ?case
  proof (cases "en_cancelled en it \<or> en_budget en it \<noteq> None")
    case True
    then show ?thesis using Suc.prems weaker by (auto split: if_splits option.splits)
  next
    case False
    then obtain b s1 where r: "run_iteration en sv it s = Some (b, s1)" using Suc.prems by (auto simp: bind_eq_Some_conv)
    then show ?thesis using run_iteration_keeps [OF r Suc.prems(2)] Suc False by (cases b) (auto split: option.splits)
  qed
qed

lemma llm_run_keeps: "llm_run en sv ms = Some (a, s') \<Longrightarrow> I (fresh_state sv ms) \<Longrightarrow> K s' \<and> (\<not> isl a \<longrightarrow> I s')"
  unfolding llm_run_def by (rule run_from_keeps)

end

section \<open>What is sent\<close>

definition sent_ok :: "int \<Rightarrow> call_state \<Rightarrow> bool" where
  "sent_ok bound s \<longleftrightarrow> (\<forall>rq \<in> set (cs_sent s). transcript_ok bound (rq_messages rq))"

lemma execute_calls_ids: "map (\<lambda>(c, text, ok). tc_id c) (execute_calls en n calls) = map tc_id calls"
  by (induction en n calls rule: execute_calls.induct) auto

lemma invoke_ok:
  assumes "invoke_provider en sv s = (a, s')" and "transcript_ok bound (cs_messages s)" and "sent_ok bound s" and "bound \<le> ls_max_messages sv" and "bound \<le> 10"
  shows "transcript_ok bound (cs_messages s') \<and> sent_ok bound s'"
  using assms enforce_ok [OF assms(2,4,5)] by (auto simp: invoke_provider_def sent_ok_def Let_def)

lemma turn_sends_ok:
  assumes "call_turn en sv it s = Some t" and "transcript_ok bound (cs_messages s)" and "sent_ok bound s" and "bound \<le> ls_max_messages sv" and "bound \<le> 10"
  shows "case t of Inl s' \<Rightarrow> transcript_ok bound (cs_messages s') \<and> sent_ok bound s' | Inr (a, s') \<Rightarrow> transcript_ok bound (cs_messages s') \<and> sent_ok bound s'"
proof -
  have inv: "transcript_ok bound (cs_messages s1) \<and> sent_ok bound s1"
    if "invoke_provider en sv (note_event_of (CallStarted it (where_now sv s)) s) = (a, s1)" for a s1
    by (rule invoke_ok [OF that]) (use assms in \<open>simp_all add: sent_ok_def\<close>)
  show ?thesis using assms(1)
  proof (cases rule: call_turn_cases)
    case (answered r s1)
    then show ?thesis using inv by simp
  next
    case (roomier a e s1)
    then show ?thesis using inv [of a s1] by (simp add: sent_ok_def)
  next
    case (failed a e s1)
    then show ?thesis using inv [of a s1] by (simp add: sent_ok_def)
  next
    case (moved a e s1 s3)
    then show ?thesis using inv [of a s1] fall_back_keeps [OF moved(3)] by (simp add: sent_ok_def)
  next
    case (waited a e s1 s3 woke s4)
    then show ?thesis using inv [of a s1] fall_back_keeps [OF waited(3)] wait_cases(1) [OF waited(4)] by (simp add: sent_ok_def)
  qed
qed

interpretation sends: run_keeps en sv
  "\<lambda>s. bound \<le> ls_max_messages sv \<and> bound \<le> 10 \<longrightarrow> transcript_ok bound (cs_messages s) \<and> sent_ok bound s"
  "\<lambda>s. bound \<le> ls_max_messages sv \<and> bound \<le> 10 \<longrightarrow> sent_ok bound s"
  for en sv bound
proof unfold_locales
  fix s it r calls assume i: "bound \<le> ls_max_messages sv \<and> bound \<le> 10 \<longrightarrow> transcript_ok bound (cs_messages s) \<and> sent_ok bound s"
  let ?results = "map (\<lambda>(c, text, ok). (tc_id c, text)) (execute_calls en (length (cs_tool_log s)) calls)"
  have "map fst ?results = map tc_id calls" using execute_calls_ids [of en "length (cs_tool_log s)" calls] by (simp add: case_prod_unfold o_def)
  then show "bound \<le> ls_max_messages sv \<and> bound \<le> 10 \<longrightarrow>
      transcript_ok bound (cs_messages (execute_and_inject_tools en sv it r calls s)) \<and> sent_ok bound (execute_and_inject_tools en sv it r calls s)"
    using i inject_ok by (simp add: execute_and_inject_tools_def nudge_ok sent_ok_def Let_def)
qed (use turn_sends_ok in \<open>force simp: note_ok sent_ok_def\<close>)+

text \<open>C38: Under the policy \<open>truncate\<close>, or without tools: when the transcript a run starts from has every call with its results, no calls in the user's messages, and a message of
  the user that stands before place min(max_messages, 10), every request keeps each tool call together with its results and has the user's message in it, whatever the model
  and the tools answer and however long the run gets.\<close>

theorem every_request_is_valid:
  assumes "paired [] ms" and "list_ex (\<lambda>m. mg_role m = ''user'') ms" and "list_all (\<lambda>m. mg_role m = ''user'' \<longrightarrow> mg_calls m = []) ms"
    and "int (prefix_end ms) < min (ls_max_messages sv) 10" and "llm_run en sv ms = Some (a, s)" and "rq \<in> set (cs_sent s)"
  shows "paired [] (rq_messages rq) \<and> list_ex (\<lambda>m. mg_role m = ''user'') (rq_messages rq)"
proof -
  have "transcript_ok (min (ls_max_messages sv) 10) ms" using assms(1-4) by (simp add: transcript_ok_def)
  then have "sent_ok (min (ls_max_messages sv) 10) s" using sends.llm_run_keeps [OF assms(5), of "min (ls_max_messages sv) 10"] by (simp add: sent_ok_def fresh_state_def)
  then show ?thesis using assms(6) by (simp add: sent_ok_def transcript_ok_def)
qed

section \<open>Which token a call goes out on\<close>

lemma call_kwargs_token: "dget (call_kwargs sv s) ''token'' = map_option PStr (truthy_text (requested_token sv s))"
  by (simp add: call_kwargs_def Let_def split: option.split)

text \<open>How often the run fell back, and how often it had when each call was started.\<close>

definition times_fallen :: "llm_event list \<Rightarrow> nat" where
  "times_fallen es = length (filter is_fall_back es)"

fun falls_before_calls :: "nat \<Rightarrow> llm_event list \<Rightarrow> nat list" where
  "falls_before_calls k [] = []"
| "falls_before_calls k (e # es) =
     (if is_call e then k # falls_before_calls k es else falls_before_calls (if is_fall_back e then Suc k else k) es)"

lemma falls_before_calls_append:
  "falls_before_calls k (es @ fs) = falls_before_calls k es @ falls_before_calls (k + times_fallen es) fs"
  by (induction k es rule: falls_before_calls.induct) (auto simp: times_fallen_def is_call_def is_fall_back_def split: llm_event.splits)

lemma falls_le: "k' \<in> set (falls_before_calls k es) \<Longrightarrow> k' \<le> k + times_fallen es"
  by (induction k es rule: falls_before_calls.induct) (auto simp: times_fallen_def is_call_def is_fall_back_def split: if_splits llm_event.splits)

text \<open>The token a call is to go out on: the agent's own before it fell back, that of the entry it went to last after it.\<close>

definition token_after :: "llm_service \<Rightarrow> fallback_target list \<Rightarrow> nat \<Rightarrow> string option" where
  "token_after sv taken k = truthy_text (if k = 0 then ls_token sv else ft_token (taken ! (k - 1)))"

definition sent_tokens :: "call_state \<Rightarrow> pyval option list" where
  "sent_tokens s = map (\<lambda>rq. dget (rq_kwargs rq) ''token'') (cs_sent s)"

definition tokens_follow :: "llm_service \<Rightarrow> fallback_target list \<Rightarrow> call_state \<Rightarrow> bool" where
  "tokens_follow sv taken s \<longleftrightarrow> times_fallen (cs_events s) = length taken \<and>
     sent_tokens s = map (\<lambda>k. map_option PStr (token_after sv taken k)) (falls_before_calls 0 (cs_events s))"

text \<open>What is left of the list comes after the entries taken, and the last of those is in use.\<close>

definition on_entry :: "llm_service \<Rightarrow> fallback_target list \<Rightarrow> call_state \<Rightarrow> bool" where
  "on_entry sv taken s \<longleftrightarrow> subseq (taken @ cs_queue s) (ls_fallbacks sv) \<and> cs_active s = (if taken = [] then None else Some (last taken)) \<and>
     tokens_follow sv taken s"

definition entry_known :: "llm_service \<Rightarrow> call_state \<Rightarrow> bool" where
  "entry_known sv s \<longleftrightarrow> (\<exists>taken. on_entry sv taken s)"

lemma on_entry_token: "on_entry sv taken s \<Longrightarrow> truthy_text (requested_token sv s) = token_after sv taken (length taken)"
  by (auto simp: on_entry_def requested_token_def token_after_def last_conv_nth)

lemma on_entry_note:
  assumes "on_entry sv taken s" and "\<not> is_fall_back e" and "\<not> is_call e"
  shows "on_entry sv taken (note_event_of e s)"
  using assms by (simp add: on_entry_def tokens_follow_def sent_tokens_def note_event_of_def falls_before_calls_append times_fallen_def)

lemma on_entry_same:
  "cs_queue s' = cs_queue s \<Longrightarrow> cs_active s' = cs_active s \<Longrightarrow> cs_events s' = cs_events s \<Longrightarrow> cs_sent s' = cs_sent s \<Longrightarrow> on_entry sv taken s' = on_entry sv taken s"
  by (simp add: on_entry_def tokens_follow_def sent_tokens_def)

lemma invoke_on_entry:
  assumes "invoke_provider en sv (note_event_of (CallStarted it p) s) = (a, s')" and "on_entry sv taken s"
  shows "on_entry sv taken s'"
proof -
  let ?s1 = "(note_event_of (CallStarted it p) s)\<lparr>cs_messages := enforce_context_limit (ls_max_context_tokens sv) (ls_max_messages sv) (cs_messages s)\<rparr>"
  have "requested_token sv ?s1 = requested_token sv s" by (simp add: requested_token_def note_event_of_def)
  then have "dget (call_kwargs sv ?s1) ''token'' = map_option PStr (token_after sv taken (length taken))"
    using on_entry_token [OF assms(2)] by (simp add: call_kwargs_token)
  moreover have "s' = ?s1\<lparr>cs_sent := cs_sent s @ [\<lparr>rq_provider = lp_id (cs_provider s), rq_messages = cs_messages ?s1, rq_kwargs = call_kwargs sv ?s1\<rparr>]\<rparr>"
    using assms(1) by (simp add: invoke_provider_def Let_def)
  ultimately show ?thesis using assms(2)
    by (simp add: on_entry_def tokens_follow_def sent_tokens_def note_event_of_def falls_before_calls_append times_fallen_def is_call_def is_fall_back_def)
qed

lemma subseq_front: "subseq (xs @ ys) zs \<Longrightarrow> subseq xs zs"
  using subseq_order.order_trans subseq_rev_drop_many by blast

lemma fall_back_on_entry:
  assumes "fall_back sv s = (moved, s')" and "on_entry sv taken s"
  shows "entry_known sv s'"
proof -
  obtain r rest skipped where e: "next_entry sv s [] (cs_queue s) = (r, rest, skipped)" by (metis prod_cases3)
  note spec = next_entry_spec [OF e]
  show ?thesis
  proof (cases r)
    case None
    then have "rest = []" using spec by simp
    then have "on_entry sv taken (s\<lparr>cs_queue := rest\<rparr>)"
      using assms(2) by (auto simp: on_entry_def tokens_follow_def sent_tokens_def intro: subseq_front)
    moreover from this have "on_entry sv taken (note_event_of (NoFallbackLeft (where_now sv s) skipped) (s\<lparr>cs_queue := rest\<rparr>))" by (rule on_entry_note) simp_all
    ultimately have "on_entry sv taken s'" using assms(1) e None by (auto simp: fall_back_def Let_def split: if_splits)
    then show ?thesis by (auto simp: entry_known_def)
  next
    case (Some p)
    then obtain llm t passed where p: "p = (llm, t)" "cs_queue s = passed @ t # rest" using spec by (cases p) auto
    have "subseq (t # rest) (passed @ t # rest)" by (rule subseq_drop_many) simp
    then have "subseq (taken @ t # rest) (taken @ passed @ t # rest)" by (simp only: subseq_append')
    then have "subseq ((taken @ [t]) @ rest) (ls_fallbacks sv)" using assms(2) p(2) by (auto simp: on_entry_def intro: subseq_order.order_trans)
    moreover have "k \<le> length taken" if "k \<in> set (falls_before_calls 0 (cs_events s))" for k
      using falls_le [OF that] assms(2) by (simp add: on_entry_def tokens_follow_def)
    then have "map (\<lambda>k. map_option PStr (token_after sv (taken @ [t]) k)) (falls_before_calls 0 (cs_events s)) =
        map (\<lambda>k. map_option PStr (token_after sv taken k)) (falls_before_calls 0 (cs_events s))"
      by (fastforce simp: token_after_def nth_append)
    ultimately have "on_entry sv (taken @ [t]) s'"
      using assms e Some p by (auto simp: fall_back_def Let_def note_event_of_def on_entry_def tokens_follow_def sent_tokens_def
          falls_before_calls_append times_fallen_def is_call_def is_fall_back_def)
    then show ?thesis by (auto simp: entry_known_def)
  qed
qed

lemma wait_on_entry:
  assumes "wait_for_allowance en sv e s = Some (woke, s')" and "on_entry sv taken s"
  shows "on_entry sv taken s'"
proof -
  have "on_entry sv taken (note_event_of (WaitsForAllowance x y) s)" for x y
    by (rule on_entry_note [OF assms(2)]) (simp_all add: is_fall_back_def is_call_def)
  then have "on_entry sv taken (note_event_of (WaitOver woke z) ((note_event_of (WaitsForAllowance x y) s)\<lparr>cs_parked := q, cs_waits := n\<rparr>))" for x y z q n
    by (intro on_entry_note) (simp_all add: is_fall_back_def is_call_def on_entry_def tokens_follow_def sent_tokens_def)
  then show ?thesis using assms by (auto simp: wait_for_allowance_def Let_def bind_eq_Some_conv split: option.splits)
qed

lemma turn_on_entry:
  assumes "call_turn en sv it s = Some t" and "entry_known sv s"
  shows "case t of Inl s' \<Rightarrow> entry_known sv s' | Inr (a, s') \<Rightarrow> entry_known sv s'"
proof -
  obtain taken where on: "on_entry sv taken s" using assms(2) by (auto simp: entry_known_def)
  have after_failure: "on_entry sv taken (note_event_of (CallFailed it e) s1)" if "on_entry sv taken s1" for e s1
    by (rule on_entry_note [OF that]) (simp_all add: is_fall_back_def is_call_def)
  show ?thesis using assms(1)
  proof (cases rule: call_turn_cases)
    case (answered r s1)
    then show ?thesis using invoke_on_entry [OF answered(1) on] by (auto simp: entry_known_def)
  next
    case (roomier a e s1)
    then show ?thesis using after_failure [OF invoke_on_entry [OF roomier(1) on], of e]
      on_entry_same [of "(note_event_of (CallFailed it e) s1)\<lparr>cs_extra_room := None\<rparr>" "note_event_of (CallFailed it e) s1" sv taken]
      by (auto simp: entry_known_def)
  next
    case (failed a e s1)
    then show ?thesis using after_failure [OF invoke_on_entry [OF failed(1) on], of e] by (auto simp: entry_known_def)
  next
    case (moved a e s1 s3)
    then show ?thesis using fall_back_on_entry [OF moved(3) after_failure [OF invoke_on_entry [OF moved(1) on]]] by simp
  next
    case (waited a e s1 s3 woke s4)
    then obtain taken' where "on_entry sv taken' s3" using fall_back_on_entry [OF waited(3) after_failure [OF invoke_on_entry [OF waited(1) on]]] by (auto simp: entry_known_def)
    from wait_on_entry [OF waited(4) this] show ?thesis using waited(5) by (auto simp: entry_known_def)
  qed
qed

interpretation pins: run_keeps en sv "entry_known sv" "entry_known sv"
  for en sv
proof unfold_locales
  fix s it s' assume "entry_known sv s" and "call_turn en sv it s = Some (Inl s')"
  then show "entry_known sv s'" using turn_on_entry [of en sv it s "Inl s'"] by simp
next
  fix s it r s' assume "entry_known sv s" and "call_turn en sv it s = Some (Inr (Inr r, s'))"
  then show "entry_known sv s'" using turn_on_entry [of en sv it s "Inr (Inr r, s')"] by simp
next
  fix s it e s' assume "entry_known sv s" and "call_turn en sv it s = Some (Inr (Inl e, s'))"
  then show "entry_known sv s'" using turn_on_entry [of en sv it s "Inr (Inl e, s')"] by simp
next
  fix s ev assume "entry_known sv s" and "\<not> is_call ev" and "\<not> is_fall_back ev"
  then show "entry_known sv (note_event_of ev s)" using on_entry_note unfolding entry_known_def by blast
next
  fix s it r calls assume "entry_known sv s"
  then show "entry_known sv (execute_and_inject_tools en sv it r calls s)"
    by (simp add: entry_known_def on_entry_def tokens_follow_def sent_tokens_def execute_and_inject_tools_def Let_def)
qed (simp_all add: entry_known_def on_entry_def tokens_follow_def sent_tokens_def)

text \<open>C39: Every call goes out on the token of where it goes, and on no other: the agent's own until it falls back, and then the token of the entry it fell back to last - none
  where the agent or the entry names none - whatever the provider settings say. The entries come from the list in its order, one for each time it fell back.\<close>

theorem calls_use_named_tokens:
  assumes "llm_run en sv ms = Some (a, s)"
  shows "\<exists>taken. subseq taken (ls_fallbacks sv) \<and> length taken = times_fallen (cs_events s) \<and>
    map (\<lambda>rq. dget (rq_kwargs rq) ''token'') (cs_sent s) = map (\<lambda>k. map_option PStr (token_after sv taken k)) (falls_before_calls 0 (cs_events s))"
proof -
  have "on_entry sv [] (fresh_state sv ms)" by (simp add: on_entry_def tokens_follow_def sent_tokens_def fresh_state_def times_fallen_def)
  then have "entry_known sv s" using pins.llm_run_keeps [OF assms] by (auto simp: entry_known_def)
  then obtain taken where "on_entry sv taken s" by (auto simp: entry_known_def)
  then show ?thesis
    by (intro exI [of _ taken]) (auto simp: on_entry_def tokens_follow_def sent_tokens_def intro: subseq_front)
qed

section \<open>A run ends\<close>

lemma turn_within_ceiling:
  assumes "call_turn en sv it s = Some t" and "cs_parked s \<le> allowance_max_wait sv"
  shows "case t of Inl s' \<Rightarrow> cs_parked s' \<le> allowance_max_wait sv | Inr (a, s') \<Rightarrow> \<not> isl a \<longrightarrow> cs_parked s' \<le> allowance_max_wait sv"
  using assms(1)
proof (cases rule: call_turn_cases)
  case (answered r s1)
  then show ?thesis using assms(2) invoke_keeps [OF answered(1)] by simp
next
  case (roomier a e s1)
  then show ?thesis using assms(2) invoke_keeps [OF roomier(1)] by simp
next
  case (failed a e s1)
  then show ?thesis by simp
next
  case (moved a e s1 s3)
  then show ?thesis using assms(2) invoke_keeps [OF moved(1)] fall_back_keeps [OF moved(3)] by simp
next
  case (waited a e s1 s3 woke s4)
  then show ?thesis using wait_cases(2) [OF waited(4)] by simp
qed

interpretation ceiling: run_keeps en sv "\<lambda>s. cs_parked s \<le> allowance_max_wait sv" "\<lambda>_. True"
  for en sv
  by unfold_locales (use turn_within_ceiling in \<open>force simp: execute_and_inject_tools_def Let_def\<close>)+

definition spent_and_left :: "llm_service \<Rightarrow> call_state \<Rightarrow> nat" where
  "spent_and_left sv s = length (cs_sent s) + calls_left sv s"

lemma spent_and_left_room: "spent_and_left sv (s\<lparr>cs_retries := k, cs_extra_room := room\<rparr>) \<le> Suc (spent_and_left sv s)"
  by (simp add: spent_and_left_def calls_left_def)

lemma spent_and_left_same [simp]:
  "spent_and_left sv (note_event_of ev s) = spent_and_left sv s" "spent_and_left sv (s\<lparr>cs_messages := ms\<rparr>) = spent_and_left sv s"
  "spent_and_left sv (s\<lparr>cs_response := r, cs_tokens := n, cs_cost := c\<rparr>) = spent_and_left sv s"
  "spent_and_left sv (execute_and_inject_tools en sv' it r' calls s) = spent_and_left sv s"
  by (simp_all add: spent_and_left_def calls_left_def execute_and_inject_tools_def Let_def)

lemma spent_and_left_clear: "spent_and_left sv (s\<lparr>cs_retries := k, cs_extra_room := None\<rparr>) \<le> spent_and_left sv s"
  by (simp add: spent_and_left_def calls_left_def)

lemma call_llm_returns:
  assumes "env_ok en"
  shows "\<exists>a s'. call_llm en sv it s = Some (a, s') \<and> spent_and_left sv s' \<le> Suc (spent_and_left sv s)"
proof -
  obtain a s' where "call_loop en sv it s = Some (a, s')" and "spent_and_left sv s' \<le> Suc (spent_and_left sv s)"
    using call_loop_returns [OF assms, of sv it s] by (auto simp: spent_and_left_def)
  then show ?thesis by (cases a) (auto simp: call_llm_def)
qed

lemma no_tool_calls_spends:
  "no_tool_calls sv it r s = (res, s') \<Longrightarrow> spent_and_left sv s' \<le> Suc (spent_and_left sv s) \<and> (\<forall>x. res = Some x \<longrightarrow> rr_iterations x = it)"
  using spent_and_left_room [where sv = sv and s = s] by (auto simp: no_tool_calls_def build_result_def Let_def split: if_splits)

lemma run_iteration_returns:
  assumes "env_ok en"
  shows "\<exists>a s'. run_iteration en sv it s = Some (a, s') \<and> spent_and_left sv s' \<le> spent_and_left sv s + 2 \<and> (\<forall>x. a = Inr (Some x) \<longrightarrow> rr_iterations x \<le> it)"
proof (cases "ls_total_timeout sv < en_elapsed en it - cs_parked s")
  case True
  then show ?thesis by (auto simp: run_iteration_def build_result_def Let_def)
next
  case False
  obtain b s1 where c: "call_llm en sv it s = Some (b, s1)" and left: "spent_and_left sv s1 \<le> Suc (spent_and_left sv s)"
    using call_llm_returns [OF assms] by blast
  show ?thesis
  proof (cases b)
    case (Inl e)
    then show ?thesis using False c left by (auto simp: run_iteration_def Let_def)
  next
    case (Inr p)
    obtain r cost where p: "p = (r, cost)" by fastforce
    let ?s2 = "s1\<lparr>cs_response := Some r, cs_tokens := cs_tokens s1 + (case rs_total_tokens r of Some n \<Rightarrow> n | None \<Rightarrow> 0), cs_cost := cs_cost s1 + cost\<rparr>"
    obtain res s3 where n: "no_tool_calls sv it r ?s2 = (res, s3)" by fastforce
    have "spent_and_left sv (?s2\<lparr>cs_retries := 0, cs_extra_room := None\<rparr>) \<le> Suc (spent_and_left sv s)"
      using spent_and_left_clear [where sv = sv and s = ?s2 and k = 0] left by simp
    then show ?thesis using False c Inr p n no_tool_calls_spends [OF n] left
      by (auto simp: run_iteration_def build_result_def Let_def)
  qed
qed

lemma run_from_returns:
  assumes "env_ok en" and "it + left = Suc (ls_max_iterations sv)"
  shows "\<exists>a s'. run_from en sv it left s = Some (a, s') \<and> spent_and_left sv s' \<le> spent_and_left sv s + 2 * left \<and>
    (\<forall>x. a = Inr x \<longrightarrow> rr_iterations x \<le> ls_max_iterations sv)"
  using assms(2)
proof (induction left arbitrary: it s)
  case 0
  then show ?case by (auto simp: build_result_def Let_def)
next
  case (Suc left)
  obtain b s1 where r: "run_iteration en sv it s = Some (b, s1)" and spent: "spent_and_left sv s1 \<le> spent_and_left sv s + 2"
    and its: "\<forall>x. b = Inr (Some x) \<longrightarrow> rr_iterations x \<le> it"
    using run_iteration_returns [OF assms(1)] by metis
  have it: "it \<le> ls_max_iterations sv" using Suc.prems by simp
  obtain a s' where rest: "run_from en sv (Suc it) left s1 = Some (a, s')" "spent_and_left sv s' \<le> spent_and_left sv s1 + 2 * left"
    "\<forall>x. a = Inr x \<longrightarrow> rr_iterations x \<le> ls_max_iterations sv"
    using Suc.IH [of "Suc it" s1] Suc.prems by auto
  show ?case
  proof (cases "en_cancelled en it \<or> en_budget en it \<noteq> None")
    case True
    then show ?thesis using it by (auto simp: build_result_def)
  next
    case False
    show ?thesis
    proof (cases b)
      case (Inl e)
      then show ?thesis using False r spent by auto
    next
      case (Inr o1)
      then show ?thesis using False r spent its it rest by (cases o1) auto
    qed
  qed
qed

text \<open>C37: A run always returns when clocks go on, after at most two requests per turn, one for each entry of the fallback list and one for each least wait that fits its ceiling;
  the turns it reports are at most those it may take, and where it gives a result the time it was parked is within the ceiling.\<close>

theorem llm_run_returns:
  assumes "env_ok en"
  shows "\<exists>a s. llm_run en sv ms = Some (a, s) \<and>
    length (cs_sent s) \<le> 2 * ls_max_iterations sv + length (ls_fallbacks sv) + nat \<lfloor>allowance_max_wait sv / MIN_WAIT_S\<rfloor> \<and>
    (\<forall>x. a = Inr x \<longrightarrow> rr_iterations x \<le> ls_max_iterations sv \<and> cs_parked s \<le> allowance_max_wait sv)"
proof -
  obtain a s where run: "llm_run en sv ms = Some (a, s)" and spent: "spent_and_left sv s \<le> spent_and_left sv (fresh_state sv ms) + 2 * ls_max_iterations sv"
    and its: "\<forall>x. a = Inr x \<longrightarrow> rr_iterations x \<le> ls_max_iterations sv"
    using run_from_returns [OF assms, of 1 "ls_max_iterations sv" sv "fresh_state sv ms"] unfolding llm_run_def by auto
  have "spent_and_left sv (fresh_state sv ms) = length (ls_fallbacks sv) + nat \<lfloor>allowance_max_wait sv / MIN_WAIT_S\<rfloor>"
    by (simp add: spent_and_left_def calls_left_def fresh_state_def)
  moreover have "0 \<le> allowance_max_wait sv" by (simp add: allowance_max_wait_def DEFAULT_MAX_WAIT_def split: option.split)
  then have "\<forall>x. a = Inr x \<longrightarrow> cs_parked s \<le> allowance_max_wait sv" using ceiling.llm_run_keeps [OF run] by (auto simp: fresh_state_def)
  ultimately show ?thesis using run spent its by (auto simp: spent_and_left_def)
qed

section \<open>A concrete run\<close>

text \<open>An account that is out, the fallback that answers with a tool call, and then the answer.\<close>

definition demo_llm :: llm_provider where
  "demo_llm = \<lparr>lp_id = 0, lp_name = ''anthropic'', lp_model = ''opus'', lp_max_tokens = PInt 100, lp_supports_tools = True, lp_cooling_until = (\<lambda>_ _. None)\<rparr>"

definition demo_sv :: llm_service where
  "demo_sv =
     \<lparr>ls_own = demo_llm, ls_fallbacks = [\<lparr>ft_provider = None, ft_model = Some ''sonnet'', ft_config = None, ft_token = Some ''b''\<rparr>], ls_resolve = (\<lambda>_. None), ls_token = Some ''a'',
      ls_max_iterations = 4, ls_wrap_up_turns = 3, ls_max_messages = 4, ls_max_context_tokens = 2, ls_total_timeout = 300, ls_has_tools = True, ls_has_executor = True,
      ls_named = [], ls_model = Some ''opus'', ls_config = [(''token'', PStr ''stolen'')], ls_wait_max = Some 20\<rparr>"

definition demo_exhausted :: llm_error where
  "demo_exhausted = \<lparr>le_pool = True, le_kind = ''PoolExhausted'', le_text = ''pool'', le_status = PNone, le_response_status = None, le_headers = None, le_reset = ResetNumber 10\<rparr>"

definition demo_reply :: "string \<Rightarrow> raw_call list \<Rightarrow> llm_response" where
  "demo_reply text calls =
     \<lparr>rs_content = Some text, rs_provider = ''anthropic'', rs_model = ''sonnet'', rs_total_tokens = Some 7, rs_finish_reason = Some ''stop'', rs_tool_calls = calls,
      rs_reported_cost = PNone\<rparr>"

definition demo_en :: llm_env where
  "demo_en =
     \<lparr>en_answer = (\<lambda>n rq. if n = 0 then Inl demo_exhausted
                      else if n = 1 then Inr (demo_reply [] [\<lparr>rw_id = ''c1'', rw_name = ''Read'', rw_arguments = Some (PDict [])\<rparr>])
                      else Inr (demo_reply ''done'' [])),
      en_time = (\<lambda>_. 0), en_wait = (\<lambda>_. (\<lambda>_. False, \<lambda>i. rat_of_nat i * 5)), en_cut_short = (\<lambda>_. 0), en_iso_time = (\<lambda>_. None), en_cancelled = (\<lambda>_. False),
      en_budget = (\<lambda>_. None), en_elapsed = (\<lambda>_. 0), en_tool = (\<lambda>_ _ _. Inr (PStr ''text'')), en_estimate = (\<lambda>_. 0), en_loads = (\<lambda>_. None), en_dumps = (\<lambda>_. ''{}'')\<rparr>"

definition demo_ask :: "message list" where
  "demo_ask = [plain_message ''system'' ''s'', plain_message ''user'' ''u'']"

lemma demo_en_ok: "env_ok demo_en"
  by (auto simp: env_ok_def demo_en_def clock_runs_def nap_def SLICE_S_def)

lemma demo_run:
  "map_option (\<lambda>(a, s). (map (\<lambda>rq. dget (rq_kwargs rq) ''token'') (cs_sent s), map (\<lambda>rq. length (rq_messages rq)) (cs_sent s), falls_before_calls 0 (cs_events s),
       times_fallen (cs_events s))) (llm_run demo_en demo_sv demo_ask) =
     Some ([Some (PStr ''a''), Some (PStr ''b''), Some (PStr ''b'')], [2, 2, 4], [0, 1, 1], 1)"
  by code_simp

lemma demo_run_sent:
  obtains a s where "llm_run demo_en demo_sv demo_ask = Some (a, s)" and "map (\<lambda>rq. dget (rq_kwargs rq) ''token'') (cs_sent s) = [Some (PStr ''a''), Some (PStr ''b''), Some (PStr ''b'')]"
    and "map (\<lambda>rq. length (rq_messages rq)) (cs_sent s) = [2, 2, 4]" and "falls_before_calls 0 (cs_events s) = [0, 1, 1]" and "times_fallen (cs_events s) = 1"
proof (cases "llm_run demo_en demo_sv demo_ask")
  case (Some p)
  then show ?thesis using that [of "fst p" "snd p"] demo_run by (auto simp: case_prod_beta)
qed (use demo_run in simp)

theorem every_request_is_valid_witness:
  "\<exists>a s rq. llm_run demo_en demo_sv demo_ask = Some (a, s) \<and> rq \<in> set (cs_sent s) \<and> length (rq_messages rq) = 4 \<and> paired [] (rq_messages rq) \<and>
     list_ex (\<lambda>m. mg_role m = ''user'') (rq_messages rq)"
proof -
  obtain a s where run: "llm_run demo_en demo_sv demo_ask = Some (a, s)" and len: "map (\<lambda>rq. length (rq_messages rq)) (cs_sent s) = [2, 2, 4]" by (rule demo_run_sent)
  have "4 \<in> set (map (\<lambda>rq. length (rq_messages rq)) (cs_sent s))" unfolding len by simp
  then obtain rq where rq: "rq \<in> set (cs_sent s)" "length (rq_messages rq) = 4" by auto
  have "paired [] demo_ask" "list_ex (\<lambda>m. mg_role m = ''user'') demo_ask" "list_all (\<lambda>m. mg_role m = ''user'' \<longrightarrow> mg_calls m = []) demo_ask"
    "int (prefix_end demo_ask) < min (ls_max_messages demo_sv) 10" by code_simp+
  from every_request_is_valid [OF this run rq(1)] show ?thesis using run rq by blast
qed

theorem calls_use_named_tokens_witness:
  "\<exists>a s taken. llm_run demo_en demo_sv demo_ask = Some (a, s) \<and> falls_before_calls 0 (cs_events s) = [0, 1, 1] \<and> subseq taken (ls_fallbacks demo_sv) \<and> length taken = 1 \<and>
     map (\<lambda>rq. dget (rq_kwargs rq) ''token'') (cs_sent s) = map (\<lambda>k. map_option PStr (token_after demo_sv taken k)) [0, 1, 1] \<and>
     map (\<lambda>rq. dget (rq_kwargs rq) ''token'') (cs_sent s) = [Some (PStr ''a''), Some (PStr ''b''), Some (PStr ''b'')]"
proof -
  obtain a s where run: "llm_run demo_en demo_sv demo_ask = Some (a, s)" and toks: "map (\<lambda>rq. dget (rq_kwargs rq) ''token'') (cs_sent s) = [Some (PStr ''a''), Some (PStr ''b''), Some (PStr ''b'')]"
    and falls: "falls_before_calls 0 (cs_events s) = [0, 1, 1]" "times_fallen (cs_events s) = 1" by (rule demo_run_sent)
  then show ?thesis using calls_use_named_tokens [OF run] by auto
qed

theorem llm_run_returns_witness:
  "\<exists>a s. llm_run demo_en demo_sv demo_ask = Some (a, s) \<and> length (cs_sent s) \<le> 2 * 4 + 1 + nat \<lfloor>20 / MIN_WAIT_S\<rfloor>"
  using llm_run_returns [OF demo_en_ok, of demo_sv demo_ask] by (auto simp: demo_sv_def allowance_max_wait_def)

end
