(* ===== verification/Spec2Isabelle.thy ===== *)
theory Spec2Isabelle
  imports Topology Failure Checkpoint Restore Restore_Once Inputs Template Dispatch_Render Dispatch_Limits World Loops Dispatch
    Iterate Node_Run Executor Runs Turns Stage_Run Safety Tool_Executor Gate_Text Gate Plan Run_Rows Parked Reaper
    Config_Store Dispatch_Validate Loader Resume_Claim
    Token_Pool Triggers Allowance Llm_Service
begin

text \<open>
  A verification of the workflow engine of temper-ai: the code under \<^verbatim>\<open>src/temper_ai/stage\<close>,
  \<^verbatim>\<open>src/temper_ai/checkpoint\<close> and the parts of \<^verbatim>\<open>src/temper_ai/runner\<close> and \<^verbatim>\<open>src/temper_ai/spawner\<close> that start, park,
  resume and end its runs, the configuration store they load from (\<^verbatim>\<open>src/temper_ai/config\<close>), the rules that start runs on
  their own (\<^verbatim>\<open>src/temper_ai/triggers\<close>), of what stands between an agent and the machine: \<^verbatim>\<open>src/temper_ai/safety\<close> and
  \<^verbatim>\<open>src/temper_ai/tools/executor.py\<close>, and of the loop of calls an agent makes to its language model (\<^verbatim>\<open>src/temper_ai/llm\<close>).

  The program. A workflow is a graph of nodes; a node is an agent or a stage, and a stage is a graph
  again. The executor sorts a graph into batches, runs them in order, hands each node its inputs from
  the results of earlier nodes, and records every outcome in a checkpoint log and an event log. A node
  may send the graph back (a loop), add or remove nodes while the graph runs (a dispatch), or wait for
  a person (a gate). A failure stops the run; clean-ups are then held or run. A run that stopped is
  resumed from its checkpoints, graph by graph. An agent's tool calls go through one executor, which asks
  the safety policies, keeps paths inside the workspace and limits the time. Its calls to a model go out on an account a pool
  chooses; when the account is out the call moves to the next account, down the agent's fallback list, or waits.

  Theories, in the order they build on each other.
  \<^item> \<^theory_text>\<open>Py_Prelude\<close>: Python values, dictionaries in insertion order, strings, exceptions as values;
    \<^theory_text>\<open>Iterate\<close>: a loop that may not end, and the contract \<open>bounded_loop\<close> of one that does.
  \<^item> \<^theory_text>\<open>Types\<close>: results, configuration and nodes (\<^verbatim>\<open>shared/types.py\<close>, \<^verbatim>\<open>stage/models.py\<close>, \<^verbatim>\<open>stage/node.py\<close>).
  \<^item> \<^theory_text>\<open>Conditions\<close> (\<^verbatim>\<open>stage/conditions.py\<close>), \<^theory_text>\<open>Toposort\<close> (\<^verbatim>\<open>topological_sort\<close> of \<^verbatim>\<open>stage/executor.py\<close>, with the
    contract \<open>batch_scheduler\<close>), \<^theory_text>\<open>Topology\<close> (\<^verbatim>\<open>stage/topology.py\<close>).
  \<^item> \<^theory_text>\<open>Failure\<close> (\<^verbatim>\<open>stage/failure.py\<close> and the executor's decisions after a failure).
  \<^item> \<^theory_text>\<open>Checkpoint\<close> (\<^verbatim>\<open>checkpoint/service.py\<close>, with the contract \<open>result_log\<close> that the table refines) and
    \<^theory_text>\<open>Restore\<close> (\<^verbatim>\<open>stage/restore.py\<close>); \<^theory_text>\<open>Restore_Once\<close>: what graphs that claim one after the other get, renames included.
  \<^item> \<^theory_text>\<open>Inputs\<close> (input resolution and the reading of results), \<^theory_text>\<open>Template\<close> (\<^verbatim>\<open>stage/template_expansion.py\<close>),
    \<^theory_text>\<open>Dispatch_Render\<close> (\<^verbatim>\<open>stage/dispatch.py\<close>), \<^theory_text>\<open>Dispatch_Limits\<close> (\<^verbatim>\<open>stage/dispatch_limits.py\<close>).
  \<^item> \<^theory_text>\<open>World\<close>: what the graphs of a run share and what one graph keeps; \<^theory_text>\<open>Loops\<close> (\<^verbatim>\<open>_handle_loop\<close>);
    \<^theory_text>\<open>Dispatch\<close> (\<^verbatim>\<open>_apply_declarative_dispatch\<close>); \<^theory_text>\<open>Node_Run\<close> (one node, one parallel batch);
    \<^theory_text>\<open>Executor\<close> (\<^verbatim>\<open>execute_graph\<close>); \<^theory_text>\<open>Runs\<close>: whole runs, that they end and what their verdict means;
    \<^theory_text>\<open>Turns\<close>: what all turns of a graph together come to (times it goes back, nodes added), with the contract \<open>metered\<close>
    of a loop whose counter covers what its turns do.
  \<^item> \<^theory_text>\<open>Stage_Run\<close> (\<^verbatim>\<open>stage/agent_node.py\<close>, \<^verbatim>\<open>stage/stage_node.py\<close>, \<^verbatim>\<open>stage/input_defaults.py\<close>): what the executor
    calls \<open>node.run\<close>, and with it graphs inside graphs.
  \<^item> \<^theory_text>\<open>Safety\<close> (\<^verbatim>\<open>safety/\<close>, with the contract \<open>first_objection\<close> of a chain of checks) and \<^theory_text>\<open>Tool_Executor\<close>
    (\<^verbatim>\<open>tools/executor.py\<close>): every check a tool call passes.
  \<^item> \<^theory_text>\<open>Gate_Text\<close> (the questions and responses of \<^verbatim>\<open>stage/gate.py\<close>) and \<^theory_text>\<open>Gate\<close> (the waits of \<^verbatim>\<open>stage/gate.py\<close>, the
    events of \<^verbatim>\<open>observability/recorder.py\<close> they are kept in, \<^verbatim>\<open>_wait_for_gate\<close> of the executor): a step relation
    of one worker, the people who answer, and the stops and restarts of the run.
  \<^item> \<^theory_text>\<open>Plan\<close> (\<^verbatim>\<open>stage/plan.py\<close>): what a resume will do with each step and why, and the restore built from it.
  \<^item> \<^theory_text>\<open>Run_Rows\<close> (\<^verbatim>\<open>runner/queue.py\<close>, \<^verbatim>\<open>runner/lanes.py\<close>, \<^verbatim>\<open>runner/row_generation.py\<close>, \<^verbatim>\<open>runner/holds.py\<close>,
    \<^verbatim>\<open>runner/cleanup_dispatch.py\<close>): the rows of runs and of held clean-ups, one transaction each; \<^theory_text>\<open>Parked\<close>
    (\<^verbatim>\<open>runner/parked.py\<close>): runs that wait on a person without a worker, with a step relation of everyone who may
    carry one on or cancel it; \<^theory_text>\<open>Resume_Claim\<close> (\<^verbatim>\<open>runner/resume_claim.py\<close>, \<^verbatim>\<open>runner/attempts.py\<close>): who carries a run on
    that was cut off, with a step relation of askers who interleave, and the attempt an event belongs to;
    \<^theory_text>\<open>Reaper\<close> (\<^verbatim>\<open>spawner/reaper.py\<close>): the sweeper over the live rows.
  \<^item> \<^theory_text>\<open>Config_Store\<close> (\<^verbatim>\<open>config/store.py\<close>, \<^verbatim>\<open>config/helpers.py\<close>, \<^verbatim>\<open>config/importer.py\<close>, \<^verbatim>\<open>config/exporter.py\<close>, with the
    contract \<open>keyed_store\<close>), \<^theory_text>\<open>Dispatch_Validate\<close> (\<^verbatim>\<open>stage/dispatch_validation.py\<close>) and \<^theory_text>\<open>Loader\<close> (\<^verbatim>\<open>stage/loader.py\<close>,
    \<^verbatim>\<open>stage/pi_workflows.py\<close>, the reading of \<^verbatim>\<open>stage/models.py\<close>): from the rows of configurations to checked nodes.
  \<^item> \<^theory_text>\<open>Calendar\<close> (dates and texts of moments, as \<^verbatim>\<open>datetime\<close> has them), \<^theory_text>\<open>Cron\<close> (\<^verbatim>\<open>triggers/cron.py\<close>) and \<^theory_text>\<open>Triggers\<close>
    (\<^verbatim>\<open>triggers/rules.py\<close>, \<^verbatim>\<open>triggers/scheduler.py\<close>): rules that start runs, with a step relation of servers whose passes interleave.
  \<^item> \<^theory_text>\<open>Token_Pool\<close> (\<^verbatim>\<open>llm/token_pool.py\<close>, \<^verbatim>\<open>llm/shared_cooldowns.py\<close>, \<^verbatim>\<open>llm/week_usage.py\<close>): the accounts of a pool and what processes tell
    each other about them through Redis; \<^theory_text>\<open>Allowance\<close> (\<^verbatim>\<open>llm/fallback.py\<close>, \<^verbatim>\<open>llm/allowance.py\<close>): fallback lists, failures for want of capacity and
    the wait for an allowance; \<^theory_text>\<open>Transcript\<close> and \<^theory_text>\<open>Llm_Service\<close> (\<^verbatim>\<open>llm/service.py\<close>, \<^verbatim>\<open>llm/response_parser.py\<close>, \<^verbatim>\<open>llm/tool_execution.py\<close>): the
    messages of a run of calls and the run itself, with the contract \<open>run_keeps\<close> of what every step of a run keeps.

  State. The objects all graphs of a run share (\<open>RunStop\<close>, \<open>Restore\<close>, the checkpoint service, the event
  recorder, the dispatch states) are the record \<open>world\<close>, passed along and returned changed; what one graph
  keeps (batches, node map, results, loop counts, feedback, retired attempts) is \<open>graph_state\<close>. Exceptions
  are values: \<open>Inl\<close> of a sum, or \<open>Raised\<close> and \<open>Parked\<close> of an \<open>outcome\<close>.

  Parameters. What lies outside the repository or outside the model is an argument: the database
  accepting a row, the clock, the file system, the cancel signal and the order in which parallel
  nodes complete (\<open>run_env\<close>); Jinja, JSON, the digest and the graph loader (\<open>dispatch_env\<close>); a node's own
  \<open>run\<close> and the wait at a gate (\<open>hooks\<close>), of which \<open>run\<close> is then given by \<^theory_text>\<open>Stage_Run\<close> over the agents (\<open>agents\<close>);
  configured regular expressions (\<open>regex_lib\<close>); path resolution and the tools' own work (\<open>tool_env\<close>); the time
  of a write and the reading of times (\<open>clock\<close>), which workspaces are allowed, and the spawner's answers (\<open>spawner\<close>);
  the environment and new ids (\<open>store_env\<close>), YAML and files (\<open>config_source\<close>), and what the loader calls (\<open>loader\<close>); Redis (\<open>redis\<close>, with what its sorted sets promise as \<open>redis_ok\<close>) and the
  digest of a token (\<open>digest_ok\<close>); time zones (\<open>tz\<close>), the runs there are and starting one (\<open>trigger_env\<close>); what providers, tools and clocks answer a run
  of calls (\<open>llm_env\<close>).

  What is shown. The order of batches is sound, complete and earliest; the checkpoint log refines a
  map of finished results, at every point in time and across forks; a resume reruns exactly what a
  failure reaches and restores nothing twice; a failure stops the run once and is carried down with
  its root; loops are bounded and lose no spending; dispatch keeps its caps, and its bookkeeping
  survives a restart; the loop over batches ends, whatever its nodes dispatch and however often they
  send it back, and so do graphs inside graphs. A tool runs only when every check that applies to the call allows it, and
  none runs on a spent budget; a step that names a policy's type in \<open>skip_policies\<close> goes past that policy, the platform's
  baseline included (\<open>baseline_can_be_skipped\<close>). A gate lets its step go on once per approval of a
  person, under every interleaving, and does not ask again for an answer it has. The plan of a resume runs
  again what a failure, a tick or a missing result reaches, with the stages its test of paths takes to be around it, and keeps
  nothing that used such a step. A run never
  gets a second box, an end written on an old read lands on no newer generation, a held clean-up is let go
  once, a parked attempt is carried on once and never also cancelled, and the reaper kills nothing it has not
  asked to stop and touches no other lane. At most one of the askers for a cut-off run has its claim. A
  configuration is read as it was written, one by one or in a batch, and survives its export; a workflow that
  loads names only nodes it has, its agents get their settings in a fixed order of precedence, and a static dispatch
  block that passed its check renders. A pool gives only an account that can be used, and an account one process found out is picked by
  no other. A cron rule's next time is the first minute that matches, what an interval rule owes is counted once, and no due time, finished run
  or stuck run starts two runs, however many servers look. A run of calls ends within a number of requests its settings give, sends (under the policy \<open>truncate\<close>)
  only transcripts in which tool calls and results stand together, sends each call on the token of the entry it goes to, and wakes only after the reset it waits for.

  Bounds. \<open>load_parent_chain\<close> has one unit of fuel per row, which is enough because a parent pointer
  leads to an earlier row (\<open>history_loads\<close>). The nesting of stages is bounded by a number, as it is by the
  interpreter's recursion limit: a deeper stage raises; so is the chain of references the loader follows, for which
  a bound that is enough is given where the references end (\<open>references_end\<close>). An asker's three tries take at
  most twelve steps. The search for a cron rule's time stops after 366 days, as in the code. Floats are rationals; sums are exact. Characters are
  code points up to 255.

  Abstractions that leave something out. Keys of the shared board in Redis do not expire (\<open>KEEP_S\<close> is set and has no effect: a
  cooling whose end is past is skipped when it is read, expired or not). Moments are exact rationals, so the rounding of
  \<^verbatim>\<open>timedelta\<close> to microseconds is the identity (\<open>plan_schedule\<close>). \<open>close_graph\<close> is the end of one graph: when a later attempt
  has replaced this one, the step the graph stands in writes \<open>note_replaced\<close> on its own event too (\<open>run_node_with_events\<close>), and so
  does each graph around it. \<open>invoke_provider\<close> trims as the policy \<open>truncate\<close> does, which the service also does for an agent without
  tools; the default policy \<open>compress\<close> sends a view of the transcript instead.

  Not modelled. Threads: the nodes of a parallel batch run one after the other, in any order. Admission
  hooks, which are absent unless a run is started under admission. The in-process signals of a gate, the
  letting go of the worker of a run that parks (a stop, in \<^theory_text>\<open>Gate\<close>) and a step's own waits; two attempts of one run alive at the
  same time. The run-start checks of registered strategies, a sealed box's own configuration files, and
  configuration fields of a type the code does not expect, which \<^theory_text>\<open>Loader\<close> refuses at once. The compressor of transcripts, the pricing of calls, the
  webhooks that start runs and the threads around passes. What agents and tools do themselves, the clients of language
  models, the HTTP API, the command line, integrations, the spawner, the Pi agents and the
  authority service: calls to other systems.
\<close>

end
